(* ===== verification/Mcts_Prelude.thy ===== *)
theory Mcts_Prelude
  imports Main "HOL-Library.Word" "HOL-Library.Monad_Syntax" "HOL-Library.Multiset"
begin

unbundle bit_operations_syntax

text \<open>
  What the component theories share: the collections of rewrite rules, the model of C++ integer
  conversions, and checked array accesses.

  Every operation of the program that can fail (a failed \<^verbatim>\<open>assert\<close>, an array access out of its bounds,
  a call to \<^verbatim>\<open>abort\<close>) returns an \<^typ>\<open>'a option\<close>; \<^term>\<open>None\<close> is that failure. A loop that need not
  terminate is a partial function into the same type, so that not returning is \<^term>\<open>None\<close> too, and a
  statement that an operation returns is a statement that it is \<^term>\<open>Some\<close> of a value.
\<close>

named_theorems cast_simps \<open>integer conversions on the values the program uses\<close>
named_theorems access_simps \<open>checked array accesses that succeed\<close>
named_theorems inv_intros \<open>preservation of well-formedness invariants\<close>

section \<open>Machine integers\<close>

type_synonym u8 = "8 word"
type_synonym u64 = "64 word"

text \<open>\<^verbatim>\<open>index_t\<close> is \<^verbatim>\<open>std::int32_t\<close> (Typedefs.hpp); indices are integers here, and the places where the code
  narrows one are explicit. \<open>to_int8\<close> is the conversion to \<^verbatim>\<open>std::int8_t\<close>.\<close>

type_synonym index_t = int

definition to_int8 :: "int \<Rightarrow> int" where
  "to_int8 i = signed_take_bit 7 i"

lemma to_int8_id [cast_simps]: "-128 \<le> i \<Longrightarrow> i < 128 \<Longrightarrow> to_int8 i = i"
  by (simp add: to_int8_def signed_take_bit_int_eq_self)

lemma to_int8_range: "-128 \<le> to_int8 i \<and> to_int8 i < 128"
  using signed_take_bit_int_greater_eq_minus_exp [of 7 i] signed_take_bit_int_less_exp [of 7 i]
  by (simp add: to_int8_def)

lemma to_int8_to_int8 [simp]: "to_int8 (to_int8 i) = to_int8 i"
  by (simp add: to_int8_def)

text \<open>Conversion to \<^verbatim>\<open>std::int32_t\<close>, and what a 32-bit addition leaves in a register.\<close>

definition to_int32 :: "int \<Rightarrow> int" where
  "to_int32 i = signed_take_bit 31 i"

lemma to_int32_id [cast_simps]: "- (2 ^ 31) \<le> i \<Longrightarrow> i < 2 ^ 31 \<Longrightarrow> to_int32 i = i"
  by (simp add: to_int32_def signed_take_bit_int_eq_self)

text \<open>Conversion to an unsigned 64-bit integer, \<^verbatim>\<open>std::size_t\<close>: what happens to an \<^verbatim>\<open>index_t\<close> that is
  compared with a template parameter of type \<^verbatim>\<open>std::size_t\<close>.\<close>

definition to_size_t :: "int \<Rightarrow> int" where
  "to_size_t i = i mod 2 ^ 64"

lemma to_size_t_id [cast_simps]: "0 \<le> i \<Longrightarrow> i < 2 ^ 64 \<Longrightarrow> to_size_t i = i"
  by (simp add: to_size_t_def)

section \<open>Checked array accesses\<close>

definition aref :: "'a list \<Rightarrow> int \<Rightarrow> 'a option" where
  "aref xs i = (if 0 \<le> i \<and> i < int (length xs) then Some (xs ! nat i) else None)"

definition aset :: "'a list \<Rightarrow> int \<Rightarrow> 'a \<Rightarrow> 'a list option" where
  "aset xs i v = (if 0 \<le> i \<and> i < int (length xs) then Some (xs[nat i := v]) else None)"

lemma aref_Some [access_simps]:
  "0 \<le> i \<Longrightarrow> i < int (length xs) \<Longrightarrow> aref xs i = Some (xs ! nat i)"
  by (simp add: aref_def)

lemma aset_Some [access_simps]:
  "0 \<le> i \<Longrightarrow> i < int (length xs) \<Longrightarrow> aset xs i v = Some (xs[nat i := v])"
  by (simp add: aset_def)

lemma aref_eq_Some_iff:
  "aref xs i = Some v \<longleftrightarrow> 0 \<le> i \<and> i < int (length xs) \<and> v = xs ! nat i"
  by (auto simp: aref_def)

lemma aset_eq_Some_iff:
  "aset xs i v = Some ys \<longleftrightarrow> 0 \<le> i \<and> i < int (length xs) \<and> ys = xs[nat i := v]"
  by (auto simp: aset_def)

lemma aref_None_iff: "aref xs i = None \<longleftrightarrow> i < 0 \<or> int (length xs) \<le> i"
  by (auto simp: aref_def)

lemma aset_length: "aset xs i v = Some ys \<Longrightarrow> length ys = length xs"
  by (auto simp: aset_eq_Some_iff)

lemma aref_aset:
  assumes "aset xs i v = Some ys"
  shows "aref ys j = (if j = i then Some v else aref xs j)"
  using assms by (auto simp: aref_def aset_eq_Some_iff nth_list_update)

section \<open>Lists\<close>

text \<open>Removing position \<open>i\<close> by moving the last element into it, the way the arrays of moves do.\<close>

lemma mset_swap_last_out:
  assumes "i < length xs"
  shows "add_mset (xs ! i) (mset (butlast (xs[i := last xs]))) = mset xs"
proof -
  from assms have "xs \<noteq> []" by auto
  then obtain ys z where xs: "xs = ys @ [z]" by (metis rev_exhaust)
  show ?thesis
  proof (cases "i < length ys")
    case True
    then have "mset (ys[i := z]) = add_mset z (mset ys - {#ys ! i#})"
      by (simp add: mset_update)
    with True show ?thesis
      by (simp add: xs list_update_append nth_append)
  next
    case False
    with assms have "i = length ys" by (simp add: xs)
    then show ?thesis by (simp add: xs)
  qed
qed

lemma sum_list_update_nat:
  fixes f :: "'a \<Rightarrow> nat"
  assumes "i < length xs"
  shows "sum_list (map f (xs[i := v])) + f (xs ! i) = sum_list (map f xs) + f v"
  using assms by (induction xs arbitrary: i) (auto split: nat.splits)

section \<open>Words\<close>

lemma unat_drop_bit_less:
  fixes p :: "'a::len word"
  assumes "p \<noteq> 0" shows "unat (drop_bit 1 p) < unat p"
  using assms by (subst unat_drop_bit_eq) (simp add: drop_bit_eq_div unat_gt_0)

lemma unat_drop_bit_1: "unat (drop_bit 1 (p :: 'a::len word)) = unat p div 2"
  by (subst unat_drop_bit_eq) (simp add: drop_bit_eq_div)

lemma odd_unat_iff: "odd (unat (x :: 'a::len word)) \<longleftrightarrow> odd x"
  by (simp add: bit_unsigned_iff flip: bit_0)

lemma odd_uint_iff: "odd (uint (x :: 'a::len word)) \<longleftrightarrow> odd x"
  by (simp add: bit_unsigned_iff flip: bit_0)

lemma and_1_neq_0_iff: "(p :: 'a::len word) AND 1 \<noteq> 0 \<longleftrightarrow> odd p"
  by (simp add: and_one_eq even_iff_mod_2_eq_zero)

lemma pow2_dvd_odd_power:
  fixes a :: int
  assumes "odd a"
  shows "2 ^ Suc k dvd a ^ 2 ^ k - 1"
proof (induction k)
  case 0
  with assms show ?case by simp
next
  case (Suc k)
  have "a ^ 2 ^ Suc k - 1 = (a ^ 2 ^ k - 1) * (a ^ 2 ^ k + 1)"
    by (simp add: algebra_simps flip: power_add mult_2)
  moreover have "2 dvd a ^ 2 ^ k + 1" using assms by simp
  ultimately show ?case using mult_dvd_mono [OF Suc.IH, of 2 "a ^ 2 ^ k + 1"]
    by (simp add: mult.commute)
qed

lemma odd_word_power_length:
  fixes x :: "'a::len word"
  assumes "odd x"
  shows "x ^ 2 ^ LENGTH('a) = 1"
proof -
  let ?a = "uint x"
  have "odd ?a" using assms by (simp add: odd_uint_iff)
  from pow2_dvd_odd_power [OF this, of "LENGTH('a)"]
  have "2 ^ LENGTH('a) dvd ?a ^ 2 ^ LENGTH('a) - 1"
    by (metis dvd_mult_left power_Suc2)
  then have "(word_of_int (?a ^ 2 ^ LENGTH('a)) :: 'a word) = word_of_int 1"
    unfolding word_of_int_eq_iff take_bit_eq_mod mod_eq_dvd_iff .
  then show ?thesis by simp
qed

lemma xorshift_inj:
  fixes x y :: "'a::len word"
  assumes "0 < s" and "x XOR drop_bit s x = y XOR drop_bit s y"
  shows "x = y"
proof (rule bit_word_eqI)
  fix n assume "n < LENGTH('a)"
  have "bit x n = bit y n" for n
  proof (induction "LENGTH('a) - n" arbitrary: n rule: less_induct)
    case less
    show ?case
    proof (cases "n < LENGTH('a)")
      case True
      with assms(1) less have "bit x (s + n) = bit y (s + n)" by simp
      moreover have "bit (x XOR drop_bit s x) n = bit (y XOR drop_bit s y) n" using assms(2) by simp
      ultimately show ?thesis by (auto simp: bit_xor_iff bit_drop_bit_eq)
    next
      case False
      then show ?thesis by (metis bit_imp_le_length not_le)
    qed
  qed
  then show "bit x n = bit y n" .
qed

text \<open>The number of bits that are set, the specification of the population count.\<close>

definition num_bits :: "'a::len word \<Rightarrow> nat" where
  "num_bits x = card {n. bit x n}"

lemma and_pred_less: "(x :: 'a::len word) \<noteq> 0 \<Longrightarrow> unat (x AND (x - 1)) < unat x"
proof -
  assume "x \<noteq> 0"
  then have "x - 1 < x" by (simp add: word_less_nat_alt unat_minus_one unat_gt_0)
  moreover have "x AND (x - 1) \<le> x - 1" by (rule word_and_le1)
  ultimately show ?thesis by (simp add: word_le_nat_alt word_less_nat_alt)
qed

lemma bits_nat_rec: "{i. bit (n::nat) i} = (if odd n then {0} else {}) \<union> Suc ` {i. bit (n div 2) i}"
proof (rule set_eqI)
  fix i show "i \<in> {i. bit n i} \<longleftrightarrow> i \<in> (if odd n then {0} else {}) \<union> Suc ` {i. bit (n div 2) i}"
    by (cases i) (auto simp: bit_Suc bit_0)
qed

lemma finite_bits_nat: "finite {i. bit (n::nat) i}"
proof (rule finite_subset)
  show "{i. bit n i} \<subseteq> {..n}"
  proof
    fix i assume "i \<in> {i. bit n i}"
    then have "n div 2 ^ i \<noteq> 0" by (metis bit_iff_odd even_zero mem_Collect_eq)
    then show "i \<in> {..n}" by (metis atMost_iff div_less less_exp less_imp_le_nat less_trans not_le)
  qed
qed simp

lemma card_bits_nat_rec: "card {i. bit (n::nat) i} = n mod 2 + card {i. bit (n div 2) i}"
proof -
  have "card (Suc ` {i. bit (n div 2) i}) = card {i. bit (n div 2) i}"
    by (rule card_image) simp
  moreover have "finite (Suc ` {i. bit (n div 2) i})" using finite_bits_nat by blast
  ultimately show ?thesis
    by (subst bits_nat_rec) (auto simp: card_insert_if mod_2_eq_odd)
qed

lemma card_bits_and_pred: "0 < n \<Longrightarrow> card {i. bit (n AND (n - 1)) i} + 1 = card {i. bit (n::nat) i}"
proof (induction n rule: less_induct)
  case (less n)
  have half: "(n AND (n - 1)) div 2 = (n div 2) AND ((n - 1) div 2)"
    using drop_bit_and [of 1 n "n - 1"] by (simp add: drop_bit_eq_div)
  have par: "(n AND (n - 1)) mod 2 = 0"
    using less.prems by (cases "even n") (simp_all add: mod_2_eq_odd even_and_iff)
  show ?case
  proof (cases "odd n")
    case True
    then have "(n - 1) div 2 = n div 2" by presburger
    with half par True show ?thesis
      by (subst card_bits_nat_rec, subst (2) card_bits_nat_rec) (simp add: mod_2_eq_odd)
  next
    case False
    with less.prems have "(n - 1) div 2 = n div 2 - 1" and "0 < n div 2" and "n div 2 < n" by presburger+
    with less.IH [of "n div 2"] half par False show ?thesis
      by (subst card_bits_nat_rec, subst (2) card_bits_nat_rec) (simp add: mod_2_eq_odd)
  qed
qed

lemma num_bits_unat: "num_bits (x :: 'a::len word) = card {i. bit (unat x) i}"
  by (simp add: num_bits_def bit_unsigned_iff)

lemma num_bits_and_pred: "(x :: 'a::len word) \<noteq> 0 \<Longrightarrow> num_bits (x AND (x - 1)) + 1 = num_bits x"
  using card_bits_and_pred [of "unat x"]
  by (simp add: num_bits_unat unsigned_and_eq unat_minus_one unat_gt_0)

lemma num_bits_not: "num_bits (NOT (x :: 'a::len word)) + num_bits x = LENGTH('a)"
proof -
  have "{n. bit (NOT x) n} = {..<LENGTH('a)} - {n. bit x n}"
    by (auto simp: bit_not_iff)
  moreover have sub: "{n. bit x n} \<subseteq> {..<LENGTH('a)}" by (auto dest: bit_imp_le_length)
  ultimately have "num_bits (NOT x) = LENGTH('a) - num_bits x"
    by (simp add: num_bits_def card_Diff_subset finite_subset [OF sub])
  moreover have "num_bits x \<le> LENGTH('a)"
    using card_mono [OF _ sub] by (simp add: num_bits_def)
  ultimately show ?thesis by simp
qed

section \<open>Printing\<close>

text \<open>What \<^verbatim>\<open>std::cout\<close> writes for an integer.\<close>

fun decimal_nat :: "nat \<Rightarrow> string" where
  "decimal_nat n = (if n < 10 then [char_of (48 + n)] else decimal_nat (n div 10) @ [char_of (48 + n mod 10)])"

declare decimal_nat.simps [simp del]

definition decimal :: "int \<Rightarrow> string" where
  "decimal i = (if i < 0 then ''-'' @ decimal_nat (nat (- i)) else decimal_nat (nat i))"

definition newline :: string where
  "newline = [char_of (10 :: nat)]"

text \<open>The digits can be read back.\<close>

definition digits_value :: "string \<Rightarrow> nat" where
  "digits_value = foldl (\<lambda>v ch. 10 * v + (of_char ch - 48)) 0"

lemma digits_value_decimal: "digits_value (decimal_nat n) = n"
proof (induction n rule: decimal_nat.induct)
  case (1 n)
  show ?case
  proof (cases "n < 10")
    case True
    then show ?thesis by (simp add: decimal_nat.simps [of n] digits_value_def)
  next
    case False
    with 1 show ?thesis by (simp add: decimal_nat.simps [of n] digits_value_def)
  qed
qed

lemma decimal_nat_inject [simp]: "decimal_nat m = decimal_nat n \<longleftrightarrow> m = n"
  by (metis digits_value_decimal)

end
