(* ===== verification/Splitmix.thy ===== *)
theory Splitmix
  imports Mcts_Prelude
begin

unbundle bit_operations_syntax

text \<open>
  The random number generator of splitmix.hpp: the class template \<^verbatim>\<open>splitmix64_base\<close> at the constants of the
  alias \<^verbatim>\<open>splitmix64\<close>, the 32-bit variant at those of \<^verbatim>\<open>splitmix32\<close>, and the arithmetic helpers of the namespace
  \<^verbatim>\<open>splitmix_detail\<close>, which are generic in the width of the word. The members \<^verbatim>\<open>seed_\<close> and \<^verbatim>\<open>gamma_\<close> are \<open>m_seed\<close> and \<open>m_gamma\<close> here.
\<close>

section \<open>Arithmetic helpers\<close>

function fast_exp_loop :: "'a::len word \<Rightarrow> 'a word \<Rightarrow> 'a word \<Rightarrow> 'a word" where
  "fast_exp_loop result multiplier pw =
    (if pw \<noteq> 0 then
       let thismult = (if pw AND 1 \<noteq> 0 then multiplier else 1)
       in fast_exp_loop (result * thismult) (multiplier * multiplier) (drop_bit 1 pw)
     else result)"
  by pat_completeness auto
termination
  by (relation "measure (\<lambda>(result, multiplier, pw). unat pw)") (simp_all add: unat_drop_bit_less del: One_nat_def)

declare fast_exp_loop.simps [simp del]

definition fast_exp :: "'a::len word \<Rightarrow> 'a word \<Rightarrow> 'a word" where
  "fast_exp x pw = fast_exp_loop 1 x pw"

definition modular_inverse :: "'a::len word \<Rightarrow> 'a word" where
  "modular_inverse x = fast_exp x (- 1)"

text \<open>The portable population count: each round clears the lowest bit that is set.\<close>

function pop_count_loop :: "'a::len word \<Rightarrow> nat \<Rightarrow> nat" where
  "pop_count_loop x cnt =
    (if x \<noteq> 0 then pop_count_loop (x AND (x - 1)) (cnt + 1) else cnt)"
  by pat_completeness auto
termination
  by (relation "measure (\<lambda>(x, cnt). unat x)") (simp_all add: and_pred_less)

declare pop_count_loop.simps [simp del]

definition pop_count :: "'a::len word \<Rightarrow> nat" where
  "pop_count x = pop_count_loop x 0"

text \<open>The population count of the \<^verbatim>\<open>__GNUC__\<close> branch at \<^verbatim>\<open>uint64_t\<close>: \<^verbatim>\<open>sizeof(int) <= sizeof(IntRep)\<close> holds, so the
  intrinsic for \<^verbatim>\<open>unsigned int\<close> is called, whose argument is converted to 32 bits.\<close>

definition pop_count_gnuc :: "u64 \<Rightarrow> nat" where
  "pop_count_gnuc x = pop_count (ucast x :: 32 word)"

section \<open>The generator\<close>

record splitmix =
  m_seed :: u64
  m_gamma :: u64

definition xorshift :: "nat \<Rightarrow> u64 \<Rightarrow> u64" where
  "xorshift k x = x XOR drop_bit k x"

definition mix_gamma_bits :: "u64 \<Rightarrow> u64" where
  "mix_gamma_bits x =
    (let x = xorshift 33 x;
         x = x * 0xff51afd7ed558ccd;
         x = xorshift 33 x;
         x = x * 0xc4ceb9fe1a85ec53;
         x = xorshift 33 x
     in x OR 1)"

text \<open>\<open>count\<close> is the population count the preprocessor selects.\<close>

definition mix_gamma_with :: "(u64 \<Rightarrow> nat) \<Rightarrow> u64 \<Rightarrow> u64" where
  "mix_gamma_with pc x =
    (let x = mix_gamma_bits x;
         n = pc (x XOR drop_bit 1 x)
     in if n < 24 then x XOR 0xaaaaaaaaaaaaaaaa else x)"

definition mix_gamma :: "u64 \<Rightarrow> u64" where
  "mix_gamma = mix_gamma_with pop_count"

definition mix_gamma_gnuc :: "u64 \<Rightarrow> u64" where
  "mix_gamma_gnuc = mix_gamma_with pop_count_gnuc"

definition mix64 :: "u64 \<Rightarrow> u64" where
  "mix64 x =
    (let x = xorshift 30 x;
         x = x * 0xbf58476d1ce4e5b9;
         x = xorshift 27 x;
         x = x * 0x94d049bb133111eb
     in xorshift 31 x)"

definition sm_step :: "splitmix \<Rightarrow> splitmix" where
  "sm_step g = g\<lparr>m_seed := m_seed g + m_gamma g\<rparr>"

definition sm_next_seed :: "splitmix \<Rightarrow> u64 \<times> splitmix" where
  "sm_next_seed g = (m_seed g, sm_step g)"

definition splitmix64 :: "u64 \<Rightarrow> u64 \<Rightarrow> splitmix" where
  "splitmix64 seed gamma = \<lparr>m_seed = seed, m_gamma = gamma OR 1\<rparr>"

definition splitmix64_default :: splitmix where
  "splitmix64_default = splitmix64 0xbad0ff1ced15ea5e 0x9e3779b97f4a7c15"

definition sm_call :: "splitmix \<Rightarrow> u64 \<times> splitmix" where
  "sm_call g = (let (s, g') = sm_next_seed g in (mix64 s, g'))"

fun sm_generate :: "nat \<Rightarrow> splitmix \<Rightarrow> u64 list \<times> splitmix" where
  "sm_generate 0 g = ([], g)"
| "sm_generate (Suc n) g =
    (let (x, g') = sm_call g; (xs, g'') = sm_generate n g' in (x # xs, g''))"

definition sm_seed :: "u64 \<Rightarrow> splitmix \<Rightarrow> splitmix" where
  "sm_seed s g = g\<lparr>m_seed := s\<rparr>"

definition sm_advance :: "u64 \<Rightarrow> splitmix \<Rightarrow> splitmix" where
  "sm_advance delta g = g\<lparr>m_seed := m_seed g + delta * m_gamma g\<rparr>"

definition sm_backstep :: "u64 \<Rightarrow> splitmix \<Rightarrow> splitmix" where
  "sm_backstep delta g = sm_advance (- delta) g"

definition sm_wrapped :: "splitmix \<Rightarrow> bool" where
  "sm_wrapped g = (m_seed g = 0)"

definition sm_minus :: "splitmix \<Rightarrow> splitmix \<Rightarrow> u64" where
  "sm_minus g other = (m_seed g - m_seed other) * modular_inverse (m_gamma other)"

definition sm_split :: "splitmix \<Rightarrow> splitmix \<times> splitmix" where
  "sm_split g =
    (let (new_seed, g1) = sm_call g;
         (s, g2) = sm_next_seed g1
     in (splitmix64 new_seed (mix_gamma s), g2))"

definition sm_equal :: "splitmix \<Rightarrow> splitmix \<Rightarrow> bool" where
  "sm_equal g rhs = (m_seed g = m_seed rhs \<and> m_gamma g = m_gamma rhs)"

definition sm32_call :: "splitmix \<Rightarrow> 32 word \<times> splitmix" where
  "sm32_call g =
    (let (seed, g') = sm_next_seed g;
         seed = xorshift 33 seed;
         seed = seed * 0x62a9d9ed799705f5;
         seed = xorshift 28 seed;
         seed = seed * 0xcb24d0a5c88c35b3
     in (ucast (drop_bit 32 seed), g'))"

section \<open>The helpers compute what their names say\<close>

lemma fast_exp_loop_eq:
  "fast_exp_loop r m p = r * m ^ unat p"
proof (induction r m p rule: fast_exp_loop.induct)
  case (1 r m p)
  show ?case
  proof (cases "p = 0")
    case True
    then show ?thesis by (simp add: fast_exp_loop.simps [of r m 0])
  next
    case False
    let ?t = "if p AND 1 \<noteq> 0 then m else 1"
    have "fast_exp_loop r m p = fast_exp_loop (r * ?t) (m * m) (drop_bit 1 p)"
      using False by (simp add: fast_exp_loop.simps [of r m p] Let_def)
    also have "\<dots> = r * ?t * (m * m) ^ unat (drop_bit 1 p)"
      using 1 [OF False refl] by simp
    also have "\<dots> = r * m ^ ((if odd (unat p) then 1 else 0) + 2 * (unat p div 2))"
      by (simp add: and_1_neq_0_iff odd_unat_iff unat_drop_bit_1 power_mult power_add power2_eq_square
            mult.assoc del: One_nat_def)
    also have "(if odd (unat p) then 1 else 0) + 2 * (unat p div 2) = unat p"
      by simp
    finally show ?thesis .
  qed
qed

lemma modular_inverse_mult:
  fixes x :: "'a::len word"
  assumes "odd x"
  shows "x * modular_inverse x = 1"
proof -
  have "unat (- 1 :: 'a word) + 1 = 2 ^ LENGTH('a)"
    by (simp add: unsigned_minus_1_eq_mask mask_eq_exp_minus_1)
  then have "x * x ^ unat (- 1 :: 'a word) = x ^ 2 ^ LENGTH('a)"
    by (metis Suc_eq_plus1 power_Suc)
  then show ?thesis
    using odd_word_power_length [OF assms]
    by (simp add: modular_inverse_def fast_exp_def fast_exp_loop_eq)
qed

lemma pop_count_loop_eq: "pop_count_loop x cnt = cnt + num_bits x"
proof (induction x cnt rule: pop_count_loop.induct)
  case (1 x cnt)
  show ?case
  proof (cases "x = 0")
    case True
    then show ?thesis by (simp add: pop_count_loop.simps [of 0] num_bits_def)
  next
    case False
    with 1 show ?thesis
      by (simp add: pop_count_loop.simps [of x] flip: num_bits_and_pred [OF False])
  qed
qed

lemma pop_count_eq: "pop_count x = num_bits x"
  by (simp add: pop_count_def pop_count_loop_eq)


text \<open>Exponentiation by squaring computes the power modulo the word width, and for every odd word the
  modular inverse obtained from it is a multiplicative inverse.\<close>

theorem modular_inverse_correct:
  fixes x :: "'a::len word"
  assumes "odd x"
  shows "fast_exp x p = x ^ unat p \<and> x * modular_inverse x = 1"
  using assms by (simp add: fast_exp_def fast_exp_loop_eq modular_inverse_mult)

theorem modular_inverse_correct_witness:
  "fast_exp (3 :: 8 word) 5 = 3 ^ unat (5 :: 8 word) \<and> (3 :: 8 word) * modular_inverse 3 = 1"
  by (rule modular_inverse_correct) simp

section \<open>The stream of outputs\<close>

lemma xorshift_injective: "0 < k \<Longrightarrow> xorshift k x = xorshift k y \<Longrightarrow> x = y"
  unfolding xorshift_def by (rule xorshift_inj)

lemma odd_mult_cancel:
  fixes x y m :: "'a::len word"
  assumes "odd m" and "x * m = y * m"
  shows "x = y"
proof -
  have "x * (m * modular_inverse m) = y * (m * modular_inverse m)"
    using assms(2) by (metis mult.assoc)
  then show ?thesis by (simp add: modular_inverse_mult [OF assms(1)])
qed

lemma mix64_injective: "mix64 x = mix64 y \<Longrightarrow> x = y"
  unfolding mix64_def Let_def
  by (drule xorshift_injective [rotated], simp, drule odd_mult_cancel [rotated], simp)+
     (drule xorshift_injective [rotated], simp_all)

lemma sm_call_eq: "sm_call g = (mix64 (m_seed g), sm_step g)"
  by (simp add: sm_call_def sm_next_seed_def)

lemma sm_advance_Suc: "sm_advance (of_nat n) (sm_step g) = sm_advance (of_nat (Suc n)) g"
  by (simp add: sm_advance_def sm_step_def algebra_simps)

lemma sm_generate_eq:
  "sm_generate n g =
    (map (\<lambda>k. mix64 (m_seed g + of_nat k * m_gamma g)) [0..<n], sm_advance (of_nat n) g)"
proof (induction n arbitrary: g)
  case 0
  then show ?case by (simp add: sm_advance_def)
next
  case (Suc n)
  have "map (\<lambda>k. mix64 (m_seed (sm_step g) + of_nat k * m_gamma (sm_step g))) [0..<n]
      = map (\<lambda>k. mix64 (m_seed g + of_nat k * m_gamma g)) (map Suc [0..<n])"
    by (simp add: sm_step_def algebra_simps)
  then show ?case
    by (simp add: Suc sm_call_eq sm_advance_Suc upt_conv_Cons map_Suc_upt del: upt_Suc)
qed

lemma weyl_injective:
  fixes s c :: u64
  assumes "odd c" "i < 2 ^ 64" "j < 2 ^ 64" "s + of_nat i * c = s + of_nat j * c"
  shows "i = j"
proof -
  from assms have "(of_nat i :: u64) = of_nat j" by (metis add_left_cancel odd_mult_cancel)
  with assms(2,3) show ?thesis by (simp add: word_of_nat_eq_iff take_bit_nat_eq_self)
qed

text \<open>C40: With an odd increment the generator has full period: any run of at most \<open>2^64\<close> outputs has no repeated
  value, and after exactly \<open>2^64\<close> outputs the generator is back in its first state.\<close>

theorem splitmix_full_period:
  assumes "odd (m_gamma g)" and "n \<le> 2 ^ 64"
  shows "distinct (fst (sm_generate n g)) \<and> snd (sm_generate (2 ^ 64) g) = g"
proof -
  have "inj_on (\<lambda>k. mix64 (m_seed g + of_nat k * m_gamma g)) (set [0..<n])"
    using assms(2) by (auto intro!: inj_onI dest!: mix64_injective weyl_injective [OF assms(1), rotated 2])
  moreover have "of_nat (2 ^ 64) = (0 :: u64)" by simp
  ultimately show ?thesis
    by (simp add: sm_generate_eq distinct_map sm_advance_def del: of_nat_power of_nat_numeral)
qed

theorem splitmix_full_period_witness:
  "distinct (fst (sm_generate 1000 splitmix64_default))
    \<and> snd (sm_generate (2 ^ 64) splitmix64_default) = splitmix64_default"
  by (rule splitmix_full_period) (simp_all add: splitmix64_default_def splitmix64_def)

section \<open>Jumping\<close>

text \<open>Jumping ahead by \<open>n\<close> is the same as drawing \<open>n\<close> outputs, stepping back undoes a jump of any size, and for an
  odd increment the difference of two generators is the size of the jump between them.\<close>

theorem splitmix_jump:
  assumes "odd (m_gamma g)"
  shows "snd (sm_generate n g) = sm_advance (of_nat n) g
    \<and> sm_backstep d (sm_advance d g) = g
    \<and> sm_minus (sm_advance d g) g = d"
proof -
  have "d * m_gamma g * modular_inverse (m_gamma g) = d"
    by (simp add: mult.assoc modular_inverse_mult [OF assms])
  then show ?thesis
    by (simp add: sm_generate_eq sm_backstep_def sm_advance_def sm_minus_def)
qed

theorem splitmix_jump_witness:
  "snd (sm_generate 3 splitmix64_default) = sm_advance (of_nat 3) splitmix64_default
    \<and> sm_backstep 7 (sm_advance 7 splitmix64_default) = splitmix64_default
    \<and> sm_minus (sm_advance 7 splitmix64_default) splitmix64_default = 7"
  by (rule splitmix_jump) (simp add: splitmix64_default_def splitmix64_def)

section \<open>Increments\<close>

lemma odd_mix_gamma_with: "odd (mix_gamma_with pc x)"
  by (simp add: mix_gamma_with_def mix_gamma_bits_def Let_def even_or_iff even_xor_iff)

lemma transitions_flip:
  fixes x :: u64
  shows "num_bits ((x XOR 0xaaaaaaaaaaaaaaaa) XOR drop_bit 1 (x XOR 0xaaaaaaaaaaaaaaaa))
    + num_bits (x XOR drop_bit 1 x) = 64"
proof -
  have "(x XOR a) XOR drop_bit 1 (x XOR a) = (x XOR drop_bit 1 x) XOR (a XOR drop_bit 1 a)" for a :: u64
    by (simp add: drop_bit_xor ac_simps del: One_nat_def)
  from this [of "0xaaaaaaaaaaaaaaaa"]
  have "(x XOR 0xaaaaaaaaaaaaaaaa) XOR drop_bit 1 (x XOR 0xaaaaaaaaaaaaaaaa)
      = (x XOR drop_bit 1 x) XOR (0xaaaaaaaaaaaaaaaa XOR drop_bit 1 0xaaaaaaaaaaaaaaaa)" .
  also have "(0xaaaaaaaaaaaaaaaa :: u64) XOR drop_bit 1 0xaaaaaaaaaaaaaaaa = - 1" by simp
  also have "(x XOR drop_bit 1 x) XOR - 1 = NOT (x XOR drop_bit 1 x)"
    by (simp add: bit_eq_iff bit_xor_iff bit_not_iff)
  finally have "(x XOR 0xaaaaaaaaaaaaaaaa) XOR drop_bit 1 (x XOR 0xaaaaaaaaaaaaaaaa)
      = NOT (x XOR drop_bit 1 x)" .
  then show ?thesis using num_bits_not [of "x XOR drop_bit 1 x"] by simp
qed

text \<open>Every increment the generator makes is odd, and with the portable population count it has at least 24 bit
  transitions, which is what the test in \<^verbatim>\<open>mix_gamma\<close> is for.\<close>

theorem mix_gamma_quality:
  "odd (mix_gamma x) \<and> 24 \<le> num_bits (mix_gamma x XOR drop_bit 1 (mix_gamma x))
    \<and> odd (m_gamma (splitmix64 s c)) \<and> odd (m_gamma (fst (sm_split g)))
    \<and> m_gamma (snd (sm_split g)) = m_gamma g"
proof -
  have "24 \<le> num_bits (mix_gamma x XOR drop_bit 1 (mix_gamma x))"
    using transitions_flip [of "mix_gamma_bits x"]
    by (auto simp: mix_gamma_def mix_gamma_with_def Let_def pop_count_eq)
  then show ?thesis
    by (simp add: mix_gamma_def odd_mix_gamma_with splitmix64_def even_or_iff sm_split_def sm_call_eq
        sm_next_seed_def sm_step_def)
qed

text \<open>The population count of the \<^verbatim>\<open>__GNUC__\<close> branch looks at the low 32 bits only, and with it \<^verbatim>\<open>mix_gamma\<close> can
  return an increment with fewer than 24 transitions.\<close>

theorem mix_gamma_gnuc_flaw:
  "num_bits (mix_gamma_gnuc 0xff81a535b8631688 XOR drop_bit 1 (mix_gamma_gnuc 0xff81a535b8631688)) = 9
    \<and> (\<forall>x. pop_count_gnuc x = num_bits (take_bit 32 x))"
proof
  show "num_bits (mix_gamma_gnuc 0xff81a535b8631688 XOR drop_bit 1 (mix_gamma_gnuc 0xff81a535b8631688)) = 9"
    unfolding pop_count_eq [symmetric] by code_simp
  show "\<forall>x. pop_count_gnuc x = num_bits (take_bit 32 x)"
    by (simp add: pop_count_gnuc_def pop_count_eq num_bits_def bit_unsigned_iff bit_take_bit_iff) 
qed

end
