(* ===== verification/Multi_Array.thy ===== *)
theory Multi_Array
  imports Mcts_Prelude
begin

text \<open>
  The fixed-size arrays of multi_array.hpp. Each class template is a record of its template parameters (the
  extents and the index bases) and its flat storage \<^verbatim>\<open>m_data\<close>; the accessors compute the flat index from the same
  expression the code uses, and fail when one of the assertions does. A writing access through the reference that
  \<^verbatim>\<open>at\<close> or \<^verbatim>\<open>at_r\<close> returns is the corresponding \<open>_put\<close> operation.
\<close>

section \<open>Vector\<close>

record 'a vector =
  v_I :: int
  v_BaseI :: int
  v_data :: "'a list"

definition vector_new :: "int \<Rightarrow> int \<Rightarrow> 'a \<Rightarrow> 'a vector" where
  "vector_new I BaseI v = \<lparr>v_I = I, v_BaseI = BaseI, v_data = replicate (nat I) v\<rparr>"

definition vector_in :: "'a vector \<Rightarrow> int \<Rightarrow> bool" where
  "vector_in v i \<longleftrightarrow> v_BaseI v \<le> i \<and> i < v_I v + v_BaseI v"

definition vector_idx :: "'a vector \<Rightarrow> int \<Rightarrow> int" where
  "vector_idx v i = - v_BaseI v + i"

definition vector_idx_r :: "'a vector \<Rightarrow> int \<Rightarrow> int" where
  "vector_idx_r v i = v_I v - 1 + v_BaseI v + - i"

definition vector_at :: "'a vector \<Rightarrow> int \<Rightarrow> 'a option" where
  "vector_at v i = (if vector_in v i then aref (v_data v) (vector_idx v i) else None)"

definition vector_put :: "'a vector \<Rightarrow> int \<Rightarrow> 'a \<Rightarrow> 'a vector option" where
  "vector_put v i x =
    (if vector_in v i then map_option (\<lambda>d. v\<lparr>v_data := d\<rparr>) (aset (v_data v) (vector_idx v i) x) else None)"

definition vector_at_r :: "'a vector \<Rightarrow> int \<Rightarrow> 'a option" where
  "vector_at_r v i = (if vector_in v i then aref (v_data v) (vector_idx_r v i) else None)"

definition vector_size :: "'a vector \<Rightarrow> int" where
  "vector_size v = v_I v"

section \<open>Matrix\<close>

record 'a matrix =
  m_I :: int
  m_J :: int
  m_BaseI :: int
  m_BaseJ :: int
  m_data :: "'a list"

definition matrix_new :: "int \<Rightarrow> int \<Rightarrow> int \<Rightarrow> int \<Rightarrow> 'a \<Rightarrow> 'a matrix" where
  "matrix_new I J BaseI BaseJ v =
    \<lparr>m_I = I, m_J = J, m_BaseI = BaseI, m_BaseJ = BaseJ, m_data = replicate (nat (I * J)) v\<rparr>"

text \<open>The aliases \<^verbatim>\<open>MatrixRM\<close> and \<^verbatim>\<open>MatrixCM\<close> both name \<^verbatim>\<open>Matrix\<close> with their parameters in the order written.\<close>

definition matrix_in :: "'a matrix \<Rightarrow> int \<Rightarrow> int \<Rightarrow> bool" where
  "matrix_in m i j \<longleftrightarrow>
    m_BaseI m \<le> i \<and> i < m_I m + m_BaseI m \<and> m_BaseJ m \<le> j \<and> j < m_J m + m_BaseJ m"

definition matrix_idx :: "'a matrix \<Rightarrow> int \<Rightarrow> int \<Rightarrow> int" where
  "matrix_idx m i j = - m_BaseJ m - m_BaseI m * m_J m + (j + i * m_J m)"

definition matrix_idx_r :: "'a matrix \<Rightarrow> int \<Rightarrow> int \<Rightarrow> int" where
  "matrix_idx_r m i j =
    m_I m * m_J m - 1 + m_BaseJ m + m_BaseI m * m_J m + (- j - i * m_J m)"

definition matrix_at :: "'a matrix \<Rightarrow> int \<Rightarrow> int \<Rightarrow> 'a option" where
  "matrix_at m i j = (if matrix_in m i j then aref (m_data m) (matrix_idx m i j) else None)"

definition matrix_put :: "'a matrix \<Rightarrow> int \<Rightarrow> int \<Rightarrow> 'a \<Rightarrow> 'a matrix option" where
  "matrix_put m i j x =
    (if matrix_in m i j
     then map_option (\<lambda>d. m\<lparr>m_data := d\<rparr>) (aset (m_data m) (matrix_idx m i j) x) else None)"

definition matrix_at_r :: "'a matrix \<Rightarrow> int \<Rightarrow> int \<Rightarrow> 'a option" where
  "matrix_at_r m i j = (if matrix_in m i j then aref (m_data m) (matrix_idx_r m i j) else None)"

definition matrix_put_r :: "'a matrix \<Rightarrow> int \<Rightarrow> int \<Rightarrow> 'a \<Rightarrow> 'a matrix option" where
  "matrix_put_r m i j x =
    (if matrix_in m i j
     then map_option (\<lambda>d. m\<lparr>m_data := d\<rparr>) (aset (m_data m) (matrix_idx_r m i j) x) else None)"

definition matrix_size :: "'a matrix \<Rightarrow> int" where
  "matrix_size m = m_I m * m_J m"

section \<open>Cube\<close>

record 'a cube =
  c_I :: int
  c_J :: int
  c_K :: int
  c_BaseI :: int
  c_BaseJ :: int
  c_BaseK :: int
  c_data :: "'a list"

definition cube_in :: "'a cube \<Rightarrow> int \<Rightarrow> int \<Rightarrow> int \<Rightarrow> bool" where
  "cube_in c i j k \<longleftrightarrow>
    (c_BaseI c \<le> i \<and> i < c_I c + c_BaseI c) \<and> (c_BaseJ c \<le> j \<and> j < c_J c + c_BaseJ c)
    \<and> (c_BaseK c \<le> k \<and> k < c_K c + c_BaseK c)"

definition cube_idx :: "'a cube \<Rightarrow> int \<Rightarrow> int \<Rightarrow> int \<Rightarrow> int" where
  "cube_idx c i j k =
    c_K c * (- c_BaseJ c - c_BaseI c * c_J c) - c_BaseK c + (c_K c * (j + i * c_J c) + k)"

definition cube_idx_r :: "'a cube \<Rightarrow> int \<Rightarrow> int \<Rightarrow> int \<Rightarrow> int" where
  "cube_idx_r c i j k =
    c_I c * c_J c * c_K c - 1 + c_BaseJ c * c_K c + c_BaseI c * c_J c * c_K c + c_BaseK c
    + (c_K c * (- j - i * c_J c) - k)"

definition cube_at :: "'a cube \<Rightarrow> int \<Rightarrow> int \<Rightarrow> int \<Rightarrow> 'a option" where
  "cube_at c i j k = (if cube_in c i j k then aref (c_data c) (cube_idx c i j k) else None)"

definition cube_put :: "'a cube \<Rightarrow> int \<Rightarrow> int \<Rightarrow> int \<Rightarrow> 'a \<Rightarrow> 'a cube option" where
  "cube_put c i j k x =
    (if cube_in c i j k
     then map_option (\<lambda>d. c\<lparr>c_data := d\<rparr>) (aset (c_data c) (cube_idx c i j k) x) else None)"

definition cube_at_r :: "'a cube \<Rightarrow> int \<Rightarrow> int \<Rightarrow> int \<Rightarrow> 'a option" where
  "cube_at_r c i j k = (if cube_in c i j k then aref (c_data c) (cube_idx_r c i j k) else None)"

definition cube_size :: "'a cube \<Rightarrow> int" where
  "cube_size c = c_I c * c_J c * c_K c"

section \<open>HyperCube\<close>

record 'a hypercube =
  h_I :: int
  h_J :: int
  h_K :: int
  h_L :: int
  h_BaseI :: int
  h_BaseJ :: int
  h_BaseK :: int
  h_BaseL :: int
  h_data :: "'a list"

definition hypercube_in :: "'a hypercube \<Rightarrow> int \<Rightarrow> int \<Rightarrow> int \<Rightarrow> int \<Rightarrow> bool" where
  "hypercube_in h i j k l \<longleftrightarrow>
    (h_BaseI h \<le> i \<and> i < h_I h + h_BaseI h) \<and> (h_BaseJ h \<le> j \<and> j < h_J h + h_BaseJ h)
    \<and> (h_BaseK h \<le> k \<and> k < h_K h + h_BaseK h) \<and> (h_BaseL h \<le> l \<and> l < h_L h + h_BaseL h)"

definition hypercube_idx :: "'a hypercube \<Rightarrow> int \<Rightarrow> int \<Rightarrow> int \<Rightarrow> int \<Rightarrow> int" where
  "hypercube_idx h i j k l =
    h_L h * (h_K h * (- h_BaseJ h - h_BaseI h * h_J h) - h_BaseK h) - h_BaseL h
    + (h_L h * (h_K h * (j + i * h_J h) + k) + l)"

definition hypercube_at :: "'a hypercube \<Rightarrow> int \<Rightarrow> int \<Rightarrow> int \<Rightarrow> int \<Rightarrow> 'a option" where
  "hypercube_at h i j k l =
    (if hypercube_in h i j k l then aref (h_data h) (hypercube_idx h i j k l) else None)"

definition hypercube_put :: "'a hypercube \<Rightarrow> int \<Rightarrow> int \<Rightarrow> int \<Rightarrow> int \<Rightarrow> 'a \<Rightarrow> 'a hypercube option" where
  "hypercube_put h i j k l x =
    (if hypercube_in h i j k l
     then map_option (\<lambda>d. h\<lparr>h_data := d\<rparr>) (aset (h_data h) (hypercube_idx h i j k l) x) else None)"

definition hypercube_size :: "'a hypercube \<Rightarrow> int" where
  "hypercube_size h = h_I h * h_J h * h_K h * h_L h"

section \<open>Flat indices\<close>

text \<open>The contract every class relies on: on the indices that pass the assertions, the flat index is in range and
  no two of them share a cell. Reading after writing follows from it once for all classes.\<close>

locale flat_index =
  fixes valid_ix :: "'i \<Rightarrow> bool" and idx :: "'i \<Rightarrow> int" and sz :: int
  assumes idx_nonneg: "valid_ix i \<Longrightarrow> 0 \<le> idx i"
    and idx_less: "valid_ix i \<Longrightarrow> idx i < sz"
    and idx_inj: "valid_ix i \<Longrightarrow> valid_ix j \<Longrightarrow> idx i = idx j \<Longrightarrow> i = j"
begin

lemma flat_read:
  "valid_ix i \<Longrightarrow> length d = nat sz \<Longrightarrow> aref d (idx i) = Some (d ! nat (idx i))"
  using idx_nonneg [of i] idx_less [of i] by (simp add: aref_def)

lemma flat_write:
  "valid_ix i \<Longrightarrow> length d = nat sz \<Longrightarrow> aset d (idx i) x = Some (d[nat (idx i) := x])"
  using idx_nonneg [of i] idx_less [of i] by (simp add: aset_def)

lemma flat_read_write:
  assumes "valid_ix i" "valid_ix j" "aset d (idx i) x = Some d'"
  shows "aref d' (idx j) = (if j = i then Some x else aref d (idx j))"
  using aref_aset [OF assms(3)] idx_inj [OF assms(2,1)] by auto

end

lemma radix_bounds:
  fixes a b :: int
  assumes "0 \<le> a" "a < A" "0 \<le> b" "b < B"
  shows "0 \<le> b + a * B \<and> b + a * B < A * B"
proof -
  have "a * B + B \<le> A * B" using assms mult_right_mono [of "a + 1" A B] by (simp add: algebra_simps)
  moreover have "0 \<le> a * B" using assms by simp
  ultimately show ?thesis using assms by simp
qed

lemma radix_inj:
  fixes a b a' b' :: int
  assumes "0 \<le> b" "b < B" "0 \<le> b'" "b' < B" "b + a * B = b' + a' * B"
  shows "a = a' \<and> b = b'"
proof -
  have "(b + a * B) div B = a" "(b' + a' * B) div B = a'" using assms(1-4) by auto
  with assms(5) have "a = a'" by simp
  with assms(5) show ?thesis by simp
qed

lemma radix_inj_base:
  fixes a b a' b' :: int
  assumes "(b - c) + a * B = (b' - c) + a' * B" "c \<le> b" "b < B + c" "c \<le> b'" "b' < B + c"
  shows "a = a' \<and> b = b'"
  using radix_inj [of "b - c" B "b' - c" a a'] assms by simp

interpretation vec: flat_index "vector_in v" "vector_idx v" "v_I v" for v :: "'a vector"
  by unfold_locales (auto simp: vector_in_def vector_idx_def)

lemma matrix_idx_radix:
  "matrix_idx m i j = (j - m_BaseJ m) + (i - m_BaseI m) * m_J m"
  by (simp add: matrix_idx_def algebra_simps)

interpretation mat: flat_index "\<lambda>(i, j). matrix_in m i j" "\<lambda>(i, j). matrix_idx m i j" "m_I m * m_J m"
  for m :: "'a matrix"
proof (unfold_locales, goal_cases)
  case (1 ij)
  then show ?case
    using radix_bounds [of "fst ij - m_BaseI m" "m_I m" "snd ij - m_BaseJ m" "m_J m"]
    by (auto simp: matrix_in_def matrix_idx_radix)
next
  case (2 ij)
  then show ?case
    using radix_bounds [of "fst ij - m_BaseI m" "m_I m" "snd ij - m_BaseJ m" "m_J m"]
    by (auto simp: matrix_in_def matrix_idx_radix)
next
  case (3 ij ij')
  then show ?case
    using radix_inj [of "snd ij - m_BaseJ m" "m_J m" "snd ij' - m_BaseJ m"
        "fst ij - m_BaseI m" "fst ij' - m_BaseI m"]
    by (auto simp: matrix_in_def matrix_idx_radix)
qed

lemma cube_idx_radix:
  "cube_idx c i j k =
    (k - c_BaseK c) + ((j - c_BaseJ c) + (i - c_BaseI c) * c_J c) * c_K c"
  by (simp add: cube_idx_def algebra_simps)

lemma cube_idx_bounds:
  assumes "cube_in c i j k"
  shows "0 \<le> cube_idx c i j k \<and> cube_idx c i j k < c_I c * c_J c * c_K c"
proof -
  have "0 \<le> (j - c_BaseJ c) + (i - c_BaseI c) * c_J c
      \<and> (j - c_BaseJ c) + (i - c_BaseI c) * c_J c < c_I c * c_J c"
    using assms by (intro radix_bounds) (auto simp: cube_in_def)
  then show ?thesis
    unfolding cube_idx_radix using assms by (intro radix_bounds) (auto simp: cube_in_def)
qed

interpretation cub: flat_index "\<lambda>(i, j, k). cube_in c i j k" "\<lambda>(i, j, k). cube_idx c i j k"
  "c_I c * c_J c * c_K c" for c :: "'a cube"
proof (unfold_locales, goal_cases)
  case (1 ijk)
  then show ?case by (cases ijk) (simp add: cube_idx_bounds)
next
  case (2 ijk)
  then show ?case by (cases ijk) (simp add: cube_idx_bounds)
next
  case (3 x y)
  obtain i j k i' j' k' where xy: "x = (i, j, k)" "y = (i', j', k')" by (metis prod.exhaust)
  note in3 = 3(1,2) [unfolded xy prod.case cube_in_def]
  from radix_inj_base [OF 3(3) [unfolded xy prod.case cube_idx_radix]] in3
  have k: "(j - c_BaseJ c) + (i - c_BaseI c) * c_J c = (j' - c_BaseJ c) + (i' - c_BaseI c) * c_J c"
    and "k = k'" by blast+
  with radix_inj_base [OF k] in3 show ?case by (simp add: xy)
qed

lemma hypercube_idx_radix:
  "hypercube_idx h i j k l =
    (l - h_BaseL h)
    + ((k - h_BaseK h) + ((j - h_BaseJ h) + (i - h_BaseI h) * h_J h) * h_K h) * h_L h"
  by (simp add: hypercube_idx_def algebra_simps)

lemma hypercube_idx_bounds:
  assumes "hypercube_in h i j k l"
  shows "0 \<le> hypercube_idx h i j k l \<and> hypercube_idx h i j k l < h_I h * h_J h * h_K h * h_L h"
proof -
  have "0 \<le> (j - h_BaseJ h) + (i - h_BaseI h) * h_J h
      \<and> (j - h_BaseJ h) + (i - h_BaseI h) * h_J h < h_I h * h_J h"
    using assms by (intro radix_bounds) (auto simp: hypercube_in_def)
  then have "0 \<le> (k - h_BaseK h) + ((j - h_BaseJ h) + (i - h_BaseI h) * h_J h) * h_K h
      \<and> (k - h_BaseK h) + ((j - h_BaseJ h) + (i - h_BaseI h) * h_J h) * h_K h
        < h_I h * h_J h * h_K h"
    using assms by (intro radix_bounds) (auto simp: hypercube_in_def)
  then show ?thesis
    unfolding hypercube_idx_radix using assms by (intro radix_bounds) (auto simp: hypercube_in_def)
qed

interpretation hyp: flat_index "\<lambda>(i, j, k, l). hypercube_in h i j k l"
  "\<lambda>(i, j, k, l). hypercube_idx h i j k l" "h_I h * h_J h * h_K h * h_L h" for h :: "'a hypercube"
proof (unfold_locales, goal_cases)
  case (1 x)
  then show ?case by (cases x) (simp add: hypercube_idx_bounds)
next
  case (2 x)
  then show ?case by (cases x) (simp add: hypercube_idx_bounds)
next
  case (3 x y)
  obtain i j k l i' j' k' l' where xy: "x = (i, j, k, l)" "y = (i', j', k', l')"
    by (metis prod.exhaust)
  note in3 = 3(1,2) [unfolded xy prod.case hypercube_in_def]
  from radix_inj_base [OF 3(3) [unfolded xy prod.case hypercube_idx_radix]] in3
  have l: "(k - h_BaseK h) + ((j - h_BaseJ h) + (i - h_BaseI h) * h_J h) * h_K h
      = (k' - h_BaseK h) + ((j' - h_BaseJ h) + (i' - h_BaseI h) * h_J h) * h_K h"
    and "l = l'" by blast+
  from radix_inj_base [OF l] in3
  have k: "(j - h_BaseJ h) + (i - h_BaseI h) * h_J h = (j' - h_BaseJ h) + (i' - h_BaseI h) * h_J h"
    and "k = k'" by blast+
  with radix_inj_base [OF k] \<open>l = l'\<close> in3 show ?case by (simp add: xy)
qed

section \<open>Matrices that hold all their cells\<close>

definition matrix_wf :: "'a matrix \<Rightarrow> bool" where
  "matrix_wf m \<longleftrightarrow> length (m_data m) = nat (m_I m * m_J m)"

lemma matrix_wf_new [simp]: "matrix_wf (matrix_new I J bi bj v)"
  by (simp add: matrix_wf_def matrix_new_def)

lemma matrix_at_None: "\<not> matrix_in m i j \<Longrightarrow> matrix_at m i j = None"
  by (simp add: matrix_at_def)

lemma matrix_at_defined: "matrix_wf m \<Longrightarrow> matrix_in m i j \<Longrightarrow> \<exists>x. matrix_at m i j = Some x"
  using mat.flat_read [of m "(i, j)" "m_data m"] by (simp add: matrix_at_def matrix_wf_def)

lemma matrix_put_defined: "matrix_wf m \<Longrightarrow> matrix_in m i j \<Longrightarrow> \<exists>m'. matrix_put m i j x = Some m'"
  using mat.flat_write [of m "(i, j)" "m_data m" x] by (simp add: matrix_put_def matrix_wf_def)

lemma matrix_put_frame:
  assumes "matrix_put m i j x = Some m'"
  shows "m_I m' = m_I m" "m_J m' = m_J m" "m_BaseI m' = m_BaseI m" "m_BaseJ m' = m_BaseJ m"
    "matrix_wf m' = matrix_wf m" "matrix_in m' a b = matrix_in m a b" "matrix_in m i j"
  using assms by (auto simp: matrix_put_def matrix_wf_def matrix_in_def aset_eq_Some_iff split: if_splits)

lemma matrix_at_put:
  assumes "matrix_put m i j x = Some m'"
  shows "matrix_at m' a b = (if a = i \<and> b = j then Some x else matrix_at m a b)"
proof (cases "matrix_in m a b")
  case True
  from assms obtain d where d: "aset (m_data m) (matrix_idx m i j) x = Some d"
    and m': "m' = m\<lparr>m_data := d\<rparr>" and ij: "matrix_in m i j"
    by (auto simp: matrix_put_def split: if_splits)
  from mat.flat_read_write [of m "(i, j)" "(a, b)" "m_data m" x d] True ij d
  show ?thesis by (auto simp: matrix_at_def m' matrix_in_def matrix_idx_def)
next
  case False
  with matrix_put_frame [OF assms] show ?thesis by (auto simp: matrix_at_None)
qed

lemma matrix_at_new:
  "matrix_at (matrix_new I J bi bj v) a b =
    (if matrix_in (matrix_new I J bi bj v) a b then Some v else None)"
proof (cases "matrix_in (matrix_new I J bi bj v) a b")
  case True
  let ?m = "matrix_new I J bi bj v"
  from mat.idx_nonneg [of ?m "(a, b)"] mat.idx_less [of ?m "(a, b)"] True
  have "nat (matrix_idx ?m a b) < nat (I * J)" by (simp add: matrix_new_def)
  with mat.flat_read [of ?m "(a, b)" "m_data ?m"] True show ?thesis
    by (simp add: matrix_at_def matrix_wf_def [symmetric]) (simp add: matrix_new_def)
qed (simp add: matrix_at_def)

lemma matrix_at_r_mirror_aux:
  "matrix_at_r m i j = matrix_at m (m_I m - 1 + 2 * m_BaseI m - i) (m_J m - 1 + 2 * m_BaseJ m - j)"
  and matrix_put_r_mirror_aux:
  "matrix_put_r m i j x = matrix_put m (m_I m - 1 + 2 * m_BaseI m - i) (m_J m - 1 + 2 * m_BaseJ m - j) x"
proof -
  let ?i = "m_I m - 1 + 2 * m_BaseI m - i" and ?j = "m_J m - 1 + 2 * m_BaseJ m - j"
  have "matrix_in m i j \<longleftrightarrow> matrix_in m ?i ?j" by (auto simp: matrix_in_def)
  moreover have "matrix_idx_r m i j = matrix_idx m ?i ?j"
    by (simp add: matrix_idx_r_def matrix_idx_def algebra_simps)
  ultimately show "matrix_at_r m i j = matrix_at m ?i ?j" "matrix_put_r m i j x = matrix_put m ?i ?j x"
    by (simp_all add: matrix_at_r_def matrix_put_r_def matrix_at_def matrix_put_def)
qed

text \<open>The mirrored access of a matrix is the plain access at the point reflection of the index through the
  centre of the index range.\<close>

theorem matrix_at_r_mirror:
  "matrix_at_r m i j =
     matrix_at m (m_I m - 1 + 2 * m_BaseI m - i) (m_J m - 1 + 2 * m_BaseJ m - j)
   \<and> matrix_put_r m i j x =
     matrix_put m (m_I m - 1 + 2 * m_BaseI m - i) (m_J m - 1 + 2 * m_BaseJ m - j) x"
  by (rule conjI [OF matrix_at_r_mirror_aux matrix_put_r_mirror_aux])

end
