(* ===== verification/Player.thy ===== *)
theory Player
  imports Mcts_Prelude
begin

text \<open>
  The class \<^verbatim>\<open>Player\<close> of player.hpp: a thin wrapper of the scoped enumeration \<^verbatim>\<open>Player::Type\<close> over
  \<^verbatim>\<open>std::int8_t\<close>. The enumeration has a fixed underlying type, so a cast can make a value that is none of the
  four enumerators; such values are \<open>Unnamed\<close>.
\<close>

datatype player = Invalid | Agent | Vacant | Human | Unnamed int

fun underlying :: "player \<Rightarrow> int" where
  "underlying Invalid = -2"
| "underlying Agent = -1"
| "underlying Vacant = 0"
| "underlying Human = 1"
| "underlying (Unnamed i) = i"

definition cast_player :: "int \<Rightarrow> player" where
  "cast_player i =
    (if i = -2 then Invalid else if i = -1 then Agent else if i = 0 then Vacant
     else if i = 1 then Human else Unnamed i)"

definition opponent :: "player \<Rightarrow> player" where
  "opponent p = cast_player (to_int8 (- underlying p))"

definition as_index :: "player \<Rightarrow> index_t" where
  "as_index p = underlying p"

definition as_01index :: "player \<Rightarrow> index_t option" where
  "as_01index p =
    (if as_index p = underlying Agent then Some 0
     else if as_index p = underlying Human then Some 1
     else None)"

definition occupied :: "player \<Rightarrow> bool" where
  "occupied p = ((as_index p AND 1) \<noteq> 0)"

definition player_random :: "bool \<Rightarrow> player" where
  "player_random bernoulli = (if bernoulli then Agent else Human)"

text \<open>\<^verbatim>\<open>Player::print\<close> writes one line; any value that is not an enumerator aborts.\<close>

fun player_print :: "player \<Rightarrow> string option" where
  "player_print Invalid = Some ''invalid''"
| "player_print Agent = Some ''agent''"
| "player_print Vacant = Some ''vacant''"
| "player_print Human = Some ''human''"
| "player_print (Unnamed i) = None"

text \<open>The two values that can make a move.\<close>

definition is_mover :: "player \<Rightarrow> bool" where
  "is_mover p \<longleftrightarrow> p = Agent \<or> p = Human"

section \<open>Lemmas\<close>

lemma opponent_simps [simp]:
  "opponent Agent = Human" "opponent Human = Agent" "opponent Vacant = Vacant"
  "opponent Invalid = Unnamed 2"
  by (simp_all add: opponent_def cast_player_def cast_simps)

lemma as_index_simps [simp]:
  "as_index Invalid = -2" "as_index Agent = -1" "as_index Vacant = 0" "as_index Human = 1"
  by (simp_all add: as_index_def)

lemma as_01index_simps [simp]:
  "as_01index Agent = Some 0" "as_01index Human = Some 1"
  "as_01index Vacant = None" "as_01index Invalid = None"
  by (simp_all add: as_01index_def)

lemma occupied_simps [simp]:
  "occupied Agent" "occupied Human" "\<not> occupied Vacant" "\<not> occupied Invalid"
  by (simp_all add: occupied_def)

lemma is_mover_simps [simp]:
  "is_mover Agent" "is_mover Human" "\<not> is_mover Vacant" "\<not> is_mover Invalid"
  "\<not> is_mover (Unnamed i)"
  by (simp_all add: is_mover_def)

lemma is_mover_player_random [inv_intros, simp]: "is_mover (player_random b)"
  by (simp add: player_random_def)

lemma is_mover_opponent [inv_intros]: "is_mover p \<Longrightarrow> is_mover (opponent p)"
  by (auto simp: is_mover_def)

lemma is_mover_occupied: "is_mover p \<Longrightarrow> occupied p"
  by (auto simp: is_mover_def)

lemma is_mover_as_01index: "is_mover p \<Longrightarrow> \<exists>i. as_01index p = Some i \<and> 0 \<le> i \<and> i < 2"
  by (auto simp: is_mover_def)

lemma as_01index_inj:
  "as_01index p = Some i \<Longrightarrow> as_01index q = Some i \<Longrightarrow> is_mover p \<Longrightarrow> is_mover q \<Longrightarrow> p = q"
  by (auto simp: is_mover_def)

text \<open>On the two players that move, taking the opponent is an involution without fixed point.\<close>

lemma opponent_involution: "is_mover p \<Longrightarrow> opponent (opponent p) = p \<and> opponent p \<noteq> p"
  by (auto simp: is_mover_def)

end
