(* ===== verification/Globals.thy ===== *)
theory Globals
  imports Player Splitmix
begin

text \<open>
  The global random number generator of globals.cpp and the distributions the program draws from it. How
  \<^verbatim>\<open>std::uniform_int_distribution\<close> and \<^verbatim>\<open>std::bernoulli_distribution\<close> turn generator outputs into values is left to
  the implementation of the standard library; they are arguments of the definitions that use them, and the locale
  below states what the C++ standard promises: a draw from a non-empty range lies in that range.
\<close>

type_synonym uniform_int = "index_t \<Rightarrow> index_t \<Rightarrow> splitmix \<Rightarrow> index_t \<times> splitmix"
type_synonym bernoulli_dist = "splitmix \<Rightarrow> bool \<times> splitmix"

record globals =
  g_seed :: u64
  g_rng :: splitmix

definition globals_init :: globals where
  "globals_init = \<lparr>g_seed = 0, g_rng = splitmix64 1234567890 0x9e3779b97f4a7c15\<rparr>"

definition next_seed :: "globals \<Rightarrow> u64 \<times> globals" where
  "next_seed g =
    (let g = g\<lparr>g_seed := g_seed g + 1\<rparr>;
         g = g\<lparr>g_rng := sm_seed (g_seed g) (g_rng g)\<rparr>
     in (g_seed g, g))"

definition seed :: "u64 \<Rightarrow> globals \<Rightarrow> globals" where
  "seed s g = g\<lparr>g_rng := sm_seed s (g_rng g)\<rparr>"

definition bernoulli :: "bernoulli_dist \<Rightarrow> globals \<Rightarrow> bool \<times> globals" where
  "bernoulli dist g = (let (b, r) = dist (g_rng g) in (b, g\<lparr>g_rng := r\<rparr>))"

locale uniform_dist =
  fixes unif :: uniform_int
  assumes unif_range: "lo \<le> hi \<Longrightarrow> lo \<le> fst (unif lo hi g) \<and> fst (unif lo hi g) \<le> hi"
begin

lemma unif_index:
  assumes "0 < n"
  shows "0 \<le> fst (unif 0 (n - 1) g) \<and> fst (unif 0 (n - 1) g) < n"
  using unif_range [of 0 "n - 1" g] assms by simp

end

text \<open>A distribution that meets the promise, on the program's own generator: reduction modulo the size of the range.\<close>

definition uniform_mod :: uniform_int where
  "uniform_mod lo hi g = (let (x, g') = sm_call g in (lo + uint x mod (hi - lo + 1), g'))"

interpretation um: uniform_dist uniform_mod
proof
  fix lo hi :: index_t and g :: splitmix
  assume "lo \<le> hi"
  then have "0 < hi - lo + 1" by simp
  then have "0 \<le> uint (mix64 (m_seed g)) mod (hi - lo + 1)"
    and "uint (mix64 (m_seed g)) mod (hi - lo + 1) < hi - lo + 1"
    by (rule pos_mod_sign, rule pos_mod_bound)
  then show "lo \<le> fst (uniform_mod lo hi g) \<and> fst (uniform_mod lo hi g) \<le> hi"
    by (simp add: uniform_mod_def sm_call_eq)
qed

end
