(* ===== verification/Archive.thy ===== *)
theory Archive
  imports Player
begin

text \<open>
  Archives. The classes of the program are written with the library cereal, whose binary archives hold the items in the order in which they are written, and from which
  they are read in the same order. An archive is the list of its items; reading an item takes it from the front, and reading an item of another type than the one that was
  written there has no meaning and fails. The elements of arrays and the moves of a game are items of a type of their own.
\<close>

datatype 'e item =
    Item_int8 int
  | Item_int32 int
  | Item_float int
  | Item_player player
  | Item_flag bool
  | Item_element 'e

type_synonym 'e archive = "'e item list"

fun take_int8 :: "'e archive \<Rightarrow> (int \<times> 'e archive) option" where
  "take_int8 (Item_int8 x # ar) = Some (x, ar)"
| "take_int8 _ = None"

fun take_int32 :: "'e archive \<Rightarrow> (int \<times> 'e archive) option" where
  "take_int32 (Item_int32 x # ar) = Some (x, ar)"
| "take_int32 _ = None"

fun take_float :: "'e archive \<Rightarrow> (int \<times> 'e archive) option" where
  "take_float (Item_float x # ar) = Some (x, ar)"
| "take_float _ = None"

fun take_player :: "'e archive \<Rightarrow> (player \<times> 'e archive) option" where
  "take_player (Item_player x # ar) = Some (x, ar)"
| "take_player _ = None"

fun take_flag :: "'e archive \<Rightarrow> (bool \<times> 'e archive) option" where
  "take_flag (Item_flag x # ar) = Some (x, ar)"
| "take_flag _ = None"

fun take_element :: "'e archive \<Rightarrow> ('e \<times> 'e archive) option" where
  "take_element (Item_element x # ar) = Some (x, ar)"
| "take_element _ = None"

fun take_elements :: "nat \<Rightarrow> 'e archive \<Rightarrow> ('e list \<times> 'e archive) option" where
  "take_elements 0 ar = Some ([], ar)"
| "take_elements (Suc n) ar = do { (x, ar) \<leftarrow> take_element ar; (xs, ar) \<leftarrow> take_elements n ar; Some (x # xs, ar) }"

lemma take_elements_map: "take_elements (length xs) (map Item_element xs @ ar) = Some (xs, ar)"
  by (induction xs) simp_all

end
