(* ===== verification/Moves.thy ===== *)
theory Moves
  imports Globals Archive
begin

text \<open>
  The fixed-capacity array of moves of moves.hpp, \<^verbatim>\<open>Moves<T, S>\<close>: \<^verbatim>\<open>m_size\<close> counts the live elements at the front of the
  array \<^verbatim>\<open>m_moves\<close> of \<open>S\<close> elements; what lies behind them is stale. The invariant is \<open>moves_wf\<close>, the abstract value is
  \<open>contents\<close>, and the operations are characterised by what they do to it.
\<close>

record 'a moves =
  m_size :: index_t
  m_moves :: "'a list"

definition moves_new :: "nat \<Rightarrow> 'a \<Rightarrow> 'a moves" where
  "moves_new S v = \<lparr>m_size = 0, m_moves = replicate S v\<rparr>"

definition clear :: "'a moves \<Rightarrow> 'a moves" where
  "clear m = m\<lparr>m_size := 0\<rparr>"

definition moves_empty :: "'a moves \<Rightarrow> bool" where
  "moves_empty m = (m_size m = 0)"

definition capacity :: "'a moves \<Rightarrow> index_t" where
  "capacity m = int (length (m_moves m))"

definition moves_at :: "'a moves \<Rightarrow> index_t \<Rightarrow> 'a option" where
  "moves_at m i = (if 0 \<le> i \<and> i < m_size m then aref (m_moves m) i else None)"

definition front :: "'a moves \<Rightarrow> 'a option" where
  "front m = aref (m_moves m) 0"

definition push_back :: "'a moves \<Rightarrow> 'a \<Rightarrow> 'a moves option" where
  "push_back m v = do {
     a \<leftarrow> aset (m_moves m) (m_size m) v;
     let m' = m\<lparr>m_moves := a, m_size := m_size m + 1\<rparr>;
     if m_size m' \<le> capacity m' then Some m' else None }"

definition moves_random :: "uniform_int \<Rightarrow> 'a moves \<Rightarrow> splitmix \<Rightarrow> ('a \<times> splitmix) option" where
  "moves_random unif m g =
    (if 0 \<le> m_size m - 1 then
       let (i, g') = unif 0 (m_size m - 1) g
       in map_option (\<lambda>v. (v, g')) (aref (m_moves m) i)
     else None)"

text \<open>The search loop of \<^verbatim>\<open>find\<close> and \<^verbatim>\<open>remove\<close>: the first index from \<open>i\<close> below \<open>n\<close> whose element equals \<open>v\<close>.\<close>

function moves_search :: "'a list \<Rightarrow> 'a \<Rightarrow> index_t \<Rightarrow> index_t \<Rightarrow> index_t option option" where
  "moves_search a v i n =
    (if i < n then
       (case aref a i of
          None \<Rightarrow> None
        | Some x \<Rightarrow> if x = v then Some (Some i) else moves_search a v (i + 1) n)
     else Some None)"
  by pat_completeness auto
termination
  by (relation "measure (\<lambda>(a, v, i, n). nat (n - i))") auto

declare moves_search.simps [simp del]

definition moves_find :: "'a moves \<Rightarrow> 'a \<Rightarrow> bool option" where
  "moves_find m v = map_option (\<lambda>r. r \<noteq> None) (moves_search (m_moves m) v 0 (m_size m))"

definition draw :: "uniform_int \<Rightarrow> 'a moves \<Rightarrow> splitmix \<Rightarrow> ('a \<times> 'a moves \<times> splitmix) option" where
  "draw unif m g =
    (if 1 = m_size m then do {
       v \<leftarrow> aref (m_moves m) (m_size m - 1);
       Some (v, m\<lparr>m_size := m_size m - 1\<rparr>, g) }
     else if 0 \<le> m_size m - 1 then do {
       let (i, g') = unif 0 (m_size m - 1) g;
       v \<leftarrow> aref (m_moves m) i;
       w \<leftarrow> aref (m_moves m) (m_size m - 1);
       a \<leftarrow> aset (m_moves m) i w;
       Some (v, m\<lparr>m_moves := a, m_size := m_size m - 1\<rparr>, g') }
     else None)"

definition remove :: "'a moves \<Rightarrow> 'a \<Rightarrow> 'a moves option" where
  "remove m v = do {
     f \<leftarrow> (if m_size m < 2 then map_option (\<lambda>x. x = v) (aref (m_moves m) 0) else Some False);
     if f then Some (m\<lparr>m_size := 0\<rparr>)
     else do {
       let last = m_size m - 1;
       r \<leftarrow> moves_search (m_moves m) v 0 last;
       case r of
         Some i \<Rightarrow> do {
           w \<leftarrow> aref (m_moves m) last;
           a \<leftarrow> aset (m_moves m) i w;
           Some (m\<lparr>m_moves := a, m_size := m_size m - 1\<rparr>) }
       | None \<Rightarrow> do {
           w \<leftarrow> aref (m_moves m) last;
           Some (if w = v then m\<lparr>m_size := m_size m - 1\<rparr> else m) } } }"

text \<open>\<^verbatim>\<open>serialize\<close> passes the size and then the live elements to the archive; an input archive stores into the same
  places in the same order.\<close>

definition moves_save :: "'a moves \<Rightarrow> 'a archive option" where
  "moves_save m =
    (if 0 \<le> m_size m \<and> m_size m \<le> capacity m
     then Some (Item_int32 (m_size m) # map Item_element (take (nat (m_size m)) (m_moves m))) else None)"

definition moves_load :: "'a archive \<Rightarrow> 'a moves \<Rightarrow> ('a moves \<times> 'a archive) option" where
  "moves_load ar m = do {
     (n, ar) \<leftarrow> take_int32 ar;
     if 0 \<le> n \<and> n \<le> capacity m
     then do { (xs, ar) \<leftarrow> take_elements (nat n) ar; Some (m\<lparr>m_size := n, m_moves := xs @ drop (nat n) (m_moves m)\<rparr>, ar) }
     else None }"

section \<open>Invariant and abstract value\<close>

definition moves_wf :: "'a moves \<Rightarrow> bool" where
  "moves_wf m \<longleftrightarrow> 0 \<le> m_size m \<and> m_size m \<le> capacity m"

definition contents :: "'a moves \<Rightarrow> 'a list" where
  "contents m = take (nat (m_size m)) (m_moves m)"

lemma moves_wf_new [inv_intros, simp]: "moves_wf (moves_new S v)"
  by (simp add: moves_wf_def moves_new_def capacity_def)

lemma moves_wf_clear [inv_intros, simp]: "moves_wf (clear m)"
  by (simp add: moves_wf_def clear_def capacity_def)

lemma contents_simps [simp]: "contents (clear m) = []" "contents (moves_new S v) = []"
  by (simp_all add: contents_def clear_def moves_new_def)

lemma capacity_simps [simp]:
  "capacity (clear m) = capacity m" "capacity (moves_new S v) = int S"
  by (simp_all add: capacity_def clear_def moves_new_def)

lemma length_contents: "moves_wf m \<Longrightarrow> int (length (contents m)) = m_size m"
  by (auto simp: moves_wf_def contents_def capacity_def min_def)

lemma contents_nth:
  "moves_wf m \<Longrightarrow> 0 \<le> i \<Longrightarrow> i < m_size m \<Longrightarrow> aref (m_moves m) i = Some (contents m ! nat i)"
  by (simp add: moves_wf_def contents_def capacity_def aref_def)

lemma push_back_ok:
  assumes "moves_wf m" "m_size m < capacity m"
  shows "\<exists>m'. push_back m v = Some m' \<and> moves_wf m' \<and> contents m' = contents m @ [v]
    \<and> capacity m' = capacity m \<and> m_size m' = m_size m + 1"
  using assms
  by (auto simp: push_back_def moves_wf_def capacity_def contents_def aset_def Let_def
      nat_add_distrib take_Suc_conv_app_nth)

lemma push_back_full:
  "moves_wf m \<Longrightarrow> capacity m \<le> m_size m \<Longrightarrow> push_back m v = None"
  by (auto simp: push_back_def moves_wf_def capacity_def aset_def)

lemma moves_search_correct:
  assumes "0 \<le> i" "n \<le> int (length a)"
  shows "(\<exists>k. moves_search a v i n = Some (Some k) \<and> i \<le> k \<and> k < n \<and> a ! nat k = v)
    \<or> (moves_search a v i n = Some None \<and> (\<forall>k. i \<le> k \<longrightarrow> k < n \<longrightarrow> a ! nat k \<noteq> v))"
  using assms
proof (induction a v i n rule: moves_search.induct)
  case (1 a v i n)
  show ?case
  proof (cases "i < n \<and> a ! nat i \<noteq> v")
    case True
    then have eq: "moves_search a v i n = moves_search a v (i + 1) n"
      using 1(2,3) by (simp add: moves_search.simps [of a v i n] aref_def)
    from True 1(2,3) have r: "aref a i = Some (a ! nat i)" by (simp add: aref_def)
    from 1(1) [OF conjunct1 [OF True] r conjunct2 [OF True]] 1(2,3)
    consider k where "moves_search a v (i + 1) n = Some (Some k)" "i + 1 \<le> k" "k < n" "a ! nat k = v"
      | "moves_search a v (i + 1) n = Some None" "\<forall>k. i + 1 \<le> k \<longrightarrow> k < n \<longrightarrow> a ! nat k \<noteq> v"
      by auto
    then show ?thesis
    proof cases
      case 1
      then show ?thesis unfolding eq by (intro disjI1 exI [of _ k]) simp
    next
      case 2
      have "a ! nat k \<noteq> v" if "i \<le> k" "k < n" for k
        using 2(2) True that by (cases "k = i") auto
      with 2(1) show ?thesis unfolding eq by blast
    qed
  next
    case False
    with 1(2,3) show ?thesis by (auto simp: moves_search.simps [of a v i n] aref_def)
  qed
qed

lemma in_set_contents:
  assumes "moves_wf m"
  shows "v \<in> set (contents m) \<longleftrightarrow> (\<exists>k. 0 \<le> k \<and> k < m_size m \<and> m_moves m ! nat k = v)"
proof
  assume "v \<in> set (contents m)"
  then obtain k where "k < length (contents m)" "contents m ! k = v" by (auto simp: in_set_conv_nth)
  then show "\<exists>k. 0 \<le> k \<and> k < m_size m \<and> m_moves m ! nat k = v"
    using length_contents [OF assms] by (intro exI [of _ "int k"]) (auto simp: contents_def zless_nat_eq_int_zless)
next
  assume "\<exists>k. 0 \<le> k \<and> k < m_size m \<and> m_moves m ! nat k = v"
  then obtain k where "0 \<le> k" "k < m_size m" "m_moves m ! nat k = v" by blast
  then show "v \<in> set (contents m)"
    using length_contents [OF assms] unfolding in_set_conv_nth
    by (intro exI [of _ "nat k"]) (simp add: contents_def)
qed

lemma moves_find_correct:
  assumes "moves_wf m"
  shows "moves_find m v = Some (v \<in> set (contents m))"
  using moves_search_correct [of 0 "m_size m" "m_moves m" v] assms
  by (auto simp: moves_find_def moves_wf_def capacity_def in_set_contents [OF assms])

lemma moves_random_ok:
  assumes "uniform_dist unif" "moves_wf m" "0 < m_size m"
  shows "\<exists>v g'. moves_random unif m g = Some (v, g') \<and> v \<in> set (contents m)"
proof -
  obtain i g' where ig: "unif 0 (m_size m - 1) g = (i, g')" by (cases "unif 0 (m_size m - 1) g")
  with uniform_dist.unif_index [OF assms(1,3), of g] have i: "0 \<le> i" "i < m_size m" by auto
  with contents_nth [OF assms(2)] length_contents [OF assms(2)] assms(3) ig show ?thesis
    by (simp add: moves_random_def nth_mem nat_less_iff)
qed

text \<open>What remains of the contents when position \<open>i\<close> is overwritten by the last element and the size is decreased.\<close>

lemma contents_swap_last_out:
  assumes "moves_wf m" "0 \<le> i" "i < m_size m"
  shows "contents (m\<lparr>m_moves := (m_moves m)[nat i := m_moves m ! nat (m_size m - 1)], m_size := m_size m - 1\<rparr>)
    = butlast ((contents m)[nat i := last (contents m)])"
proof -
  have len: "nat (m_size m) \<le> length (m_moves m)" "0 < nat (m_size m)"
    using assms by (auto simp: moves_wf_def capacity_def)
  then have ne: "contents m \<noteq> []" by (auto simp: contents_def)
  then have "last (contents m) = m_moves m ! nat (m_size m - 1)"
    using len by (simp add: last_conv_nth) (simp add: contents_def min_def nat_diff_distrib)
  with len show ?thesis
    by (simp add: contents_def butlast_conv_take min_def nat_diff_distrib take_update_swap)
qed

lemma contents_drop_last:
  assumes "moves_wf m" "0 < m_size m"
  shows "contents (m\<lparr>m_size := m_size m - 1\<rparr>) = butlast (contents m)"
  using assms by (simp add: contents_def butlast_take moves_wf_def capacity_def nat_diff_distrib)

lemma moves_wf_shrink:
  "moves_wf m \<Longrightarrow> 0 < m_size m \<Longrightarrow> length a = length (m_moves m) \<Longrightarrow>
    moves_wf (m\<lparr>m_moves := a, m_size := m_size m - 1\<rparr>)"
  "moves_wf m \<Longrightarrow> 0 < m_size m \<Longrightarrow> moves_wf (m\<lparr>m_size := m_size m - 1\<rparr>)"
  by (simp_all add: moves_wf_def capacity_def)

lemma draw_ok:
  assumes "uniform_dist unif" "moves_wf m" "0 < m_size m"
  shows "\<exists>v m' g'. draw unif m g = Some (v, m', g') \<and> moves_wf m' \<and> m_size m' = m_size m - 1
    \<and> capacity m' = capacity m \<and> mset (contents m) = add_mset v (mset (contents m'))"
proof (cases "m_size m = 1")
  case True
  let ?m' = "m\<lparr>m_size := m_size m - 1\<rparr>"
  have "length (contents m) = 1" using length_contents [OF assms(2)] True by simp
  then obtain v where v: "contents m = [v]" by (auto simp: length_Suc_conv)
  have "aref (m_moves m) 0 = Some v" using contents_nth [OF assms(2), of 0] True v by simp
  then have "draw unif m g = Some (v, ?m', g)" using True by (simp add: draw_def)
  moreover have "contents ?m' = []" using contents_drop_last [OF assms(2,3)] v by simp
  ultimately show ?thesis using moves_wf_shrink(2) [OF assms(2,3)] v by (simp add: capacity_def)
next
  case False
  obtain i g' where ig: "unif 0 (m_size m - 1) g = (i, g')" by (cases "unif 0 (m_size m - 1) g")
  with uniform_dist.unif_index [OF assms(1,3), of g] have i: "0 \<le> i" "i < m_size m" by auto
  let ?a = "(m_moves m)[nat i := m_moves m ! nat (m_size m - 1)]"
  let ?m' = "m\<lparr>m_moves := ?a, m_size := m_size m - 1\<rparr>"
  have "m_size m \<le> int (length (m_moves m))" using assms(2) by (simp add: moves_wf_def capacity_def)
  then have "draw unif m g = Some (m_moves m ! nat i, ?m', g')"
    using i assms(3) False ig by (simp add: draw_def access_simps)
  moreover have "contents m ! nat i = m_moves m ! nat i" using i by (simp add: contents_def)
  moreover have "nat i < length (contents m)" using i length_contents [OF assms(2)] by simp
  ultimately show ?thesis
    using mset_swap_last_out [of "nat i" "contents m"] contents_swap_last_out [OF assms(2) i]
      moves_wf_shrink(1) [OF assms(2,3), of ?a]
    by (simp add: capacity_def)
qed

lemma remove_ok:
  assumes "moves_wf m" "0 < m_size m"
  shows "\<exists>m'. remove m v = Some m' \<and> moves_wf m' \<and> capacity m' = capacity m
    \<and> mset (contents m') = mset (contents m) - {#v#}"
proof -
  let ?l = "m_size m - 1"
  have cap: "m_size m \<le> int (length (m_moves m))" using assms(1) by (simp add: moves_wf_def capacity_def)
  have last: "aref (m_moves m) ?l = Some (contents m ! nat ?l)" using contents_nth [OF assms(1), of ?l] assms(2) by simp
  have ne: "contents m \<noteq> []" using length_contents [OF assms(1)] assms(2) by auto
  show ?thesis
  proof (cases "\<exists>k. 0 \<le> k \<and> k < ?l \<and> m_moves m ! nat k = v")
    case True
    then obtain k where k: "moves_search (m_moves m) v 0 ?l = Some (Some k)" "0 \<le> k" "k < ?l" "m_moves m ! nat k = v"
      using moves_search_correct [of 0 ?l "m_moves m" v] cap by auto
    let ?a = "(m_moves m)[nat k := m_moves m ! nat ?l]"
    from k cap assms(2) have "remove m v = Some (m\<lparr>m_moves := ?a, m_size := ?l\<rparr>)"
      by (simp add: remove_def access_simps Let_def)
    moreover have "nat k < length (contents m)" "contents m ! nat k = v"
      using k length_contents [OF assms(1)] by (simp_all add: contents_def)
    ultimately show ?thesis
      using mset_swap_last_out [of "nat k" "contents m", symmetric] contents_swap_last_out [OF assms(1), of k] k
        moves_wf_shrink(1) [OF assms, of ?a]
      by (auto simp: capacity_def)
  next
    case False
    then have s: "moves_search (m_moves m) v 0 ?l = Some None"
      using moves_search_correct [of 0 ?l "m_moves m" v] cap by auto
    let ?w = "contents m ! nat ?l"
    have nth: "nat ?l = length (contents m) - 1" using length_contents [OF assms(1)] by simp
    have split: "contents m = butlast (contents m) @ [?w]"
      using ne unfolding nth by (metis append_butlast_last_id last_conv_nth)
    have "v \<notin> set (butlast (contents m))"
    proof
      assume "v \<in> set (butlast (contents m))"
      then obtain k where "k < length (contents m) - 1" "contents m ! k = v"
        by (auto simp: in_set_conv_nth nth_butlast)
      with False nth show False
        using length_contents [OF assms(1)] by (auto simp: contents_def dest!: spec [of _ "int k"])
    qed
    moreover have "remove m v = Some (if ?w = v then m\<lparr>m_size := ?l\<rparr> else m)"
      using s last assms(2) by (cases "m_size m = 1") (simp_all add: remove_def Let_def)
    moreover have "contents (m\<lparr>m_size := ?l\<rparr>) = butlast (contents m)"
      by (rule contents_drop_last [OF assms])
    ultimately show ?thesis
      using assms(1) moves_wf_shrink(2) [OF assms] arg_cong [OF split, of mset]
      by (auto simp: capacity_def)
  qed
qed

lemma remove_empty:
  assumes "m_size m = 0" "m_moves m \<noteq> []"
  shows "remove m v = (if hd (m_moves m) = v then Some (m\<lparr>m_size := 0\<rparr>) else None)"
proof -
  have "aref (m_moves m) 0 = Some (hd (m_moves m))" using assms(2) by (simp add: aref_def hd_conv_nth)
  then show ?thesis using assms(1)
    by (simp add: remove_def Let_def moves_search.simps [of _ v 0 "-1"]) (simp add: aref_def)
qed

lemma moves_save_load:
  assumes "moves_wf m" "m_size m \<le> capacity m'"
  shows "\<exists>out m''. moves_save m = Some out \<and> moves_load (out @ ar) m' = Some (m'', ar) \<and> moves_wf m'' \<and> contents m'' = contents m
    \<and> capacity m'' = capacity m'"
proof -
  let ?xs = "take (nat (m_size m)) (m_moves m)"
  have len: "length ?xs = nat (m_size m)" using assms(1) by (auto simp: moves_wf_def capacity_def min_def)
  have "take_elements (nat (m_size m)) (map Item_element ?xs @ ar) = Some (?xs, ar)" using take_elements_map [of ?xs ar] unfolding len .
  with assms len show ?thesis
    by (auto simp: moves_load_def moves_save_def moves_wf_def contents_def capacity_def)
qed

section \<open>Properties\<close>

text \<open>A small array for the closed instances below.\<close>

definition moves_example :: "int moves" where
  "moves_example = \<lparr>m_size = 3, m_moves = [4, 5, 6, 0]\<rparr>"

text \<open>For any distribution that respects its range, drawing from a non-empty array of moves succeeds, takes exactly
  one occurrence of the returned move out of the contents and keeps the array well-formed.\<close>

theorem draw_removes_one:
  assumes "uniform_dist unif" and "moves_wf m" and "0 < m_size m"
  shows "\<exists>v m' g'. draw unif m g = Some (v, m', g') \<and> moves_wf m' \<and> m_size m' = m_size m - 1
    \<and> mset (contents m) = add_mset v (mset (contents m'))"
  using draw_ok [OF assms] by blast

theorem draw_removes_one_witness:
  "\<exists>v m' g'. draw uniform_mod moves_example splitmix64_default = Some (v, m', g')
    \<and> moves_wf m' \<and> m_size m' = m_size moves_example - 1
    \<and> mset (contents moves_example) = add_mset v (mset (contents m'))"
  by (rule draw_removes_one [OF um.uniform_dist_axioms])
     (simp_all add: moves_example_def moves_wf_def capacity_def)

text \<open>Appending below the capacity appends to the contents and at the capacity fails; searching reports membership;
  removing a move takes out one occurrence if there is one, and on an empty array it fails (it reads the element at
  index -1) unless the stale first element happens to equal the argument.\<close>

theorem moves_operations:
  assumes "moves_wf m" and "m_moves m \<noteq> []"
  shows "(if m_size m < capacity m
      then \<exists>m'. push_back m v = Some m' \<and> moves_wf m' \<and> contents m' = contents m @ [v]
      else push_back m v = None)
    \<and> moves_find m v = Some (v \<in> set (contents m))
    \<and> (if 0 < m_size m
        then \<exists>m'. remove m v = Some m' \<and> moves_wf m' \<and> mset (contents m') = mset (contents m) - {#v#}
        else (remove m v = None) = (hd (m_moves m) \<noteq> v))"
proof -
  have "m_size m = 0" if "\<not> 0 < m_size m" using assms(1) that by (simp add: moves_wf_def)
  then show ?thesis
    using push_back_ok [OF assms(1), of v] push_back_full [OF assms(1), of v] moves_find_correct [OF assms(1), of v]
      remove_ok [OF assms(1), of v] remove_empty [OF _ assms(2), of v]
    by (auto simp: linorder_not_less)
qed

theorem moves_operations_witness:
  "(if m_size moves_example < capacity moves_example
      then \<exists>m'. push_back moves_example 5 = Some m' \<and> moves_wf m'
        \<and> contents m' = contents moves_example @ [5]
      else push_back moves_example 5 = None)
    \<and> moves_find moves_example 5 = Some (5 \<in> set (contents moves_example))
    \<and> (if 0 < m_size moves_example
        then \<exists>m'. remove moves_example 5 = Some m' \<and> moves_wf m'
          \<and> mset (contents m') = mset (contents moves_example) - {#5#}
        else (remove moves_example 5 = None) = (hd (m_moves moves_example) \<noteq> 5))"
  by (rule moves_operations) (simp_all add: moves_example_def moves_wf_def capacity_def)

end
