(* ===== verification/Rooted_Digraph.thy ===== *)
theory Rooted_Digraph
  imports Mcts_Prelude
begin

text \<open>
  The rooted directed graph of old/stable_rooted_digraph-1.2.hpp: arcs and nodes live in two arenas, each arc is on the
  singly linked list of the arcs that leave its source and on the list of those that enter its target, and each node
  keeps head and tail of its two lists. An access through an invalid index fails. The template parameter \<^verbatim>\<open>Locking\<close> is
  false, so that the locks are empty and \<^verbatim>\<open>addArc\<close> and \<^verbatim>\<open>addNode\<close> are the unsafe variants; the data of a new arc or
  node, built from the forwarded arguments, is an argument.
\<close>

section \<open>Arenas\<close>

definition arena_emplace_back :: "'x list \<Rightarrow> 'x \<Rightarrow> index_t \<times> 'x list" where
  "arena_emplace_back m x = (let idx = to_int32 (int (length m)) in (idx, m @ [x]))"

definition arena_size :: "'x list \<Rightarrow> int" where
  "arena_size m = int (length m)"

section \<open>Arcs, nodes, trees\<close>

definition invalid_arc :: index_t where
  "invalid_arc = - (2 ^ 31) + 0"

definition invalid_node :: index_t where
  "invalid_node = - (2 ^ 31) + 1"

record 'a arc_t =
  source :: index_t
  target :: index_t
  next_in :: index_t
  next_out :: index_t
  a_data :: 'a

record 'n node_t =
  head_in :: index_t
  tail_in :: index_t
  head_out :: index_t
  tail_out :: index_t
  n_data :: 'n

record ('a, 'n) tree =
  m_arcs :: "'a arc_t list"
  m_nodes :: "'n node_t list"
  root_arc :: index_t
  root_node :: index_t

definition ArcType :: "index_t \<Rightarrow> index_t \<Rightarrow> 'a \<Rightarrow> 'a arc_t" where
  "ArcType s t d = \<lparr>source = s, target = t, next_in = invalid_arc, next_out = invalid_arc, a_data = d\<rparr>"

definition NodeType :: "'n \<Rightarrow> 'n node_t" where
  "NodeType d = \<lparr>head_in = invalid_arc, tail_in = invalid_arc, head_out = invalid_arc, tail_out = invalid_arc,
    n_data = d\<rparr>"

definition NodeType_arc :: "index_t \<Rightarrow> 'n \<Rightarrow> 'n node_t" where
  "NodeType_arc a d = \<lparr>head_in = a, tail_in = a, head_out = invalid_arc, tail_out = invalid_arc, n_data = d\<rparr>"

definition setSourceTarget :: "index_t \<Rightarrow> index_t \<Rightarrow> 'a arc_t \<Rightarrow> 'a arc_t" where
  "setSourceTarget s t x = x\<lparr>source := s, target := t\<rparr>"

definition tree_new :: "'a \<Rightarrow> 'n \<Rightarrow> ('a, 'n) tree" where
  "tree_new da dn =
    (let (a, arcs) = arena_emplace_back [] (ArcType invalid_node 0 da);
         (n, nodes) = arena_emplace_back [] (NodeType_arc a dn)
     in \<lparr>m_arcs = arcs, m_nodes = nodes, root_arc = 0, root_node = 0\<rparr>)"

definition setRoot :: "index_t \<Rightarrow> ('a, 'n) tree \<Rightarrow> ('a, 'n) tree option" where
  "setRoot n g = do {
     let g = g\<lparr>root_node := n\<rparr>;
     x \<leftarrow> aref (m_arcs g) (root_arc g);
     arcs \<leftarrow> aset (m_arcs g) (root_arc g) (setSourceTarget invalid_node (root_node g) x);
     Some (g\<lparr>m_arcs := arcs\<rparr>) }"

definition resetRoot :: "('a, 'n) tree \<Rightarrow> ('a, 'n) tree option" where
  "resetRoot g = setRoot 0 g"

definition clearUnsafe :: "'a \<Rightarrow> 'n \<Rightarrow> ('a, 'n) tree \<Rightarrow> ('a, 'n) tree" where
  "clearUnsafe da dn g =
    (let g = g\<lparr>m_arcs := [], m_nodes := [], root_arc := 0, root_node := 0\<rparr>;
         (a, arcs) = arena_emplace_back (m_arcs g) (ArcType invalid_node (root_node g) da);
         (n, nodes) = arena_emplace_back (m_nodes g) (NodeType_arc a dn)
     in g\<lparr>m_arcs := arcs, m_nodes := nodes\<rparr>)"

section \<open>Adding arcs and nodes\<close>

type_synonym link = "index_t \<times> index_t"

text \<open>Appending arc \<open>a\<close> to the in-list of \<open>t\<close> and to the out-list of \<open>s\<close>.\<close>

definition link_in :: "index_t \<Rightarrow> index_t \<Rightarrow> ('a, 'n) tree \<Rightarrow> ('a, 'n) tree option" where
  "link_in t a g = do {
     nt \<leftarrow> aref (m_nodes g) t;
     x \<leftarrow> aref (m_arcs g) (tail_in nt);
     arcs \<leftarrow> aset (m_arcs g) (tail_in nt) (x\<lparr>next_in := a\<rparr>);
     nodes \<leftarrow> aset (m_nodes g) t (nt\<lparr>tail_in := a\<rparr>);
     Some (g\<lparr>m_arcs := arcs, m_nodes := nodes\<rparr>) }"

definition link_out :: "index_t \<Rightarrow> index_t \<Rightarrow> ('a, 'n) tree \<Rightarrow> ('a, 'n) tree option" where
  "link_out s a g = do {
     ns \<leftarrow> aref (m_nodes g) s;
     if head_out ns = invalid_arc then do {
       nodes \<leftarrow> aset (m_nodes g) s (ns\<lparr>head_out := a, tail_out := a\<rparr>);
       Some (g\<lparr>m_nodes := nodes\<rparr>) }
     else do {
       x \<leftarrow> aref (m_arcs g) (tail_out ns);
       arcs \<leftarrow> aset (m_arcs g) (tail_out ns) (x\<lparr>next_out := a\<rparr>);
       nodes \<leftarrow> aset (m_nodes g) s (ns\<lparr>tail_out := a\<rparr>);
       Some (g\<lparr>m_arcs := arcs, m_nodes := nodes\<rparr>) } }"

definition addArcUnsafe :: "index_t \<Rightarrow> index_t \<Rightarrow> 'a \<Rightarrow> ('a, 'n) tree \<Rightarrow> (link \<times> ('a, 'n) tree) option" where
  "addArcUnsafe s t d g = do {
     let (a, arcs) = arena_emplace_back (m_arcs g) (ArcType s t d);
     let g = g\<lparr>m_arcs := arcs\<rparr>;
     g \<leftarrow> link_in t a g;
     g \<leftarrow> link_out s a g;
     Some ((a, t), g) }"

definition addArc :: "index_t \<Rightarrow> index_t \<Rightarrow> 'a \<Rightarrow> ('a, 'n) tree \<Rightarrow> (link \<times> ('a, 'n) tree) option" where
  "addArc s t d g = addArcUnsafe s t d g"

text \<open>The source and target of the new arc are not initialised before \<^verbatim>\<open>setSourceTarget\<close>.\<close>

definition addNodeUnsafe :: "index_t \<Rightarrow> 'a \<Rightarrow> 'n \<Rightarrow> ('a, 'n) tree \<Rightarrow> (link \<times> ('a, 'n) tree) option" where
  "addNodeUnsafe s da dn g = do {
     let (a, arcs) = arena_emplace_back (m_arcs g) (ArcType invalid_node invalid_node da);
     let (t, nodes) = arena_emplace_back (m_nodes g) (NodeType_arc a dn);
     x \<leftarrow> aref arcs a;
     arcs \<leftarrow> aset arcs a (setSourceTarget s t x);
     g \<leftarrow> link_out s a (g\<lparr>m_arcs := arcs, m_nodes := nodes\<rparr>);
     Some ((a, t), g) }"

definition addNode :: "index_t \<Rightarrow> 'a \<Rightarrow> 'n \<Rightarrow> ('a, 'n) tree \<Rightarrow> (link \<times> ('a, 'n) tree) option" where
  "addNode s da dn g = addNodeUnsafe s da dn g"

section \<open>Access\<close>

definition arc_data :: "index_t \<Rightarrow> ('a, 'n) tree \<Rightarrow> 'a option" where
  "arc_data a g = map_option a_data (aref (m_arcs g) a)"

definition set_arc_data :: "index_t \<Rightarrow> 'a \<Rightarrow> ('a, 'n) tree \<Rightarrow> ('a, 'n) tree option" where
  "set_arc_data a d g = do {
     x \<leftarrow> aref (m_arcs g) a;
     arcs \<leftarrow> aset (m_arcs g) a (x\<lparr>a_data := d\<rparr>);
     Some (g\<lparr>m_arcs := arcs\<rparr>) }"

definition node_data :: "index_t \<Rightarrow> ('a, 'n) tree \<Rightarrow> 'n option" where
  "node_data n g = map_option n_data (aref (m_nodes g) n)"

definition set_node_data :: "index_t \<Rightarrow> 'n \<Rightarrow> ('a, 'n) tree \<Rightarrow> ('a, 'n) tree option" where
  "set_node_data n d g = do {
     x \<leftarrow> aref (m_nodes g) n;
     nodes \<leftarrow> aset (m_nodes g) n (x\<lparr>n_data := d\<rparr>);
     Some (g\<lparr>m_nodes := nodes\<rparr>) }"

definition arc_source :: "index_t \<Rightarrow> ('a, 'n) tree \<Rightarrow> index_t option" where
  "arc_source a g = map_option source (aref (m_arcs g) a)"

definition arc_target :: "index_t \<Rightarrow> ('a, 'n) tree \<Rightarrow> index_t option" where
  "arc_target a g = map_option target (aref (m_arcs g) a)"

definition nodeNum :: "('a, 'n) tree \<Rightarrow> int" where
  "nodeNum g = arena_size (m_nodes g)"

definition arcNum :: "('a, 'n) tree \<Rightarrow> int" where
  "arcNum g = arena_size (m_arcs g)"

definition isLeaf :: "index_t \<Rightarrow> ('a, 'n) tree \<Rightarrow> bool option" where
  "isLeaf n g = map_option (\<lambda>x. head_out x = invalid_arc) (aref (m_nodes g) n)"

definition isInternal :: "index_t \<Rightarrow> ('a, 'n) tree \<Rightarrow> bool option" where
  "isInternal n g = map_option Not (isLeaf n g)"

section \<open>Iteration\<close>

text \<open>The iterators \<^verbatim>\<open>InIt\<close> and \<^verbatim>\<open>OutIt\<close> hold an arc; constructing one reads the head of the list, incrementing one follows
  the link, and iteration stops at the invalid arc.\<close>

definition InIt :: "('a, 'n) tree \<Rightarrow> index_t \<Rightarrow> index_t option" where
  "InIt g n = map_option head_in (aref (m_nodes g) n)"

definition InIt_next :: "('a, 'n) tree \<Rightarrow> index_t \<Rightarrow> index_t option" where
  "InIt_next g a = map_option next_in (aref (m_arcs g) a)"

definition OutIt :: "('a, 'n) tree \<Rightarrow> index_t \<Rightarrow> index_t option" where
  "OutIt g n = map_option head_out (aref (m_nodes g) n)"

definition OutIt_next :: "('a, 'n) tree \<Rightarrow> index_t \<Rightarrow> index_t option" where
  "OutIt_next g a = map_option next_out (aref (m_arcs g) a)"

partial_function (option) inArcNum_loop :: "('a, 'n) tree \<Rightarrow> index_t \<Rightarrow> int \<Rightarrow> int option" where
  "inArcNum_loop g a cnt =
    (if a = invalid_arc then Some cnt
     else case InIt_next g a of None \<Rightarrow> None | Some a' \<Rightarrow> inArcNum_loop g a' (cnt + 1))"

partial_function (option) outArcNum_loop :: "('a, 'n) tree \<Rightarrow> index_t \<Rightarrow> int \<Rightarrow> int option" where
  "outArcNum_loop g a cnt =
    (if a = invalid_arc then Some cnt
     else case OutIt_next g a of None \<Rightarrow> None | Some a' \<Rightarrow> outArcNum_loop g a' (cnt + 1))"

definition inArcNum :: "index_t \<Rightarrow> ('a, 'n) tree \<Rightarrow> int option" where
  "inArcNum n g = do { a \<leftarrow> InIt g n; inArcNum_loop g a 0 }"

definition outArcNum :: "index_t \<Rightarrow> ('a, 'n) tree \<Rightarrow> int option" where
  "outArcNum n g = do { a \<leftarrow> OutIt g n; outArcNum_loop g a 0 }"

partial_function (option) arc_loop :: "('a, 'n) tree \<Rightarrow> index_t \<Rightarrow> index_t \<Rightarrow> index_t option" where
  "arc_loop g t a =
    (if a = invalid_arc then Some invalid_arc
     else case arc_target a g of
       None \<Rightarrow> None
     | Some t' \<Rightarrow>
         if t' = t then Some a
         else (case OutIt_next g a of None \<Rightarrow> None | Some a' \<Rightarrow> arc_loop g t a'))"

declare inArcNum_loop.simps [code] outArcNum_loop.simps [code] arc_loop.simps [code]

definition arc :: "index_t \<Rightarrow> index_t \<Rightarrow> ('a, 'n) tree \<Rightarrow> index_t option" where
  "arc s t g = do { a \<leftarrow> OutIt g s; arc_loop g t a }"

definition link_nodes :: "index_t \<Rightarrow> index_t \<Rightarrow> ('a, 'n) tree \<Rightarrow> link option" where
  "link_nodes s t g = do { a \<leftarrow> OutIt g s; a' \<leftarrow> arc_loop g t a; Some (a', t) }"

definition link_arc :: "index_t \<Rightarrow> ('a, 'n) tree \<Rightarrow> link option" where
  "link_arc a g = map_option (\<lambda>t. (a, t)) (arc_target a g)"

definition valid_arc :: "index_t \<Rightarrow> bool" where
  "valid_arc a \<longleftrightarrow> a \<noteq> invalid_arc"

definition valid_node :: "index_t \<Rightarrow> bool" where
  "valid_node n \<longleftrightarrow> n \<noteq> invalid_node"

definition valid_nodes :: "index_t \<Rightarrow> index_t \<Rightarrow> ('a, 'n) tree \<Rightarrow> bool option" where
  "valid_nodes s t g = map_option valid_arc (arc s t g)"

section \<open>Links and paths\<close>

type_synonym path = "link list"

definition path_reset :: "index_t \<Rightarrow> index_t \<Rightarrow> path \<Rightarrow> path" where
  "path_reset a t p = [(a, t)]"

definition path_push :: "link \<Rightarrow> path \<Rightarrow> path" where
  "path_push l p = p @ [l]"

definition path_back :: "path \<Rightarrow> link option" where
  "path_back p = aref p (int (length p) - 1)"

definition path_set_back :: "link \<Rightarrow> path \<Rightarrow> path option" where
  "path_set_back l p = aset p (int (length p) - 1) l"

definition path_pop :: "path \<Rightarrow> (link \<times> path) option" where
  "path_pop p = do { r \<leftarrow> path_back p; Some (r, butlast p) }"

text \<open>Growing a path leaves the new links uninitialised.\<close>

definition path_resize :: "nat \<Rightarrow> path \<Rightarrow> path option" where
  "path_resize n p = (if n \<le> length p then Some (take n p) else None)"

section \<open>Transposition tables\<close>

text \<open>\<^verbatim>\<open>emplace\<close> does nothing when the key is present; \<^verbatim>\<open>record\<close> falls back to the data built from the invalid node.\<close>

definition tt_emplace :: "'h \<Rightarrow> 'd \<Rightarrow> ('h \<times> 'd) list \<Rightarrow> ('h \<times> 'd) list" where
  "tt_emplace h d m = (case map_of m h of None \<Rightarrow> m @ [(h, d)] | Some x \<Rightarrow> m)"

definition tt_record :: "'d \<Rightarrow> 'h \<Rightarrow> ('h \<times> 'd) list \<Rightarrow> 'h \<times> 'd" where
  "tt_record fallback h m = (case map_of m h of Some d \<Rightarrow> (h, d) | None \<Rightarrow> (h, fallback))"

definition tt_get :: "'h \<Rightarrow> ('h \<times> 'd) list \<Rightarrow> 'd option" where
  "tt_get h m = map_of m h"

section \<open>Slicing\<close>

text \<open>The loop over the arcs that leave \<open>parent\<close>, common to \<^verbatim>\<open>sliceDF\<close> and \<^verbatim>\<open>sliceBF\<close>: it copies each arc, and each target
  not visited before, into the new tree, and appends the latter to the work list.\<close>

partial_function (option) slice_arcs ::
  "'a \<Rightarrow> 'n \<Rightarrow> ('a, 'n) tree \<Rightarrow> index_t \<Rightarrow> index_t \<Rightarrow> ('a, 'n) tree \<times> index_t list \<times> index_t list \<Rightarrow>
   (('a, 'n) tree \<times> index_t list \<times> index_t list) option"
where
  "slice_arcs da dn g parent a st =
    (if a = invalid_arc then Some st
     else do {
       let (new, visited, work) = st;
       child \<leftarrow> arc_target a g;
       vc \<leftarrow> aref visited child;
       vp \<leftarrow> aref visited parent;
       ad \<leftarrow> arc_data a g;
       st \<leftarrow> (if vc = invalid_node then do {
           ((la, lt), new) \<leftarrow> addNodeUnsafe vp da dn new;
           visited \<leftarrow> aset visited child lt;
           new \<leftarrow> set_arc_data la ad new;
           nd \<leftarrow> node_data child g;
           new \<leftarrow> set_node_data lt nd new;
           Some (new, visited, work @ [child]) }
         else do {
           ((la, lt), new) \<leftarrow> addArcUnsafe vp vc da new;
           new \<leftarrow> set_arc_data la ad new;
           Some (new, visited, work) });
       a' \<leftarrow> OutIt_next g a;
       slice_arcs da dn g parent a' st })"

partial_function (option) sliceDF_loop ::
  "'a \<Rightarrow> 'n \<Rightarrow> ('a, 'n) tree \<Rightarrow> ('a, 'n) tree \<times> index_t list \<times> index_t list \<Rightarrow> ('a, 'n) tree option"
where
  "sliceDF_loop da dn g st =
    (let (new, visited, stack) = st in
     if stack = [] then Some new
     else do {
       let parent = last stack;
       a \<leftarrow> OutIt g parent;
       st \<leftarrow> slice_arcs da dn g parent a (new, visited, butlast stack);
       sliceDF_loop da dn g st })"

partial_function (option) sliceBF_loop ::
  "'a \<Rightarrow> 'n \<Rightarrow> ('a, 'n) tree \<Rightarrow> ('a, 'n) tree \<times> index_t list \<times> index_t list \<Rightarrow> ('a, 'n) tree option"
where
  "sliceBF_loop da dn g st =
    (let (new, visited, queue) = st in
     if queue = [] then Some new
     else do {
       let parent = hd queue;
       a \<leftarrow> OutIt g parent;
       st \<leftarrow> slice_arcs da dn g parent a (new, visited, tl queue);
       sliceBF_loop da dn g st })"

declare slice_arcs.simps [code] sliceDF_loop.simps [code] sliceBF_loop.simps [code]

text \<open>The first steps of both: mark the old node, copy its data to the root.\<close>

definition slice_start ::
  "('a, 'n) tree \<Rightarrow> ('a, 'n) tree \<Rightarrow> index_t \<Rightarrow> (('a, 'n) tree \<times> index_t list \<times> index_t list) option"
where
  "slice_start g new old = do {
     visited \<leftarrow> aset (replicate (nat (nodeNum g)) invalid_node) old (root_node g);
     d \<leftarrow> node_data old g;
     new \<leftarrow> set_node_data (root_node g) d new;
     Some (new, visited, [old]) }"

definition sliceDF :: "'a \<Rightarrow> 'n \<Rightarrow> ('a, 'n) tree \<Rightarrow> ('a, 'n) tree \<Rightarrow> index_t \<Rightarrow> ('a, 'n) tree option" where
  "sliceDF da dn g new old =
    (if old = invalid_node then Some new
     else do { st \<leftarrow> slice_start g new old; sliceDF_loop da dn g st })"

definition sliceBF :: "'a \<Rightarrow> 'n \<Rightarrow> ('a, 'n) tree \<Rightarrow> ('a, 'n) tree \<Rightarrow> index_t \<Rightarrow> ('a, 'n) tree option" where
  "sliceBF da dn g new old =
    (if old = invalid_node then Some new
     else do { st \<leftarrow> slice_start g new old; sliceBF_loop da dn g st })"

end
