(* ===== verification/Graph_Copy.thy ===== *)
theory Graph_Copy
  imports Mcts_Prelude
begin

text \<open>
  The abstract graph that the tree containers represent, and the copying of the part of a graph that can be reached from
  a node, which \<^verbatim>\<open>Tree::sliceDF\<close>, \<^verbatim>\<open>Tree::sliceBF\<close> and \<^verbatim>\<open>Mcts::prune_impl\<close> have in common: visit the nodes on a work list, copy
  the arcs that leave them in order, and copy a target the first time it is met. One step of such a copy keeps an
  invariant, whatever the order in which nodes are taken from the work list, and with an empty work list the invariant
  says that the copy is isomorphic to the reachable part.
\<close>

section \<open>Graphs\<close>

text \<open>The data of the nodes, and source, target and data of the arcs, each in order of creation.\<close>

record ('a, 'n) graph =
  g_nodes :: "'n list"
  g_arcs :: "(index_t \<times> index_t \<times> 'a) list"

definition add_arc :: "index_t \<Rightarrow> index_t \<Rightarrow> 'a \<Rightarrow> ('a, 'n) graph \<Rightarrow> ('a, 'n) graph" where
  "add_arc s t d v = v\<lparr>g_arcs := g_arcs v @ [(s, t, d)]\<rparr>"

definition add_node :: "'n \<Rightarrow> ('a, 'n) graph \<Rightarrow> ('a, 'n) graph" where
  "add_node d v = v\<lparr>g_nodes := g_nodes v @ [d]\<rparr>"

definition order_of :: "('a, 'n) graph \<Rightarrow> int" where
  "order_of v = int (length (g_nodes v))"

definition outl :: "('a, 'n) graph \<Rightarrow> index_t \<Rightarrow> (index_t \<times> 'a) list" where
  "outl v n = map snd (filter (\<lambda>e. fst e = n) (g_arcs v))"

definition arc_rel :: "('a, 'n) graph \<Rightarrow> (index_t \<times> index_t) set" where
  "arc_rel v = {(s, t). \<exists>d. (s, t, d) \<in> set (g_arcs v)}"

definition reach_from :: "('a, 'n) graph \<Rightarrow> index_t \<Rightarrow> index_t set" where
  "reach_from v n = {m. (n, m) \<in> (arc_rel v)\<^sup>*}"

definition graph_ok :: "('a, 'n) graph \<Rightarrow> bool" where
  "graph_ok v \<longleftrightarrow> (\<forall>(s, t, d) \<in> set (g_arcs v). s < order_of v \<and> 0 \<le> t \<and> t < order_of v)"

lemma graph_simps [simp]:
  "order_of (add_arc s t d v) = order_of v" "order_of (add_node x v) = order_of v + 1"
  "g_nodes (add_arc s t d v) = g_nodes v" "g_nodes (add_node x v) = g_nodes v @ [x]"
  "g_arcs (add_arc s t d v) = g_arcs v @ [(s, t, d)]" "g_arcs (add_node x v) = g_arcs v"
  by (simp_all add: order_of_def add_arc_def add_node_def)

lemma outl_add_arc [simp]: "outl (add_arc s t d v) n = outl v n @ (if n = s then [(t, d)] else [])"
  by (simp add: outl_def)

lemma outl_add_node [simp]: "outl (add_node x v) n = outl v n"
  by (simp add: outl_def)

lemma outl_fresh: "graph_ok v \<Longrightarrow> order_of v \<le> n \<Longrightarrow> outl v n = []"
  by (fastforce simp: graph_ok_def outl_def filter_empty_conv)

lemma graph_ok_add_arc: "graph_ok v \<Longrightarrow> s < order_of v \<Longrightarrow> 0 \<le> t \<Longrightarrow> t < order_of v \<Longrightarrow> graph_ok (add_arc s t d v)"
  by (auto simp: graph_ok_def)

lemma graph_ok_add_node: "graph_ok v \<Longrightarrow> graph_ok (add_node x v)"
  by (force simp: graph_ok_def)

lemma outl_mem: "(t, d) \<in> set (outl v n) \<longleftrightarrow> (n, t, d) \<in> set (g_arcs v)"
  by (force simp: outl_def)

lemma outl_range: "graph_ok v \<Longrightarrow> (t, d) \<in> set (outl v n) \<Longrightarrow> 0 \<le> t \<and> t < order_of v"
  by (auto simp: outl_mem graph_ok_def)

section \<open>Copying\<close>

type_synonym ('a, 'n) copy_state = "('a, 'n) graph \<times> (index_t \<rightharpoonup> index_t) \<times> index_t list"

fun copy_arcs :: "('a, 'n) graph \<Rightarrow> index_t \<Rightarrow> (index_t \<times> 'a) list \<Rightarrow> ('a, 'n) copy_state \<Rightarrow> ('a, 'n) copy_state" where
  "copy_arcs v p [] st = st"
| "copy_arcs v p ((t, d) # xs) (w, vis, work) =
    copy_arcs v p xs
      (case vis t of
         None \<Rightarrow> (add_arc (the (vis p)) (order_of w) d (add_node (g_nodes v ! nat t) w), vis(t \<mapsto> order_of w), work @ [t])
       | Some t' \<Rightarrow> (add_arc (the (vis p)) t' d w, vis, work))"

text \<open>The invariant: \<open>D\<close> are the nodes whose arcs are copied, \<open>vis\<close> numbers the nodes met so far.\<close>

definition copy_arcs_of :: "('a, 'n) copy_state \<Rightarrow> index_t \<Rightarrow> (index_t \<times> 'a) list \<Rightarrow> bool" where
  "copy_arcs_of st n xs = (case st of (w, vis, work) \<Rightarrow>
     outl w (the (vis n)) = map (\<lambda>(t, d). (the (vis t), d)) xs \<and> fst ` set xs \<subseteq> dom vis)"

definition copy_inv :: "('a, 'n) graph \<Rightarrow> index_t \<Rightarrow> index_t set \<Rightarrow> index_t list \<Rightarrow> ('a, 'n) copy_state \<Rightarrow> bool" where
  "copy_inv v old D ps st = (case st of (w, vis, work) \<Rightarrow>
     graph_ok w \<and> dom vis = D \<union> set ps \<union> set work \<and> D \<inter> (set ps \<union> set work) = {} \<and> set ps \<inter> set work = {} \<and> distinct work
     \<and> vis old = Some 0 \<and> dom vis \<subseteq> reach_from v old \<and> dom vis \<subseteq> {0..<order_of v}
     \<and> inj_on vis (dom vis) \<and> ran vis = {0..<order_of w}
     \<and> (\<forall>n m. vis n = Some m \<longrightarrow> g_nodes w ! nat m = g_nodes v ! nat n)
     \<and> (\<forall>n \<in> D. copy_arcs_of st n (outl v n)) \<and> (\<forall>n \<in> set work. outl w (the (vis n)) = []))"

lemma reach_from_step: "n \<in> reach_from v old \<Longrightarrow> (t, d) \<in> set (outl v n) \<Longrightarrow> t \<in> reach_from v old"
  by (auto simp: reach_from_def outl_mem arc_rel_def intro: rtrancl_into_rtrancl)

lemma copy_invD:
  assumes "copy_inv v old D ps (w, vis, work)"
  shows "graph_ok w" "dom vis = D \<union> set ps \<union> set work" "D \<inter> (set ps \<union> set work) = {}" "set ps \<inter> set work = {}"
    "distinct work" "vis old = Some 0" "dom vis \<subseteq> reach_from v old" "dom vis \<subseteq> {0..<order_of v}"
    "inj_on vis (dom vis)" "ran vis = {0..<order_of w}"
    "\<And>n m. vis n = Some m \<Longrightarrow> g_nodes w ! nat m = g_nodes v ! nat n"
    "\<And>n. n \<in> D \<Longrightarrow> copy_arcs_of (w, vis, work) n (outl v n)" "\<And>n. n \<in> set work \<Longrightarrow> outl w (the (vis n)) = []"
  using assms unfolding copy_inv_def split_conv by (elim conjE; simp)+

lemma copy_invI:
  assumes "graph_ok w" "dom vis = D \<union> set ps \<union> set work" "D \<inter> (set ps \<union> set work) = {}" "set ps \<inter> set work = {}"
    "distinct work" "vis old = Some 0" "dom vis \<subseteq> reach_from v old" "dom vis \<subseteq> {0..<order_of v}"
    "inj_on vis (dom vis)" "ran vis = {0..<order_of w}"
    "\<And>n m. vis n = Some m \<Longrightarrow> g_nodes w ! nat m = g_nodes v ! nat n"
    "\<And>n. n \<in> D \<Longrightarrow> copy_arcs_of (w, vis, work) n (outl v n)" "\<And>n. n \<in> set work \<Longrightarrow> outl w (the (vis n)) = []"
  shows "copy_inv v old D ps (w, vis, work)"
  unfolding copy_inv_def split_conv using assms by blast

lemma copy_inv_ran: "copy_inv v old D ps (w, vis, work) \<Longrightarrow> vis n = Some m \<Longrightarrow> 0 \<le> m \<and> m < order_of w"
  using copy_invD(10) [of v old D ps w vis work] ranI [of vis n m] by simp

lemma copy_inv_inj:
  assumes "copy_inv v old D ps (w, vis, work)" "n \<in> dom vis" "m \<in> dom vis" "n \<noteq> m" shows "the (vis n) \<noteq> the (vis m)"
proof
  assume "the (vis n) = the (vis m)"
  with assms(2,3) have "vis n = vis m" by auto
  with inj_onD [OF copy_invD(9) [OF assms(1)]] assms(2-4) show False by blast
qed

text \<open>Copying one arc, to a new and to a known target.\<close>

lemma copy_arc_new:
  fixes d :: 'a
  assumes inv: "copy_inv v old D [p] (w, vis, work)" and t: "vis t = None" "t \<in> reach_from v old" "0 \<le> t" "t < order_of v"
    and pre: "copy_arcs_of (w, vis, work) p xs"
  defines "w' \<equiv> add_arc (the (vis p)) (order_of w) d (add_node (g_nodes v ! nat t) w)"
    and "vis' \<equiv> vis(t \<mapsto> order_of w)" and "work' \<equiv> work @ [t]"
  shows "copy_inv v old D [p] (w', vis', work')" "copy_arcs_of (w', vis', work') p (xs @ [(t, d)])"
proof -
  note I = copy_invD [OF inv] and rng = copy_inv_ran [OF inv]
  have p: "p \<in> dom vis" "p \<notin> D" "p \<notin> set work" and td: "t \<notin> dom vis" using I(2-4) t(1) by auto
  then have tp: "t \<noteq> p" "t \<notin> D" "t \<notin> set work" using I(2) by auto
  obtain p' where p': "vis p = Some p'" "0 \<le> p'" "p' < order_of w" using p(1) rng by auto
  have len: "order_of w = int (length (g_nodes w))" by (simp add: order_of_def)
  have vis': "vis' n = vis n" if "n \<in> dom vis" for n using that td by (auto simp: vis'_def)
  have dom': "dom vis' = insert t (dom vis)" by (simp add: vis'_def)
  have same: "outl w' (the (vis n)) = outl w (the (vis n))" if "n \<in> dom vis" "n \<noteq> p" for n
    using copy_inv_inj [OF inv that(1) p(1) that(2)] by (simp add: w'_def)
  have vis'_map: "map (\<lambda>(t, d). (the (vis' t), d)) ys = map (\<lambda>(t, d). (the (vis t), d)) ys"
    if ys: "fst ` set ys \<subseteq> dom vis" for ys :: "(index_t \<times> 'a) list"
  proof -
    have "vis' (fst x) = vis (fst x)" if "x \<in> set ys" for x using that ys vis' by blast
    then show ?thesis by (auto simp: split_def)
  qed
  show "copy_inv v old D [p] (w', vis', work')"
  proof (rule copy_invI)
    show "graph_ok w'" unfolding w'_def using I(1) p' len by (intro graph_ok_add_arc graph_ok_add_node) auto
    show "dom vis' = D \<union> set [p] \<union> set work'" using I(2) by (auto simp: dom' work'_def)
    show "D \<inter> (set [p] \<union> set work') = {}" "set [p] \<inter> set work' = {}" "distinct work'"
      using I(3-5) tp by (auto simp: work'_def)
    show "vis' old = Some 0" using I(6) t(1) by (auto simp: vis'_def)
    show "dom vis' \<subseteq> reach_from v old" "dom vis' \<subseteq> {0..<order_of v}" using I(7,8) t by (auto simp: dom')
    show "inj_on vis' (dom vis')"
      unfolding dom'
    proof (rule inj_on_insert [THEN iffD2], intro conjI)
      show "inj_on vis' (dom vis)" using I(9) vis' by (auto simp: inj_on_def)
      show "vis' t \<notin> vis' ` (dom vis - {t})"
      proof
        assume "vis' t \<in> vis' ` (dom vis - {t})"
        then obtain n where "n \<in> dom vis" "vis' t = vis' n" by blast
        then have "vis n = Some (order_of w)" using vis' by (simp add: vis'_def)
        from rng [OF this] show False by simp
      qed
    qed
    show "ran vis' = {0..<order_of w'}" using I(10) t(1) len by (auto simp: vis'_def w'_def)
    show "g_nodes w' ! nat m = g_nodes v ! nat n" if "vis' n = Some m" for n m
    proof (cases "n = t")
      case True
      with that show ?thesis by (auto simp: vis'_def w'_def len)
    next
      case False
      with that have "vis n = Some m" by (simp add: vis'_def)
      with I(11) rng len show ?thesis by (auto simp: w'_def nth_append nat_less_iff)
    qed
    show "copy_arcs_of (w', vis', work') n (outl v n)" if "n \<in> D" for n
    proof -
      have n: "n \<in> dom vis" "n \<noteq> p" using that I(2) p(2) by auto
      have "outl w (the (vis n)) = map (\<lambda>(t, d). (the (vis t), d)) (outl v n)" "fst ` set (outl v n) \<subseteq> dom vis"
        using I(12) [OF that] by (auto simp: copy_arcs_of_def)
      with same [OF n] vis' [OF n(1)] vis'_map show ?thesis by (auto simp: copy_arcs_of_def dom')
    qed
    show "outl w' (the (vis' n)) = []" if "n \<in> set work'" for n
    proof (cases "n = t")
      case True
      then show ?thesis using outl_fresh [OF I(1)] p' by (simp add: vis'_def w'_def)
    next
      case False
      with that have n: "n \<in> set work" "n \<in> dom vis" using I(2) by (auto simp: work'_def)
      with p(3) have "n \<noteq> p" by auto
      from I(13) [OF n(1)] same [OF n(2) this] vis' [OF n(2)] show ?thesis by simp
    qed
  qed
  have "outl w (the (vis p)) = map (\<lambda>(t, d). (the (vis t), d)) xs" "fst ` set xs \<subseteq> dom vis"
    using pre by (auto simp: copy_arcs_of_def)
  with vis' [OF p(1)] vis'_map show "copy_arcs_of (w', vis', work') p (xs @ [(t, d)])"
    by (auto simp: copy_arcs_of_def dom' w'_def vis'_def)
qed


lemma copy_arc_known:
  fixes d :: 'a
  assumes inv: "copy_inv v old D [p] (w, vis, work)" and t: "vis t = Some t'"
    and pre: "copy_arcs_of (w, vis, work) p xs"
  defines "w' \<equiv> add_arc (the (vis p)) t' d w"
  shows "copy_inv v old D [p] (w', vis, work)" "copy_arcs_of (w', vis, work) p (xs @ [(t, d)])"
proof -
  note I = copy_invD [OF inv] and rng = copy_inv_ran [OF inv]
  have p: "p \<in> dom vis" "p \<notin> D" "p \<notin> set work" using I(2-4) by auto
  obtain p' where p': "vis p = Some p'" "0 \<le> p'" "p' < order_of w" using p(1) rng by auto
  have same: "outl w' (the (vis n)) = outl w (the (vis n))" if "n \<in> dom vis" "n \<noteq> p" for n
    using copy_inv_inj [OF inv that(1) p(1) that(2)] by (simp add: w'_def)
  have D: "D \<subseteq> dom vis" "set work \<subseteq> dom vis" using I(2) by auto
  show "copy_inv v old D [p] (w', vis, work)"
  proof (rule copy_invI [OF _ I(2-9)])
    show "graph_ok w'" unfolding w'_def using I(1) p' rng [OF t] by (intro graph_ok_add_arc) auto
    show "ran vis = {0..<order_of w'}" using I(10) by (simp add: w'_def)
    show "g_nodes w' ! nat m = g_nodes v ! nat n" if "vis n = Some m" for n m using I(11) [OF that] by (simp add: w'_def)
    show "copy_arcs_of (w', vis, work) n (outl v n)" if "n \<in> D" for n
    proof -
      have n: "n \<in> dom vis" "n \<noteq> p" using that D p(2) by auto
      from I(12) [OF that] same [OF n] show ?thesis by (simp add: copy_arcs_of_def)
    qed
    show "outl w' (the (vis n)) = []" if "n \<in> set work" for n
    proof -
      have n: "n \<in> dom vis" "n \<noteq> p" using that D p(3) by auto
      from I(13) [OF that] same [OF n] show ?thesis by simp
    qed
  qed
  show "copy_arcs_of (w', vis, work) p (xs @ [(t, d)])"
    using pre t p' by (auto simp: copy_arcs_of_def w'_def)
qed

lemma copy_arcs_inv:
  assumes "copy_inv v old D [p] st" "copy_arcs_of st p xs" "fst ` set ys \<subseteq> reach_from v old \<inter> {0..<order_of v}"
  shows "copy_inv v old D [p] (copy_arcs v p ys st) \<and> copy_arcs_of (copy_arcs v p ys st) p (xs @ ys)"
  using assms
proof (induction v p ys st arbitrary: xs rule: copy_arcs.induct)
  case (2 v p t d ys w vis work)
  show ?case
  proof (cases "vis t")
    case None
    with 2(2-4) copy_arc_new [of v old D p w vis work t xs d]
      2(1) [of "xs @ [(t, d)]"] show ?thesis by simp
  next
    case (Some t')
    with 2(2-4) copy_arc_known [of v old D p w vis work t t' xs d]
      2(1) [of "xs @ [(t, d)]"] show ?thesis by simp
  qed
qed simp

text \<open>Taking a node from the work list and copying its arcs.\<close>

lemma copy_take:
  assumes ok: "graph_ok v" and inv: "copy_inv v old D [] (w, vis, work)" and p: "p \<in> set work"
    and rest: "mset work = add_mset p (mset work')"
  shows "copy_inv v old D [p] (w, vis, work')" "copy_arcs_of (w, vis, work') p []" "p \<notin> D"
    "fst ` set (outl v p) \<subseteq> reach_from v old \<inter> {0..<order_of v}"
proof -
  note I = copy_invD [OF inv]
  have d: "distinct (p # work')" using I(5) rest by (metis mset.simps(2) mset_eq_imp_distinct_iff)
  have s: "set work = insert p (set work')" using rest by (metis mset.simps(2) mset_eq_setD list.simps(15))
  show "copy_inv v old D [p] (w, vis, work')"
  proof (rule copy_invI [OF I(1) _ _ _ _ I(6-11)])
    show "copy_arcs_of (w, vis, work') n (outl v n)" if "n \<in> D" for n
      using I(12) [OF that] by (simp add: copy_arcs_of_def)
  qed (use I(2-5,13) s d in auto)
  show "copy_arcs_of (w, vis, work') p []" using I(13) [OF p] by (simp add: copy_arcs_of_def)
  show "p \<notin> D" using I(3) p by auto
  have "p \<in> reach_from v old" using I(2,7) p by auto
  then show "fst ` set (outl v p) \<subseteq> reach_from v old \<inter> {0..<order_of v}"
    using reach_from_step outl_range [OF ok] by fastforce
qed

lemma copy_step:
  assumes ok: "graph_ok v" and inv: "copy_inv v old D [] (w, vis, work)" and p: "p \<in> set work"
    and rest: "mset work = add_mset p (mset work')"
  shows "copy_inv v old (insert p D) [] (copy_arcs v p (outl v p) (w, vis, work'))"
proof -
  note take = copy_take [OF assms]
  have c: "copy_inv v old D [p] (copy_arcs v p (outl v p) (w, vis, work'))"
    "copy_arcs_of (copy_arcs v p (outl v p) (w, vis, work')) p (outl v p)"
    using copy_arcs_inv [OF take(1,2,4)] by auto
  obtain w2 vis2 work2 where st: "copy_arcs v p (outl v p) (w, vis, work') = (w2, vis2, work2)" by (rule prod_cases3)
  note J = copy_invD [OF c(1) [unfolded st]]
  show ?thesis
    unfolding st by (rule copy_invI [OF J(1) _ _ _ J(5-11)]) (use J(2-4,12,13) c(2) st in auto)
qed

text \<open>The result: a bijection between the reachable nodes and the nodes of the copy that takes the start to node 0 and
  respects the data of nodes and the arcs, their data and their order.\<close>

definition copy_of :: "('a, 'n) graph \<Rightarrow> index_t \<Rightarrow> ('a, 'n) graph \<Rightarrow> (index_t \<Rightarrow> index_t) \<Rightarrow> bool" where
  "copy_of v old w f \<longleftrightarrow> bij_betw f (reach_from v old) {0..<order_of w} \<and> f old = 0
    \<and> (\<forall>n \<in> reach_from v old. g_nodes w ! nat (f n) = g_nodes v ! nat n
        \<and> outl w (f n) = map (\<lambda>(t, d). (f t, d)) (outl v n))"

lemma copy_done:
  assumes "copy_inv v old D [] (w, vis, [])"
  shows "copy_of v old w (\<lambda>n. the (vis n))" "dom vis = reach_from v old" "graph_ok w"
proof -
  note I = copy_invD [OF assms]
  have D: "dom vis = D" using I(2) by simp
  have "(old, m) \<in> (arc_rel v)\<^sup>* \<Longrightarrow> m \<in> D" for m
  proof (induction rule: rtrancl_induct)
    case base
    show ?case using I(6) D by auto
  next
    case (step y z)
    then obtain d where "(z, d) \<in> set (outl v y)" by (auto simp: arc_rel_def outl_mem)
    with I(12) [OF step(3)] D show ?case by (force simp: copy_arcs_of_def)
  qed
  then have R: "reach_from v old = dom vis" using I(7) D by (auto simp: reach_from_def)
  then show "dom vis = reach_from v old" ..
  have "bij_betw (\<lambda>n. the (vis n)) (dom vis) {0..<order_of w}"
    unfolding bij_betw_def
  proof
    show "inj_on (\<lambda>n. the (vis n)) (dom vis)" using copy_inv_inj [OF assms] by (auto simp: inj_on_def)
    show "(\<lambda>n. the (vis n)) ` dom vis = {0..<order_of w}" unfolding I(10) [symmetric] by (force simp: ran_def)
  qed
  moreover have "g_nodes w ! nat (the (vis n)) = g_nodes v ! nat n
      \<and> outl w (the (vis n)) = map (\<lambda>(t, d). (the (vis t), d)) (outl v n)" if "n \<in> dom vis" for n
    using that I(11) [of n] I(12) [of n] D by (auto simp: copy_arcs_of_def)
  ultimately show "copy_of v old w (\<lambda>n. the (vis n))"
    unfolding copy_of_def R using I(6) by simp
  show "graph_ok w" by (rule I(1))
qed

lemma copy_start:
  assumes "order_of w = 1" "g_nodes w ! 0 = g_nodes v ! nat old" "graph_ok w" "outl w 0 = []" "0 \<le> old" "old < order_of v"
  shows "copy_inv v old {} [] (w, [old \<mapsto> 0], [old])"
  by (rule copy_invI) (use assms in \<open>auto simp: reach_from_def split: if_splits\<close>)


text \<open>The number of arcs in the copy.\<close>

lemma copy_arcs_length: "length (g_arcs (fst (copy_arcs v p xs st))) = length (g_arcs (fst st)) + length xs"
  by (induction v p xs st rule: copy_arcs.induct) (auto split: option.split)

lemma sum_outl_le:
  assumes "finite D" shows "(\<Sum>n\<in>D. length (outl v n)) \<le> length (g_arcs v)"
proof -
  have "(\<Sum>n\<in>D. length (filter (\<lambda>e. fst e = n) xs)) \<le> length xs" for xs :: "(index_t \<times> index_t \<times> 'a) list"
  proof (induction xs)
    case (Cons x xs)
    have "(\<Sum>n\<in>D. length (filter (\<lambda>e. fst e = n) (x # xs)))
      = (\<Sum>n\<in>D. length (filter (\<lambda>e. fst e = n) xs)) + (\<Sum>n\<in>D. if n = fst x then 1 else 0)"
      by (subst sum.distrib [symmetric], rule sum.cong) auto
    also have "(\<Sum>n\<in>D. if n = fst x then 1 else 0) \<le> (1 :: nat)" using assms by (simp add: sum.delta)
    finally show ?case using Cons by simp
  qed simp
  then show ?thesis by (simp add: outl_def)
qed

lemma copy_inv_finite: "copy_inv v old D ps (w, vis, work) \<Longrightarrow> finite D \<and> card D \<le> length (g_nodes v)"
proof -
  assume inv: "copy_inv v old D ps (w, vis, work)"
  then have "D \<subseteq> {0..<order_of v}" using copy_invD(2,8) by fast
  from finite_subset [OF this] card_mono [OF _ this] show ?thesis by (simp add: order_of_def)
qed

lemma copy_inv_order:
  assumes "copy_inv v old D ps (w, vis, work)"
  shows "order_of w \<le> order_of v"
proof -
  have "{0..<order_of w} = (\<lambda>n. the (vis n)) ` dom vis"
    unfolding copy_invD(10) [OF assms, symmetric] by (force simp: ran_def)
  moreover have "finite (dom vis)" "card (dom vis) \<le> card {0..<order_of v}"
    using copy_invD(8) [OF assms] by (auto intro: finite_subset simp del: card_atLeastLessThan_int intro!: card_mono)
  ultimately have "card {0..<order_of w} \<le> card {0..<order_of v}" using card_image_le by (metis order_trans)
  then show ?thesis by (simp add: order_of_def)
qed

end
