(* ===== verification/Rooted_Digraph_Inv.thy ===== *)
theory Rooted_Digraph_Inv
  imports Rooted_Digraph Graph_Copy
begin

text \<open>
  The representation invariant of the linked graph and its refinement to an abstract graph. The lists threaded through
  the arena are, node by node, the arcs with that source (that target) in the order in which they were added; adding
  an arc or a node keeps this, and the loops that follow the links compute over those lists.
\<close>

section \<open>Linked lists\<close>

primrec chain :: "(nat \<Rightarrow> index_t) \<Rightarrow> index_t \<Rightarrow> nat list \<Rightarrow> bool" where
  "chain nx a [] \<longleftrightarrow> a = invalid_arc"
| "chain nx a (x # xs) \<longleftrightarrow> a = int x \<and> chain nx (nx x) xs"

definition list_ok :: "(nat \<Rightarrow> index_t) \<Rightarrow> index_t \<Rightarrow> index_t \<Rightarrow> nat list \<Rightarrow> bool" where
  "list_ok nx h t xs \<longleftrightarrow> chain nx h xs \<and> t = (if xs = [] then invalid_arc else int (last xs))"

lemma int_neq_invalid [simp]: "int x \<noteq> invalid_arc" "invalid_arc \<noteq> int x"
  by (simp_all add: invalid_arc_def)

lemma chain_cong: "(\<And>x. x \<in> set xs \<Longrightarrow> nx' x = nx x) \<Longrightarrow> chain nx' a xs = chain nx a xs"
  by (induction xs arbitrary: a) auto

lemma list_ok_cong: "(\<And>x. x \<in> set xs \<Longrightarrow> nx' x = nx x) \<Longrightarrow> list_ok nx' h t xs = list_ok nx h t xs"
  unfolding list_ok_def by (simp add: chain_cong [of xs nx' nx])

lemma chain_Nil_iff: "chain nx a xs \<Longrightarrow> a = invalid_arc \<longleftrightarrow> xs = []"
  by (cases xs) auto

lemma chain_append:
  assumes "chain nx a xs" "xs \<noteq> []" "distinct xs"
    and "\<And>x. x \<in> set xs \<Longrightarrow> x \<noteq> last xs \<Longrightarrow> nx' x = nx x" "nx' (last xs) = int b" "nx' b = invalid_arc"
  shows "chain nx' a (xs @ [b])"
  using assms
proof (induction xs arbitrary: a)
  case (Cons x xs)
  show ?case
  proof (cases "xs = []")
    case True
    with Cons.prems show ?thesis by simp
  next
    case False
    with Cons.prems have "last xs \<noteq> x" "last (x # xs) = last xs" by auto
    with Cons.prems False Cons.IH [of "nx x"] show ?thesis by auto
  qed
qed simp

lemma list_ok_append:
  assumes "list_ok nx h t xs" "xs \<noteq> []" "distinct xs"
    and "\<And>x. x \<in> set xs \<Longrightarrow> x \<noteq> last xs \<Longrightarrow> nx' x = nx x" "nx' (last xs) = int b" "nx' b = invalid_arc"
  shows "list_ok nx' h (int b) (xs @ [b])"
  using assms chain_append [of nx h xs nx' b] by (simp add: list_ok_def)

lemma list_ok_single: "nx b = invalid_arc \<Longrightarrow> list_ok nx (int b) (int b) [b]"
  by (simp add: list_ok_def)

section \<open>Invariant\<close>

text \<open>The arcs below \<open>k\<close> that leave or enter node \<open>n\<close>. The root arc is on the in-list of the first node, also after
  \<^verbatim>\<open>setRoot\<close> has changed its target.\<close>

definition outs :: "('a, 'n) tree \<Rightarrow> nat \<Rightarrow> index_t \<Rightarrow> nat list" where
  "outs g k n = filter (\<lambda>a. source (m_arcs g ! a) = n) [0..<k]"

definition ins :: "('a, 'n) tree \<Rightarrow> nat \<Rightarrow> index_t \<Rightarrow> nat list" where
  "ins g k n = filter (\<lambda>a. (if a = 0 then 0 else target (m_arcs g ! a)) = n) [0..<k]"

definition out_ok :: "('a, 'n) tree \<Rightarrow> nat \<Rightarrow> bool" where
  "out_ok g k \<longleftrightarrow> (\<forall>n < length (m_nodes g). list_ok (\<lambda>a. next_out (m_arcs g ! a))
     (head_out (m_nodes g ! n)) (tail_out (m_nodes g ! n)) (outs g k (int n)))"

definition in_ok :: "('a, 'n) tree \<Rightarrow> nat \<Rightarrow> bool" where
  "in_ok g k \<longleftrightarrow> (\<forall>n < length (m_nodes g). list_ok (\<lambda>a. next_in (m_arcs g ! a))
     (head_in (m_nodes g ! n)) (tail_in (m_nodes g ! n)) (ins g k (int n)))"

definition node_in :: "('a, 'n) tree \<Rightarrow> index_t \<Rightarrow> bool" where
  "node_in g n \<longleftrightarrow> 0 \<le> n \<and> n < nodeNum g"

definition arcs_ok :: "('a, 'n) tree \<Rightarrow> bool" where
  "arcs_ok g \<longleftrightarrow> (\<forall>a < length (m_arcs g). node_in g (target (m_arcs g ! a))
     \<and> (if a = 0 then source (m_arcs g ! a) = invalid_node else node_in g (source (m_arcs g ! a))))"

definition tree_wf :: "('a, 'n) tree \<Rightarrow> bool" where
  "tree_wf g \<longleftrightarrow> m_arcs g \<noteq> [] \<and> root_arc g = 0 \<and> node_in g (root_node g) \<and> arcs_ok g
    \<and> out_ok g (length (m_arcs g)) \<and> in_ok g (length (m_arcs g))"

lemmas rep_defs = out_ok_def in_ok_def outs_def ins_def

lemma outs_Suc: "outs g (Suc k) n = outs g k n @ (if source (m_arcs g ! k) = n then [k] else [])"
  by (simp add: outs_def)

lemma ins_Suc: "0 < k \<Longrightarrow> ins g (Suc k) n = ins g k n @ (if target (m_arcs g ! k) = n then [k] else [])"
  by (simp add: ins_def)

lemma distinct_outs [simp]: "distinct (outs g k n)" "distinct (ins g k n)"
  by (simp_all add: outs_def ins_def)

lemma outs_less: "a \<in> set (outs g k n) \<Longrightarrow> a < k" "a \<in> set (ins g k n) \<Longrightarrow> a < k"
  by (auto simp: outs_def ins_def)

text \<open>A change of the arcs that keeps sources and targets, and one kind of link, keeps the lists of that kind.\<close>

lemma outs_cong: "(\<And>a. a < k \<Longrightarrow> source (m_arcs g' ! a) = source (m_arcs g ! a)) \<Longrightarrow> outs g' k n = outs g k n"
  unfolding outs_def by (rule filter_cong) auto

lemma ins_cong: "(\<And>a. 0 < a \<Longrightarrow> a < k \<Longrightarrow> target (m_arcs g' ! a) = target (m_arcs g ! a)) \<Longrightarrow> ins g' k n = ins g k n"
  unfolding ins_def by (rule filter_cong) auto

lemma out_ok_cong:
  assumes "\<And>a. a < k \<Longrightarrow> source (m_arcs g' ! a) = source (m_arcs g ! a)"
    and "\<And>a. a < k \<Longrightarrow> next_out (m_arcs g' ! a) = next_out (m_arcs g ! a)"
    and "length (m_nodes g') = length (m_nodes g)"
    and "\<And>n. n < length (m_nodes g) \<Longrightarrow> head_out (m_nodes g' ! n) = head_out (m_nodes g ! n)
      \<and> tail_out (m_nodes g' ! n) = tail_out (m_nodes g ! n)"
  shows "out_ok g' k = out_ok g k"
proof -
  have o: "outs g' k n = outs g k n" for n by (rule outs_cong) (rule assms(1))
  have "list_ok (\<lambda>a. next_out (m_arcs g' ! a)) h t (outs g k n) = list_ok (\<lambda>a. next_out (m_arcs g ! a)) h t (outs g k n)"
    for h t n by (rule list_ok_cong) (use assms(2) outs_less in blast)
  with assms(3,4) o show ?thesis by (auto simp: out_ok_def)
qed

lemma in_ok_cong:
  assumes "\<And>a. 0 < a \<Longrightarrow> a < k \<Longrightarrow> target (m_arcs g' ! a) = target (m_arcs g ! a)"
    and "\<And>a. a < k \<Longrightarrow> next_in (m_arcs g' ! a) = next_in (m_arcs g ! a)"
    and "length (m_nodes g') = length (m_nodes g)"
    and "\<And>n. n < length (m_nodes g) \<Longrightarrow> head_in (m_nodes g' ! n) = head_in (m_nodes g ! n)
      \<and> tail_in (m_nodes g' ! n) = tail_in (m_nodes g ! n)"
  shows "in_ok g' k = in_ok g k"
proof -
  have o: "ins g' k n = ins g k n" for n by (rule ins_cong) (rule assms(1))
  have "list_ok (\<lambda>a. next_in (m_arcs g' ! a)) h t (ins g k n) = list_ok (\<lambda>a. next_in (m_arcs g ! a)) h t (ins g k n)"
    for h t n by (rule list_ok_cong) (use assms(2) outs_less in blast)
  with assms(3,4) o show ?thesis by (auto simp: in_ok_def)
qed


section \<open>Linking an arc\<close>

text \<open>What a step that only touches out-links (in-links) leaves alone.\<close>

definition frame_out :: "('a, 'n) tree \<Rightarrow> ('a, 'n) tree \<Rightarrow> bool" where
  "frame_out g g' \<longleftrightarrow> length (m_arcs g') = length (m_arcs g) \<and> length (m_nodes g') = length (m_nodes g)
    \<and> root_arc g' = root_arc g \<and> root_node g' = root_node g
    \<and> (\<forall>a < length (m_arcs g). source (m_arcs g' ! a) = source (m_arcs g ! a) \<and> target (m_arcs g' ! a) = target (m_arcs g ! a)
        \<and> a_data (m_arcs g' ! a) = a_data (m_arcs g ! a) \<and> next_in (m_arcs g' ! a) = next_in (m_arcs g ! a))
    \<and> (\<forall>n < length (m_nodes g). n_data (m_nodes g' ! n) = n_data (m_nodes g ! n)
        \<and> head_in (m_nodes g' ! n) = head_in (m_nodes g ! n) \<and> tail_in (m_nodes g' ! n) = tail_in (m_nodes g ! n))"

definition frame_in :: "('a, 'n) tree \<Rightarrow> ('a, 'n) tree \<Rightarrow> bool" where
  "frame_in g g' \<longleftrightarrow> length (m_arcs g') = length (m_arcs g) \<and> length (m_nodes g') = length (m_nodes g)
    \<and> root_arc g' = root_arc g \<and> root_node g' = root_node g
    \<and> (\<forall>a < length (m_arcs g). source (m_arcs g' ! a) = source (m_arcs g ! a) \<and> target (m_arcs g' ! a) = target (m_arcs g ! a)
        \<and> a_data (m_arcs g' ! a) = a_data (m_arcs g ! a) \<and> next_out (m_arcs g' ! a) = next_out (m_arcs g ! a))
    \<and> (\<forall>n < length (m_nodes g). n_data (m_nodes g' ! n) = n_data (m_nodes g ! n)
        \<and> head_out (m_nodes g' ! n) = head_out (m_nodes g ! n) \<and> tail_out (m_nodes g' ! n) = tail_out (m_nodes g ! n))"

lemma frame_out_in_ok: "frame_out g g' \<Longrightarrow> k \<le> length (m_arcs g) \<Longrightarrow> in_ok g' k = in_ok g k"
  unfolding frame_out_def by (intro in_ok_cong) auto

lemma frame_in_out_ok: "frame_in g g' \<Longrightarrow> k \<le> length (m_arcs g) \<Longrightarrow> out_ok g' k = out_ok g k"
  unfolding frame_in_def by (intro out_ok_cong) auto

lemma list_ok_ends:
  assumes "list_ok nx h t xs"
  shows "h = invalid_arc \<longleftrightarrow> xs = []" "xs \<noteq> [] \<Longrightarrow> t = int (last xs)"
  using assms chain_Nil_iff [of nx h xs] by (auto simp: list_ok_def)

lemma node_in_obtain:
  assumes "node_in g n" obtains m where "n = int m" "m < length (m_nodes g)"
  using assms that [of "nat n"] by (auto simp: node_in_def nodeNum_def arena_size_def)

lemma node_in_int [simp]: "node_in g (int m) \<longleftrightarrow> m < length (m_nodes g)"
  by (simp add: node_in_def nodeNum_def arena_size_def)

lemma aref_int [simp]: "aref xs (int n) = (if n < length xs then Some (xs ! n) else None)"
  by (simp add: aref_def)

lemma aset_int [simp]: "aset xs (int n) v = (if n < length xs then Some (xs[n := v]) else None)"
  by (simp add: aset_def)

lemma link_out_ok:
  assumes ok: "out_ok g k" and k: "k < length (m_arcs g)" "next_out (m_arcs g ! k) = invalid_arc"
    "source (m_arcs g ! k) = s" "node_in g s"
  shows "\<exists>g'. link_out s (int k) g = Some g' \<and> out_ok g' (Suc k) \<and> frame_out g g'"
proof -
  obtain m where m: "s = int m" "m < length (m_nodes g)" using node_in_obtain [OF k(4)] .
  let ?nx = "\<lambda>a. next_out (m_arcs g ! a)" and ?ns = "m_nodes g ! m" and ?xs = "outs g k (int m)"
  have l: "list_ok ?nx (head_out ?ns) (tail_out ?ns) ?xs" using ok m by (simp add: out_ok_def)
  show ?thesis
  proof (cases "?xs = []")
    case True
    let ?g = "g\<lparr>m_nodes := (m_nodes g)[m := ?ns\<lparr>head_out := int k, tail_out := int k\<rparr>]\<rparr>"
    have "link_out s (int k) g = Some ?g"
      using m list_ok_ends(1) [OF l] True by (simp add: link_out_def)
    moreover have "frame_out g ?g" using m(2) by (auto simp: frame_out_def nth_list_update)
    moreover have "out_ok ?g (Suc k)"
      unfolding out_ok_def
    proof (intro allI impI)
      fix n assume n: "n < length (m_nodes ?g)"
      have o: "outs ?g (Suc k) (int n) = outs g k (int n) @ (if n = m then [k] else [])"
        using k(3) m by (simp add: outs_Suc outs_def)
      show "list_ok (\<lambda>a. next_out (m_arcs ?g ! a)) (head_out (m_nodes ?g ! n)) (tail_out (m_nodes ?g ! n)) (outs ?g (Suc k) (int n))"
        using ok n True k(2) unfolding o by (auto simp: nth_list_update list_ok_single out_ok_def)
    qed
    ultimately show ?thesis by blast
  next
    case False
    let ?t = "last ?xs"
    have t: "?t < k" using outs_less(1) last_in_set [OF False] by blast
    let ?g = "g\<lparr>m_arcs := (m_arcs g)[?t := (m_arcs g ! ?t)\<lparr>next_out := int k\<rparr>],
      m_nodes := (m_nodes g)[m := ?ns\<lparr>tail_out := int k\<rparr>]\<rparr>"
    have "link_out s (int k) g = Some ?g"
      using m list_ok_ends [OF l] False t k(1) by (simp add: link_out_def)
    moreover have "frame_out g ?g" using m(2) t k(1) by (auto simp: frame_out_def nth_list_update)
    moreover have "out_ok ?g (Suc k)"
      unfolding out_ok_def
    proof (intro allI impI)
      fix n assume n: "n < length (m_nodes ?g)"
      have src: "source (m_arcs ?g ! a) = source (m_arcs g ! a)" for a
        using t k(1) by (auto simp: nth_list_update)
      have o: "outs ?g (Suc k) (int n) = outs g k (int n) @ (if n = m then [k] else [])"
        using k(3) m outs_cong [OF src, of k "int n"] unfolding outs_Suc src by simp
      let ?nx' = "\<lambda>a. next_out (m_arcs ?g ! a)"
      have nx: "?nx' a = (if a = ?t then int k else ?nx a)" if "a \<le> k" for a
        using that k(1) by (auto simp: nth_list_update)
      show "list_ok ?nx' (head_out (m_nodes ?g ! n)) (tail_out (m_nodes ?g ! n)) (outs ?g (Suc k) (int n))"
      proof (cases "n = m")
        case True
        have "list_ok ?nx' (head_out ?ns) (int k) (?xs @ [k])"
        proof (rule list_ok_append [OF l False])
          show "?nx' x = ?nx x" if "x \<in> set ?xs" "x \<noteq> last ?xs" for x
            using that outs_less(1) [OF that(1)] by (subst nx) auto
        qed (use nx [of k] nx [of ?t] t k(2) in auto)
        with True m show ?thesis unfolding o by simp
      next
        case False
        have "?t \<notin> set (outs g k (int n))"
          using last_in_set [OF \<open>?xs \<noteq> []\<close>] False by (auto simp: outs_def)
        then have "list_ok ?nx' h t (outs g k (int n)) = list_ok ?nx h t (outs g k (int n))" for h t
          by (intro list_ok_cong) (use nx outs_less(1) in fastforce)
        with ok n False show ?thesis unfolding o by (simp add: out_ok_def)
      qed
    qed
    ultimately show ?thesis by blast
  qed
qed


text \<open>An auxiliary operation of the proofs, not of the code: \<open>link_in\<close> made total, which also starts an empty list. On a node with incoming arcs, the only ones
  that version 1.2 has, it is \<open>link_in\<close> (\<open>link_in_chk_eq\<close>, \<open>addArcUnsafe_chk\<close>).\<close>

definition link_in_chk :: "index_t \<Rightarrow> index_t \<Rightarrow> ('a, 'n) tree \<Rightarrow> ('a, 'n) tree option" where
  "link_in_chk t a g = do {
     nt \<leftarrow> aref (m_nodes g) t;
     if head_in nt = invalid_arc then do {
       nodes \<leftarrow> aset (m_nodes g) t (nt\<lparr>head_in := a, tail_in := a\<rparr>);
       Some (g\<lparr>m_nodes := nodes\<rparr>) }
     else link_in t a g }"

lemma link_in_chk_eq:
  assumes "in_ok g k" "m < length (m_nodes g)" "ins g k (int m) \<noteq> []"
  shows "link_in_chk (int m) a g = link_in (int m) a g"
  using assms list_ok_ends(1) by (auto simp: link_in_chk_def in_ok_def)

lemma link_in_chk_ok:
  assumes ok: "in_ok g k" and k: "k < length (m_arcs g)" "next_in (m_arcs g ! k) = invalid_arc"
    "target (m_arcs g ! k) = s" "node_in g s" "0 < k"
  shows "\<exists>g'. link_in_chk s (int k) g = Some g' \<and> in_ok g' (Suc k) \<and> frame_in g g'"
proof -
  obtain m where m: "s = int m" "m < length (m_nodes g)" using node_in_obtain [OF k(4)] .
  let ?nx = "\<lambda>a. next_in (m_arcs g ! a)" and ?ns = "m_nodes g ! m" and ?xs = "ins g k (int m)"
  have l: "list_ok ?nx (head_in ?ns) (tail_in ?ns) ?xs" using ok m by (simp add: in_ok_def)
  show ?thesis
  proof (cases "?xs = []")
    case True
    let ?g = "g\<lparr>m_nodes := (m_nodes g)[m := ?ns\<lparr>head_in := int k, tail_in := int k\<rparr>]\<rparr>"
    have "link_in_chk s (int k) g = Some ?g"
      using m list_ok_ends(1) [OF l] True by (simp add: link_in_chk_def)
    moreover have "frame_in g ?g" using m(2) by (auto simp: frame_in_def nth_list_update)
    moreover have "in_ok ?g (Suc k)"
      unfolding in_ok_def
    proof (intro allI impI)
      fix n assume n: "n < length (m_nodes ?g)"
      have o: "ins ?g (Suc k) (int n) = ins g k (int n) @ (if n = m then [k] else [])"
        using k(3,5) m by (simp add: ins_Suc ins_def)
      show "list_ok (\<lambda>a. next_in (m_arcs ?g ! a)) (head_in (m_nodes ?g ! n)) (tail_in (m_nodes ?g ! n)) (ins ?g (Suc k) (int n))"
        using ok n True k(2) unfolding o by (auto simp: nth_list_update list_ok_single in_ok_def)
    qed
    ultimately show ?thesis by blast
  next
    case False
    let ?t = "last ?xs"
    have t: "?t < k" using outs_less(2) last_in_set [OF False] by blast
    let ?g = "g\<lparr>m_arcs := (m_arcs g)[?t := (m_arcs g ! ?t)\<lparr>next_in := int k\<rparr>],
      m_nodes := (m_nodes g)[m := ?ns\<lparr>tail_in := int k\<rparr>]\<rparr>"
    have "link_in_chk s (int k) g = Some ?g"
      using m list_ok_ends [OF l] False t k(1) by (simp add: link_in_chk_def link_in_def)
    moreover have "frame_in g ?g" using m(2) t k(1) by (auto simp: frame_in_def nth_list_update)
    moreover have "in_ok ?g (Suc k)"
      unfolding in_ok_def
    proof (intro allI impI)
      fix n assume n: "n < length (m_nodes ?g)"
      have tgt: "target (m_arcs ?g ! a) = target (m_arcs g ! a)" for a
        using t k(1) by (auto simp: nth_list_update)
      have o: "ins ?g (Suc k) (int n) = ins g k (int n) @ (if n = m then [k] else [])"
        using k(3) m ins_cong [OF tgt, of k "int n"] unfolding ins_Suc [OF k(5)] tgt by simp
      let ?nx' = "\<lambda>a. next_in (m_arcs ?g ! a)"
      have nx: "?nx' a = (if a = ?t then int k else ?nx a)" if "a \<le> k" for a
        using that k(1) by (auto simp: nth_list_update)
      show "list_ok ?nx' (head_in (m_nodes ?g ! n)) (tail_in (m_nodes ?g ! n)) (ins ?g (Suc k) (int n))"
      proof (cases "n = m")
        case True
        have "list_ok ?nx' (head_in ?ns) (int k) (?xs @ [k])"
        proof (rule list_ok_append [OF l False])
          show "?nx' x = ?nx x" if "x \<in> set ?xs" "x \<noteq> last ?xs" for x
            using that outs_less(2) [OF that(1)] by (subst nx) auto
        qed (use nx [of k] nx [of ?t] t k(2) in auto)
        with True m show ?thesis unfolding o by simp
      next
        case False
        have "?t \<notin> set (ins g k (int n))"
          using last_in_set [OF \<open>?xs \<noteq> []\<close>] False by (auto simp: ins_def)
        then have "list_ok ?nx' h t (ins g k (int n)) = list_ok ?nx h t (ins g k (int n))" for h t
          by (intro list_ok_cong) (use nx outs_less(2) in fastforce)
        with ok n False show ?thesis unfolding o by (simp add: in_ok_def)
      qed
    qed
    ultimately show ?thesis by blast
  qed
qed


section \<open>Adding arcs and nodes\<close>

text \<open>The abstract graph a tree represents.\<close>

definition view :: "('a, 'n) tree \<Rightarrow> ('a, 'n) graph" where
  "view g = \<lparr>g_nodes = map n_data (m_nodes g),
    g_arcs = map (\<lambda>x. (source x, target x, a_data x)) (m_arcs g)\<rparr>"

lemma frame_out_view: "frame_out g g' \<Longrightarrow> view g' = view g"
  by (auto simp: frame_out_def view_def intro!: nth_equalityI)

lemma frame_in_view: "frame_in g g' \<Longrightarrow> view g' = view g"
  by (auto simp: frame_in_def view_def intro!: nth_equalityI)

lemma view_arcs_ok:
  assumes "view g' = view g" shows "arcs_ok g' = arcs_ok g" "node_in g' = node_in g"
    "length (m_arcs g') = length (m_arcs g)" "length (m_nodes g') = length (m_nodes g)"
proof -
  have m: "map (\<lambda>x. (source x, target x, a_data x)) (m_arcs g') = map (\<lambda>x. (source x, target x, a_data x)) (m_arcs g)"
    "map n_data (m_nodes g') = map n_data (m_nodes g)" using assms by (simp_all add: view_def)
  show l: "length (m_arcs g') = length (m_arcs g)" "length (m_nodes g') = length (m_nodes g)"
    using map_eq_imp_length_eq [OF m(1)] map_eq_imp_length_eq [OF m(2)] by auto
  then show n: "node_in g' = node_in g" by (intro ext) (simp add: node_in_def nodeNum_def arena_size_def)
  have "source (m_arcs g' ! a) = source (m_arcs g ! a) \<and> target (m_arcs g' ! a) = target (m_arcs g ! a)"
    if "a < length (m_arcs g)" for a
    using arg_cong [OF m(1), of "\<lambda>xs. xs ! a"] that l by simp
  with l n show "arcs_ok g' = arcs_ok g" by (auto simp: arcs_ok_def)
qed

text \<open>The state between emplacing an arc and linking it.\<close>

lemma emplace_arc_ok:
  assumes "out_ok g (length (m_arcs g))" "in_ok g (length (m_arcs g))"
  shows "out_ok (g\<lparr>m_arcs := m_arcs g @ [x]\<rparr>) (length (m_arcs g))" "in_ok (g\<lparr>m_arcs := m_arcs g @ [x]\<rparr>) (length (m_arcs g))"
  using assms out_ok_cong [of "length (m_arcs g)" "g\<lparr>m_arcs := m_arcs g @ [x]\<rparr>" g]
    in_ok_cong [of "length (m_arcs g)" "g\<lparr>m_arcs := m_arcs g @ [x]\<rparr>" g]
  by (simp_all add: nth_append)

text \<open>\<open>addArcUnsafe\<close> with this \<open>link_in\<close>: another auxiliary operation.\<close>

definition addArc_chk :: "index_t \<Rightarrow> index_t \<Rightarrow> 'a \<Rightarrow> ('a, 'n) tree \<Rightarrow> (link \<times> ('a, 'n) tree) option" where
  "addArc_chk s t d g = do {
     let (a, arcs) = arena_emplace_back (m_arcs g) (ArcType s t d);
     let g = g\<lparr>m_arcs := arcs\<rparr>;
     g \<leftarrow> link_in_chk t a g;
     g \<leftarrow> link_out s a g;
     Some ((a, t), g) }"

lemma addArc_chk_ok:
  assumes wf: "tree_wf g" and st: "node_in g s" "node_in g t" and small: "length (m_arcs g) < 2 ^ 31"
  shows "\<exists>g'. addArc_chk s t d g = Some ((int (length (m_arcs g)), t), g') \<and> tree_wf g'
    \<and> view g' = add_arc s t d (view g) \<and> root_node g' = root_node g"
proof -
  let ?k = "length (m_arcs g)" and ?g1 = "g\<lparr>m_arcs := m_arcs g @ [ArcType s t d]\<rparr>"
  have k0: "0 < ?k" using wf by (simp add: tree_wf_def)
  have k: "to_int32 (int ?k) = int ?k" using small by (intro to_int32_id) auto
  have 1: "out_ok ?g1 ?k" "in_ok ?g1 ?k" using emplace_arc_ok [of g] wf by (auto simp: tree_wf_def)
  have st1: "node_in ?g1 s" "node_in ?g1 t" using st by (simp_all add: node_in_def nodeNum_def)
  obtain g2 where g2: "link_in_chk t (int ?k) ?g1 = Some g2" "in_ok g2 (Suc ?k)" "frame_in ?g1 g2"
    using link_in_chk_ok [OF 1(2) _ _ _ st1(2) k0] by (auto simp: ArcType_def)
  have 2: "out_ok g2 ?k" "next_out (m_arcs g2 ! ?k) = invalid_arc" "source (m_arcs g2 ! ?k) = s" "node_in g2 s"
    "length (m_arcs g2) = Suc ?k"
    using frame_in_out_ok [OF g2(3)] 1(1) g2(3) st1 view_arcs_ok(2) [OF frame_in_view [OF g2(3)]]
    by (auto simp: frame_in_def ArcType_def nth_append)
  obtain g3 where g3: "link_out s (int ?k) g2 = Some g3" "out_ok g3 (Suc ?k)" "frame_out g2 g3"
    using link_out_ok [OF 2(1) _ 2(2,3,4)] 2(5) by auto
  have v: "view g3 = view ?g1" using frame_in_view [OF g2(3)] frame_out_view [OF g3(3)] by simp
  have a1: "arcs_ok ?g1"
    using wf st1 by (auto simp: tree_wf_def arcs_ok_def node_in_def nodeNum_def ArcType_def nth_append)
  have "tree_wf g3"
    using wf a1 g2(2,3) g3(2,3) 2(5) frame_out_in_ok [OF g3(3), of "Suc ?k"] view_arcs_ok [OF v]
    by (auto simp: tree_wf_def frame_in_def frame_out_def node_in_def nodeNum_def)
  moreover have "view ?g1 = add_arc s t d (view g)" by (simp add: view_def add_arc_def ArcType_def)
  moreover have "root_node g3 = root_node g" using g2(3) g3(3) by (simp add: frame_in_def frame_out_def)
  ultimately show ?thesis
    using g2(1) g3(1) v by (simp add: addArc_chk_def arena_emplace_back_def k)
qed

text \<open>Every node the program creates is entered by an arc, so that the tail of its in-list can be followed.\<close>

definition entered :: "('a, 'n) tree \<Rightarrow> bool" where
  "entered g \<longleftrightarrow> (\<forall>n < length (m_nodes g). ins g (length (m_arcs g)) (int n) \<noteq> [])"

lemma addArcUnsafe_chk:
  assumes "tree_wf g" "entered g" "node_in g t"
  shows "addArcUnsafe s t d g = addArc_chk s t d g"
proof -
  obtain m where m: "t = int m" "m < length (m_nodes g)" using node_in_obtain [OF assms(3)] .
  let ?g1 = "g\<lparr>m_arcs := m_arcs g @ [ArcType s t d]\<rparr>"
  have "in_ok ?g1 (length (m_arcs g))" using emplace_arc_ok assms(1) by (auto simp: tree_wf_def)
  moreover have "ins ?g1 (length (m_arcs g)) (int m) = ins g (length (m_arcs g)) (int m)"
    by (rule ins_cong) (simp add: nth_append)
  then have "ins ?g1 (length (m_arcs g)) (int m) \<noteq> []" using assms(2) m(2) by (simp add: entered_def)
  ultimately have "link_in_chk t a ?g1 = link_in t a ?g1" for a
    using link_in_chk_eq m by fastforce
  then show ?thesis by (simp add: addArcUnsafe_def addArc_chk_def arena_emplace_back_def)
qed

lemma entered_add_arc:
  assumes "entered g" "view g' = add_arc s t d (view g)" "m_arcs g \<noteq> []"
  shows "entered g'"
proof -
  have l: "length (m_arcs g') = Suc (length (m_arcs g))" "length (m_nodes g') = length (m_nodes g)"
    using arg_cong [OF assms(2), of "\<lambda>v. length (g_arcs v)"] arg_cong [OF assms(2), of "\<lambda>v. length (g_nodes v)"]
    by (simp_all add: view_def add_arc_def)
  have "target (m_arcs g' ! a) = target (m_arcs g ! a)" if "a < length (m_arcs g)" for a
    using arg_cong [OF assms(2), of "\<lambda>v. fst (snd (g_arcs v ! a))"] that l by (simp add: view_def add_arc_def nth_append)
  then have "ins g' (length (m_arcs g)) n = ins g (length (m_arcs g)) n" for n by (intro ins_cong) auto
  with assms(1,3) l show ?thesis by (simp add: entered_def ins_Suc)
qed

lemma addArcUnsafe_ok:
  assumes "tree_wf g" "entered g" "node_in g s" "node_in g t" "length (m_arcs g) < 2 ^ 31"
  shows "\<exists>g'. addArcUnsafe s t d g = Some ((int (length (m_arcs g)), t), g') \<and> tree_wf g' \<and> entered g'
    \<and> view g' = add_arc s t d (view g) \<and> root_node g' = root_node g"
proof -
  obtain g' where g': "addArc_chk s t d g = Some ((int (length (m_arcs g)), t), g')" "tree_wf g'"
    "view g' = add_arc s t d (view g)" "root_node g' = root_node g"
    using addArc_chk_ok [OF assms(1,3-5), of d] by blast
  have "m_arcs g \<noteq> []" using assms(1) by (simp add: tree_wf_def)
  from entered_add_arc [OF assms(2) g'(3) this] g' show ?thesis
    using addArcUnsafe_chk [OF assms(1,2,4)] by simp
qed

lemma arcs_ok_less:
  assumes "arcs_ok g" "a < length (m_arcs g)"
  shows "source (m_arcs g ! a) < int (length (m_nodes g))" "target (m_arcs g ! a) < int (length (m_nodes g))"
proof -
  have "invalid_node < 0" by (simp add: invalid_node_def)
  then show "source (m_arcs g ! a) < int (length (m_nodes g))" "target (m_arcs g ! a) < int (length (m_nodes g))"
    using assms by (cases "a = 0"; auto simp: arcs_ok_def node_in_def nodeNum_def arena_size_def)+
qed

text \<open>The state of \<^verbatim>\<open>addNodeUnsafe\<close> before the new arc is put on the out-list of its source.\<close>

lemma emplace_node_ok:
  fixes g :: "('a, 'n) tree" and da :: 'a and dn :: 'n
  assumes wf: "tree_wf g" and s: "node_in g s"
  defines "k \<equiv> length (m_arcs g)"
  defines "g1 \<equiv> g\<lparr>m_arcs := m_arcs g @ [ArcType s (int (length (m_nodes g))) da],
    m_nodes := m_nodes g @ [NodeType_arc (int k) dn]\<rparr>"
  shows "out_ok g1 k" "in_ok g1 (Suc k)" "arcs_ok g1"
proof -
  let ?N = "length (m_nodes g)"
  have k0: "0 < k" and ok: "out_ok g k" "in_ok g k" "arcs_ok g" using wf by (simp_all add: tree_wf_def k_def)
  have old: "m_arcs g1 ! a = m_arcs g ! a" if "a < k" for a using that by (simp add: g1_def k_def nth_append)
  have new: "m_arcs g1 ! k = ArcType s (int ?N) da" by (simp add: g1_def k_def)
  have nodes: "m_nodes g1 ! n = m_nodes g ! n" if "n < ?N" for n using that by (simp add: g1_def nth_append)
  have nnode: "m_nodes g1 ! ?N = NodeType_arc (int k) dn" by (simp add: g1_def)
  have outs: "outs g1 k n = outs g k n" for n by (rule outs_cong) (simp add: old)
  have insS: "ins g1 (Suc k) n = ins g k n @ (if n = int ?N then [k] else [])" for n
    using ins_cong [of k g1 g n] by (simp add: ins_Suc [OF k0] new old) (simp add: ArcType_def)
  have neq: "source (m_arcs g ! a) \<noteq> int ?N" "target (m_arcs g ! a) \<noteq> int ?N" if "a < k" for a
    using arcs_ok_less [OF ok(3), of a] that by (simp_all add: k_def)
  have N0: "0 < ?N" using s by (auto simp: node_in_def nodeNum_def arena_size_def)
  have none: "outs g k (int ?N) = []" "ins g k (int ?N) = []"
    using neq N0 by (auto simp: outs_def ins_def filter_empty_conv)
  have outeq: "list_ok (\<lambda>a. next_out (m_arcs g1 ! a)) h t (outs g k n) = list_ok (\<lambda>a. next_out (m_arcs g ! a)) h t (outs g k n)"
    for h t n by (rule list_ok_cong) (simp add: old outs_less(1) [of _ g k n])
  have ineq: "list_ok (\<lambda>a. next_in (m_arcs g1 ! a)) h t (ins g k n) = list_ok (\<lambda>a. next_in (m_arcs g ! a)) h t (ins g k n)"
    for h t n by (rule list_ok_cong) (simp add: old outs_less(2) [of _ g k n])
  have lN: "length (m_nodes g1) = Suc ?N" by (simp add: g1_def)
  show "out_ok g1 k"
    unfolding out_ok_def
  proof (intro allI impI)
    fix n assume "n < length (m_nodes g1)"
    then consider "n < ?N" | "n = ?N" using lN by linarith
    then show "list_ok (\<lambda>a. next_out (m_arcs g1 ! a)) (head_out (m_nodes g1 ! n)) (tail_out (m_nodes g1 ! n)) (outs g1 k (int n))"
    proof cases
      case 1
      then show ?thesis
        using ok(1) outeq by (simp add: outs nodes out_ok_def)
    qed (simp add: outs nnode none list_ok_def NodeType_arc_def)
  qed
  show "in_ok g1 (Suc k)"
    unfolding in_ok_def
  proof (intro allI impI)
    fix n assume "n < length (m_nodes g1)"
    then consider "n < ?N" | "n = ?N" using lN by linarith
    then show "list_ok (\<lambda>a. next_in (m_arcs g1 ! a)) (head_in (m_nodes g1 ! n)) (tail_in (m_nodes g1 ! n)) (ins g1 (Suc k) (int n))"
    proof cases
      case 1
      then show ?thesis
        using ok(2) ineq by (simp add: insS nodes in_ok_def)
    qed (simp add: insS nnode none list_ok_def NodeType_arc_def new ArcType_def)
  qed
  show "arcs_ok g1"
    using ok(3) s k0 by (auto simp: arcs_ok_def g1_def node_in_def nodeNum_def arena_size_def nth_append ArcType_def k_def)
qed


lemma addNodeUnsafe_ok:
  assumes wf: "tree_wf g" "entered g" "node_in g s"
    and small: "length (m_arcs g) < 2 ^ 31" "length (m_nodes g) < 2 ^ 31"
  shows "\<exists>g'. addNodeUnsafe s da dn g = Some ((int (length (m_arcs g)), int (length (m_nodes g))), g') \<and> tree_wf g' \<and> entered g'
    \<and> view g' = add_arc s (int (length (m_nodes g))) da (add_node dn (view g)) \<and> root_node g' = root_node g"
proof -
  let ?k = "length (m_arcs g)" and ?N = "length (m_nodes g)"
  let ?g1 = "g\<lparr>m_arcs := m_arcs g @ [ArcType s (int ?N) da], m_nodes := m_nodes g @ [NodeType_arc (int ?k) dn]\<rparr>"
  note 1 = emplace_node_ok [OF wf(1,3), where da = da and dn = dn]
  have k: "to_int32 (int ?k) = int ?k" "to_int32 (int ?N) = int ?N" using small by (auto intro!: to_int32_id)
  have s1: "node_in ?g1 s" using wf(3) by (auto simp: node_in_def nodeNum_def arena_size_def)
  obtain g2 where g2: "link_out s (int ?k) ?g1 = Some g2" "out_ok g2 (Suc ?k)" "frame_out ?g1 g2"
    using link_out_ok [OF 1(1) _ _ _ s1] by (auto simp: ArcType_def)
  note v = frame_out_view [OF g2(3)]
  have "tree_wf g2"
    using wf(1) 1 g2(2,3) frame_out_in_ok [OF g2(3), of "Suc ?k"] view_arcs_ok [OF v]
    by (auto simp: tree_wf_def frame_out_def node_in_def nodeNum_def arena_size_def)
  moreover have "view ?g1 = add_arc s (int ?N) da (add_node dn (view g))"
    by (simp add: view_def add_arc_def add_node_def ArcType_def NodeType_arc_def)
  moreover have "entered g2"
  proof -
    have k0: "0 < ?k" using wf(1) by (simp add: tree_wf_def)
    have l: "length (m_arcs g2) = Suc ?k" "length (m_nodes g2) = Suc ?N" using g2(3) by (simp_all add: frame_out_def)
    have "ins g2 ?k n = ins g ?k n" "target (m_arcs g2 ! ?k) = int ?N" for n
      using g2(3) by (auto simp: frame_out_def nth_append ArcType_def intro!: ins_cong)
    with wf(2) l show ?thesis by (auto simp: entered_def ins_Suc [OF k0] less_Suc_eq)
  qed
  moreover have "addNodeUnsafe s da dn g = Some ((int ?k, int ?N), g2)"
    using g2(1) by (simp add: addNodeUnsafe_def arena_emplace_back_def k setSourceTarget_def ArcType_def)
  moreover have "root_node g2 = root_node g" using g2(3) by (simp add: frame_out_def)
  ultimately show ?thesis using v by simp
qed

lemma tree_new_ok: "tree_wf (tree_new da dn)" "entered (tree_new da dn)"
    "view (tree_new da dn) = \<lparr>g_nodes = [dn], g_arcs = [(invalid_node, 0, da)]\<rparr>"
  by (simp_all add: tree_new_def arena_emplace_back_def to_int32_def tree_wf_def entered_def view_def out_ok_def in_ok_def outs_def
      ins_def ArcType_def NodeType_arc_def node_in_def nodeNum_def arena_size_def arcs_ok_def list_ok_def invalid_node_def)

lemma clearUnsafe_new: "clearUnsafe da dn g = tree_new da dn"
  by (simp add: clearUnsafe_def tree_new_def Let_def split: prod.split)

section \<open>Loops over the links\<close>

lemma tree_wf_out:
  assumes "tree_wf g" "n < length (m_nodes g)"
  shows "chain (\<lambda>a. next_out (m_arcs g ! a)) (head_out (m_nodes g ! n)) (outs g (length (m_arcs g)) (int n))"
    "chain (\<lambda>a. next_in (m_arcs g ! a)) (head_in (m_nodes g ! n)) (ins g (length (m_arcs g)) (int n))"
  using assms by (auto simp: tree_wf_def out_ok_def in_ok_def list_ok_def)

lemma outArcNum_loop_chain:
  assumes "chain (\<lambda>a. next_out (m_arcs g ! a)) a xs" "\<And>x. x \<in> set xs \<Longrightarrow> x < length (m_arcs g)"
  shows "outArcNum_loop g a c = Some (c + int (length xs))"
  using assms by (induction xs arbitrary: a c) (subst outArcNum_loop.simps, auto simp: OutIt_next_def)+

lemma inArcNum_loop_chain:
  assumes "chain (\<lambda>a. next_in (m_arcs g ! a)) a xs" "\<And>x. x \<in> set xs \<Longrightarrow> x < length (m_arcs g)"
  shows "inArcNum_loop g a c = Some (c + int (length xs))"
  using assms by (induction xs arbitrary: a c) (subst inArcNum_loop.simps, auto simp: InIt_next_def)+

lemma arc_loop_chain:
  assumes "chain (\<lambda>a. next_out (m_arcs g ! a)) a xs" "\<And>x. x \<in> set xs \<Longrightarrow> x < length (m_arcs g)"
  shows "arc_loop g t a = Some (case find (\<lambda>x. target (m_arcs g ! x) = t) xs of None \<Rightarrow> invalid_arc | Some x \<Rightarrow> int x)"
  using assms by (induction xs arbitrary: a) (subst arc_loop.simps, auto simp: OutIt_next_def arc_target_def)+

end
