(* ===== verification/Rooted_Digraph_Slice.thy ===== *)
theory Rooted_Digraph_Slice
  imports Rooted_Digraph_Inv
begin

text \<open>
  The properties of the rooted directed graph: adding refines the abstract graph, the loops over links compute over its
  arcs, and the two slices build an isomorphic copy of the part reachable from a node.
\<close>

section \<open>Data\<close>

lemma view_sel:
  "length (g_nodes (view g)) = length (m_nodes g)" "length (g_arcs (view g)) = length (m_arcs g)"
  "order_of (view g) = int (length (m_nodes g))"
  by (simp_all add: view_def order_of_def)

lemma view_nth:
  "n < length (m_nodes g) \<Longrightarrow> g_nodes (view g) ! n = n_data (m_nodes g ! n)"
  "a < length (m_arcs g) \<Longrightarrow> g_arcs (view g) ! a = (source (m_arcs g ! a), target (m_arcs g ! a), a_data (m_arcs g ! a))"
  by (simp_all add: view_def)

text \<open>The abstract out-list of a node, read off the arena.\<close>

lemma outl_view:
  "outl (view g) n = map (\<lambda>a. (target (m_arcs g ! a), a_data (m_arcs g ! a))) (outs g (length (m_arcs g)) n)"
proof -
  have "m_arcs g = map (\<lambda>a. m_arcs g ! a) [0..<length (m_arcs g)]" by (simp add: map_nth)
  then have "filter (\<lambda>e. fst e = n) (g_arcs (view g))
      = filter (\<lambda>e. fst e = n) (map (\<lambda>a. (source (m_arcs g ! a), target (m_arcs g ! a), a_data (m_arcs g ! a))) [0..<length (m_arcs g)])"
    by (simp add: view_def) (metis (no_types, lifting) comp_apply map_map map_eq_conv)
  then show ?thesis by (simp add: outl_def outs_def filter_map o_def)
qed

lemma graph_ok_view: "tree_wf g \<Longrightarrow> graph_ok (view g)"
proof -
  assume "tree_wf g"
  then have ok: "arcs_ok g" by (simp add: tree_wf_def)
  have "source x < order_of (view g) \<and> 0 \<le> target x \<and> target x < order_of (view g)" if "x \<in> set (m_arcs g)" for x
  proof -
    from that obtain a where a: "a < length (m_arcs g)" "x = m_arcs g ! a" by (auto simp: in_set_conv_nth)
    with arcs_ok_less [OF ok a(1)] ok show ?thesis by (simp add: view_sel arcs_ok_def node_in_def)
  qed
  then show ?thesis by (auto simp: graph_ok_def view_def)
qed

lemma set_node_data_ok:
  assumes "tree_wf g" "n < length (m_nodes g)"
  shows "\<exists>g'. set_node_data (int n) d g = Some g' \<and> tree_wf g' \<and> (entered g \<longrightarrow> entered g')
    \<and> view g' = (view g)\<lparr>g_nodes := (g_nodes (view g))[n := d]\<rparr> \<and> root_node g' = root_node g"
proof -
  let ?g = "g\<lparr>m_nodes := (m_nodes g)[n := (m_nodes g ! n)\<lparr>n_data := d\<rparr>]\<rparr>"
  have s: "set_node_data (int n) d g = Some ?g" using assms(2) by (simp add: set_node_data_def)
  have "out_ok ?g k = out_ok g k" for k
    by (rule out_ok_cong) (use assms(2) in \<open>auto simp: nth_list_update\<close>)
  moreover have "in_ok ?g k = in_ok g k" for k
    by (rule in_ok_cong) (use assms(2) in \<open>auto simp: nth_list_update\<close>)
  moreover have "node_in ?g = node_in g" by (simp add: fun_eq_iff node_in_def nodeNum_def arena_size_def)
  ultimately have "tree_wf ?g" using assms(1) by (simp add: tree_wf_def arcs_ok_def)
  with s have "set_node_data (int n) d g = Some ?g" "tree_wf ?g" by auto
  moreover have "entered g \<longrightarrow> entered ?g" by (simp add: entered_def ins_def)
  moreover have "view ?g = (view g)\<lparr>g_nodes := (g_nodes (view g))[n := d]\<rparr>"
    using assms(2) by (simp add: view_def map_update)
  ultimately show ?thesis by simp
qed

lemma set_arc_data_ok:
  assumes "tree_wf g" "a < length (m_arcs g)"
  shows "\<exists>g'. set_arc_data (int a) d g = Some g' \<and> tree_wf g' \<and> (entered g \<longrightarrow> entered g')
    \<and> view g' = (view g)\<lparr>g_arcs := (g_arcs (view g))[a := (source (m_arcs g ! a), target (m_arcs g ! a), d)]\<rparr>
    \<and> root_node g' = root_node g"
proof -
  let ?g = "g\<lparr>m_arcs := (m_arcs g)[a := (m_arcs g ! a)\<lparr>a_data := d\<rparr>]\<rparr>"
  have same: "source (m_arcs ?g ! b) = source (m_arcs g ! b)" "target (m_arcs ?g ! b) = target (m_arcs g ! b)"
    "next_out (m_arcs ?g ! b) = next_out (m_arcs g ! b)" "next_in (m_arcs ?g ! b) = next_in (m_arcs g ! b)" for b
    using assms(2) by (auto simp: nth_list_update)
  have ok: "out_ok ?g k = out_ok g k" "in_ok ?g k = in_ok g k" for k
    by ((rule out_ok_cong, simp_all only: same, simp_all), (rule in_ok_cong, simp_all only: same, simp_all))
  have nd: "node_in ?g = node_in g" by (simp add: fun_eq_iff node_in_def nodeNum_def)
  have "set_arc_data (int a) d g = Some ?g" using assms(2) by (simp add: set_arc_data_def)
  moreover have "tree_wf ?g"
    using assms(1) same ok nd by (simp add: tree_wf_def arcs_ok_def)
  moreover have "ins ?g k n = ins g k n" for k n by (rule ins_cong) (rule same)
  then have "entered g \<longrightarrow> entered ?g" by (simp add: entered_def)
  moreover have "view ?g = (view g)\<lparr>g_arcs := (g_arcs (view g))[a := (source (m_arcs g ! a), target (m_arcs g ! a), d)]\<rparr>"
    using assms(2) by (simp add: view_def map_update)
  ultimately show ?thesis by simp
qed


section \<open>Slicing\<close>

text \<open>The two ways in which a slice extends the new tree.\<close>

lemma slice_add_node:
  assumes "tree_wf new" "entered new" "node_in new vp" "length (m_arcs new) < 2 ^ 31" "length (m_nodes new) < 2 ^ 31"
  shows "\<exists>new1 new2 new3. addNodeUnsafe vp da dn new = Some ((int (length (m_arcs new)), int (length (m_nodes new))), new1)
    \<and> set_arc_data (int (length (m_arcs new))) ad new1 = Some new2
    \<and> set_node_data (int (length (m_nodes new))) nd new2 = Some new3 \<and> tree_wf new3 \<and> entered new3
    \<and> view new3 = add_arc vp (order_of (view new)) ad (add_node nd (view new)) \<and> root_node new3 = root_node new"
proof -
  let ?k = "length (m_arcs new)" and ?N = "length (m_nodes new)"
  obtain new1 where n1: "addNodeUnsafe vp da dn new = Some ((int ?k, int ?N), new1)" "tree_wf new1" "entered new1"
    "view new1 = add_arc vp (int ?N) da (add_node dn (view new))" "root_node new1 = root_node new"
    using addNodeUnsafe_ok [OF assms, of da dn] by blast
  have l1: "length (m_arcs new1) = Suc ?k" "length (m_nodes new1) = Suc ?N"
    using arg_cong [OF n1(4), of "\<lambda>v. length (g_arcs v)"] arg_cong [OF n1(4), of "\<lambda>v. length (g_nodes v)"]
    by (simp_all add: view_sel)
  have e: "g_arcs (view new1) ! ?k = (vp, int ?N, da)" using n1(4) by (simp add: nth_append view_sel)
  then have st: "source (m_arcs new1 ! ?k) = vp" "target (m_arcs new1 ! ?k) = int ?N"
    using view_nth(2) [of ?k new1] l1 by simp_all
  obtain new2 where n2: "set_arc_data (int ?k) ad new1 = Some new2" "tree_wf new2" "entered new2"
    "view new2 = (view new1)\<lparr>g_arcs := (g_arcs (view new1))[?k := (vp, int ?N, ad)]\<rparr>" "root_node new2 = root_node new1"
    using set_arc_data_ok [OF n1(2), of ?k ad] l1 st n1(3) by auto
  have l2: "length (m_nodes new2) = Suc ?N"
    using arg_cong [OF n2(4), of "\<lambda>v. length (g_nodes v)"] l1 by (simp add: view_sel)
  obtain new3 where n3: "set_node_data (int ?N) nd new2 = Some new3" "tree_wf new3" "entered new3"
    "view new3 = (view new2)\<lparr>g_nodes := (g_nodes (view new2))[?N := nd]\<rparr>" "root_node new3 = root_node new2"
    using set_node_data_ok [OF n2(2), of ?N nd] l2 n2(3) by auto
  have "view new3 = add_arc vp (order_of (view new)) ad (add_node nd (view new))"
    by (simp add: n3(4) n2(4) n1(4) view_sel) (simp add: add_arc_def add_node_def view_def list_update_append)
  with n1 n2 n3 show ?thesis by auto
qed

lemma slice_add_arc:
  assumes "tree_wf new" "entered new" "node_in new vp" "node_in new vc" "length (m_arcs new) < 2 ^ 31"
  shows "\<exists>new1 new2. addArcUnsafe vp vc da new = Some ((int (length (m_arcs new)), vc), new1)
    \<and> set_arc_data (int (length (m_arcs new))) ad new1 = Some new2 \<and> tree_wf new2 \<and> entered new2
    \<and> view new2 = add_arc vp vc ad (view new) \<and> root_node new2 = root_node new"
proof -
  let ?k = "length (m_arcs new)"
  obtain new1 where n1: "addArcUnsafe vp vc da new = Some ((int ?k, vc), new1)" "tree_wf new1" "entered new1"
    "view new1 = add_arc vp vc da (view new)" "root_node new1 = root_node new"
    using addArcUnsafe_ok [OF assms, of da] by blast
  have l1: "length (m_arcs new1) = Suc ?k"
    using arg_cong [OF n1(4), of "\<lambda>v. length (g_arcs v)"] by (simp add: view_sel)
  have e: "g_arcs (view new1) ! ?k = (vp, vc, da)" using n1(4) by (simp add: nth_append view_sel)
  then have st: "source (m_arcs new1 ! ?k) = vp" "target (m_arcs new1 ! ?k) = vc"
    using view_nth(2) [of ?k new1] l1 by simp_all
  obtain new2 where n2: "set_arc_data (int ?k) ad new1 = Some new2" "tree_wf new2" "entered new2"
    "view new2 = (view new1)\<lparr>g_arcs := (g_arcs (view new1))[?k := (vp, vc, ad)]\<rparr>" "root_node new2 = root_node new1"
    using set_arc_data_ok [OF n1(2), of ?k ad] l1 st n1(3) by auto
  have "view new2 = add_arc vp vc ad (view new)"
    by (simp add: n2(4) n1(4)) (simp add: add_arc_def view_def list_update_append)
  with n1 n2 show ?thesis by auto
qed

text \<open>The array of new nodes by old index against the map of the abstract copy.\<close>

definition vis_rel :: "index_t list \<Rightarrow> (index_t \<rightharpoonup> index_t) \<Rightarrow> bool" where
  "vis_rel visited vis \<longleftrightarrow> (\<forall>n < length visited. visited ! n = (case vis (int n) of None \<Rightarrow> invalid_node | Some m \<Rightarrow> m))
    \<and> (\<forall>n m. vis n = Some m \<longrightarrow> 0 \<le> m)"

lemma vis_rel_aref:
  "vis_rel visited vis \<Longrightarrow> n < length visited \<Longrightarrow>
    aref visited (int n) = Some (case vis (int n) of None \<Rightarrow> invalid_node | Some m \<Rightarrow> m)"
  by (simp add: vis_rel_def)

lemma vis_rel_upd:
  "vis_rel visited vis \<Longrightarrow> n < length visited \<Longrightarrow> 0 \<le> m \<Longrightarrow> vis_rel (visited[n := m]) (vis(int n \<mapsto> m))"
  by (auto simp: vis_rel_def nth_list_update)

lemma vis_rel_valid: "vis_rel visited vis \<Longrightarrow> vis n = Some m \<Longrightarrow> m \<noteq> invalid_node"
proof -
  assume "vis_rel visited vis" "vis n = Some m"
  then have "0 \<le> m" by (auto simp: vis_rel_def)
  then show "m \<noteq> invalid_node" by (simp add: invalid_node_def)
qed


text \<open>What the new tree satisfies during a slice.\<close>

definition slice_rel :: "('a, 'n) tree \<Rightarrow> ('a, 'n) tree \<times> index_t list \<times> index_t list \<Rightarrow> ('a, 'n) copy_state \<Rightarrow> bool" where
  "slice_rel g st cs = (case (st, cs) of ((new, visited, work), (w, vis, work')) \<Rightarrow>
     tree_wf new \<and> entered new \<and> view new = w \<and> vis_rel visited vis \<and> work' = work
     \<and> length visited = length (m_nodes g) \<and> root_node new = 0)"

lemma slice_arcs_copy:
  assumes g: "tree_wf g" "length (m_nodes g) < 2 ^ 31"
    and "chain (\<lambda>a. next_out (m_arcs g ! a)) a xs" "\<And>x. x \<in> set xs \<Longrightarrow> x < length (m_arcs g)"
    and "slice_rel g st cs" "copy_inv (view g) old D [p] cs" "copy_arcs_of cs p ps"
    and "fst ` set (map (\<lambda>a. (target (m_arcs g ! a), a_data (m_arcs g ! a))) xs) \<subseteq> reach_from (view g) old \<inter> {0..<order_of (view g)}"
    and "length (g_arcs (fst cs)) + length xs \<le> 2 ^ 31"
  shows "\<exists>st'. slice_arcs da dn g p a st = Some st' \<and>
    slice_rel g st' (copy_arcs (view g) p (map (\<lambda>a. (target (m_arcs g ! a), a_data (m_arcs g ! a))) xs) cs)"
  using assms(3-)
proof (induction xs arbitrary: a st cs ps)
  case Nil
  then show ?case by (subst slice_arcs.simps) simp
next
  case (Cons x xs)
  obtain new visited work where st: "st = (new, visited, work)" by (rule prod_cases3)
  obtain vis where cs: "cs = (view new, vis, work)"
    using Cons.prems(3) unfolding st by (cases cs) (auto simp: slice_rel_def)
  note R = Cons.prems(3) [unfolded st cs slice_rel_def prod.case]
  note I = copy_invD [OF Cons.prems(4) [unfolded cs]] and rng = copy_inv_ran [OF Cons.prems(4) [unfolded cs]]
  let ?x = "m_arcs g ! x"
  have x: "a = int x" "x < length (m_arcs g)" "chain (\<lambda>a. next_out (m_arcs g ! a)) (next_out ?x) xs"
    using Cons.prems(1,2) by auto
  have t: "0 \<le> target ?x" "target ?x < int (length (m_nodes g))" "target ?x \<in> reach_from (view g) old"
    using Cons.prems(6) by (auto simp: view_sel)
  define tn where "tn = nat (target ?x)"
  have tn: "target ?x = int tn" "tn < length (m_nodes g)" using t by (auto simp: tn_def)
  have "p \<in> dom vis" using I(2) by simp
  then obtain p' where p': "vis p = Some p'" "0 \<le> p'" "p' < order_of (view new)" using rng by blast
  then have np: "node_in new p'" by (simp add: node_in_def nodeNum_def arena_size_def view_sel)
  have "p \<in> {0..<order_of (view g)}" using I(2,8) by auto
  then obtain pn where pn: "p = int pn" "pn < length (m_nodes g)"
    by (metis atLeastLessThan_iff of_nat_less_iff view_sel(3) zero_le_imp_eq_int)
  have vp: "aref visited p = Some p'" using R pn p' vis_rel_aref [of visited vis pn] by simp
  have vc: "aref visited (target ?x) = Some (case vis (target ?x) of None \<Rightarrow> invalid_node | Some m \<Rightarrow> m)"
    unfolding tn(1) by (rule vis_rel_aref) (use R tn in auto)
  have small: "length (m_arcs new) < 2 ^ 31" using Cons.prems(7) by (simp add: cs view_sel)
  note ev = x(1,2) arc_target_def arc_data_def OutIt_next_def node_data_def
  show ?case
  proof (cases "vis (target ?x)")
    case None
    have N: "length (m_nodes new) < 2 ^ 31"
      using copy_inv_order [OF Cons.prems(4) [unfolded cs]] g(2) by (simp add: view_sel)
    obtain new1 new2 new3 where n: "addNodeUnsafe p' da dn new = Some ((int (length (m_arcs new)), int (length (m_nodes new))), new1)"
      "set_arc_data (int (length (m_arcs new))) (a_data ?x) new1 = Some new2"
      "set_node_data (int (length (m_nodes new))) (n_data (m_nodes g ! tn)) new2 = Some new3" "tree_wf new3" "entered new3"
      "view new3 = add_arc p' (order_of (view new)) (a_data ?x) (add_node (n_data (m_nodes g ! tn)) (view new))"
      "root_node new3 = root_node new"
      using slice_add_node [OF _ _ np small N] R by blast
    let ?st = "(new3, visited[tn := int (length (m_nodes new))], work @ [target ?x])"
    let ?cs = "(view new3, vis(target ?x \<mapsto> order_of (view new)), work @ [target ?x])"
    have w3: "view new3 = add_arc (the (vis p)) (order_of (view new)) (a_data ?x) (add_node (g_nodes (view g) ! nat (target ?x)) (view new))"
      using n(6) p' tn by (simp add: view_nth)
    have rel: "slice_rel g ?st ?cs"
      using R n(4,5,7) tn vis_rel_upd [of visited vis tn "order_of (view new)"] by (simp add: slice_rel_def view_sel)
    have tv: "target ?x < order_of (view g)" using t(2) by (simp add: view_sel)
    note new = copy_arc_new [OF Cons.prems(4) [unfolded cs] None t(3) t(1) tv Cons.prems(5) [unfolded cs], of "a_data ?x",
        folded w3]
    have "\<exists>st'. slice_arcs da dn g p (next_out ?x) ?st = Some st' \<and>
        slice_rel g st' (copy_arcs (view g) p (map (\<lambda>a. (target (m_arcs g ! a), a_data (m_arcs g ! a))) xs) ?cs)"
      by (rule Cons.IH [OF x(3) _ rel new(1) new(2)])
        (use Cons.prems(2,6,7) in \<open>auto simp: cs n(6) view_sel\<close>)
    moreover have "slice_arcs da dn g p a st = slice_arcs da dn g p (next_out ?x) ?st"
      using n(1-3) vc None vp tn R by (subst slice_arcs.simps) (simp add: st ev Let_def)
    moreover have "copy_arcs (view g) p (map (\<lambda>a. (target (m_arcs g ! a), a_data (m_arcs g ! a))) (x # xs)) cs
        = copy_arcs (view g) p (map (\<lambda>a. (target (m_arcs g ! a), a_data (m_arcs g ! a))) xs) ?cs"
      using None by (simp add: cs w3)
    ultimately show ?thesis by simp
  next
    case (Some t')
    have t': "t' \<noteq> invalid_node" "node_in new t'"
      using R vis_rel_valid [of visited vis "target ?x" t'] Some rng [OF Some]
      by (auto simp: node_in_def nodeNum_def arena_size_def view_sel)
    obtain new1 new2 where n: "addArcUnsafe p' t' da new = Some ((int (length (m_arcs new)), t'), new1)"
      "set_arc_data (int (length (m_arcs new))) (a_data ?x) new1 = Some new2" "tree_wf new2" "entered new2"
      "view new2 = add_arc p' t' (a_data ?x) (view new)" "root_node new2 = root_node new"
      using slice_add_arc [OF _ _ np t'(2) small] R by blast
    let ?st = "(new2, visited, work)" and ?cs = "(view new2, vis, work)"
    have w2: "view new2 = add_arc (the (vis p)) t' (a_data ?x) (view new)" using n(5) p' by simp
    have rel: "slice_rel g ?st ?cs" using R n(3,4,6) by (simp add: slice_rel_def)
    note known = copy_arc_known [OF Cons.prems(4) [unfolded cs] Some Cons.prems(5) [unfolded cs], of "a_data ?x", folded w2]
    have "\<exists>st'. slice_arcs da dn g p (next_out ?x) ?st = Some st' \<and>
        slice_rel g st' (copy_arcs (view g) p (map (\<lambda>a. (target (m_arcs g ! a), a_data (m_arcs g ! a))) xs) ?cs)"
      by (rule Cons.IH [OF x(3) _ rel known(1) known(2)])
        (use Cons.prems(2,6,7) in \<open>auto simp: cs n(5) view_sel\<close>)
    moreover have "slice_arcs da dn g p a st = slice_arcs da dn g p (next_out ?x) ?st"
      using n(1,2) vc Some vp R t'(1) by (subst slice_arcs.simps) (simp add: st ev Let_def)
    moreover have "copy_arcs (view g) p (map (\<lambda>a. (target (m_arcs g ! a), a_data (m_arcs g ! a))) (x # xs)) cs
        = copy_arcs (view g) p (map (\<lambda>a. (target (m_arcs g ! a), a_data (m_arcs g ! a))) xs) ?cs"
      using Some by (simp add: cs w2)
    ultimately show ?thesis by simp
  qed
qed


text \<open>One round of either slice, and its effect on the abstract copy.\<close>

definition slice_inv :: "('a, 'n) tree \<Rightarrow> index_t \<Rightarrow> index_t set \<Rightarrow> ('a, 'n) tree \<times> index_t list \<times> index_t list \<Rightarrow> bool" where
  "slice_inv g old D st \<longleftrightarrow> (\<exists>cs. slice_rel g st cs \<and> copy_inv (view g) old D [] cs
    \<and> length (g_arcs (fst cs)) = 1 + (\<Sum>n\<in>D. length (outl (view g) n)))"

lemma slice_round:
  assumes g: "tree_wf g" "length (m_nodes g) < 2 ^ 31" "length (m_arcs g) < 2 ^ 31"
    and inv: "slice_inv g old D (new, visited, work)" and p: "p \<in> set work" "mset work = add_mset p (mset work')"
  shows "\<exists>a st'. OutIt g p = Some a \<and> slice_arcs da dn g p a (new, visited, work') = Some st'
    \<and> slice_inv g old (insert p D) st' \<and> card (insert p D) = Suc (card D) \<and> Suc (card D) \<le> length (m_nodes g)"
proof -
  obtain vis where vis: "slice_rel g (new, visited, work) (view new, vis, work)" "copy_inv (view g) old D [] (view new, vis, work)"
    "length (m_arcs new) = 1 + (\<Sum>n\<in>D. length (outl (view g) n))"
    using inv unfolding slice_inv_def slice_rel_def by (auto simp: view_sel)
  note I = copy_invD [OF vis(2)]
  have "p \<in> {0..<order_of (view g)}" using I(2,8) p by auto
  then obtain pn where pn: "p = int pn" "pn < length (m_nodes g)"
    by (metis atLeastLessThan_iff of_nat_less_iff view_sel(3) zero_le_imp_eq_int)
  let ?a = "head_out (m_nodes g ! pn)" and ?xs = "outs g (length (m_arcs g)) p" and ?cs = "(view new, vis, work')"
  have rel: "slice_rel g (new, visited, work') ?cs" using vis(1) by (simp add: slice_rel_def)
  have out: "outl (view g) p = map (\<lambda>a. (target (m_arcs g ! a), a_data (m_arcs g ! a))) ?xs" by (rule outl_view)
  note ok = graph_ok_view [OF g(1)]
  have step: "copy_inv (view g) old (insert p D) [] (copy_arcs (view g) p (outl (view g) p) ?cs)"
    by (rule copy_step [OF ok vis(2) p])
  note take = copy_take [OF ok vis(2) p]
  have D: "finite D" "p \<notin> D" using copy_inv_finite [OF vis(2)] take(3) by auto
  have sum: "1 + (\<Sum>n\<in>D. length (outl (view g) n)) + length (outl (view g) p) \<le> 2 ^ 31"
    using sum_outl_le [of "insert p D" "view g"] D g(3) by (simp add: view_sel)
  have "chain (\<lambda>a. next_out (m_arcs g ! a)) ?a ?xs" using tree_wf_out(1) [OF g(1) pn(2)] pn(1) by simp
  from slice_arcs_copy [OF g(1,2) this _ rel take(1,2), where da = da and dn = dn] take(4) sum vis(3)
  obtain st' where st': "slice_arcs da dn g p ?a (new, visited, work') = Some st'"
    "slice_rel g st' (copy_arcs (view g) p (outl (view g) p) ?cs)"
    unfolding out by (auto simp: outs_less view_sel)
  have "length (g_arcs (fst (copy_arcs (view g) p (outl (view g) p) ?cs))) = 1 + (\<Sum>n\<in>insert p D. length (outl (view g) n))"
    using vis(3) D by (simp add: copy_arcs_length view_sel)
  with step st'(2) have "slice_inv g old (insert p D) st'" unfolding slice_inv_def by blast
  moreover have "card (insert p D) \<le> length (m_nodes g)"
    using copy_inv_finite [of "view g" old "insert p D" "[]"] step by (cases "copy_arcs (view g) p (outl (view g) p) ?cs") (auto simp: view_sel)
  moreover have "OutIt g p = Some ?a" using pn by (simp add: OutIt_def)
  moreover have "card (insert p D) = Suc (card D)" using D by simp
  ultimately show ?thesis using st'(1) by metis
qed

lemma slice_inv_done:
  assumes "slice_inv g old D (new, visited, [])"
  shows "tree_wf new \<and> entered new \<and> root_node new = 0 \<and> (\<exists>f. copy_of (view g) old (view new) f)"
  using assms copy_done(1) unfolding slice_inv_def slice_rel_def by fastforce

lemma sliceDF_loop_ok:
  assumes g: "tree_wf g" "length (m_nodes g) < 2 ^ 31" "length (m_arcs g) < 2 ^ 31" and "slice_inv g old D st"
  shows "\<exists>new. sliceDF_loop da dn g st = Some new \<and> tree_wf new \<and> entered new \<and> root_node new = 0
    \<and> (\<exists>f. copy_of (view g) old (view new) f)"
  using assms(4)
proof (induction "length (m_nodes g) - card D" arbitrary: D st rule: less_induct)
  case less
  obtain new visited work where st: "st = (new, visited, work)" by (rule prod_cases3)
  show ?case
  proof (cases "work = []")
    case True
    with slice_inv_done [of g old D new visited] less.prems st show ?thesis by (subst sliceDF_loop.simps) auto
  next
    case False
    then have "last work \<in> set work" "mset work = add_mset (last work) (mset (butlast work))"
      by (simp, metis append_butlast_last_id mset_append mset_single_iff_right add_mset_add_single)
    from slice_round [OF g less.prems [unfolded st] this, where da = da and dn = dn] obtain a st' where
      r: "OutIt g (last work) = Some a" "slice_arcs da dn g (last work) a (new, visited, butlast work) = Some st'"
      "slice_inv g old (insert (last work) D) st'" "card (insert (last work) D) = Suc (card D)" "Suc (card D) \<le> length (m_nodes g)"
      by blast
    have "sliceDF_loop da dn g st = sliceDF_loop da dn g st'"
      using r(1,2) False by (subst sliceDF_loop.simps) (simp add: st)
    then show ?thesis using less.hyps [OF _ r(3)] r(4,5) by simp
  qed
qed

lemma sliceBF_loop_ok:
  assumes g: "tree_wf g" "length (m_nodes g) < 2 ^ 31" "length (m_arcs g) < 2 ^ 31" and "slice_inv g old D st"
  shows "\<exists>new. sliceBF_loop da dn g st = Some new \<and> tree_wf new \<and> entered new \<and> root_node new = 0
    \<and> (\<exists>f. copy_of (view g) old (view new) f)"
  using assms(4)
proof (induction "length (m_nodes g) - card D" arbitrary: D st rule: less_induct)
  case less
  obtain new visited work where st: "st = (new, visited, work)" by (rule prod_cases3)
  show ?case
  proof (cases work)
    case Nil
    with slice_inv_done [of g old D new visited] less.prems st show ?thesis by (subst sliceBF_loop.simps) auto
  next
    case (Cons p ps)
    then have "p \<in> set work" "mset work = add_mset p (mset ps)" by simp_all
    from slice_round [OF g less.prems [unfolded st] this, where da = da and dn = dn] obtain a st' where
      r: "OutIt g p = Some a" "slice_arcs da dn g p a (new, visited, ps) = Some st'"
      "slice_inv g old (insert p D) st'" "card (insert p D) = Suc (card D)" "Suc (card D) \<le> length (m_nodes g)"
      by blast
    have "sliceBF_loop da dn g st = sliceBF_loop da dn g st'"
      using r(1,2) Cons by (subst sliceBF_loop.simps) (simp add: st)
    then show ?thesis using less.hyps [OF _ r(3)] r(4,5) by simp
  qed
qed

lemma slice_start_ok:
  assumes g: "tree_wf g" "root_node g = 0" "node_in g old"
  shows "\<exists>st. slice_start g (tree_new da dn) old = Some st \<and> slice_inv g old {} st"
proof -
  obtain m where m: "old = int m" "m < length (m_nodes g)" using node_in_obtain [OF g(3)] .
  note new = tree_new_ok [of da dn]
  have "length (m_nodes (tree_new da dn)) = 1" using new(3) view_sel(1) [of "tree_new da dn"] by simp
  then obtain new1 where n1: "set_node_data (int 0) (n_data (m_nodes g ! m)) (tree_new da dn) = Some new1" "tree_wf new1" "entered new1"
    "view new1 = (view (tree_new da dn))\<lparr>g_nodes := (g_nodes (view (tree_new da dn)))[0 := n_data (m_nodes g ! m)]\<rparr>"
    "root_node new1 = root_node (tree_new da dn)"
    using set_node_data_ok [OF new(1), of 0 "n_data (m_nodes g ! m)"] new(2) by auto
  let ?vis = "(replicate (length (m_nodes g)) invalid_node)[m := 0]"
  have "slice_start g (tree_new da dn) old = Some (new1, ?vis, [old])"
    using n1(1) m g(2) by (simp add: slice_start_def node_data_def nodeNum_def arena_size_def)
  moreover have "copy_inv (view g) old {} [] (view new1, [old \<mapsto> 0], [old])"
    by (rule copy_start) (use n1 new m in \<open>auto simp: order_of_def view_nth outl_def view_sel graph_ok_def invalid_node_def\<close>)
  moreover have "vis_rel ?vis [old \<mapsto> 0]" using m by (auto simp: vis_rel_def nth_list_update)
  then have "slice_rel g (new1, ?vis, [old]) (view new1, [old \<mapsto> 0], [old])"
    using n1 by (simp add: slice_rel_def tree_new_def arena_emplace_back_def)
  moreover have "length (g_arcs (view new1)) = 1" using n1(4) new(3) by simp
  ultimately show ?thesis unfolding slice_inv_def by fastforce
qed


section \<open>Properties\<close>

text \<open>C6: Adding an arc or a node to a well-formed graph succeeds below \<open>2 ^ 31\<close> arcs and nodes, keeps every linked list
  intact, returns the next free index and adds exactly the new arc, or the new node and its arc, to the abstract
  graph.\<close>

theorem digraph_add_refines:
  assumes "tree_wf g" "entered g" "node_in g s" "node_in g t"
    and "length (m_arcs g) < 2 ^ 31" "length (m_nodes g) < 2 ^ 31"
  shows "(\<exists>g'. addArc s t d g = Some ((arcNum g, t), g') \<and> tree_wf g' \<and> entered g' \<and> view g' = add_arc s t d (view g))
    \<and> (\<exists>g'. addNode s d x g = Some ((arcNum g, nodeNum g), g') \<and> tree_wf g' \<and> entered g'
        \<and> view g' = add_arc s (nodeNum g) d (add_node x (view g)))"
  using addArcUnsafe_ok [OF assms(1-5), of d] addNodeUnsafe_ok [OF assms(1-3,5,6), of d x]
  by (auto simp: addArc_def addNode_def arcNum_def nodeNum_def arena_size_def)

text \<open>A small graph: 0 to 1 twice, 0 to 2, 1 to 2.\<close>

definition digraph_example :: "(nat, string) tree" where
  "digraph_example = the (do {
     let g = tree_new 0 ''r'';
     (l, g) \<leftarrow> addNode 0 1 ''a'' g;
     (l, g) \<leftarrow> addNode 0 2 ''b'' g;
     (l, g) \<leftarrow> addArc 1 2 3 g;
     (l, g) \<leftarrow> addArc 0 1 4 g;
     Some g })"

lemma digraph_example_eq:
  "digraph_example =
    \<lparr>m_arcs = [\<lparr>source = invalid_node, target = 0, next_in = invalid_arc, next_out = invalid_arc, a_data = 0\<rparr>,
       \<lparr>source = 0, target = 1, next_in = 4, next_out = 2, a_data = 1\<rparr>,
       \<lparr>source = 0, target = 2, next_in = 3, next_out = 4, a_data = 2\<rparr>,
       \<lparr>source = 1, target = 2, next_in = invalid_arc, next_out = invalid_arc, a_data = 3\<rparr>,
       \<lparr>source = 0, target = 1, next_in = invalid_arc, next_out = invalid_arc, a_data = 4\<rparr>],
     m_nodes = [\<lparr>head_in = 0, tail_in = 0, head_out = 1, tail_out = 4, n_data = ''r''\<rparr>,
       \<lparr>head_in = 1, tail_in = 4, head_out = 3, tail_out = 3, n_data = ''a''\<rparr>,
       \<lparr>head_in = 2, tail_in = 3, head_out = invalid_arc, tail_out = invalid_arc, n_data = ''b''\<rparr>],
     root_arc = 0, root_node = 0\<rparr>"
  by code_simp

lemma digraph_example_ok:
  "tree_wf digraph_example" "entered digraph_example" "node_in digraph_example 0" "node_in digraph_example 1" "node_in digraph_example 2"
  "length (m_arcs digraph_example) = 5" "length (m_nodes digraph_example) = 3" "root_node digraph_example = 0"
  unfolding digraph_example_eq by (code_simp, code_simp, code_simp, code_simp, code_simp, simp, simp, simp)

theorem digraph_add_refines_witness:
  "\<exists>g'. addArc 2 1 7 digraph_example = Some ((5, 1), g') \<and> view g' = add_arc 2 1 7 (view digraph_example)"
  using digraph_add_refines [OF digraph_example_ok(1,2,5,4), of 7 "[]"] digraph_example_ok(6,7)
  by (auto simp: arcNum_def arena_size_def)

text \<open>C34: The loops over links return and compute over the abstract arcs: \<^verbatim>\<open>outArcNum\<close> and \<^verbatim>\<open>inArcNum\<close> count the arcs that leave
  and enter a node (the root arc enters node 0), \<^verbatim>\<open>arc\<close> and \<^verbatim>\<open>link\<close> return the first arc from \<open>s\<close> to \<open>t\<close> and the invalid arc
  exactly when there is none, and \<^verbatim>\<open>isLeaf\<close> holds exactly when no arc leaves the node.\<close>

theorem digraph_loops:
  assumes "tree_wf g" "node_in g s"
  shows "outArcNum s g = Some (int (length (outl (view g) s)))
    \<and> inArcNum s g = Some (int (length (ins g (length (m_arcs g)) s)))
    \<and> arc s t g = Some (case find (\<lambda>a. fst (g_arcs (view g) ! a) = s \<and> fst (snd (g_arcs (view g) ! a)) = t) [0..<length (m_arcs g)] of
        None \<Rightarrow> invalid_arc | Some a \<Rightarrow> int a)
    \<and> link_nodes s t g = map_option (\<lambda>a. (a, t)) (arc s t g)
    \<and> isLeaf s g = Some (outl (view g) s = [])"
proof -
  obtain m where m: "s = int m" "m < length (m_nodes g)" using node_in_obtain [OF assms(2)] .
  note ch = tree_wf_out [OF assms(1) m(2)]
  let ?os = "outs g (length (m_arcs g)) s"
  have "find (\<lambda>x. target (m_arcs g ! x) = t) ?os
      = find (\<lambda>a. fst (g_arcs (view g) ! a) = s \<and> fst (snd (g_arcs (view g) ! a)) = t) [0..<length (m_arcs g)]"
  proof -
    have "find Q (filter P xs) = find (\<lambda>x. P x \<and> Q x) xs" for P Q :: "nat \<Rightarrow> bool" and xs by (induction xs) auto
    then have "find (\<lambda>x. target (m_arcs g ! x) = t) ?os
        = find (\<lambda>x. source (m_arcs g ! x) = s \<and> target (m_arcs g ! x) = t) [0..<length (m_arcs g)]" by (simp add: outs_def)
    also have "\<dots> = find (\<lambda>a. fst (g_arcs (view g) ! a) = s \<and> fst (snd (g_arcs (view g) ! a)) = t) [0..<length (m_arcs g)]"
      by (rule find_cong) (auto simp: view_nth)
    finally show ?thesis .
  qed
  then have "arc s t g = Some (case find (\<lambda>a. fst (g_arcs (view g) ! a) = s \<and> fst (snd (g_arcs (view g) ! a)) = t) [0..<length (m_arcs g)] of
        None \<Rightarrow> invalid_arc | Some a \<Rightarrow> int a)"
    using arc_loop_chain [OF ch(1), of t] m by (simp add: arc_def OutIt_def outs_less)
  moreover have "outArcNum s g = Some (int (length (outl (view g) s)))"
    using outArcNum_loop_chain [OF ch(1)] m by (simp add: outArcNum_def OutIt_def outs_less outl_view)
  moreover have "inArcNum s g = Some (int (length (ins g (length (m_arcs g)) s)))"
    using inArcNum_loop_chain [OF ch(2)] m by (simp add: inArcNum_def InIt_def outs_less)
  moreover have "isLeaf s g = Some (outl (view g) s = [])"
    using chain_Nil_iff [OF ch(1)] m by (simp add: isLeaf_def outl_view)
  ultimately show ?thesis by (auto simp: link_nodes_def arc_def split: bind_splits)
qed

theorem digraph_loops_witness:
  "outArcNum 0 digraph_example = Some 3 \<and> arc 0 1 digraph_example = Some 1 \<and> isLeaf 2 digraph_example = Some True"
  using digraph_loops [OF digraph_example_ok(1,3), of 1] digraph_loops [OF digraph_example_ok(1,5), of 1]
  by (simp add: digraph_example_eq view_def outl_def invalid_node_def upt_rec)

text \<open>When the root of the source is not its node 0, the slices write to that node in the fresh tree, which has the node 0 only.\<close>

lemma slice_start_moved_root:
  assumes "root_node g \<noteq> 0"
  shows "slice_start g (tree_new da dn) old = None"
proof -
  have "set_node_data (root_node g) d (tree_new da dn) = None" for d
    using assms by (auto simp: set_node_data_def tree_new_def arena_emplace_back_def aref_def Let_def)
  then show ?thesis by (auto simp: slice_start_def split: bind_splits)
qed

lemma slices_ok:
  assumes "tree_wf g" "root_node g = 0" "node_in g old" "length (m_nodes g) < 2 ^ 31" "length (m_arcs g) < 2 ^ 31"
  shows "\<exists>new f. sliceDF da dn g (tree_new da dn) old = Some new \<and> tree_wf new \<and> root_node new = 0 \<and> copy_of (view g) old (view new) f"
    "\<exists>new f. sliceBF da dn g (tree_new da dn) old = Some new \<and> tree_wf new \<and> root_node new = 0 \<and> copy_of (view g) old (view new) f"
proof -
  have "old \<noteq> invalid_node" using assms(3) by (auto simp: node_in_def invalid_node_def)
  with slice_start_ok [OF assms(1-3), of da dn] sliceDF_loop_ok [OF assms(1,4,5), where da = da and dn = dn and old = old]
    sliceBF_loop_ok [OF assms(1,4,5), where da = da and dn = dn and old = old]
  show "\<exists>new f. sliceDF da dn g (tree_new da dn) old = Some new \<and> tree_wf new \<and> root_node new = 0 \<and> copy_of (view g) old (view new) f"
    "\<exists>new f. sliceBF da dn g (tree_new da dn) old = Some new \<and> tree_wf new \<and> root_node new = 0 \<and> copy_of (view g) old (view new) f"
    unfolding sliceDF_def sliceBF_def by fastforce+
qed

text \<open>C14: \<^verbatim>\<open>sliceDF\<close> and \<^verbatim>\<open>sliceBF\<close> into a fresh tree return if and only if the root of the source is its node 0. Then the new tree is well-formed and an
  isomorphic copy of the part of the graph that is reachable from the given node: the node becomes the root, the data of nodes and arcs are kept, and so
  is the order of the arcs that leave a node. After \<^verbatim>\<open>setRoot\<close> with another node both access a node that the new tree does not have.\<close>

theorem sliceDF_copies:
  assumes "tree_wf g" "node_in g old" "length (m_nodes g) < 2 ^ 31" "length (m_arcs g) < 2 ^ 31"
  shows "\<forall>slice \<in> {sliceDF, sliceBF}. if root_node g = 0
    then \<exists>new f. slice da dn g (tree_new da dn) old = Some new \<and> tree_wf new \<and> root_node new = 0 \<and> copy_of (view g) old (view new) f
    else slice da dn g (tree_new da dn) old = None"
proof -
  have "old \<noteq> invalid_node" using assms(2) by (auto simp: node_in_def invalid_node_def)
  then show ?thesis
    using slices_ok [OF assms(1) _ assms(2-4), of da dn] slice_start_moved_root [of g da dn old] by (simp add: sliceDF_def sliceBF_def)
qed

theorem sliceDF_copies_witness:
  "(\<exists>new f. sliceDF 0 [] digraph_example (tree_new 0 []) 1 = Some new \<and> copy_of (view digraph_example) 1 (view new) f)
    \<and> sliceDF 0 [] (the (setRoot 1 digraph_example)) (tree_new 0 []) 1 = None"
proof -
  let ?g = "the (setRoot 1 digraph_example)"
  have "tree_wf ?g" "node_in ?g 1" "length (m_nodes ?g) = 3" "length (m_arcs ?g) = 5" "root_node ?g \<noteq> 0"
    unfolding digraph_example_eq by code_simp+
  with sliceDF_copies [of ?g 1 0 "[]"] sliceDF_copies [OF digraph_example_ok(1,4), of 0 "[]"] digraph_example_ok(6-8) show ?thesis by auto
qed

end
