(* ===== verification/Rooted_Digraph_Locking.thy ===== *)
theory Rooted_Digraph_Locking
  imports Rooted_Digraph_Slice
begin

text \<open>
  The locking half of old/stable_rooted_digraph-1.2.hpp: the variants of \<^verbatim>\<open>addArc\<close> and \<^verbatim>\<open>addNode\<close> for \<^verbatim>\<open>Locking\<close> true, and the iterators that
  lock the arc they are at, as one thread executes them. The lock \<^verbatim>\<open>SRWLock\<close> comes from a library; its operations are a parameter: they work on
  a state of the locks that may hold whatever else goes on, and one that waits for ever returns \<^term>\<open>None\<close>.
\<close>

section \<open>Locks\<close>

datatype lock_id = ArcLock index_t | NodeLock index_t

record 'w locks =
  lk_lock :: "lock_id \<Rightarrow> 'w \<Rightarrow> 'w option"
  lk_lockRead :: "lock_id \<Rightarrow> 'w \<Rightarrow> 'w option"
  lk_tryLock :: "lock_id \<Rightarrow> 'w \<Rightarrow> bool \<times> 'w"
  lk_tryLockRead :: "lock_id \<Rightarrow> 'w \<Rightarrow> bool \<times> 'w"
  lk_unlock :: "lock_id \<Rightarrow> 'w \<Rightarrow> 'w option"
  lk_unlockRead :: "lock_id \<Rightarrow> 'w \<Rightarrow> 'w option"

section \<open>Adding arcs and nodes\<close>

definition addArc_locking ::
  "'w locks \<Rightarrow> index_t \<Rightarrow> index_t \<Rightarrow> 'a \<Rightarrow> ('a, 'n) tree \<Rightarrow> 'w \<Rightarrow> (link \<times> ('a, 'n) tree \<times> 'w) option"
where
  "addArc_locking K s t d g w = do {
     let (a, arcs) = arena_emplace_back (m_arcs g) (ArcType s t d);
     let g = g\<lparr>m_arcs := arcs\<rparr>;
     w \<leftarrow> lk_lock K (NodeLock t) w;
     nt \<leftarrow> aref (m_nodes g) t;
     w \<leftarrow> lk_lock K (ArcLock (tail_in nt)) w;
     g \<leftarrow> link_in t a g;
     w \<leftarrow> lk_unlock K (ArcLock (tail_in nt)) w;
     w \<leftarrow> lk_unlock K (NodeLock t) w;
     w \<leftarrow> lk_lock K (NodeLock s) w;
     ns \<leftarrow> aref (m_nodes g) s;
     (g, w) \<leftarrow> (if head_out ns = invalid_arc then do { g \<leftarrow> link_out s a g; Some (g, w) }
       else do {
         w \<leftarrow> lk_lock K (ArcLock (tail_out ns)) w;
         g \<leftarrow> link_out s a g;
         w \<leftarrow> lk_unlock K (ArcLock (tail_out ns)) w;
         Some (g, w) });
     w \<leftarrow> lk_unlock K (NodeLock s) w;
     Some ((a, t), g, w) }"

text \<open>The new arc is made locked, and unlocked once its source and target are set.\<close>

definition addNode_locking ::
  "'w locks \<Rightarrow> index_t \<Rightarrow> 'a \<Rightarrow> 'n \<Rightarrow> ('a, 'n) tree \<Rightarrow> 'w \<Rightarrow> (link \<times> ('a, 'n) tree \<times> 'w) option"
where
  "addNode_locking K s da dn g w = do {
     let (a, arcs) = arena_emplace_back (m_arcs g) (ArcType invalid_node invalid_node da);
     w \<leftarrow> lk_lock K (ArcLock a) w;
     let (t, nodes) = arena_emplace_back (m_nodes g) (NodeType_arc a dn);
     x \<leftarrow> aref arcs a;
     arcs \<leftarrow> aset arcs a (setSourceTarget s t x);
     w \<leftarrow> lk_unlock K (ArcLock a) w;
     w \<leftarrow> lk_lock K (NodeLock s) w;
     let g = g\<lparr>m_arcs := arcs, m_nodes := nodes\<rparr>;
     ns \<leftarrow> aref (m_nodes g) s;
     (g, w) \<leftarrow> (if head_out ns = invalid_arc then do { g \<leftarrow> link_out s a g; Some (g, w) }
       else do {
         w \<leftarrow> lk_lock K (ArcLock (tail_out ns)) w;
         g \<leftarrow> link_out s a g;
         w \<leftarrow> lk_unlock K (ArcLock (tail_out ns)) w;
         Some (g, w) });
     w \<leftarrow> lk_unlock K (NodeLock s) w;
     Some ((a, t), g, w) }"

section \<open>Iterators that lock\<close>

datatype it_type = It_in | It_out
datatype lock_type = Lock_write | Lock_read

fun it_head :: "it_type \<Rightarrow> ('a, 'n) tree \<Rightarrow> index_t \<Rightarrow> index_t option" where
  "it_head It_in g n = map_option head_in (aref (m_nodes g) n)"
| "it_head It_out g n = map_option head_out (aref (m_nodes g) n)"

fun getNext :: "it_type \<Rightarrow> ('a, 'n) tree \<Rightarrow> index_t \<Rightarrow> index_t option" where
  "getNext It_in g a = map_option next_in (aref (m_arcs g) a)"
| "getNext It_out g a = map_option next_out (aref (m_arcs g) a)"

fun it_lock :: "'w locks \<Rightarrow> lock_type \<Rightarrow> index_t \<Rightarrow> 'w \<Rightarrow> 'w option" where
  "it_lock K Lock_write a w = lk_lock K (ArcLock a) w"
| "it_lock K Lock_read a w = lk_lockRead K (ArcLock a) w"

fun it_tryLock :: "'w locks \<Rightarrow> lock_type \<Rightarrow> index_t \<Rightarrow> 'w \<Rightarrow> bool \<times> 'w" where
  "it_tryLock K Lock_write a w = lk_tryLock K (ArcLock a) w"
| "it_tryLock K Lock_read a w = lk_tryLockRead K (ArcLock a) w"

fun it_unlock :: "'w locks \<Rightarrow> lock_type \<Rightarrow> index_t \<Rightarrow> 'w \<Rightarrow> 'w option" where
  "it_unlock K Lock_write a w = lk_unlock K (ArcLock a) w"
| "it_unlock K Lock_read a w = lk_unlockRead K (ArcLock a) w"

text \<open>\<^verbatim>\<open>ArcIt_\<close>: the value is the arc it is at.\<close>

definition ArcIt_new :: "'w locks \<Rightarrow> it_type \<Rightarrow> lock_type \<Rightarrow> ('a, 'n) tree \<Rightarrow> index_t \<Rightarrow> 'w \<Rightarrow> (index_t \<times> 'w) option" where
  "ArcIt_new K I L g n w = do {
     a \<leftarrow> it_head I g n;
     w \<leftarrow> (if valid_arc a then it_lock K L a w else Some w);
     Some (a, w) }"

definition ArcIt_next :: "'w locks \<Rightarrow> it_type \<Rightarrow> lock_type \<Rightarrow> ('a, 'n) tree \<Rightarrow> index_t \<Rightarrow> 'w \<Rightarrow> (index_t \<times> 'w) option" where
  "ArcIt_next K I L g a w = do {
     a' \<leftarrow> getNext I g a;
     w \<leftarrow> it_unlock K L a w;
     w \<leftarrow> (if valid_arc a' then it_lock K L a' w else Some w);
     Some (a', w) }"

text \<open>\<^verbatim>\<open>QueingArcIt_\<close>: the arc, the queue of the arcs that were busy, and whether there are arcs left that were not touched.\<close>

record queing_it =
  q_arc :: index_t
  m_queue :: "index_t list"
  m_not_all_touched :: bool

definition QueingArcIt_new :: "'w locks \<Rightarrow> it_type \<Rightarrow> lock_type \<Rightarrow> ('a, 'n) tree \<Rightarrow> index_t \<Rightarrow> 'w \<Rightarrow> (queing_it \<times> 'w) option" where
  "QueingArcIt_new K I L g n w = do {
     a \<leftarrow> it_head I g n;
     w \<leftarrow> (if valid_arc a then it_lock K L a w else Some w);
     Some (\<lparr>q_arc = a, m_queue = [] @ [invalid_arc], m_not_all_touched = True\<rparr>, w) }"

definition queuePop :: "queing_it \<Rightarrow> (index_t \<times> queing_it) option" where
  "queuePop it = (case m_queue it of [] \<Rightarrow> None | a # q \<Rightarrow> Some (a, it\<lparr>m_queue := q\<rparr>))"

partial_function (option) queing_loop ::
  "'w locks \<Rightarrow> it_type \<Rightarrow> lock_type \<Rightarrow> ('a, 'n) tree \<Rightarrow> index_t \<Rightarrow> queing_it \<Rightarrow> 'w \<Rightarrow> (index_t \<times> queing_it \<times> 'w) option"
where
  "queing_loop K I L g a it w =
    (if valid_arc a then
       (let (got, w) = it_tryLock K L a w in
        if got then Some (a, it, w)
        else
          (let it = it\<lparr>m_queue := m_queue it @ [a]\<rparr> in
           if m_not_all_touched it then do {
             a \<leftarrow> getNext I g a;
             if \<not> valid_arc a then do {
               (a, it) \<leftarrow> queuePop (it\<lparr>m_not_all_touched := False\<rparr>);
               queing_loop K I L g a it w }
             else queing_loop K I L g a it w }
           else do {
             (a, it) \<leftarrow> queuePop it;
             queing_loop K I L g a it w }))
     else Some (a, it, w))"

definition QueingArcIt_next :: "'w locks \<Rightarrow> it_type \<Rightarrow> lock_type \<Rightarrow> ('a, 'n) tree \<Rightarrow> queing_it \<Rightarrow> 'w \<Rightarrow> (queing_it \<times> 'w) option" where
  "QueingArcIt_next K I L g it w = do {
     a \<leftarrow> getNext I g (q_arc it);
     w \<leftarrow> it_unlock K L (q_arc it) w;
     (a, it, w) \<leftarrow> queing_loop K I L g a it w;
     Some (it\<lparr>q_arc := a\<rparr>, w) }"

text \<open>The loop of a client, \<^verbatim>\<open>for (It it (g, n); it != It::end (); ++it)\<close>: the arcs it is at, in order.\<close>

partial_function (option) ArcIt_loop :: "'w locks \<Rightarrow> it_type \<Rightarrow> lock_type \<Rightarrow> ('a, 'n) tree \<Rightarrow> index_t \<Rightarrow> 'w \<Rightarrow> (index_t list \<times> 'w) option" where
  "ArcIt_loop K I L g a w =
    (if a \<noteq> invalid_arc then do {
       (a', w) \<leftarrow> ArcIt_next K I L g a w;
       (as, w) \<leftarrow> ArcIt_loop K I L g a' w;
       Some (a # as, w) }
     else Some ([], w))"

definition ArcIt_run :: "'w locks \<Rightarrow> it_type \<Rightarrow> lock_type \<Rightarrow> ('a, 'n) tree \<Rightarrow> index_t \<Rightarrow> 'w \<Rightarrow> (index_t list \<times> 'w) option" where
  "ArcIt_run K I L g n w = do { (a, w) \<leftarrow> ArcIt_new K I L g n w; ArcIt_loop K I L g a w }"

partial_function (option) QueingArcIt_loop :: "'w locks \<Rightarrow> it_type \<Rightarrow> lock_type \<Rightarrow> ('a, 'n) tree \<Rightarrow> queing_it \<Rightarrow> 'w \<Rightarrow> (index_t list \<times> 'w) option" where
  "QueingArcIt_loop K I L g it w =
    (if q_arc it \<noteq> invalid_arc then do {
       (it', w) \<leftarrow> QueingArcIt_next K I L g it w;
       (as, w) \<leftarrow> QueingArcIt_loop K I L g it' w;
       Some (q_arc it # as, w) }
     else Some ([], w))"

definition QueingArcIt_run :: "'w locks \<Rightarrow> it_type \<Rightarrow> lock_type \<Rightarrow> ('a, 'n) tree \<Rightarrow> index_t \<Rightarrow> 'w \<Rightarrow> (index_t list \<times> 'w) option" where
  "QueingArcIt_run K I L g n w = do { (it, w) \<leftarrow> QueingArcIt_new K I L g n w; QueingArcIt_loop K I L g it w }"

declare queing_loop.simps [code] ArcIt_loop.simps [code] QueingArcIt_loop.simps [code]

end
