(* ===== verification/Rooted_Digraph_Iter.thy ===== *)
theory Rooted_Digraph_Iter
  imports Rooted_Digraph_Locking
begin

text \<open>
  What the locking operations of the digraph do: without contention the locking variants of \<^verbatim>\<open>addArc\<close> and \<^verbatim>\<open>addNode\<close> are the plain ones and
  release all locks; \<^verbatim>\<open>ArcIt_\<close> visits every arc under its lock; \<^verbatim>\<open>QueingArcIt_\<close> drops the arcs that were busy.
\<close>

section \<open>Iterators\<close>

text \<open>The arcs of a node, from the abstract lists.\<close>

fun arcs_of :: "it_type \<Rightarrow> ('a, 'n) tree \<Rightarrow> index_t \<Rightarrow> nat list" where
  "arcs_of It_in g n = ins g (length (m_arcs g)) n"
| "arcs_of It_out g n = outs g (length (m_arcs g)) n"

fun next_of :: "it_type \<Rightarrow> ('a, 'n) tree \<Rightarrow> nat \<Rightarrow> index_t" where
  "next_of It_in g a = next_in (m_arcs g ! a)"
| "next_of It_out g a = next_out (m_arcs g ! a)"

lemma getNext_next_of: "x < length (m_arcs g) \<Longrightarrow> getNext I g (int x) = Some (next_of I g x)"
  by (cases I) (simp_all add: aref_int)

lemma it_head_chain:
  assumes "tree_wf g" "node_in g n"
  shows "\<exists>h. it_head I g n = Some h \<and> chain (next_of I g) h (arcs_of I g n)"
    "\<forall>x\<in>set (arcs_of I g n). x < length (m_arcs g)"
proof -
  obtain m where m: "n = int m" "m < length (m_nodes g)" using node_in_obtain [OF assms(2)] .
  have e: "next_of It_in g = (\<lambda>a. next_in (m_arcs g ! a))" "next_of It_out g = (\<lambda>a. next_out (m_arcs g ! a))" by (simp_all add: fun_eq_iff)
  show "\<exists>h. it_head I g n = Some h \<and> chain (next_of I g) h (arcs_of I g n)"
    using tree_wf_out [OF assms(1) m(2)] by (cases I) (simp_all add: m aref_int e)
  show "\<forall>x\<in>set (arcs_of I g n). x < length (m_arcs g)" by (cases I) (auto simp: ins_def outs_def)
qed

text \<open>Every arc is locked, visited and unlocked, the next lock being taken after the last is released.\<close>

fun visit_each :: "'w locks \<Rightarrow> lock_type \<Rightarrow> index_t list \<Rightarrow> 'w \<Rightarrow> 'w option" where
  "visit_each K L [] w = Some w"
| "visit_each K L (a # as) w = do { w \<leftarrow> it_lock K L a w; w \<leftarrow> it_unlock K L a w; visit_each K L as w }"

text \<open>Every arc is tried once; those that are free are visited.\<close>

fun visit_free :: "'w locks \<Rightarrow> lock_type \<Rightarrow> index_t list \<Rightarrow> 'w \<Rightarrow> (index_t list \<times> 'w) option" where
  "visit_free K L [] w = Some ([], w)"
| "visit_free K L (a # as) w =
    (let (got, w) = it_tryLock K L a w in
     if got then do { w \<leftarrow> it_unlock K L a w; (vs, w) \<leftarrow> visit_free K L as w; Some (a # vs, w) }
     else visit_free K L as w)"

lemma ArcIt_loop_chain:
  assumes "chain (next_of I g) a (x # xs)" "\<forall>x\<in>set (x # xs). x < length (m_arcs g)"
  shows "ArcIt_loop K I L g a w =
    do { w \<leftarrow> it_unlock K L a w; w \<leftarrow> visit_each K L (map int xs) w; Some (map int (x # xs), w) }"
  using assms
proof (induction xs arbitrary: a x w)
  case Nil
  then show ?case
    by (cases "it_unlock K L a w") (simp_all add: ArcIt_loop.simps ArcIt_next_def getNext_next_of valid_arc_def)
next
  case (Cons y ys)
  then have a: "a = int x" and y: "next_of I g x = int y" "chain (next_of I g) (int y) (y # ys)" and x: "x < length (m_arcs g)" by auto
  note IH = Cons.IH [OF y(2)] Cons.prems(2)
  show ?case
  proof (cases "it_unlock K L a w")
    case None
    then show ?thesis using x y by (subst ArcIt_loop.simps) (simp add: ArcIt_next_def a getNext_next_of)
  next
    case (Some w1)
    then show ?thesis using x y IH by (subst ArcIt_loop.simps, cases "it_lock K L (int y) w1")
      (auto simp: ArcIt_next_def a getNext_next_of valid_arc_def)
  qed
qed

lemma queing_chain:
  assumes "chain (next_of I g) a xs" "\<forall>x\<in>set xs. x < length (m_arcs g)" "m_queue it = invalid_arc # q" "m_not_all_touched it"
  shows "do { (a, it, w) \<leftarrow> queing_loop K I L g a it w; QueingArcIt_loop K I L g (it\<lparr>q_arc := a\<rparr>) w } = visit_free K L (map int xs) w"
  using assms
proof (induction xs arbitrary: a it w q)
  case Nil
  then show ?case by (subst queing_loop.simps) (simp add: valid_arc_def QueingArcIt_loop.simps)
next
  case (Cons x xs)
  then have a: "a = int x" and c: "chain (next_of I g) (next_of I g x) xs" and x: "x < length (m_arcs g)" "\<forall>x\<in>set xs. x < length (m_arcs g)" by auto
  obtain got w1 where t: "it_tryLock K L (int x) w = (got, w1)" by force
  show ?case
  proof (cases got)
    case True
    have l: "queing_loop K I L g a it w = Some (int x, it, w1)" using True t by (subst queing_loop.simps) (simp add: a valid_arc_def)
    show ?thesis
    proof (cases "it_unlock K L (int x) w1")
      case None
      with l t True x show ?thesis by (subst QueingArcIt_loop.simps) (simp add: QueingArcIt_next_def getNext_next_of l)
    next
      case (Some w2)
      define it1 where "it1 = it\<lparr>q_arc := int x\<rparr>"
      have q: "m_queue it1 = invalid_arc # q" "m_not_all_touched it1" using Cons.prems(3,4) by (simp_all add: it1_def)
      note IH = Cons.IH [OF c x(2) q, of w2]
      have "QueingArcIt_loop K I L g it1 w1 = do { (as, w) \<leftarrow> visit_free K L (map int xs) w2; Some (int x # as, w) }"
        using Some x(1) unfolding IH [symmetric]
        by (subst QueingArcIt_loop.simps) (simp add: QueingArcIt_next_def getNext_next_of it1_def, cases "queing_loop K I L g (next_of I g x) (it\<lparr>q_arc := int x\<rparr>) w2", auto)
      with l t True Some show ?thesis by (simp add: it1_def)
    qed
  next
    case False
    define it1 where "it1 = it\<lparr>m_queue := m_queue it @ [int x]\<rparr>"
    show ?thesis
    proof (cases "valid_arc (next_of I g x)")
      case True
      have q: "m_queue it1 = invalid_arc # (q @ [int x])" "m_not_all_touched it1" using Cons.prems(3,4) by (simp_all add: it1_def)
      have "queing_loop K I L g a it w = queing_loop K I L g (next_of I g x) it1 w1" using False t True x(1) Cons.prems(4)
        by (subst queing_loop.simps) (simp add: a valid_arc_def getNext_next_of it1_def)
      with Cons.IH [OF c x(2) q, of w1] t False show ?thesis by simp
    next
      case end_: False
      then have xs: "xs = []" using c by (cases xs) (auto simp: valid_arc_def)
      define it2 where "it2 = it1\<lparr>m_not_all_touched := False, m_queue := q @ [int x]\<rparr>"
      have "queing_loop K I L g a it w = Some (invalid_arc, it2, w1)" using False t end_ x(1) Cons.prems(3,4)
        by (subst queing_loop.simps) (simp add: a valid_arc_def getNext_next_of it1_def it2_def queuePop_def queing_loop.simps)
      with t False xs show ?thesis by (simp add: QueingArcIt_loop.simps)
    qed
  qed
qed

text \<open>C21: A loop over a \<^verbatim>\<open>QueingArcIt_\<close> visits the first arc of a node and then tries every other arc once, visiting those whose lock it gets: an arc that is busy
  when it is tried is queued and never visited, since the first element of the queue is the invalid arc that ends the loop. This holds for
  every behaviour of the locks.\<close>

theorem queing_iterator_drops_busy_arcs:
  assumes "tree_wf g" "node_in g n"
  shows "QueingArcIt_run K I L g n w =
    (case map int (arcs_of I g n) of
       [] \<Rightarrow> Some ([], w)
     | a # as \<Rightarrow> do {
         w \<leftarrow> it_lock K L a w;
         w \<leftarrow> it_unlock K L a w;
         (vs, w) \<leftarrow> visit_free K L as w;
         Some (a # vs, w) })"
proof -
  from it_head_chain [OF assms, of I] obtain h where h: "it_head I g n = Some h" "chain (next_of I g) h (arcs_of I g n)"
    and lt: "\<forall>x\<in>set (arcs_of I g n). x < length (m_arcs g)" by blast
  show ?thesis
  proof (cases "arcs_of I g n")
    case Nil
    with h show ?thesis by (simp add: QueingArcIt_run_def QueingArcIt_new_def valid_arc_def QueingArcIt_loop.simps)
  next
    case (Cons x xs)
    with h(2) lt have c: "h = int x" "chain (next_of I g) (next_of I g x) xs" "x < length (m_arcs g)" "\<forall>x\<in>set xs. x < length (m_arcs g)" by auto
    define it where "it = \<lparr>q_arc = int x, m_queue = [invalid_arc], m_not_all_touched = True\<rparr>"
    have q: "m_queue it = invalid_arc # []" "m_not_all_touched it" by (simp_all add: it_def)
    have "QueingArcIt_loop K I L g it w = do { w \<leftarrow> it_unlock K L (int x) w; (vs, w) \<leftarrow> visit_free K L (map int xs) w; Some (int x # vs, w) }" for w
    proof (cases "it_unlock K L (int x) w")
      case None
      then show ?thesis using c(3) by (subst QueingArcIt_loop.simps) (simp add: QueingArcIt_next_def getNext_next_of it_def)
    next
      case (Some w2)
      then show ?thesis using c(3) unfolding queing_chain [OF c(2,4) q, symmetric]
        by (subst QueingArcIt_loop.simps) (simp add: QueingArcIt_next_def getNext_next_of it_def queing_chain [OF c(2,4) q, symmetric],
          cases "queing_loop K I L g (next_of I g x) \<lparr>q_arc = int x, m_queue = [invalid_arc], m_not_all_touched = True\<rparr> w2", auto)
    qed
    with h(1) Cons c(1) show ?thesis by (cases "it_lock K L (int x) w")
      (simp_all add: QueingArcIt_run_def QueingArcIt_new_def valid_arc_def it_def [symmetric])
  qed
qed

text \<open>A loop over an \<^verbatim>\<open>ArcIt_\<close> visits every arc of the node in order, each under its lock, holds one lock at a time and none at the end; it returns
  if the locks are granted.\<close>

theorem arc_iterator_visits_all:
  assumes "tree_wf g" "node_in g n"
  shows "ArcIt_run K I L g n w =
    do { w \<leftarrow> visit_each K L (map int (arcs_of I g n)) w; Some (map int (arcs_of I g n), w) }"
proof -
  from it_head_chain [OF assms, of I] obtain h where h: "it_head I g n = Some h" "chain (next_of I g) h (arcs_of I g n)"
    and lt: "\<forall>x\<in>set (arcs_of I g n). x < length (m_arcs g)" by blast
  show ?thesis
  proof (cases "arcs_of I g n")
    case Nil
    with h show ?thesis by (simp add: ArcIt_run_def ArcIt_new_def valid_arc_def ArcIt_loop.simps)
  next
    case (Cons x xs)
    with h(2) have c: "h = int x" by simp
    with ArcIt_loop_chain [OF h(2) [unfolded Cons] lt [unfolded Cons]] h(1) Cons show ?thesis
      by (cases "it_lock K L (int x) w") (simp_all add: ArcIt_run_def ArcIt_new_def valid_arc_def)
  qed
qed

section \<open>Adding under locks\<close>

text \<open>The locks as a single thread sees them when no other holds one: a lock that it does not hold is granted, one that it holds can be released.\<close>

definition uncontended :: "'w locks \<Rightarrow> ('w \<Rightarrow> lock_id set) \<Rightarrow> bool" where
  "uncontended K held \<longleftrightarrow>
     (\<forall>l w. l \<notin> held w \<longrightarrow> (\<exists>w'. lk_lock K l w = Some w' \<and> held w' = insert l (held w))) \<and>
     (\<forall>l w. l \<in> held w \<longrightarrow> (\<exists>w'. lk_unlock K l w = Some w' \<and> held w' = held w - {l}))"

lemma uncontendedD:
  assumes "uncontended K held"
  shows "l \<notin> held w \<Longrightarrow> \<exists>w'. lk_lock K l w = Some w' \<and> held w' = insert l (held w)"
    "l \<in> held w \<Longrightarrow> \<exists>w'. lk_unlock K l w = Some w' \<and> held w' = held w - {l}"
  using assms unfolding uncontended_def by blast+

text \<open>The part that links the arc to the out-list of its source is the same in both.\<close>

lemma link_out_locking:
  assumes "uncontended K held" "held w = {}" "link_out s a g = Some g'"
  shows "\<exists>w1 ns w2 w3. lk_lock K (NodeLock s) w = Some w1 \<and> aref (m_nodes g) s = Some ns \<and>
    (if head_out ns = invalid_arc then do { g \<leftarrow> link_out s a g; Some (g, w1) }
     else do {
       w \<leftarrow> lk_lock K (ArcLock (tail_out ns)) w1;
       g \<leftarrow> link_out s a g;
       w \<leftarrow> lk_unlock K (ArcLock (tail_out ns)) w;
       Some (g, w) }) = Some (g', w2) \<and> lk_unlock K (NodeLock s) w2 = Some w3 \<and> held w3 = {}"
proof -
  from assms(3) obtain ns where ns: "aref (m_nodes g) s = Some ns" by (auto simp: link_out_def bind_eq_Some_conv)
  from uncontendedD(1) [OF assms(1), of "NodeLock s" w] assms(2) obtain w1 where w1: "lk_lock K (NodeLock s) w = Some w1" "held w1 = {NodeLock s}" by auto
  from uncontendedD(1) [OF assms(1), of "ArcLock (tail_out ns)" w1] w1(2) obtain v where v: "lk_lock K (ArcLock (tail_out ns)) w1 = Some v"
    "held v = {ArcLock (tail_out ns), NodeLock s}" by auto
  from uncontendedD(2) [OF assms(1), of "ArcLock (tail_out ns)" v] v(2) obtain u where u: "lk_unlock K (ArcLock (tail_out ns)) v = Some u" "held u = {NodeLock s}" by auto
  define w2 where "w2 = (if head_out ns = invalid_arc then w1 else u)"
  have "held w2 = {NodeLock s}" using w1(2) u(2) by (simp add: w2_def)
  with uncontendedD(2) [OF assms(1), of "NodeLock s" w2] obtain w3 where w3: "lk_unlock K (NodeLock s) w2 = Some w3" "held w3 = {}" by auto
  show ?thesis using w1(1) ns v(1) u(1) w3 assms(3) by (intro exI [of _ w1] exI [of _ ns] exI [of _ w2] exI [of _ w3]) (auto simp: w2_def)
qed

text \<open>C22: When no other thread holds a lock, the locking \<^verbatim>\<open>addArc\<close> and \<^verbatim>\<open>addNode\<close> do not block themselves, do what the plain variants do, and release every lock they take.\<close>

theorem locking_add_is_unsafe_add:
  assumes "uncontended K held" "held w = {}"
  shows "(addArcUnsafe s t d g = Some (l, g') \<longrightarrow> (\<exists>w'. addArc_locking K s t d g w = Some (l, g', w') \<and> held w' = {})) \<and>
    (addNodeUnsafe s da dn g = Some (l, g') \<longrightarrow> (\<exists>w'. addNode_locking K s da dn g w = Some (l, g', w') \<and> held w' = {}))"
proof (intro conjI impI)
  assume a: "addArcUnsafe s t d g = Some (l, g')"
  define arc where "arc = to_int32 (int (length (m_arcs g)))"
  define g0 where "g0 = g\<lparr>m_arcs := m_arcs g @ [ArcType s t d]\<rparr>"
  from a obtain g1 where g1: "link_in t arc g0 = Some g1" "link_out s arc g1 = Some g'" "l = (arc, t)"
    by (auto simp: addArcUnsafe_def arena_emplace_back_def Let_def bind_eq_Some_conv arc_def g0_def)
  from g1(1) obtain nt where nt: "aref (m_nodes g) t = Some nt" by (auto simp: link_in_def bind_eq_Some_conv g0_def)
  from uncontendedD(1) [OF assms(1), of "NodeLock t" w] assms(2) obtain w1 where w1: "lk_lock K (NodeLock t) w = Some w1" "held w1 = {NodeLock t}" by auto
  from uncontendedD(1) [OF assms(1), of "ArcLock (tail_in nt)" w1] w1(2) obtain w2 where w2: "lk_lock K (ArcLock (tail_in nt)) w1 = Some w2"
    "held w2 = {ArcLock (tail_in nt), NodeLock t}" by auto
  from uncontendedD(2) [OF assms(1), of "ArcLock (tail_in nt)" w2] w2(2) obtain w3 where w3: "lk_unlock K (ArcLock (tail_in nt)) w2 = Some w3" "held w3 = {NodeLock t}" by auto
  from uncontendedD(2) [OF assms(1), of "NodeLock t" w3] w3(2) obtain w4 where w4: "lk_unlock K (NodeLock t) w3 = Some w4" "held w4 = {}" by auto
  from link_out_locking [OF assms(1) w4(2) g1(2)] w1(1) w2(1) w3(1) w4(1) nt g1(1,3)
  show "\<exists>w'. addArc_locking K s t d g w = Some (l, g', w') \<and> held w' = {}"
    by (elim exE conjE) (simp add: addArc_locking_def arena_emplace_back_def arc_def [symmetric] g0_def [symmetric])
next
  assume a: "addNodeUnsafe s da dn g = Some (l, g')"
  define arc where "arc = to_int32 (int (length (m_arcs g)))"
  define t where "t = to_int32 (int (length (m_nodes g)))"
  from a obtain x arcs where x: "aref (m_arcs g @ [ArcType invalid_node invalid_node da]) arc = Some x"
    "aset (m_arcs g @ [ArcType invalid_node invalid_node da]) arc (setSourceTarget s t x) = Some arcs"
    "link_out s arc (g\<lparr>m_arcs := arcs, m_nodes := m_nodes g @ [NodeType_arc arc dn]\<rparr>) = Some g'" "l = (arc, t)"
    by (auto simp: addNodeUnsafe_def arena_emplace_back_def Let_def bind_eq_Some_conv arc_def t_def)
  from uncontendedD(1) [OF assms(1), of "ArcLock arc" w] assms(2) obtain w1 where w1: "lk_lock K (ArcLock arc) w = Some w1" "held w1 = {ArcLock arc}" by auto
  from uncontendedD(2) [OF assms(1), of "ArcLock arc" w1] w1(2) obtain w2 where w2: "lk_unlock K (ArcLock arc) w1 = Some w2" "held w2 = {}" by auto
  from link_out_locking [OF assms(1) w2(2) x(3)] w1(1) w2(1) x
  show "\<exists>w'. addNode_locking K s da dn g w = Some (l, g', w') \<and> held w' = {}"
    by (elim exE conjE) (simp add: addNode_locking_def arena_emplace_back_def arc_def [symmetric] t_def [symmetric])
qed

section \<open>Examples\<close>

text \<open>Locks that a second thread holds until the first attempt to take one has failed.\<close>

definition demo_locks :: "nat locks" where
  "demo_locks = \<lparr>lk_lock = (\<lambda>l w. Some w), lk_lockRead = (\<lambda>l w. Some w), lk_tryLock = (\<lambda>l w. (w \<noteq> 0, Suc w)),
    lk_tryLockRead = (\<lambda>l w. (w \<noteq> 0, Suc w)), lk_unlock = (\<lambda>l w. Some w), lk_unlockRead = (\<lambda>l w. Some w)\<rparr>"

lemma arcs_of_example: "arcs_of It_out digraph_example 0 = [1, 2, 4]"
  by (simp add: digraph_example_eq outs_def invalid_node_def upt_rec)

theorem queing_iterator_drops_busy_arcs_witness:
  "arcs_of It_out digraph_example 0 = [1, 2, 4] \<and>
   QueingArcIt_run demo_locks It_out Lock_write digraph_example 0 0 = Some ([1, 4], 2)"
  using queing_iterator_drops_busy_arcs [OF digraph_example_ok(1,3), of demo_locks It_out Lock_write 0] arcs_of_example
  by (simp add: demo_locks_def)

theorem arc_iterator_visits_all_witness:
  "ArcIt_run demo_locks It_out Lock_read digraph_example 0 0 = Some ([1, 2, 4], 0)"
  using arc_iterator_visits_all [OF digraph_example_ok(1,3), of demo_locks It_out Lock_read 0] arcs_of_example
  by (simp add: demo_locks_def)

text \<open>Locks that know who holds them.\<close>

definition own_locks :: "lock_id set locks" where
  "own_locks = \<lparr>lk_lock = (\<lambda>l w. if l \<in> w then None else Some (insert l w)), lk_lockRead = (\<lambda>l w. None), lk_tryLock = (\<lambda>l w. (False, w)),
    lk_tryLockRead = (\<lambda>l w. (False, w)), lk_unlock = (\<lambda>l w. if l \<in> w then Some (w - {l}) else None), lk_unlockRead = (\<lambda>l w. None)\<rparr>"

lemma digraph_add_refines_at: "\<exists>g'. addArcUnsafe 2 1 7 digraph_example = Some ((5, 1), g')"
  using addArcUnsafe_ok [OF digraph_example_ok(1,2,5,4), of 7] digraph_example_ok(6) by (auto simp: arcNum_def arena_size_def)

theorem locking_add_is_unsafe_add_witness:
  "\<exists>g' w'. addArc_locking own_locks 2 1 7 digraph_example {} = Some ((5, 1), g', w') \<and> w' = {}"
proof -
  have u: "uncontended own_locks (\<lambda>w. w)" by (simp add: uncontended_def own_locks_def)
  from digraph_add_refines_at obtain g' where "addArcUnsafe 2 1 7 digraph_example = Some ((5, 1), g')" by blast
  with locking_add_is_unsafe_add [OF u refl, of 2 1 7 digraph_example "(5, 1)" g'] show ?thesis by blast
qed

end
