(* ===== verification/Rooted_Digraph_Threads.thy ===== *)
theory Rooted_Digraph_Threads
  imports Rooted_Digraph_Iter
begin

text \<open>
  Several threads that add arcs and nodes to one digraph of old/stable_rooted_digraph-1.2.hpp with \<^verbatim>\<open>Locking\<close> true. Every access to the shared
  tree and every operation on a lock is a step of its own, and the steps of the threads interleave at will. A thread is where it is in the code of
  \<^verbatim>\<open>addArc\<close> or \<^verbatim>\<open>addNode\<close>, with the values of its local variables. The arenas are concurrent vectors, whose \<^verbatim>\<open>emplace_back\<close> is atomic and moves no
  element; the locks are exclusive and not reentrant.
\<close>

section \<open>Threads\<close>

datatype ('a, 'n) request = Add_arc index_t index_t 'a | Add_node index_t 'a 'n

fun req_source :: "('a, 'n) request \<Rightarrow> index_t" where
  "req_source (Add_arc s t d) = s"
| "req_source (Add_node s da dn) = s"

fun req_target :: "('a, 'n) request \<Rightarrow> index_t" where
  "req_target (Add_arc s t d) = t"
| "req_target (Add_node s da dn) = invalid_node"

fun req_data :: "('a, 'n) request \<Rightarrow> 'a" where
  "req_data (Add_arc s t d) = d"
| "req_data (Add_node s da dn) = da"

text \<open>The points of the code. The arguments are the request, the new arc, the target and the arc that was locked.\<close>

datatype ('a, 'n) thread =
    Idle
  | Called "('a, 'n) request"
  | In_lock_node "('a, 'n) request" index_t
  | In_lock_arc "('a, 'n) request" index_t
  | In_next "('a, 'n) request" index_t index_t
  | In_tail "('a, 'n) request" index_t index_t
  | In_unlock_arc "('a, 'n) request" index_t index_t
  | In_unlock_node "('a, 'n) request" index_t
  | New_node "('a, 'n) request" index_t
  | New_set "('a, 'n) request" index_t index_t
  | New_unlock "('a, 'n) request" index_t index_t
  | Out_lock_node "('a, 'n) request" index_t index_t
  | Out_test "('a, 'n) request" index_t index_t
  | Out_head "('a, 'n) request" index_t index_t
  | Out_new_tail "('a, 'n) request" index_t index_t
  | Out_lock_arc "('a, 'n) request" index_t index_t
  | Out_next "('a, 'n) request" index_t index_t index_t
  | Out_tail "('a, 'n) request" index_t index_t index_t
  | Out_unlock_arc "('a, 'n) request" index_t index_t index_t
  | Out_unlock_node "('a, 'n) request" index_t index_t

record ('a, 'n) threads =
  c_tree :: "('a, 'n) tree"
  c_locks :: "lock_id \<Rightarrow> nat option"
  c_threads :: "nat \<Rightarrow> ('a, 'n) thread"
  c_done :: "(('a, 'n) request \<times> link) list"

text \<open>A step succeeds, has to wait, or has undefined behaviour.\<close>

datatype 'c outcome = Fault | Blocked | Ok 'c

section \<open>Steps\<close>

definition goto :: "nat \<Rightarrow> ('a, 'n) thread \<Rightarrow> ('a, 'n) threads \<Rightarrow> ('a, 'n) threads" where
  "goto i p c = c\<lparr>c_threads := (c_threads c)(i := p)\<rparr>"

definition acquire :: "nat \<Rightarrow> lock_id \<Rightarrow> ('a, 'n) thread \<Rightarrow> ('a, 'n) threads \<Rightarrow> ('a, 'n) threads outcome" where
  "acquire i l p c = (if c_locks c l = None then Ok (goto i p (c\<lparr>c_locks := (c_locks c)(l := Some i)\<rparr>)) else Blocked)"

definition release :: "nat \<Rightarrow> lock_id \<Rightarrow> ('a, 'n) thread \<Rightarrow> ('a, 'n) threads \<Rightarrow> ('a, 'n) threads outcome" where
  "release i l p c = (if c_locks c l = Some i then Ok (goto i p (c\<lparr>c_locks := (c_locks c)(l := None)\<rparr>)) else Fault)"

definition update_tree :: "nat \<Rightarrow> ('a, 'n) tree option \<Rightarrow> ('a, 'n) thread \<Rightarrow> ('a, 'n) threads \<Rightarrow> ('a, 'n) threads outcome" where
  "update_tree i og p c = (case og of None \<Rightarrow> Fault | Some g \<Rightarrow> Ok (goto i p (c\<lparr>c_tree := g\<rparr>)))"

definition with_value :: "'x option \<Rightarrow> ('x \<Rightarrow> 'c outcome) \<Rightarrow> 'c outcome" where
  "with_value ox f = (case ox of None \<Rightarrow> Fault | Some x \<Rightarrow> f x)"

text \<open>Single assignments to the links of an arc and the ends of the lists of a node.\<close>

fun set_next :: "it_type \<Rightarrow> index_t \<Rightarrow> index_t \<Rightarrow> ('a, 'n) tree \<Rightarrow> ('a, 'n) tree option" where
  "set_next I x a g = do {
     y \<leftarrow> aref (m_arcs g) x;
     arcs \<leftarrow> aset (m_arcs g) x (case I of It_in \<Rightarrow> y\<lparr>next_in := a\<rparr> | It_out \<Rightarrow> y\<lparr>next_out := a\<rparr>);
     Some (g\<lparr>m_arcs := arcs\<rparr>) }"

fun set_tail :: "it_type \<Rightarrow> index_t \<Rightarrow> index_t \<Rightarrow> ('a, 'n) tree \<Rightarrow> ('a, 'n) tree option" where
  "set_tail I n a g = do {
     y \<leftarrow> aref (m_nodes g) n;
     nodes \<leftarrow> aset (m_nodes g) n (case I of It_in \<Rightarrow> y\<lparr>tail_in := a\<rparr> | It_out \<Rightarrow> y\<lparr>tail_out := a\<rparr>);
     Some (g\<lparr>m_nodes := nodes\<rparr>) }"

definition set_head_out :: "index_t \<Rightarrow> index_t \<Rightarrow> ('a, 'n) tree \<Rightarrow> ('a, 'n) tree option" where
  "set_head_out n a g = do {
     y \<leftarrow> aref (m_nodes g) n;
     nodes \<leftarrow> aset (m_nodes g) n (y\<lparr>head_out := a\<rparr>);
     Some (g\<lparr>m_nodes := nodes\<rparr>) }"

fun tail_of :: "it_type \<Rightarrow> ('a, 'n) tree \<Rightarrow> index_t \<Rightarrow> index_t option" where
  "tail_of It_in g n = map_option tail_in (aref (m_nodes g) n)"
| "tail_of It_out g n = map_option tail_out (aref (m_nodes g) n)"

text \<open>The new arc of \<^verbatim>\<open>addNode\<close> is constructed locked.\<close>

fun emplace_arc :: "nat \<Rightarrow> ('a, 'n) request \<Rightarrow> ('a, 'n) threads \<Rightarrow> ('a, 'n) threads" where
  "emplace_arc i (Add_arc s t d) c =
    (let (a, arcs) = arena_emplace_back (m_arcs (c_tree c)) (ArcType s t d)
     in goto i (In_lock_node (Add_arc s t d) a) (c\<lparr>c_tree := (c_tree c)\<lparr>m_arcs := arcs\<rparr>\<rparr>))"
| "emplace_arc i (Add_node s da dn) c =
    (let (a, arcs) = arena_emplace_back (m_arcs (c_tree c)) (ArcType invalid_node invalid_node da)
     in goto i (New_node (Add_node s da dn) a)
          (c\<lparr>c_tree := (c_tree c)\<lparr>m_arcs := arcs\<rparr>, c_locks := (c_locks c)(ArcLock a := Some i)\<rparr>))"

fun emplace_node :: "nat \<Rightarrow> ('a, 'n) request \<Rightarrow> index_t \<Rightarrow> ('a, 'n) threads \<Rightarrow> ('a, 'n) threads outcome" where
  "emplace_node i (Add_arc s t d) a c = Fault"
| "emplace_node i (Add_node s da dn) a c =
    (let (t, nodes) = arena_emplace_back (m_nodes (c_tree c)) (NodeType_arc a dn)
     in Ok (goto i (New_set (Add_node s da dn) a t) (c\<lparr>c_tree := (c_tree c)\<lparr>m_nodes := nodes\<rparr>\<rparr>)))"

definition set_source_target :: "index_t \<Rightarrow> index_t \<Rightarrow> index_t \<Rightarrow> ('a, 'n) tree \<Rightarrow> ('a, 'n) tree option" where
  "set_source_target a s t g = do {
     x \<leftarrow> aref (m_arcs g) a;
     arcs \<leftarrow> aset (m_arcs g) a (setSourceTarget s t x);
     Some (g\<lparr>m_arcs := arcs\<rparr>) }"

text \<open>The first arc of a node: \<^verbatim>\<open>addArc\<close> assigns the tail and then the head, \<^verbatim>\<open>addNode\<close> the head and then the tail.\<close>

fun first_out :: "nat \<Rightarrow> ('a, 'n) request \<Rightarrow> index_t \<Rightarrow> index_t \<Rightarrow> ('a, 'n) threads \<Rightarrow> ('a, 'n) threads outcome" where
  "first_out i (Add_arc s t' d) a t c = update_tree i (set_tail It_out s a (c_tree c)) (Out_head (Add_arc s t' d) a t) c"
| "first_out i (Add_node s da dn) a t c = update_tree i (set_head_out s a (c_tree c)) (Out_new_tail (Add_node s da dn) a t) c"

fun thread_step :: "nat \<Rightarrow> ('a, 'n) threads \<Rightarrow> ('a, 'n) threads outcome" where
  "thread_step i c = (let g = c_tree c in case c_threads c i of
     Idle \<Rightarrow> Blocked
   | Called r \<Rightarrow> Ok (emplace_arc i r c)
   | In_lock_node r a \<Rightarrow> acquire i (NodeLock (req_target r)) (In_lock_arc r a) c
   | In_lock_arc r a \<Rightarrow> with_value (tail_of It_in g (req_target r)) (\<lambda>x. acquire i (ArcLock x) (In_next r a x) c)
   | In_next r a x \<Rightarrow> with_value (tail_of It_in g (req_target r)) (\<lambda>y. update_tree i (set_next It_in y a g) (In_tail r a x) c)
   | In_tail r a x \<Rightarrow> update_tree i (set_tail It_in (req_target r) a g) (In_unlock_arc r a x) c
   | In_unlock_arc r a x \<Rightarrow> release i (ArcLock x) (In_unlock_node r a) c
   | In_unlock_node r a \<Rightarrow> release i (NodeLock (req_target r)) (Out_lock_node r a (req_target r)) c
   | New_node r a \<Rightarrow> emplace_node i r a c
   | New_set r a t \<Rightarrow> update_tree i (set_source_target a (req_source r) t g) (New_unlock r a t) c
   | New_unlock r a t \<Rightarrow> release i (ArcLock a) (Out_lock_node r a t) c
   | Out_lock_node r a t \<Rightarrow> acquire i (NodeLock (req_source r)) (Out_test r a t) c
   | Out_test r a t \<Rightarrow> with_value (it_head It_out g (req_source r)) (\<lambda>h.
       if h = invalid_arc then first_out i r a t c else Ok (goto i (Out_lock_arc r a t) c))
   | Out_head r a t \<Rightarrow> update_tree i (set_head_out (req_source r) a g) (Out_unlock_node r a t) c
   | Out_new_tail r a t \<Rightarrow> update_tree i (set_tail It_out (req_source r) a g) (Out_unlock_node r a t) c
   | Out_lock_arc r a t \<Rightarrow> with_value (tail_of It_out g (req_source r)) (\<lambda>x. acquire i (ArcLock x) (Out_next r a t x) c)
   | Out_next r a t x \<Rightarrow> with_value (tail_of It_out g (req_source r)) (\<lambda>y. update_tree i (set_next It_out y a g) (Out_tail r a t x) c)
   | Out_tail r a t x \<Rightarrow> update_tree i (set_tail It_out (req_source r) a g) (Out_unlock_arc r a t x) c
   | Out_unlock_arc r a t x \<Rightarrow> release i (ArcLock x) (Out_unlock_node r a t) c
   | Out_unlock_node r a t \<Rightarrow> release i (NodeLock (req_source r)) Idle (c\<lparr>c_done := c_done c @ [(r, (a, t))]\<rparr>))"

declare thread_step.simps [simp del, code]

section \<open>Runs\<close>

text \<open>A thread that has nothing to do may call an operation on nodes that exist; any thread that is not waiting may make the next step.\<close>

fun request_ok :: "('a, 'n) tree \<Rightarrow> ('a, 'n) request \<Rightarrow> bool" where
  "request_ok g (Add_arc s t d) \<longleftrightarrow> node_in g s \<and> node_in g t"
| "request_ok g (Add_node s da dn) \<longleftrightarrow> node_in g s"

definition threads_new :: "('a, 'n) tree \<Rightarrow> ('a, 'n) threads" where
  "threads_new g = \<lparr>c_tree = g, c_locks = (\<lambda>l. None), c_threads = (\<lambda>i. Idle), c_done = []\<rparr>"

inductive threads_reach :: "('a, 'n) tree \<Rightarrow> ('a, 'n) threads \<Rightarrow> bool" for g where
  new: "threads_reach g (threads_new g)"
| call: "threads_reach g c \<Longrightarrow> c_threads c i = Idle \<Longrightarrow> request_ok (c_tree c) r \<Longrightarrow> threads_reach g (goto i (Called r) c)"
| step: "threads_reach g c \<Longrightarrow> thread_step i c = Ok c' \<Longrightarrow> threads_reach g c'"

end
