(* ===== verification/Rooted_Digraph_Threads_Lists.thy ===== *)
theory Rooted_Digraph_Threads_Lists
  imports Rooted_Digraph_Threads
begin

text \<open>
  The linked lists of the digraph while threads are at work on them. An arc is pending until it is on its list, and the link of the last arc of a list
  may already lead to an arc that is not on the list yet. Each assignment of the threads keeps this.
\<close>

section \<open>Segments\<close>

primrec seg :: "(nat \<Rightarrow> index_t) \<Rightarrow> index_t \<Rightarrow> nat list \<Rightarrow> index_t \<Rightarrow> bool" where
  "seg nx h [] e \<longleftrightarrow> h = e"
| "seg nx h (x # xs) e \<longleftrightarrow> h = int x \<and> seg nx (nx x) xs e"

lemma seg_cong: "(\<And>x. x \<in> set xs \<Longrightarrow> nx' x = nx x) \<Longrightarrow> seg nx' h xs e = seg nx h xs e"
  by (induction xs arbitrary: h) auto

lemma seg_append [simp]: "seg nx h (xs @ [k]) e \<longleftrightarrow> seg nx h xs (int k) \<and> nx k = e"
  by (induction xs arbitrary: h) auto

lemma seg_last: "seg nx h xs e \<Longrightarrow> xs \<noteq> [] \<Longrightarrow> nx (last xs) = e"
  by (induction xs arbitrary: h) (auto split: if_splits)

lemma seg_new_end:
  assumes "seg nx h xs e" "xs \<noteq> []" "distinct xs"
  shows "seg (nx(last xs := e')) h xs e'"
  using assms
proof (induction xs rule: rev_induct)
  case (snoc x xs)
  then have "seg (nx(x := e')) h xs (int x) = seg nx h xs (int x)" by (intro seg_cong) auto
  with snoc show ?case by (simp del: fun_upd_apply add: fun_upd_same)
qed simp

lemma seg_chain: "seg nx h xs invalid_arc = chain nx h xs"
  by (induction xs arbitrary: h) auto

lemma seg_head: "seg nx h xs invalid_arc \<Longrightarrow> h = invalid_arc \<longleftrightarrow> xs = []"
  by (cases xs) auto

section \<open>The fields of the tree\<close>

fun head_at :: "it_type \<Rightarrow> ('a, 'n) tree \<Rightarrow> nat \<Rightarrow> index_t" where
  "head_at It_in g n = head_in (m_nodes g ! n)"
| "head_at It_out g n = head_out (m_nodes g ! n)"

fun tail_at :: "it_type \<Rightarrow> ('a, 'n) tree \<Rightarrow> nat \<Rightarrow> index_t" where
  "tail_at It_in g n = tail_in (m_nodes g ! n)"
| "tail_at It_out g n = tail_out (m_nodes g ! n)"

abbreviation n_arcs :: "('a, 'n) tree \<Rightarrow> nat" where "n_arcs g \<equiv> length (m_arcs g)"
abbreviation n_nodes :: "('a, 'n) tree \<Rightarrow> nat" where "n_nodes g \<equiv> length (m_nodes g)"

text \<open>What no assignment to a link changes.\<close>

definition same_data :: "('a, 'n) tree \<Rightarrow> ('a, 'n) tree \<Rightarrow> bool" where
  "same_data g g' \<longleftrightarrow> n_arcs g' = n_arcs g \<and> n_nodes g' = n_nodes g \<and> root_arc g' = root_arc g \<and> root_node g' = root_node g \<and>
     (\<forall>a < n_arcs g. source (m_arcs g' ! a) = source (m_arcs g ! a) \<and> target (m_arcs g' ! a) = target (m_arcs g ! a) \<and>
        a_data (m_arcs g' ! a) = a_data (m_arcs g ! a)) \<and>
     (\<forall>n < n_nodes g. n_data (m_nodes g' ! n) = n_data (m_nodes g ! n) \<and> head_in (m_nodes g' ! n) = head_in (m_nodes g ! n))"

lemma all_it_type: "(\<forall>J. Q J) \<longleftrightarrow> Q It_in \<and> Q It_out"
  by (metis it_type.exhaust)

lemma set_next_eq:
  assumes "x < n_arcs g"
  shows "\<exists>g'. set_next I (int x) a g = Some g' \<and> same_data g g' \<and> m_nodes g' = m_nodes g \<and>
    (\<forall>J. next_of J g' = (if J = I then (next_of I g)(x := a) else next_of J g))"
  using assms by (cases I) (auto simp: all_it_type same_data_def nth_list_update fun_eq_iff)

lemma set_tail_eq:
  assumes "n < n_nodes g"
  shows "\<exists>g'. set_tail I (int n) a g = Some g' \<and> same_data g g' \<and> m_arcs g' = m_arcs g \<and> (\<forall>J. head_at J g' = head_at J g) \<and>
    (\<forall>J. tail_at J g' = (if J = I then (tail_at I g)(n := a) else tail_at J g))"
  using assms by (cases I) (auto simp: all_it_type same_data_def nth_list_update fun_eq_iff)

lemma set_head_eq:
  assumes "n < n_nodes g"
  shows "\<exists>g'. set_head_out (int n) a g = Some g' \<and> same_data g g' \<and> m_arcs g' = m_arcs g \<and> (\<forall>J. tail_at J g' = tail_at J g) \<and>
    (\<forall>J. head_at J g' = (if J = It_out then (head_at It_out g)(n := a) else head_at J g))"
  using assms by (auto simp: all_it_type set_head_out_def same_data_def nth_list_update fun_eq_iff)

section \<open>Lists at work\<close>

text \<open>\<open>L I n\<close> is the list of node \<open>n\<close>, \<open>E I n\<close> where its last link leads, \<open>T a\<close> the node on whose in-list arc \<open>a\<close> belongs, and \<open>P I\<close> the pending arcs.\<close>

fun end_of :: "it_type \<Rightarrow> (nat \<Rightarrow> index_t) \<Rightarrow> ('a, 'n) tree \<Rightarrow> nat \<Rightarrow> index_t" where
  "end_of It_in T g a = T a"
| "end_of It_out T g a = source (m_arcs g ! a)"

definition list_inv ::
  "('a, 'n) tree \<Rightarrow> (nat \<Rightarrow> nat list) \<Rightarrow> (nat \<Rightarrow> index_t) \<Rightarrow> (nat \<Rightarrow> index_t) \<Rightarrow> nat set \<Rightarrow> it_type \<Rightarrow> bool"
where
  "list_inv g l e T P I \<longleftrightarrow>
    (\<forall>n < n_nodes g. seg (next_of I g) (head_at I g n) (l n) (e n) \<and> (l n \<noteq> [] \<longrightarrow> tail_at I g n = int (last (l n))) \<and>
       distinct (l n) \<and> (\<forall>a. a \<in> set (l n) \<longleftrightarrow> a < n_arcs g \<and> a \<notin> P \<and> end_of I T g a = int n) \<and> (I = It_in \<longrightarrow> l n \<noteq> [])) \<and>
    (\<forall>a\<in>P. a < n_arcs g \<and> next_of I g a = invalid_arc) \<and>
    (\<forall>a < n_arcs g. a \<notin> P \<longrightarrow> end_of I T g a < int (n_nodes g))"

lemma list_invD:
  assumes "list_inv g l e T P I"
  shows "n < n_nodes g \<Longrightarrow> seg (next_of I g) (head_at I g n) (l n) (e n)"
    and "n < n_nodes g \<Longrightarrow> l n \<noteq> [] \<Longrightarrow> tail_at I g n = int (last (l n))"
    and "n < n_nodes g \<Longrightarrow> distinct (l n)"
    and "n < n_nodes g \<Longrightarrow> a \<in> set (l n) \<longleftrightarrow> a < n_arcs g \<and> a \<notin> P \<and> end_of I T g a = int n"
    and "n < n_nodes g \<Longrightarrow> I = It_in \<Longrightarrow> l n \<noteq> []"
    and "a \<in> P \<Longrightarrow> a < n_arcs g" "a \<in> P \<Longrightarrow> next_of I g a = invalid_arc"
    and "a < n_arcs g \<Longrightarrow> a \<notin> P \<Longrightarrow> end_of I T g a < int (n_nodes g)"
  using assms by (simp_all add: list_inv_def)

lemma list_invI:
  assumes "\<And>n. n < n_nodes g \<Longrightarrow> seg (next_of I g) (head_at I g n) (l n) (e n)"
    and "\<And>n. n < n_nodes g \<Longrightarrow> l n \<noteq> [] \<Longrightarrow> tail_at I g n = int (last (l n))"
    and "\<And>n. n < n_nodes g \<Longrightarrow> distinct (l n)"
    and "\<And>n a. n < n_nodes g \<Longrightarrow> a \<in> set (l n) \<longleftrightarrow> a < n_arcs g \<and> a \<notin> P \<and> end_of I T g a = int n"
    and "\<And>n. n < n_nodes g \<Longrightarrow> I = It_in \<Longrightarrow> l n \<noteq> []"
    and "\<And>a. a \<in> P \<Longrightarrow> a < n_arcs g" "\<And>a. a \<in> P \<Longrightarrow> next_of I g a = invalid_arc"
    and "\<And>a. a < n_arcs g \<Longrightarrow> a \<notin> P \<Longrightarrow> end_of I T g a < int (n_nodes g)"
  shows "list_inv g l e T P I"
  unfolding list_inv_def by (intro conjI allI impI ballI; rule assms; assumption)

lemma list_inv_frame:
  assumes inv: "list_inv g l e T P I"
    and g': "n_nodes g' = n_nodes g" "n_arcs g' = n_arcs g" "next_of I g' = next_of I g" "head_at I g' = head_at I g" "tail_at I g' = tail_at I g"
    and e: "\<And>a. a < n_arcs g \<Longrightarrow> a \<notin> P \<Longrightarrow> end_of I T' g' a = end_of I T g a"
  shows "list_inv g' l e T' P I"
proof (rule list_invI, unfold g')
  show "a \<in> set (l n) \<longleftrightarrow> a < n_arcs g \<and> a \<notin> P \<and> end_of I T' g' a = int n" if "n < n_nodes g" for n a
    using list_invD(4) [OF inv that, of a] e [of a] by auto
  show "end_of I T' g' a < int (n_nodes g)" if "a < n_arcs g" "a \<notin> P" for a using list_invD(8) [OF inv that] e [OF that] by simp
qed (use list_invD [OF inv] in simp_all)

text \<open>A new arc is pending.\<close>

lemma list_inv_emplace_arc:
  assumes inv: "list_inv g l e T P I" and x: "next_in x = invalid_arc" "next_out x = invalid_arc" and T: "\<And>a. a < n_arcs g \<Longrightarrow> T' a = T a"
  shows "list_inv (g\<lparr>m_arcs := m_arcs g @ [x]\<rparr>) l e T' (insert (n_arcs g) P) I"
proof -
  let ?g = "g\<lparr>m_arcs := m_arcs g @ [x]\<rparr>"
  have e: "end_of I T' ?g a = end_of I T g a" if "a < n_arcs g" for a using that T by (cases I) (simp_all add: nth_append)
  have nx: "next_of I ?g a = next_of I g a" if "a < n_arcs g" for a using that by (cases I) (simp_all add: nth_append)
  have new: "next_of I ?g (n_arcs g) = invalid_arc" using x by (cases I) simp_all
  have ends: "head_at I ?g = head_at I g" "tail_at I ?g = tail_at I g" by (cases I; simp add: fun_eq_iff)+
  note D = list_invD [OF inv]
  have sg: "seg (next_of I ?g) h (l n) y = seg (next_of I g) h (l n) y" if "n < n_nodes g" for n h y
    by (rule seg_cong) (use D(4) [OF that] nx in blast)
  show ?thesis
  proof (rule list_invI)
    show "a \<in> set (l n) \<longleftrightarrow> a < n_arcs ?g \<and> a \<notin> insert (n_arcs g) P \<and> end_of I T' ?g a = int n" if "n < n_nodes ?g" for n a
      using D(4) [of n a] e [of a] that by auto
    show "end_of I T' ?g a < int (n_nodes ?g)" if "a < n_arcs ?g" "a \<notin> insert (n_arcs g) P" for a using D(8) [of a] e [of a] that by auto
    show "next_of I ?g a = invalid_arc" if "a \<in> insert (n_arcs g) P" for a using that D(6,7) [of a] nx [of a] new by auto
    show "a < n_arcs ?g" if "a \<in> insert (n_arcs g) P" for a using that D(6) [of a] by auto
  qed (use D(1,2,3,5) sg ends in simp_all)
qed

text \<open>The link of the last arc is set to a pending arc.\<close>

lemma list_inv_set_next:
  assumes inv: "list_inv g l e T P I" and n: "n < n_nodes g" "l n \<noteq> []"
    and g': "same_data g g'" "m_nodes g' = m_nodes g" "next_of I g' = (next_of I g)(last (l n) := k)"
  shows "list_inv g' l (e(n := k)) T P I"
proof -
  note D = list_invD [OF inv]
  have y: "last (l n) \<in> set (l n)" using n(2) by simp
  have other: "seg (next_of I g') h (l m) z = seg (next_of I g) h (l m) z" if "m < n_nodes g" "m \<noteq> n" for m h z
  proof (rule seg_cong)
    fix x assume "x \<in> set (l m)"
    then have "end_of I T g x = int m" using D(4) [OF that(1), of x] by simp
    moreover have "end_of I T g (last (l n)) = int n" using D(4) [OF n(1), of "last (l n)"] y by simp
    ultimately have "x \<noteq> last (l n)" using that(2) by auto
    then show "next_of I g' x = next_of I g x" by (simp add: g'(3))
  qed
  have here: "seg (next_of I g') (head_at I g n) (l n) k"
    unfolding g'(3) by (rule seg_new_end [OF D(1) [OF n(1)] n(2) D(3) [OF n(1)]])
  have ends: "head_at I g' = head_at I g" "tail_at I g' = tail_at I g" using g'(2) by (cases I; simp add: fun_eq_iff)+
  have e: "end_of I T g' a = end_of I T g a" if "a < n_arcs g" for a using that g'(1) by (cases I) (simp_all add: same_data_def)
  have P: "last (l n) \<notin> P" using y D(4) [OF n(1)] by blast
  have len: "n_arcs g' = n_arcs g" "n_nodes g' = n_nodes g" using g'(1) by (simp_all add: same_data_def)
  show ?thesis
  proof (rule list_invI, unfold len ends)
    show "seg (next_of I g') (head_at I g m) (l m) ((e(n := k)) m)" if "m < n_nodes g" for m
      using D(1) [OF that] here other [OF that] by (cases "m = n") simp_all
    show "a \<in> set (l m) \<longleftrightarrow> a < n_arcs g \<and> a \<notin> P \<and> end_of I T g' a = int m" if "m < n_nodes g" for m a
      using D(4) [OF that, of a] e [of a] by auto
    show "next_of I g' a = invalid_arc" if "a \<in> P" for a using D(7) [OF that] P that by (auto simp: g'(3))
    show "end_of I T g' a < int (n_nodes g)" if "a < n_arcs g" "a \<notin> P" for a using D(8) [OF that] e that by simp
  qed (use D(2,3,5,6) in simp_all)
qed

text \<open>The tail is set to the pending arc that the last link leads to.\<close>

lemma list_inv_set_tail:
  assumes inv: "list_inv g l e T P I" and n: "n < n_nodes g" "e n = int k" "k \<in> P" "end_of I T g k = int n"
    and g': "same_data g g'" "m_arcs g' = m_arcs g" "head_at I g' = head_at I g" "tail_at I g' = (tail_at I g)(n := int k)"
  shows "list_inv g' (l(n := l n @ [k])) (e(n := invalid_arc)) T (P - {k}) I"
proof -
  note D = list_invD [OF inv]
  have k: "k < n_arcs g" "next_of I g k = invalid_arc" using D(6,7) n(3) by auto
  have nx: "next_of I g' = next_of I g" "end_of I T g' = end_of I T g" using g'(2) by (cases I; simp add: fun_eq_iff)+
  have notin: "m < n_nodes g \<Longrightarrow> k \<notin> set (l m)" for m using D(4) n(3) by blast
  have len: "n_arcs g' = n_arcs g" "n_nodes g' = n_nodes g" using g'(1) by (simp_all add: same_data_def)
  show ?thesis
  proof (rule list_invI, unfold len nx g'(3,4))
    show "seg (next_of I g) (head_at I g m) ((l(n := l n @ [k])) m) ((e(n := invalid_arc)) m)" if "m < n_nodes g" for m
      using D(1) [OF that] n(2) k(2) by (cases "m = n") simp_all
    show "((tail_at I g)(n := int k)) m = int (last ((l(n := l n @ [k])) m))" if "m < n_nodes g" "(l(n := l n @ [k])) m \<noteq> []" for m
      using D(2) [OF that(1)] that(2) by (cases "m = n") simp_all
    show "distinct ((l(n := l n @ [k])) m)" if "m < n_nodes g" for m using D(3) [OF that] notin [OF that] by (cases "m = n") simp_all
    show "a \<in> set ((l(n := l n @ [k])) m) \<longleftrightarrow> a < n_arcs g \<and> a \<notin> P - {k} \<and> end_of I T g a = int m" if "m < n_nodes g" for m a
      using D(4) [OF that, of a] n(4) k(1) notin [OF that] by (cases "m = n"; cases "a = k") simp_all
    show "(l(n := l n @ [k])) m \<noteq> []" if "m < n_nodes g" "I = It_in" for m using D(5) [OF that] by (cases "m = n") simp_all
    show "end_of I T g a < int (n_nodes g)" if "a < n_arcs g" "a \<notin> P - {k}" for a using D(8) [of a] that n by (cases "a = k") simp_all
  qed (use D(6,7) in simp_all)
qed

text \<open>The tail and the head of a list that is empty.\<close>

lemma list_inv_first_tail:
  assumes inv: "list_inv g l e T P I" and n: "l n = []"
    and g': "same_data g g'" "m_arcs g' = m_arcs g" "head_at I g' = head_at I g" "tail_at I g' = (tail_at I g)(n := k)"
  shows "list_inv g' l e T P I"
proof -
  note D = list_invD [OF inv]
  have nx: "next_of I g' = next_of I g" "end_of I T g' = end_of I T g" using g'(2) by (cases I; simp add: fun_eq_iff)+
  have len: "n_arcs g' = n_arcs g" "n_nodes g' = n_nodes g" using g'(1) by (simp_all add: same_data_def)
  show ?thesis
  proof (rule list_invI, unfold len nx g'(3,4))
    show "((tail_at I g)(n := k)) m = int (last (l m))" if "m < n_nodes g" "l m \<noteq> []" for m
      using D(2) [OF that] n that by (cases "m = n") simp_all
    show "a \<in> set (l m) \<longleftrightarrow> a < n_arcs g \<and> a \<notin> P \<and> end_of I T g a = int m" if "m < n_nodes g" for m a using D(4) [OF that] .
  qed (use D(1,3,5,6,7,8) in simp_all)
qed

lemma list_inv_head_after_tail:
  assumes inv: "list_inv g l e T P It_out" and n: "n < n_nodes g" "l n = []" "tail_at It_out g n = int k" "k \<in> P" "end_of It_out T g k = int n"
    and g': "same_data g g'" "m_arcs g' = m_arcs g" "head_at It_out g' = (head_at It_out g)(n := int k)" "tail_at It_out g' = tail_at It_out g"
  shows "list_inv g' (l(n := [k])) (e(n := invalid_arc)) T (P - {k}) It_out"
proof -
  note D = list_invD [OF inv]
  have k: "k < n_arcs g" "next_of It_out g k = invalid_arc" using D(6,7) n(4) by auto
  have nx: "next_of It_out g' = next_of It_out g" "end_of It_out T g' = end_of It_out T g" using g'(2) by (simp_all add: fun_eq_iff)
  have notin: "m < n_nodes g \<Longrightarrow> k \<notin> set (l m)" for m using D(4) n(4) by blast
  have len: "n_arcs g' = n_arcs g" "n_nodes g' = n_nodes g" using g'(1) by (simp_all add: same_data_def)
  show ?thesis
  proof (rule list_invI, unfold len nx g'(3,4))
    show "seg (next_of It_out g) (((head_at It_out g)(n := int k)) m) ((l(n := [k])) m) ((e(n := invalid_arc)) m)" if "m < n_nodes g" for m
      using D(1) [OF that] k(2) by (cases "m = n") simp_all
    show "tail_at It_out g m = int (last ((l(n := [k])) m))" if "m < n_nodes g" "(l(n := [k])) m \<noteq> []" for m
      using D(2) [OF that(1)] that(2) n(3) by (cases "m = n") simp_all
    show "distinct ((l(n := [k])) m)" if "m < n_nodes g" for m using D(3) [OF that] by (cases "m = n") simp_all
    show "a \<in> set ((l(n := [k])) m) \<longleftrightarrow> a < n_arcs g \<and> a \<notin> P - {k} \<and> end_of It_out T g a = int m" if "m < n_nodes g" for m a
      using D(4) [OF that, of a] D(4) [OF n(1), of a] n(2,5) k(1) notin [OF that] by (cases "m = n"; cases "a = k") simp_all
    show "end_of It_out T g a < int (n_nodes g)" if "a < n_arcs g" "a \<notin> P - {k}" for a using D(8) [of a] that n by (cases "a = k") simp_all
  qed (use D(6,7) in simp_all)
qed

lemma list_inv_head_first:
  assumes inv: "list_inv g l e T P It_out" and n: "n < n_nodes g" "l n = []"
    and g': "same_data g g'" "m_arcs g' = m_arcs g" "head_at It_out g' = (head_at It_out g)(n := k)" "tail_at It_out g' = tail_at It_out g"
  shows "list_inv g' l (e(n := k)) T P It_out"
proof -
  note D = list_invD [OF inv]
  have nx: "next_of It_out g' = next_of It_out g" "end_of It_out T g' = end_of It_out T g" using g'(2) by (simp_all add: fun_eq_iff)
  have len: "n_arcs g' = n_arcs g" "n_nodes g' = n_nodes g" using g'(1) by (simp_all add: same_data_def)
  show ?thesis
  proof (rule list_invI, unfold len nx g'(3,4))
    show "seg (next_of It_out g) (((head_at It_out g)(n := k)) m) (l m) ((e(n := k)) m)" if "m < n_nodes g" for m
      using D(1) [OF that] n(2) by (cases "m = n") simp_all
    show "a \<in> set (l m) \<longleftrightarrow> a < n_arcs g \<and> a \<notin> P \<and> end_of It_out T g a = int m" if "m < n_nodes g" for m a using D(4) [OF that] .
  qed (use D(2,3,6,7,8) in simp_all)
qed

text \<open>A new node, whose in-list is the new arc.\<close>

lemma list_inv_emplace_node_in:
  assumes inv: "list_inv g l e T P It_in" and k: "k \<in> P"
  shows "list_inv (g\<lparr>m_nodes := m_nodes g @ [NodeType_arc (int k) dn]\<rparr>) (l(n_nodes g := [k])) (e(n_nodes g := invalid_arc))
    (T(k := int (n_nodes g))) (P - {k}) It_in"
proof -
  note D = list_invD [OF inv]
  let ?N = "n_nodes g" and ?g = "g\<lparr>m_nodes := m_nodes g @ [NodeType_arc (int k) dn]\<rparr>"
  have notin: "m < ?N \<Longrightarrow> k \<notin> set (l m)" for m using D(4) k by blast
  have lt: "a < n_arcs g \<Longrightarrow> a \<notin> P \<Longrightarrow> T a < int ?N" for a using D(8) [of a] by simp
  have nx: "next_of It_in ?g = next_of It_in g" by (simp add: fun_eq_iff)
  have old: "head_at It_in ?g m = (if m = ?N then int k else head_at It_in g m)" "tail_at It_in ?g m = (if m = ?N then int k else tail_at It_in g m)"
    if "m < n_nodes ?g" for m using that by (auto simp: nth_append NodeType_arc_def)
  show ?thesis
  proof (rule list_invI)
    show "seg (next_of It_in ?g) (head_at It_in ?g m) ((l(?N := [k])) m) ((e(?N := invalid_arc)) m)" if "m < n_nodes ?g" for m
      using D(1) [of m] D(7) [OF k] that unfolding nx old [OF that] by (cases "m = ?N") simp_all
    show "tail_at It_in ?g m = int (last ((l(?N := [k])) m))" if "m < n_nodes ?g" "(l(?N := [k])) m \<noteq> []" for m
      using D(2) [of m] that(1,2) unfolding old [OF that(1)] by (cases "m = ?N") simp_all
    show "distinct ((l(?N := [k])) m)" if "m < n_nodes ?g" for m using D(3) [of m] that by (cases "m = ?N") simp_all
    show "a \<in> set ((l(?N := [k])) m) \<longleftrightarrow> a < n_arcs ?g \<and> a \<notin> P - {k} \<and> end_of It_in (T(k := int ?N)) ?g a = int m"
      if "m < n_nodes ?g" for m a
    proof (cases "m = ?N")
      case True
      then show ?thesis using lt [of a] k D(6) [of k] by (cases "a = k") auto
    next
      case False
      with that have m: "m < ?N" by simp
      then show ?thesis using D(4) [OF m, of a] notin [OF m] by (cases "a = k") auto
    qed
    show "(l(?N := [k])) m \<noteq> []" if "m < n_nodes ?g" for m using D(5) [of m] that by (cases "m = ?N") simp_all
    show "end_of It_in (T(k := int ?N)) ?g a < int (n_nodes ?g)" if "a < n_arcs ?g" "a \<notin> P - {k}" for a using lt [of a] that by (cases "a = k") auto
  qed (use D(6,7) nx in simp_all)
qed

lemma list_inv_emplace_node_out:
  assumes inv: "list_inv g l e T P It_out"
  shows "list_inv (g\<lparr>m_nodes := m_nodes g @ [NodeType_arc a0 dn]\<rparr>) (l(n_nodes g := [])) (e(n_nodes g := invalid_arc)) T' P It_out"
proof -
  note D = list_invD [OF inv]
  let ?N = "n_nodes g" and ?g = "g\<lparr>m_nodes := m_nodes g @ [NodeType_arc a0 dn]\<rparr>"
  have lt: "a < n_arcs g \<Longrightarrow> a \<notin> P \<Longrightarrow> source (m_arcs g ! a) < int ?N" for a using D(8) [of a] by simp
  have nx: "next_of It_out ?g = next_of It_out g" by (simp add: fun_eq_iff)
  have old: "head_at It_out ?g m = (if m = ?N then invalid_arc else head_at It_out g m)" "m < ?N \<Longrightarrow> tail_at It_out ?g m = tail_at It_out g m"
    if "m < n_nodes ?g" for m using that by (auto simp: nth_append NodeType_arc_def)
  show ?thesis
  proof (rule list_invI)
    show "seg (next_of It_out ?g) (head_at It_out ?g m) ((l(?N := [])) m) ((e(?N := invalid_arc)) m)" if "m < n_nodes ?g" for m
      using D(1) [of m] that unfolding nx old(1) [OF that] by (cases "m = ?N") simp_all
    show "tail_at It_out ?g m = int (last ((l(?N := [])) m))" if "m < n_nodes ?g" "(l(?N := [])) m \<noteq> []" for m
      using D(2) [of m] that old(2) [OF that(1)] by (cases "m = ?N") (simp_all del: tail_at.simps)
    show "distinct ((l(?N := [])) m)" if "m < n_nodes ?g" for m using D(3) [of m] that by (cases "m = ?N") simp_all
    show "a \<in> set ((l(?N := [])) m) \<longleftrightarrow> a < n_arcs ?g \<and> a \<notin> P \<and> end_of It_out T' ?g a = int m" if "m < n_nodes ?g" for m a
    proof (cases "m = ?N")
      case True
      then show ?thesis using lt [of a] by auto
    next
      case False
      with that have m: "m < ?N" by simp
      then show ?thesis using D(4) [OF m, of a] by auto
    qed
    show "end_of It_out T' ?g a < int (n_nodes ?g)" if "a < n_arcs ?g" "a \<notin> P" for a using lt [of a] that by auto
  qed (use D(6,7) nx in simp_all)
qed

end
