(* ===== verification/Rooted_Digraph_Threads_Inv.thy ===== *)
theory Rooted_Digraph_Threads_Inv
  imports Rooted_Digraph_Threads_Lists
begin

text \<open>
  The invariant of the threads: which locks, arcs and nodes each of them owns, and what it knows of the fields that its locks protect.
\<close>

section \<open>What a thread owns\<close>

fun req_node :: "('a, 'n) request \<Rightarrow> 'n option" where
  "req_node (Add_arc s t d) = None"
| "req_node (Add_node s da dn) = Some dn"

fun arc_of :: "('a, 'n) thread \<Rightarrow> index_t option" where
  "arc_of Idle = None"
| "arc_of (Called r) = None"
| "arc_of (In_lock_node r a) = Some a"
| "arc_of (In_lock_arc r a) = Some a"
| "arc_of (In_next r a x) = Some a"
| "arc_of (In_tail r a x) = Some a"
| "arc_of (In_unlock_arc r a x) = Some a"
| "arc_of (In_unlock_node r a) = Some a"
| "arc_of (New_node r a) = Some a"
| "arc_of (New_set r a t) = Some a"
| "arc_of (New_unlock r a t) = Some a"
| "arc_of (Out_lock_node r a t) = Some a"
| "arc_of (Out_test r a t) = Some a"
| "arc_of (Out_head r a t) = Some a"
| "arc_of (Out_new_tail r a t) = Some a"
| "arc_of (Out_lock_arc r a t) = Some a"
| "arc_of (Out_next r a t x) = Some a"
| "arc_of (Out_tail r a t x) = Some a"
| "arc_of (Out_unlock_arc r a t x) = Some a"
| "arc_of (Out_unlock_node r a t) = Some a"

text \<open>The new node of \<^verbatim>\<open>addNode\<close>.\<close>

definition new_node_of :: "('a, 'n) request \<Rightarrow> index_t \<Rightarrow> index_t option" where
  "new_node_of r t = (if req_node r = None then None else Some t)"

fun node_of :: "('a, 'n) thread \<Rightarrow> index_t option" where
  "node_of (New_set r a t) = new_node_of r t"
| "node_of (New_unlock r a t) = new_node_of r t"
| "node_of (Out_lock_node r a t) = new_node_of r t"
| "node_of (Out_test r a t) = new_node_of r t"
| "node_of (Out_head r a t) = new_node_of r t"
| "node_of (Out_new_tail r a t) = new_node_of r t"
| "node_of (Out_lock_arc r a t) = new_node_of r t"
| "node_of (Out_next r a t x) = new_node_of r t"
| "node_of (Out_tail r a t x) = new_node_of r t"
| "node_of (Out_unlock_arc r a t x) = new_node_of r t"
| "node_of (Out_unlock_node r a t) = new_node_of r t"
| "node_of p = None"

text \<open>The arc that is not on the list of its node yet; the node and arc for which the last link is set and the tail is not; the arc
  whose ends are not set.\<close>

fun pending :: "it_type \<Rightarrow> ('a, 'n) thread \<Rightarrow> index_t option" where
  "pending It_in (In_lock_node r a) = Some a"
| "pending It_in (In_lock_arc r a) = Some a"
| "pending It_in (In_next r a x) = Some a"
| "pending It_in (In_tail r a x) = Some a"
| "pending It_in (New_node r a) = Some a"
| "pending It_in p = None"
| "pending It_out (Out_unlock_arc r a t x) = None"
| "pending It_out (Out_unlock_node r a t) = None"
| "pending It_out p = arc_of p"

fun mid :: "it_type \<Rightarrow> ('a, 'n) thread \<Rightarrow> (index_t \<times> index_t) option" where
  "mid It_in (In_tail r a x) = Some (req_target r, a)"
| "mid It_out (Out_tail r a t x) = Some (req_source r, a)"
| "mid It_out (Out_new_tail r a t) = Some (req_source r, a)"
| "mid I p = None"

fun unset :: "('a, 'n) thread \<Rightarrow> index_t option" where
  "unset (New_node r a) = Some a"
| "unset (New_set r a t) = Some a"
| "unset p = None"

fun holds :: "('a, 'n) thread \<Rightarrow> lock_id set" where
  "holds (In_lock_arc r a) = {NodeLock (req_target r)}"
| "holds (In_next r a x) = {NodeLock (req_target r), ArcLock x}"
| "holds (In_tail r a x) = {NodeLock (req_target r), ArcLock x}"
| "holds (In_unlock_arc r a x) = {NodeLock (req_target r), ArcLock x}"
| "holds (In_unlock_node r a) = {NodeLock (req_target r)}"
| "holds (New_node r a) = {ArcLock a}"
| "holds (New_set r a t) = {ArcLock a}"
| "holds (New_unlock r a t) = {ArcLock a}"
| "holds (Out_test r a t) = {NodeLock (req_source r)}"
| "holds (Out_head r a t) = {NodeLock (req_source r)}"
| "holds (Out_new_tail r a t) = {NodeLock (req_source r)}"
| "holds (Out_lock_arc r a t) = {NodeLock (req_source r)}"
| "holds (Out_next r a t x) = {NodeLock (req_source r), ArcLock x}"
| "holds (Out_tail r a t x) = {NodeLock (req_source r), ArcLock x}"
| "holds (Out_unlock_arc r a t x) = {NodeLock (req_source r), ArcLock x}"
| "holds (Out_unlock_node r a t) = {NodeLock (req_source r)}"
| "holds p = {}"

section \<open>What a thread knows\<close>

definition arc_in :: "('a, 'n) tree \<Rightarrow> index_t \<Rightarrow> bool" where
  "arc_in g a \<longleftrightarrow> 0 \<le> a \<and> nat a < n_arcs g"

definition new_arc_ok :: "('a, 'n) tree \<Rightarrow> ('a, 'n) request \<Rightarrow> index_t \<Rightarrow> bool" where
  "new_arc_ok g r a \<longleftrightarrow> arc_in g a \<and> a_data (m_arcs g ! nat a) = req_data r"

definition new_node_ok :: "('a, 'n) tree \<Rightarrow> ('a, 'n) request \<Rightarrow> index_t \<Rightarrow> index_t \<Rightarrow> bool" where
  "new_node_ok g r a t \<longleftrightarrow> node_in g t \<and>
    (case req_node r of None \<Rightarrow> t = req_target r
     | Some dn \<Rightarrow> n_data (m_nodes g ! nat t) = dn \<and> head_in (m_nodes g ! nat t) = a)"

definition link_made :: "('a, 'n) tree \<Rightarrow> (nat \<Rightarrow> index_t) \<Rightarrow> ('a, 'n) request \<Rightarrow> index_t \<Rightarrow> index_t \<Rightarrow> bool" where
  "link_made g T r a t \<longleftrightarrow> new_arc_ok g r a \<and> new_node_ok g r a t \<and>
    source (m_arcs g ! nat a) = req_source r \<and> target (m_arcs g ! nat a) = t \<and> T (nat a) = t"

definition arc_made :: "('a, 'n) tree \<Rightarrow> (nat \<Rightarrow> index_t) \<Rightarrow> ('a, 'n) request \<Rightarrow> index_t \<Rightarrow> bool" where
  "arc_made g T r a \<longleftrightarrow> req_node r = None \<and> link_made g T r a (req_target r)"

fun local_ok :: "('a, 'n) tree \<Rightarrow> (nat \<Rightarrow> index_t) \<Rightarrow> ('a, 'n) thread \<Rightarrow> bool" where
  "local_ok g T Idle \<longleftrightarrow> True"
| "local_ok g T (Called r) \<longleftrightarrow> request_ok g r"
| "local_ok g T (In_lock_node r a) \<longleftrightarrow> request_ok g r \<and> arc_made g T r a"
| "local_ok g T (In_lock_arc r a) \<longleftrightarrow> request_ok g r \<and> arc_made g T r a"
| "local_ok g T (In_next r a x) \<longleftrightarrow> request_ok g r \<and> arc_made g T r a \<and> arc_in g x"
| "local_ok g T (In_tail r a x) \<longleftrightarrow> request_ok g r \<and> arc_made g T r a \<and> arc_in g x"
| "local_ok g T (In_unlock_arc r a x) \<longleftrightarrow> request_ok g r \<and> arc_made g T r a \<and> arc_in g x"
| "local_ok g T (In_unlock_node r a) \<longleftrightarrow> request_ok g r \<and> arc_made g T r a"
| "local_ok g T (New_node r a) \<longleftrightarrow> request_ok g r \<and> req_node r \<noteq> None \<and> new_arc_ok g r a"
| "local_ok g T (New_set r a t) \<longleftrightarrow> request_ok g r \<and> req_node r \<noteq> None \<and> new_arc_ok g r a \<and> new_node_ok g r a t \<and> T (nat a) = t"
| "local_ok g T (New_unlock r a t) \<longleftrightarrow> request_ok g r \<and> link_made g T r a t"
| "local_ok g T (Out_lock_node r a t) \<longleftrightarrow> request_ok g r \<and> link_made g T r a t"
| "local_ok g T (Out_test r a t) \<longleftrightarrow> request_ok g r \<and> link_made g T r a t"
| "local_ok g T (Out_head r a t) \<longleftrightarrow> request_ok g r \<and> link_made g T r a t \<and>
     head_out (m_nodes g ! nat (req_source r)) = invalid_arc \<and> tail_out (m_nodes g ! nat (req_source r)) = a"
| "local_ok g T (Out_new_tail r a t) \<longleftrightarrow> request_ok g r \<and> link_made g T r a t"
| "local_ok g T (Out_lock_arc r a t) \<longleftrightarrow> request_ok g r \<and> link_made g T r a t \<and> head_out (m_nodes g ! nat (req_source r)) \<noteq> invalid_arc"
| "local_ok g T (Out_next r a t x) \<longleftrightarrow> request_ok g r \<and> link_made g T r a t \<and> arc_in g x \<and>
     head_out (m_nodes g ! nat (req_source r)) \<noteq> invalid_arc"
| "local_ok g T (Out_tail r a t x) \<longleftrightarrow> request_ok g r \<and> link_made g T r a t \<and> arc_in g x"
| "local_ok g T (Out_unlock_arc r a t x) \<longleftrightarrow> request_ok g r \<and> link_made g T r a t \<and> arc_in g x"
| "local_ok g T (Out_unlock_node r a t) \<longleftrightarrow> request_ok g r \<and> link_made g T r a t"

lemma request_ok_source: "request_ok g r \<Longrightarrow> node_in g (req_source r)"
  by (cases r) simp_all

lemma arc_in_int: "arc_in g a \<Longrightarrow> \<exists>k < n_arcs g. a = int k"
  by (auto simp: arc_in_def intro!: exI [of _ "nat a"])

section \<open>Tickets\<close>

text \<open>The numbers from \<open>lo\<close> to \<open>hi\<close> are those of the operations that are done and those that the threads hold.\<close>

definition tickets :: "(nat \<Rightarrow> index_t option) \<Rightarrow> index_t list \<Rightarrow> nat \<Rightarrow> nat \<Rightarrow> bool" where
  "tickets own xs lo hi \<longleftrightarrow> lo \<le> hi \<and> distinct xs \<and> (\<forall>i j a. own i = Some a \<and> own j = Some a \<longrightarrow> i = j) \<and> (\<forall>i a. own i = Some a \<longrightarrow> a \<notin> set xs) \<and>
    set xs \<union> {a. \<exists>i. own i = Some a} = {int lo..<int hi}"

lemma ticketsD:
  assumes "tickets own xs lo hi"
  shows "own i = Some a \<Longrightarrow> own j = Some a \<Longrightarrow> i = j" "own i = Some a \<Longrightarrow> a \<notin> set xs"
    "own i = Some a \<Longrightarrow> int lo \<le> a \<and> a < int hi" "a \<in> set xs \<Longrightarrow> int lo \<le> a \<and> a < int hi"
  using assms unfolding tickets_def by (blast, blast, (metis (mono_tags, lifting) UnCI mem_Collect_eq atLeastLessThan_iff)+)

lemma tickets_take:
  assumes t: "tickets own xs lo hi" and "own i = None"
  shows "tickets (own(i := Some (int hi))) xs lo (Suc hi)"
proof -
  have new: "own j \<noteq> Some (int hi)" "int hi \<notin> set xs" for j using ticketsD(3) [OF t, of j "int hi"] ticketsD(4) [OF t, of "int hi"] by auto
  have "{a. \<exists>j. (own(i := Some (int hi))) j = Some a} = insert (int hi) {a. \<exists>j. own j = Some a}" using assms(2) by force
  moreover have "{int lo..<int (Suc hi)} = insert (int hi) {int lo..<int hi}" using t by (auto simp: tickets_def)
  ultimately have "set xs \<union> {a. \<exists>j. (own(i := Some (int hi))) j = Some a} = {int lo..<int (Suc hi)}" using t by (simp add: tickets_def)
  then show ?thesis using t new unfolding tickets_def by (auto split: if_splits)
qed

lemma tickets_give:
  assumes t: "tickets own xs lo hi" and i: "own i = Some a"
  shows "tickets (own(i := None)) (xs @ [a]) lo hi"
proof -
  have "insert a {b. \<exists>j. (own(i := None)) j = Some b} = {b. \<exists>j. own j = Some b}" using i by force
  moreover have "set (xs @ [a]) \<union> {b. \<exists>j. (own(i := None)) j = Some b} = set xs \<union> insert a {b. \<exists>j. (own(i := None)) j = Some b}" by auto
  ultimately have "set (xs @ [a]) \<union> {b. \<exists>j. (own(i := None)) j = Some b} = {int lo..<int hi}" using t by (simp add: tickets_def)
  moreover have "own j = Some a \<Longrightarrow> j = i" "a \<notin> set xs" for j using ticketsD(1,2) [OF t] i by blast+
  ultimately show ?thesis using t unfolding tickets_def by (auto split: if_splits)
qed

section \<open>The invariant\<close>

definition locks_ok :: "(lock_id \<Rightarrow> nat option) \<Rightarrow> (nat \<Rightarrow> ('a, 'n) thread) \<Rightarrow> bool" where
  "locks_ok lk th \<longleftrightarrow> (\<forall>l i. lk l = Some i \<longleftrightarrow> l \<in> holds (th i))"

definition pendings :: "(nat \<Rightarrow> ('a, 'n) thread) \<Rightarrow> it_type \<Rightarrow> nat set" where
  "pendings th I = {a. \<exists>i. pending I (th i) = Some (int a)}"

definition ends_ok :: "nat \<Rightarrow> (nat \<Rightarrow> ('a, 'n) thread) \<Rightarrow> (it_type \<Rightarrow> nat \<Rightarrow> index_t) \<Rightarrow> bool" where
  "ends_ok N th E \<longleftrightarrow> (\<forall>I n. n < N \<longrightarrow> (\<forall>i a. mid I (th i) = Some (int n, a) \<longrightarrow> E I n = a) \<and>
     ((\<forall>i a. mid I (th i) \<noteq> Some (int n, a)) \<longrightarrow> E I n = invalid_arc))"

definition targets_ok :: "('a, 'n) tree \<Rightarrow> (nat \<Rightarrow> ('a, 'n) thread) \<Rightarrow> (nat \<Rightarrow> index_t) \<Rightarrow> bool" where
  "targets_ok g th T \<longleftrightarrow> T 0 = 0 \<and>
    (\<forall>a < n_arcs g. 0 < a \<longrightarrow> (\<forall>i. unset (th i) \<noteq> Some (int a)) \<longrightarrow> T a = target (m_arcs g ! a))"

definition base_ok :: "('a, 'n) tree \<Rightarrow> ('a, 'n) tree \<Rightarrow> bool" where
  "base_ok g0 g \<longleftrightarrow> 0 < n_arcs g0 \<and> n_arcs g0 \<le> n_arcs g \<and> n_nodes g0 \<le> n_nodes g \<and> root_arc g = root_arc g0 \<and> root_node g = root_node g0 \<and>
    (\<forall>a < n_arcs g0. source (m_arcs g ! a) = source (m_arcs g0 ! a) \<and> target (m_arcs g ! a) = target (m_arcs g0 ! a) \<and>
       a_data (m_arcs g ! a) = a_data (m_arcs g0 ! a)) \<and>
    (\<forall>n < n_nodes g0. n_data (m_nodes g ! n) = n_data (m_nodes g0 ! n) \<and> head_in (m_nodes g ! n) = head_in (m_nodes g0 ! n))"

definition done_arcs :: "(('a, 'n) request \<times> link) list \<Rightarrow> index_t list" where
  "done_arcs xs = map (fst \<circ> snd) xs"

definition done_nodes :: "(('a, 'n) request \<times> link) list \<Rightarrow> index_t list" where
  "done_nodes xs = map (snd \<circ> snd) (filter (\<lambda>x. req_node (fst x) \<noteq> None) xs)"

definition conc_inv ::
  "('a, 'n) tree \<Rightarrow> ('a, 'n) threads \<Rightarrow> (it_type \<Rightarrow> nat \<Rightarrow> nat list) \<Rightarrow> (it_type \<Rightarrow> nat \<Rightarrow> index_t) \<Rightarrow> (nat \<Rightarrow> index_t) \<Rightarrow> bool"
where
  "conc_inv g0 c L E T \<longleftrightarrow>
    (\<forall>I. list_inv (c_tree c) (L I) (E I) T (pendings (c_threads c) I) I) \<and> ends_ok (n_nodes (c_tree c)) (c_threads c) E \<and>
    locks_ok (c_locks c) (c_threads c) \<and> (\<forall>i. local_ok (c_tree c) T (c_threads c i)) \<and> targets_ok (c_tree c) (c_threads c) T \<and>
    base_ok g0 (c_tree c) \<and>
    tickets (\<lambda>i. arc_of (c_threads c i)) (done_arcs (c_done c)) (n_arcs g0) (n_arcs (c_tree c)) \<and>
    tickets (\<lambda>i. node_of (c_threads c i)) (done_nodes (c_done c)) (n_nodes g0) (n_nodes (c_tree c)) \<and>
    (\<forall>(r, a, t)\<in>set (c_done c). link_made (c_tree c) T r a t)"

lemma conc_invD:
  assumes "conc_inv g0 c L E T"
  shows "list_inv (c_tree c) (L I) (E I) T (pendings (c_threads c) I) I" "ends_ok (n_nodes (c_tree c)) (c_threads c) E"
    "locks_ok (c_locks c) (c_threads c)" "local_ok (c_tree c) T (c_threads c i)" "targets_ok (c_tree c) (c_threads c) T"
    "base_ok g0 (c_tree c)" "tickets (\<lambda>i. arc_of (c_threads c i)) (done_arcs (c_done c)) (n_arcs g0) (n_arcs (c_tree c))"
    "tickets (\<lambda>i. node_of (c_threads c i)) (done_nodes (c_done c)) (n_nodes g0) (n_nodes (c_tree c))"
    "\<forall>(r, a, t)\<in>set (c_done c). link_made (c_tree c) T r a t"
  using assms unfolding conc_inv_def by blast+

subsection \<open>What a step of another thread leaves alone\<close>

text \<open>Outside of the arc and the node locks of the thread \<open>p\<close>, which makes the step, the fields keep their values.\<close>

definition frame :: "('a, 'n) thread \<Rightarrow> ('a, 'n) tree \<Rightarrow> (nat \<Rightarrow> index_t) \<Rightarrow> ('a, 'n) tree \<Rightarrow> (nat \<Rightarrow> index_t) \<Rightarrow> bool" where
  "frame p g T g' T' \<longleftrightarrow> n_arcs g \<le> n_arcs g' \<and> n_nodes g \<le> n_nodes g' \<and>
    (\<forall>a < n_arcs g. arc_of p \<noteq> Some (int a) \<longrightarrow> source (m_arcs g' ! a) = source (m_arcs g ! a) \<and> target (m_arcs g' ! a) = target (m_arcs g ! a) \<and>
       T' a = T a) \<and>
    (\<forall>a < n_arcs g. a_data (m_arcs g' ! a) = a_data (m_arcs g ! a)) \<and>
    (\<forall>n < n_nodes g. n_data (m_nodes g' ! n) = n_data (m_nodes g ! n) \<and> head_in (m_nodes g' ! n) = head_in (m_nodes g ! n)) \<and>
    (\<forall>n < n_nodes g. NodeLock (int n) \<notin> holds p \<longrightarrow> head_out (m_nodes g' ! n) = head_out (m_nodes g ! n) \<and>
       tail_out (m_nodes g' ! n) = tail_out (m_nodes g ! n))"

lemma frame_refl: "frame p g T g T" by (simp add: frame_def)

lemma request_ok_mono: "n_nodes g \<le> n_nodes g' \<Longrightarrow> request_ok g r \<Longrightarrow> request_ok g' r"
  by (cases r) (auto simp: node_in_def nodeNum_def arena_size_def)

lemma frame_new_arc: "frame p g T g' T' \<Longrightarrow> new_arc_ok g r a \<Longrightarrow> new_arc_ok g' r a"
  by (auto simp: frame_def new_arc_ok_def arc_in_def)

lemma frame_new_node: "frame p g T g' T' \<Longrightarrow> new_node_ok g r a t \<Longrightarrow> new_node_ok g' r a t"
  by (auto simp: frame_def new_node_ok_def node_in_def nodeNum_def arena_size_def split: option.splits)

lemma frame_link:
  assumes "frame p g T g' T'" "arc_of p \<noteq> Some a" "link_made g T r a t"
  shows "link_made g' T' r a t"
proof -
  from assms(3) have "arc_in g a" by (simp add: link_made_def new_arc_ok_def)
  then obtain k where k: "k < n_arcs g" "a = int k" using arc_in_int by blast
  with assms frame_new_arc [OF assms(1)] frame_new_node [OF assms(1)] show ?thesis by (simp add: link_made_def frame_def)
qed

lemma frame_local:
  assumes f: "frame p g T g' T'" and q: "local_ok g T q"
    and arcs: "\<And>a. arc_of p = Some a \<Longrightarrow> arc_of q \<noteq> Some a" and locks: "\<And>l. l \<in> holds p \<Longrightarrow> l \<notin> holds q"
  shows "local_ok g' T' q"
proof -
  have r: "request_ok g r \<Longrightarrow> request_ok g' r" for r using request_ok_mono f by (auto simp: frame_def)
  have x: "arc_in g x \<Longrightarrow> arc_in g' x" for x using f by (auto simp: arc_in_def frame_def)
  have l: "link_made g' T' r a t" if "arc_of q = Some a" "link_made g T r a t" for r a t
    using frame_link [OF f _ that(2)] arcs that(1) by blast
  have m: "arc_made g' T' r a" if "arc_of q = Some a" "arc_made g T r a" for r a using l that by (simp add: arc_made_def)
  have h: "head_out (m_nodes g' ! nat (req_source r)) = head_out (m_nodes g ! nat (req_source r))"
    "tail_out (m_nodes g' ! nat (req_source r)) = tail_out (m_nodes g ! nat (req_source r))"
    if "NodeLock (req_source r) \<in> holds q" "request_ok g r" for r
  proof -
    have "node_in g (req_source r)" using that(2) by (rule request_ok_source)
    then obtain n where "req_source r = int n" "n < n_nodes g" by (rule node_in_obtain)
    with that(1) locks f show "head_out (m_nodes g' ! nat (req_source r)) = head_out (m_nodes g ! nat (req_source r))"
      "tail_out (m_nodes g' ! nat (req_source r)) = tail_out (m_nodes g ! nat (req_source r))" by (auto simp: frame_def)
  qed
  have T: "T' (nat a) = T (nat a)" if "arc_of q = Some a" "new_arc_ok g r a" for r a
  proof -
    from that(2) obtain k where "k < n_arcs g" "a = int k" using arc_in_int by (auto simp: new_arc_ok_def)
    with that(1) arcs f show ?thesis by (auto simp: frame_def)
  qed
  show ?thesis
    using q r x l m h T frame_new_arc [OF f] frame_new_node [OF f]
    by (cases q) (simp_all, blast)
qed

section \<open>Components of the invariant under a step\<close>

lemma locks_acquire:
  assumes "locks_ok lk th" "lk l = None" "holds q = insert l (holds (th i))"
  shows "locks_ok (lk(l := Some i)) (th(i := q))"
  using assms by (auto simp: locks_ok_def) (metis option.distinct(1))+

lemma locks_release:
  assumes "locks_ok lk th" "holds q = holds (th i) - {l}" "l \<in> holds (th i)"
  shows "locks_ok (lk(l := None)) (th(i := q))"
  using assms by (auto simp: locks_ok_def) (metis option.inject)+

lemma locks_same: "locks_ok lk th \<Longrightarrow> holds q = holds (th i) \<Longrightarrow> locks_ok lk (th(i := q))"
  by (auto simp: locks_ok_def)

lemma locks_unique: "locks_ok lk th \<Longrightarrow> l \<in> holds (th i) \<Longrightarrow> l \<in> holds (th j) \<Longrightarrow> i = j"
  unfolding locks_ok_def by (metis option.inject)

lemma mid_holds: "mid I p = Some (n, a) \<Longrightarrow> NodeLock n \<in> holds p"
  by (cases "(I, p)" rule: mid.cases) auto

text \<open>The thread that holds the lock of a node is the only one that can be between setting the link and setting the tail.\<close>

lemma ends_own:
  assumes "ends_ok N th E" "locks_ok lk th" "NodeLock (int n) \<in> holds (th i)" "n < N"
  shows "E I n = (case mid I (th i) of None \<Rightarrow> invalid_arc | Some (m, a) \<Rightarrow> if m = int n then a else invalid_arc)"
proof (cases "\<exists>a. mid I (th i) = Some (int n, a)")
  case True
  with assms(1,4) show ?thesis by (auto simp: ends_ok_def)
next
  case False
  have "mid I (th j) \<noteq> Some (int n, a)" for j a
    using False locks_unique [OF assms(2,3), of j] mid_holds [of I "th j" "int n" a] by blast
  with assms(1,4) have "E I n = invalid_arc" by (simp add: ends_ok_def)
  with False show ?thesis by (auto split: option.splits)
qed

lemma ends_same:
  assumes "ends_ok N th E" "\<And>I. mid I q = mid I (th i)"
  shows "ends_ok N (th(i := q)) E"
proof -
  have "mid I ((th(i := q)) j) = mid I (th j)" for I j using assms(2) by simp
  with assms(1) show ?thesis by (simp add: ends_ok_def)
qed

lemma ends_set:
  assumes e: "ends_ok N th E" and l: "locks_ok lk th" "NodeLock (int n) \<in> holds (th i)"
    and q: "\<And>I. I \<noteq> J \<Longrightarrow> mid I q = mid I (th i)" "\<And>m a. mid J (th i) = Some (m, a) \<Longrightarrow> m = int n"
      "mid J q = None \<and> b = invalid_arc \<or> mid J q = Some (int n, b)"
  shows "ends_ok N (th(i := q)) (E(J := (E J)(n := b)))"
proof -
  have other: "mid J (th j) \<noteq> Some (int n, a)" if "j \<noteq> i" for j a
    using that locks_unique [OF l, of j] mid_holds [of J "th j" "int n" a] by blast
  show ?thesis unfolding ends_ok_def
  proof (intro allI impI conjI)
    fix I m j a assume m: "m < N" "mid I ((th(i := q)) j) = Some (int m, a)"
    show "(E(J := (E J)(n := b))) I m = a"
      using m e q other [of j] by (cases "I = J"; cases "j = i"; cases "m = n") (auto simp: ends_ok_def)
  next
    fix I m assume m: "m < N" "\<forall>j a. mid I ((th(i := q)) j) \<noteq> Some (int m, a)"
    show "(E(J := (E J)(n := b))) I m = invalid_arc"
    proof (cases "I = J \<and> m = n")
      case True
      with m(2) q(3) show ?thesis by (auto dest: spec [of _ i])
    next
      case False
      have "mid I (th j) \<noteq> Some (int m, a)" for j a
        using m(2) [rule_format, of j a] q(1,2) False by (cases "j = i"; cases "I = J") auto
      with e m(1) have "E I m = invalid_arc" by (simp add: ends_ok_def)
      with False show ?thesis by auto
    qed
  qed
qed

lemma ends_grow:
  assumes "ends_ok N th E" "\<And>I. mid I q = None" "\<And>I. mid I (th i) = None" "\<And>i I n a. mid I (th i) = Some (n, a) \<Longrightarrow> n < int N"
  shows "ends_ok (Suc N) (th(i := q)) (\<lambda>I. (E I)(N := invalid_arc))"
proof -
  have "mid I ((th(i := q)) j) = mid I (th j)" for I j using assms(2,3) by simp
  with assms(1,4) show ?thesis by (fastforce simp: ends_ok_def less_Suc_eq)
qed

lemma targets_same:
  assumes "targets_ok g th T" "unset q = unset (th i)" "n_arcs g' = n_arcs g" "\<And>a. a < n_arcs g \<Longrightarrow> target (m_arcs g' ! a) = target (m_arcs g ! a)"
  shows "targets_ok g' (th(i := q)) T"
proof -
  have "unset ((th(i := q)) j) = unset (th j)" for j using assms(2) by simp
  with assms show ?thesis by (simp add: targets_ok_def)
qed

lemma base_mono: "base_ok g0 g \<Longrightarrow> same_data g g' \<Longrightarrow> base_ok g0 g'"
  by (auto simp: base_ok_def same_data_def)

lemma pending_arc: "pending I p = Some a \<Longrightarrow> arc_of p = Some a"
  by (cases "(I, p)" rule: pending.cases) auto

lemma pendings_upd:
  assumes "\<And>i j a. arc_of (th i) = Some a \<Longrightarrow> arc_of (th j) = Some a \<Longrightarrow> i = j"
  shows "pendings (th(i := q)) I = (pendings th I - {a. pending I (th i) = Some (int a)}) \<union> {a. pending I q = Some (int a)}"
proof (rule set_eqI)
  fix a
  have "pending I (th j) = Some (int a) \<Longrightarrow> pending I (th i) = Some (int a) \<Longrightarrow> j = i" for j using assms pending_arc by blast
  then show "a \<in> pendings (th(i := q)) I \<longleftrightarrow> a \<in> (pendings th I - {a. pending I (th i) = Some (int a)}) \<union> {a. pending I q = Some (int a)}"
    unfolding pendings_def mem_Collect_eq Un_iff Diff_iff by (metis fun_upd_apply)
qed

lemma pendings_same: "pending I q = pending I (th i) \<Longrightarrow> pendings (th(i := q)) I = pendings th I"
  unfolding pendings_def by (metis (no_types, opaque_lifting) fun_upd_apply)

lemma tickets_same: "tickets (\<lambda>i. f (th i)) xs lo hi \<Longrightarrow> f q = f (th i) \<Longrightarrow> tickets (\<lambda>j. f ((th(i := q)) j)) xs lo hi"
proof -
  assume "f q = f (th i)" "tickets (\<lambda>i. f (th i)) xs lo hi"
  moreover from this have "(\<lambda>j. f ((th(i := q)) j)) = (\<lambda>i. f (th i))" by (simp add: fun_eq_iff)
  ultimately show ?thesis by simp
qed

section \<open>A step\<close>

text \<open>What has to be shown of a step of thread \<open>i\<close>; the rest follows.\<close>

lemma conc_inv_step:
  assumes inv: "conc_inv g0 c L E T" and c': "c_threads c' = (c_threads c)(i := q)"
    and f: "frame (c_threads c i) (c_tree c) T (c_tree c') T'"
    and "\<And>I. list_inv (c_tree c') (L' I) (E' I) T' (pendings (c_threads c') I) I" "ends_ok (n_nodes (c_tree c')) (c_threads c') E'"
    and "locks_ok (c_locks c') (c_threads c')" and q: "local_ok (c_tree c') T' q"
    and "targets_ok (c_tree c') (c_threads c') T'" "base_ok g0 (c_tree c')"
    and "tickets (\<lambda>i. arc_of (c_threads c' i)) (done_arcs (c_done c')) (n_arcs g0) (n_arcs (c_tree c'))"
    and "tickets (\<lambda>i. node_of (c_threads c' i)) (done_nodes (c_done c')) (n_nodes g0) (n_nodes (c_tree c'))"
    and d: "\<And>r a t. (r, a, t) \<in> set (c_done c') \<Longrightarrow> (r, a, t) \<in> set (c_done c) \<or> link_made (c_tree c') T' r a t"
  shows "conc_inv g0 c' L' E' T'"
proof -
  note D = conc_invD [OF inv]
  have "local_ok (c_tree c') T' (c_threads c' j)" for j
  proof (cases "j = i")
    case False
    have "local_ok (c_tree c') T' (c_threads c j)"
      using frame_local [OF f D(4) [of j]] ticketsD(1) [OF D(7)] locks_unique [OF D(3)] False by metis
    with False show ?thesis by (simp add: c')
  qed (simp add: c' q)
  moreover have "link_made (c_tree c') T' r a t" if "(r, a, t) \<in> set (c_done c')" for r a t
  proof (cases "(r, a, t) \<in> set (c_done c)")
    case True
    then have "a \<in> set (done_arcs (c_done c))" by (force simp: done_arcs_def)
    then have "arc_of (c_threads c i) \<noteq> Some a" using ticketsD(2) [OF D(7)] by blast
    moreover have "link_made (c_tree c) T r a t" using D(9) True by auto
    ultimately show ?thesis by (rule frame_link [OF f])
  qed (use d that in blast)
  ultimately show ?thesis using assms unfolding conc_inv_def by blast
qed

end
