(* ===== verification/Rooted_Digraph_Threads_Step.thy ===== *)
theory Rooted_Digraph_Threads_Step
  imports Rooted_Digraph_Threads_Inv
begin

text \<open>Every step of a thread keeps the invariant, and none has undefined behaviour.\<close>

definition small :: "('a, 'n) tree \<Rightarrow> bool" where
  "small g \<longleftrightarrow> n_arcs g \<le> 2 ^ 31 \<and> n_nodes g \<le> 2 ^ 31"

definition step_fine :: "('a, 'n) tree \<Rightarrow> nat \<Rightarrow> ('a, 'n) threads \<Rightarrow> bool" where
  "step_fine g0 i c \<longleftrightarrow> (case thread_step i c of Fault \<Rightarrow> False | Blocked \<Rightarrow> True
     | Ok c' \<Rightarrow> small (c_tree c') \<longrightarrow> (\<exists>L E T. conc_inv g0 c' L E T))"

lemma goto_simps [simp]:
  "c_threads (goto i p c) = (c_threads c)(i := p)" "c_tree (goto i p c) = c_tree c" "c_locks (goto i p c) = c_locks c" "c_done (goto i p c) = c_done c"
  by (simp_all add: goto_def)

section \<open>Steps on locks\<close>

lemma lock_step:
  assumes inv: "conc_inv g0 c L E T" and c': "c_threads c' = (c_threads c)(i := q)" "c_tree c' = c_tree c" "c_done c' = c_done c"
    and q: "\<And>I. pending I q = pending I (c_threads c i)" "\<And>I. mid I q = mid I (c_threads c i)" "arc_of q = arc_of (c_threads c i)"
      "node_of q = node_of (c_threads c i)" "unset q = unset (c_threads c i)" "local_ok (c_tree c) T q"
    and l: "locks_ok (c_locks c') (c_threads c')"
  shows "conc_inv g0 c' L E T"
proof -
  note D = conc_invD [OF inv]
  show ?thesis
    by (rule conc_inv_step [OF inv c'(1)], unfold c')
      (use frame_refl D(1,6) q l c' ends_same [where th = "c_threads c" and i = i, OF D(2) q(2)] pendings_same [where th = "c_threads c", OF q(1)] targets_same [where th = "c_threads c", OF D(5) q(5)]
        tickets_same [where f = arc_of and th = "c_threads c", OF D(7) q(3)] tickets_same [where f = node_of and th = "c_threads c", OF D(8) q(4)] in simp_all)
qed

lemma both_types: "f It_in = h It_in \<Longrightarrow> f It_out = h It_out \<Longrightarrow> f I = h I"
  by (cases I) simp_all

lemma acquire_fine:
  assumes inv: "conc_inv g0 c L E T" and s: "thread_step i c = acquire i l q c" and h: "holds q = insert l (holds (c_threads c i))"
    and q: "pending It_in q = pending It_in (c_threads c i)" "pending It_out q = pending It_out (c_threads c i)"
      "mid It_in q = mid It_in (c_threads c i)" "mid It_out q = mid It_out (c_threads c i)" "arc_of q = arc_of (c_threads c i)"
      "node_of q = node_of (c_threads c i)" "unset q = unset (c_threads c i)" "local_ok (c_tree c) T q"
  shows "step_fine g0 i c"
proof (cases "c_locks c l = None")
  case True
  let ?c = "goto i q (c\<lparr>c_locks := (c_locks c)(l := Some i)\<rparr>)"
  have "conc_inv g0 ?c L E T"
    by (rule lock_step [OF inv _ _ _ both_types [where f = "\<lambda>I. pending I q" and h = "\<lambda>I. pending I (c_threads c i)", OF q(1,2)] both_types [where f = "\<lambda>I. mid I q" and h = "\<lambda>I. mid I (c_threads c i)", OF q(3,4)] q(5-8)]) (use locks_acquire [where th = "c_threads c", OF conc_invD(3) [OF inv] True h] in simp_all)
  with True s show ?thesis by (auto simp: step_fine_def acquire_def)
next
  case False
  with s have "thread_step i c = Blocked" by (auto simp: acquire_def)
  then show ?thesis by (simp add: step_fine_def)
qed

lemma release_fine:
  assumes inv: "conc_inv g0 c L E T" and s: "thread_step i c = release i l q c" and h: "l \<in> holds (c_threads c i)" "holds q = holds (c_threads c i) - {l}"
    and q: "pending It_in q = pending It_in (c_threads c i)" "pending It_out q = pending It_out (c_threads c i)"
      "mid It_in q = mid It_in (c_threads c i)" "mid It_out q = mid It_out (c_threads c i)" "arc_of q = arc_of (c_threads c i)"
      "node_of q = node_of (c_threads c i)" "unset q = unset (c_threads c i)" "local_ok (c_tree c) T q"
  shows "step_fine g0 i c"
proof -
  let ?c = "goto i q (c\<lparr>c_locks := (c_locks c)(l := None)\<rparr>)"
  have "conc_inv g0 ?c L E T"
    by (rule lock_step [OF inv _ _ _ both_types [where f = "\<lambda>I. pending I q" and h = "\<lambda>I. pending I (c_threads c i)", OF q(1,2)] both_types [where f = "\<lambda>I. mid I q" and h = "\<lambda>I. mid I (c_threads c i)", OF q(3,4)] q(5-8)]) (use locks_release [where th = "c_threads c", OF conc_invD(3) [OF inv] h(2,1)] in simp_all)
  moreover have "c_locks c l = Some i" using conc_invD(3) [OF inv] h(1) by (simp add: locks_ok_def)
  ultimately show ?thesis using s by (auto simp: step_fine_def release_def)
qed

section \<open>Steps on links\<close>

lemma same_frame:
  assumes "same_data g g'"
    and "\<And>n. n < n_nodes g \<Longrightarrow> NodeLock (int n) \<notin> holds p \<Longrightarrow> head_out (m_nodes g' ! n) = head_out (m_nodes g ! n) \<and> tail_out (m_nodes g' ! n) = tail_out (m_nodes g ! n)"
  shows "frame p g T g' T"
  using assms by (simp add: frame_def same_data_def)

lemma tree_step:
  assumes inv: "conc_inv g0 c L E T" and c': "c' = goto i q (c\<lparr>c_tree := g'\<rparr>)"
    and g': "same_data (c_tree c) g'"
      "\<And>n. n < n_nodes (c_tree c) \<Longrightarrow> NodeLock (int n) \<notin> holds (c_threads c i) \<Longrightarrow>
        head_out (m_nodes g' ! n) = head_out (m_nodes (c_tree c) ! n) \<and> tail_out (m_nodes g' ! n) = tail_out (m_nodes (c_tree c) ! n)"
    and q: "arc_of q = arc_of (c_threads c i)" "node_of q = node_of (c_threads c i)" "unset q = unset (c_threads c i)" "holds q = holds (c_threads c i)"
      "local_ok g' T q"
    and l: "\<And>I. list_inv g' (L' I) (E' I) T (pendings ((c_threads c)(i := q)) I) I" "ends_ok (n_nodes (c_tree c)) ((c_threads c)(i := q)) E'"
  shows "conc_inv g0 c' L' E' T"
proof -
  note D = conc_invD [OF inv]
  have n: "n_arcs g' = n_arcs (c_tree c)" "n_nodes g' = n_nodes (c_tree c)" using g'(1) by (simp_all add: same_data_def)
  have t: "targets_ok g' ((c_threads c)(i := q)) T"
    by (rule targets_same [where th = "c_threads c", OF D(5) q(3) n(1)]) (use g'(1) in \<open>simp add: same_data_def\<close>)
  show ?thesis unfolding c'
    by (rule conc_inv_step [OF inv])
      (use same_frame [OF g'] l t q n base_mono [OF D(6) g'(1)] locks_same [where th = "c_threads c" and q = q, OF D(3) q(4)]
        tickets_same [where f = arc_of and th = "c_threads c", OF D(7) q(1)] tickets_same [where f = node_of and th = "c_threads c", OF D(8) q(2)] in simp_all)
qed

text \<open>The source and the target of a request are nodes, with numbers.\<close>

lemma source_node:
  assumes "request_ok g r" obtains n where "req_source r = int n" "n < n_nodes g"
  using node_in_obtain [OF request_ok_source [OF assms]] by blast

lemma pendings_remove:
  assumes inv: "conc_inv g0 c L E T" and "pending I (c_threads c i) = Some (int k)" "pending I q = None"
  shows "pendings ((c_threads c)(i := q)) I = pendings (c_threads c) I - {k}"
  using pendings_upd [of "c_threads c" i q I] ticketsD(1) [OF conc_invD(7) [OF inv]] assms(2,3) by auto

lemma pending_in: "pending I (th i) = Some (int k) \<Longrightarrow> k \<in> pendings th I"
  by (auto simp: pendings_def)

lemma list_inv_other:
  assumes "list_inv g l e T P J" "same_data g g'" "next_of J g' = next_of J g" "head_at J g' = head_at J g" "tail_at J g' = tail_at J g"
  shows "list_inv g' l e T P J"
proof -
  have "end_of J T g' b = end_of J T g b" if "b < n_arcs g" for b using assms(2) that by (cases J) (simp_all add: same_data_def)
  then show ?thesis using list_inv_frame [OF assms(1) _ _ assms(3,4,5), of T] assms(2) by (simp add: same_data_def)
qed

lemma next_of_arcs: "m_arcs g' = m_arcs g \<Longrightarrow> next_of J g' = next_of J g"
  by (cases J) (simp_all add: fun_eq_iff)

lemma ends_of_nodes: "m_nodes g' = m_nodes g \<Longrightarrow> head_at J g' = head_at J g \<and> tail_at J g' = tail_at J g"
  by (cases J) (simp_all add: fun_eq_iff)

text \<open>Setting the link of the last arc of a list that is not empty.\<close>

lemma set_next_step:
  assumes inv: "conc_inv g0 c L E T" and n: "n < n_nodes (c_tree c)" "L I n \<noteq> []"
    and l: "NodeLock (int n) \<in> holds (c_threads c i)" and q: "mid I (c_threads c i) = None" "mid I q = Some (int n, a)" "\<And>J. J \<noteq> I \<Longrightarrow> mid J q = mid J (c_threads c i)"
      "\<And>J. pending J q = pending J (c_threads c i)" "arc_of q = arc_of (c_threads c i)" "node_of q = node_of (c_threads c i)"
      "unset q = unset (c_threads c i)" "holds q = holds (c_threads c i)" "\<And>g'. same_data (c_tree c) g' \<Longrightarrow> local_ok g' T q"
  shows "\<exists>g'. set_next I (tail_at I (c_tree c) n) a (c_tree c) = Some g' \<and> (\<exists>E. conc_inv g0 (goto i q (c\<lparr>c_tree := g'\<rparr>)) L E T)"
proof -
  let ?g = "c_tree c"
  note D = conc_invD [OF inv]
  note LD = list_invD [OF D(1) [of I]]
  have t: "tail_at I ?g n = int (last (L I n))" by (rule LD(2) [OF n])
  have y: "last (L I n) < n_arcs ?g" using LD(4) [OF n(1), of "last (L I n)"] n(2) by simp
  obtain g' where g': "set_next I (int (last (L I n))) a ?g = Some g'" "same_data ?g g'" "m_nodes g' = m_nodes ?g"
    "\<forall>J. next_of J g' = (if J = I then (next_of I ?g)(last (L I n) := a) else next_of J ?g)" using set_next_eq [OF y] by blast
  have "conc_inv g0 (goto i q (c\<lparr>c_tree := g'\<rparr>)) L (E(I := (E I)(n := a))) T"
  proof (rule tree_step [OF inv refl g'(2) _ q(5-8) q(9) [OF g'(2)]])
    show "list_inv g' (L J) ((E(I := (E I)(n := a))) J) T (pendings ((c_threads c)(i := q)) J) J" for J
    proof (cases "J = I")
      case True
      then show ?thesis using list_inv_set_next [OF D(1) n g'(2,3)] g'(4) pendings_same [where th = "c_threads c", OF q(4)] by simp
    next
      case False
      then show ?thesis using list_inv_other [OF D(1) g'(2), of J] g'(4) ends_of_nodes [OF g'(3)] pendings_same [where th = "c_threads c", OF q(4)] by simp
    qed
    show "ends_ok (n_nodes ?g) ((c_threads c)(i := q)) (E(I := (E I)(n := a)))"
      by (rule ends_set [OF D(2,3) l]) (use q in auto)
  qed (simp add: g'(3))
  with g'(1) t show ?thesis by auto
qed

text \<open>Setting the tail, by which the arc joins the list.\<close>

lemma set_tail_step:
  assumes inv: "conc_inv g0 c L E T" and n: "n < n_nodes (c_tree c)"
    and l: "NodeLock (int n) \<in> holds (c_threads c i)" and k: "end_of I T (c_tree c) k = int n"
    and q: "mid I (c_threads c i) = Some (int n, int k)" "mid I q = None" "\<And>J. J \<noteq> I \<Longrightarrow> mid J q = mid J (c_threads c i)"
      "pending I (c_threads c i) = Some (int k)" "pending I q = None" "\<And>J. J \<noteq> I \<Longrightarrow> pending J q = pending J (c_threads c i)"
      "arc_of q = arc_of (c_threads c i)" "node_of q = node_of (c_threads c i)"
      "unset q = unset (c_threads c i)" "holds q = holds (c_threads c i)" "\<And>g'. same_data (c_tree c) g' \<Longrightarrow> local_ok g' T q"
  shows "\<exists>g'. set_tail I (int n) (int k) (c_tree c) = Some g' \<and> (\<exists>L E. conc_inv g0 (goto i q (c\<lparr>c_tree := g'\<rparr>)) L E T)"
proof -
  let ?g = "c_tree c"
  note D = conc_invD [OF inv]
  obtain g' where g': "set_tail I (int n) (int k) ?g = Some g'" "same_data ?g g'" "m_arcs g' = m_arcs ?g" "\<forall>J. head_at J g' = head_at J ?g"
    "\<forall>J. tail_at J g' = (if J = I then (tail_at I ?g)(n := int k) else tail_at J ?g)" using set_tail_eq [OF n] by blast
  have ends: "head_out (m_nodes g' ! m) = head_out (m_nodes ?g ! m)" "m \<noteq> n \<Longrightarrow> tail_out (m_nodes g' ! m) = tail_out (m_nodes ?g ! m)" for m
    using fun_cong [OF spec [OF g'(4), of It_out], of m] fun_cong [OF spec [OF g'(5), of It_out], of m] by (simp_all split: if_splits)
  have E: "E I n = int k" using ends_own [OF D(2,3) l n, of I] q(1) by simp
  have "conc_inv g0 (goto i q (c\<lparr>c_tree := g'\<rparr>)) (L(I := (L I)(n := L I n @ [k]))) (E(I := (E I)(n := invalid_arc))) T"
  proof (rule tree_step [OF inv refl g'(2) _ q(7-10) q(11) [OF g'(2)]])
    show "list_inv g' ((L(I := (L I)(n := L I n @ [k]))) J) ((E(I := (E I)(n := invalid_arc))) J) T (pendings ((c_threads c)(i := q)) J) J" for J
    proof (cases "J = I")
      case True
      then show ?thesis
        using list_inv_set_tail [OF D(1) n E pending_in [where th = "c_threads c", OF q(4)] k g'(2,3)] g'(4,5) pendings_remove [OF inv q(4,5)] by simp
    next
      case False
      then show ?thesis using list_inv_other [OF D(1) g'(2), of J] next_of_arcs [OF g'(3)] g'(4,5) pendings_same [where th = "c_threads c", OF q(6)] by simp
    qed
    show "ends_ok (n_nodes ?g) ((c_threads c)(i := q)) (E(I := (E I)(n := invalid_arc)))"
      by (rule ends_set [OF D(2,3) l]) (use q in auto)
    show "head_out (m_nodes g' ! m) = head_out (m_nodes ?g ! m) \<and> tail_out (m_nodes g' ! m) = tail_out (m_nodes ?g ! m)"
      if "NodeLock (int m) \<notin> holds (c_threads c i)" for m using that l ends by (cases "m = n") auto
  qed
  with g'(1) show ?thesis by auto
qed

text \<open>The first arc of a list: \<^verbatim>\<open>addArc\<close> sets the tail and then the head, \<^verbatim>\<open>addNode\<close> the head and then the tail.\<close>

lemma empty_list:
  assumes inv: "conc_inv g0 c L E T" and n: "n < n_nodes (c_tree c)" and l: "NodeLock (int n) \<in> holds (c_threads c i)"
    and m: "mid It_out (c_threads c i) = None"
  shows "head_out (m_nodes (c_tree c) ! n) = invalid_arc \<longleftrightarrow> L It_out n = []"
proof -
  have "E It_out n = invalid_arc" using ends_own [OF conc_invD(2,3) [OF inv] l n, of It_out] m by simp
  then have "seg (next_of It_out (c_tree c)) (head_out (m_nodes (c_tree c) ! n)) (L It_out n) invalid_arc"
    using list_invD(1) [OF conc_invD(1) [OF inv, of It_out] n] by simp
  then show ?thesis by (rule seg_head)
qed

lemma first_tail_step:
  assumes inv: "conc_inv g0 c L E T" and n: "n < n_nodes (c_tree c)" "L It_out n = []" and l: "NodeLock (int n) \<in> holds (c_threads c i)"
    and q: "\<And>J. mid J q = mid J (c_threads c i)" "\<And>J. pending J q = pending J (c_threads c i)"
      "arc_of q = arc_of (c_threads c i)" "node_of q = node_of (c_threads c i)"
      "unset q = unset (c_threads c i)" "holds q = holds (c_threads c i)"
      "\<And>g'. same_data (c_tree c) g' \<Longrightarrow> head_out (m_nodes g' ! n) = head_out (m_nodes (c_tree c) ! n) \<Longrightarrow> tail_out (m_nodes g' ! n) = a \<Longrightarrow> local_ok g' T q"
  shows "\<exists>g'. set_tail It_out (int n) a (c_tree c) = Some g' \<and> (\<exists>L E. conc_inv g0 (goto i q (c\<lparr>c_tree := g'\<rparr>)) L E T)"
proof -
  let ?g = "c_tree c"
  note D = conc_invD [OF inv]
  obtain g' where g': "set_tail It_out (int n) a ?g = Some g'" "same_data ?g g'" "m_arcs g' = m_arcs ?g" "\<forall>J. head_at J g' = head_at J ?g"
    "\<forall>J. tail_at J g' = (if J = It_out then (tail_at It_out ?g)(n := a) else tail_at J ?g)" using set_tail_eq [OF n(1)] by blast
  have ends: "head_out (m_nodes g' ! m) = head_out (m_nodes ?g ! m)" "tail_out (m_nodes g' ! m) = (if m = n then a else tail_out (m_nodes ?g ! m))" for m
    using fun_cong [OF spec [OF g'(4), of It_out], of m] fun_cong [OF spec [OF g'(5), of It_out], of m] by (simp_all split: if_splits)
  have "conc_inv g0 (goto i q (c\<lparr>c_tree := g'\<rparr>)) L E T"
  proof (rule tree_step [OF inv refl g'(2) _ q(3-6) q(7) [OF g'(2)]])
    show "list_inv g' (L J) (E J) T (pendings ((c_threads c)(i := q)) J) J" for J
      using list_inv_first_tail [OF D(1) n(2) g'(2,3)] list_inv_other [OF D(1) g'(2), of J] next_of_arcs [OF g'(3)] g'(4,5)
        pendings_same [where th = "c_threads c", OF q(2)] by (cases J) simp_all
    show "ends_ok (n_nodes ?g) ((c_threads c)(i := q)) E" by (rule ends_same [where th = "c_threads c" and i = i, OF D(2) q(1)])
    show "head_out (m_nodes g' ! m) = head_out (m_nodes ?g ! m) \<and> tail_out (m_nodes g' ! m) = tail_out (m_nodes ?g ! m)"
      if "NodeLock (int m) \<notin> holds (c_threads c i)" for m using that l ends by (cases "m = n") auto
  qed (use ends in auto)
  with g'(1) show ?thesis by auto
qed

lemma head_step:
  assumes inv: "conc_inv g0 c L E T" and n: "n < n_nodes (c_tree c)" and l: "NodeLock (int n) \<in> holds (c_threads c i)"
    and lst: "\<And>g'. same_data (c_tree c) g' \<Longrightarrow> m_arcs g' = m_arcs (c_tree c) \<Longrightarrow> head_at It_out g' = (head_at It_out (c_tree c))(n := a) \<Longrightarrow>
      tail_at It_out g' = tail_at It_out (c_tree c) \<Longrightarrow>
      list_inv g' ((L It_out)(n := xs)) ((E It_out)(n := e)) T (pendings ((c_threads c)(i := q)) It_out) It_out"
    and q: "mid It_out (c_threads c i) = None" "mid It_out q = None \<and> e = invalid_arc \<or> mid It_out q = Some (int n, e)" "mid It_in q = mid It_in (c_threads c i)"
      "pending It_in q = pending It_in (c_threads c i)"
      "arc_of q = arc_of (c_threads c i)" "node_of q = node_of (c_threads c i)"
      "unset q = unset (c_threads c i)" "holds q = holds (c_threads c i)" "\<And>g'. same_data (c_tree c) g' \<Longrightarrow> local_ok g' T q"
  shows "\<exists>g'. set_head_out (int n) a (c_tree c) = Some g' \<and> (\<exists>L E. conc_inv g0 (goto i q (c\<lparr>c_tree := g'\<rparr>)) L E T)"
proof -
  let ?g = "c_tree c"
  note D = conc_invD [OF inv]
  obtain g' where g': "set_head_out (int n) a ?g = Some g'" "same_data ?g g'" "m_arcs g' = m_arcs ?g" "\<forall>J. tail_at J g' = tail_at J ?g"
    "\<forall>J. head_at J g' = (if J = It_out then (head_at It_out ?g)(n := a) else head_at J ?g)" using set_head_eq [OF n(1)] by blast
  have ends: "m \<noteq> n \<Longrightarrow> head_out (m_nodes g' ! m) = head_out (m_nodes ?g ! m)" "tail_out (m_nodes g' ! m) = tail_out (m_nodes ?g ! m)" for m
    using fun_cong [OF spec [OF g'(4), of It_out], of m] fun_cong [OF spec [OF g'(5), of It_out], of m] by (simp_all split: if_splits)
  have "conc_inv g0 (goto i q (c\<lparr>c_tree := g'\<rparr>)) (L(It_out := (L It_out)(n := xs))) (E(It_out := (E It_out)(n := e))) T"
  proof (rule tree_step [OF inv refl g'(2) _ q(5-8) q(9) [OF g'(2)]])
    show "list_inv g' ((L(It_out := (L It_out)(n := xs))) J) ((E(It_out := (E It_out)(n := e))) J) T (pendings ((c_threads c)(i := q)) J) J" for J
      using lst [OF g'(2,3)] list_inv_other [OF D(1) g'(2), of J] next_of_arcs [OF g'(3)] g'(4,5)
        pendings_same [where th = "c_threads c", OF q(4)] by (cases J) simp_all
    show "ends_ok (n_nodes ?g) ((c_threads c)(i := q)) (E(It_out := (E It_out)(n := e)))"
    proof (rule ends_set [OF D(2,3) l])
      show "mid I q = mid I (c_threads c i)" if "I \<noteq> It_out" for I using q(3) that by (cases I) simp_all
    qed (use q(1,2) in simp_all)
    show "head_out (m_nodes g' ! m) = head_out (m_nodes ?g ! m) \<and> tail_out (m_nodes g' ! m) = tail_out (m_nodes ?g ! m)"
      if "NodeLock (int m) \<notin> holds (c_threads c i)" for m using that l ends by (cases "m = n") auto
  qed
  with g'(1) show ?thesis by auto
qed

end
