(* ===== verification/Rooted_Digraph_Threads_New.thy ===== *)
theory Rooted_Digraph_Threads_New
  imports Rooted_Digraph_Threads_Step
begin

text \<open>The steps that make an arc or a node, set the ends of an arc, and return; and from these that every step of a thread keeps the invariant.\<close>

section \<open>New arcs and nodes\<close>

lemma emplace_back_small: "length m < 2 ^ 31 \<Longrightarrow> arena_emplace_back m x = (int (length m), m @ [x])"
  by (simp add: arena_emplace_back_def to_int32_id)

lemma held_arc_in: "local_ok g T p \<Longrightarrow> ArcLock x \<in> holds p \<Longrightarrow> arc_in g x"
  by (cases p) (auto simp: new_arc_ok_def link_made_def)

lemma mid_in: "local_ok g T p \<Longrightarrow> mid I p = Some (n, a) \<Longrightarrow> node_in g n"
  by (cases "(I, p)" rule: mid.cases) (auto simp: request_ok_source arc_made_def link_made_def new_node_ok_def)

lemma node_in_less: "node_in g n \<Longrightarrow> n < int (n_nodes g)"
  by (simp add: node_in_def nodeNum_def arena_size_def)

lemma base_pos: "base_ok g0 g \<Longrightarrow> 0 < n_arcs g0 \<and> n_arcs g0 \<le> n_arcs g"
  unfolding base_ok_def by blast

definition with_arc :: "('a, 'n) tree \<Rightarrow> 'a arc_t \<Rightarrow> ('a, 'n) tree" where
  "with_arc g x = g\<lparr>m_arcs := m_arcs g @ [x]\<rparr>"

definition with_node :: "('a, 'n) tree \<Rightarrow> 'n node_t \<Rightarrow> ('a, 'n) tree" where
  "with_node g x = g\<lparr>m_nodes := m_nodes g @ [x]\<rparr>"

lemma with_simps [simp]:
  "m_arcs (with_arc g x) = m_arcs g @ [x]" "m_nodes (with_arc g x) = m_nodes g" "root_arc (with_arc g x) = root_arc g" "root_node (with_arc g x) = root_node g"
  "m_nodes (with_node g y) = m_nodes g @ [y]" "m_arcs (with_node g y) = m_arcs g" "root_arc (with_node g y) = root_arc g" "root_node (with_node g y) = root_node g"
  by (simp_all add: with_arc_def with_node_def)

lemma request_ok_same: "n_nodes g \<le> n_nodes g' \<Longrightarrow> request_ok g r \<Longrightarrow> request_ok g' r"
  by (rule request_ok_mono)

text \<open>A thread that has been called makes its arc.\<close>

lemma emplace_arc_step:
  assumes inv: "conc_inv g0 c L E T" and p: "c_threads c i = Called r"
    and q: "arc_of q = Some (int (n_arcs (c_tree c)))" "\<And>I. pending I q = Some (int (n_arcs (c_tree c)))" "\<And>I. mid I q = None" "node_of q = None"
    and x: "next_in x = invalid_arc" "next_out x = invalid_arc"
    and T': "T' = T \<and> unset q = Some (int (n_arcs (c_tree c))) \<or> T' = T(n_arcs (c_tree c) := target x) \<and> unset q = None"
    and c': "c_threads c' = (c_threads c)(i := q)" "c_tree c' = with_arc (c_tree c) x" "c_done c' = c_done c"
    and l: "locks_ok (c_locks c') (c_threads c')" and lc: "local_ok (c_tree c') T' q"
  shows "conc_inv g0 c' L E T'"
proof -
  let ?g = "c_tree c" and ?A = "n_arcs (c_tree c)"
  note D = conc_invD [OF inv]
  have A: "0 < ?A" using base_pos [OF D(6)] by linarith
  have T: "T' a = T a" if "a < ?A" for a using T' that by auto
  have P: "pendings ((c_threads c)(i := q)) I = insert ?A (pendings (c_threads c) I)" for I
    using pendings_upd [of "c_threads c" i q I, OF ticketsD(1) [OF D(7)]] q(2) p by (cases I) auto
  show ?thesis
  proof (rule conc_inv_step [OF inv c'(1)], unfold c')
    show "frame (c_threads c i) ?g T (with_arc ?g x) T'" using T by (simp add: frame_def nth_append)
    show "list_inv (with_arc ?g x) (L I) (E I) T' (pendings ((c_threads c)(i := q)) I) I" for I
      unfolding P with_arc_def by (rule list_inv_emplace_arc [OF D(1) x T])
    show "ends_ok (n_nodes (with_arc ?g x)) ((c_threads c)(i := q)) E"
      using ends_same [where th = "c_threads c" and i = i and q = q, OF D(2)] q(3) p by simp
    show "targets_ok (with_arc ?g x) ((c_threads c)(i := q)) T'"
      unfolding targets_ok_def
    proof (intro conjI allI impI)
      show "T' 0 = 0" using T [OF A] D(5) by (simp add: targets_ok_def)
      fix a assume a: "a < n_arcs (with_arc ?g x)" "0 < a" "\<forall>j. unset (((c_threads c)(i := q)) j) \<noteq> Some (int a)"
      show "T' a = target (m_arcs (with_arc ?g x) ! a)"
      proof (cases "a < ?A")
        case True
        have "unset (c_threads c j) \<noteq> Some (int a)" for j using a(3) [rule_format, of j] p by (cases "j = i") auto
        with D(5) True a(2) T show ?thesis by (simp add: targets_ok_def nth_append)
      next
        case False
        with a(1) have "a = ?A" by simp
        with a(3) [rule_format, of i] T' show ?thesis by auto
      qed
    qed
    show "base_ok g0 (with_arc ?g x)" using D(6) by (simp add: base_ok_def nth_append)
    show "tickets (\<lambda>j. arc_of (((c_threads c)(i := q)) j)) (done_arcs (c_done c)) (n_arcs g0) (n_arcs (with_arc ?g x))"
    proof -
      have "(\<lambda>j. arc_of (((c_threads c)(i := q)) j)) = (\<lambda>j. arc_of (c_threads c j))(i := Some (int ?A))" using q(1) by (auto simp: fun_eq_iff)
      with tickets_take [OF D(7), of i] p show ?thesis by simp
    qed
    show "tickets (\<lambda>j. node_of (((c_threads c)(i := q)) j)) (done_nodes (c_done c)) (n_nodes g0) (n_nodes (with_arc ?g x))"
      using tickets_same [where f = node_of and th = "c_threads c" and i = i and q = q, OF D(8)] q(4) p by simp
  qed (use l lc c' in simp_all)
qed

lemma called_fine:
  assumes inv: "conc_inv g0 c L E T" and p: "c_threads c i = Called r"
  shows "step_fine g0 i c"
proof -
  let ?g = "c_tree c" and ?A = "n_arcs (c_tree c)"
  note D = conc_invD [OF inv]
  have r: "request_ok ?g r" using D(4) [of i] p by simp
  have "\<exists>L E T. conc_inv g0 (emplace_arc i r c) L E T" if A: "?A < 2 ^ 31"
  proof (cases r)
    case (Add_arc s t d)
    let ?c = "goto i (In_lock_node r (int ?A)) (c\<lparr>c_tree := with_arc ?g (ArcType s t d)\<rparr>)"
    have "conc_inv g0 ?c L E (T(?A := t))"
    proof (rule emplace_arc_step [OF inv p])
      show "pending I (In_lock_node r (int ?A)) = Some (int ?A)" "mid I (In_lock_node r (int ?A)) = None" for I by (cases I; simp)+
      show "local_ok (c_tree ?c) (T(?A := t)) (In_lock_node r (int ?A))"
        using r request_ok_same [of ?g "c_tree ?c" r]
        by (auto simp: Add_arc arc_made_def link_made_def new_arc_ok_def new_node_ok_def arc_in_def ArcType_def node_in_def nodeNum_def arena_size_def)
      show "locks_ok (c_locks ?c) (c_threads ?c)" using locks_same [where th = "c_threads c" and i = i, OF D(3)] p by simp
    qed (simp_all add: ArcType_def)
    moreover have "emplace_arc i r c = ?c" using A by (simp add: Add_arc emplace_back_small with_arc_def)
    ultimately show ?thesis by auto
  next
    case (Add_node s da dn)
    let ?x = "ArcType invalid_node invalid_node da"
    let ?c = "goto i (New_node r (int ?A)) (c\<lparr>c_tree := with_arc ?g ?x, c_locks := (c_locks c)(ArcLock (int ?A) := Some i)\<rparr>)"
    have "conc_inv g0 ?c L E T"
    proof (rule emplace_arc_step [OF inv p])
      show "pending I (New_node r (int ?A)) = Some (int ?A)" "mid I (New_node r (int ?A)) = None" for I by (cases I; simp)+
      show "local_ok (c_tree ?c) T (New_node r (int ?A))"
        using r request_ok_same [of ?g "c_tree ?c" r] by (auto simp: Add_node new_arc_ok_def arc_in_def ArcType_def node_in_def nodeNum_def arena_size_def)
      have "ArcLock (int ?A) \<notin> holds (c_threads c j)" for j using held_arc_in [OF D(4), of "int ?A" j] by (auto simp: arc_in_def)
      then have "c_locks c (ArcLock (int ?A)) = None" using D(3) unfolding locks_ok_def by (meson option.exhaust)
      then show "locks_ok (c_locks ?c) (c_threads ?c)" using locks_acquire [where th = "c_threads c" and i = i, OF D(3)] p by simp
    qed (simp_all add: ArcType_def)
    moreover have "emplace_arc i r c = ?c" using A by (simp add: Add_node emplace_back_small with_arc_def)
    ultimately show ?thesis by auto
  qed
  moreover have "small (c_tree (emplace_arc i r c)) \<Longrightarrow> ?A < 2 ^ 31" by (cases r) (auto simp: small_def Let_def arena_emplace_back_def)
  ultimately show ?thesis by (auto simp: step_fine_def thread_step.simps p)
qed

lemma emplace_node_fine:
  assumes inv: "conc_inv g0 c L E T" and p: "c_threads c i = New_node r a"
  shows "step_fine g0 i c"
proof -
  let ?g = "c_tree c" and ?N = "n_nodes (c_tree c)"
  note D = conc_invD [OF inv]
  have lc: "request_ok ?g r" "req_node r \<noteq> None" "new_arc_ok ?g r a" using D(4) [of i] p by simp_all
  then obtain k where k: "k < n_arcs ?g" "a = int k" using arc_in_int by (auto simp: new_arc_ok_def)
  obtain s da dn where r: "r = Add_node s da dn" using lc(2) by (cases r) auto
  let ?q = "New_set r a (int ?N)" and ?x = "NodeType_arc a dn"
  let ?c = "goto i ?q (c\<lparr>c_tree := with_node ?g ?x\<rparr>)"
  have "int (n_arcs g0) \<le> a" using ticketsD(3) [OF D(7), of i a] p by simp
  then have k0: "0 < k" using k(2) base_pos [OF D(6)] by linarith
  have P: "pendings ((c_threads c)(i := ?q)) It_in = pendings (c_threads c) It_in - {k}" "k \<in> pendings (c_threads c) It_in"
    using pendings_remove [OF inv, of It_in i k ?q] pending_in [of It_in "c_threads c" i k] p k(2) by simp_all
  have Po: "pendings ((c_threads c)(i := ?q)) It_out = pendings (c_threads c) It_out"
    using pendings_same [where th = "c_threads c" and i = i and q = ?q and I = It_out] p by simp
  have "conc_inv g0 ?c (\<lambda>I. (L I)(?N := if I = It_in then [k] else [])) (\<lambda>I. (E I)(?N := invalid_arc)) (T(k := int ?N))"
  proof (rule conc_inv_step [OF inv])
    show "frame (c_threads c i) ?g T (c_tree ?c) (T(k := int ?N))" using p k(2) by (auto simp: frame_def nth_append)
    show "list_inv (c_tree ?c) ((L I)(?N := if I = It_in then [k] else [])) ((E I)(?N := invalid_arc)) (T(k := int ?N)) (pendings (c_threads ?c) I) I" for I
      using list_inv_emplace_node_in [OF D(1) P(2), of dn] list_inv_emplace_node_out [OF D(1), of a dn "T(k := int ?N)"] P(1) Po k(2)
      by (cases I) (simp_all add: with_node_def)
    show "ends_ok (n_nodes (c_tree ?c)) (c_threads ?c) (\<lambda>I. (E I)(?N := invalid_arc))"
    proof -
      have "mid I ?q = None" "mid I (c_threads c i) = None" for I using p by (cases I; simp)+
      moreover have "n < int ?N" if "mid I (c_threads c j) = Some (n, b)" for I j n b using node_in_less [OF mid_in [OF D(4) that]] .
      ultimately have "ends_ok (Suc ?N) ((c_threads c)(i := ?q)) (\<lambda>I. (E I)(?N := invalid_arc))"
        by (intro ends_grow [where th = "c_threads c" and i = i and q = ?q, OF D(2)]) blast+
      then show ?thesis by simp
    qed
    show "locks_ok (c_locks ?c) (c_threads ?c)" using locks_same [where th = "c_threads c" and i = i and q = ?q, OF D(3)] p by simp
    show "local_ok (c_tree ?c) (T(k := int ?N)) ?q"
      using lc request_ok_same [of ?g "c_tree ?c" r] k
      by (auto simp: r new_arc_ok_def arc_in_def new_node_ok_def NodeType_arc_def node_in_def nodeNum_def arena_size_def)
    show "targets_ok (c_tree ?c) (c_threads ?c) (T(k := int ?N))"
      unfolding targets_ok_def
    proof (intro conjI allI impI)
      show "(T(k := int ?N)) 0 = 0" using k0 D(5) by (simp add: targets_ok_def)
      fix b assume b: "b < n_arcs (c_tree ?c)" "0 < b" "\<forall>j. unset (c_threads ?c j) \<noteq> Some (int b)"
      from b(3) [rule_format, of i] have bk: "b \<noteq> k" by (simp add: k(2))
      have "unset (c_threads c j) \<noteq> Some (int b)" for j using b(3) [rule_format, of j] p bk k(2) by (cases "j = i") auto
      with D(5) b bk show "(T(k := int ?N)) b = target (m_arcs (c_tree ?c) ! b)" by (simp add: targets_ok_def)
    qed
    show "base_ok g0 (c_tree ?c)" using D(6) by (simp add: base_ok_def nth_append)
    show "tickets (\<lambda>i. arc_of (c_threads ?c i)) (done_arcs (c_done ?c)) (n_arcs g0) (n_arcs (c_tree ?c))"
      using tickets_same [where f = arc_of and th = "c_threads c" and i = i and q = ?q, OF D(7)] p by simp
    have "(\<lambda>j. node_of (c_threads ?c j)) = (\<lambda>j. node_of (c_threads c j))(i := Some (int ?N))" using lc(2) by (auto simp: fun_eq_iff new_node_of_def)
    with tickets_take [OF D(8), of i] p
    show "tickets (\<lambda>i. node_of (c_threads ?c i)) (done_nodes (c_done ?c)) (n_nodes g0) (n_nodes (c_tree ?c))" by simp
  qed simp_all
  moreover have "thread_step i c = Ok ?c" if "?N < 2 ^ 31" using that by (simp add: thread_step.simps p r emplace_back_small with_node_def)
  moreover have "\<exists>c'. thread_step i c = Ok c' \<and> n_nodes (c_tree c') = Suc ?N" by (simp add: thread_step.simps p r arena_emplace_back_def Let_def)
  ultimately show ?thesis by (cases "?N < 2 ^ 31") (auto simp: step_fine_def small_def)
qed

text \<open>The ends of the arc of a new node are set under the lock of the arc.\<close>

lemma set_source_target_fine:
  assumes inv: "conc_inv g0 c L E T" and p: "c_threads c i = New_set r a t"
  shows "step_fine g0 i c"
proof -
  let ?g = "c_tree c"
  note D = conc_invD [OF inv]
  have lc: "request_ok ?g r" "new_arc_ok ?g r a" "new_node_ok ?g r a t" "T (nat a) = t" using D(4) [of i] p by simp_all
  then obtain k where k: "k < n_arcs ?g" "a = int k" using arc_in_int by (auto simp: new_arc_ok_def)
  let ?q = "New_unlock r a t"
  let ?x = "setSourceTarget (req_source r) t (m_arcs ?g ! k)"
  let ?g' = "?g\<lparr>m_arcs := (m_arcs ?g)[k := ?x]\<rparr>"
  let ?c = "goto i ?q (c\<lparr>c_tree := ?g'\<rparr>)"
  have k0: "n_arcs g0 \<le> k" using ticketsD(3) [OF D(7), of i a] p k(2) by simp
  have P: "pendings ((c_threads c)(i := ?q)) I = pendings (c_threads c) I" for I
    by (rule pendings_same [where th = "c_threads c"]) (use p in \<open>cases I; simp\<close>)
  have kP: "k \<in> pendings (c_threads c) It_out" by (rule pending_in [where i = i]) (simp add: p k(2))
  have fields: "next_of I ?g' = next_of I ?g" "head_at I ?g' = head_at I ?g" "tail_at I ?g' = tail_at I ?g" for I
    using k(1) by (cases I; simp add: fun_eq_iff nth_list_update setSourceTarget_def)+
  have "conc_inv g0 ?c L E T"
  proof (rule conc_inv_step [OF inv])
    show "frame (c_threads c i) ?g T (c_tree ?c) T" using p k by (auto simp: frame_def nth_list_update setSourceTarget_def)
    show "list_inv (c_tree ?c) (L I) (E I) T (pendings (c_threads ?c) I) I" for I
    proof -
      have "end_of I T ?g' b = end_of I T ?g b" if "b \<notin> pendings (c_threads c) I" for b
        using that kP k(1) by (cases I) (auto simp: nth_list_update setSourceTarget_def)
      then show ?thesis using list_inv_frame [OF D(1) [of I], of ?g' T] fields P by simp
    qed
    show "ends_ok (n_nodes (c_tree ?c)) (c_threads ?c) E"
    proof -
      have "mid I ?q = mid I (c_threads c i)" for I using p by (cases I) simp_all
      with ends_same [where th = "c_threads c" and i = i and q = ?q, OF D(2)] show ?thesis by simp
    qed
    show "locks_ok (c_locks ?c) (c_threads ?c)" using locks_same [where th = "c_threads c" and i = i and q = ?q, OF D(3)] p by simp
    show "local_ok (c_tree ?c) T ?q"
      using lc request_ok_same [of ?g ?g' r] k
      by (auto simp: link_made_def new_arc_ok_def arc_in_def new_node_ok_def setSourceTarget_def node_in_def nodeNum_def arena_size_def split: option.splits)
    show "targets_ok (c_tree ?c) (c_threads ?c) T"
      unfolding targets_ok_def
    proof (intro conjI allI impI)
      show "T 0 = 0" using D(5) by (simp add: targets_ok_def)
      fix b assume b: "b < n_arcs (c_tree ?c)" "0 < b" "\<forall>j. unset (c_threads ?c j) \<noteq> Some (int b)"
      have "unset (c_threads c j) \<noteq> Some (int b)" if "b \<noteq> k" for j using b(3) [rule_format, of j] p that k(2) by (cases "j = i") auto
      with D(5) b lc(4) k show "T b = target (m_arcs (c_tree ?c) ! b)" by (auto simp: targets_ok_def nth_list_update setSourceTarget_def)
    qed
    show "base_ok g0 (c_tree ?c)" using D(6) k0 by (auto simp: base_ok_def nth_list_update)
    show "tickets (\<lambda>i. arc_of (c_threads ?c i)) (done_arcs (c_done ?c)) (n_arcs g0) (n_arcs (c_tree ?c))"
      using tickets_same [where f = arc_of and th = "c_threads c" and i = i and q = ?q, OF D(7)] p by simp
    show "tickets (\<lambda>i. node_of (c_threads ?c i)) (done_nodes (c_done ?c)) (n_nodes g0) (n_nodes (c_tree ?c))"
      using tickets_same [where f = node_of and th = "c_threads c" and i = i and q = ?q, OF D(8)] p by simp
  qed simp_all
  moreover have "thread_step i c = Ok ?c" using k by (simp add: thread_step.simps p Let_def set_source_target_def update_tree_def)
  ultimately show ?thesis by (auto simp: step_fine_def)
qed

text \<open>The operation returns its link.\<close>

lemma return_fine:
  assumes inv: "conc_inv g0 c L E T" and p: "c_threads c i = Out_unlock_node r a t"
  shows "step_fine g0 i c"
proof -
  let ?g = "c_tree c" and ?l = "NodeLock (req_source r)"
  note D = conc_invD [OF inv]
  have lc: "link_made ?g T r a t" using D(4) [of i] p by simp
  let ?c = "goto i Idle (c\<lparr>c_done := c_done c @ [(r, (a, t))], c_locks := (c_locks c)(?l := None)\<rparr>)"
  have P: "pendings ((c_threads c)(i := Idle)) I = pendings (c_threads c) I" for I
    by (rule pendings_same [where th = "c_threads c"]) (use p in \<open>cases I; simp\<close>)
  have "conc_inv g0 ?c L E T"
  proof (rule conc_inv_step [OF inv])
    show "frame (c_threads c i) ?g T (c_tree ?c) T" by (simp add: frame_refl)
    show "list_inv (c_tree ?c) (L I) (E I) T (pendings (c_threads ?c) I) I" for I using D(1) P by simp
    show "ends_ok (n_nodes (c_tree ?c)) (c_threads ?c) E"
    proof -
      have "mid I Idle = mid I (c_threads c i)" for I using p by (cases I) simp_all
      with ends_same [where th = "c_threads c" and i = i and q = Idle, OF D(2)] show ?thesis by simp
    qed
    show "locks_ok (c_locks ?c) (c_threads ?c)" using locks_release [where th = "c_threads c" and i = i and q = Idle and l = ?l, OF D(3)] p by simp
    show "targets_ok (c_tree ?c) (c_threads ?c) T" using targets_same [where th = "c_threads c" and i = i and q = Idle and g' = ?g, OF D(5)] p by simp
    show "base_ok g0 (c_tree ?c)" using D(6) by simp
    have "(\<lambda>j. arc_of (c_threads ?c j)) = (\<lambda>j. arc_of (c_threads c j))(i := None)" by (auto simp: fun_eq_iff)
    with tickets_give [OF D(7), of i a] p
    show "tickets (\<lambda>i. arc_of (c_threads ?c i)) (done_arcs (c_done ?c)) (n_arcs g0) (n_arcs (c_tree ?c))" by (simp add: done_arcs_def)
    have n: "(\<lambda>j. node_of (c_threads ?c j)) = (\<lambda>j. node_of (c_threads c j))(i := None)" by (auto simp: fun_eq_iff)
    show "tickets (\<lambda>i. node_of (c_threads ?c i)) (done_nodes (c_done ?c)) (n_nodes g0) (n_nodes (c_tree ?c))"
    proof (cases "req_node r = None")
      case True
      then have "(\<lambda>j. node_of (c_threads c j))(i := None) = (\<lambda>j. node_of (c_threads c j))" using p by (auto simp: fun_eq_iff new_node_of_def)
      with D(8) True show ?thesis unfolding n by (simp add: done_nodes_def)
    next
      case False
      with tickets_give [OF D(8), of i t] p show ?thesis unfolding n by (simp add: done_nodes_def new_node_of_def)
    qed
    show "(r', a', t') \<in> set (c_done c) \<or> link_made (c_tree ?c) T r' a' t'" if "(r', a', t') \<in> set (c_done ?c)" for r' a' t' using that lc by auto
    show "local_ok (c_tree ?c) T Idle" by (simp only: local_ok.simps)
  qed simp_all
  moreover have "c_locks c ?l = Some i" using D(3) p by (simp add: locks_ok_def)
  ultimately show ?thesis by (auto simp: step_fine_def thread_step.simps p release_def)
qed

end
