(* ===== verification/Rooted_Digraph_Threads_Spec.thy ===== *)
theory Rooted_Digraph_Threads_Spec
  imports Rooted_Digraph_Threads_New
begin

text \<open>The properties of threads that add arcs and nodes at the same time.\<close>

section \<open>Every step keeps the invariant\<close>

lemma tree_fine:
  assumes "thread_step i c = update_tree i og q c" "og = Some g'" "conc_inv g0 (goto i q (c\<lparr>c_tree := g'\<rparr>)) L E T"
  shows "step_fine g0 i c"
  using assms by (auto simp: step_fine_def update_tree_def)

lemma target_node:
  assumes "request_ok g r" "arc_made g T r a" obtains n where "req_target r = int n" "n < n_nodes g"
  using assms node_in_obtain [of g "req_target r"] by (auto simp: arc_made_def link_made_def new_node_ok_def)

lemma tail_of_int: "n < n_nodes g \<Longrightarrow> tail_of I g (int n) = Some (tail_at I g n)"
  by (cases I) simp_all

lemma list_arc_in:
  assumes "list_inv g l e T P I" "n < n_nodes g" "l n \<noteq> []"
  shows "arc_in g (tail_at I g n)"
  using list_invD(2) [OF assms(1,2,3)] list_invD(4) [OF assms(1,2), of "last (l n)"] assms(3) by (simp add: arc_in_def)

lemma same_data_arc_in: "same_data g g' \<Longrightarrow> arc_in g a \<Longrightarrow> arc_in g' a"
  by (simp add: arc_in_def same_data_def)

lemma same_data_request: "same_data g g' \<Longrightarrow> request_ok g r \<Longrightarrow> request_ok g' r"
  by (rule request_ok_mono) (simp_all add: same_data_def)

lemma same_data_link: "same_data g g' \<Longrightarrow> link_made g T r a t \<Longrightarrow> link_made g' T r a t"
  by (auto simp: link_made_def new_arc_ok_def arc_in_def new_node_ok_def same_data_def node_in_def nodeNum_def arena_size_def nat_less_iff split: option.splits)

lemma same_data_arc: "same_data g g' \<Longrightarrow> arc_made g T r a \<Longrightarrow> arc_made g' T r a"
  by (simp add: arc_made_def same_data_link)

lemmas same_data_ok = same_data_arc_in same_data_request same_data_link same_data_arc

lemma in_fine:
  assumes inv: "conc_inv g0 c L E T" and p: "c_threads c i \<in> {In_lock_node r a, In_lock_arc r a, In_next r a x, In_tail r a x, In_unlock_arc r a x, In_unlock_node r a}"
  shows "step_fine g0 i c"
proof -
  let ?g = "c_tree c"
  note D = conc_invD [OF inv]
  have lc: "request_ok ?g r" "arc_made ?g T r a" using D(4) [of i] p by auto
  obtain n where n: "req_target r = int n" "n < n_nodes ?g" using target_node [OF lc] .
  obtain k where k: "k < n_arcs ?g" "a = int k" using lc(2) arc_in_int by (auto simp: arc_made_def link_made_def new_arc_ok_def)
  have T: "T k = int n" "req_node r = None" using lc(2) k n by (simp_all add: arc_made_def link_made_def)
  have L: "L It_in n \<noteq> []" using list_invD(5) [OF D(1) n(2)] by simp
  have tl: "tail_of It_in ?g (req_target r) = Some (tail_at It_in ?g n)" "arc_in ?g (tail_at It_in ?g n)"
    using tail_of_int [OF n(2), of It_in] n(1) list_arc_in [OF D(1) n(2) L] by simp_all
  from p consider "c_threads c i = In_lock_node r a" | "c_threads c i = In_lock_arc r a" | "c_threads c i = In_next r a x" | "c_threads c i = In_tail r a x"
    | "c_threads c i = In_unlock_arc r a x" | "c_threads c i = In_unlock_node r a" by blast
  then show ?thesis
  proof cases
    case 1
    then show ?thesis
      by (intro acquire_fine [OF inv, where q = "In_lock_arc r a" and l = "NodeLock (req_target r)"])
        (simp_all add: thread_step.simps Let_def lc)
  next
    case 2
    then show ?thesis
      by (intro acquire_fine [OF inv, where q = "In_next r a (tail_at It_in ?g n)" and l = "ArcLock (tail_at It_in ?g n)"])
        (simp_all add: thread_step.simps Let_def lc with_value_def tl del: tail_at.simps tail_of.simps, auto)
  next
    case 3
    obtain g' E' where g': "set_next It_in (tail_at It_in ?g n) a ?g = Some g'" "conc_inv g0 (goto i (In_tail r a x) (c\<lparr>c_tree := g'\<rparr>)) L E' T"
    proof -
      have "mid J (In_tail r a x) = mid J (c_threads c i)" if "J \<noteq> It_in" for J using that 3 by (cases J) simp_all
      moreover have "pending J (In_tail r a x) = pending J (c_threads c i)" for J using 3 by (cases J) simp_all
      moreover have "arc_in ?g x" using D(4) [of i] 3 by simp
      ultimately show ?thesis using set_next_step [OF inv n(2) L, of i "In_tail r a x" a] 3 n(1) lc same_data_ok that by fastforce
    qed
    show ?thesis by (rule tree_fine [OF _ g']) (simp add: thread_step.simps Let_def 3 with_value_def tl del: tail_at.simps tail_of.simps)
  next
    case 4
    obtain g' L' E' where g': "set_tail It_in (int n) (int k) ?g = Some g'" "conc_inv g0 (goto i (In_unlock_arc r a x) (c\<lparr>c_tree := g'\<rparr>)) L' E' T"
    proof -
      have "mid J (In_unlock_arc r a x) = mid J (c_threads c i)" "pending J (In_unlock_arc r a x) = pending J (c_threads c i)" if "J \<noteq> It_in" for J
        using that 4 by (cases J; simp)+
      moreover have "arc_in ?g x" using D(4) [of i] 4 by simp
      ultimately show ?thesis using set_tail_step [OF inv n(2), of i It_in k "In_unlock_arc r a x"] 4 n(1) lc k T same_data_ok that by fastforce
    qed
    show ?thesis by (rule tree_fine [OF _ g']) (simp add: thread_step.simps Let_def 4 n k)
  next
    case 5
    then show ?thesis
      by (intro release_fine [OF inv, where q = "In_unlock_node r a" and l = "ArcLock x"])
        (auto simp: thread_step.simps Let_def lc)
  next
    case 6
    then show ?thesis
      by (intro release_fine [OF inv, where q = "Out_lock_node r a (req_target r)" and l = "NodeLock (req_target r)"])
        (use lc T in \<open>auto simp: thread_step.simps Let_def arc_made_def new_node_of_def\<close>)
  qed
qed

lemma out_fine:
  assumes inv: "conc_inv g0 c L E T"
    and p: "c_threads c i \<in> {New_unlock r a t, Out_lock_node r a t, Out_test r a t, Out_head r a t, Out_new_tail r a t, Out_lock_arc r a t, Out_next r a t x,
      Out_tail r a t x, Out_unlock_arc r a t x}"
  shows "step_fine g0 i c"
proof -
  let ?g = "c_tree c"
  note D = conc_invD [OF inv]
  have lc: "request_ok ?g r" "link_made ?g T r a t" using D(4) [of i] p by auto
  obtain n where n: "req_source r = int n" "n < n_nodes ?g" using source_node [OF lc(1)] .
  obtain k where k: "k < n_arcs ?g" "a = int k" using lc(2) arc_in_int by (auto simp: link_made_def new_arc_ok_def)
  have src: "end_of It_out T ?g k = int n" using lc(2) k n by (simp add: link_made_def)
  have hd: "it_head It_out ?g (req_source r) = Some (head_out (m_nodes ?g ! n))" using n by simp
  have L: "NodeLock (int n) \<in> holds (c_threads c i) \<Longrightarrow> mid It_out (c_threads c i) = None \<Longrightarrow>
    head_out (m_nodes ?g ! n) = invalid_arc \<longleftrightarrow> L It_out n = []" by (rule empty_list [OF inv n(2)])
  have tl: "tail_of It_out ?g (req_source r) = Some (tail_at It_out ?g n)" unfolding n(1) by (rule tail_of_int [OF n(2)])
  have tin: "L It_out n \<noteq> [] \<Longrightarrow> arc_in ?g (tail_at It_out ?g n)" by (rule list_arc_in [OF D(1) n(2)])
  have kP: "pending It_out (c_threads c i) = Some a \<Longrightarrow> k \<in> pendings (c_threads c) It_out" by (rule pending_in [where i = i]) (simp add: k)
  from p consider "c_threads c i = New_unlock r a t" | "c_threads c i = Out_lock_node r a t" | "c_threads c i = Out_test r a t" | "c_threads c i = Out_head r a t"
    | "c_threads c i = Out_new_tail r a t" | "c_threads c i = Out_lock_arc r a t" | "c_threads c i = Out_next r a t x" | "c_threads c i = Out_tail r a t x"
    | "c_threads c i = Out_unlock_arc r a t x" by blast
  then show ?thesis
  proof cases
    case 1
    then show ?thesis
      by (intro release_fine [OF inv, where q = "Out_lock_node r a t" and l = "ArcLock a"]) (auto simp: thread_step.simps Let_def lc)
  next
    case 2
    then show ?thesis
      by (intro acquire_fine [OF inv, where q = "Out_test r a t" and l = "NodeLock (req_source r)"]) (simp_all add: thread_step.simps Let_def lc)
  next
    case 3
    show ?thesis
    proof (cases "head_out (m_nodes ?g ! n) = invalid_arc")
      case False
      have "conc_inv g0 (goto i (Out_lock_arc r a t) c) L E T"
      proof (rule lock_step [OF inv])
        show "pending I (Out_lock_arc r a t) = pending I (c_threads c i)" "mid I (Out_lock_arc r a t) = mid I (c_threads c i)" for I using 3 by (cases I; simp)+
        show "locks_ok (c_locks (goto i (Out_lock_arc r a t) c)) (c_threads (goto i (Out_lock_arc r a t) c))"
          using locks_same [where th = "c_threads c" and i = i and q = "Out_lock_arc r a t", OF D(3)] 3 by simp
      qed (use 3 lc False n in simp_all)
      then show ?thesis using 3 False hd by (auto simp: step_fine_def thread_step.simps Let_def with_value_def simp del: it_head.simps)
    next
      case True
      then have e: "L It_out n = []" using L 3 n(1) by simp
      show ?thesis
      proof (cases r)
        case (Add_arc s t' d)
        obtain g' L' E' where "set_tail It_out (int n) (int k) ?g = Some g'" "conc_inv g0 (goto i (Out_head r a t) (c\<lparr>c_tree := g'\<rparr>)) L' E' T"
        proof -
          have "mid J (Out_head r a t) = mid J (c_threads c i)" "pending J (Out_head r a t) = pending J (c_threads c i)" for J using 3 by (cases J; simp)+
          then show ?thesis using first_tail_step [OF inv n(2) e, of i "Out_head r a t" "int k"] 3 n(1) lc k True same_data_ok that by fastforce
        qed
        then show ?thesis
          by (intro tree_fine [where q = "Out_head r a t" and i = i]) (use 3 hd True n k Add_arc in \<open>simp_all add: thread_step.simps Let_def with_value_def del: it_head.simps set_tail.simps\<close>)
      next
        case (Add_node s da dn)
        obtain g' L' E' where "set_head_out (int n) a ?g = Some g'" "conc_inv g0 (goto i (Out_new_tail r a t) (c\<lparr>c_tree := g'\<rparr>)) L' E' T"
        proof -
          have P: "pendings ((c_threads c)(i := Out_new_tail r a t)) It_out = pendings (c_threads c) It_out"
            by (rule pendings_same [where th = "c_threads c"]) (simp add: 3)
          have "(L It_out)(n := []) = L It_out" using e by auto
          then show ?thesis
            using head_step [OF inv n(2), of i a "[]" a "Out_new_tail r a t"] list_inv_head_first [OF D(1) n(2) e, of _ a] 3 n(1) lc P same_data_ok that by fastforce
        qed
        then show ?thesis
          by (intro tree_fine [where q = "Out_new_tail r a t" and i = i]) (use 3 hd True n Add_node in \<open>simp_all add: thread_step.simps Let_def with_value_def del: it_head.simps\<close>)
      qed
    qed
  next
    case 4
    then have hl: "head_out (m_nodes ?g ! n) = invalid_arc" "tail_at It_out ?g n = int k" using D(4) [of i] n k by simp_all
    then have e: "L It_out n = []" using L 4 n(1) by simp
    obtain g' L' E' where "set_head_out (int n) a ?g = Some g'" "conc_inv g0 (goto i (Out_unlock_node r a t) (c\<lparr>c_tree := g'\<rparr>)) L' E' T"
    proof -
      have P: "pendings ((c_threads c)(i := Out_unlock_node r a t)) It_out = pendings (c_threads c) It_out - {k}"
        by (rule pendings_remove [OF inv]) (simp_all add: 4 k)
      show ?thesis
        using head_step [OF inv n(2), of i a "[k]" invalid_arc "Out_unlock_node r a t"] list_inv_head_after_tail [OF D(1) n(2) e hl(2) kP src] 4 n(1) lc P k
          same_data_ok that by fastforce
    qed
    then show ?thesis by (intro tree_fine [where q = "Out_unlock_node r a t" and i = i]) (use 4 n in \<open>simp_all add: thread_step.simps Let_def\<close>)
  next
    case 5
    obtain g' L' E' where g': "set_tail It_out (int n) (int k) ?g = Some g'" "conc_inv g0 (goto i (Out_unlock_node r a t) (c\<lparr>c_tree := g'\<rparr>)) L' E' T"
    proof -
      have "mid J (Out_unlock_node r a t) = mid J (c_threads c i)" "pending J (Out_unlock_node r a t) = pending J (c_threads c i)" if "J \<noteq> It_out" for J
        using that 5 by (cases J; simp)+
      then show ?thesis using set_tail_step [OF inv n(2) _ src, of i "Out_unlock_node r a t"] 5 n(1) lc k same_data_ok that by fastforce
    qed
    show ?thesis by (rule tree_fine [OF _ g']) (simp add: thread_step.simps Let_def 5 n k)
  next
    case 6
    then have "L It_out n \<noteq> []" using D(4) [of i] L n by auto
    with 6 tl tin lc D(4) [of i] show ?thesis
      by (intro acquire_fine [OF inv, where q = "Out_next r a t (tail_at It_out ?g n)" and l = "ArcLock (tail_at It_out ?g n)"])
        (simp_all add: thread_step.simps Let_def with_value_def del: tail_at.simps tail_of.simps, auto)
  next
    case 7
    then have e: "L It_out n \<noteq> []" using D(4) [of i] L n by auto
    obtain g' E' where g': "set_next It_out (tail_at It_out ?g n) a ?g = Some g'" "conc_inv g0 (goto i (Out_tail r a t x) (c\<lparr>c_tree := g'\<rparr>)) L E' T"
    proof -
      have "mid J (Out_tail r a t x) = mid J (c_threads c i)" if "J \<noteq> It_out" for J using that 7 by (cases J) simp_all
      moreover have "pending J (Out_tail r a t x) = pending J (c_threads c i)" for J using 7 by (cases J) simp_all
      moreover have "arc_in ?g x" using D(4) [of i] 7 by simp
      ultimately show ?thesis using set_next_step [OF inv n(2) e, of i "Out_tail r a t x" a] 7 n(1) lc same_data_ok that by fastforce
    qed
    show ?thesis by (rule tree_fine [OF _ g']) (simp add: thread_step.simps Let_def 7 with_value_def tl del: tail_at.simps tail_of.simps)
  next
    case 8
    obtain g' L' E' where g': "set_tail It_out (int n) (int k) ?g = Some g'" "conc_inv g0 (goto i (Out_unlock_arc r a t x) (c\<lparr>c_tree := g'\<rparr>)) L' E' T"
    proof -
      have "mid J (Out_unlock_arc r a t x) = mid J (c_threads c i)" "pending J (Out_unlock_arc r a t x) = pending J (c_threads c i)" if "J \<noteq> It_out" for J
        using that 8 by (cases J; simp)+
      moreover have "arc_in ?g x" using D(4) [of i] 8 by simp
      ultimately show ?thesis using set_tail_step [OF inv n(2) _ src, of i "Out_unlock_arc r a t x"] 8 n(1) lc k same_data_ok that by fastforce
    qed
    show ?thesis by (rule tree_fine [OF _ g']) (simp add: thread_step.simps Let_def 8 n k)
  next
    case 9
    then show ?thesis
      by (intro release_fine [OF inv, where q = "Out_unlock_node r a t" and l = "ArcLock x"]) (auto simp: thread_step.simps Let_def lc)
  qed
qed

theorem all_fine:
  assumes "conc_inv g0 c L E T"
  shows "step_fine g0 i c"
proof (cases "c_threads c i")
  case Idle
  then show ?thesis by (simp add: step_fine_def thread_step.simps Let_def)
qed (use in_fine [OF assms, of i] out_fine [OF assms, of i] called_fine [OF assms] emplace_node_fine [OF assms] set_source_target_fine [OF assms]
  return_fine [OF assms] in \<open>blast, blast, simp_all\<close>)

section \<open>Runs\<close>

lemma set_next_length: "set_next I x a g = Some g' \<Longrightarrow> n_arcs g' = n_arcs g \<and> n_nodes g' = n_nodes g"
  by (auto simp: bind_eq_Some_conv dest: aset_length)

lemma set_tail_length: "set_tail I x a g = Some g' \<Longrightarrow> n_arcs g' = n_arcs g \<and> n_nodes g' = n_nodes g"
  by (auto simp: bind_eq_Some_conv dest: aset_length)

lemma set_head_length: "set_head_out x a g = Some g' \<Longrightarrow> n_arcs g' = n_arcs g \<and> n_nodes g' = n_nodes g"
  by (auto simp: set_head_out_def bind_eq_Some_conv dest: aset_length)

lemma set_source_target_length: "set_source_target x s t g = Some g' \<Longrightarrow> n_arcs g' = n_arcs g \<and> n_nodes g' = n_nodes g"
  by (auto simp: set_source_target_def bind_eq_Some_conv dest: aset_length)

lemma update_tree_Ok: "update_tree i og q c = Ok c' \<Longrightarrow> \<exists>g'. og = Some g' \<and> c' = goto i q (c\<lparr>c_tree := g'\<rparr>)"
  by (auto simp: update_tree_def split: option.splits)

lemma acquire_Ok: "acquire i l q c = Ok c' \<Longrightarrow> c' = goto i q (c\<lparr>c_locks := (c_locks c)(l := Some i)\<rparr>)"
  by (auto simp: acquire_def split: if_splits)

lemma release_Ok: "release i l q c = Ok c' \<Longrightarrow> c' = goto i q (c\<lparr>c_locks := (c_locks c)(l := None)\<rparr>)"
  by (auto simp: release_def split: if_splits)

lemma with_value_Ok: "with_value ox f = Ok c' \<Longrightarrow> \<exists>x. ox = Some x \<and> f x = Ok c'"
  by (auto simp: with_value_def split: option.splits)

lemmas Ok_dests = update_tree_Ok acquire_Ok release_Ok with_value_Ok

text \<open>The steps that are left of an operation; each step makes them fewer and leaves the other threads where they are.\<close>

fun steps_left :: "('a, 'n) thread \<Rightarrow> nat" where
  "steps_left Idle = 0"
| "steps_left (Called r) = 14"
| "steps_left (In_lock_node r a) = 13"
| "steps_left (In_lock_arc r a) = 12"
| "steps_left (In_next r a x) = 11"
| "steps_left (In_tail r a x) = 10"
| "steps_left (In_unlock_arc r a x) = 9"
| "steps_left (In_unlock_node r a) = 8"
| "steps_left (New_node r a) = 10"
| "steps_left (New_set r a t) = 9"
| "steps_left (New_unlock r a t) = 8"
| "steps_left (Out_lock_node r a t) = 7"
| "steps_left (Out_test r a t) = 6"
| "steps_left (Out_head r a t) = 2"
| "steps_left (Out_new_tail r a t) = 2"
| "steps_left (Out_lock_arc r a t) = 5"
| "steps_left (Out_next r a t x) = 4"
| "steps_left (Out_tail r a t x) = 3"
| "steps_left (Out_unlock_arc r a t x) = 2"
| "steps_left (Out_unlock_node r a t) = 1"

lemma thread_step_Ok:
  assumes "thread_step i c = Ok c'"
  shows "steps_left (c_threads c' i) < steps_left (c_threads c i)" "j \<noteq> i \<Longrightarrow> c_threads c' j = c_threads c j"
    "n_arcs (c_tree c) \<le> n_arcs (c_tree c')" "n_nodes (c_tree c) \<le> n_nodes (c_tree c')"
proof -
  have "steps_left (c_threads c' i) < steps_left (c_threads c i) \<and> (j \<noteq> i \<longrightarrow> c_threads c' j = c_threads c j) \<and>
    n_arcs (c_tree c) \<le> n_arcs (c_tree c') \<and> n_nodes (c_tree c) \<le> n_nodes (c_tree c')"
  proof (cases "c_threads c i")
    case (Called r)
    with assms show ?thesis by (cases r) (auto simp: thread_step.simps Let_def arena_emplace_back_def)
  next
    case (New_node r a)
    with assms show ?thesis by (cases r) (auto simp: thread_step.simps Let_def arena_emplace_back_def)
  next
    case (Out_test r a t)
    with assms show ?thesis
      by (cases r) (auto simp: thread_step.simps Let_def dest!: Ok_dests set_tail_length set_head_length split: if_splits simp del: set_tail.simps)
  qed (use assms in \<open>auto simp: thread_step.simps Let_def dest!: Ok_dests set_next_length set_tail_length set_head_length set_source_target_length
      simp del: set_next.simps set_tail.simps tail_of.simps\<close>)
  then show "steps_left (c_threads c' i) < steps_left (c_threads c i)" "j \<noteq> i \<Longrightarrow> c_threads c' j = c_threads c j"
    "n_arcs (c_tree c) \<le> n_arcs (c_tree c')" "n_nodes (c_tree c) \<le> n_nodes (c_tree c')" by blast+
qed

lemma conc_inv_new:
  assumes wf: "tree_wf g" "entered g"
  shows "conc_inv g (threads_new g) (\<lambda>I n. arcs_of I g (int n)) (\<lambda>I n. invalid_arc) (\<lambda>a. if a = 0 then 0 else target (m_arcs g ! a))"
proof -
  let ?T = "\<lambda>a. if a = 0 then 0 else target (m_arcs g ! a)" and ?th = "c_threads (threads_new g)"
  have ne: "0 < n_arcs g" using wf(1) by (simp add: tree_wf_def)
  have ok: "out_ok g (n_arcs g)" "in_ok g (n_arcs g)" using wf(1) by (simp_all add: tree_wf_def)
  have e: "next_of It_in g = (\<lambda>a. next_in (m_arcs g ! a))" "next_of It_out g = (\<lambda>a. next_out (m_arcs g ! a))" by (simp_all add: fun_eq_iff)
  have l: "list_ok (next_of I g) (head_at I g n) (tail_at I g n) (arcs_of I g (int n))" if "n < n_nodes g" for I n
    using ok that by (cases I) (simp_all add: out_ok_def in_ok_def e)
  have set: "a \<in> set (arcs_of I g (int n)) \<longleftrightarrow> a < n_arcs g \<and> end_of I ?T g a = int n" for I n a by (cases I) (auto simp: ins_def outs_def)
  have lt: "end_of I ?T g a < int (n_nodes g)" if "a < n_arcs g" for I a
  proof -
    have a: "node_in g (target (m_arcs g ! a))" "if a = 0 then source (m_arcs g ! a) = invalid_node else node_in g (source (m_arcs g ! a))"
      using wf(1) that by (simp_all add: tree_wf_def arcs_ok_def)
    have "0 < n_nodes g" using a(1) by (auto simp: node_in_def nodeNum_def arena_size_def)
    with a node_in_less show ?thesis by (cases I) (auto simp: invalid_node_def split: if_splits)
  qed
  have P: "pendings ?th I = {}" for I by (cases I) (simp_all add: pendings_def threads_new_def)
  have "list_inv g (\<lambda>n. arcs_of I g (int n)) (\<lambda>n. invalid_arc) ?T {} I" for I
  proof (rule list_invI)
    fix n assume n: "n < n_nodes g"
    show "seg (next_of I g) (head_at I g n) (arcs_of I g (int n)) invalid_arc" using l [OF n, of I] by (simp add: seg_chain list_ok_def)
    show "arcs_of I g (int n) \<noteq> [] \<Longrightarrow> tail_at I g n = int (last (arcs_of I g (int n)))" using l [OF n, of I] by (simp add: list_ok_def)
    show "distinct (arcs_of I g (int n))" by (cases I) simp_all
    show "I = It_in \<Longrightarrow> arcs_of I g (int n) \<noteq> []" using wf(2) n by (simp add: entered_def)
    show "a \<in> set (arcs_of I g (int n)) \<longleftrightarrow> a < n_arcs g \<and> a \<notin> {} \<and> end_of I ?T g a = int n" for a using set by simp
  qed (use lt in auto)
  moreover have "ends_ok (n_nodes g) ?th (\<lambda>I n. invalid_arc)"
  proof -
    have "mid I (?th i) = None" for I i by (cases I) (simp_all add: threads_new_def)
    then show ?thesis by (simp add: ends_ok_def)
  qed
  ultimately show ?thesis unfolding conc_inv_def P using ne
    by (auto simp: threads_new_def locks_ok_def targets_ok_def base_ok_def tickets_def done_arcs_def done_nodes_def)
qed

lemma reach_small: "threads_reach g c \<Longrightarrow> thread_step i c = Ok c' \<Longrightarrow> small (c_tree c') \<Longrightarrow> small (c_tree c)"
  using thread_step_Ok(3,4) [of i c c'] by (simp add: small_def)

lemma reach_conc_inv:
  assumes "threads_reach g c" "tree_wf g" "entered g" "small (c_tree c)"
  shows "\<exists>L E T. conc_inv g c L E T"
  using assms(1,4)
proof (induction rule: threads_reach.induct)
  case new
  show ?case using conc_inv_new [OF assms(2,3)] by blast
next
  case (call c i r)
  then obtain L E T where inv: "conc_inv g c L E T" by auto
  have "conc_inv g (goto i (Called r) c) L E T"
  proof (rule lock_step [OF inv])
    show "pending I (Called r) = pending I (c_threads c i)" "mid I (Called r) = mid I (c_threads c i)" for I using call(2) by (cases I; simp)+
    show "locks_ok (c_locks (goto i (Called r) c)) (c_threads (goto i (Called r) c))"
      using locks_same [where th = "c_threads c" and i = i and q = "Called r", OF conc_invD(3) [OF inv]] call(2) by simp
  qed (use call in simp_all)
  then show ?case by blast
next
  case (step c i c')
  then obtain L E T where "conc_inv g c L E T" using reach_small by blast
  from all_fine [OF this, of i] step show ?case by (simp add: step_fine_def)
qed

end
