(* ===== verification/Rooted_Digraph_Concurrent.thy ===== *)
theory Rooted_Digraph_Concurrent
  imports Rooted_Digraph_Threads_Spec
begin

text \<open>The properties of threads that add arcs and nodes to one digraph at the same time, whatever the order of their steps.\<close>

section \<open>When no thread is at work\<close>

text \<open>The linked lists of every node hold its arcs, in some order.\<close>

definition lists_sound :: "('a, 'n) tree \<Rightarrow> bool" where
  "lists_sound g \<longleftrightarrow> (\<forall>I. \<forall>n < n_nodes g. \<exists>xs. chain (next_of I g) (head_at I g n) xs \<and>
    (xs \<noteq> [] \<longrightarrow> tail_at I g n = int (last xs)) \<and> mset xs = mset (arcs_of I g (int n)))"

text \<open>The graph consists of the old graph and what the operations that have returned were asked to make, each once.\<close>

definition made_once :: "('a, 'n) tree \<Rightarrow> ('a, 'n) threads \<Rightarrow> bool" where
  "made_once g c \<longleftrightarrow> base_ok g (c_tree c) \<and>
    distinct (done_arcs (c_done c)) \<and> set (done_arcs (c_done c)) = {arcNum g..<arcNum (c_tree c)} \<and>
    distinct (done_nodes (c_done c)) \<and> set (done_nodes (c_done c)) = {nodeNum g..<nodeNum (c_tree c)} \<and>
    (\<forall>(r, a, t)\<in>set (c_done c). new_arc_ok (c_tree c) r a \<and> new_node_ok (c_tree c) r a t \<and>
       source (m_arcs (c_tree c) ! nat a) = req_source r \<and> target (m_arcs (c_tree c) ! nat a) = t)"

lemma idle_result:
  assumes inv: "conc_inv g c L E T" and idle: "\<forall>i. c_threads c i = Idle"
  shows "lists_sound (c_tree c) \<and> made_once g c"
proof
  let ?g = "c_tree c"
  note D = conc_invD [OF inv]
  have P: "pendings (c_threads c) I = {}" for I using idle by (cases I) (simp_all add: pendings_def)
  have "mid I (Idle :: ('a, 'b) thread) = None" for I by (cases I) simp_all
  then have E: "E I n = invalid_arc" if "n < n_nodes ?g" for I n using D(2) idle that by (simp add: ends_ok_def)
  have T: "T a = (if a = 0 then 0 else target (m_arcs ?g ! a))" if "a < n_arcs ?g" for a using D(5) idle that by (simp add: targets_ok_def)
  show "lists_sound ?g" unfolding lists_sound_def
  proof (intro allI impI exI conjI)
    fix I n assume n: "n < n_nodes ?g"
    note LD = list_invD [OF D(1) [of I]]
    show "chain (next_of I ?g) (head_at I ?g n) (L I n)" using LD(1) [OF n] E [OF n] by (simp add: seg_chain)
    show "tail_at I ?g n = int (last (L I n))" if "L I n \<noteq> []" by (rule LD(2) [OF n that])
    have "set (L I n) = set (arcs_of I ?g (int n))" using LD(4) [OF n] T by (cases I) (auto simp: P ins_def outs_def)
    moreover have "distinct (arcs_of I ?g (int n))" by (cases I) simp_all
    ultimately show "mset (L I n) = mset (arcs_of I ?g (int n))" using LD(3) [OF n] by (simp add: set_eq_iff_mset_eq_distinct)
  qed
  show "made_once g c" using D(6-9) idle
    by (auto simp: made_once_def tickets_def link_made_def arcNum_def nodeNum_def arena_size_def)
qed


section \<open>In every state\<close>

text \<open>A reader that follows the links comes to an end, also while threads are at work.\<close>

definition lists_readable :: "('a, 'n) tree \<Rightarrow> bool" where
  "lists_readable g \<longleftrightarrow> (\<forall>I. \<forall>n < n_nodes g. \<exists>xs. chain (next_of I g) (head_at I g n) xs \<and> distinct xs \<and> (\<forall>a\<in>set xs. a < n_arcs g))"

lemma mid_pending: "mid I p = Some (n, a) \<Longrightarrow> pending I p = Some a"
  by (cases "(I, p)" rule: mid.cases) auto

lemma local_arc_in: "local_ok g T p \<Longrightarrow> arc_of p = Some a \<Longrightarrow> arc_in g a"
  by (cases p) (auto simp: arc_made_def link_made_def new_arc_ok_def)

lemma readable:
  assumes inv: "conc_inv g c L E T"
  shows "lists_readable (c_tree c)"
  unfolding lists_readable_def
proof (intro allI impI)
  let ?g = "c_tree c"
  fix I n assume n: "n < n_nodes ?g"
  note D = conc_invD [OF inv] and LD = list_invD [OF conc_invD(1) [OF inv, of I]]
  have L: "distinct (L I n)" "\<forall>a\<in>set (L I n). a < n_arcs ?g" "seg (next_of I ?g) (head_at I ?g n) (L I n) (E I n)" using LD(1,3,4) [OF n] by auto
  show "\<exists>xs. chain (next_of I ?g) (head_at I ?g n) xs \<and> distinct xs \<and> (\<forall>a\<in>set xs. a < n_arcs ?g)"
  proof (cases "\<exists>i a. mid I (c_threads c i) = Some (int n, a)")
    case False
    then have "E I n = invalid_arc" using D(2) n by (simp add: ends_ok_def)
    with L show ?thesis by (auto simp: seg_chain)
  next
    case True
    then obtain i a where m: "mid I (c_threads c i) = Some (int n, a)" by blast
    then have e: "E I n = a" using D(2) n by (simp add: ends_ok_def)
    have p: "pending I (c_threads c i) = Some a" by (rule mid_pending [OF m])
    then obtain k where k: "a = int k" using local_arc_in [OF D(4) pending_arc] arc_in_int by blast
    then have kP: "k \<in> pendings (c_threads c) I" using pending_in p by blast
    then have "next_of I ?g k = invalid_arc" "k < n_arcs ?g" "k \<notin> set (L I n)" using LD(6,7) LD(4) [OF n] by auto
    with L e k have "seg (next_of I ?g) (head_at I ?g n) (L I n @ [k]) invalid_arc \<and> distinct (L I n @ [k]) \<and> (\<forall>a\<in>set (L I n @ [k]). a < n_arcs ?g)"
      by simp
    then show ?thesis unfolding seg_chain by blast
  qed
qed

section \<open>Progress\<close>

text \<open>A step of a thread waits only for a lock that another thread holds; what holds the lock of an arc waits for nothing.\<close>

fun waits_for :: "('a, 'n) tree \<Rightarrow> ('a, 'n) thread \<Rightarrow> lock_id option" where
  "waits_for g (In_lock_node r a) = Some (NodeLock (req_target r))"
| "waits_for g (In_lock_arc r a) = map_option ArcLock (tail_of It_in g (req_target r))"
| "waits_for g (Out_lock_node r a t) = Some (NodeLock (req_source r))"
| "waits_for g (Out_lock_arc r a t) = map_option ArcLock (tail_of It_out g (req_source r))"
| "waits_for g p = None"

lemma update_not_blocked [simp]: "update_tree i og q c \<noteq> Blocked"
  by (auto simp: update_tree_def split: option.splits)

lemma release_not_blocked [simp]: "release i l q c \<noteq> Blocked"
  by (simp add: release_def)

lemma emplace_not_blocked [simp]: "emplace_node i r a c \<noteq> Blocked" "first_out i r a t c \<noteq> Blocked"
  by (cases r; simp add: Let_def split: prod.splits)+

lemma with_blocked: "with_value ox f = Blocked \<Longrightarrow> \<exists>x. ox = Some x \<and> f x = Blocked"
  by (auto simp: with_value_def split: option.splits)

lemma acquire_blocked: "acquire i l q c = Blocked \<Longrightarrow> c_locks c l \<noteq> None"
  by (auto simp: acquire_def split: if_splits)

lemma blocked_waits:
  assumes "thread_step i c = Blocked" "c_threads c i \<noteq> Idle"
  shows "\<exists>l. waits_for (c_tree c) (c_threads c i) = Some l \<and> c_locks c l \<noteq> None"
  using assms
  by (cases "c_threads c i")
    (auto simp: thread_step.simps Let_def dest!: with_blocked acquire_blocked split: if_splits simp del: tail_of.simps set_next.simps set_tail.simps it_head.simps)

lemma arc_holder_free: "ArcLock x \<in> holds p \<Longrightarrow> waits_for g p = None \<and> p \<noteq> Idle"
  by (cases p) auto

lemma node_holder: "NodeLock n \<in> holds p \<Longrightarrow> waits_for g p = Some l \<Longrightarrow> \<exists>x. l = ArcLock x"
  by (cases p) auto

lemma progress:
  assumes inv: "conc_inv g c L E T" and i: "c_threads c i \<noteq> Idle"
  shows "\<exists>j c'. thread_step j c = Ok c'"
proof -
  have step: "\<exists>c'. thread_step j c = Ok c'" if "c_threads c j \<noteq> Idle" "thread_step j c \<noteq> Blocked" for j
    using all_fine [OF inv, of j] that by (cases "thread_step j c") (auto simp: step_fine_def)
  have holder: "\<exists>j. l \<in> holds (c_threads c j)" if "c_locks c l \<noteq> None" for l using that conc_invD(3) [OF inv] by (auto simp: locks_ok_def)
  have arc: ?thesis if "ArcLock x \<in> holds (c_threads c j)" for x j
    using blocked_waits [of j c] step [of j] arc_holder_free [OF that, of "c_tree c"] by auto
  have node: ?thesis if n: "NodeLock n \<in> holds (c_threads c j)" for n j
  proof (cases "thread_step j c = Blocked")
    case True
    have "c_threads c j \<noteq> Idle" using n by auto
    with blocked_waits [OF True] node_holder [OF n] holder arc show ?thesis by blast
  next
    case False
    then show ?thesis using step [of j] n by fastforce
  qed
  show ?thesis
  proof (cases "thread_step i c = Blocked")
    case True
    then obtain l where "c_locks c l \<noteq> None" using blocked_waits i by blast
    then obtain j where "l \<in> holds (c_threads c j)" using holder by blast
    then show ?thesis using arc node by (cases l) auto
  qed (use step i in blast)
qed

section \<open>An example\<close>

text \<open>A schedule names the thread that goes next; one that has to wait keeps its place.\<close>

fun run :: "nat list \<Rightarrow> ('a, 'n) threads \<Rightarrow> ('a, 'n) threads option" where
  "run [] c = Some c"
| "run (i # is) c = (case thread_step i c of Fault \<Rightarrow> None | Blocked \<Rightarrow> run is c | Ok c' \<Rightarrow> run is c')"

lemma run_reach:
  "threads_reach g c \<Longrightarrow> run is c = Some c' \<Longrightarrow> threads_reach g c' \<and> (\<forall>j. j \<notin> set is \<longrightarrow> c_threads c' j = c_threads c j)"
proof (induction "is" arbitrary: c)
  case (Cons i "is")
  show ?case
  proof (cases "thread_step i c")
    case (Ok d)
    with Cons.prems Cons.IH [of d] have "threads_reach g c'" "\<forall>j. j \<notin> set is \<longrightarrow> c_threads c' j = c_threads d j" by (auto intro: threads_reach.step)
    moreover have "c_threads d j = c_threads c j" if "j \<noteq> i" for j using thread_step_Ok(2) [OF Ok that] .
    ultimately show ?thesis by simp
  qed (use Cons in auto)
qed simp

text \<open>Two threads add nodes below the root while a third adds an arc from the root to itself.\<close>

definition demo_tree :: "(nat, string) tree" where
  "demo_tree = tree_new 0 ''root''"

definition demo_calls :: "(nat, string) threads" where
  "demo_calls = goto 2 (Called (Add_arc 0 0 3)) (goto 1 (Called (Add_node 0 2 ''b'')) (goto 0 (Called (Add_node 0 1 ''a'')) (threads_new demo_tree)))"

definition demo_end :: "(nat, string) threads" where
  "demo_end = the (run (concat (replicate 24 [2, 0, 1])) demo_calls)"

lemma demo_run:
  "(case run (concat (replicate 24 [2, 0, 1])) demo_calls of None \<Rightarrow> False
    | Some c \<Rightarrow> c_threads c 0 = Idle \<and> c_threads c 1 = Idle \<and> c_threads c 2 = Idle \<and> c_done c = [(Add_node 0 1 ''a'', 2, 1), (Add_node 0 2 ''b'', 3, 2), (Add_arc 0 0 3, 1, 0)] \<and>
      n_arcs (c_tree c) = 4 \<and> n_nodes (c_tree c) = 3)"
  by code_simp

lemma demo_tree_ok: "tree_wf demo_tree" "entered demo_tree"
  unfolding demo_tree_def by (simp_all add: tree_new_ok)

lemma demo_reach: "threads_reach demo_tree demo_calls"
  unfolding demo_calls_def
  by (intro threads_reach.call threads_reach.new) (simp_all add: threads_new_def demo_tree_def tree_new_def arena_emplace_back_def node_in_def nodeNum_def arena_size_def to_int32_id)

lemma demo_end:
  "threads_reach demo_tree demo_end" "\<forall>i. c_threads demo_end i = Idle" "small (c_tree demo_end)" "length (c_done demo_end) = 3"
proof -
  let ?is = "concat (replicate 24 [2, 0, 1 :: nat])"
  obtain c where c: "run ?is demo_calls = Some c" using demo_run by (cases "run ?is demo_calls") simp_all
  then have e: "demo_end = c" by (simp add: demo_end_def)
  have f: "c_threads c 0 = Idle" "c_threads c 1 = Idle" "c_threads c 2 = Idle" "length (c_done c) = 3" "n_arcs (c_tree c) = 4" "n_nodes (c_tree c) = 3"
    using demo_run unfolding c by simp_all
  note r = run_reach [OF demo_reach c]
  show "threads_reach demo_tree demo_end" using r e by simp
  have "c_threads c j = Idle" for j
  proof (cases "j \<in> {0, 1, 2}")
    case False
    then have "c_threads c j = c_threads demo_calls j" using r by auto
    with False show ?thesis by (simp add: demo_calls_def threads_new_def)
  qed (use f in auto)
  then show "\<forall>i. c_threads demo_end i = Idle" unfolding e by blast
  show "small (c_tree demo_end)" "length (c_done demo_end) = 3" unfolding e using f by (simp_all add: small_def)
qed

section \<open>Properties\<close>

text \<open>C8: Any number of threads may add arcs and nodes to one graph at the same time, in any order of their steps: no access goes wrong, the links can be
  followed to an end at every moment, and when all have returned every arc is on the lists of its two ends, the old graph is
  as it was, and every operation has made its own arc, and \<^verbatim>\<open>addNode\<close> its own node, as it was asked to, nothing else being there.\<close>

theorem concurrent_adds_safe:
  assumes "tree_wf g" "entered g" "threads_reach g c" "small (c_tree c)"
  shows "(\<forall>i. thread_step i c \<noteq> Fault) \<and> lists_readable (c_tree c) \<and>
    ((\<forall>i. c_threads c i = Idle) \<longrightarrow> lists_sound (c_tree c) \<and> made_once g c)"
proof -
  obtain L E T where inv: "conc_inv g c L E T" using reach_conc_inv [OF assms(3,1,2,4)] by blast
  have "thread_step i c \<noteq> Fault" for i using all_fine [OF inv, of i] by (auto simp: step_fine_def)
  with readable [OF inv] idle_result [OF inv] show ?thesis by blast
qed

text \<open>C9: Threads that add arcs and nodes never block each other for good: as long as an operation has not returned some thread can make a step, every step
  brings the operation of its thread closer to its end and leaves the others where they are, and no operation has more than fourteen steps.\<close>

theorem concurrent_adds_progress:
  assumes "tree_wf g" "entered g" "threads_reach g c" "small (c_tree c)"
  shows "((\<exists>i. c_threads c i \<noteq> Idle) \<longrightarrow> (\<exists>j c'. thread_step j c = Ok c')) \<and>
    (\<forall>i c'. thread_step i c = Ok c' \<longrightarrow> steps_left (c_threads c' i) < steps_left (c_threads c i) \<and>
       (\<forall>j. j \<noteq> i \<longrightarrow> c_threads c' j = c_threads c j)) \<and>
    (\<forall>i. steps_left (c_threads c i) \<le> 14)"
proof -
  obtain L E T where inv: "conc_inv g c L E T" using reach_conc_inv [OF assms(3,1,2,4)] by blast
  have "steps_left (c_threads c i) \<le> 14" for i by (cases "c_threads c i") simp_all
  with progress [OF inv] thread_step_Ok(1,2) show ?thesis by blast
qed

theorem concurrent_adds_safe_witness:
  "lists_sound (c_tree demo_end) \<and> made_once demo_tree demo_end \<and> length (c_done demo_end) = 3"
  using concurrent_adds_safe [OF demo_tree_ok demo_end(1,3)] demo_end(2,4) by blast

theorem concurrent_adds_progress_witness: "\<exists>j c'. thread_step j demo_calls = Ok c'"
proof -
  have "c_threads demo_calls 0 \<noteq> Idle" by (simp add: demo_calls_def)
  moreover have "small (c_tree demo_calls)"
    by (simp add: demo_calls_def threads_new_def demo_tree_def tree_new_def arena_emplace_back_def small_def)
  ultimately show ?thesis using concurrent_adds_progress [OF demo_tree_ok demo_reach] by blast
qed

end
