(* ===== verification/Rooted_Digraph_11.thy ===== *)
theory Rooted_Digraph_11
  imports Rooted_Digraph_Iter
begin

text \<open>
  Version 1.1 of the rooted directed graph, old/stable_rooted_digraph-1.1.hpp. The classes of arcs, nodes and trees have the fields of version 1.2. What
  differs: the arenas are always concurrent vectors and every arc and node has a lock; \<^verbatim>\<open>addArc\<close> and \<^verbatim>\<open>addNode\<close> take no data, a new
  element has the default data \<open>da\<close> or \<open>dn\<close> until it is assigned; and the printing and the iterators over all arcs or all nodes work, because the
  strong typedefs convert to integers. The locking iterators, the paths and the access to a single element are the text of version 1.2.
\<close>

section \<open>Construction\<close>

text \<open>\<^verbatim>\<open>emplace_back\<close> returns an iterator, whose distance from the first element is the index.\<close>

definition v11_emplace_back :: "'x list \<Rightarrow> 'x \<Rightarrow> index_t \<times> 'x list" where
  "v11_emplace_back m x = (let m' = m @ [x]; it = int (length m') - 1 in (to_int32 it, m'))"

definition v11_Arc :: "'a \<Rightarrow> 'a arc_t" where
  "v11_Arc da = \<lparr>source = invalid_node, target = invalid_node, next_in = invalid_arc, next_out = invalid_arc, a_data = da\<rparr>"

definition v11_Arc_nodes :: "index_t \<Rightarrow> index_t \<Rightarrow> 'a \<Rightarrow> 'a arc_t" where
  "v11_Arc_nodes s t da = \<lparr>source = s, target = t, next_in = invalid_arc, next_out = invalid_arc, a_data = da\<rparr>"

definition v11_Node :: "index_t \<Rightarrow> 'n \<Rightarrow> 'n node_t" where
  "v11_Node a dn = \<lparr>head_in = a, tail_in = a, head_out = invalid_arc, tail_out = invalid_arc, n_data = dn\<rparr>"

definition v11_setSourceTarget :: "index_t \<Rightarrow> index_t \<Rightarrow> 'a arc_t \<Rightarrow> 'a arc_t" where
  "v11_setSourceTarget s t x = x\<lparr>source := s, target := t\<rparr>"

definition v11_Tree :: "'a \<Rightarrow> 'n \<Rightarrow> ('a, 'n) tree" where
  "v11_Tree da dn =
    (let (a, arcs) = v11_emplace_back [] (v11_Arc_nodes invalid_node 0 da);
         (n, nodes) = v11_emplace_back [] (v11_Node a dn)
     in \<lparr>m_arcs = arcs, m_nodes = nodes, root_arc = 0, root_node = 0\<rparr>)"

definition v11_setRoot :: "index_t \<Rightarrow> ('a, 'n) tree \<Rightarrow> ('a, 'n) tree option" where
  "v11_setRoot n g = do {
     x \<leftarrow> aref (m_arcs g) (root_arc g);
     arcs \<leftarrow> aset (m_arcs g) (root_arc g) (v11_setSourceTarget invalid_node n x);
     Some (g\<lparr>root_node := n, m_arcs := arcs\<rparr>) }"

definition v11_resetRoot :: "('a, 'n) tree \<Rightarrow> ('a, 'n) tree option" where
  "v11_resetRoot g = do {
     x \<leftarrow> aref (m_arcs g) (root_arc g);
     arcs \<leftarrow> aset (m_arcs g) (root_arc g) (v11_setSourceTarget invalid_node 0 x);
     Some (g\<lparr>root_node := 0, m_arcs := arcs\<rparr>) }"

section \<open>Adding arcs and nodes\<close>

text \<open>Chained assignments run from right to left: the link of the old tail, then the tail.\<close>

definition v11_link_in :: "index_t \<Rightarrow> index_t \<Rightarrow> ('a, 'n) tree \<Rightarrow> ('a, 'n) tree option" where
  "v11_link_in t a g = do {
     nt \<leftarrow> aref (m_nodes g) t;
     x \<leftarrow> aref (m_arcs g) (tail_in nt);
     arcs \<leftarrow> aset (m_arcs g) (tail_in nt) (x\<lparr>next_in := a\<rparr>);
     nodes \<leftarrow> aset (m_nodes g) t (nt\<lparr>tail_in := a\<rparr>);
     Some (g\<lparr>m_arcs := arcs, m_nodes := nodes\<rparr>) }"

definition v11_link_out :: "index_t \<Rightarrow> index_t \<Rightarrow> ('a, 'n) tree \<Rightarrow> ('a, 'n) tree option" where
  "v11_link_out s a g = do {
     ns \<leftarrow> aref (m_nodes g) s;
     if head_out ns = invalid_arc then do {
       nodes \<leftarrow> aset (m_nodes g) s (ns\<lparr>head_out := a, tail_out := a\<rparr>);
       Some (g\<lparr>m_nodes := nodes\<rparr>) }
     else do {
       x \<leftarrow> aref (m_arcs g) (tail_out ns);
       arcs \<leftarrow> aset (m_arcs g) (tail_out ns) (x\<lparr>next_out := a\<rparr>);
       nodes \<leftarrow> aset (m_nodes g) s (ns\<lparr>tail_out := a\<rparr>);
       Some (g\<lparr>m_arcs := arcs, m_nodes := nodes\<rparr>) } }"

definition v11_addArcUnsafe :: "'a \<Rightarrow> index_t \<Rightarrow> index_t \<Rightarrow> ('a, 'n) tree \<Rightarrow> (link \<times> ('a, 'n) tree) option" where
  "v11_addArcUnsafe da s t g = do {
     let (a, arcs) = v11_emplace_back (m_arcs g) (v11_Arc_nodes s t da);
     g \<leftarrow> v11_link_in t a (g\<lparr>m_arcs := arcs\<rparr>);
     g \<leftarrow> v11_link_out s a g;
     Some ((a, t), g) }"

definition v11_addNodeUnsafe :: "'a \<Rightarrow> 'n \<Rightarrow> index_t \<Rightarrow> ('a, 'n) tree \<Rightarrow> (link \<times> ('a, 'n) tree) option" where
  "v11_addNodeUnsafe da dn s g = do {
     let (a, arcs) = v11_emplace_back (m_arcs g) (v11_Arc da);
     let (t, nodes) = v11_emplace_back (m_nodes g) (v11_Node a dn);
     x \<leftarrow> aref arcs a;
     arcs \<leftarrow> aset arcs a (v11_setSourceTarget s t x);
     g \<leftarrow> v11_link_out s a (g\<lparr>m_arcs := arcs, m_nodes := nodes\<rparr>);
     Some ((a, t), g) }"

text \<open>The link into the out-list under the locks of the source and of its last arc, the end of \<^verbatim>\<open>addArc\<close> and of \<^verbatim>\<open>addNode\<close>.\<close>

definition v11_link_out_locked :: "'w locks \<Rightarrow> index_t \<Rightarrow> index_t \<Rightarrow> ('a, 'n) tree \<Rightarrow> 'w \<Rightarrow> (('a, 'n) tree \<times> 'w) option" where
  "v11_link_out_locked K s a g w = do {
     w \<leftarrow> lk_lock K (NodeLock s) w;
     ns \<leftarrow> aref (m_nodes g) s;
     (g, w) \<leftarrow> (if head_out ns = invalid_arc then do { g \<leftarrow> v11_link_out s a g; Some (g, w) }
       else do {
         w \<leftarrow> lk_lock K (ArcLock (tail_out ns)) w;
         g \<leftarrow> v11_link_out s a g;
         w \<leftarrow> lk_unlock K (ArcLock (tail_out ns)) w;
         Some (g, w) });
     w \<leftarrow> lk_unlock K (NodeLock s) w;
     Some (g, w) }"

definition v11_addArc :: "'w locks \<Rightarrow> 'a \<Rightarrow> index_t \<Rightarrow> index_t \<Rightarrow> ('a, 'n) tree \<Rightarrow> 'w \<Rightarrow> (link \<times> ('a, 'n) tree \<times> 'w) option" where
  "v11_addArc K da s t g w = do {
     let (a, arcs) = v11_emplace_back (m_arcs g) (v11_Arc_nodes s t da);
     w \<leftarrow> lk_lock K (NodeLock t) w;
     nt \<leftarrow> aref (m_nodes g) t;
     w \<leftarrow> lk_lock K (ArcLock (tail_in nt)) w;
     g \<leftarrow> v11_link_in t a (g\<lparr>m_arcs := arcs\<rparr>);
     w \<leftarrow> lk_unlock K (ArcLock (tail_in nt)) w;
     w \<leftarrow> lk_unlock K (NodeLock t) w;
     (g, w) \<leftarrow> v11_link_out_locked K s a g w;
     Some ((a, t), g, w) }"

definition v11_addNode :: "'w locks \<Rightarrow> 'a \<Rightarrow> 'n \<Rightarrow> index_t \<Rightarrow> ('a, 'n) tree \<Rightarrow> 'w \<Rightarrow> (link \<times> ('a, 'n) tree \<times> 'w) option" where
  "v11_addNode K da dn s g w = do {
     let (a, arcs) = v11_emplace_back (m_arcs g) (v11_Arc da);
     w \<leftarrow> lk_lock K (ArcLock a) w;
     let (t, nodes) = v11_emplace_back (m_nodes g) (v11_Node a dn);
     x \<leftarrow> aref arcs a;
     arcs \<leftarrow> aset arcs a (v11_setSourceTarget s t x);
     w \<leftarrow> lk_unlock K (ArcLock a) w;
     (g, w) \<leftarrow> v11_link_out_locked K s a (g\<lparr>m_arcs := arcs, m_nodes := nodes\<rparr>) w;
     Some ((a, t), g, w) }"

section \<open>All arcs, all nodes\<close>

text \<open>\<^verbatim>\<open>ArcIt\<close> and \<^verbatim>\<open>NodeIt\<close> count from the root arc or the root node to the size of the arena, at which they end; one that starts behind it would
  not end, so the loop has the distance to the end as its measure.\<close>

function all_from :: "index_t \<Rightarrow> index_t \<Rightarrow> index_t list option" where
  "all_from x e = (if x = e then Some [] else if x < e then map_option (\<lambda>xs. x # xs) (all_from (x + 1) e) else None)"
  by auto
termination by (relation "measure (\<lambda>(x, e). nat (e - x))") auto

declare all_from.simps [simp del, code]

definition ArcIt_all :: "('a, 'n) tree \<Rightarrow> index_t list option" where
  "ArcIt_all g = all_from (root_arc g) (to_int32 (int (length (m_arcs g))))"

definition NodeIt_all :: "('a, 'n) tree \<Rightarrow> index_t list option" where
  "NodeIt_all g = all_from (root_node g) (to_int32 (int (length (m_nodes g))))"

text \<open>\<^verbatim>\<open>randomNode\<close> draws from 1 to the last node; the distribution requires a range that is not empty.\<close>

definition randomNode :: "(index_t \<Rightarrow> index_t \<Rightarrow> 'r \<Rightarrow> index_t \<times> 'r) \<Rightarrow> ('a, 'n) tree \<Rightarrow> 'r \<Rightarrow> (index_t \<times> 'r) option" where
  "randomNode unif g r =
    (let hi = to_int32 (int (length (m_nodes g)) - 1) in if 1 \<le> hi then Some (unif 1 hi r) else None)"

text \<open>A value for every arc, or every node, that exists when the map is made.\<close>

definition ArcMap_new :: "'v \<Rightarrow> ('a, 'n) tree \<Rightarrow> 'v list" where
  "ArcMap_new v g = replicate (length (m_arcs g)) v"

definition NodeMap_new :: "'v \<Rightarrow> ('a, 'n) tree \<Rightarrow> 'v list" where
  "NodeMap_new v g = replicate (length (m_nodes g)) v"

section \<open>Printing\<close>

definition inv_print :: "index_t \<Rightarrow> string" where
  "inv_print x = (if x = invalid_arc then ''invalid_arc'' else if x = invalid_node then ''invalid_node'' else decimal x)"

definition printArc :: "index_t \<Rightarrow> ('a, 'n) tree \<Rightarrow> string option" where
  "printArc a g = do {
     x \<leftarrow> aref (m_arcs g) a;
     Some (''Arc      '' @ inv_print a @ newline @
           ''Source   '' @ inv_print (source x) @ newline @
           ''Next out '' @ inv_print (next_out x) @ newline @
           ''Target   '' @ inv_print (target x) @ newline @
           ''Next in  '' @ inv_print (next_in x) @ newline @
           newline) }"

definition printNode :: "index_t \<Rightarrow> ('a, 'n) tree \<Rightarrow> string option" where
  "printNode n g = do {
     x \<leftarrow> aref (m_nodes g) n;
     Some (''Node     '' @ inv_print n @ newline @
           ''Head in  '' @ inv_print (head_in x) @ newline @
           ''Tail in  '' @ inv_print (tail_in x) @ newline @
           ''Head out '' @ inv_print (head_out x) @ newline @
           ''Tail out '' @ inv_print (tail_out x) @ newline @
           newline) }"

section \<open>Slicing\<close>

text \<open>Marking the old node and copying its data to the root, the loop over the arcs of a node, and the loops over the work lists.\<close>

definition v11_slice_start ::
  "('a, 'n) tree \<Rightarrow> ('a, 'n) tree \<Rightarrow> index_t \<Rightarrow> (('a, 'n) tree \<times> index_t list \<times> index_t list) option"
where
  "v11_slice_start g new old = do {
     visited \<leftarrow> aset (NodeMap_new invalid_node g) old (root_node g);
     d \<leftarrow> node_data old g;
     new \<leftarrow> set_node_data (root_node g) d new;
     Some (new, visited, [old]) }"

partial_function (option) v11_slice_arcs ::
  "'a \<Rightarrow> 'n \<Rightarrow> ('a, 'n) tree \<Rightarrow> index_t \<Rightarrow> index_t \<Rightarrow> ('a, 'n) tree \<times> index_t list \<times> index_t list \<Rightarrow>
   (('a, 'n) tree \<times> index_t list \<times> index_t list) option"
where
  "v11_slice_arcs da dn g parent a st =
    (if a = invalid_arc then Some st
     else do {
       let (new, visited, work) = st;
       child \<leftarrow> arc_target a g;
       vc \<leftarrow> aref visited child;
       vp \<leftarrow> aref visited parent;
       ad \<leftarrow> arc_data a g;
       st \<leftarrow> (if vc = invalid_node then do {
           ((la, lt), new) \<leftarrow> v11_addNodeUnsafe da dn vp new;
           visited \<leftarrow> aset visited child lt;
           new \<leftarrow> set_arc_data la ad new;
           nd \<leftarrow> node_data child g;
           new \<leftarrow> set_node_data lt nd new;
           Some (new, visited, work @ [child]) }
         else do {
           ((la, lt), new) \<leftarrow> v11_addArcUnsafe da vp vc new;
           new \<leftarrow> set_arc_data la ad new;
           Some (new, visited, work) });
       a' \<leftarrow> OutIt_next g a;
       v11_slice_arcs da dn g parent a' st })"

partial_function (option) v11_sliceDF_loop ::
  "'a \<Rightarrow> 'n \<Rightarrow> ('a, 'n) tree \<Rightarrow> ('a, 'n) tree \<times> index_t list \<times> index_t list \<Rightarrow> ('a, 'n) tree option"
where
  "v11_sliceDF_loop da dn g st =
    (let (new, visited, stack) = st in
     if stack = [] then Some new
     else do {
       let parent = last stack;
       a \<leftarrow> OutIt g parent;
       st \<leftarrow> v11_slice_arcs da dn g parent a (new, visited, butlast stack);
       v11_sliceDF_loop da dn g st })"

partial_function (option) v11_sliceBF_loop ::
  "'a \<Rightarrow> 'n \<Rightarrow> ('a, 'n) tree \<Rightarrow> ('a, 'n) tree \<times> index_t list \<times> index_t list \<Rightarrow> ('a, 'n) tree option"
where
  "v11_sliceBF_loop da dn g st =
    (let (new, visited, queue) = st in
     if queue = [] then Some new
     else do {
       let parent = hd queue;
       a \<leftarrow> OutIt g parent;
       st \<leftarrow> v11_slice_arcs da dn g parent a (new, visited, tl queue);
       v11_sliceBF_loop da dn g st })"

declare v11_slice_arcs.simps [code] v11_sliceDF_loop.simps [code] v11_sliceBF_loop.simps [code]

definition v11_sliceDF :: "'a \<Rightarrow> 'n \<Rightarrow> ('a, 'n) tree \<Rightarrow> ('a, 'n) tree \<Rightarrow> index_t \<Rightarrow> ('a, 'n) tree option" where
  "v11_sliceDF da dn g new old =
    (if old = invalid_node then Some new
     else do { st \<leftarrow> v11_slice_start g new old; v11_sliceDF_loop da dn g st })"

definition v11_sliceBF :: "'a \<Rightarrow> 'n \<Rightarrow> ('a, 'n) tree \<Rightarrow> ('a, 'n) tree \<Rightarrow> index_t \<Rightarrow> ('a, 'n) tree option" where
  "v11_sliceBF da dn g new old =
    (if old = invalid_node then Some new
     else do { st \<leftarrow> v11_slice_start g new old; v11_sliceBF_loop da dn g st })"

end
