(* ===== verification/Rooted_Digraph_11_Spec.thy ===== *)
theory Rooted_Digraph_11_Spec
  imports Rooted_Digraph_11 Rooted_Digraph_Threads
begin

text \<open>
  Version 1.1 of the digraph does what version 1.2 does when that is given the default data; a graph that is built with it and its slices are
  those of the abstract graph, and what it prints can be read back.
\<close>

section \<open>The two versions\<close>

lemma v11_simps [simp]:
  "v11_emplace_back m x = arena_emplace_back m x" "v11_Arc_nodes s t da = ArcType s t da" "v11_Arc da = ArcType invalid_node invalid_node da"
  "v11_Node a dn = NodeType_arc a dn" "v11_setSourceTarget s t y = setSourceTarget s t y" "v11_link_in t a g = link_in t a g"
  "v11_link_out s a g = link_out s a g"
  by (simp_all add: v11_emplace_back_def arena_emplace_back_def v11_Arc_nodes_def ArcType_def v11_Arc_def v11_Node_def NodeType_arc_def
      v11_setSourceTarget_def setSourceTarget_def v11_link_in_def link_in_def v11_link_out_def link_out_def)

lemma v11_operations:
  "v11_Tree da dn = tree_new da dn" "v11_setRoot n g = setRoot n g" "v11_resetRoot g = resetRoot g"
  "v11_addArcUnsafe da s t g = addArcUnsafe s t da g" "v11_addNodeUnsafe da dn s g = addNodeUnsafe s da dn g"
  "v11_addArc K da s t g w = addArc_locking K s t da g w" "v11_addNode K da dn s g w = addNode_locking K s da dn g w"
  by (simp_all add: v11_Tree_def tree_new_def v11_setRoot_def setRoot_def v11_resetRoot_def resetRoot_def v11_addArcUnsafe_def addArcUnsafe_def
      v11_addNodeUnsafe_def addNodeUnsafe_def v11_addArc_def addArc_locking_def v11_addNode_def addNode_locking_def v11_link_out_locked_def Let_def
      case_prod_unfold cong: if_cong)

lemma v11_slice_start_eq: "v11_slice_start g new old = slice_start g new old"
  by (simp add: v11_slice_start_def slice_start_def NodeMap_new_def nodeNum_def arena_size_def)

lemma v11_slice_arcs_eq:
  assumes "slice_arcs da dn g p a st = Some st'"
  shows "v11_slice_arcs da dn g p a st = Some st'"
  using assms
proof (rule slice_arcs.raw_induct [rotated], goal_cases)
  case (1 f da dn g p a st st')
  obtain new visited work where st: "st = (new, visited, work)" by (rule prod_cases3)
  show ?case
  proof (cases "a = invalid_arc")
    case True
    then show ?thesis using 1(2) by (subst v11_slice_arcs.simps) simp
  next
    case False
    with 1(2) obtain child vc vp ad st1 a' where step: "arc_target a g = Some child" "aref visited child = Some vc" "aref visited p = Some vp"
      "arc_data a g = Some ad" "OutIt_next g a = Some a'" "f da dn g p a' st1 = Some st'"
      "(if vc = invalid_node then do {
           ((la, lt), new) \<leftarrow> addNodeUnsafe vp da dn new;
           visited \<leftarrow> aset visited child lt;
           new \<leftarrow> set_arc_data la ad new;
           nd \<leftarrow> node_data child g;
           new \<leftarrow> set_node_data lt nd new;
           Some (new, visited, work @ [child]) }
         else do {
           ((la, lt), new) \<leftarrow> addArcUnsafe vp vc da new;
           new \<leftarrow> set_arc_data la ad new;
           Some (new, visited, work) }) = Some st1"
      unfolding st by (auto simp only: if_False Let_def bind_eq_Some_conv prod.case)
    from step(1-5) 1(1) [OF step(6)] step(7) False show ?thesis
      by (subst v11_slice_arcs.simps) (simp add: st v11_operations cong: if_cong)
  qed
qed

lemma v11_sliceDF_loop_eq:
  assumes "sliceDF_loop da dn g st = Some t"
  shows "v11_sliceDF_loop da dn g st = Some t"
  using assms
proof (rule sliceDF_loop.raw_induct [rotated], goal_cases)
  case (1 f da dn g st t)
  obtain new visited work where st: "st = (new, visited, work)" by (rule prod_cases3)
  from 1 show ?case by (subst v11_sliceDF_loop.simps) (auto simp: st Let_def bind_eq_Some_conv dest!: v11_slice_arcs_eq split: if_splits)
qed

lemma v11_sliceBF_loop_eq:
  assumes "sliceBF_loop da dn g st = Some t"
  shows "v11_sliceBF_loop da dn g st = Some t"
  using assms
proof (rule sliceBF_loop.raw_induct [rotated], goal_cases)
  case (1 f da dn g st t)
  obtain new visited work where st: "st = (new, visited, work)" by (rule prod_cases3)
  from 1 show ?case by (subst v11_sliceBF_loop.simps) (auto simp: st Let_def bind_eq_Some_conv dest!: v11_slice_arcs_eq split: if_splits)
qed

lemma v11_slices:
  "sliceDF da dn g new old = Some t \<Longrightarrow> v11_sliceDF da dn g new old = Some t"
  "sliceBF da dn g new old = Some t \<Longrightarrow> v11_sliceBF da dn g new old = Some t"
  by (auto simp: sliceDF_def v11_sliceDF_def sliceBF_def v11_sliceBF_def v11_slice_start_eq bind_eq_Some_conv
      dest: v11_sliceDF_loop_eq v11_sliceBF_loop_eq split: if_splits)

section \<open>Building a graph\<close>

text \<open>A client adds an arc or a node and then assigns the data.\<close>

fun v11_add :: "'a \<Rightarrow> 'n \<Rightarrow> ('a, 'n) request \<Rightarrow> ('a, 'n) tree \<Rightarrow> ('a, 'n) tree option" where
  "v11_add da dn (Add_arc s t d) g = do { ((a, t), g) \<leftarrow> v11_addArcUnsafe da s t g; set_arc_data a d g }"
| "v11_add da dn (Add_node s d x) g = do { ((a, t), g) \<leftarrow> v11_addNodeUnsafe da dn s g; g \<leftarrow> set_arc_data a d g; set_node_data t x g }"

fun v11_build :: "'a \<Rightarrow> 'n \<Rightarrow> ('a, 'n) request list \<Rightarrow> ('a, 'n) tree \<Rightarrow> ('a, 'n) tree option" where
  "v11_build da dn [] g = Some g"
| "v11_build da dn (r # rs) g = do { g \<leftarrow> v11_add da dn r g; v11_build da dn rs g }"

fun graph_add :: "('a, 'n) request \<Rightarrow> ('a, 'n) graph \<Rightarrow> ('a, 'n) graph" where
  "graph_add (Add_arc s t d) v = add_arc s t d v"
| "graph_add (Add_node s d x) v = add_arc s (order_of v) d (add_node x v)"

fun graph_build :: "('a, 'n) request list \<Rightarrow> ('a, 'n) graph \<Rightarrow> ('a, 'n) graph" where
  "graph_build [] v = v"
| "graph_build (r # rs) v = graph_build rs (graph_add r v)"

text \<open>Every request names nodes that exist when it is made.\<close>

fun requests_ok :: "int \<Rightarrow> ('a, 'n) request list \<Rightarrow> bool" where
  "requests_ok k [] \<longleftrightarrow> True"
| "requests_ok k (Add_arc s t d # rs) \<longleftrightarrow> 0 \<le> s \<and> s < k \<and> 0 \<le> t \<and> t < k \<and> requests_ok k rs"
| "requests_ok k (Add_node s d x # rs) \<longleftrightarrow> 0 \<le> s \<and> s < k \<and> requests_ok (k + 1) rs"

definition v11_ok :: "('a, 'n) tree \<Rightarrow> bool" where
  "v11_ok g \<longleftrightarrow> tree_wf g \<and> entered g \<and> root_node g = 0"

lemma node_in_iff: "node_in g n \<longleftrightarrow> 0 \<le> n \<and> n < order_of (view g)"
  by (auto simp: node_in_def nodeNum_def arena_size_def view_sel)

lemma v11_add_ok:
  assumes g: "v11_ok g" "length (m_arcs g) < 2 ^ 31" "length (m_nodes g) < 2 ^ 31" and r: "requests_ok (order_of (view g)) (r # rs)"
  shows "\<exists>g'. v11_add da dn r g = Some g' \<and> v11_ok g' \<and> view g' = graph_add r (view g) \<and> requests_ok (order_of (view g')) rs"
proof (cases r)
  case (Add_arc s t d)
  obtain g1 where g1: "addArcUnsafe s t da g = Some ((int (length (m_arcs g)), t), g1)" "tree_wf g1" "entered g1"
    "view g1 = add_arc s t da (view g)" "root_node g1 = root_node g"
    using addArcUnsafe_ok [of g s t da] g r Add_arc by (auto simp: v11_ok_def node_in_iff)
  have l: "length (m_arcs g1) = Suc (length (m_arcs g))" using g1(4) view_sel(2) [of g1] by (simp add: view_sel)
  then obtain g2 where g2: "set_arc_data (int (length (m_arcs g))) d g1 = Some g2" "tree_wf g2" "entered g2"
    "view g2 = (view g1)\<lparr>g_arcs := (g_arcs (view g1))[length (m_arcs g) := (source (m_arcs g1 ! length (m_arcs g)), target (m_arcs g1 ! length (m_arcs g)), d)]\<rparr>"
    "root_node g2 = root_node g1"
    using set_arc_data_ok [OF g1(2), of "length (m_arcs g)" d] g1(3) by auto
  have "source (m_arcs g1 ! length (m_arcs g)) = s" "target (m_arcs g1 ! length (m_arcs g)) = t"
    using view_nth(2) [of "length (m_arcs g)" g1] g1(4) l view_sel(2) [of g] by (auto simp: nth_append)
  then have v: "view g2 = add_arc s t d (view g)" using g2(4) g1(4) view_sel(2) [of g] by (simp add: add_arc_def list_update_append)
  have "v11_add da dn r g = Some g2" using g1(1) g2(1) by (simp add: Add_arc v11_operations)
  moreover have "v11_ok g2" using g(1) g1(5) g2(2,3,5) by (simp add: v11_ok_def)
  ultimately show ?thesis using v r by (simp add: Add_arc)
next
  case (Add_node s d x)
  let ?k = "length (m_arcs g)" and ?N = "length (m_nodes g)"
  obtain g1 where g1: "addNodeUnsafe s da dn g = Some ((int ?k, int ?N), g1)" "tree_wf g1" "entered g1"
    "view g1 = add_arc s (int ?N) da (add_node dn (view g))" "root_node g1 = root_node g"
    using addNodeUnsafe_ok [of g s da dn] g r Add_node by (auto simp: v11_ok_def node_in_iff)
  have l: "length (m_arcs g1) = Suc ?k" "length (m_nodes g1) = Suc ?N" using g1(4) view_sel(1,2) [of g1] by (simp_all add: view_sel)
  then obtain g2 where g2: "set_arc_data (int ?k) d g1 = Some g2" "tree_wf g2" "entered g2"
    "view g2 = (view g1)\<lparr>g_arcs := (g_arcs (view g1))[?k := (source (m_arcs g1 ! ?k), target (m_arcs g1 ! ?k), d)]\<rparr>"
    "root_node g2 = root_node g1"
    using set_arc_data_ok [OF g1(2), of ?k d] g1(3) by auto
  have "length (m_nodes g2) = Suc ?N" using g2(4) view_sel(1) [of g2] l by (simp add: view_sel)
  then obtain g3 where g3: "set_node_data (int ?N) x g2 = Some g3" "tree_wf g3" "entered g3"
    "view g3 = (view g2)\<lparr>g_nodes := (g_nodes (view g2))[?N := x]\<rparr>" "root_node g3 = root_node g2"
    using set_node_data_ok [OF g2(2), of ?N x] g2(3) by auto
  have "source (m_arcs g1 ! ?k) = s" "target (m_arcs g1 ! ?k) = int ?N"
    using view_nth(2) [of ?k g1] g1(4) l view_sel(2) [of g] by (auto simp: nth_append)
  then have v: "view g3 = add_arc s (order_of (view g)) d (add_node x (view g))"
    using g3(4) g2(4) g1(4) view_sel [of g] by (simp add: add_arc_def add_node_def list_update_append)
  have "v11_add da dn r g = Some g3" using g1(1) g2(1) g3(1) by (simp add: Add_node v11_operations)
  moreover have "v11_ok g3" using g(1) g1(5) g2(5) g3(2,3,5) by (simp add: v11_ok_def)
  ultimately show ?thesis using v r by (simp add: Add_node)
qed

lemma v11_build_ok:
  assumes "v11_ok g" "length (m_arcs g) + length rs \<le> 2 ^ 31" "length (m_nodes g) + length rs \<le> 2 ^ 31" "requests_ok (order_of (view g)) rs"
  shows "\<exists>g'. v11_build da dn rs g = Some g' \<and> v11_ok g' \<and> view g' = graph_build rs (view g)
    \<and> length (m_arcs g') = length (m_arcs g) + length rs \<and> length (m_nodes g') \<le> length (m_nodes g) + length rs"
  using assms
proof (induction rs arbitrary: g)
  case (Cons r rs)
  then obtain g' where g': "v11_add da dn r g = Some g'" "v11_ok g'" "view g' = graph_add r (view g)" "requests_ok (order_of (view g')) rs"
    using v11_add_ok [of g r rs da dn] by auto
  have "length (m_arcs g') = Suc (length (m_arcs g))" "length (m_nodes g') \<le> Suc (length (m_nodes g))"
    using g'(3) view_sel(1,2) [of g'] by (cases r; simp add: view_sel)+
  with Cons g' show ?case using Cons.IH [OF g'(2) _ _ g'(4)] by fastforce
qed simp

section \<open>Reading what is printed\<close>

fun lines_of :: "string \<Rightarrow> string list" where
  "lines_of [] = []"
| "lines_of (ch # s) = (if [ch] = newline then [] # lines_of s
     else (case lines_of s of [] \<Rightarrow> [[ch]] | l # ls \<Rightarrow> (ch # l) # ls))"

definition read_index :: "string \<Rightarrow> index_t" where
  "read_index s =
    (if s = ''invalid_arc'' then invalid_arc else if s = ''invalid_node'' then invalid_node
     else if hd s = CHR ''-'' then - int (digits_value (tl s)) else int (digits_value s))"

definition read_print :: "string \<Rightarrow> index_t list" where
  "read_print s = map (\<lambda>l. read_index (drop 9 l)) (take 5 (lines_of s))"

lemma lines_of_line: "hd newline \<notin> set l \<Longrightarrow> lines_of (l @ newline @ s) = l # lines_of s"
  by (induction l) (auto simp: newline_def)

definition digit :: "char \<Rightarrow> bool" where
  "digit ch \<longleftrightarrow> 48 \<le> (of_char ch :: nat) \<and> (of_char ch :: nat) \<le> 57"

lemma decimal_nat_digits: "ch \<in> set (decimal_nat n) \<Longrightarrow> digit ch"
proof (induction n rule: decimal_nat.induct)
  case (1 n)
  show ?case
  proof (cases "n < 10")
    case True
    with 1 show ?thesis by (simp add: decimal_nat.simps [of n] digit_def)
  next
    case False
    with 1 show ?thesis by (auto simp: decimal_nat.simps [of n] digit_def)
  qed
qed

lemma decimal_nat_not_Nil: "decimal_nat n \<noteq> []"
  by (subst decimal_nat.simps) simp

lemma no_digit: "\<not> digit (CHR ''-'')" "\<not> digit (CHR ''i'')" "\<not> digit (hd newline)"
  by (simp_all add: digit_def newline_def)

lemma labels: "hd newline \<notin> set (concat [''-'', ''invalid_arc'', ''invalid_node'', ''Arc      '', ''Source   '', ''Next out '', ''Target   '', ''Next in  '',
    ''Node     '', ''Head in  '', ''Tail in  '', ''Head out '', ''Tail out ''])"
  by code_simp

lemma inv_print_chars: "hd newline \<notin> set (inv_print x)"
proof -
  have "hd newline \<notin> set (decimal_nat n)" for n using decimal_nat_digits no_digit(3) by blast
  then have "hd newline \<notin> set (decimal x)" using labels by (simp add: decimal_def)
  then show ?thesis using labels by (simp add: inv_print_def)
qed

lemma read_inv_print: "read_index (inv_print x) = x"
proof -
  have "digit (hd (decimal_nat n))" for n by (rule decimal_nat_digits [OF hd_in_set [OF decimal_nat_not_Nil]])
  then have c: "hd (decimal_nat n) \<noteq> CHR ''-''" "hd (decimal_nat n) \<noteq> CHR ''i''" for n using no_digit by metis+
  have "hd (decimal x) \<noteq> CHR ''i''" using c(2) by (simp add: decimal_def)
  then have n: "decimal x \<noteq> ''invalid_arc''" "decimal x \<noteq> ''invalid_node''" by auto
  moreover have "hd (decimal x) = CHR ''-'' \<longleftrightarrow> x < 0" using c(1) by (simp add: decimal_def)
  moreover have "x < 0 \<Longrightarrow> - int (digits_value (tl (decimal x))) = x" "\<not> x < 0 \<Longrightarrow> int (digits_value (decimal x)) = x"
    by (simp_all add: decimal_def digits_value_decimal)
  ultimately show ?thesis by (simp add: read_index_def inv_print_def)
qed

lemma lines_of_label:
  assumes "hd newline \<notin> set p"
  shows "lines_of (p @ inv_print x @ newline @ s) = (p @ inv_print x) # lines_of s"
  using lines_of_line [of "p @ inv_print x" s] assms inv_print_chars by simp

definition label :: "string \<Rightarrow> bool" where
  "label p \<longleftrightarrow> length p = 9 \<and> hd newline \<notin> set p"

lemma read_five:
  assumes "list_all label [p1, p2, p3, p4, p5]"
  shows "read_print (p1 @ inv_print x1 @ newline @ p2 @ inv_print x2 @ newline @ p3 @ inv_print x3 @ newline @ p4 @ inv_print x4 @ newline
    @ p5 @ inv_print x5 @ newline @ newline) = [x1, x2, x3, x4, x5]"
  using assms by (simp add: label_def read_print_def lines_of_label read_inv_print)

lemma printed_labels:
  "list_all label [''Arc      '', ''Source   '', ''Next out '', ''Target   '', ''Next in  '']"
  "list_all label [''Node     '', ''Head in  '', ''Tail in  '', ''Head out '', ''Tail out '']"
  by code_simp+

lemma read_printArc: "map_option read_print (printArc a g) = map_option (\<lambda>x. [a, source x, next_out x, target x, next_in x]) (aref (m_arcs g) a)"
  by (cases "aref (m_arcs g) a") (simp_all add: printArc_def read_five [OF printed_labels(1)] del: append_Cons)

lemma read_printNode: "map_option read_print (printNode n g) = map_option (\<lambda>x. [n, head_in x, tail_in x, head_out x, tail_out x]) (aref (m_nodes g) n)"
  by (cases "aref (m_nodes g) n") (simp_all add: printNode_def read_five [OF printed_labels(2)] del: append_Cons)

section \<open>All arcs and all nodes\<close>

lemma all_from_ok: "x \<le> e \<Longrightarrow> all_from x e = Some [x..e - 1]"
proof (induction x e rule: all_from.induct)
  case (1 x e)
  then show ?case by (subst all_from.simps) (auto simp: upto_rec1)
qed

section \<open>Properties\<close>

text \<open>C15: Version 1.1 builds any graph: a sequence of additions, each followed by the assignment of the data, on a new tree succeeds, the tree represents the
  abstract graph, and \<^verbatim>\<open>sliceDF\<close> and \<^verbatim>\<open>sliceBF\<close> from any node into a new tree return an isomorphic copy of what can be reached from it.\<close>

theorem v11_build_refines:
  assumes "requests_ok 1 rs" "length rs < 2 ^ 31 - 1"
  shows "\<exists>g. v11_build da dn rs (v11_Tree da dn) = Some g \<and> tree_wf g
    \<and> view g = graph_build rs \<lparr>g_nodes = [dn], g_arcs = [(invalid_node, 0, da)]\<rparr>
    \<and> (\<forall>n. node_in g n \<longrightarrow> (\<exists>new f. v11_sliceDF da dn g (v11_Tree da dn) n = Some new \<and> tree_wf new \<and> copy_of (view g) n (view new) f)
         \<and> (\<exists>new f. v11_sliceBF da dn g (v11_Tree da dn) n = Some new \<and> tree_wf new \<and> copy_of (view g) n (view new) f))"
proof -
  let ?t = "v11_Tree da dn"
  have t: "v11_ok ?t" "view ?t = \<lparr>g_nodes = [dn], g_arcs = [(invalid_node, 0, da)]\<rparr>" "root_node ?t = 0"
    using tree_new_ok [of da dn] by (simp_all add: v11_operations v11_ok_def) (simp_all add: tree_new_def arena_emplace_back_def)
  have l: "length (m_arcs ?t) = 1" "length (m_nodes ?t) = 1" "order_of (view ?t) = 1"
    using t(2) view_sel [of ?t] by simp_all
  obtain g where g: "v11_build da dn rs ?t = Some g" "v11_ok g" "view g = graph_build rs (view ?t)"
    "length (m_arcs g) = 1 + length rs" "length (m_nodes g) \<le> 1 + length rs"
    using v11_build_ok [OF t(1), of rs da dn] assms l by auto
  then have wf: "tree_wf g" "root_node g = 0" "length (m_nodes g) < 2 ^ 31" "length (m_arcs g) < 2 ^ 31" using assms(2) by (auto simp: v11_ok_def)
  show ?thesis
    using g(1,3) wf(1) t(2) slices_ok [OF wf(1,2) _ wf(3,4), of _ da dn]
    by (simp add: v11_operations) (blast dest: v11_slices)
qed

text \<open>A graph with four nodes and two ways to the last one.\<close>

definition v11_example :: "(nat, string) request list" where
  "v11_example = [Add_node 0 1 ''a'', Add_node 0 2 ''b'', Add_node 1 3 ''c'', Add_arc 2 3 4]"

theorem v11_build_refines_witness:
  "\<exists>g. v11_build 0 [] v11_example (v11_Tree 0 []) = Some g \<and> g_nodes (view g) = [[], ''a'', ''b'', ''c'']
    \<and> (\<exists>new f. v11_sliceDF 0 [] g (v11_Tree 0 []) 0 = Some new \<and> copy_of (view g) 0 (view new) f)"
proof -
  have ok: "requests_ok 1 v11_example" "length v11_example < 2 ^ 31 - 1" by (simp_all add: v11_example_def)
  obtain g where g: "v11_build 0 [] v11_example (v11_Tree 0 []) = Some g" "tree_wf g"
    "view g = graph_build v11_example \<lparr>g_nodes = [[]], g_arcs = [(invalid_node, 0, 0)]\<rparr>"
    "\<forall>n. node_in g n \<longrightarrow> (\<exists>new f. v11_sliceDF 0 [] g (v11_Tree 0 []) n = Some new \<and> copy_of (view g) n (view new) f)"
    using v11_build_refines [OF ok, of 0 "[]"] by blast
  have v: "g_nodes (view g) = [[], ''a'', ''b'', ''c'']" by (simp add: g(3) v11_example_def add_node_def add_arc_def)
  then have "node_in g 0" by (simp add: node_in_iff order_of_def)
  with g v show ?thesis by blast
qed

text \<open>C32: What \<^verbatim>\<open>printArc\<close> and \<^verbatim>\<open>printNode\<close> of version 1.1 write determines the links of the arc or the node: they are read back from the lines, the invalid arc and
  the invalid node included, and printing fails exactly for an index outside of the arena.\<close>

theorem v11_print_roundtrip:
  "map_option read_print (printArc a g) = map_option (\<lambda>x. [a, source x, next_out x, target x, next_in x]) (aref (m_arcs g) a)
   \<and> map_option read_print (printNode n g) = map_option (\<lambda>x. [n, head_in x, tail_in x, head_out x, tail_out x]) (aref (m_nodes g) n)"
  by (simp only: read_printArc read_printNode simp_thms)

text \<open>\<^verbatim>\<open>ArcIt\<close> runs over all arcs, but \<^verbatim>\<open>NodeIt\<close> only over the nodes from the root on; \<^verbatim>\<open>randomNode\<close> never returns node 0 and has no
  node to return when that is the only one.\<close>

theorem v11_visits:
  assumes "tree_wf g" "root_arc g = 0" "length (m_arcs g) < 2 ^ 31" "length (m_nodes g) < 2 ^ 31"
  shows "ArcIt_all g = Some [0..arcNum g - 1] \<and> NodeIt_all g = Some [root_node g..nodeNum g - 1]
    \<and> randomNode unif g r = (if nodeNum g = 1 then None else Some (unif 1 (nodeNum g - 1) r))"
proof -
  have n: "0 \<le> root_node g" "root_node g < nodeNum g" using assms(1) by (auto simp: tree_wf_def node_in_def)
  have "to_int32 (int (length (m_arcs g))) = arcNum g" "to_int32 (int (length (m_nodes g))) = nodeNum g" "to_int32 (int (length (m_nodes g)) - 1) = nodeNum g - 1"
    using assms(3,4) by (simp_all add: to_int32_id arcNum_def nodeNum_def arena_size_def)
  with n assms(2) show ?thesis by (auto simp: ArcIt_all_def NodeIt_all_def randomNode_def all_from_ok arcNum_def arena_size_def)
qed

end
