(* ===== verification/Connect_Four.thy ===== *)
theory Connect_Four
  imports Moves Multi_Array
begin

unbundle bit_operations_syntax

text \<open>
  The game of connect_four.hpp: the class template \<^verbatim>\<open>ConnectFour<NumRows, NumCols>\<close>. Its template parameters are the
  extents of the board matrix. The members are the fields of \<open>cf_state\<close> (the padding bytes apart), each method is one
  definition, and a method that asserts or indexes out of range fails. Random choices come from the global
  generator through the distribution given as an argument.
\<close>

section \<open>Moves\<close>

text \<open>\<^verbatim>\<open>struct Move\<close> wraps one \<^verbatim>\<open>std::int8_t\<close>, the column.\<close>

type_synonym move = int

definition Move :: "index_t \<Rightarrow> move" where
  "Move i = to_int8 i"

definition move_none :: move where
  "move_none = Move (-1)"

definition move_root :: move where
  "move_root = Move (-2)"

definition move_invalid :: move where
  "move_invalid = Move (-3)"

section \<open>State\<close>

record cf_state =
  m_zobrist_hash :: u64
  m_board :: "player matrix"
  m_no_moves :: u8
  m_player_just_moved :: player
  m_winner :: player
  m_move :: move

abbreviation NumRows :: "cf_state \<Rightarrow> int" where
  "NumRows s \<equiv> m_I (m_board s)"

abbreviation NumCols :: "cf_state \<Rightarrow> int" where
  "NumCols s \<equiv> m_J (m_board s)"

definition zobrist_key_values :: "u64 list" where
  "zobrist_key_values =
  [
     0xa1a656cb9731c5d5, 0xc3dce6ad6465ea7a, 0x9e2556e2bbec18d3, 0x900670630f4f76af,
     0xda8071005889fa3c, 0xd1efb50aec8b61a9, 0x73203d10cf4db8b8, 0x6ab7fd70679d877f,
     0x3a56cdae74f9d816, 0xb3b48dc62bacaf9b, 0x27760b12660e6c3b, 0xd9ac7fb482854702,
     0xd35e698b064e4f93, 0x7b379503f68242bd, 0xdad6afcb4409d282, 0xf04b592c8e1183fe,
     0x6dbb4f77e63f5267, 0x970b0ae4e9e7d347, 0xd19027f157c2845a, 0x82a53746e2d25fa5,
     0xe2097dbb17c142f7, 0x5eba98d936a14c91, 0x963286f60ab69777, 0x96e9eb899e5e615b,
     0xecd8957747d0bef8, 0x961b3fb52b112218, 0x44c776ac7af4cc2d, 0xfa2708e399719ac4,
     0xe34b58c2f6acac45, 0x7f6d2cb0416a63ca, 0x287ecf88477a3e7d, 0xe57d268150b95703,
     0xf9cc76357617493c, 0xe956f77acaa2f112, 0x9a9441286a0a70e7, 0x5b5a62ba1d8dfd33,
     0xb3d1b947205bf8f4, 0x4aabdee7fb6aa20b, 0xa810d257d77576af, 0x6a1789922b7af41a,
     0x315833a0f0b5ceeb, 0x481a32e97fbd47d8, 0x11e80a41d2022fdc, 0xfab59400ba6c780c,
     0xfce9f47e1dc3037d, 0xf5f404421f6c78b2, 0x274ef7151bd8503e, 0x1d5268cdadd43ad3,
     0x59ed9dc04b81a0c1, 0x3c10ea92d1a6d79d, 0x595d9292d07ee51d, 0x1a62a32bb174ee71,
     0x417fd9b9b0bc7a47, 0x3e266eca431347d6, 0x74a093aeceb1fd60, 0x7720a5e78ae8d571,
     0x9645ae72f6f57362, 0xcc7279ab05731ef7, 0xf5a0574bc2385c6f, 0xb254ccf017ebc43b,
     0x34184cd5945aff3e, 0x4c5ede78a68fd1a5, 0x49adf513d838ce5d, 0x44940842e2c75c16,
     0x7aacd877d0831e19, 0x9d8d5e4f7c511acd, 0xac2f78583e0e9692, 0x03e2da677110440c,
     0x07d2a6b527f4ef05, 0x91a680f12222cf16, 0x08617f45641626d0, 0xb2df85147e2a11cb,
     0x6bf333747f7f10a4, 0xc6f2a33e3a94b2c1, 0xf5358b1cb75e528f, 0x904af33725c150b5,
     0xd75d6d3f202f964b, 0x8d58eeece3979331, 0xb58f905351a0d8f1, 0x38ad67581ffcbdfb,
     0xcd5f48e9ac464398, 0xfcc2df3237564c0c, 0x1ea8202ddf77efde, 0x000617fafba044ad
  ]"

text \<open>The aggregate initialisation leaves the keys beyond the listed ones zero.\<close>

definition m_zobrist_keys :: "int \<Rightarrow> int \<Rightarrow> u64 cube" where
  "m_zobrist_keys R C =
    \<lparr>c_I = 2, c_J = R, c_K = C, c_BaseI = 0, c_BaseJ = 0, c_BaseK = 0,
     c_data = zobrist_key_values @ replicate (nat (2 * R * C) - length zobrist_key_values) 0\<rparr>"

definition m_zobrist_player_key_values :: "u64 list" where
  "m_zobrist_player_key_values = [0x41fec34015a1bef2, 0x8b80677c9c144514, 0xf6242292160d5bb7]"

definition m_zobrist_player_keys :: "index_t \<Rightarrow> u64 option" where
  "m_zobrist_player_keys i = aref m_zobrist_player_key_values (i + 1)"

definition initial_hash :: u64 where
  "initial_hash = the (m_zobrist_player_keys (as_index Vacant))"

text \<open>The default constructor; \<open>p\<close> is the player \<^verbatim>\<open>Player::random\<close> returns.\<close>

definition connect_four :: "int \<Rightarrow> int \<Rightarrow> player \<Rightarrow> cf_state" where
  "connect_four R C p =
    \<lparr>m_zobrist_hash = initial_hash, m_board = matrix_new R C 0 0 Vacant, m_no_moves = 0,
     m_player_just_moved = p, m_winner = Invalid, m_move = move_root\<rparr>"

definition initialize :: "player \<Rightarrow> cf_state \<Rightarrow> cf_state" where
  "initialize p s =
    s\<lparr>m_zobrist_hash := initial_hash, m_no_moves := 0, m_player_just_moved := p,
      m_winner := Invalid, m_move := move_root\<rparr>"

definition playerJustMoved :: "cf_state \<Rightarrow> player" where
  "playerJustMoved s = m_player_just_moved s"

definition playerToMove :: "cf_state \<Rightarrow> player" where
  "playerToMove s = opponent (m_player_just_moved s)"

definition lastMove :: "cf_state \<Rightarrow> move" where
  "lastMove s = m_move s"

section \<open>Winner\<close>

text \<open>The counting loops of \<^verbatim>\<open>winner\<close>: while the loop condition \<open>cond\<close> holds and the cell holds \<open>piece\<close>, step and
  count. In these loops an index compared with an unsigned extent is never negative.\<close>

partial_function (option) scan ::
  "(index_t \<Rightarrow> index_t \<Rightarrow> bool) \<Rightarrow> index_t \<Rightarrow> index_t \<Rightarrow> player matrix \<Rightarrow> player \<Rightarrow>
   index_t \<Rightarrow> index_t \<Rightarrow> index_t \<Rightarrow> index_t option"
where
  "scan cond dr dc b piece row col counter =
    (if cond row col then
       (case matrix_at b row col of
          None \<Rightarrow> None
        | Some p \<Rightarrow>
            if p = piece then scan cond dr dc b piece (row + dr) (col + dc) (counter + 1)
            else Some counter)
     else Some counter)"

declare scan.simps [code]

definition winner_horizontal :: "player matrix \<Rightarrow> player \<Rightarrow> index_t \<Rightarrow> index_t \<Rightarrow> bool option" where
  "winner_horizontal b piece row col = do {
     let C = m_J b;
     counter \<leftarrow> (if col > 0 then scan (\<lambda>r c. c \<ge> 0) 0 (-1) b piece row (col - 1) 1 else Some 1);
     if to_size_t col < to_size_t ((C - 4) + counter) then do {
       counter \<leftarrow> scan (\<lambda>r c. c < C) 0 1 b piece row (col + 1) counter;
       Some (counter > 3) }
     else Some False }"

definition winner_vertical :: "player matrix \<Rightarrow> player \<Rightarrow> index_t \<Rightarrow> index_t \<Rightarrow> bool option" where
  "winner_vertical b piece row col = do {
     let R = m_I b;
     if to_size_t row < to_size_t (R - 3) then do {
       counter \<leftarrow> scan (\<lambda>r c. r < R) 1 0 b piece (row + 1) col 1;
       Some (counter > 3) }
     else Some False }"

definition winner_nw_se :: "player matrix \<Rightarrow> player \<Rightarrow> index_t \<Rightarrow> index_t \<Rightarrow> bool option" where
  "winner_nw_se b piece row col = do {
     let R = m_I b; let C = m_J b;
     counter \<leftarrow> (if row > 0 \<and> col > 0
       then scan (\<lambda>r c. r \<ge> 0 \<and> c \<ge> 0) (-1) (-1) b piece (row - 1) (col - 1) 1 else Some 1);
     if to_size_t row < to_size_t ((R - 4) + counter) \<and> to_size_t col < to_size_t ((C - 4) + counter)
     then do {
       counter \<leftarrow> scan (\<lambda>r c. r < R \<and> c < C) 1 1 b piece (row + 1) (col + 1) counter;
       Some (counter > 3) }
     else Some False }"

definition winner_sw_ne :: "player matrix \<Rightarrow> player \<Rightarrow> index_t \<Rightarrow> index_t \<Rightarrow> bool option" where
  "winner_sw_ne b piece row col = do {
     let R = m_I b; let C = m_J b;
     counter \<leftarrow> (if to_size_t row < to_size_t (R - 1) \<and> col > 0
       then scan (\<lambda>r c. r < R \<and> c \<ge> 0) 1 (-1) b piece (row + 1) (col - 1) 1 else Some 1);
     if row > 3 - counter \<and> to_size_t col < to_size_t ((C - 4) + counter)
     then do {
       counter \<leftarrow> scan (\<lambda>r c. r \<ge> 0 \<and> c < C) (-1) 1 b piece (row - 1) (col + 1) counter;
       Some (counter > 3) }
     else Some False }"

type_synonym coordinates = "index_t \<times> index_t"

definition winner :: "coordinates \<Rightarrow> cf_state \<Rightarrow> cf_state option" where
  "winner rc s = do {
     let (row, col) = rc;
     piece \<leftarrow> matrix_at (m_board s) row col;
     h \<leftarrow> winner_horizontal (m_board s) piece row col;
     if h then Some (s\<lparr>m_winner := piece\<rparr>) else do {
     v \<leftarrow> winner_vertical (m_board s) piece row col;
     if v then Some (s\<lparr>m_winner := piece\<rparr>) else do {
     d \<leftarrow> winner_nw_se (m_board s) piece row col;
     if d then Some (s\<lparr>m_winner := piece\<rparr>) else do {
     e \<leftarrow> winner_sw_ne (m_board s) piece row col;
     if e then Some (s\<lparr>m_winner := piece\<rparr>)
     else if NumRows s * NumCols s = uint (m_no_moves s) then Some (s\<lparr>m_winner := Vacant\<rparr>)
     else Some s }}}}"

section \<open>Moving\<close>

text \<open>The loop of \<^verbatim>\<open>move\<close> that finds the lowest free row of a column.\<close>

partial_function (option) drop_row :: "player matrix \<Rightarrow> index_t \<Rightarrow> index_t \<Rightarrow> index_t option" where
  "drop_row b col row =
    (case matrix_at b (row - 1) col of
       None \<Rightarrow> None
     | Some p \<Rightarrow> if occupied p then drop_row b col (row - 1) else Some (row - 1))"

declare drop_row.simps [code]

definition move :: "move \<Rightarrow> cf_state \<Rightarrow> (coordinates \<times> cf_state) option" where
  "move m s = do {
     let s = s\<lparr>m_move := m\<rparr>;
     row \<leftarrow> drop_row (m_board s) m (NumRows s);
     let s = s\<lparr>m_player_just_moved := opponent (m_player_just_moved s)\<rparr>;
     b \<leftarrow> matrix_put (m_board s) row m (m_player_just_moved s);
     Some ((row, m), s\<lparr>m_board := b, m_no_moves := m_no_moves s + 1\<rparr>) }"

definition hash :: "coordinates \<times> cf_state \<Rightarrow> (coordinates \<times> cf_state) option" where
  "hash cs = do {
     let ((row, col), s) = cs;
     i \<leftarrow> as_01index (m_player_just_moved s);
     key \<leftarrow> cube_at (m_zobrist_keys (NumRows s) (NumCols s)) i row col;
     Some ((row, col), s\<lparr>m_zobrist_hash := m_zobrist_hash s XOR key\<rparr>) }"

definition move_hash :: "move \<Rightarrow> cf_state \<Rightarrow> cf_state option" where
  "move_hash m s = do { cs \<leftarrow> move m s; cs \<leftarrow> hash cs; Some (snd cs) }"

definition move_hash_winner :: "move \<Rightarrow> cf_state \<Rightarrow> cf_state option" where
  "move_hash_winner m s = do { cs \<leftarrow> move m s; (c, s) \<leftarrow> hash cs; winner c s }"

definition move_winner :: "move \<Rightarrow> cf_state \<Rightarrow> cf_state option" where
  "move_winner m s = do { (c, s) \<leftarrow> move m s; winner c s }"

definition zobrist :: "cf_state \<Rightarrow> u64 option" where
  "zobrist s = do {
     k \<leftarrow> m_zobrist_player_keys (as_index (m_player_just_moved s));
     Some (m_zobrist_hash s XOR k) }"

section \<open>Playing\<close>

function moves_loop :: "cf_state \<Rightarrow> index_t \<Rightarrow> move moves \<Rightarrow> move moves option" where
  "moves_loop s col m =
    (if col < NumCols s then
       (case matrix_at (m_board s) 0 col of
          None \<Rightarrow> None
        | Some p \<Rightarrow>
            if p = Vacant then
              (case push_back m (Move col) of
                 None \<Rightarrow> None
               | Some m' \<Rightarrow> moves_loop s (col + 1) m')
            else moves_loop s (col + 1) m)
     else Some m)"
  by pat_completeness auto
termination
  by (relation "measure (\<lambda>(s, col, m). nat (NumCols s - col))") auto

declare moves_loop.simps [simp del]

definition moves :: "cf_state \<Rightarrow> move moves \<Rightarrow> (bool \<times> move moves) option" where
  "moves s m = do {
     let m = clear m;
     if NumRows s * NumCols s = uint (m_no_moves s) \<or> m_winner s \<noteq> Invalid then Some (False, m)
     else do {
       m \<leftarrow> moves_loop s 0 m;
       Some (True, m) } }"

text \<open>\<^verbatim>\<open>simulate\<close> plays random moves until \<^verbatim>\<open>moves\<close> returns false.\<close>

partial_function (option) simulate_loop ::
  "uniform_int \<Rightarrow> cf_state \<Rightarrow> move moves \<Rightarrow> splitmix \<Rightarrow> (cf_state \<times> splitmix) option"
where
  "simulate_loop unif s m g =
    (case moves s m of
       None \<Rightarrow> None
     | Some (again, m) \<Rightarrow>
         if again then
           (case moves_random unif m g of
              None \<Rightarrow> None
            | Some (mv, g) \<Rightarrow>
                (case move_winner mv s of
                   None \<Rightarrow> None
                 | Some s \<Rightarrow> simulate_loop unif s m g))
         else Some (s, g))"

declare simulate_loop.simps [code]

definition simulate :: "uniform_int \<Rightarrow> cf_state \<Rightarrow> splitmix \<Rightarrow> (cf_state \<times> splitmix) option" where
  "simulate unif s g = simulate_loop unif s (moves_new (nat (NumCols s)) move_invalid) g"

text \<open>The floats \<^verbatim>\<open>result\<close> returns are the integers 0, 1 and -1.\<close>

definition result :: "player \<Rightarrow> cf_state \<Rightarrow> int" where
  "result p s = (if m_winner s = Vacant then 0 else if m_winner s = p then 1 else -1)"

definition ended :: "cf_state \<Rightarrow> player option" where
  "ended s = (if m_winner s = Invalid then None else Some (m_winner s))"

end
