(* ===== verification/Connect_Four_Winner.thy ===== *)
theory Connect_Four_Winner
  imports Connect_Four
begin

text \<open>
  Correctness of \<^verbatim>\<open>ConnectFour::winner\<close>. The reference definition says that four cells in a line through the last
  piece hold that piece; the method counts runs in both directions, cut short by arithmetic guards. The runs are
  related to the counting loops once, for any direction, and the guards are shown to skip only runs that are too
  short.
\<close>

section \<open>Reference definition\<close>

text \<open>The cell \<open>k\<close> steps from \<open>(r, c)\<close> in direction \<open>(dr, dc)\<close>, and four equal pieces in a line through \<open>(r, c)\<close>.\<close>

definition cell :: "player matrix \<Rightarrow> int \<Rightarrow> int \<Rightarrow> int \<Rightarrow> int \<Rightarrow> int \<Rightarrow> player option" where
  "cell b dr dc r c k = matrix_at b (r + k * dr) (c + k * dc)"

definition four_dir :: "player matrix \<Rightarrow> player \<Rightarrow> int \<Rightarrow> int \<Rightarrow> int \<Rightarrow> int \<Rightarrow> bool" where
  "four_dir b p dr dc r c \<longleftrightarrow>
    (\<exists>k\<in>{0..3}. \<forall>i\<in>{0..3}. cell b dr dc r c (i - k) = Some p)"

definition four_through :: "player matrix \<Rightarrow> player \<Rightarrow> int \<Rightarrow> int \<Rightarrow> bool" where
  "four_through b p r c \<longleftrightarrow>
    four_dir b p 0 1 r c \<or> four_dir b p 1 0 r c \<or> four_dir b p 1 1 r c \<or> four_dir b p 1 (-1) r c"

section \<open>Runs\<close>

definition run_len :: "player matrix \<Rightarrow> player \<Rightarrow> int \<Rightarrow> int \<Rightarrow> int \<Rightarrow> int \<Rightarrow> nat \<Rightarrow> bool" where
  "run_len b p dr dc r c n \<longleftrightarrow>
    (\<forall>k<n. cell b dr dc r c (int k) = Some p) \<and> cell b dr dc r c (int n) \<noteq> Some p"

lemma run_len_exists:
  assumes "cell b dr dc r c (int N) = None"
  shows "\<exists>n\<le>N. run_len b p dr dc r c n"
proof -
  let ?P = "\<lambda>n. cell b dr dc r c (int n) \<noteq> Some p"
  have N: "?P N" using assms by simp
  have "(LEAST n. ?P n) \<le> N" by (rule Least_le) (rule N)
  moreover have "run_len b p dr dc r c (LEAST n. ?P n)"
    unfolding run_len_def using LeastI [of ?P N, OF N] not_less_Least [of _ ?P] by blast
  ultimately show ?thesis by blast
qed

lemma run_len_less:
  assumes "run_len b p dr dc r c n" "cell b dr dc r c (int N) = None"
  shows "n \<le> N"
  using assms unfolding run_len_def by (metis leI option.distinct(1))

text \<open>A loop whose condition says that the indices are on the board adds the length of the run to its counter.\<close>

lemma scan_run_len:
  assumes "matrix_wf b" "run_len b p dr dc r c n"
    and "\<And>k :: nat. cond (r + int k * dr) (c + int k * dc) = matrix_in b (r + int k * dr) (c + int k * dc)"
  shows "scan cond dr dc b p r c m = Some (m + int n)"
  using assms(2,3)
proof (induction n arbitrary: r c m)
  case 0
  then have "matrix_at b r c \<noteq> Some p" by (simp add: run_len_def cell_def)
  moreover have "cond r c = matrix_in b r c" using 0(2) [of 0] by simp
  ultimately show ?case
    using matrix_at_defined [OF assms(1), of r c] by (subst scan.simps) auto
next
  case (Suc n)
  have c0: "matrix_at b r c = Some p"
    using run_len_def [THEN iffD1, OF Suc.prems(1), THEN conjunct1, rule_format, of 0] by (simp add: cell_def)
  then have "cond r c" using Suc.prems(2) [of 0] matrix_at_None [of b r c] by auto
  with c0 have "scan cond dr dc b p r c m = scan cond dr dc b p (r + dr) (c + dc) (m + 1)"
    by (subst scan.simps) simp
  also have "\<dots> = Some (m + 1 + int n)"
  proof (rule Suc.IH)
    have sh: "cell b dr dc (r + dr) (c + dc) (int k) = cell b dr dc r c (int (Suc k))" for k
      by (simp add: cell_def algebra_simps)
    from Suc.prems(1) show "run_len b p dr dc (r + dr) (c + dc) n"
      unfolding run_len_def sh by (auto simp del: of_nat_Suc)
    show "cond (r + dr + int k * dr) (c + dc + int k * dc)
        = matrix_in b (r + dr + int k * dr) (c + dc + int k * dc)" for k
      using Suc.prems(2) [of "Suc k"] by (simp add: algebra_simps)
  qed
  finally show ?case by simp
qed

text \<open>With the piece itself in the middle, a window of four fits exactly when the two runs are long enough.\<close>

lemma four_dir_runs:
  assumes "cell b dr dc r c 0 = Some p"
    and "run_len b p (- dr) (- dc) (r - dr) (c - dc) m"
    and "run_len b p dr dc (r + dr) (c + dc) n"
  shows "four_dir b p dr dc r c \<longleftrightarrow> 3 \<le> m + n"
proof -
  have left: "cell b (- dr) (- dc) (r - dr) (c - dc) (int k) = cell b dr dc r c (- int (Suc k))" for k
    by (simp add: cell_def algebra_simps)
  have right: "cell b dr dc (r + dr) (c + dc) (int k) = cell b dr dc r c (int (Suc k))" for k
    by (simp add: cell_def algebra_simps)
  have inside: "cell b dr dc r c k = Some p" if "- int m \<le> k" "k \<le> int n" for k
  proof -
    consider "k = 0" | "k < 0" | "0 < k" by linarith
    then show ?thesis
    proof cases
      case 2
      with that have "k = - int (Suc (nat (- k - 1)))" "nat (- k - 1) < m" by auto
      with assms(2) show ?thesis unfolding run_len_def left by metis
    next
      case 3
      with that have "k = int (Suc (nat (k - 1)))" "nat (k - 1) < n" by auto
      with assms(3) show ?thesis unfolding run_len_def right by metis
    qed (use assms(1) in simp)
  qed
  have l: "cell b dr dc r c (- int (Suc m)) \<noteq> Some p" and rr: "cell b dr dc r c (int (Suc n)) \<noteq> Some p"
    using assms(2,3) unfolding run_len_def left right by auto
  show ?thesis
  proof
    assume "four_dir b p dr dc r c"
    then obtain k where k: "k \<in> {0..3}" "\<And>i. i \<in> {0..3} \<Longrightarrow> cell b dr dc r c (i - k) = Some p"
      unfolding four_dir_def by blast
    have "\<not> int m < k" using l k(2) [of "k - int (Suc m)"] k(1) by auto
    moreover have "\<not> int n < 3 - k" using rr k(2) [of "k + int (Suc n)"] k(1) by auto
    ultimately show "3 \<le> m + n" by simp
  next
    assume mn: "3 \<le> m + n"
    show "four_dir b p dr dc r c"
      unfolding four_dir_def
      by (rule bexI [of _ "min 3 (int m)"]) (use mn in \<open>auto intro!: inside\<close>)
  qed
qed

section \<open>The four directions\<close>

definition board_ok :: "player matrix \<Rightarrow> bool" where
  "board_ok b \<longleftrightarrow> matrix_wf b \<and> m_BaseI b = 0 \<and> m_BaseJ b = 0
    \<and> 4 \<le> m_I b \<and> 4 \<le> m_J b \<and> m_I b < 2 ^ 31 \<and> m_J b < 2 ^ 31"

lemma board_ok_in: "board_ok b \<Longrightarrow> matrix_in b i j \<longleftrightarrow> 0 \<le> i \<and> i < m_I b \<and> 0 \<le> j \<and> j < m_J b"
  by (auto simp: board_ok_def matrix_in_def)

lemma board_ok_None:
  "board_ok b \<Longrightarrow> i < 0 \<or> m_I b \<le> i \<or> j < 0 \<or> m_J b \<le> j \<Longrightarrow> matrix_at b i j = None"
  by (rule matrix_at_None) (auto simp: board_ok_in)

lemma run_len_border:
  assumes "board_ok b" "run_len b p dr dc r c n" "0 \<le> N"
    and "r + N * dr < 0 \<or> m_I b \<le> r + N * dr \<or> c + N * dc < 0 \<or> m_J b \<le> c + N * dc"
  shows "int n \<le> N"
proof -
  have "cell b dr dc r c (int (nat N)) = None"
    unfolding cell_def using assms(3,4) by (intro board_ok_None [OF assms(1)]) simp
  from run_len_less [OF assms(2) this] assms(3) show ?thesis by simp
qed

lemma run_len_ex:
  assumes "board_ok b"
    and "r + N * dr < 0 \<or> m_I b \<le> r + N * dr \<or> c + N * dc < 0 \<or> m_J b \<le> c + N * dc" "0 \<le> N"
  obtains n where "run_len b p dr dc r c n"
proof -
  have "cell b dr dc r c (int (nat N)) = None"
    unfolding cell_def using assms(2,3) by (intro board_ok_None [OF assms(1)]) simp
  from run_len_exists [OF this] that show ?thesis by blast
qed

lemma scan_ok:
  assumes "board_ok b" "run_len b p dr dc r c n"
    and "\<And>k :: nat. cond (r + int k * dr) (c + int k * dc) \<longleftrightarrow>
      0 \<le> r + int k * dr \<and> r + int k * dr < m_I b \<and> 0 \<le> c + int k * dc \<and> c + int k * dc < m_J b"
  shows "scan cond dr dc b p r c m = Some (m + int n)"
  using assms by (intro scan_run_len) (auto simp: board_ok_in board_ok_def)

lemma run_len_0:
  assumes "board_ok b" "run_len b p dr dc r c n" "r < 0 \<or> m_I b \<le> r \<or> c < 0 \<or> m_J b \<le> c"
  shows "n = 0"
  using run_len_border [OF assms(1,2), of 0] assms(3) by simp

lemma size_t_less:
  "0 \<le> i \<Longrightarrow> i < 2 ^ 31 \<Longrightarrow> 0 \<le> j \<Longrightarrow> j < 2 ^ 32 \<Longrightarrow> to_size_t i < to_size_t j \<longleftrightarrow> i < j"
  by (simp add: to_size_t_def)

lemma winner_horizontal_correct:
  assumes b: "board_ok b" and rc: "matrix_in b row col" "matrix_at b row col = Some p"
  shows "winner_horizontal b p row col = Some (four_dir b p 0 1 row col)"
proof -
  note bd = rc(1) [unfolded board_ok_in [OF b]] b [unfolded board_ok_def]
  obtain m where m: "run_len b p 0 (-1) row (col - 1) m"
    by (rule run_len_ex [OF b, where N = col]) (use bd in auto)
  obtain n where n: "run_len b p 0 1 row (col + 1) n"
    by (rule run_len_ex [OF b, where N = "m_J b"]) (use bd in auto)
  have mb: "int m \<le> col" by (rule run_len_border [OF b m]) (use bd in auto)
  have nb: "int n \<le> m_J b - 1 - col" by (rule run_len_border [OF b n]) (use bd in auto)
  have left: "(if col > 0 then scan (\<lambda>r c. c \<ge> 0) 0 (-1) b p row (col - 1) 1 else Some 1) = Some (1 + int m)"
    using run_len_0 [OF b m] bd by (auto intro!: scan_ok [OF b m])
  have right: "scan (\<lambda>r c. c < m_J b) 0 1 b p row (col + 1) (1 + int m) = Some (1 + int m + int n)"
    by (rule scan_ok [OF b n]) (use bd in auto)
  have "four_dir b p 0 1 row col \<longleftrightarrow> 3 \<le> m + n"
    by (rule four_dir_runs) (use m n rc(2) in \<open>auto simp: cell_def\<close>)
  moreover have "to_size_t col < to_size_t (m_J b - 4 + (1 + int m)) \<longleftrightarrow> col < m_J b - 4 + (1 + int m)"
    by (rule size_t_less) (use bd mb in auto)
  ultimately show ?thesis
    using mb nb unfolding winner_horizontal_def Let_def left by (auto simp: right)
qed

lemma winner_vertical_correct:
  assumes b: "board_ok b" and rc: "matrix_in b row col" "matrix_at b row col = Some p"
    and top: "matrix_at b (row - 1) col \<noteq> Some p"
  shows "winner_vertical b p row col = Some (four_dir b p 1 0 row col)"
proof -
  note bd = rc(1) [unfolded board_ok_in [OF b]] b [unfolded board_ok_def]
  have m: "run_len b p (-1) 0 (row - 1) col 0" using top by (simp add: run_len_def cell_def)
  obtain n where n: "run_len b p 1 0 (row + 1) col n"
    by (rule run_len_ex [OF b, where N = "m_I b"]) (use bd in auto)
  have nb: "int n \<le> m_I b - 1 - row" by (rule run_len_border [OF b n]) (use bd in auto)
  have down: "scan (\<lambda>r c. r < m_I b) 1 0 b p (row + 1) col 1 = Some (1 + int n)"
    by (rule scan_ok [OF b n]) (use bd in auto)
  have "four_dir b p 1 0 row col \<longleftrightarrow> 3 \<le> 0 + n"
    by (rule four_dir_runs) (use m n rc(2) in \<open>auto simp: cell_def\<close>)
  moreover have "to_size_t row < to_size_t (m_I b - 3) \<longleftrightarrow> row < m_I b - 3"
    by (rule size_t_less) (use bd in auto)
  ultimately show ?thesis
    using nb unfolding winner_vertical_def Let_def by (auto simp: down)
qed

lemma winner_nw_se_correct:
  assumes b: "board_ok b" and rc: "matrix_in b row col" "matrix_at b row col = Some p"
  shows "winner_nw_se b p row col = Some (four_dir b p 1 1 row col)"
proof -
  note bd = rc(1) [unfolded board_ok_in [OF b]] b [unfolded board_ok_def]
  obtain m where m: "run_len b p (-1) (-1) (row - 1) (col - 1) m"
    by (rule run_len_ex [OF b, where N = col]) (use bd in auto)
  obtain n where n: "run_len b p 1 1 (row + 1) (col + 1) n"
    by (rule run_len_ex [OF b, where N = "m_J b"]) (use bd in auto)
  have mb: "int m \<le> col" by (rule run_len_border [OF b m]) (use bd in auto)
  have nb1: "int n \<le> m_J b - 1 - col" by (rule run_len_border [OF b n]) (use bd in auto)
  have nb2: "int n \<le> m_I b - 1 - row" by (rule run_len_border [OF b n]) (use bd in auto)
  have left: "(if row > 0 \<and> col > 0 then scan (\<lambda>r c. r \<ge> 0 \<and> c \<ge> 0) (-1) (-1) b p (row - 1) (col - 1) 1
      else Some 1) = Some (1 + int m)"
    using run_len_0 [OF b m] bd by (auto intro!: scan_ok [OF b m])
  have right: "scan (\<lambda>r c. r < m_I b \<and> c < m_J b) 1 1 b p (row + 1) (col + 1) (1 + int m)
      = Some (1 + int m + int n)"
    by (rule scan_ok [OF b n]) (use bd in auto)
  have "four_dir b p 1 1 row col \<longleftrightarrow> 3 \<le> m + n"
    by (rule four_dir_runs) (use m n rc(2) in \<open>auto simp: cell_def\<close>)
  moreover have "to_size_t col < to_size_t (m_J b - 4 + (1 + int m)) \<longleftrightarrow> col < m_J b - 4 + (1 + int m)"
    by (rule size_t_less) (use bd mb in auto)
  moreover have "to_size_t row < to_size_t (m_I b - 4 + (1 + int m)) \<longleftrightarrow> row < m_I b - 4 + (1 + int m)"
    by (rule size_t_less) (use bd mb in auto)
  ultimately show ?thesis
    using mb nb1 nb2 unfolding winner_nw_se_def Let_def left by (auto simp: right)
qed

lemma winner_sw_ne_correct:
  assumes b: "board_ok b" and rc: "matrix_in b row col" "matrix_at b row col = Some p"
  shows "winner_sw_ne b p row col = Some (four_dir b p 1 (-1) row col)"
proof -
  note bd = rc(1) [unfolded board_ok_in [OF b]] b [unfolded board_ok_def]
  obtain m where m: "run_len b p 1 (-1) (row + 1) (col - 1) m"
    by (rule run_len_ex [OF b, where N = col]) (use bd in auto)
  obtain n where n: "run_len b p (-1) 1 (row - 1) (col + 1) n"
    by (rule run_len_ex [OF b, where N = "m_J b"]) (use bd in auto)
  have mb: "int m \<le> col" by (rule run_len_border [OF b m]) (use bd in auto)
  have nb1: "int n \<le> m_J b - 1 - col" by (rule run_len_border [OF b n]) (use bd in auto)
  have nb2: "int n \<le> row" by (rule run_len_border [OF b n]) (use bd in auto)
  have sz: "to_size_t row < to_size_t (m_I b - 1) \<longleftrightarrow> row < m_I b - 1"
    by (rule size_t_less) (use bd in auto)
  have left: "(if to_size_t row < to_size_t (m_I b - 1) \<and> col > 0
      then scan (\<lambda>r c. r < m_I b \<and> c \<ge> 0) 1 (-1) b p (row + 1) (col - 1) 1
      else Some 1) = Some (1 + int m)"
    unfolding sz using run_len_0 [OF b m] bd by (auto intro!: scan_ok [OF b m])
  have right: "scan (\<lambda>r c. r \<ge> 0 \<and> c < m_J b) (-1) 1 b p (row - 1) (col + 1) (1 + int m)
      = Some (1 + int m + int n)"
    by (rule scan_ok [OF b n]) (use bd in auto)
  have "four_dir b p 1 (-1) row col \<longleftrightarrow> 3 \<le> n + m"
    by (rule four_dir_runs) (use m n rc(2) in \<open>auto simp: cell_def\<close>)
  moreover have "to_size_t col < to_size_t (m_J b - 4 + (1 + int m)) \<longleftrightarrow> col < m_J b - 4 + (1 + int m)"
    by (rule size_t_less) (use bd mb in auto)
  ultimately show ?thesis
    using mb nb1 nb2 unfolding winner_sw_ne_def Let_def left by (auto simp: right)
qed

lemma winner_correct:
  assumes b: "board_ok (m_board s)" and at: "matrix_at (m_board s) row col = Some p"
    and top: "matrix_at (m_board s) (row - 1) col \<noteq> Some p"
  shows "winner (row, col) s =
    Some (if four_through (m_board s) p row col then s\<lparr>m_winner := p\<rparr>
      else if NumRows s * NumCols s = uint (m_no_moves s) then s\<lparr>m_winner := Vacant\<rparr> else s)"
proof -
  have inb: "matrix_in (m_board s) row col" using at matrix_at_None by fastforce
  note dirs = winner_horizontal_correct [OF b inb at] winner_vertical_correct [OF b inb at top]
    winner_nw_se_correct [OF b inb at] winner_sw_ne_correct [OF b inb at]
  show ?thesis by (simp add: winner_def at dirs four_through_def)
qed

end
