(* ===== verification/Connect_Four_Game.thy ===== *)
theory Connect_Four_Game
  imports Connect_Four_Winner
begin

unbundle bit_operations_syntax

text \<open>
  The invariant of the game of connect_four.hpp and the behaviour of its operations: stones fall to the lowest free
  cell, the move generator lists exactly the columns with room, the winner field agrees with a definition of the
  outcome over the whole board, the incremental hash is a function of the position, and a random play-out ends.
\<close>

section \<open>Invariant\<close>

definition pieces :: "player matrix \<Rightarrow> nat" where
  "pieces b = sum_list (map (\<lambda>p. if occupied p then 1 else 0) (m_data b))"

definition cf_dims :: "int \<Rightarrow> int \<Rightarrow> bool" where
  "cf_dims R C \<longleftrightarrow> 4 \<le> R \<and> 4 \<le> C \<and> 42 \<le> R * C \<and> R * C \<le> 255"

definition gravity :: "player matrix \<Rightarrow> bool" where
  "gravity b \<longleftrightarrow> (\<forall>r c p. matrix_at b r c = Some p \<and> occupied p \<and> r + 1 < m_I b \<longrightarrow>
     (\<exists>q. matrix_at b (r + 1) c = Some q \<and> occupied q))"

definition cells_ok :: "player matrix \<Rightarrow> bool" where
  "cells_ok b \<longleftrightarrow> (\<forall>r c p. matrix_at b r c = Some p \<longrightarrow> p = Vacant \<or> is_mover p)"

definition board_inv :: "player matrix \<Rightarrow> bool" where
  "board_inv b \<longleftrightarrow> matrix_wf b \<and> m_BaseI b = 0 \<and> m_BaseJ b = 0 \<and> cf_dims (m_I b) (m_J b)
    \<and> gravity b \<and> cells_ok b"

definition cf_wf :: "cf_state \<Rightarrow> bool" where
  "cf_wf s \<longleftrightarrow> board_inv (m_board s) \<and> unat (m_no_moves s) = pieces (m_board s)
    \<and> is_mover (m_player_just_moved s)"

lemma cf_dims_bounds: assumes "cf_dims R C" shows "R < 64" "C < 64"
proof -
  have "R * 4 \<le> R * C" "4 * C \<le> R * C"
    using assms by (auto simp: cf_dims_def intro: mult_left_mono mult_right_mono)
  then show "R < 64" "C < 64" using assms unfolding cf_dims_def by linarith+
qed

lemma board_inv_ok: "board_inv b \<Longrightarrow> board_ok b"
  using cf_dims_bounds [of "m_I b" "m_J b"] by (auto simp: board_inv_def board_ok_def cf_dims_def)

lemma board_inv_in: "board_inv b \<Longrightarrow> matrix_in b i j \<longleftrightarrow> 0 \<le> i \<and> i < m_I b \<and> 0 \<le> j \<and> j < m_J b"
  by (rule board_ok_in) (rule board_inv_ok)

lemma board_inv_at:
  assumes "board_inv b" "0 \<le> i" "i < m_I b" "0 \<le> j" "j < m_J b"
  shows "\<exists>p. matrix_at b i j = Some p \<and> (p = Vacant \<or> is_mover p)"
  using assms matrix_at_defined [of b i j] by (auto simp: board_inv_in) (auto simp: board_inv_def cells_ok_def)

lemma board_inv_size: "board_inv b \<Longrightarrow> int (length (m_data b)) = m_I b * m_J b"
  by (auto simp: board_inv_def matrix_wf_def cf_dims_def)

lemma matrix_at_Some_data:
  "matrix_at b i j = Some p \<longleftrightarrow> matrix_in b i j \<and> 0 \<le> matrix_idx b i j
    \<and> matrix_idx b i j < int (length (m_data b)) \<and> p = m_data b ! nat (matrix_idx b i j)"
  by (auto simp: matrix_at_def aref_def)

lemma pieces_put:
  assumes "matrix_put b i j p = Some b'" "matrix_at b i j = Some q" "\<not> occupied q" "occupied p"
  shows "pieces b' = Suc (pieces b)"
proof -
  from assms(1,2) have "m_data b' = (m_data b)[nat (matrix_idx b i j) := p]"
    and n: "nat (matrix_idx b i j) < length (m_data b)" "q = m_data b ! nat (matrix_idx b i j)"
    by (auto simp: matrix_put_def matrix_at_Some_data aset_eq_Some_iff split: if_splits)
  then show ?thesis
    using sum_list_update_nat [OF n(1), of "\<lambda>p. if occupied p then 1 else 0" p] assms(3,4)
    by (simp add: pieces_def)
qed

lemma pieces_le: "pieces b \<le> length (m_data b)"
proof -
  have "sum_list (map (\<lambda>p. if occupied p then 1 else 0) xs) \<le> length xs" for xs :: "player list"
    by (induction xs) auto
  then show ?thesis by (simp add: pieces_def)
qed

lemma pieces_lessD: "pieces b < length (m_data b) \<Longrightarrow> \<exists>n < length (m_data b). \<not> occupied (m_data b ! n)"
proof -
  have "\<exists>n < length xs. \<not> occupied (xs ! n)"
    if "sum_list (map (\<lambda>p. if occupied p then 1 else 0) xs) < length xs" for xs :: "player list"
    using that
  proof (induction xs)
    case (Cons x xs)
    show ?case
    proof (cases "occupied x")
      case True
      with Cons obtain n where "n < length xs" "\<not> occupied (xs ! n)" by auto
      then show ?thesis by (intro exI [of _ "Suc n"]) simp
    next
      case False
      then show ?thesis by (intro exI [of _ 0]) simp
    qed
  qed simp
  then show "pieces b < length (m_data b) \<Longrightarrow> \<exists>n < length (m_data b). \<not> occupied (m_data b ! n)"
    by (simp add: pieces_def)
qed

text \<open>Every flat position is a cell.\<close>

lemma board_cell_of_index:
  assumes "board_inv b" "n < length (m_data b)"
  obtains i j where "matrix_at b i j = Some (m_data b ! n)" "0 \<le> i" "i < m_I b" "0 \<le> j" "j < m_J b"
proof -
  let ?C = "m_J b" and ?i = "int n div m_J b" and ?j = "int n mod m_J b"
  have C: "0 < ?C" and bases: "m_BaseI b = 0" "m_BaseJ b = 0"
    using assms(1) by (auto simp: board_inv_def cf_dims_def)
  have n: "int n < m_I b * ?C" using assms board_inv_size [OF assms(1)] by simp
  have j: "0 \<le> ?j" "?j < ?C" using C by simp_all
  have "?i * ?C + ?j = int n" by simp
  with n j have "?i * ?C < m_I b * ?C" by linarith
  then have i: "0 \<le> ?i" "?i < m_I b" using C by (simp_all add: pos_imp_zdiv_nonneg_iff)
  have "matrix_idx b ?i ?j = int n" by (simp add: matrix_idx_def bases mod_mult_div_eq mult.commute)
  with i j assms have "matrix_at b ?i ?j = Some (m_data b ! n)"
    by (simp add: matrix_at_Some_data board_inv_in)
  then show ?thesis using that i j by blast
qed

section \<open>Falling stones\<close>

lemma drop_row_spec:
  assumes "board_inv b" "0 \<le> col" "col < m_J b" "int n \<le> m_I b"
  shows "(\<exists>r. drop_row b col (int n) = Some r \<and> 0 \<le> r \<and> r < int n \<and> matrix_at b r col = Some Vacant
      \<and> (\<forall>r'. r < r' \<and> r' < int n \<longrightarrow> (\<exists>q. matrix_at b r' col = Some q \<and> is_mover q)))
    \<or> (drop_row b col (int n) = None \<and> (\<forall>r'. 0 \<le> r' \<and> r' < int n \<longrightarrow> (\<exists>q. matrix_at b r' col = Some q \<and> is_mover q)))"
  using assms(4)
proof (induction n)
  case 0
  have "matrix_at b (-1) col = None" by (rule board_ok_None [OF board_inv_ok [OF assms(1)]]) simp
  then have "drop_row b col 0 = None" by (subst drop_row.simps) simp
  then show ?case by auto
next
  case (Suc n)
  then obtain p where p: "matrix_at b (int n) col = Some p" "p = Vacant \<or> is_mover p"
    using board_inv_at [OF assms(1), of "int n" col] assms(2,3) by auto
  show ?case
  proof (cases "p = Vacant")
    case True
    then have "drop_row b col (int (Suc n)) = Some (int n)" using p by (subst drop_row.simps) simp
    with p True show ?thesis by (intro disjI1 exI [of _ "int n"]) auto
  next
    case False
    then have "occupied p" "is_mover p" using p(2) is_mover_occupied by auto
    then have eq: "drop_row b col (int (Suc n)) = drop_row b col (int n)"
      using p(1) by (subst drop_row.simps) simp
    have ext: "\<exists>q. matrix_at b r' col = Some q \<and> is_mover q"
      if "r' < int (Suc n)" "r' < int n \<longrightarrow> (\<exists>q. matrix_at b r' col = Some q \<and> is_mover q)" for r'
      using that p(1) \<open>is_mover p\<close> by (cases "r' = int n") auto
    from Suc.IH Suc.prems consider
      r where "drop_row b col (int n) = Some r" "0 \<le> r" "r < int n" "matrix_at b r col = Some Vacant"
        "\<forall>r'. r < r' \<and> r' < int n \<longrightarrow> (\<exists>q. matrix_at b r' col = Some q \<and> is_mover q)"
      | "drop_row b col (int n) = None"
        "\<forall>r'. 0 \<le> r' \<and> r' < int n \<longrightarrow> (\<exists>q. matrix_at b r' col = Some q \<and> is_mover q)"
      by auto
    then show ?thesis
    proof cases
      case 1
      have "\<forall>r'. r < r' \<and> r' < int (Suc n) \<longrightarrow> (\<exists>q. matrix_at b r' col = Some q \<and> is_mover q)"
        using 1(5) ext by blast
      with 1(1-4) show ?thesis unfolding eq by (intro disjI1 exI [of _ r]) simp
    next
      case 2
      have "\<forall>r'. 0 \<le> r' \<and> r' < int (Suc n) \<longrightarrow> (\<exists>q. matrix_at b r' col = Some q \<and> is_mover q)"
        using 2(2) ext by blast
      with 2(1) show ?thesis unfolding eq by simp
    qed
  qed
qed

lemma gravity_down:
  assumes "gravity b" "matrix_at b r c = Some p" "occupied p" "r \<le> r'" "r' < m_I b"
  shows "\<exists>q. matrix_at b r' c = Some q \<and> occupied q"
  using assms(4,5)
proof (induction r' rule: int_ge_induct)
  case base
  show ?case using assms(2,3) by blast
next
  case (step i)
  then show ?case using assms(1) by (auto simp: gravity_def)
qed

lemma gravity_put:
  assumes "gravity b" "matrix_put b r c p = Some b'" "occupied p"
    and "\<And>r'. r < r' \<Longrightarrow> r' < m_I b \<Longrightarrow> \<exists>q. matrix_at b r' c = Some q \<and> occupied q"
  shows "gravity b'"
  unfolding gravity_def
proof (intro allI impI)
  fix i j q assume q: "matrix_at b' i j = Some q \<and> occupied q \<and> i + 1 < m_I b'"
  have dims: "m_I b' = m_I b" using matrix_put_frame [OF assms(2)] by simp
  have "\<exists>q'. matrix_at b (i + 1) j = Some q' \<and> occupied q'"
  proof (cases "i = r \<and> j = c")
    case True
    with q dims assms(4) [of "r + 1"] show ?thesis by simp
  next
    case False
    with q assms(1) dims show ?thesis by (auto simp: gravity_def matrix_at_put [OF assms(2)])
  qed
  then show "\<exists>q'. matrix_at b' (i + 1) j = Some q' \<and> occupied q'"
    using assms(3) by (auto simp: matrix_at_put [OF assms(2)])
qed

lemma board_inv_put:
  assumes "board_inv b" "matrix_put b r c p = Some b'" "is_mover p"
    and "\<And>r'. r < r' \<Longrightarrow> r' < m_I b \<Longrightarrow> \<exists>q. matrix_at b r' c = Some q \<and> occupied q"
  shows "board_inv b'"
  using assms gravity_put [of b r c p b'] matrix_put_frame [OF assms(2)] is_mover_occupied [OF assms(3)]
  by (auto simp: board_inv_def cells_ok_def matrix_at_put [OF assms(2)] split: if_splits)

text \<open>A move into a column with room puts the next player's stone on the lowest free cell of the column.\<close>

lemma move_ok:
  assumes wf: "cf_wf s" and top: "matrix_at (m_board s) 0 col = Some Vacant"
  obtains row b where
    "move col s = Some ((row, col), s\<lparr>m_move := col, m_player_just_moved := opponent (m_player_just_moved s),
       m_board := b, m_no_moves := m_no_moves s + 1\<rparr>)"
    "matrix_put (m_board s) row col (opponent (m_player_just_moved s)) = Some b"
    "matrix_at (m_board s) row col = Some Vacant"
    "board_inv b" "pieces b = Suc (pieces (m_board s))"
    "unat (m_no_moves s + 1) = Suc (unat (m_no_moves s))"
    "\<And>r. 0 \<le> r \<Longrightarrow> r < row \<Longrightarrow> matrix_at (m_board s) r col = Some Vacant"
proof -
  let ?b = "m_board s" and ?p = "opponent (m_player_just_moved s)"
  from wf have inv: "board_inv ?b" and p: "is_mover ?p"
    by (auto simp: cf_wf_def intro: inv_intros)
  have "matrix_in ?b 0 col" using top matrix_at_None by fastforce
  then have col: "0 \<le> col" "col < m_J ?b" and R: "0 < m_I ?b" by (auto simp: board_inv_in [OF inv])
  obtain row where row: "drop_row ?b col (m_I ?b) = Some row" "0 \<le> row" "row < m_I ?b"
    "matrix_at ?b row col = Some Vacant"
    "\<And>r. row < r \<Longrightarrow> r < m_I ?b \<Longrightarrow> \<exists>q. matrix_at ?b r col = Some q \<and> occupied q"
    using drop_row_spec [OF inv col, of "nat (m_I ?b)"] R top is_mover_occupied by fastforce
  obtain b where b: "matrix_put ?b row col ?p = Some b"
    using matrix_put_defined [of ?b row col] inv row col by (auto simp: board_inv_in board_inv_def)
  have "pieces ?b < length (m_data ?b)"
    using pieces_put [OF b row(4) _ is_mover_occupied [OF p]] pieces_le [of b] b
    by (auto simp: matrix_put_def aset_eq_Some_iff split: if_splits)
  then have "unat (m_no_moves s) < 255"
    using wf board_inv_size [OF inv] inv by (auto simp: cf_wf_def board_inv_def cf_dims_def)
  then have no: "unat (m_no_moves s + 1) = Suc (unat (m_no_moves s))"
    by (simp add: unat_word_ariths)
  have above: "matrix_at ?b r col = Some Vacant" if "0 \<le> r" "r < row" for r
    using board_inv_at [OF inv that(1) _ col] that row gravity_down [of ?b r col _ row] inv is_mover_occupied
    by (fastforce simp: board_inv_def)
  show ?thesis
  proof (rule that [OF _ b row(4) _ _ no above])
    show "move col s = Some ((row, col), s\<lparr>m_move := col, m_player_just_moved := ?p,
       m_board := b, m_no_moves := m_no_moves s + 1\<rparr>)"
      using row(1) b by (simp add: move_def Let_def)
    show "board_inv b" by (rule board_inv_put [OF inv b p row(5)])
    show "pieces b = Suc (pieces ?b)" by (rule pieces_put [OF b row(4) _ is_mover_occupied [OF p]]) simp
  qed
qed

lemma move_full_column:
  assumes "cf_wf s" "0 \<le> col" "col < NumCols s" "matrix_at (m_board s) 0 col \<noteq> Some Vacant"
  shows "move col s = None"
proof -
  let ?b = "m_board s"
  from assms(1) have inv: "board_inv ?b" by (simp add: cf_wf_def)
  then have R: "0 < m_I ?b" by (simp add: board_inv_def cf_dims_def)
  obtain p where p: "matrix_at ?b 0 col = Some p" "occupied p"
    using board_inv_at [OF inv _ R assms(2,3)] assms(4) is_mover_occupied by auto
  have occ: "\<exists>q. matrix_at ?b r col = Some q \<and> occupied q" if "0 \<le> r" "r < m_I ?b" for r
    using gravity_down [OF _ p] that inv by (auto simp: board_inv_def)
  have "drop_row ?b col (m_I ?b) = None"
    using drop_row_spec [OF inv assms(2,3), of "nat (m_I ?b)"] R occ by fastforce
  then show ?thesis by (simp add: move_def Let_def)
qed

section \<open>The move generator\<close>

definition open_cols :: "cf_state \<Rightarrow> move list" where
  "open_cols s = filter (\<lambda>c. matrix_at (m_board s) 0 c = Some Vacant) [0..NumCols s - 1]"

lemma moves_loop_ok:
  assumes "board_inv (m_board s)" "0 \<le> col" "moves_wf m" "m_size m + (NumCols s - col) \<le> capacity m"
  shows "\<exists>m'. moves_loop s col m = Some m' \<and> moves_wf m' \<and> capacity m' = capacity m
    \<and> contents m' = contents m @ filter (\<lambda>c. matrix_at (m_board s) 0 c = Some Vacant) [col..NumCols s - 1]"
  using assms
proof (induction s col m rule: moves_loop.induct)
  case (1 s col m)
  show ?case
  proof (cases "col < NumCols s")
    case True
    have R: "0 < m_I (m_board s)" using "1.prems"(1) by (simp add: board_inv_def cf_dims_def)
    from board_inv_at [OF "1.prems"(1) _ R "1.prems"(2) True] obtain p where p: "matrix_at (m_board s) 0 col = Some p" by auto
    have rng: "[col..NumCols s - 1] = col # [col + 1..NumCols s - 1]" using True by (simp add: upto_rec1)
    show ?thesis
    proof (cases "p = Vacant")
      case vac: True
      have "Move col = col"
        using "1.prems"(1,2) True cf_dims_bounds(2) [of "NumRows s" "NumCols s"] by (simp add: Move_def to_int8_id board_inv_def)
      moreover from push_back_ok [OF "1.prems"(3), of col] "1.prems"(4) True
      obtain m' where m': "push_back m col = Some m'" "moves_wf m'" "contents m' = contents m @ [col]"
        "capacity m' = capacity m" "m_size m' = m_size m + 1" by auto
      ultimately show ?thesis
        using 1(1) [OF True p vac, of m'] "1.prems"(1,2,4) True vac p rng by (simp add: moves_loop.simps [of s col m])
    next
      case False
      with 1(2) [OF True p False] "1.prems" True p rng show ?thesis by (simp add: moves_loop.simps [of s col m])
    qed
  next
    case False
    with "1.prems"(3) show ?thesis by (simp add: moves_loop.simps [of s col m])
  qed
qed

text \<open>On a board that is not full some column has room.\<close>

lemma open_cols_nonempty:
  assumes "board_inv b" "pieces b < length (m_data b)"
  obtains c where "0 \<le> c" "c < m_J b" "matrix_at b 0 c = Some Vacant"
proof -
  from pieces_lessD [OF assms(2)] obtain n where n: "n < length (m_data b)" "\<not> occupied (m_data b ! n)" by blast
  from board_cell_of_index [OF assms(1) n(1)] obtain i c
    where ic: "matrix_at b i c = Some (m_data b ! n)" "0 \<le> i" "i < m_I b" "0 \<le> c" "c < m_J b" by blast
  have "matrix_at b 0 c = Some Vacant"
    using board_inv_at [OF assms(1), of 0 c] ic n(2) gravity_down [of b 0 c _ i] assms(1) is_mover_occupied
    by (fastforce simp: board_inv_def)
  with ic show ?thesis using that by blast
qed

definition cf_full :: "cf_state \<Rightarrow> bool" where
  "cf_full s \<longleftrightarrow> pieces (m_board s) = length (m_data (m_board s))"

lemma full_test:
  assumes "cf_wf s"
  shows "NumRows s * NumCols s = uint (m_no_moves s) \<longleftrightarrow> cf_full s"
proof -
  have "uint (m_no_moves s) = int (pieces (m_board s))"
    using assms by (simp add: cf_wf_def uint_nat)
  then show ?thesis using board_inv_size [of "m_board s"] assms by (auto simp: cf_wf_def cf_full_def)
qed

lemma m_size_clear: "m_size (clear m) = 0"
  by (simp add: clear_def)

lemma moves_ok:
  assumes wf: "cf_wf s" and cap: "NumCols s \<le> capacity m"
  shows "\<exists>m'. moves s m = Some (\<not> cf_full s \<and> m_winner s = Invalid, m') \<and> moves_wf m' \<and> capacity m' = capacity m
    \<and> contents m' = (if \<not> cf_full s \<and> m_winner s = Invalid then open_cols s else [])"
proof (cases "\<not> cf_full s \<and> m_winner s = Invalid")
  case True
  have inv: "board_inv (m_board s)" using wf by (simp add: cf_wf_def)
  from moves_loop_ok [OF inv order.refl moves_wf_clear, of m] cap
  obtain m' where "moves_loop s 0 (clear m) = Some m'" "moves_wf m'" "capacity m' = capacity m"
    "contents m' = open_cols s" by (auto simp: open_cols_def m_size_clear)
  with True show ?thesis by (simp add: moves_def Let_def full_test [OF wf])
next
  case False
  then show ?thesis by (auto simp: moves_def Let_def full_test [OF wf])
qed

lemma open_cols_iff: "c \<in> set (open_cols s) \<longleftrightarrow> 0 \<le> c \<and> c < NumCols s \<and> matrix_at (m_board s) 0 c = Some Vacant"
  by (auto simp: open_cols_def)

lemma open_cols_not_Nil:
  assumes "cf_wf s" "\<not> cf_full s"
  shows "open_cols s \<noteq> []"
proof -
  have "pieces (m_board s) < length (m_data (m_board s))"
    using pieces_le [of "m_board s"] assms(2) by (simp add: cf_full_def)
  then obtain c where "c \<in> set (open_cols s)"
    using open_cols_nonempty [of "m_board s"] assms(1) unfolding open_cols_iff cf_wf_def by metis
  then show ?thesis by auto
qed

end
