(* ===== verification/Connect_Four_Outcome.thy ===== *)
theory Connect_Four_Outcome
  imports Connect_Four_Game
begin

unbundle bit_operations_syntax

text \<open>
  What the two incrementally kept fields of a Connect Four state mean: the outcome of a position, defined over the whole
  board, against \<^verbatim>\<open>m_winner\<close>, and the hash of a board, computed from scratch, against \<^verbatim>\<open>m_zobrist_hash\<close>. Each
  comes with the lemma that says how one stone changes it.
\<close>

section \<open>Outcome\<close>

text \<open>The outcome of a position, read off the whole board.\<close>

definition four_on :: "player matrix \<Rightarrow> player \<Rightarrow> bool" where
  "four_on b p \<longleftrightarrow> (\<exists>r\<in>{0..<m_I b}. \<exists>c\<in>{0..<m_J b}. four_through b p r c)"

definition outcome :: "player matrix \<Rightarrow> player" where
  "outcome b =
    (if four_on b Agent then Agent else if four_on b Human then Human
     else if pieces b = length (m_data b) then Vacant else Invalid)"

lemma four_dir_self: "four_dir b p dr dc r c \<Longrightarrow> matrix_at b r c = Some p"
  by (auto simp: four_dir_def cell_def dest!: bspec)

lemma four_through_self: "four_through b p r c \<Longrightarrow> matrix_at b r c = Some p"
  by (auto simp: four_through_def dest: four_dir_self)

lemma matrix_at_Some_in: "matrix_at b i j = Some p \<Longrightarrow> matrix_in b i j"
  using matrix_at_None by fastforce

lemma four_on_iff: "board_inv b \<Longrightarrow> four_on b p \<longleftrightarrow> (\<exists>r c. four_through b p r c)"
  using four_through_self [THEN matrix_at_Some_in, of b p]
  by (fastforce simp: four_on_def board_inv_in)

text \<open>Placing one stone makes a new line of four only through the new stone.\<close>

lemma four_dir_put:
  assumes "matrix_put b row col p = Some b'" "four_dir b' q dr dc r c"
  shows "(q = p \<and> four_dir b' p dr dc row col) \<or> four_dir b q dr dc r c"
proof -
  from assms(2) obtain k where k: "k \<in> {0..3}" "\<forall>i\<in>{0..3}. cell b' dr dc r c (i - k) = Some q"
    by (auto simp: four_dir_def)
  show ?thesis
  proof (cases "\<exists>j\<in>{0..3}. r + (j - k) * dr = row \<and> c + (j - k) * dc = col")
    case True
    then obtain j where j: "j \<in> {0..3}" "row = r + (j - k) * dr" "col = c + (j - k) * dc" by blast
    have shift: "cell b' dr dc row col (i - j) = cell b' dr dc r c (i - k)" for i
      by (simp add: cell_def j(2,3) algebra_simps)
    have "q = p" using bspec [OF k(2) j(1)] by (simp add: cell_def matrix_at_put [OF assms(1)] flip: j(2,3))
    moreover have "four_dir b' p dr dc row col"
      unfolding four_dir_def using k(2) j(1) \<open>q = p\<close> by (intro bexI [of _ j]) (auto simp: shift)
    ultimately show ?thesis by blast
  next
    case False
    have "\<forall>i\<in>{0..3}. cell b dr dc r c (i - k) = Some q"
    proof
      fix i :: int assume i: "i \<in> {0..3}"
      with False have "\<not> (r + (i - k) * dr = row \<and> c + (i - k) * dc = col)" by blast
      with bspec [OF k(2) i] show "cell b dr dc r c (i - k) = Some q"
        unfolding cell_def matrix_at_put [OF assms(1)] by (simp only: if_False)
    qed
    with k(1) show ?thesis by (auto simp: four_dir_def)
  qed
qed

lemma four_through_put:
  assumes "matrix_put b row col p = Some b'" "four_through b' q r c" "\<not> four_through b q r c"
  shows "q = p \<and> four_through b' p row col"
  using assms(2,3) four_dir_put [OF assms(1)] unfolding four_through_def by blast

lemma outcome_put:
  assumes "board_inv b" "board_inv b'" "outcome b = Invalid" "matrix_put b row col p = Some b'" "is_mover p"
  shows "outcome b' = (if four_through b' p row col then p
    else if pieces b' = length (m_data b') then Vacant else Invalid)"
proof -
  have "\<not> four_through b q r c" if "is_mover q" for q r c
    using assms(1,3) that by (auto simp: outcome_def four_on_iff is_mover_def split: if_splits)
  then have "four_on b' q \<longleftrightarrow> q = p \<and> four_through b' p row col" if "is_mover q" for q
    using four_through_put [OF assms(4)] that unfolding four_on_iff [OF assms(2)] by blast
  then show ?thesis using assms(5) by (auto simp: outcome_def is_mover_def)
qed

section \<open>Hash\<close>

definition xor_sum :: "('a \<Rightarrow> u64) \<Rightarrow> 'a list \<Rightarrow> u64" where
  "xor_sum f xs = foldr (\<lambda>x h. f x XOR h) xs 0"

lemma xor_sum_cong: "(\<And>x. x \<in> set xs \<Longrightarrow> f x = g x) \<Longrightarrow> xor_sum f xs = xor_sum g xs"
  by (induction xs) (auto simp: xor_sum_def)

lemma xor_sum_update:
  assumes "distinct xs" "a \<in> set xs" "\<And>x. x \<noteq> a \<Longrightarrow> g x = f x"
  shows "xor_sum g xs = xor_sum f xs XOR (f a XOR g a)"
  using assms(1,2)
proof (induction xs)
  case (Cons x xs)
  show ?case
  proof (cases "x = a")
    case True
    with Cons.prems have "xor_sum g xs = xor_sum f xs" by (auto intro!: xor_sum_cong assms(3))
    with True show ?thesis by (simp add: xor_sum_def ac_simps)
  next
    case False
    with Cons assms(3) have "xor_sum g xs = xor_sum f xs XOR (f a XOR g a)" "g x = f x" by auto
    then show ?thesis by (simp add: xor_sum_def ac_simps)
  qed
qed simp

definition cell_key :: "player matrix \<Rightarrow> int \<times> int \<Rightarrow> u64" where
  "cell_key b rc = (case matrix_at b (fst rc) (snd rc) of
     None \<Rightarrow> 0
   | Some p \<Rightarrow> (case as_01index p of
       None \<Rightarrow> 0
     | Some i \<Rightarrow> the (cube_at (m_zobrist_keys (m_I b) (m_J b)) i (fst rc) (snd rc))))"

text \<open>The hash of a board from scratch: the keys of all its stones.\<close>

definition board_hash :: "player matrix \<Rightarrow> u64" where
  "board_hash b = xor_sum (cell_key b) (List.product [0..m_I b - 1] [0..m_J b - 1])"

definition hash_ok :: "cf_state \<Rightarrow> bool" where
  "hash_ok s \<longleftrightarrow> m_zobrist_hash s = initial_hash XOR board_hash (m_board s)"

lemma zobrist_keys_at:
  assumes "cf_dims R C" "0 \<le> i" "i < 2" "0 \<le> r" "r < R" "0 \<le> c" "c < C"
  shows "\<exists>k. cube_at (m_zobrist_keys R C) i r c = Some k"
proof -
  let ?k = "m_zobrist_keys R C"
  have "length zobrist_key_values = 84" by (simp add: zobrist_key_values_def)
  moreover have "84 \<le> nat (2 * R * C)" using assms(1) unfolding cf_dims_def mult.assoc by linarith
  ultimately have "length (c_data ?k) = nat (c_I ?k * c_J ?k * c_K ?k)"
    unfolding m_zobrist_keys_def by simp
  moreover have "cube_in ?k i r c" using assms by (simp add: cube_in_def m_zobrist_keys_def)
  ultimately show ?thesis
    using cub.flat_read [of ?k "(i, r, c)" "c_data ?k"] by (simp add: cube_at_def)
qed

lemma board_hash_put:
  assumes "board_inv b" "matrix_put b row col p = Some b'" "matrix_at b row col = Some Vacant"
    "as_01index p = Some i"
  shows "board_hash b' = board_hash b XOR the (cube_at (m_zobrist_keys (m_I b) (m_J b)) i row col)"
proof -
  note fr = matrix_put_frame [OF assms(2)]
  have other: "cell_key b' x = cell_key b x" if "x \<noteq> (row, col)" for x
    using that unfolding cell_key_def fr(1,2) by (cases x) (auto simp: matrix_at_put [OF assms(2)])
  have "(row, col) \<in> set (List.product [0..m_I b - 1] [0..m_J b - 1])"
    using fr(7) by (auto simp: board_inv_in [OF assms(1)])
  then have "board_hash b' = board_hash b XOR (cell_key b (row, col) XOR cell_key b' (row, col))"
    unfolding board_hash_def fr by (intro xor_sum_update other) (simp_all add: distinct_product)
  then show ?thesis
    by (simp add: cell_key_def matrix_at_put [OF assms(2)] assms(3,4) fr)
qed

end
