(* ===== verification/Connect_Four_Play.thy ===== *)
theory Connect_Four_Play
  imports Connect_Four_Outcome
begin

unbundle bit_operations_syntax

text \<open>
  Whole games of Connect Four: what one move does to a state, the positions that can be reached, and the random
  play-out.
\<close>

section \<open>One move\<close>

definition cf_inv :: "cf_state \<Rightarrow> bool" where
  "cf_inv s \<longleftrightarrow> cf_wf s \<and> m_winner s = outcome (m_board s)"

lemma cf_inv_wf: "cf_inv s \<Longrightarrow> cf_wf s"
  by (simp add: cf_inv_def)

text \<open>\<open>s'\<close> is \<open>s\<close> after the player to move has dropped a stone into \<open>col\<close>, the winner and the hash left aside.\<close>

definition cf_next :: "move \<Rightarrow> cf_state \<Rightarrow> cf_state \<Rightarrow> bool" where
  "cf_next col s s' \<longleftrightarrow>
    (\<exists>row. matrix_put (m_board s) row col (playerToMove s) = Some (m_board s')
      \<and> matrix_at (m_board s) row col = Some Vacant)
    \<and> m_move s' = col \<and> m_player_just_moved s' = playerToMove s
    \<and> m_no_moves s' = m_no_moves s + 1 \<and> pieces (m_board s') = Suc (pieces (m_board s))"

lemma move_step:
  assumes wf: "cf_wf s" and top: "matrix_at (m_board s) 0 col = Some Vacant"
  obtains row s' where "move col s = Some ((row, col), s')" "cf_wf s'" "cf_next col s s'"
    "m_winner s' = m_winner s" "m_zobrist_hash s' = m_zobrist_hash s"
    "matrix_put (m_board s) row col (playerToMove s) = Some (m_board s')"
    "matrix_at (m_board s) row col = Some Vacant"
    "matrix_at (m_board s') row col = Some (playerToMove s)"
    "matrix_at (m_board s') (row - 1) col \<noteq> Some (playerToMove s)"
proof -
  have mover: "is_mover (playerToMove s)"
    using wf by (auto simp: cf_wf_def playerToMove_def intro: inv_intros)
  from wf top show ?thesis
  proof (rule move_ok)
    fix row b
    let ?s = "s\<lparr>m_move := col, m_player_just_moved := opponent (m_player_just_moved s),
       m_board := b, m_no_moves := m_no_moves s + 1\<rparr>"
    assume mv: "move col s = Some ((row, col), ?s)"
      and put: "matrix_put (m_board s) row col (opponent (m_player_just_moved s)) = Some b"
      and vac: "matrix_at (m_board s) row col = Some Vacant"
      and b: "board_inv b" "pieces b = Suc (pieces (m_board s))"
      and no: "unat (m_no_moves s + 1) = Suc (unat (m_no_moves s))"
      and above: "\<And>r. 0 \<le> r \<Longrightarrow> r < row \<Longrightarrow> matrix_at (m_board s) r col = Some Vacant"
    show ?thesis
    proof (rule that [OF mv])
      show "cf_wf ?s"
        using wf b no mover by (simp add: cf_wf_def playerToMove_def)
      show "cf_next col s ?s"
        using put vac b(2) by (auto simp: cf_next_def playerToMove_def)
      show "matrix_at (m_board ?s) row col = Some (playerToMove s)"
        using matrix_at_put [OF put] by (simp add: playerToMove_def)
      have "matrix_at (m_board s) (row - 1) col = None \<or> matrix_at (m_board s) (row - 1) col = Some Vacant"
      proof (cases "0 < row")
        case False
        have "board_ok (m_board s)" using wf by (simp add: cf_wf_def board_inv_ok)
        with False show ?thesis by (simp add: board_ok_None)
      qed (use above [of "row - 1"] in simp)
      then show "matrix_at (m_board ?s) (row - 1) col \<noteq> Some (playerToMove s)"
        using matrix_at_put [OF put, of "row - 1" col] mover by auto
    qed (use put vac in \<open>simp_all add: playerToMove_def\<close>)
  qed
qed

text \<open>\<^verbatim>\<open>winner\<close> after a move sets the winner field to the outcome of the new board.\<close>

lemma winner_step:
  assumes "cf_inv s" "m_winner s = Invalid" "cf_wf s'" "m_winner s' = Invalid"
    and put: "matrix_put (m_board s) row col (playerToMove s) = Some (m_board s')"
    and at: "matrix_at (m_board s') row col = Some (playerToMove s)"
    and top: "matrix_at (m_board s') (row - 1) col \<noteq> Some (playerToMove s)"
  shows "\<exists>s''. winner (row, col) s' = Some s'' \<and> cf_inv s'' \<and> s'' = s'\<lparr>m_winner := outcome (m_board s')\<rparr>"
proof -
  have mover: "is_mover (playerToMove s)"
    using assms(1) by (auto simp: cf_inv_def cf_wf_def playerToMove_def intro: inv_intros)
  have b: "board_inv (m_board s)" "board_inv (m_board s')" and ob: "outcome (m_board s) = Invalid"
    using assms(1-3) by (auto simp: cf_inv_def cf_wf_def)
  have full: "NumRows s' * NumCols s' = uint (m_no_moves s') \<longleftrightarrow> pieces (m_board s') = length (m_data (m_board s'))"
    using full_test [OF assms(3)] by (simp add: cf_full_def)
  have "s'\<lparr>m_winner := Invalid\<rparr> = s'" using assms(4) by simp
  then have "winner (row, col) s' = Some (s'\<lparr>m_winner := outcome (m_board s')\<rparr>)"
    using winner_correct [OF board_inv_ok [OF b(2)] at top] outcome_put [OF b ob put mover] full
    by (auto split: if_splits)
  moreover have "cf_inv (s'\<lparr>m_winner := outcome (m_board s')\<rparr>)"
    using assms(3) by (simp add: cf_inv_def cf_wf_def)
  ultimately show ?thesis by blast
qed

lemma hash_step:
  assumes "cf_wf s" "cf_wf s'" "m_player_just_moved s' = playerToMove s"
    and put: "matrix_put (m_board s) row col (playerToMove s) = Some (m_board s')"
    and vac: "matrix_at (m_board s) row col = Some Vacant"
    and zh: "m_zobrist_hash s' = m_zobrist_hash s"
  shows "\<exists>h. hash ((row, col), s') = Some ((row, col), s'\<lparr>m_zobrist_hash := h\<rparr>)
    \<and> (hash_ok s \<longrightarrow> h = initial_hash XOR board_hash (m_board s'))"
proof -
  have "is_mover (playerToMove s)"
    using assms(1) by (auto simp: cf_wf_def playerToMove_def intro: inv_intros)
  then obtain i where i: "as_01index (playerToMove s) = Some i" "0 \<le> i" "i < 2"
    using is_mover_as_01index by blast
  have inv: "board_inv (m_board s)" using assms(1) by (simp add: cf_wf_def)
  note fr = matrix_put_frame [OF put]
  obtain k where k: "cube_at (m_zobrist_keys (NumRows s) (NumCols s)) i row col = Some k"
    using zobrist_keys_at [OF _ i(2,3), of "NumRows s" "NumCols s" row col] fr(7) inv
    by (auto simp: board_inv_in board_inv_def)
  show ?thesis
    using board_hash_put [OF inv put vac i(1)] i(1) k assms(3) fr(1,2) zh
    by (auto simp: hash_def hash_ok_def ac_simps)
qed

lemma move_winner_step:
  assumes "cf_inv s" "m_winner s = Invalid" "matrix_at (m_board s) 0 col = Some Vacant"
  shows "\<exists>s'. move_winner col s = Some s' \<and> cf_inv s' \<and> cf_next col s s' \<and> m_zobrist_hash s' = m_zobrist_hash s"
proof -
  from cf_inv_wf [OF assms(1)] assms(3) show ?thesis
  proof (rule move_step)
    fix row s' assume s': "move col s = Some ((row, col), s')" "cf_wf s'" "cf_next col s s'"
      "m_winner s' = m_winner s" "m_zobrist_hash s' = m_zobrist_hash s"
      "matrix_put (m_board s) row col (playerToMove s) = Some (m_board s')"
      "matrix_at (m_board s') row col = Some (playerToMove s)"
      "matrix_at (m_board s') (row - 1) col \<noteq> Some (playerToMove s)"
    from winner_step [OF assms(1,2) s'(2) _ s'(6-8)] s'(4) assms(2)
    obtain s'' where "winner (row, col) s' = Some s''" "cf_inv s''" "s'' = s'\<lparr>m_winner := outcome (m_board s')\<rparr>"
      by auto
    with s'(1,3,5) show ?thesis by (auto simp: move_winner_def cf_next_def)
  qed
qed

lemma move_hash_step:
  assumes "cf_wf s" "matrix_at (m_board s) 0 col = Some Vacant"
  shows "\<exists>s'. move_hash col s = Some s' \<and> cf_wf s' \<and> cf_next col s s' \<and> m_winner s' = m_winner s
    \<and> (hash_ok s \<longrightarrow> hash_ok s')"
  using assms
proof (rule move_step)
  fix row s' assume s': "move col s = Some ((row, col), s')" "cf_wf s'" "cf_next col s s'"
    "m_winner s' = m_winner s" "m_zobrist_hash s' = m_zobrist_hash s"
    "matrix_put (m_board s) row col (playerToMove s) = Some (m_board s')"
    "matrix_at (m_board s) row col = Some Vacant"
  from hash_step [OF assms(1) s'(2) _ s'(6,7,5)] s'(3)
  obtain h where "hash ((row, col), s') = Some ((row, col), s'\<lparr>m_zobrist_hash := h\<rparr>)"
    "hash_ok s \<longrightarrow> h = initial_hash XOR board_hash (m_board s')" by (auto simp: cf_next_def)
  with s' show ?thesis by (auto simp: move_hash_def cf_next_def cf_wf_def hash_ok_def)
qed

lemma move_hash_winner_step:
  assumes "cf_inv s" "m_winner s = Invalid" "matrix_at (m_board s) 0 col = Some Vacant"
  shows "\<exists>s'. move_hash_winner col s = Some s' \<and> cf_inv s' \<and> cf_next col s s' \<and> (hash_ok s \<longrightarrow> hash_ok s')"
proof -
  from cf_inv_wf [OF assms(1)] assms(3) show ?thesis
  proof (rule move_step)
    fix row s' assume s': "move col s = Some ((row, col), s')" "cf_wf s'" "cf_next col s s'"
      "m_winner s' = m_winner s" "m_zobrist_hash s' = m_zobrist_hash s"
      "matrix_put (m_board s) row col (playerToMove s) = Some (m_board s')"
      "matrix_at (m_board s) row col = Some Vacant"
      "matrix_at (m_board s') row col = Some (playerToMove s)"
      "matrix_at (m_board s') (row - 1) col \<noteq> Some (playerToMove s)"
    from hash_step [OF cf_inv_wf [OF assms(1)] s'(2) _ s'(6,7,5)] s'(3)
    obtain h where h: "hash ((row, col), s') = Some ((row, col), s'\<lparr>m_zobrist_hash := h\<rparr>)"
      "hash_ok s \<longrightarrow> h = initial_hash XOR board_hash (m_board s')" by (auto simp: cf_next_def)
    let ?s = "s'\<lparr>m_zobrist_hash := h\<rparr>"
    have "cf_wf ?s" "m_winner ?s = Invalid" using s'(2,4) assms(2) by (simp_all add: cf_wf_def)
    from winner_step [OF assms(1,2) this] s'(6,8,9)
    obtain s'' where "winner (row, col) ?s = Some s''" "cf_inv s''" "s'' = ?s\<lparr>m_winner := outcome (m_board ?s)\<rparr>"
      by auto
    with s'(1,3) h show ?thesis by (auto simp: move_hash_winner_def cf_next_def hash_ok_def)
  qed
qed

lemma move_winner_wf:
  assumes "cf_wf s" "matrix_at (m_board s) 0 col = Some Vacant"
  shows "\<exists>s'. move_winner col s = Some s' \<and> cf_wf s' \<and> cf_next col s s'"
  using assms
proof (rule move_step)
  fix row s' assume s': "move col s = Some ((row, col), s')" "cf_wf s'" "cf_next col s s'"
    "matrix_at (m_board s') row col = Some (playerToMove s)"
    "matrix_at (m_board s') (row - 1) col \<noteq> Some (playerToMove s)"
  have "board_ok (m_board s')" using s'(2) by (simp add: cf_wf_def board_inv_ok)
  from winner_correct [OF this s'(4,5)] obtain s'' where s'': "winner (row, col) s' = Some s''"
    "s'' = s' \<or> (\<exists>w. s'' = s'\<lparr>m_winner := w\<rparr>)" by (simp split: if_splits) blast+
  from s''(2) s'(2,3) have "cf_wf s''" "cf_next col s s''" by (auto simp: cf_next_def cf_wf_def)
  with s'(1) s''(1) show ?thesis by (simp add: move_winner_def)
qed

section \<open>Reachable positions\<close>

lemma gravity_new: "gravity (matrix_new R C 0 0 Vacant)"
  by (auto simp: gravity_def matrix_at_new split: if_splits)

lemma four_through_new: "\<not> four_through (matrix_new R C 0 0 Vacant) p r c" if "is_mover p"
  using four_through_self [of "matrix_new R C 0 0 Vacant" p r c] that by (auto simp: matrix_at_new split: if_splits)

lemma pieces_new: "pieces (matrix_new R C 0 0 Vacant) = 0"
  by (simp add: pieces_def matrix_new_def)

lemma board_hash_new: "board_hash (matrix_new R C 0 0 Vacant) = 0"
proof -
  have "cell_key (matrix_new R C 0 0 Vacant) rc = 0" for rc
    by (auto simp: cell_key_def matrix_at_new)
  then have "xor_sum (cell_key (matrix_new R C 0 0 Vacant)) xs = 0" for xs
    by (induction xs) (auto simp: xor_sum_def)
  then show ?thesis by (simp add: board_hash_def)
qed

lemma connect_four_inv:
  assumes "cf_dims R C" "is_mover p"
  shows "cf_inv (connect_four R C p)" "hash_ok (connect_four R C p)"
proof -
  let ?b = "matrix_new R C 0 0 Vacant"
  have inv: "board_inv ?b"
    using assms(1) by (auto simp: board_inv_def gravity_new cells_ok_def matrix_at_new split: if_splits)
      (auto simp: matrix_new_def)
  moreover have "\<not> four_on ?b Agent" "\<not> four_on ?b Human" by (simp_all add: four_on_def four_through_new)
  moreover have "0 < R * C" using assms(1) by (simp add: cf_dims_def)
  then have "length (m_data ?b) \<noteq> 0" by (simp add: matrix_new_def)
  ultimately show "cf_inv (connect_four R C p)"
    using assms(2) by (simp add: cf_inv_def cf_wf_def connect_four_def outcome_def pieces_new)
  show "hash_ok (connect_four R C p)"
    by (simp add: hash_ok_def connect_four_def board_hash_new)
qed

text \<open>The positions of a game: from a fresh state, the players make moves that \<^verbatim>\<open>moves\<close> offers.\<close>

inductive cf_reach :: "int \<Rightarrow> int \<Rightarrow> cf_state \<Rightarrow> bool" for R C where
  start: "is_mover p \<Longrightarrow> cf_reach R C (connect_four R C p)"
| play: "cf_reach R C s \<Longrightarrow> moves s (moves_new (nat C) move_invalid) = Some (True, m) \<Longrightarrow> col \<in> set (contents m) \<Longrightarrow>
    move_hash_winner col s = Some s' \<Longrightarrow> cf_reach R C s'"

inductive_cases cf_reach_cases: "cf_reach R C s"

lemma capacity_new: "capacity (moves_new n v) = int n"
  by (simp add: capacity_def moves_new_def)

lemma moves_offered:
  assumes "cf_wf s" "NumCols s \<le> capacity m0" "moves s m0 = Some (True, m)" "col \<in> set (contents m)"
  shows "m_winner s = Invalid" "\<not> cf_full s" "matrix_at (m_board s) 0 col = Some Vacant" "0 \<le> col" "col < NumCols s"
  using moves_ok [OF assms(1,2)] assms(3,4) by (auto simp: open_cols_iff split: if_splits)

lemma cf_next_dims: "cf_next col s s' \<Longrightarrow> NumRows s' = NumRows s \<and> NumCols s' = NumCols s"
  by (auto simp: cf_next_def dest: matrix_put_frame)

lemma cf_reach_inv:
  assumes "cf_dims R C" "cf_reach R C s"
  shows "cf_inv s \<and> hash_ok s \<and> NumRows s = R \<and> NumCols s = C"
  using assms(2)
proof (induction rule: cf_reach.induct)
  case (start p)
  with assms(1) show ?case by (simp add: connect_four_inv) (simp add: connect_four_def matrix_new_def)
next
  case (play s m col s')
  then have "cf_wf s" and "NumCols s \<le> capacity (moves_new (nat C) move_invalid)"
    by (auto simp: cf_inv_wf capacity_new)
  from moves_offered [OF this play.hyps(2,3)] move_hash_winner_step [of s col] play
  show ?case by (auto dest: cf_next_dims)
qed

text \<open>A list of moves, each made only if it is offered.\<close>

fun cf_play :: "int \<Rightarrow> move list \<Rightarrow> cf_state \<Rightarrow> cf_state option" where
  "cf_play C [] s = Some s"
| "cf_play C (col # cols) s =
    (case moves s (moves_new (nat C) move_invalid) of
       Some (True, m) \<Rightarrow>
         if col \<in> set (contents m) then
           (case move_hash_winner col s of None \<Rightarrow> None | Some s' \<Rightarrow> cf_play C cols s')
         else None
     | _ \<Rightarrow> None)"

lemma cf_play_reach: "cf_reach R C s \<Longrightarrow> cf_play C cols s = Some s' \<Longrightarrow> cf_reach R C s'"
  by (induction cols arbitrary: s)
    (auto split: option.splits prod.splits bool.splits if_splits dest: cf_reach.play)

section \<open>Play-outs\<close>

lemma matrix_put_length: "matrix_put b i j x = Some b' \<Longrightarrow> length (m_data b') = length (m_data b)"
  by (auto simp: matrix_put_def aset_eq_Some_iff split: if_splits)

lemma cf_next_pieces: "cf_next col s s' \<Longrightarrow> cf_wf s' \<Longrightarrow> length (m_data (m_board s)) - pieces (m_board s)
    = Suc (length (m_data (m_board s')) - pieces (m_board s'))"
  using pieces_le [of "m_board s'"]
  by (auto simp: cf_next_def dest!: matrix_put_length)

text \<open>Whatever invariant the moves keep, a play-out ends with it, because every move fills a cell.\<close>

lemma simulate_loop_ok:
  assumes unif: "uniform_dist unif"
    and wf: "\<And>s. P s \<Longrightarrow> cf_wf s"
    and step: "\<And>s col. P s \<Longrightarrow> m_winner s = Invalid \<Longrightarrow> matrix_at (m_board s) 0 col = Some Vacant \<Longrightarrow>
      \<exists>s'. move_winner col s = Some s' \<and> P s' \<and> cf_next col s s'"
    and "P s" "NumCols s \<le> capacity m"
  shows "\<exists>s' g'. simulate_loop unif s m g = Some (s', g') \<and> P s' \<and> (m_winner s' \<noteq> Invalid \<or> cf_full s')"
  using assms(4,5)
proof (induction "length (m_data (m_board s)) - pieces (m_board s)" arbitrary: s m g rule: less_induct)
  case less
  from moves_ok [OF wf [OF less.prems(1)] less.prems(2)] obtain m' where m':
    "moves s m = Some (\<not> cf_full s \<and> m_winner s = Invalid, m')" "moves_wf m'" "capacity m' = capacity m"
    "contents m' = (if \<not> cf_full s \<and> m_winner s = Invalid then open_cols s else [])" by blast
  show ?case
  proof (cases "\<not> cf_full s \<and> m_winner s = Invalid")
    case False
    with m'(1) less.prems(1) show ?thesis by (subst simulate_loop.simps) auto
  next
    case True
    then have "0 < length (contents m')"
      using open_cols_not_Nil [OF wf [OF less.prems(1)]] m'(4) by simp
    then have "0 < m_size m'" using length_contents [OF m'(2)] by linarith
    from moves_random_ok [OF unif m'(2) this, of g] obtain c g1 where
      c: "moves_random unif m' g = Some (c, g1)" "c \<in> set (open_cols s)" using m'(4) True by auto
    from step [OF less.prems(1)] True c(2) obtain s1 where
      s1: "move_winner c s = Some s1" "P s1" "cf_next c s s1" by (auto simp: open_cols_iff)
    then have "simulate_loop unif s m g = simulate_loop unif s1 m' g1"
      using m'(1) True c(1) by (subst simulate_loop.simps) simp
    moreover have "\<exists>s' g'. simulate_loop unif s1 m' g1 = Some (s', g') \<and> P s' \<and> (m_winner s' \<noteq> Invalid \<or> cf_full s')"
      using cf_next_pieces [OF s1(3) wf [OF s1(2)]] cf_next_dims [OF s1(3)] less.prems(2) m'(3) s1(2)
      by (intro less.hyps) auto
    ultimately show ?thesis by simp
  qed
qed

lemma simulate_wf_ok:
  assumes "uniform_dist unif" "cf_wf s"
  shows "\<exists>s' g'. simulate unif s g = Some (s', g') \<and> cf_wf s' \<and> (m_winner s' \<noteq> Invalid \<or> cf_full s')"
  unfolding simulate_def
  by (rule simulate_loop_ok [where P = cf_wf]) (use assms move_winner_wf in \<open>auto simp: capacity_new\<close>)

lemma outcome_full: "cf_inv s \<Longrightarrow> cf_full s \<Longrightarrow> m_winner s \<noteq> Invalid"
  by (simp add: cf_inv_def cf_full_def outcome_def)

lemma simulate_ok:
  assumes "uniform_dist unif" "cf_inv s"
  shows "\<exists>s' g'. simulate unif s g = Some (s', g') \<and> cf_inv s' \<and> m_winner s' \<noteq> Invalid"
proof -
  have "\<exists>s' g'. simulate unif s g = Some (s', g') \<and> cf_inv s' \<and> (m_winner s' \<noteq> Invalid \<or> cf_full s')"
    unfolding simulate_def
  proof (rule simulate_loop_ok [where P = cf_inv])
    show "\<exists>s'. move_winner col s = Some s' \<and> cf_inv s' \<and> cf_next col s s'"
      if "cf_inv s" "m_winner s = Invalid" "matrix_at (m_board s) 0 col = Some Vacant" for s col
      using move_winner_step [OF that] by blast
  qed (use assms cf_inv_wf in \<open>auto simp: capacity_new\<close>)
  then show ?thesis using outcome_full by blast
qed


section \<open>Properties\<close>

text \<open>C7: \<^verbatim>\<open>winner\<close> is exact: called on the cell of the last stone, which has no equal stone on top of it, it sets
  the winner field to the owner of the stone if and only if four of the stones of that owner stand in a row, column
  or diagonal through the cell; otherwise it records a draw if and only if the board is full, and else changes
  nothing. The arithmetic guards that cut the counting loops short never hide a line of four.\<close>

theorem winner_exact:
  assumes "board_ok (m_board s)" "matrix_at (m_board s) row col = Some p"
    "matrix_at (m_board s) (row - 1) col \<noteq> Some p"
  shows "winner (row, col) s =
    Some (if four_through (m_board s) p row col then s\<lparr>m_winner := p\<rparr>
      else if NumRows s * NumCols s = uint (m_no_moves s) then s\<lparr>m_winner := Vacant\<rparr> else s)"
  by (rule winner_correct) (use assms in auto)

definition winner_example :: cf_state where
  "winner_example = (connect_four 6 7 Agent)\<lparr>m_no_moves := 7,
    m_board := \<lparr>m_I = 6, m_J = 7, m_BaseI = 0, m_BaseJ = 0, m_data = replicate 35 Vacant
      @ [Human, Agent, Agent, Agent, Agent, Human, Human]\<rparr>\<rparr>"

theorem winner_exact_witness:
  "winner (5, 3) winner_example = Some (winner_example\<lparr>m_winner := Agent\<rparr>)"
proof -
  have "board_ok (m_board winner_example)" "matrix_at (m_board winner_example) 5 3 = Some Agent"
    "matrix_at (m_board winner_example) (5 - 1) 3 \<noteq> Some Agent"
    "four_through (m_board winner_example) Agent 5 3"
    by (code_simp, code_simp, code_simp, code_simp)
  then show ?thesis using winner_exact [of winner_example 5 3 Agent] by simp
qed

text \<open>C12: In every position of a game on a board of 42 to 255 cells the stones obey gravity, \<^verbatim>\<open>m_no_moves\<close> counts them,
  the incrementally kept \<^verbatim>\<open>m_winner\<close> is the outcome of the whole board (a player with four in a line anywhere, else
  vacant if the board is full, else invalid) and the incrementally kept hash is the hash of the board from scratch.\<close>

theorem reachable_positions:
  assumes "cf_dims R C" "cf_reach R C s"
  shows "gravity (m_board s) \<and> unat (m_no_moves s) = pieces (m_board s) \<and> m_winner s = outcome (m_board s)
    \<and> m_zobrist_hash s = initial_hash XOR board_hash (m_board s)"
  using cf_reach_inv [OF assms] by (auto simp: cf_inv_def cf_wf_def board_inv_def hash_ok_def)

theorem reachable_positions_witness:
  "gravity (m_board (connect_four 6 7 Human)) \<and> cf_reach 6 7 (connect_four 6 7 Human)"
  using reachable_positions [of 6 7 "connect_four 6 7 Human"]
  by (simp add: cf_dims_def cf_reach.start)

text \<open>C23: Transpositions share their key: two positions of games on the same board extents with equal boards and the
  same player to move have the same, defined, Zobrist key, whatever the order of the moves was.\<close>

theorem transposition:
  assumes "cf_dims R C" "cf_reach R C s" "cf_reach R C t"
    and "m_board s = m_board t" "playerToMove s = playerToMove t"
  shows "zobrist s = zobrist t \<and> zobrist s \<noteq> None"
proof -
  have "is_mover (m_player_just_moved s)" "is_mover (m_player_just_moved t)" "m_zobrist_hash s = m_zobrist_hash t"
    using cf_reach_inv [OF assms(1,2)] cf_reach_inv [OF assms(1,3)] assms(4)
    by (auto simp: cf_inv_def cf_wf_def hash_ok_def)
  moreover from this assms(5) have "m_player_just_moved s = m_player_just_moved t"
    by (auto simp: playerToMove_def is_mover_def)
  ultimately show ?thesis
    by (auto simp: zobrist_def is_mover_def m_zobrist_player_keys_def m_zobrist_player_key_values_def aref_def)
qed

theorem transposition_witness:
  "\<exists>s t. cf_play 7 [0, 1, 2] (connect_four 6 7 Agent) = Some s \<and> cf_play 7 [2, 1, 0] (connect_four 6 7 Agent) = Some t
    \<and> lastMove s \<noteq> lastMove t \<and> zobrist s = zobrist t"
proof -
  let ?s = "the (cf_play 7 [0, 1, 2] (connect_four 6 7 Agent))"
  let ?t = "the (cf_play 7 [2, 1, 0] (connect_four 6 7 Agent))"
  have ev: "cf_play 7 [0, 1, 2] (connect_four 6 7 Agent) = Some ?s" "cf_play 7 [2, 1, 0] (connect_four 6 7 Agent) = Some ?t"
    "m_board ?s = m_board ?t" "playerToMove ?s = playerToMove ?t" "lastMove ?s \<noteq> lastMove ?t"
    by (code_simp, code_simp, code_simp, code_simp, code_simp)
  have st: "cf_reach 6 7 (connect_four 6 7 Agent)" by (rule cf_reach.start) simp
  have "zobrist ?s = zobrist ?t"
    using transposition [OF _ cf_play_reach [OF st ev(1)] cf_play_reach [OF st ev(2)] ev(3,4)] by (simp add: cf_dims_def)
  with ev show ?thesis by blast
qed

text \<open>C24: The move generator offers moves exactly while the game is undecided, and then exactly the columns with room,
  in ascending order; each offered move can be made, keeps the invariant, gives the turn to the other player, adds
  one stone and records the move; a column without room cannot be played.\<close>

theorem moves_legal:
  assumes "cf_inv s" "NumCols s \<le> capacity m"
  shows "\<exists>m'. moves s m = Some (m_winner s = Invalid, m')
    \<and> contents m' = (if m_winner s = Invalid then open_cols s else [])
    \<and> (\<forall>c\<in>set (contents m'). \<exists>s'. move_hash_winner c s = Some s' \<and> cf_inv s' \<and> cf_next c s s')
    \<and> (\<forall>c. 0 \<le> c \<and> c < NumCols s \<and> c \<notin> set (open_cols s) \<longrightarrow> move c s = None)"
proof -
  have und: "(\<not> cf_full s \<and> m_winner s = Invalid) = (m_winner s = Invalid)"
    using outcome_full [OF assms(1)] by blast
  from moves_ok [OF cf_inv_wf [OF assms(1)] assms(2)] obtain m' where
    m': "moves s m = Some (m_winner s = Invalid, m')" "contents m' = (if m_winner s = Invalid then open_cols s else [])"
    unfolding und by blast
  have "\<exists>s'. move_hash_winner c s = Some s' \<and> cf_inv s' \<and> cf_next c s s'" if "c \<in> set (contents m')" for c
    using move_hash_winner_step [OF assms(1), of c] that m'(2) by (auto simp: open_cols_iff split: if_splits)
  moreover have "move c s = None" if "0 \<le> c" "c < NumCols s" "c \<notin> set (open_cols s)" for c
    using move_full_column [OF cf_inv_wf [OF assms(1)] that(1,2)] that by (auto simp: open_cols_iff)
  ultimately show ?thesis using m' by blast
qed

theorem moves_legal_witness:
  "\<exists>m'. moves (connect_four 6 7 Human) (moves_new 7 move_invalid) = Some (True, m')
    \<and> contents m' = [0, 1, 2, 3, 4, 5, 6]"
proof -
  have "open_cols (connect_four 6 7 Human) = [0, 1, 2, 3, 4, 5, 6]" by code_simp
  moreover have "NumCols (connect_four 6 7 Human) \<le> capacity (moves_new 7 move_invalid)"
    by (simp add: connect_four_def matrix_new_def capacity_new)
  moreover have "m_winner (connect_four 6 7 Human) = Invalid" by (simp add: connect_four_def)
  ultimately show ?thesis
    using moves_legal [OF connect_four_inv(1) [of 6 7 Human], of "moves_new 7 move_invalid"] by (simp add: cf_dims_def) blast
qed

text \<open>C25: A random play-out from any position ends, on every run of the generator and for every distribution that stays
  in its range, with a decided game whose recorded winner is the outcome of the final board.\<close>

theorem simulate_ends:
  assumes "uniform_dist unif" "cf_inv s"
  shows "\<exists>s' g'. simulate unif s g = Some (s', g') \<and> m_winner s' \<noteq> Invalid \<and> m_winner s' = outcome (m_board s')"
  using simulate_ok [OF assms, of g] by (auto simp: cf_inv_def)

theorem simulate_ends_witness:
  "\<exists>s' g'. simulate uniform_mod (connect_four 6 7 Human) (splitmix64 42 7) = Some (s', g')
    \<and> m_winner s' \<noteq> Invalid \<and> m_winner s' = outcome (m_board s')"
  by (rule simulate_ends [OF um.uniform_dist_axioms connect_four_inv(1)]) (simp_all add: cf_dims_def)

text \<open>In a decided game the result is zero-sum: the results of the two players add up to 0, and both are 0 exactly in
  a draw.\<close>

theorem result_zero_sum:
  assumes "cf_inv s" "ended s = Some w" "is_mover p"
  shows "result p s + result (opponent p) s = 0 \<and> (result p s = 0 \<longleftrightarrow> w = Vacant)"
  using assms by (auto simp: ended_def cf_inv_def outcome_def result_def is_mover_def split: if_splits)

theorem result_zero_sum_witness:
  "\<exists>s. cf_play 7 [0, 1, 0, 1, 0, 1, 0] (connect_four 6 7 Agent) = Some s \<and> ended s = Some Human
    \<and> result Human s = 1 \<and> result Human s + result (opponent Human) s = 0"
proof -
  let ?s = "the (cf_play 7 [0, 1, 0, 1, 0, 1, 0] (connect_four 6 7 Agent))"
  have ev: "cf_play 7 [0, 1, 0, 1, 0, 1, 0] (connect_four 6 7 Agent) = Some ?s" "ended ?s = Some Human"
    "result Human ?s = 1" by (code_simp, code_simp, code_simp)
  have st: "cf_reach 6 7 (connect_four 6 7 Agent)" by (rule cf_reach.start) simp
  have "cf_inv ?s" using cf_reach_inv [OF _ cf_play_reach [OF st ev(1)]] by (simp add: cf_dims_def)
  from result_zero_sum [OF this ev(2), of Human] ev show ?thesis by auto
qed

end
