(* ===== verification/Search_Tree.thy ===== *)
theory Search_Tree
  imports Rooted_Digraph_Slice
begin

text \<open>
  The interface of the search tree and of the path that mcts.hpp works on. Both come from the library MCTSSearchTree, which
  flat_search_tree.hpp includes and which is not part of the repository, so they are arguments of the model, as records of operations,
  and the locales state what the search relies on. The tree is specified by the abstract graph it represents: nodes and arcs are numbered in order of
  creation, adding appends, and an out-iterator visits the arcs of a node in the order in which they were added. Everything that is shown of the search holds for
  every tree and every path that meet these contracts. The last section gives one instance of each, to show that the contracts can be met.
\<close>

section \<open>Operations\<close>

text \<open>An access with an invalid index fails. \<open>st_out n t\<close> lists the arcs an out-iterator of node \<open>n\<close> visits.\<close>

record ('t, 'a, 'n) tree_ops =
  st_new :: 't
  st_root_node :: "'t \<Rightarrow> index_t"
  st_root_arc :: "'t \<Rightarrow> index_t"
  st_set_root_node :: "index_t \<Rightarrow> 't \<Rightarrow> 't"
  st_node :: "index_t \<Rightarrow> 't \<Rightarrow> 'n option"
  st_set_node :: "index_t \<Rightarrow> 'n \<Rightarrow> 't \<Rightarrow> 't option"
  st_arc :: "index_t \<Rightarrow> 't \<Rightarrow> 'a option"
  st_target :: "index_t \<Rightarrow> 't \<Rightarrow> index_t option"
  st_out :: "index_t \<Rightarrow> 't \<Rightarrow> index_t list option"
  st_addNode :: "'n \<Rightarrow> 't \<Rightarrow> (index_t \<times> 't) option"
  st_addArc :: "index_t \<Rightarrow> index_t \<Rightarrow> 'a \<Rightarrow> 't \<Rightarrow> (index_t \<times> 't) option"
  st_link :: "index_t \<Rightarrow> index_t \<Rightarrow> 't \<Rightarrow> link option"
  st_isInternal :: "index_t \<Rightarrow> 't \<Rightarrow> bool option"
  st_inArcNum :: "index_t \<Rightarrow> 't \<Rightarrow> int option"
  st_nodeNum :: "'t \<Rightarrow> int"
  st_nodesSize :: "'t \<Rightarrow> int"
  st_invalid_arc :: index_t
  st_invalid_node :: index_t

record 'p path_ops =
  pt_new :: 'p
  pt_reset :: "index_t \<Rightarrow> index_t \<Rightarrow> 'p \<Rightarrow> 'p"
  pt_push :: "link \<Rightarrow> 'p \<Rightarrow> 'p"
  pt_back :: "'p \<Rightarrow> link option"
  pt_set_back :: "link \<Rightarrow> 'p \<Rightarrow> 'p option"
  pt_resize :: "nat \<Rightarrow> 'p \<Rightarrow> 'p option"
  pt_links :: "'p \<Rightarrow> link list"

section \<open>Contracts\<close>

definition small :: "('a, 'n) graph \<Rightarrow> bool" where
  "small v \<longleftrightarrow> length (g_arcs v) < 2 ^ 31 \<and> length (g_nodes v) < 2 ^ 31"

definition out_ids :: "('a, 'n) graph \<Rightarrow> index_t \<Rightarrow> index_t list" where
  "out_ids v n = map int (filter (\<lambda>a. fst (g_arcs v ! a) = n) [0..<length (g_arcs v)])"

locale search_tree =
  fixes T :: "('t, 'a, 'n) tree_ops" and tinv :: "'t \<Rightarrow> bool" and tview :: "'t \<Rightarrow> ('a, 'n) graph"
  assumes new_inv: "tinv (st_new T)"
    and new_view: "order_of (tview (st_new T)) = 1" "n \<ge> 0 \<Longrightarrow> outl (tview (st_new T)) n = []"
      "length (g_arcs (tview (st_new T))) \<le> 1"
    and new_root: "st_root_node T (st_new T) = 0"
    and view_ok: "tinv t \<Longrightarrow> graph_ok (tview t)"
    and root_range: "tinv t \<Longrightarrow> 0 \<le> st_root_node T t \<and> st_root_node T t < order_of (tview t)"
    and set_root: "tinv t \<Longrightarrow> 0 \<le> n \<Longrightarrow> n < order_of (tview t) \<Longrightarrow> tinv (st_set_root_node T n t)
      \<and> tview (st_set_root_node T n t) = tview t \<and> st_root_node T (st_set_root_node T n t) = n"
    and node: "tinv t \<Longrightarrow> 0 \<le> n \<Longrightarrow> n < order_of (tview t) \<Longrightarrow> st_node T n t = Some (g_nodes (tview t) ! nat n)"
    and set_node: "tinv t \<Longrightarrow> 0 \<le> n \<Longrightarrow> n < order_of (tview t) \<Longrightarrow> \<exists>t'. st_set_node T n d t = Some t' \<and> tinv t'
      \<and> tview t' = (tview t)\<lparr>g_nodes := (g_nodes (tview t))[nat n := d]\<rparr> \<and> st_root_node T t' = st_root_node T t"
    and arc: "tinv t \<Longrightarrow> 0 \<le> a \<Longrightarrow> a < int (length (g_arcs (tview t))) \<Longrightarrow> st_arc T a t = Some (snd (snd (g_arcs (tview t) ! nat a)))"
    and target: "tinv t \<Longrightarrow> 0 \<le> a \<Longrightarrow> a < int (length (g_arcs (tview t))) \<Longrightarrow> st_target T a t = Some (fst (snd (g_arcs (tview t) ! nat a)))"
    and out: "tinv t \<Longrightarrow> 0 \<le> n \<Longrightarrow> n < order_of (tview t) \<Longrightarrow> st_out T n t = Some (out_ids (tview t) n)"
    and addNode: "tinv t \<Longrightarrow> small (tview t) \<Longrightarrow> \<exists>t'. st_addNode T d t = Some (order_of (tview t), t') \<and> tinv t'
      \<and> tview t' = add_node d (tview t) \<and> st_root_node T t' = st_root_node T t"
    and addArc: "tinv t \<Longrightarrow> small (tview t) \<Longrightarrow> 0 \<le> s \<Longrightarrow> s < order_of (tview t) \<Longrightarrow> 0 \<le> c \<Longrightarrow> c < order_of (tview t) \<Longrightarrow>
      \<exists>t'. st_addArc T s c e t = Some (int (length (g_arcs (tview t))), t') \<and> tinv t'
      \<and> tview t' = add_arc s c e (tview t) \<and> st_root_node T t' = st_root_node T t"
    and link: "tinv t \<Longrightarrow> 0 \<le> s \<Longrightarrow> s < order_of (tview t) \<Longrightarrow> \<exists>a. st_link T s c t = Some (a, c)"
    and isInternal: "tinv t \<Longrightarrow> 0 \<le> n \<Longrightarrow> n < order_of (tview t) \<Longrightarrow> st_isInternal T n t = Some (outl (tview t) n \<noteq> [])"
    and inArcNum: "tinv t \<Longrightarrow> 0 \<le> n \<Longrightarrow> n < order_of (tview t) \<Longrightarrow>
      st_inArcNum T n t = Some (int (length (filter (\<lambda>e. fst (snd e) = n) (g_arcs (tview t)))))"
    and nodeNum: "tinv t \<Longrightarrow> st_nodeNum T t = order_of (tview t)" "tinv t \<Longrightarrow> st_nodesSize T t = order_of (tview t)"
    and invalid: "st_invalid_node T < 0" "st_invalid_arc T < 0"

locale search_path =
  fixes P :: "'p path_ops"
  assumes reset: "pt_links P (pt_reset P a n p) = [(a, n)]"
    and push: "pt_links P (pt_push P l p) = pt_links P p @ [l]"
    and back_last: "pt_links P p \<noteq> [] \<Longrightarrow> pt_back P p = Some (last (pt_links P p))"
    and set_back: "pt_links P p \<noteq> [] \<Longrightarrow> \<exists>p'. pt_set_back P l p = Some p' \<and> pt_links P p' = butlast (pt_links P p) @ [l]"
    and resize: "k \<le> length (pt_links P p) \<Longrightarrow> \<exists>p'. pt_resize P k p = Some p' \<and> pt_links P p' = take k (pt_links P p)"

lemma outl_out_ids: "outl v n = map (\<lambda>a. snd (g_arcs v ! nat a)) (out_ids v n)"
proof -
  have "filter (\<lambda>e. fst e = n) xs = map (\<lambda>a. xs ! a) (filter (\<lambda>a. fst (xs ! a) = n) [0..<length xs])" for xs :: "(index_t \<times> index_t \<times> 'a) list"
  proof -
    have "xs = map (\<lambda>a. xs ! a) [0..<length xs]" by (simp add: map_nth)
    then have "filter (\<lambda>e. fst e = n) xs = filter (\<lambda>e. fst e = n) (map (\<lambda>a. xs ! a) [0..<length xs])" by simp
    then show ?thesis by (simp add: filter_map o_def)
  qed
  then show ?thesis by (simp add: outl_def out_ids_def)
qed

lemma out_ids_range: "a \<in> set (out_ids v n) \<Longrightarrow> 0 \<le> a \<and> a < int (length (g_arcs v)) \<and> fst (g_arcs v ! nat a) = n"
  by (auto simp: out_ids_def)

section \<open>An instance\<close>

text \<open>The rooted directed graph of version 1.2 is the predecessor of the library, and its data structure serves as an instance of the contract. It is not the tree that
  the program uses, and it has no operation that creates a node without an arc; \<open>digraph_addNode\<close>, which appends a node with empty lists, and \<open>addArc_chk\<close>, which can give
  such a node its first arc, are made for the instance and model no code. All other operations are those of \<open>Rooted_Digraph\<close>.\<close>

definition digraph_addNode :: "'n \<Rightarrow> ('a, 'n) tree \<Rightarrow> (index_t \<times> ('a, 'n) tree) option" where
  "digraph_addNode d g = (let (n, nodes) = arena_emplace_back (m_nodes g) (NodeType d) in Some (n, g\<lparr>m_nodes := nodes\<rparr>))"

partial_function (option) digraph_out :: "('a, 'n) tree \<Rightarrow> index_t \<Rightarrow> index_t list option" where
  "digraph_out g a =
    (if a = invalid_arc then Some []
     else do { a' \<leftarrow> OutIt_next g a; as \<leftarrow> digraph_out g a'; Some (a # as) })"

declare digraph_out.simps [code]

definition digraph_ops :: "'a \<Rightarrow> 'n \<Rightarrow> (('a, 'n) tree, 'a, 'n) tree_ops" where
  "digraph_ops da dn =
    \<lparr>st_new = tree_new da dn, st_root_node = root_node, st_root_arc = root_arc,
     st_set_root_node = (\<lambda>n g. g\<lparr>root_node := n\<rparr>), st_node = node_data, st_set_node = set_node_data,
     st_arc = arc_data, st_target = arc_target, st_out = (\<lambda>n g. do { a \<leftarrow> OutIt g n; digraph_out g a }),
     st_addNode = digraph_addNode, st_addArc = (\<lambda>s t d g. map_option (\<lambda>(l, g). (fst l, g)) (addArc_chk s t d g)),
     st_link = link_nodes, st_isInternal = isInternal, st_inArcNum = inArcNum, st_nodeNum = nodeNum,
     st_nodesSize = nodeNum,
     st_invalid_arc = invalid_arc, st_invalid_node = invalid_node\<rparr>"

definition digraph_path_ops :: "path path_ops" where
  "digraph_path_ops =
    \<lparr>pt_new = [], pt_reset = path_reset, pt_push = path_push, pt_back = path_back, pt_set_back = path_set_back,
     pt_resize = path_resize, pt_links = (\<lambda>p. p)\<rparr>"

interpretation dp: search_path digraph_path_ops
proof
  fix p :: path and l and k
  show "pt_links digraph_path_ops p \<noteq> [] \<Longrightarrow> pt_back digraph_path_ops p = Some (last (pt_links digraph_path_ops p))"
    by (simp add: digraph_path_ops_def path_back_def aref_def last_conv_nth nat_diff_distrib)
      (metis One_nat_def length_greater_0_conv nat_int of_nat_1 of_nat_diff Suc_le_eq)
  show "pt_links digraph_path_ops p \<noteq> [] \<Longrightarrow> \<exists>p'. pt_set_back digraph_path_ops l p = Some p'
      \<and> pt_links digraph_path_ops p' = butlast (pt_links digraph_path_ops p) @ [l]"
  proof (cases p rule: rev_cases)
    case (snoc ys y)
    then show "\<exists>p'. pt_set_back digraph_path_ops l p = Some p' \<and> pt_links digraph_path_ops p' = butlast (pt_links digraph_path_ops p) @ [l]"
      by (simp add: digraph_path_ops_def path_set_back_def)
  qed (simp add: digraph_path_ops_def)
qed (simp_all add: digraph_path_ops_def path_reset_def path_push_def path_resize_def)

definition digraph_inv :: "('a, 'n) tree \<Rightarrow> bool" where
  "digraph_inv g \<longleftrightarrow> tree_wf g \<and> target (m_arcs g ! 0) = 0"


lemma digraph_addNode_ok:
  assumes "tree_wf g" "length (m_nodes g) < 2 ^ 31"
  shows "\<exists>g'. digraph_addNode d g = Some (int (length (m_nodes g)), g') \<and> tree_wf g' \<and> view g' = add_node d (view g)
    \<and> root_node g' = root_node g \<and> m_arcs g' = m_arcs g"
proof -
  let ?N = "length (m_nodes g)" and ?k = "length (m_arcs g)" and ?g = "g\<lparr>m_nodes := m_nodes g @ [NodeType d]\<rparr>"
  have ok: "out_ok g ?k" "in_ok g ?k" "arcs_ok g" "0 < ?k" using assms(1) by (simp_all add: tree_wf_def)
  have o: "outs ?g ?k n = outs g ?k n" "ins ?g ?k n = ins g ?k n" for n by (simp_all add: outs_def ins_def)
  have N0: "0 < ?N" using assms(1) by (auto simp: tree_wf_def node_in_def nodeNum_def arena_size_def)
  have "source (m_arcs g ! a) \<noteq> int ?N" "target (m_arcs g ! a) \<noteq> int ?N" if "a < ?k" for a
    using arcs_ok_less [OF ok(3) that] by simp_all
  then have none: "outs g ?k (int ?N) = []" "ins g ?k (int ?N) = []"
    using N0 by (auto simp: outs_def ins_def filter_empty_conv)
  have "out_ok ?g ?k" "in_ok ?g ?k"
    using ok(1,2) none unfolding out_ok_def in_ok_def o
    by (auto simp: nth_append less_Suc_eq list_ok_def NodeType_def)
  moreover have "arcs_ok ?g" "node_in ?g (root_node g)"
    using ok(3) assms(1) by (auto simp: arcs_ok_def node_in_def nodeNum_def arena_size_def tree_wf_def)
  ultimately have "tree_wf ?g" using assms(1) by (simp add: tree_wf_def)
  moreover have "to_int32 (int ?N) = int ?N" using assms(2) by (intro to_int32_id) auto
  ultimately show ?thesis
    by (simp add: digraph_addNode_def arena_emplace_back_def view_def add_node_def NodeType_def)
qed

lemma digraph_out_chain:
  assumes "chain (\<lambda>a. next_out (m_arcs g ! a)) a xs" "\<And>x. x \<in> set xs \<Longrightarrow> x < length (m_arcs g)"
  shows "digraph_out g a = Some (map int xs)"
  using assms by (induction xs arbitrary: a) (subst digraph_out.simps, auto simp: OutIt_next_def)+

lemma digraph_ins_view:
  assumes "digraph_inv g"
  shows "length (ins g (length (m_arcs g)) n) = length (filter (\<lambda>e. fst (snd e) = n) (g_arcs (view g)))"
proof -
  have "m_arcs g \<noteq> []" using assms by (simp add: digraph_inv_def tree_wf_def)
  have "ins g (length (m_arcs g)) n = filter (\<lambda>a. target (m_arcs g ! a) = n) [0..<length (m_arcs g)]"
    unfolding ins_def using assms by (intro filter_cong) (auto simp: digraph_inv_def)
  moreover have "filter (\<lambda>x. target x = n) (m_arcs g) = map (\<lambda>a. m_arcs g ! a) (filter (\<lambda>a. target (m_arcs g ! a) = n) [0..<length (m_arcs g)])"
    using filter_map [of "\<lambda>x. target x = n" "\<lambda>a. m_arcs g ! a" "[0..<length (m_arcs g)]"] by (simp add: map_nth o_def)
  ultimately show ?thesis by (simp add: view_def filter_map o_def)
qed

lemma digraph_small: "small (view g) \<longleftrightarrow> length (m_arcs g) < 2 ^ 31 \<and> length (m_nodes g) < 2 ^ 31"
  by (simp add: small_def view_sel)

lemma view_arc0: "m_arcs g \<noteq> [] \<Longrightarrow> target (m_arcs g ! 0) = fst (snd (g_arcs (view g) ! 0))"
  using view_nth(2) [of 0 g] by simp

lemma digraph_range:
  "0 \<le> n \<and> n < order_of (view g) \<longleftrightarrow> node_in g n"
  by (simp add: view_sel node_in_def nodeNum_def arena_size_def)

interpretation dg: search_tree "digraph_ops da dn" digraph_inv view for da :: 'a and dn :: 'n
proof
  let ?T = "digraph_ops da dn"
  note sel = tree_ops.simps digraph_ops_def
  fix t :: "('a, 'n) tree" and n a s c :: index_t and d and e
  show "digraph_inv (st_new ?T)"
    using tree_new_ok(1) [of da dn] by (simp add: sel digraph_inv_def) (simp add: tree_new_def arena_emplace_back_def ArcType_def)
  show "order_of (view (st_new ?T)) = 1" "length (g_arcs (view (st_new ?T))) \<le> 1" "st_root_node ?T (st_new ?T) = 0"
    by (simp_all add: sel tree_new_ok(3) order_of_def tree_new_def arena_emplace_back_def view_def)
  show "outl (view (st_new ?T)) n = []" if "n \<ge> 0"
    using that by (simp add: sel tree_new_ok(3) outl_def invalid_node_def)
  show "st_invalid_node ?T < 0" "st_invalid_arc ?T < 0" by (simp_all add: sel invalid_node_def invalid_arc_def)
  assume t: "digraph_inv t"
  then have wf: "tree_wf t" and a0: "target (m_arcs t ! 0) = 0" and ne: "m_arcs t \<noteq> []"
    by (simp_all add: digraph_inv_def tree_wf_def)
  show "graph_ok (view t)" by (rule graph_ok_view [OF wf])
  show "0 \<le> st_root_node ?T t \<and> st_root_node ?T t < order_of (view t)"
    using wf by (simp add: sel digraph_range tree_wf_def)
  show "st_nodeNum ?T t = order_of (view t)" "st_nodesSize ?T t = order_of (view t)" by (simp_all add: sel view_sel nodeNum_def arena_size_def)
  show "\<exists>t'. st_addNode ?T d t = Some (order_of (view t), t') \<and> digraph_inv t' \<and> view t' = add_node d (view t)
      \<and> st_root_node ?T t' = st_root_node ?T t" if "small (view t)"
    using digraph_addNode_ok [OF wf, of d] that a0 by (auto simp: sel digraph_small view_sel digraph_inv_def)
  show "st_arc ?T a t = Some (snd (snd (g_arcs (view t) ! nat a)))" "st_target ?T a t = Some (fst (snd (g_arcs (view t) ! nat a)))"
    if "0 \<le> a" "a < int (length (g_arcs (view t)))"
    using that by (auto simp: sel arc_data_def arc_target_def aref_def view_sel view_nth nat_less_iff)
  show "\<exists>t'. st_addArc ?T s c e t = Some (int (length (g_arcs (view t))), t') \<and> digraph_inv t' \<and> view t' = add_arc s c e (view t)
      \<and> st_root_node ?T t' = st_root_node ?T t"
    if "small (view t)" "0 \<le> s" "s < order_of (view t)" "0 \<le> c" "c < order_of (view t)"
  proof -
    have "node_in t s" "node_in t c" "length (m_arcs t) < 2 ^ 31" using that by (simp_all add: digraph_range [symmetric] digraph_small)
    from addArc_chk_ok [OF wf this, of e] obtain g' where g': "addArc_chk s c e t = Some ((int (length (m_arcs t)), c), g')" "tree_wf g'"
      "view g' = add_arc s c e (view t)" "root_node g' = root_node t" by blast
    then have "target (m_arcs g' ! 0) = 0"
      using view_arc0 [of g'] a0 view_arc0 [OF ne] ne view_sel(2) [of t] by (auto simp: tree_wf_def nth_append)
    with g' show ?thesis by (simp add: sel digraph_inv_def view_sel)
  qed
  assume "0 \<le> n" "n < order_of (view t)"
  then have nd: "node_in t n" by (simp add: digraph_range [symmetric])
  then obtain m where m: "n = int m" "m < length (m_nodes t)" by (rule node_in_obtain)
  show "digraph_inv (st_set_root_node ?T n t) \<and> view (st_set_root_node ?T n t) = view t \<and> st_root_node ?T (st_set_root_node ?T n t) = n"
  proof -
    have "out_ok (t\<lparr>root_node := n\<rparr>) k = out_ok t k" "in_ok (t\<lparr>root_node := n\<rparr>) k = in_ok t k" for k
      by (simp_all add: out_ok_def in_ok_def outs_def ins_def)
    moreover have "node_in (t\<lparr>root_node := n\<rparr>) = node_in t" by (simp add: fun_eq_iff node_in_def nodeNum_def)
    ultimately show ?thesis using wf nd a0 by (simp add: sel digraph_inv_def tree_wf_def arcs_ok_def view_def)
  qed
  show "st_node ?T n t = Some (g_nodes (view t) ! nat n)" using m by (simp add: sel node_data_def view_nth)
  show "\<exists>t'. st_set_node ?T n d t = Some t' \<and> digraph_inv t' \<and> view t' = (view t)\<lparr>g_nodes := (g_nodes (view t))[nat n := d]\<rparr>
      \<and> st_root_node ?T t' = st_root_node ?T t"
  proof -
    from set_node_data_ok [OF wf m(2), of d] obtain g' where g': "set_node_data (int m) d t = Some g'" "tree_wf g'"
      "view g' = (view t)\<lparr>g_nodes := (g_nodes (view t))[m := d]\<rparr>" "root_node g' = root_node t" by blast
    then have "target (m_arcs g' ! 0) = 0" using view_arc0 [of g'] a0 view_arc0 [OF ne] by (simp add: tree_wf_def)
    with g' m show ?thesis by (simp add: sel digraph_inv_def)
  qed
  note ch = tree_wf_out [OF wf m(2)]
  have ids: "out_ids (view t) n = map int (outs t (length (m_arcs t)) n)"
    unfolding out_ids_def outs_def view_sel by (intro arg_cong [of _ _ "map int"] filter_cong) (auto simp: view_nth)
  show "st_out ?T n t = Some (out_ids (view t) n)"
    using digraph_out_chain [OF ch(1)] m unfolding ids by (simp add: sel OutIt_def outs_less)
  show "st_isInternal ?T n t = Some (outl (view t) n \<noteq> [])"
    using chain_Nil_iff [OF ch(1)] m by (simp add: sel isInternal_def isLeaf_def outl_view)
  show "st_inArcNum ?T n t = Some (int (length (filter (\<lambda>e. fst (snd e) = n) (g_arcs (view t)))))"
    using inArcNum_loop_chain [OF ch(2)] m digraph_ins_view [OF t, of n] by (simp add: sel inArcNum_def InIt_def outs_less)
  show "\<exists>b. st_link ?T n c t = Some (b, c)"
    using arc_loop_chain [OF ch(1), of c] m by (simp add: sel link_nodes_def OutIt_def outs_less)
qed

end
