(* ===== verification/Mcts.thy ===== *)
theory Mcts
  imports Moves Search_Tree "HOL-Library.Log_Nat"
begin

text \<open>
  The Monte Carlo tree search of mcts.hpp. The class templates are parameterised by the game and work on the search tree of
  the library MCTSSearchTree; here both are records of operations in the environment \<open>E\<close>, next to the floating-point
  operations of the selection formula and the distribution that draws from the global generator. The generator is
  threaded through the operations that use it. A node owns its array of untried moves, which is the pointer \<^verbatim>\<open>m_moves\<close>
  of the code: \<^term>\<open>None\<close> is the null pointer.
\<close>

section \<open>Containers\<close>

definition stack_new :: "'x \<Rightarrow> 'x list" where
  "stack_new v = [v]"

definition stack_pop :: "'x list \<Rightarrow> ('x \<times> 'x list) option" where
  "stack_pop d = (if d = [] then None else Some (last d, butlast d))"

definition stack_push :: "'x \<Rightarrow> 'x list \<Rightarrow> 'x list" where
  "stack_push v d = d @ [v]"

definition stack_not_empty :: "'x list \<Rightarrow> bool" where
  "stack_not_empty d \<longleftrightarrow> length d \<noteq> 0"

definition queue_new :: "'x \<Rightarrow> 'x list" where
  "queue_new v = [v]"

definition queue_pop :: "'x list \<Rightarrow> ('x \<times> 'x list) option" where
  "queue_pop d = (if d = [] then None else Some (hd d, tl d))"

definition queue_push :: "'x \<Rightarrow> 'x list \<Rightarrow> 'x list" where
  "queue_push v d = d @ [v]"

definition queue_not_empty :: "'x list \<Rightarrow> bool" where
  "queue_not_empty d \<longleftrightarrow> length d \<noteq> 0"

section \<open>Scores\<close>

text \<open>The scores are sums of the results 0, 1 and -1 in \<^verbatim>\<open>float\<close>: integers, rounded to 24 significant bits, ties to even.\<close>

definition float_round :: "int \<Rightarrow> int" where
  "float_round x =
    (let a = nat \<bar>x\<bar>; e = floorlog 2 a - 24; q = a div 2 ^ e; r = a mod 2 ^ e;
         q' = (if 2 * r > 2 ^ e \<or> (2 * r = 2 ^ e \<and> odd q) then q + 1 else q)
     in sgn x * int (q' * 2 ^ e))"

definition float_add :: "int \<Rightarrow> int \<Rightarrow> int" where
  "float_add x y = float_round (x + y)"

section \<open>Environment\<close>

record ('s, 'm) game_ops =
  g_zobrist :: "'s \<Rightarrow> u64 option"
  g_moves :: "'s \<Rightarrow> 'm moves \<Rightarrow> (bool \<times> 'm moves) option"
  g_move_hash :: "'m \<Rightarrow> 's \<Rightarrow> 's option"
  g_move_hash_winner :: "'m \<Rightarrow> 's \<Rightarrow> 's option"
  g_simulate :: "'s \<Rightarrow> splitmix \<Rightarrow> ('s \<times> splitmix) option"
  g_result :: "player \<Rightarrow> 's \<Rightarrow> int"
  g_playerJustMoved :: "'s \<Rightarrow> player"
  g_lastMove :: "'s \<Rightarrow> 'm"
  g_new_moves :: "'m moves"
  g_none :: 'm
  g_invalid :: 'm
  g_max_no_moves :: index_t

record 'f float_ops =
  f_of_int :: "int \<Rightarrow> 'f"
  f_add :: "'f \<Rightarrow> 'f \<Rightarrow> 'f"
  f_mul :: "'f \<Rightarrow> 'f \<Rightarrow> 'f"
  f_div :: "'f \<Rightarrow> 'f \<Rightarrow> 'f"
  f_sqrt :: "'f \<Rightarrow> 'f"
  f_log :: "'f \<Rightarrow> 'f"
  f_gt :: "'f \<Rightarrow> 'f \<Rightarrow> bool"
  f_eq :: "'f \<Rightarrow> 'f \<Rightarrow> bool"

record 'm arc_data =
  ad_move :: 'm

record 'm node_data =
  nd_moves :: "'m moves option"
  nd_score :: int
  nd_visits :: int
  nd_player_just_moved :: player

record ('t, 'p, 's, 'm, 'f) mcts_env =
  e_tree :: "('t, 'm arc_data, 'm node_data) tree_ops"
  e_path :: "'p path_ops"
  e_game :: "('s, 'm) game_ops"
  e_float :: "'f float_ops"
  e_unif :: uniform_int

section \<open>Data of arcs and nodes\<close>

definition ArcData :: "('s, 'm) game_ops \<Rightarrow> 'm arc_data" where
  "ArcData G = \<lparr>ad_move = g_invalid G\<rparr>"

definition ArcData_state :: "('s, 'm) game_ops \<Rightarrow> 's \<Rightarrow> 'm arc_data" where
  "ArcData_state G s = \<lparr>ad_move = g_lastMove G s\<rparr>"

definition NodeData :: "'m node_data" where
  "NodeData = \<lparr>nd_moves = None, nd_score = 0, nd_visits = 0, nd_player_just_moved = Invalid\<rparr>"

definition NodeData_state :: "('s, 'm) game_ops \<Rightarrow> 's \<Rightarrow> 'm node_data option" where
  "NodeData_state G s = do {
     (b, ms) \<leftarrow> g_moves G s (g_new_moves G);
     Some (NodeData\<lparr>nd_moves := (if b then Some ms else None), nd_player_just_moved := g_playerJustMoved G s\<rparr>) }"

definition getUntriedMove_data :: "uniform_int \<Rightarrow> 'm node_data \<Rightarrow> splitmix \<Rightarrow> ('m \<times> 'm node_data \<times> splitmix) option" where
  "getUntriedMove_data unif nd g = do {
     ms \<leftarrow> nd_moves nd;
     if 1 = m_size ms then do {
       mv \<leftarrow> front ms;
       Some (mv, nd\<lparr>nd_moves := None\<rparr>, g) }
     else do {
       (mv, ms, g) \<leftarrow> draw unif ms g;
       Some (mv, nd\<lparr>nd_moves := Some ms\<rparr>, g) } }"

definition NodeData_plus :: "'m node_data \<Rightarrow> 'm node_data \<Rightarrow> 'm node_data" where
  "NodeData_plus nd rhs =
    nd\<lparr>nd_score := float_add (nd_score nd) (nd_score rhs), nd_visits := to_int32 (nd_visits nd + nd_visits rhs)\<rparr>"

definition NodeData_copy :: "'m node_data \<Rightarrow> 'm node_data" where
  "NodeData_copy nd = \<lparr>nd_moves = nd_moves nd, nd_score = nd_score nd, nd_visits = nd_visits nd,
    nd_player_just_moved = nd_player_just_moved nd\<rparr>"

text \<open>The copy assignment leaves the moves of the target alone when the source has none; the move assignment swaps the
  moves, so that the source takes those of the target.\<close>

definition NodeData_assign_copy :: "'m node_data \<Rightarrow> 'm node_data \<Rightarrow> 'm node_data" where
  "NodeData_assign_copy nd rhs =
    nd\<lparr>nd_moves := (case nd_moves rhs of None \<Rightarrow> nd_moves nd | Some ms \<Rightarrow> Some ms), nd_score := nd_score rhs,
      nd_visits := nd_visits rhs, nd_player_just_moved := nd_player_just_moved rhs\<rparr>"

definition NodeData_assign_move :: "'m node_data \<Rightarrow> 'm node_data \<Rightarrow> 'm node_data \<times> 'm node_data" where
  "NodeData_assign_move nd rhs =
    (nd\<lparr>nd_moves := nd_moves rhs, nd_score := nd_score rhs, nd_visits := nd_visits rhs,
       nd_player_just_moved := nd_player_just_moved rhs\<rparr>,
     rhs\<lparr>nd_moves := nd_moves nd\<rparr>)"

text \<open>The archive of a node: a tag, the moves if the tag is 2, and the other members. Reading a node with the tag 1 leaves the moves of the target alone.\<close>

definition NodeData_save :: "'m node_data \<Rightarrow> 'm archive option" where
  "NodeData_save nd = do {
     ms \<leftarrow> (case nd_moves nd of
         Some ms \<Rightarrow> do { out \<leftarrow> moves_save ms; Some (Item_int8 2 # out) }
       | None \<Rightarrow> Some [Item_int8 1]);
     Some (ms @ [Item_float (nd_score nd), Item_int32 (nd_visits nd), Item_player (nd_player_just_moved nd)]) }"

definition NodeData_load :: "('s, 'm) game_ops \<Rightarrow> 'm archive \<Rightarrow> 'm node_data \<Rightarrow> ('m node_data \<times> 'm archive) option" where
  "NodeData_load G ar nd = do {
     (tag, ar) \<leftarrow> take_int8 ar;
     (nd, ar) \<leftarrow> (if 2 = tag then do {
         (ms, ar) \<leftarrow> moves_load ar (g_new_moves G);
         Some (nd\<lparr>nd_moves := Some ms\<rparr>, ar) }
       else Some (nd, ar));
     (score, ar) \<leftarrow> take_float ar;
     (visits, ar) \<leftarrow> take_int32 ar;
     (p, ar) \<leftarrow> take_player ar;
     Some (nd\<lparr>nd_score := score, nd_visits := visits, nd_player_just_moved := p\<rparr>, ar) }"

section \<open>The search\<close>

record ('t, 'p) mcts =
  m_tree :: 't
  m_transposition_table :: "(u64 \<times> index_t) list option"
  m_not_initialized :: bool
  m_path :: 'p
  m_path_size :: index_t

definition mcts_new :: "('t, 'p, 's, 'm, 'f) mcts_env \<Rightarrow> ('t, 'p) mcts" where
  "mcts_new E = \<lparr>m_tree = st_new (e_tree E), m_transposition_table = None, m_not_initialized = True,
    m_path = pt_new (e_path E), m_path_size = 0\<rparr>"

definition mcts_initialize :: "('t, 'p, 's, 'm, 'f) mcts_env \<Rightarrow> 's \<Rightarrow> ('t, 'p) mcts \<Rightarrow> ('t, 'p) mcts option" where
  "mcts_initialize E s m = do {
     let tt = (case m_transposition_table m of None \<Rightarrow> [] | Some tt \<Rightarrow> tt);
     let root = st_root_node (e_tree E) (m_tree m);
     rhs \<leftarrow> NodeData_state (e_game E) s;
     nd \<leftarrow> st_node (e_tree E) root (m_tree m);
     t \<leftarrow> st_set_node (e_tree E) root (fst (NodeData_assign_move nd rhs)) (m_tree m);
     z \<leftarrow> g_zobrist (e_game E) s;
     Some (m\<lparr>m_tree := t, m_transposition_table := Some (tt_emplace z root tt), m_not_initialized := False,
       m_path := pt_reset (e_path E) (st_invalid_arc (e_tree E)) root (m_path m), m_path_size := 1\<rparr>) }"

definition mcts_addArc ::
  "('t, 'p, 's, 'm, 'f) mcts_env \<Rightarrow> index_t \<Rightarrow> index_t \<Rightarrow> 's \<Rightarrow> ('t, 'p) mcts \<Rightarrow> (link \<times> ('t, 'p) mcts) option" where
  "mcts_addArc E parent child s m = do {
     (a, t) \<leftarrow> st_addArc (e_tree E) parent child (ArcData_state (e_game E) s) (m_tree m);
     Some ((a, child), m\<lparr>m_tree := t\<rparr>) }"

definition mcts_addNode ::
  "('t, 'p, 's, 'm, 'f) mcts_env \<Rightarrow> index_t \<Rightarrow> 's \<Rightarrow> ('t, 'p) mcts \<Rightarrow> (link \<times> ('t, 'p) mcts) option" where
  "mcts_addNode E parent s m = do {
     nd \<leftarrow> NodeData_state (e_game E) s;
     (n, t) \<leftarrow> st_addNode (e_tree E) nd (m_tree m);
     (l, m) \<leftarrow> mcts_addArc E parent n s (m\<lparr>m_tree := t\<rparr>);
     tt \<leftarrow> m_transposition_table m;
     z \<leftarrow> g_zobrist (e_game E) s;
     Some (l, m\<lparr>m_transposition_table := Some (tt_emplace z (snd l) tt)\<rparr>) }"

definition getMove :: "('t, 'p, 's, 'm, 'f) mcts_env \<Rightarrow> index_t \<Rightarrow> ('t, 'p) mcts \<Rightarrow> 'm option" where
  "getMove E a m = map_option ad_move (st_arc (e_tree E) a (m_tree m))"

definition getNode :: "('t, 'p, 's, 'm, 'f) mcts_env \<Rightarrow> u64 \<Rightarrow> ('t, 'p) mcts \<Rightarrow> index_t option" where
  "getNode E z m = do {
     tt \<leftarrow> m_transposition_table m;
     Some (case map_of tt z of None \<Rightarrow> st_invalid_node (e_tree E) | Some n \<Rightarrow> n) }"

definition hasChildren :: "('t, 'p, 's, 'm, 'f) mcts_env \<Rightarrow> index_t \<Rightarrow> ('t, 'p) mcts \<Rightarrow> bool option" where
  "hasChildren E n m = st_isInternal (e_tree E) n (m_tree m)"

definition hasNoUntriedMoves :: "('t, 'p, 's, 'm, 'f) mcts_env \<Rightarrow> index_t \<Rightarrow> ('t, 'p) mcts \<Rightarrow> bool option" where
  "hasNoUntriedMoves E n m = map_option (\<lambda>nd. nd_moves nd = None) (st_node (e_tree E) n (m_tree m))"

definition hasUntriedMoves :: "('t, 'p, 's, 'm, 'f) mcts_env \<Rightarrow> index_t \<Rightarrow> ('t, 'p) mcts \<Rightarrow> bool option" where
  "hasUntriedMoves E n m = map_option (\<lambda>nd. nd_moves nd \<noteq> None) (st_node (e_tree E) n (m_tree m))"

definition getUntriedMove ::
  "('t, 'p, 's, 'm, 'f) mcts_env \<Rightarrow> index_t \<Rightarrow> ('t, 'p) mcts \<Rightarrow> splitmix \<Rightarrow> ('m \<times> ('t, 'p) mcts \<times> splitmix) option" where
  "getUntriedMove E n m g = do {
     nd \<leftarrow> st_node (e_tree E) n (m_tree m);
     (mv, nd, g) \<leftarrow> getUntriedMove_data (e_unif E) nd g;
     t \<leftarrow> st_set_node (e_tree E) n nd (m_tree m);
     Some (mv, m\<lparr>m_tree := t\<rparr>, g) }"

text \<open>Exploitation plus exploration.\<close>

definition getUCTFromNode :: "('t, 'p, 's, 'm, 'f) mcts_env \<Rightarrow> index_t \<Rightarrow> index_t \<Rightarrow> ('t, 'p) mcts \<Rightarrow> 'f option" where
  "getUCTFromNode E parent child m = do {
     let F = e_float E;
     c \<leftarrow> st_node (e_tree E) child (m_tree m);
     p \<leftarrow> st_node (e_tree E) parent (m_tree m);
     let v = f_of_int F (nd_visits c);
     Some (f_add F (f_div F (f_of_int F (nd_score c)) v)
       (f_sqrt F (f_div F (f_mul F (f_of_int F 4) (f_log F (f_of_int F (to_int32 (nd_visits p + 1))))) v))) }"

definition arc_link :: "('t, 'p, 's, 'm, 'f) mcts_env \<Rightarrow> index_t \<Rightarrow> ('t, 'p) mcts \<Rightarrow> link option" where
  "arc_link E a m = map_option (\<lambda>t. (a, t)) (st_target (e_tree E) a (m_tree m))"

text \<open>Appending to a vector of fixed capacity.\<close>

definition static_push :: "('t, 'p, 's, 'm, 'f) mcts_env \<Rightarrow> link list \<Rightarrow> link \<Rightarrow> link list option" where
  "static_push E ls l = (if int (length ls) < g_max_no_moves (e_game E) then Some (ls @ [l]) else None)"

fun random_children ::
  "('t, 'p, 's, 'm, 'f) mcts_env \<Rightarrow> ('t, 'p) mcts \<Rightarrow> index_t list \<Rightarrow> link list \<Rightarrow> link list option" where
  "random_children E m [] children = Some children"
| "random_children E m (a # as) children = do {
     l \<leftarrow> arc_link E a m;
     children \<leftarrow> static_push E children l;
     random_children E m as children }"

definition random_link :: "uniform_int \<Rightarrow> link list \<Rightarrow> splitmix \<Rightarrow> (link \<times> splitmix) option" where
  "random_link unif ls g =
    (if ls = [] then None
     else let (i, g) = unif 0 (int (length ls) - 1) g in map_option (\<lambda>l. (l, g)) (aref ls i))"

definition selectChildRandom ::
  "('t, 'p, 's, 'm, 'f) mcts_env \<Rightarrow> index_t \<Rightarrow> ('t, 'p) mcts \<Rightarrow> splitmix \<Rightarrow> (link \<times> splitmix) option" where
  "selectChildRandom E parent m g = do {
     as \<leftarrow> st_out (e_tree E) parent (m_tree m);
     children \<leftarrow> random_children E m as [];
     random_link (e_unif E) children g }"

fun select_loop ::
  "('t, 'p, 's, 'm, 'f) mcts_env \<Rightarrow> index_t \<Rightarrow> ('t, 'p) mcts \<Rightarrow> index_t list \<Rightarrow> link list \<Rightarrow> 'f \<Rightarrow> link list option" where
  "select_loop E parent m [] best_children best_UCT_score = Some best_children"
| "select_loop E parent m (a # as) best_children best_UCT_score = do {
     child \<leftarrow> arc_link E a m;
     UCT_score \<leftarrow> getUCTFromNode E parent (snd child) m;
     if f_gt (e_float E) UCT_score best_UCT_score then select_loop E parent m as [child] UCT_score
     else if f_eq (e_float E) UCT_score best_UCT_score then do {
       best_children \<leftarrow> static_push E best_children child;
       select_loop E parent m as best_children best_UCT_score }
     else select_loop E parent m as best_children best_UCT_score }"

definition selectChildUCT ::
  "('t, 'p, 's, 'm, 'f) mcts_env \<Rightarrow> index_t \<Rightarrow> ('t, 'p) mcts \<Rightarrow> splitmix \<Rightarrow> (link \<times> splitmix) option" where
  "selectChildUCT E parent m g = do {
     as \<leftarrow> st_out (e_tree E) parent (m_tree m);
     (case as of
        [] \<Rightarrow> None
      | a # as \<Rightarrow> do {
          child \<leftarrow> arc_link E a m;
          best_UCT_score \<leftarrow> getUCTFromNode E parent (snd child) m;
          best_children \<leftarrow> static_push E [] child;
          best_children \<leftarrow> select_loop E parent m as best_children best_UCT_score;
          if length best_children = 1 then Some (last best_children, g)
          else random_link (e_unif E) best_children g }) }"

definition addChild ::
  "('t, 'p, 's, 'm, 'f) mcts_env \<Rightarrow> index_t \<Rightarrow> 's \<Rightarrow> ('t, 'p) mcts \<Rightarrow> (link \<times> ('t, 'p) mcts) option" where
  "addChild E parent s m = do {
     z \<leftarrow> g_zobrist (e_game E) s;
     child \<leftarrow> getNode E z m;
     if st_invalid_node (e_tree E) = child then mcts_addNode E parent s m else mcts_addArc E parent child s m }"

definition updateData ::
  "('t, 'p, 's, 'm, 'f) mcts_env \<Rightarrow> link \<Rightarrow> 's \<Rightarrow> ('t, 'p) mcts \<Rightarrow> ('t, 'p) mcts option" where
  "updateData E l s m = do {
     nd \<leftarrow> st_node (e_tree E) (snd l) (m_tree m);
     let result = g_result (e_game E) (nd_player_just_moved nd) s;
     t \<leftarrow> st_set_node (e_tree E) (snd l)
       (nd\<lparr>nd_visits := to_int32 (nd_visits nd + 1), nd_score := float_add (nd_score nd) result\<rparr>) (m_tree m);
     Some (m\<lparr>m_tree := t\<rparr>) }"

fun best_move_loop ::
  "('t, 'p, 's, 'm, 'f) mcts_env \<Rightarrow> index_t list \<Rightarrow> int \<Rightarrow> 'm \<Rightarrow> ('t, 'p) mcts \<Rightarrow> ('m \<times> ('t, 'p) mcts) option" where
  "best_move_loop E [] best_child_visits best_child_move m = Some (best_child_move, m)"
| "best_move_loop E (a # as) best_child_visits best_child_move m = do {
     child \<leftarrow> arc_link E a m;
     nd \<leftarrow> st_node (e_tree E) (snd child) (m_tree m);
     if nd_visits nd > best_child_visits then do {
       mv \<leftarrow> getMove E (fst child) m;
       p \<leftarrow> pt_set_back (e_path E) child (m_path m);
       best_move_loop E as (nd_visits nd) mv (m\<lparr>m_path := p\<rparr>) }
     else best_move_loop E as best_child_visits best_child_move m }"

definition getBestMove :: "('t, 'p, 's, 'm, 'f) mcts_env \<Rightarrow> ('t, 'p) mcts \<Rightarrow> ('m \<times> ('t, 'p) mcts) option" where
  "getBestMove E m = do {
     let m = m\<lparr>m_path := pt_push (e_path E) (st_invalid_arc (e_tree E), st_invalid_node (e_tree E)) (m_path m),
       m_path_size := m_path_size m + 1\<rparr>;
     as \<leftarrow> st_out (e_tree E) (st_root_node (e_tree E) (m_tree m)) (m_tree m);
     best_move_loop E as (- (2 ^ 31)) (g_none (e_game E)) m }"

definition connectStatesPath ::
  "('t, 'p, 's, 'm, 'f) mcts_env \<Rightarrow> 's \<Rightarrow> ('t, 'p) mcts \<Rightarrow> ('t, 'p) mcts option" where
  "connectStatesPath E s m = do {
     b \<leftarrow> pt_back (e_path E) (m_path m);
     let parent = snd b;
     z \<leftarrow> g_zobrist (e_game E) s;
     child \<leftarrow> getNode E z m;
     (child, m) \<leftarrow> (if st_invalid_node (e_tree E) = child then do {
         (l, m) \<leftarrow> mcts_addNode E parent s m;
         Some (snd l, m) }
       else Some (child, m));
     l \<leftarrow> st_link (e_tree E) parent child (m_tree m);
     Some (m\<lparr>m_path := pt_push (e_path E) l (m_path m), m_path_size := m_path_size m + 1\<rparr>) }"

text \<open>The loops of \<^verbatim>\<open>compute\<close>: the descent to a node that is not fully expanded or has no children, the update of the
  links of the path, and the three play-outs.\<close>

partial_function (option) select_path ::
  "('t, 'p, 's, 'm, 'f) mcts_env \<Rightarrow> index_t \<Rightarrow> 's \<Rightarrow> ('t, 'p) mcts \<Rightarrow> splitmix \<Rightarrow>
   (index_t \<times> 's \<times> ('t, 'p) mcts \<times> splitmix) option"
where
  "select_path E node s m g = do {
     no_untried \<leftarrow> hasNoUntriedMoves E node m;
     children \<leftarrow> hasChildren E node m;
     if no_untried \<and> children then do {
       (child, g) \<leftarrow> selectChildUCT E node m g;
       mv \<leftarrow> getMove E (fst child) m;
       s \<leftarrow> g_move_hash (e_game E) mv s;
       select_path E (snd child) s (m\<lparr>m_path := pt_push (e_path E) child (m_path m)\<rparr>) g }
     else Some (node, s, m, g) }"

declare select_path.simps [code]

fun update_path :: "('t, 'p, 's, 'm, 'f) mcts_env \<Rightarrow> link list \<Rightarrow> 's \<Rightarrow> ('t, 'p) mcts \<Rightarrow> ('t, 'p) mcts option" where
  "update_path E [] s m = Some m"
| "update_path E (l # ls) s m = do { m \<leftarrow> updateData E l s m; update_path E ls s m }"

fun playouts ::
  "('t, 'p, 's, 'm, 'f) mcts_env \<Rightarrow> nat \<Rightarrow> 's \<Rightarrow> ('t, 'p) mcts \<Rightarrow> splitmix \<Rightarrow> (('t, 'p) mcts \<times> splitmix) option" where
  "playouts E 0 s m g = Some (m, g)"
| "playouts E (Suc i) s m g = do {
     (sim_state, g) \<leftarrow> g_simulate (e_game E) s g;
     m \<leftarrow> update_path E (pt_links (e_path E) (m_path m)) sim_state m;
     playouts E i s m g }"

text \<open>The expansion of the node the descent ends in.\<close>

definition expand ::
  "('t, 'p, 's, 'm, 'f) mcts_env \<Rightarrow> index_t \<Rightarrow> 's \<Rightarrow> ('t, 'p) mcts \<Rightarrow> splitmix \<Rightarrow> ('s \<times> ('t, 'p) mcts \<times> splitmix) option" where
  "expand E node s m g = do {
     untried \<leftarrow> hasUntriedMoves E node m;
     if untried then do {
       (mv, m, g) \<leftarrow> getUntriedMove E node m g;
       s \<leftarrow> g_move_hash_winner (e_game E) mv s;
       (l, m) \<leftarrow> addChild E node s m;
       Some (s, m\<lparr>m_path := pt_push (e_path E) l (m_path m)\<rparr>, g) }
     else Some (s, m, g) }"

definition compute_iteration ::
  "('t, 'p, 's, 'm, 'f) mcts_env \<Rightarrow> 's \<Rightarrow> ('t, 'p) mcts \<Rightarrow> splitmix \<Rightarrow> (('t, 'p) mcts \<times> splitmix) option" where
  "compute_iteration E state m g = do {
     (node, s, m, g) \<leftarrow> select_path E (st_root_node (e_tree E) (m_tree m)) state m g;
     (s, m, g) \<leftarrow> expand E node s m g;
     (m, g) \<leftarrow> playouts E 3 s m g;
     p \<leftarrow> pt_resize (e_path E) (nat (m_path_size m)) (m_path m);
     Some (m\<lparr>m_path := p\<rparr>, g) }"

fun compute_loop ::
  "('t, 'p, 's, 'm, 'f) mcts_env \<Rightarrow> nat \<Rightarrow> 's \<Rightarrow> ('t, 'p) mcts \<Rightarrow> splitmix \<Rightarrow> (('t, 'p) mcts \<times> splitmix) option" where
  "compute_loop E 0 state m g = Some (m, g)"
| "compute_loop E (Suc k) state m g = do {
     (m, g) \<leftarrow> compute_iteration E state m g;
     compute_loop E k state m g }"

definition compute ::
  "('t, 'p, 's, 'm, 'f) mcts_env \<Rightarrow> 's \<Rightarrow> index_t \<Rightarrow> ('t, 'p) mcts \<Rightarrow> splitmix \<Rightarrow>
   ('m \<times> ('t, 'p) mcts \<times> splitmix) option" where
  "compute E state max_iterations m g = do {
     m \<leftarrow> (if m_not_initialized m then mcts_initialize E state m else connectStatesPath E state m);
     (m, g) \<leftarrow> compute_loop E (nat max_iterations) state m g;
     (mv, m) \<leftarrow> getBestMove E m;
     Some (mv, m, g) }"

definition compute_state ::
  "('t, 'p, 's, 'm, 'f) mcts_env \<Rightarrow> 's \<Rightarrow> index_t \<Rightarrow> splitmix \<Rightarrow> ('s \<times> splitmix) option" where
  "compute_state E state max_iterations g = do {
     (mv, m, g) \<leftarrow> compute E state max_iterations (mcts_new E) g;
     s \<leftarrow> g_move_hash_winner (e_game E) mv state;
     Some (s, g) }"


section \<open>Pruning\<close>

text \<open>The loop over the arcs that leave \<open>parent\<close>: a target met for the first time is moved to the new tree and pushed, and the
  arc is added to the new tree. The nodes moved from are not read again.\<close>

fun prune_arcs ::
  "('t, 'p, 's, 'm, 'f) mcts_env \<Rightarrow> 't \<Rightarrow> index_t \<Rightarrow> index_t list \<Rightarrow> 't \<times> index_t list \<times> index_t list \<Rightarrow>
   ('t \<times> index_t list \<times> index_t list) option" where
  "prune_arcs E old parent [] st = Some st"
| "prune_arcs E old parent (a # as) (new, visited, stack) = do {
     child \<leftarrow> st_target (e_tree E) a old;
     vc \<leftarrow> aref visited child;
     (new, visited, stack) \<leftarrow> (if st_invalid_node (e_tree E) = vc then do {
         nd \<leftarrow> st_node (e_tree E) child old;
         (n, new) \<leftarrow> st_addNode (e_tree E) nd new;
         visited \<leftarrow> aset visited child n;
         Some (new, visited, stack @ [child]) }
       else Some (new, visited, stack));
     vp \<leftarrow> aref visited parent;
     vc \<leftarrow> aref visited child;
     d \<leftarrow> st_arc (e_tree E) a old;
     (a', new) \<leftarrow> st_addArc (e_tree E) vp vc d new;
     prune_arcs E old parent as (new, visited, stack) }"

partial_function (option) prune_loop ::
  "('t, 'p, 's, 'm, 'f) mcts_env \<Rightarrow> 't \<Rightarrow> 't \<times> index_t list \<times> index_t list \<Rightarrow> ('t \<times> index_t list) option"
where
  "prune_loop E old st =
    (let (new, visited, stack) = st in
     if stack = [] then Some (new, visited)
     else do {
       let parent = last stack;
       as \<leftarrow> st_out (e_tree E) parent old;
       st \<leftarrow> prune_arcs E old parent as (new, visited, butlast stack);
       prune_loop E old st })"

declare prune_loop.simps [code]

fun purge_table :: "index_t \<Rightarrow> index_t list \<Rightarrow> (u64 \<times> index_t) list \<Rightarrow> (u64 \<times> index_t) list option" where
  "purge_table invalid visited [] = Some []"
| "purge_table invalid visited ((z, n) # tt) = do {
     new_node \<leftarrow> aref visited n;
     tt \<leftarrow> purge_table invalid visited tt;
     Some (if invalid = new_node then tt else (z, new_node) # tt) }"

definition prune_impl ::
  "('t, 'p, 's, 'm, 'f) mcts_env \<Rightarrow> 's \<Rightarrow> ('t, 'p) mcts \<Rightarrow> ('t, 'p) mcts \<Rightarrow> ('t, 'p) mcts option" where
  "prune_impl E s m new_mcts = do {
     let T = e_tree E;
     z \<leftarrow> g_zobrist (e_game E) s;
     old_node \<leftarrow> getNode E z m;
     let new_root = st_root_node T (m_tree new_mcts);
     rhs \<leftarrow> st_node T old_node (m_tree m);
     nd \<leftarrow> st_node T new_root (m_tree new_mcts);
     new_tree \<leftarrow> st_set_node T new_root (fst (NodeData_assign_move nd rhs)) (m_tree new_mcts);
     visited \<leftarrow> aset (replicate (nat (st_nodesSize T (m_tree m))) (st_invalid_node T)) old_node new_root;
     (new_tree, visited) \<leftarrow> prune_loop E (m_tree m) (new_tree, visited, [old_node]);
     tt \<leftarrow> m_transposition_table m;
     tt \<leftarrow> purge_table (st_invalid_node T) visited tt;
     Some (new_mcts\<lparr>m_tree := new_tree, m_transposition_table := Some tt, m_not_initialized := False,
       m_path := pt_reset (e_path E) (st_root_arc T new_tree) (st_root_node T new_tree) (m_path new_mcts), m_path_size := 1\<rparr>) }"

text \<open>\<^verbatim>\<open>prune\<close> swaps the pointers and deletes the old object: the result is the new object. When the state is not in the tree
  it is the old object that is initialised before it is deleted.\<close>

definition prune ::
  "('t, 'p, 's, 'm, 'f) mcts_env \<Rightarrow> ('t, 'p) mcts \<Rightarrow> 's \<Rightarrow> ('t, 'p) mcts option" where
  "prune E m s = do {
     let pruned = mcts_new E;
     found \<leftarrow> (if \<not> m_not_initialized m then do {
         z \<leftarrow> g_zobrist (e_game E) s;
         n \<leftarrow> getNode E z m;
         Some (st_invalid_node (e_tree E) \<noteq> n) }
       else Some False);
     if found then prune_impl E s m pruned
     else do { m \<leftarrow> mcts_initialize E s m; Some pruned } }"

definition mcts_reset ::
  "('t, 'p, 's, 'm, 'f) mcts_env \<Rightarrow> ('t, 'p) mcts \<Rightarrow> 's \<Rightarrow> ('t, 'p) mcts option" where
  "mcts_reset E m s =
    (if \<not> m_not_initialized m then do {
       z \<leftarrow> g_zobrist (e_game E) s;
       n \<leftarrow> getNode E z m;
       if st_invalid_node (e_tree E) \<noteq> n then Some (m\<lparr>m_tree := st_set_root_node (e_tree E) n (m_tree m)\<rparr>)
       else mcts_initialize E s (mcts_new E) }
     else Some m)"

section \<open>Transpositions\<close>

fun invert_loop :: "(u64 \<times> index_t) list \<Rightarrow> u64 list \<Rightarrow> u64 list option" where
  "invert_loop [] itt = Some itt"
| "invert_loop ((z, n) # tt) itt = do { itt \<leftarrow> aset itt n z; invert_loop tt itt }"

definition invertTranspositionTable :: "('t, 'p) mcts \<Rightarrow> u64 list option" where
  "invertTranspositionTable m = do {
     tt \<leftarrow> m_transposition_table m;
     invert_loop tt (replicate (length tt) 0) }"

fun transpositions_arcs ::
  "('t, 'p, 's, 'm, 'f) mcts_env \<Rightarrow> 't \<Rightarrow> index_t list \<Rightarrow> int \<times> bool list \<times> index_t list \<Rightarrow>
   (int \<times> bool list \<times> index_t list) option" where
  "transpositions_arcs E t [] st = Some st"
| "transpositions_arcs E t (a # as) (nt, visited, stack) = do {
     child \<leftarrow> st_target (e_tree E) a t;
     v \<leftarrow> aref visited child;
     if \<not> v then do {
       visited \<leftarrow> aset visited child True;
       k \<leftarrow> st_inArcNum (e_tree E) child t;
       transpositions_arcs E t as (if k > 1 then nt + 1 else nt, visited, stack_push child stack) }
     else transpositions_arcs E t as (nt, visited, stack) }"

partial_function (option) transpositions_loop ::
  "('t, 'p, 's, 'm, 'f) mcts_env \<Rightarrow> 't \<Rightarrow> int \<times> bool list \<times> index_t list \<Rightarrow> int option"
where
  "transpositions_loop E t st =
    (let (nt, visited, stack) = st in
     if stack_not_empty stack then do {
       (parent, stack) \<leftarrow> stack_pop stack;
       as \<leftarrow> st_out (e_tree E) parent t;
       st \<leftarrow> transpositions_arcs E t as (nt, visited, stack);
       transpositions_loop E t st }
     else Some nt)"

declare transpositions_loop.simps [code]

definition numTranspositions :: "('t, 'p, 's, 'm, 'f) mcts_env \<Rightarrow> ('t, 'p) mcts \<Rightarrow> int option" where
  "numTranspositions E m = do {
     let root = st_root_node (e_tree E) (m_tree m);
     visited \<leftarrow> aset (replicate (nat (st_nodeNum (e_tree E) (m_tree m))) False) root True;
     transpositions_loop E (m_tree m) (0, visited, stack_new root) }"

end
