(* ===== verification/Mcts_Inv.thy ===== *)
theory Mcts_Inv
  imports Mcts
begin

text \<open>
  The invariant of the search tree. Every node stands for a position of the game, which \<open>L\<close> names; the transposition table
  holds exactly the nodes under the keys of their positions; the arcs that leave a node are made by different legal
  moves of its position and lead to the nodes of the positions after them; and the untried moves of a node are the
  remaining legal moves, present only while there are any. The lemmas of this theory say how the operations on the
  abstract graph change a labelled graph.
\<close>

section \<open>Labelled graphs\<close>

type_synonym 'm search_graph = "('m arc_data, 'm node_data) graph"

definition untried :: "'m node_data \<Rightarrow> 'm list" where
  "untried nd = (case nd_moves nd of None \<Rightarrow> [] | Some ms \<Rightarrow> contents ms)"

definition moves_ok_data :: "'m node_data \<Rightarrow> bool" where
  "moves_ok_data nd \<longleftrightarrow> (\<forall>ms. nd_moves nd = Some ms \<longrightarrow> moves_wf ms \<and> contents ms \<noteq> [])"

definition arc_moves :: "'m search_graph \<Rightarrow> index_t \<Rightarrow> 'm list" where
  "arc_moves v n = map (\<lambda>(c, d). ad_move d) (outl v n)"

definition node_at :: "'m search_graph \<Rightarrow> index_t \<Rightarrow> 'm node_data" where
  "node_at v n = g_nodes v ! nat n"

definition is_node :: "'m search_graph \<Rightarrow> index_t \<Rightarrow> bool" where
  "is_node v n \<longleftrightarrow> 0 \<le> n \<and> n < order_of v"

definition node_ok ::
  "('q \<Rightarrow> 'm list) \<Rightarrow> ('q \<Rightarrow> 'm \<Rightarrow> 'q) \<Rightarrow> 'm search_graph \<Rightarrow> (index_t \<Rightarrow> 'q) \<Rightarrow> index_t \<Rightarrow> bool" where
  "node_ok legal nxt v L n \<longleftrightarrow>
    distinct (untried (node_at v n) @ arc_moves v n) \<and> set (untried (node_at v n) @ arc_moves v n) \<subseteq> set (legal (L n))
    \<and> moves_ok_data (node_at v n) \<and> (\<forall>(c, d) \<in> set (outl v n). L c = nxt (L n) (ad_move d))"

definition table_ok :: "('q \<Rightarrow> u64) \<Rightarrow> 'm search_graph \<Rightarrow> (u64 \<times> index_t) list \<Rightarrow> (index_t \<Rightarrow> 'q) \<Rightarrow> bool" where
  "table_ok key v tt L \<longleftrightarrow> distinct (map fst tt) \<and> (\<forall>n. is_node v n \<longrightarrow> map_of tt (key (L n)) = Some n)
    \<and> (\<forall>(z, n) \<in> set tt. is_node v n \<and> z = key (L n))"

definition labelled ::
  "('q \<Rightarrow> 'm list) \<Rightarrow> ('q \<Rightarrow> 'm \<Rightarrow> 'q) \<Rightarrow> ('q \<Rightarrow> u64) \<Rightarrow> 'm search_graph \<Rightarrow> (u64 \<times> index_t) list \<Rightarrow> (index_t \<Rightarrow> 'q) \<Rightarrow> bool" where
  "labelled legal nxt key v tt L \<longleftrightarrow> graph_ok v \<and> table_ok key v tt L \<and> (\<forall>n. is_node v n \<longrightarrow> node_ok legal nxt v L n)"

definition closed_under :: "('q \<Rightarrow> 'm list) \<Rightarrow> ('q \<Rightarrow> 'm \<Rightarrow> 'q) \<Rightarrow> 'q set \<Rightarrow> bool" where
  "closed_under legal nxt Q \<longleftrightarrow> (\<forall>q \<in> Q. \<forall>m \<in> set (legal q). nxt q m \<in> Q)"

lemma table_lookup:
  assumes "table_ok key v tt L" "inj_on key Q" "\<And>n. is_node v n \<Longrightarrow> L n \<in> Q" "q \<in> Q"
  shows "map_of tt (key q) = Some n \<longleftrightarrow> is_node v n \<and> L n = q"
proof
  assume "map_of tt (key q) = Some n"
  then have "(key q, n) \<in> set tt" by (rule map_of_SomeD)
  with assms(1) have n: "is_node v n" "key q = key (L n)" by (auto simp: table_ok_def)
  with assms(2-4) show "is_node v n \<and> L n = q" by (auto dest: inj_onD)
next
  assume "is_node v n \<and> L n = q"
  with assms(1) show "map_of tt (key q) = Some n" by (auto simp: table_ok_def)
qed

lemma outl_target: "graph_ok v \<Longrightarrow> (c, d) \<in> set (outl v n) \<Longrightarrow> is_node v c"
  using outl_range [of v c d n] by (simp add: is_node_def)

text \<open>Changing the data of one node but its untried moves.\<close>

definition set_node_at :: "index_t \<Rightarrow> 'm node_data \<Rightarrow> 'm search_graph \<Rightarrow> 'm search_graph" where
  "set_node_at n d v = v\<lparr>g_nodes := (g_nodes v)[nat n := d]\<rparr>"

lemma set_node_at_simps [simp]:
  "order_of (set_node_at n d v) = order_of v" "outl (set_node_at n d v) = outl v" "is_node (set_node_at n d v) = is_node v"
  "arc_moves (set_node_at n d v) = arc_moves v" "g_arcs (set_node_at n d v) = g_arcs v"
  "length (g_nodes (set_node_at n d v)) = length (g_nodes v)"
  by (auto simp: set_node_at_def order_of_def outl_def is_node_def arc_moves_def fun_eq_iff)

lemma node_at_set_node_at:
  "is_node v n \<Longrightarrow> is_node v k \<Longrightarrow> node_at (set_node_at n d v) k = (if k = n then d else node_at v k)"
  by (auto simp: node_at_def set_node_at_def is_node_def order_of_def nth_list_update)

lemma labelled_set_node_at:
  assumes "labelled legal nxt key v tt L" "is_node v n" "moves_ok_data d" "mset (untried (node_at v n)) = mset (untried d) + M"
  shows "labelled legal nxt key (set_node_at n d v) tt L"
proof -
  have "graph_ok (set_node_at n d v)" using assms(1) by (simp add: labelled_def graph_ok_def)
  moreover have "table_ok key (set_node_at n d v) tt L" using assms(1) by (simp add: labelled_def table_ok_def)
  moreover have "node_ok legal nxt (set_node_at n d v) L k" if k: "is_node v k" for k
  proof (cases "k = n")
    case False
    with assms(1,2) k show ?thesis by (simp add: labelled_def node_ok_def node_at_set_node_at)
  next
    case True
    have ok: "node_ok legal nxt v L n" using assms(1,2) by (simp add: labelled_def)
    obtain ys where "mset ys = M" using ex_mset by blast
    with assms(4) have eq: "mset (untried (node_at v n)) = mset (untried d @ ys)" by simp
    have sub: "set (untried d) \<subseteq> set (untried (node_at v n))" using mset_eq_setD [OF eq] by simp
    have "distinct (untried d)" using ok mset_eq_imp_distinct_iff [OF eq] by (simp add: node_ok_def)
    with ok sub assms(2,3) True show ?thesis by (auto simp: node_ok_def node_at_set_node_at)
  qed
  ultimately show ?thesis by (simp add: labelled_def)
qed


text \<open>Adding an arc for a new legal move, to a known node and to a new one.\<close>

lemma arc_moves_add_arc: "arc_moves (add_arc p c d v) n = arc_moves v n @ (if n = p then [ad_move d] else [])"
  by (simp add: arc_moves_def)

lemma node_at_add_arc [simp]: "node_at (add_arc p c d v) = node_at v" "is_node (add_arc p c d v) = is_node v"
  by (simp_all add: node_at_def is_node_def fun_eq_iff)

lemma labelled_add_arc:
  assumes "labelled legal nxt key v tt L" "is_node v p" "is_node v c" "L c = nxt (L p) (ad_move d)"
    and "ad_move d \<in> set (legal (L p))" "ad_move d \<notin> set (untried (node_at v p) @ arc_moves v p)"
  shows "labelled legal nxt key (add_arc p c d v) tt L"
proof -
  have "graph_ok (add_arc p c d v)"
    using assms(1-3) by (intro graph_ok_add_arc) (auto simp: labelled_def is_node_def)
  moreover have "table_ok key (add_arc p c d v) tt L" using assms(1) by (simp add: labelled_def table_ok_def)
  moreover have "node_ok legal nxt (add_arc p c d v) L n" if "is_node v n" for n
    using assms that by (auto simp: labelled_def node_ok_def arc_moves_add_arc)
  ultimately show ?thesis by (simp add: labelled_def)
qed

lemma is_node_add_node: "is_node (add_node x v) n \<longleftrightarrow> is_node v n \<or> n = order_of v"
  by (auto simp: is_node_def order_of_def)

lemma node_at_add_node: "is_node v n \<Longrightarrow> node_at (add_node x v) n = node_at v n" "node_at (add_node x v) (order_of v) = x"
  by (auto simp: node_at_def is_node_def order_of_def nth_append)

lemma order_not_node [simp]: "\<not> is_node v (order_of v)"
  by (simp add: is_node_def)

lemma labelled_add_node:
  assumes lab: "labelled legal nxt key v tt L" and z: "map_of tt (key q) = None"
    and x: "moves_ok_data x" "distinct (untried x)" "set (untried x) \<subseteq> set (legal q)"
  shows "labelled legal nxt key (add_node x v) (tt @ [(key q, order_of v)]) (L(order_of v := q))"
proof -
  let ?N = "order_of v" and ?v = "add_node x v" and ?L = "L(order_of v := q)"
  have g: "graph_ok v" "table_ok key v tt L" and nodes: "\<And>n. is_node v n \<Longrightarrow> node_ok legal nxt v L n"
    using lab by (auto simp: labelled_def)
  have neq: "n \<noteq> ?N" if "is_node v n" for n using that by auto
  have fresh: "outl v ?N = []" using outl_fresh [OF g(1)] by simp
  have "table_ok key ?v (tt @ [(key q, ?N)]) ?L"
  proof -
    have "key q \<notin> fst ` set tt" using z by (simp add: map_of_eq_None_iff)
    then show ?thesis
      using g(2) z neq by (auto simp: table_ok_def is_node_add_node map_add_def map_of_append split: option.splits)
  qed
  moreover have "node_ok legal nxt ?v ?L n" if "is_node ?v n" for n
  proof (cases "n = ?N")
    case True
    with x fresh show ?thesis by (simp add: node_ok_def node_at_add_node arc_moves_def)
  next
    case False
    with that have n: "is_node v n" by (simp add: is_node_add_node)
    have "c \<noteq> ?N" if "(c, d) \<in> set (outl v n)" for c d using outl_target [OF g(1) that] by auto
    with nodes [OF n] n False show ?thesis
      by (fastforce simp: node_ok_def node_at_add_node arc_moves_def)
  qed
  ultimately show ?thesis using graph_ok_add_node [OF g(1)] by (simp add: labelled_def)
qed

section \<open>Completeness\<close>

text \<open>Every legal move of the position of a node is still untried or has its arc, but those of \<open>X\<close>.\<close>

definition complete_but :: "(index_t \<times> 'm) set \<Rightarrow> ('q \<Rightarrow> 'm list) \<Rightarrow> 'm search_graph \<Rightarrow> (index_t \<Rightarrow> 'q) \<Rightarrow> bool" where
  "complete_but X legal v L \<longleftrightarrow> (\<forall>n mv. is_node v n \<longrightarrow> mv \<in> set (legal (L n)) \<longrightarrow> (n, mv) \<notin> X \<longrightarrow>
     mv \<in> set (untried (node_at v n) @ arc_moves v n))"

lemma complete_set_node_at:
  assumes "complete_but X legal v L" "is_node v n" "set (untried (node_at v n)) \<subseteq> M \<union> set (untried d)"
  shows "complete_but (X \<union> {n} \<times> M) legal (set_node_at n d v) L"
  using assms by (fastforce simp: complete_but_def node_at_set_node_at)

lemma complete_add_arc: "complete_but {(p, ad_move d)} legal v L \<Longrightarrow> complete_but {} legal (add_arc p c d v) L"
  by (auto simp: complete_but_def arc_moves_add_arc)

lemma complete_add_node:
  assumes "complete_but X legal v L" "set (legal q) \<subseteq> set (untried x)"
  shows "complete_but X legal (add_node x v) (L(order_of v := q))"
  unfolding complete_but_def
proof (intro allI impI)
  fix n mv assume n: "is_node (add_node x v) n" "mv \<in> set (legal ((L(order_of v := q)) n))" "(n, mv) \<notin> X"
  show "mv \<in> set (untried (node_at (add_node x v) n) @ arc_moves (add_node x v) n)"
  proof (cases "n = order_of v")
    case True
    with n assms(2) show ?thesis by (auto simp: node_at_add_node)
  next
    case False
    with n assms(1) have "mv \<in> set (untried (node_at v n) @ arc_moves v n)" "is_node v n"
      by (auto simp: complete_but_def is_node_add_node)
    then show ?thesis by (simp add: node_at_add_node arc_moves_def)
  qed
qed

end
