(* ===== verification/Mcts_Search.thy ===== *)
theory Mcts_Search
  imports Mcts_Inv
begin

text \<open>
  The search itself, over the contracts of the game, the tree and the path. The locale \<open>game\<close> states what \<^verbatim>\<open>Mcts\<close> relies on of
  its template parameter \<^verbatim>\<open>State\<close>; within \<open>mcts_setup\<close> every operation of the search is shown to succeed and to keep the
  invariant.
\<close>

section \<open>The game\<close>

text \<open>\<open>pos\<close> is the position of a state, on which the legal moves, the successor and the Zobrist key depend; \<open>rem\<close> bounds the
  number of moves to come; a game that is over has no legal moves. The descent of the search makes moves with
  \<^verbatim>\<open>move_hash\<close>, which does not record whether the game is over: \<open>ginv\<close> holds of all states, \<open>gexact\<close> of those that do record it,
  and there \<^verbatim>\<open>moves\<close> offers the legal moves, in any order, or reports that there are none.\<close>

locale game =
  fixes G :: "('s, 'm) game_ops" and ginv :: "'s \<Rightarrow> bool" and gexact :: "'s \<Rightarrow> bool" and pos :: "'s \<Rightarrow> 'q" and legal :: "'q \<Rightarrow> 'm list"
    and nxt :: "'q \<Rightarrow> 'm \<Rightarrow> 'q" and key :: "'q \<Rightarrow> u64" and rem :: "'q \<Rightarrow> nat"
  assumes g_exact: "gexact s \<Longrightarrow> ginv s"
    and g_zobrist: "ginv s \<Longrightarrow> g_zobrist G s = Some (key (pos s))"
    and g_moves: "gexact s \<Longrightarrow> \<exists>ms. g_moves G s (g_new_moves G) = Some (legal (pos s) \<noteq> [], ms) \<and> moves_wf ms
      \<and> (legal (pos s) \<noteq> [] \<longrightarrow> mset (contents ms) = mset (legal (pos s)))"
    and g_legal: "ginv s \<Longrightarrow> distinct (legal (pos s)) \<and> int (length (legal (pos s))) \<le> g_max_no_moves G"
    and g_move_hash: "ginv s \<Longrightarrow> m \<in> set (legal (pos s)) \<Longrightarrow> \<exists>s'. g_move_hash G m s = Some s' \<and> ginv s'
      \<and> pos s' = nxt (pos s) m \<and> rem (pos s') < rem (pos s)"
    and g_move_hash_winner: "ginv s \<Longrightarrow> m \<in> set (legal (pos s)) \<Longrightarrow> \<exists>s'. g_move_hash_winner G m s = Some s' \<and> gexact s'
      \<and> pos s' = nxt (pos s) m \<and> rem (pos s') < rem (pos s) \<and> g_lastMove G s' = m"
    and g_simulate: "ginv s \<Longrightarrow> \<exists>s' g'. g_simulate G s g = Some (s', g')"

section \<open>The invariant of the search\<close>

text \<open>\<open>B\<close> bounds the visit counts.\<close>

definition search_base ::
  "('t, 'p, 's, 'm, 'f) mcts_env \<Rightarrow> ('t \<Rightarrow> bool) \<Rightarrow> ('t \<Rightarrow> 'm search_graph) \<Rightarrow> ('q \<Rightarrow> 'm list) \<Rightarrow> ('q \<Rightarrow> 'm \<Rightarrow> 'q) \<Rightarrow>
   ('q \<Rightarrow> u64) \<Rightarrow> 'q set \<Rightarrow> (index_t \<Rightarrow> 'q) \<Rightarrow> int \<Rightarrow> ('t, 'p) mcts \<Rightarrow> bool" where
  "search_base E tinv tview legal nxt key Q L B m \<longleftrightarrow>
    tinv (m_tree m) \<and> \<not> m_not_initialized m
    \<and> (\<exists>tt. m_transposition_table m = Some tt \<and> labelled legal nxt key (tview (m_tree m)) tt L)
    \<and> (\<forall>n. is_node (tview (m_tree m)) n \<longrightarrow> L n \<in> Q)
    \<and> (\<forall>n. is_node (tview (m_tree m)) n \<longrightarrow> 0 \<le> nd_visits (node_at (tview (m_tree m)) n)
         \<and> nd_visits (node_at (tview (m_tree m)) n) \<le> B)"

text \<open>Between drawing an untried move and adding its arc the node misses that move; the invariant proper misses none.\<close>

definition search_inv ::
  "('t, 'p, 's, 'm, 'f) mcts_env \<Rightarrow> ('t \<Rightarrow> bool) \<Rightarrow> ('t \<Rightarrow> 'm search_graph) \<Rightarrow> ('q \<Rightarrow> 'm list) \<Rightarrow> ('q \<Rightarrow> 'm \<Rightarrow> 'q) \<Rightarrow>
   ('q \<Rightarrow> u64) \<Rightarrow> 'q set \<Rightarrow> (index_t \<Rightarrow> 'q) \<Rightarrow> int \<Rightarrow> ('t, 'p) mcts \<Rightarrow> bool" where
  "search_inv E tinv tview legal nxt key Q L B m \<longleftrightarrow>
    search_base E tinv tview legal nxt key Q L B m \<and> complete_but {} legal (tview (m_tree m)) L"

lemmas search_inv_defs = search_inv_def search_base_def

text \<open>The links of the path end in nodes.\<close>

definition path_ok ::
  "('t, 'p, 's, 'm, 'f) mcts_env \<Rightarrow> ('t \<Rightarrow> 'm search_graph) \<Rightarrow> ('t, 'p) mcts \<Rightarrow> bool" where
  "path_ok E tview m \<longleftrightarrow> (\<forall>l \<in> set (pt_links (e_path E) (m_path m)). is_node (tview (m_tree m)) (snd l))"

text \<open>Two searches whose trees differ in the data of nodes only.\<close>

definition same_shape ::
  "('t, 'p, 's, 'm, 'f) mcts_env \<Rightarrow> ('t \<Rightarrow> 'm search_graph) \<Rightarrow> ('t, 'p) mcts \<Rightarrow> ('t, 'p) mcts \<Rightarrow> bool" where
  "same_shape E tview m m' \<longleftrightarrow> g_arcs (tview (m_tree m')) = g_arcs (tview (m_tree m))
    \<and> length (g_nodes (tview (m_tree m'))) = length (g_nodes (tview (m_tree m)))
    \<and> st_root_node (e_tree E) (m_tree m') = st_root_node (e_tree E) (m_tree m)
    \<and> m_path m' = m_path m \<and> m_path_size m' = m_path_size m"

lemma same_shapeD:
  assumes "same_shape E tview m m'"
  shows "is_node (tview (m_tree m')) = is_node (tview (m_tree m))" "outl (tview (m_tree m')) = outl (tview (m_tree m))"
    "m_path m' = m_path m" "m_path_size m' = m_path_size m"
    "st_root_node (e_tree E) (m_tree m') = st_root_node (e_tree E) (m_tree m)"
    "length (g_nodes (tview (m_tree m'))) = length (g_nodes (tview (m_tree m)))"
    "length (g_arcs (tview (m_tree m'))) = length (g_arcs (tview (m_tree m)))"
  using assms by (auto simp: same_shape_def is_node_def order_of_def outl_def fun_eq_iff)

lemma same_shape_refl: "same_shape E tview m m"
  by (simp add: same_shape_def)

lemma same_shape_trans: "same_shape E tview m m' \<Longrightarrow> same_shape E tview m' m'' \<Longrightarrow> same_shape E tview m m''"
  by (simp add: same_shape_def)

lemma search_inv_mono: "search_inv E tinv tview legal nxt key Q L B m \<Longrightarrow> B \<le> B' \<Longrightarrow> search_inv E tinv tview legal nxt key Q L B' m"
  by (force simp: search_inv_defs)

lemma search_inv_subset: "search_inv E tinv tview legal nxt key Q L B m \<Longrightarrow> Q \<subseteq> Q' \<Longrightarrow> search_inv E tinv tview legal nxt key Q' L B m"
  by (force simp: search_inv_defs)

lemma search_inv_path [simp]:
  "search_inv E tinv tview legal nxt key Q L B (m\<lparr>m_path := p\<rparr>) = search_inv E tinv tview legal nxt key Q L B m"
  "search_inv E tinv tview legal nxt key Q L B (m\<lparr>m_path_size := k\<rparr>) = search_inv E tinv tview legal nxt key Q L B m"
  by (simp_all add: search_inv_defs)

text \<open>How often a node occurs on the path.\<close>

definition path_count :: "('t, 'p, 's, 'm, 'f) mcts_env \<Rightarrow> ('t, 'p) mcts \<Rightarrow> index_t \<Rightarrow> int" where
  "path_count E m n = int (length (filter (\<lambda>l. snd l = n) (pt_links (e_path E) (m_path m))))"

text \<open>Taking an untried move.\<close>

lemma getUntriedMove_data_ok:
  assumes "uniform_dist unif" "moves_ok_data nd" "nd_moves nd \<noteq> None"
  shows "\<exists>mv nd' g'. getUntriedMove_data unif nd g = Some (mv, nd', g') \<and> moves_ok_data nd'
    \<and> mset (untried nd) = add_mset mv (mset (untried nd')) \<and> nd_visits nd' = nd_visits nd"
proof -
  from assms(2,3) obtain ms where ms: "nd_moves nd = Some ms" "moves_wf ms" "contents ms \<noteq> []" by (auto simp: moves_ok_data_def)
  have len: "int (length (contents ms)) = m_size ms" by (rule length_contents [OF ms(2)])
  have "0 < length (contents ms)" using ms(3) by simp
  then have pos: "0 < m_size ms" using len by linarith
  show ?thesis
  proof (cases "m_size ms = 1")
    case True
    then obtain v where v: "contents ms = [v]" using len by (auto simp: length_Suc_conv)
    then have "front ms = Some v" using contents_nth [OF ms(2), of 0] True by (simp add: front_def)
    with True ms v show ?thesis by (simp add: getUntriedMove_data_def untried_def moves_ok_data_def)
  next
    case False
    from draw_ok [OF assms(1) ms(2) pos, of g] obtain v ms' g' where
      d: "draw unif ms g = Some (v, ms', g')" "moves_wf ms'" "m_size ms' = m_size ms - 1"
      "mset (contents ms) = add_mset v (mset (contents ms'))" by blast
    have "0 < m_size ms'" using d(3) pos False by linarith
    then have "contents ms' \<noteq> []" using length_contents [OF d(2)] by auto
    with d ms False show ?thesis by (auto simp: getUntriedMove_data_def untried_def moves_ok_data_def)
  qed
qed

text \<open>The links from a node to its children.\<close>

definition child_link ::
  "('t, 'p, 's, 'm, 'f) mcts_env \<Rightarrow> ('t \<Rightarrow> 'm search_graph) \<Rightarrow> ('t, 'p) mcts \<Rightarrow> index_t \<Rightarrow> link \<Rightarrow> bool" where
  "child_link E tview m n l \<longleftrightarrow> fst l \<in> set (out_ids (tview (m_tree m)) n) \<and> arc_link E (fst l) m = Some l"

locale mcts_setup =
  search_tree "e_tree E" tinv tview + search_path "e_path E" + game "e_game E" ginv gexact pos legal nxt key rem + uniform_dist "e_unif E"
  for E :: "('t, 'p, 's, 'm, 'f) mcts_env" and tinv :: "'t \<Rightarrow> bool" and tview :: "'t \<Rightarrow> 'm search_graph"
    and ginv :: "'s \<Rightarrow> bool" and gexact :: "'s \<Rightarrow> bool" and pos :: "'s \<Rightarrow> 'q" and legal :: "'q \<Rightarrow> 'm list" and nxt :: "'q \<Rightarrow> 'm \<Rightarrow> 'q"
    and key :: "'q \<Rightarrow> u64" and rem :: "'q \<Rightarrow> nat"
begin

lemma st_node_ok: "tinv t \<Longrightarrow> is_node (tview t) n \<Longrightarrow> st_node (e_tree E) n t = Some (node_at (tview t) n)"
  using node [of t n] by (simp add: is_node_def node_at_def)

lemma st_set_node_ok:
  "tinv t \<Longrightarrow> is_node (tview t) n \<Longrightarrow> \<exists>t'. st_set_node (e_tree E) n d t = Some t' \<and> tinv t' \<and> tview t' = set_node_at n d (tview t)
    \<and> st_root_node (e_tree E) t' = st_root_node (e_tree E) t"
  using set_node [of t n d] by (simp add: is_node_def set_node_at_def)

lemma root_is_node: "tinv t \<Longrightarrow> is_node (tview t) (st_root_node (e_tree E) t)"
  using root_range by (simp add: is_node_def)

lemma NodeData_state_ok:
  assumes "gexact s"
  shows "\<exists>nd. NodeData_state (e_game E) s = Some nd \<and> moves_ok_data nd \<and> distinct (untried nd)
    \<and> set (untried nd) = set (legal (pos s)) \<and> nd_visits nd = 0"
proof -
  from g_moves [OF assms] obtain ms where ms: "g_moves (e_game E) s (g_new_moves (e_game E)) = Some (legal (pos s) \<noteq> [], ms)" "moves_wf ms"
    "legal (pos s) \<noteq> [] \<longrightarrow> mset (contents ms) = mset (legal (pos s))" by blast
  have "distinct (contents ms) \<and> set (contents ms) = set (legal (pos s)) \<and> contents ms \<noteq> []" if l: "legal (pos s) \<noteq> []"
  proof -
    have eq: "mset (contents ms) = mset (legal (pos s))" using ms(3) l by simp
    from mset_eq_imp_distinct_iff [OF eq] mset_eq_setD [OF eq] mset_eq_length [OF eq] g_legal [OF g_exact [OF assms]] l
    show ?thesis by auto
  qed
  with ms show ?thesis
    by (cases "legal (pos s) = []") (simp_all add: NodeData_state_def NodeData_def moves_ok_data_def untried_def)
qed

text \<open>Opening a search on a fresh object.\<close>

lemma mcts_initialize_ok:
  assumes s: "gexact s" "pos s \<in> Q" and m: "m_tree m = st_new (e_tree E)" "m_transposition_table m = None"
  shows "\<exists>m'. mcts_initialize E s m = Some m' \<and> search_inv E tinv tview legal nxt key Q (\<lambda>_. pos s) 0 m'
    \<and> pt_links (e_path E) (m_path m') = [(st_invalid_arc (e_tree E), st_root_node (e_tree E) (m_tree m'))]
    \<and> m_path_size m' = 1 \<and> length (g_arcs (tview (m_tree m'))) \<le> 1 \<and> length (g_nodes (tview (m_tree m'))) = 1"
proof -
  let ?T = "e_tree E" and ?t = "st_new (e_tree E)"
  let ?r = "st_root_node ?T ?t"
  have one: "is_node (tview ?t) n \<longleftrightarrow> n = 0" for n using new_view(1) by (auto simp: is_node_def)
  have r: "?r = 0" "is_node (tview ?t) 0" using new_root one by auto
  obtain nd where nd: "NodeData_state (e_game E) s = Some nd" "moves_ok_data nd" "distinct (untried nd)"
    "set (untried nd) = set (legal (pos s))" "nd_visits nd = 0" using NodeData_state_ok [OF s(1)] by blast
  let ?nd = "fst (NodeData_assign_move (node_at (tview ?t) 0) nd)"
  have ndeq: "untried ?nd = untried nd" "moves_ok_data ?nd" "nd_visits ?nd = 0"
    using nd by (simp_all add: NodeData_assign_move_def untried_def moves_ok_data_def)
  obtain t where t: "st_set_node ?T 0 ?nd ?t = Some t" "tinv t" "tview t = set_node_at 0 ?nd (tview ?t)" "st_root_node ?T t = ?r"
    using st_set_node_ok [OF new_inv r(2)] by blast
  have at: "node_at (tview t) 0 = ?nd" using node_at_set_node_at [OF r(2) r(2)] by (simp add: t(3))
  have g: "graph_ok (tview t)" using view_ok [OF t(2)] .
  have "labelled legal nxt key (tview t) [(key (pos s), 0)] (\<lambda>_. pos s)"
    using g nd(3,4) ndeq at
    by (auto simp: labelled_def table_ok_def node_ok_def one t(3) arc_moves_def new_view(2))
  moreover have "complete_but {} legal (tview t) (\<lambda>_. pos s)"
    using nd(4) ndeq(1) at by (auto simp: complete_but_def one t(3))
  ultimately have "search_inv E tinv tview legal nxt key Q (\<lambda>_. pos s) 0
      (m\<lparr>m_tree := t, m_transposition_table := Some [(key (pos s), 0)], m_not_initialized := False,
        m_path := pt_reset (e_path E) (st_invalid_arc ?T) 0 (m_path m), m_path_size := 1\<rparr>)"
    using t(2) s(2) ndeq(3) at by (auto simp: search_inv_defs one t(3))
  moreover have "length (g_nodes (tview t)) = 1" using new_view(1) by (simp add: t(3) order_of_def)
  ultimately show ?thesis
    using nd(1) t(1) r st_node_ok [OF new_inv r(2)] g_zobrist [OF g_exact [OF s(1)]] m reset t(3,4) new_view(3)
    by (simp add: mcts_initialize_def tt_emplace_def Let_def)
qed

text \<open>Updating the nodes of a path changes nothing but visits and scores, and counts each link once.\<close>

lemma updateData_ok:
  assumes inv: "search_inv E tinv tview legal nxt key Q L B m" and l: "is_node (tview (m_tree m)) (snd l)" and B: "B + 1 < 2 ^ 31"
  shows "\<exists>m'. updateData E l s m = Some m' \<and> search_inv E tinv tview legal nxt key Q L (B + 1) m'
    \<and> same_shape E tview m m'
    \<and> (\<forall>n. is_node (tview (m_tree m)) n \<longrightarrow> nd_visits (node_at (tview (m_tree m')) n)
         = nd_visits (node_at (tview (m_tree m)) n) + (if n = snd l then 1 else 0))"
proof -
  let ?t = "m_tree m" let ?v = "tview ?t" and ?n = "snd l" let ?nd = "node_at ?v ?n"
  have t: "tinv ?t" and vb: "\<And>n. is_node ?v n \<Longrightarrow> 0 \<le> nd_visits (node_at ?v n) \<and> nd_visits (node_at ?v n) \<le> B"
    using inv by (auto simp: search_inv_defs)
  define d where "d = ?nd\<lparr>nd_visits := to_int32 (nd_visits ?nd + 1),
    nd_score := float_add (nd_score ?nd) (g_result (e_game E) (nd_player_just_moved ?nd) s)\<rparr>"
  have vis: "nd_visits d = nd_visits ?nd + 1" using vb [OF l] B by (simp add: d_def to_int32_id)
  have dm: "nd_moves d = nd_moves ?nd" by (simp add: d_def)
  obtain t' where t': "st_set_node (e_tree E) ?n d ?t = Some t'" "tinv t'" "tview t' = set_node_at ?n d ?v"
    "st_root_node (e_tree E) t' = st_root_node (e_tree E) ?t" using st_set_node_ok [OF t l] by blast
  obtain tt where tt: "m_transposition_table m = Some tt" "labelled legal nxt key ?v tt L" using inv by (auto simp: search_inv_defs)
  have "moves_ok_data ?nd" using tt(2) l by (auto simp: labelled_def node_ok_def)
  then have "moves_ok_data d" "untried d = untried ?nd" using dm by (simp_all add: moves_ok_data_def untried_def)
  then have lab: "labelled legal nxt key (set_node_at ?n d ?v) tt L"
    using labelled_set_node_at [OF tt(2) l, of d "{#}"] by simp
  have "complete_but {} legal ?v L" using inv by (simp add: search_inv_def)
  from complete_set_node_at [OF this l, of "{}" d] have cmp: "complete_but {} legal (set_node_at ?n d ?v) L"
    using \<open>untried d = untried ?nd\<close> by simp
  have v': "nd_visits (node_at (tview t') n) = nd_visits (node_at ?v n) + (if n = ?n then 1 else 0)" if "is_node ?v n" for n
    using vis node_at_set_node_at [OF l that] by (simp add: t'(3))
  have "search_inv E tinv tview legal nxt key Q L (B + 1) (m\<lparr>m_tree := t'\<rparr>)"
    using inv t'(2) lab cmp tt(1) v' vb by (fastforce simp: search_inv_defs t'(3))
  moreover have "updateData E l s m = Some (m\<lparr>m_tree := t'\<rparr>)"
    using t'(1) st_node_ok [OF t l] by (simp add: updateData_def d_def)
  moreover have "same_shape E tview m (m\<lparr>m_tree := t'\<rparr>)" using t' by (simp add: same_shape_def)
  ultimately show ?thesis using v' by simp
qed

lemma update_path_ok:
  assumes "search_inv E tinv tview legal nxt key Q L B m" "\<And>l. l \<in> set ls \<Longrightarrow> is_node (tview (m_tree m)) (snd l)"
    and "B + int (length ls) < 2 ^ 31"
  shows "\<exists>m'. update_path E ls s m = Some m' \<and> search_inv E tinv tview legal nxt key Q L (B + int (length ls)) m'
    \<and> same_shape E tview m m' \<and> (\<forall>n. is_node (tview (m_tree m)) n \<longrightarrow> nd_visits (node_at (tview (m_tree m')) n)
         = nd_visits (node_at (tview (m_tree m)) n) + int (length (filter (\<lambda>l. snd l = n) ls)))"
  using assms
proof (induction ls arbitrary: m B)
  case Nil
  then show ?case by (simp add: same_shape_refl)
next
  case (Cons l ls)
  have B: "B + 1 < 2 ^ 31" using Cons.prems(3) by simp
  from updateData_ok [OF Cons.prems(1) Cons.prems(2) B, of l s] obtain m1 where
    m1: "updateData E l s m = Some m1" "search_inv E tinv tview legal nxt key Q L (B + 1) m1" "same_shape E tview m m1"
    "\<forall>n. is_node (tview (m_tree m)) n \<longrightarrow> nd_visits (node_at (tview (m_tree m1)) n)
         = nd_visits (node_at (tview (m_tree m)) n) + (if n = snd l then 1 else 0)" by auto
  from Cons.IH [OF m1(2)] Cons.prems(2,3) same_shapeD(1) [OF m1(3)] obtain m2 where
    m2: "update_path E ls s m1 = Some m2" "search_inv E tinv tview legal nxt key Q L (B + 1 + int (length ls)) m2" "same_shape E tview m1 m2"
    "\<forall>n. is_node (tview (m_tree m1)) n \<longrightarrow> nd_visits (node_at (tview (m_tree m2)) n)
         = nd_visits (node_at (tview (m_tree m1)) n) + int (length (filter (\<lambda>l. snd l = n) ls))" by auto
  have "search_inv E tinv tview legal nxt key Q L (B + int (length (l # ls))) m2" using m2(2) by (simp add: ac_simps)
  with m1 m2 same_shapeD(1) [OF m1(3)] same_shape_trans [OF m1(3) m2(3)] show ?case by auto
qed

text \<open>Every play-out adds one visit for each occurrence of a node on the path.\<close>

lemma playouts_ok:
  assumes "search_inv E tinv tview legal nxt key Q L B m" "path_ok E tview m" "ginv s"
    and "B + int k * int (length (pt_links (e_path E) (m_path m))) < 2 ^ 31"
  shows "\<exists>m' g'. playouts E k s m g = Some (m', g')
    \<and> search_inv E tinv tview legal nxt key Q L (B + int k * int (length (pt_links (e_path E) (m_path m)))) m' \<and> same_shape E tview m m'
    \<and> (\<forall>n. is_node (tview (m_tree m)) n \<longrightarrow> nd_visits (node_at (tview (m_tree m')) n)
         = nd_visits (node_at (tview (m_tree m)) n) + int k * path_count E m n)"
  using assms
proof (induction k arbitrary: m B g)
  case 0
  then show ?case by (simp add: same_shape_refl)
next
  case (Suc k)
  let ?ls = "pt_links (e_path E) (m_path m)"
  obtain s' g1 where sim: "g_simulate (e_game E) s g = Some (s', g1)" using g_simulate [OF Suc.prems(3)] by blast
  have B1: "B + int (length ?ls) < 2 ^ 31"
  proof -
    have "B + int (length ?ls) \<le> B + int (Suc k) * int (length ?ls)" by (simp add: algebra_simps)
    with Suc.prems(4) show ?thesis by (rule le_less_trans [rotated])
  qed
  from update_path_ok [OF Suc.prems(1) _ B1, of s'] Suc.prems(2) obtain m1 where
    m1: "update_path E ?ls s' m = Some m1" "search_inv E tinv tview legal nxt key Q L (B + int (length ?ls)) m1" "same_shape E tview m m1"
    "\<forall>n. is_node (tview (m_tree m)) n \<longrightarrow> nd_visits (node_at (tview (m_tree m1)) n)
         = nd_visits (node_at (tview (m_tree m)) n) + int (length (filter (\<lambda>l. snd l = n) ?ls))"
    unfolding path_ok_def by blast
  note sh = same_shapeD [OF m1(3)]
  have p1: "path_ok E tview m1" "path_count E m1 = path_count E m" using Suc.prems(2) sh by (auto simp: path_ok_def path_count_def)
  have B2: "B + int (length ?ls) + int k * int (length (pt_links (e_path E) (m_path m1))) = B + int (Suc k) * int (length ?ls)"
    by (simp add: sh(3) algebra_simps)
  from Suc.IH [OF m1(2) p1(1) Suc.prems(3), of g1] Suc.prems(4) obtain m2 g2 where
    m2: "playouts E k s m1 g1 = Some (m2, g2)" "search_inv E tinv tview legal nxt key Q L (B + int (Suc k) * int (length ?ls)) m2"
    "same_shape E tview m1 m2" "\<forall>n. is_node (tview (m_tree m1)) n \<longrightarrow> nd_visits (node_at (tview (m_tree m2)) n)
         = nd_visits (node_at (tview (m_tree m1)) n) + int k * path_count E m1 n"
    unfolding B2 by blast
  have "\<forall>n. is_node (tview (m_tree m)) n \<longrightarrow> nd_visits (node_at (tview (m_tree m2)) n)
         = nd_visits (node_at (tview (m_tree m)) n) + int (Suc k) * path_count E m n"
    using m1(4) m2(4) sh(1) p1(2) by (simp add: path_count_def algebra_simps)
  with sim m1(1) m2 same_shape_trans [OF m1(3) m2(3)] show ?case by simp
qed

lemma getUntriedMove_ok:
  assumes inv: "search_inv E tinv tview legal nxt key Q L B m" and n: "is_node (tview (m_tree m)) n"
    and u: "nd_moves (node_at (tview (m_tree m)) n) \<noteq> None"
  shows "\<exists>mv m' g'. getUntriedMove E n m g = Some (mv, m', g') \<and> search_base E tinv tview legal nxt key Q L B m'
    \<and> complete_but {(n, mv)} legal (tview (m_tree m')) L \<and> same_shape E tview m m' \<and> mv \<in> set (legal (L n))
    \<and> mv \<notin> set (untried (node_at (tview (m_tree m')) n) @ arc_moves (tview (m_tree m')) n)
    \<and> (\<forall>k. is_node (tview (m_tree m)) k \<longrightarrow> nd_visits (node_at (tview (m_tree m')) k) = nd_visits (node_at (tview (m_tree m)) k))"
proof -
  let ?t = "m_tree m" let ?v = "tview ?t" let ?nd = "node_at ?v n"
  obtain tt where tt: "m_transposition_table m = Some tt" "labelled legal nxt key ?v tt L" and t: "tinv ?t"
    using inv by (auto simp: search_inv_defs)
  have ok: "node_ok legal nxt ?v L n" using tt(2) n by (simp add: labelled_def)
  then have md: "moves_ok_data ?nd" by (simp add: node_ok_def)
  from getUntriedMove_data_ok [OF uniform_dist_axioms md u, of g] obtain mv nd' g' where
    nd': "getUntriedMove_data (e_unif E) ?nd g = Some (mv, nd', g')" "moves_ok_data nd'"
    "mset (untried ?nd) = add_mset mv (mset (untried nd'))" "nd_visits nd' = nd_visits ?nd" by blast
  obtain t' where t': "st_set_node (e_tree E) n nd' ?t = Some t'" "tinv t'" "tview t' = set_node_at n nd' ?v"
    "st_root_node (e_tree E) t' = st_root_node (e_tree E) ?t" using st_set_node_ok [OF t n] by blast
  have lab: "labelled legal nxt key (tview t') tt L"
    unfolding t'(3) by (rule labelled_set_node_at [OF tt(2) n nd'(2), of "{#mv#}"]) (simp add: nd'(3))
  have at: "node_at (tview t') k = (if k = n then nd' else node_at ?v k)" if "is_node ?v k" for k
    unfolding t'(3) by (rule node_at_set_node_at [OF n that])
  have mnd: "mset (untried ?nd) = mset (mv # untried nd')" using nd'(3) by simp
  from mset_eq_setD [OF mnd] mset_eq_imp_distinct_iff [OF mnd] ok
  have "mv \<in> set (legal (L n))" "mv \<notin> set (untried nd' @ arc_moves ?v n)" by (auto simp: node_ok_def)
  moreover have "search_base E tinv tview legal nxt key Q L B (m\<lparr>m_tree := t'\<rparr>)"
    using inv t'(2) lab tt(1) at nd'(4) by (auto simp: search_inv_defs t'(3) n)
  moreover have "complete_but {} legal ?v L" using inv by (simp add: search_inv_def)
  from complete_set_node_at [OF this n, of "{mv}" nd'] mset_eq_setD [OF mnd]
  have "complete_but {(n, mv)} legal (tview t') L" by (simp add: t'(3))
  moreover have "getUntriedMove E n m g = Some (mv, m\<lparr>m_tree := t'\<rparr>, g')"
    using nd'(1) t'(1) st_node_ok [OF t n] by (simp add: getUntriedMove_def)
  moreover have "same_shape E tview m (m\<lparr>m_tree := t'\<rparr>)" using t' by (simp add: same_shape_def)
  ultimately show ?thesis using at [OF n] at nd'(4) t'(3) by simp
qed

text \<open>Adding the child a move leads to: a transposition becomes an arc to the known node, a new position a new node.\<close>

lemma addChild_ok:
  assumes inv: "search_base E tinv tview legal nxt key Q L B m" and cmp: "complete_but {(n, mv)} legal (tview (m_tree m)) L" and Q: "inj_on key Q"
    and n: "is_node (tview (m_tree m)) n" and q: "pos s \<in> Q" and s: "gexact s" "pos s = nxt (L n) mv" "g_lastMove (e_game E) s = mv"
    and mv: "mv \<in> set (legal (L n))" "mv \<notin> set (untried (node_at (tview (m_tree m)) n) @ arc_moves (tview (m_tree m)) n)"
    and sz: "Suc (length (g_arcs (tview (m_tree m)))) < 2 ^ 31" "Suc (length (g_nodes (tview (m_tree m)))) < 2 ^ 31" and B: "0 \<le> B"
  shows "\<exists>a c m' L'. addChild E n s m = Some ((a, c), m') \<and> search_inv E tinv tview legal nxt key Q L' B m'
    \<and> (\<forall>k. is_node (tview (m_tree m)) k \<longrightarrow> L' k = L k \<and> is_node (tview (m_tree m')) k) \<and> is_node (tview (m_tree m')) c \<and> L' c = pos s
    \<and> m_path m' = m_path m \<and> m_path_size m' = m_path_size m \<and> st_root_node (e_tree E) (m_tree m') = st_root_node (e_tree E) (m_tree m)
    \<and> length (g_arcs (tview (m_tree m'))) = Suc (length (g_arcs (tview (m_tree m))))
    \<and> length (g_nodes (tview (m_tree m'))) \<le> Suc (length (g_nodes (tview (m_tree m))))
    \<and> (\<forall>k. outl (tview (m_tree m')) k = outl (tview (m_tree m)) k @ (if k = n then [(c, \<lparr>ad_move = mv\<rparr>)] else []))
    \<and> (\<forall>k. is_node (tview (m_tree m)) k \<longrightarrow> nd_visits (node_at (tview (m_tree m')) k) = nd_visits (node_at (tview (m_tree m)) k))"
proof -
  let ?t = "m_tree m" let ?v = "tview ?t" let ?q = "pos s" and ?d = "ArcData_state (e_game E) s"
  obtain tt where tt: "m_transposition_table m = Some tt" "labelled legal nxt key ?v tt L" and t: "tinv ?t"
    and LQ: "\<And>k. is_node ?v k \<Longrightarrow> L k \<in> Q"
    and vis: "\<And>k. is_node ?v k \<Longrightarrow> 0 \<le> nd_visits (node_at ?v k) \<and> nd_visits (node_at ?v k) \<le> B"
    using inv by (auto simp: search_base_def)
  have d: "?d = \<lparr>ad_move = mv\<rparr>" by (simp add: ArcData_state_def s(3))
  have sm: "small ?v" using sz by (simp add: small_def)
  have tok: "table_ok key ?v tt L" using tt(2) by (simp add: labelled_def)
  note look = table_lookup [OF tok Q LQ q]
  show ?thesis
  proof (cases "map_of tt (key ?q)")
    case (Some c)
    then have c: "is_node ?v c" "L c = ?q" using look by auto
    then have cv: "c \<noteq> st_invalid_node (e_tree E)" using invalid by (auto simp: is_node_def)
    obtain t' where t': "st_addArc (e_tree E) n c ?d ?t = Some (int (length (g_arcs ?v)), t')" "tinv t'" "tview t' = add_arc n c ?d ?v"
      "st_root_node (e_tree E) t' = st_root_node (e_tree E) ?t" using addArc [OF t sm, of n c ?d] n c(1) by (auto simp: is_node_def)
    have "labelled legal nxt key (tview t') tt L"
      unfolding t'(3) by (rule labelled_add_arc [OF tt(2) n c(1)]) (use c(2) s(2) mv d in auto)
    then have "search_inv E tinv tview legal nxt key Q L B (m\<lparr>m_tree := t'\<rparr>)"
      using inv t'(2) tt(1) complete_add_arc [of n ?d] cmp d by (auto simp: search_inv_defs t'(3))
    moreover have "addChild E n s m = Some ((int (length (g_arcs ?v)), c), m\<lparr>m_tree := t'\<rparr>)"
      using g_zobrist [OF g_exact [OF s(1)]] tt(1) Some cv t'(1) by (simp add: addChild_def getNode_def mcts_addArc_def)
    ultimately show ?thesis using c t' d by (intro exI [of _ "int (length (g_arcs ?v))"] exI [of _ c] exI [of _ "m\<lparr>m_tree := t'\<rparr>"] exI [of _ L]) auto
  next
    case None
    let ?N = "order_of ?v" let ?L = "L(?N := ?q)"
    obtain nd where nd: "NodeData_state (e_game E) s = Some nd" "moves_ok_data nd" "distinct (untried nd)"
      "set (untried nd) = set (legal ?q)" "nd_visits nd = 0" using NodeData_state_ok [OF s(1)] by blast
    obtain t1 where t1: "st_addNode (e_tree E) nd ?t = Some (?N, t1)" "tinv t1" "tview t1 = add_node nd ?v"
      "st_root_node (e_tree E) t1 = st_root_node (e_tree E) ?t" using addNode [OF t sm, of nd] by blast
    have sm1: "small (tview t1)" using sz by (simp add: small_def t1(3))
    have n1: "is_node (tview t1) n" "is_node (tview t1) ?N" using n by (simp_all add: t1(3) is_node_add_node)
    obtain t2 where t2: "st_addArc (e_tree E) n ?N ?d t1 = Some (int (length (g_arcs ?v)), t2)" "tinv t2" "tview t2 = add_arc n ?N ?d (tview t1)"
      "st_root_node (e_tree E) t2 = st_root_node (e_tree E) t1"
      using addArc [OF t1(2) sm1, of n ?N ?d] n1 by (auto simp: is_node_def t1(3))
    have lab1: "labelled legal nxt key (tview t1) (tt @ [(key ?q, ?N)]) ?L"
      unfolding t1(3) by (rule labelled_add_node [OF tt(2) None nd(2,3)]) (simp add: nd(4))
    have nN: "n \<noteq> ?N" using n by auto
    have lab2: "labelled legal nxt key (tview t2) (tt @ [(key ?q, ?N)]) ?L"
      unfolding t2(3)
    proof (rule labelled_add_arc [OF lab1 n1])
      show "ad_move ?d \<notin> set (untried (node_at (tview t1) n) @ arc_moves (tview t1) n)"
        using mv(2) n by (simp add: d t1(3) node_at_add_node arc_moves_def)
    qed (use s(2) mv nN in \<open>auto simp: d\<close>)
    have "complete_but {(n, ad_move ?d)} legal (tview t1) ?L"
      unfolding t1(3) by (rule complete_add_node) (use cmp nd(4) d in auto)
    then have cmp2: "complete_but {} legal (tview t2) ?L" unfolding t2(3) by (rule complete_add_arc)
    let ?m = "m\<lparr>m_tree := t2, m_transposition_table := Some (tt @ [(key ?q, ?N)])\<rparr>"
    have v2: "is_node (tview t2) k \<longleftrightarrow> is_node ?v k \<or> k = ?N" for k by (simp add: t2(3) t1(3) is_node_add_node)
    have at2: "node_at (tview t2) k = (if k = ?N then nd else node_at ?v k)" if "is_node (tview t2) k" for k
      using that by (auto simp: t2(3) t1(3) node_at_add_node is_node_add_node)
    have "search_inv E tinv tview legal nxt key Q ?L B ?m"
      using inv t2(2) lab2 cmp2 q LQ vis nd(5) B at2 by (auto simp: search_inv_defs v2)
    moreover have "addChild E n s m = Some ((int (length (g_arcs ?v)), ?N), ?m)"
      using g_zobrist [OF g_exact [OF s(1)]] tt(1) None nd(1) t1(1) t2(1) tt(1)
      by (simp add: addChild_def getNode_def mcts_addNode_def mcts_addArc_def tt_emplace_def)
    moreover have "L k = ?L k" if "is_node ?v k" for k using that by auto
    moreover have "nd_visits (node_at (tview t2) k) = nd_visits (node_at ?v k)" if "is_node ?v k" for k
      using that at2 [of k] v2 [of k] by auto
    ultimately show ?thesis
      using t1 t2 d v2
      by (intro exI [of _ "int (length (g_arcs ?v))"] exI [of _ ?N] exI [of _ ?m] exI [of _ ?L]) auto
  qed
qed


text \<open>Following an arc.\<close>

lemma out_arc_ok:
  assumes "tinv (m_tree m)" "a \<in> set (out_ids (tview (m_tree m)) n)"
  shows "\<exists>c d. arc_link E a m = Some (a, c) \<and> getMove E a m = Some (ad_move d) \<and> (c, d) \<in> set (outl (tview (m_tree m)) n)"
proof -
  let ?e = "g_arcs (tview (m_tree m)) ! nat a"
  from out_ids_range [OF assms(2)] have r: "0 \<le> a" "a < int (length (g_arcs (tview (m_tree m))))" by auto
  have "snd ?e \<in> set (outl (tview (m_tree m)) n)" using assms(2) by (auto simp: outl_out_ids)
  then show ?thesis
    using target [OF assms(1) r] arc [OF assms(1) r]
    by (intro exI [of _ "fst (snd ?e)"] exI [of _ "snd (snd ?e)"]) (simp add: arc_link_def getMove_def)
qed

lemma getUCT_ok: "tinv (m_tree m) \<Longrightarrow> is_node (tview (m_tree m)) p \<Longrightarrow> is_node (tview (m_tree m)) c \<Longrightarrow> \<exists>u. getUCTFromNode E p c m = Some u"
  by (simp add: getUCTFromNode_def st_node_ok Let_def)

lemma child_link_of:
  assumes "tinv (m_tree m)" "a \<in> set (out_ids (tview (m_tree m)) n)"
  shows "\<exists>c. arc_link E a m = Some (a, c) \<and> child_link E tview m n (a, c) \<and> is_node (tview (m_tree m)) c"
  using out_arc_ok [OF assms] outl_target [OF view_ok [OF assms(1)]] assms(2) by (auto simp: child_link_def)

lemma select_loop_ok:
  assumes "tinv (m_tree m)" "is_node (tview (m_tree m)) p" "set as \<subseteq> set (out_ids (tview (m_tree m)) p)"
    and "best \<noteq> []" "\<forall>l \<in> set best. child_link E tview m p l" "int (length best + length as) \<le> g_max_no_moves (e_game E)"
  shows "\<exists>best'. select_loop E p m as best u = Some best' \<and> best' \<noteq> [] \<and> (\<forall>l \<in> set best'. child_link E tview m p l)"
  using assms(3-)
proof (induction as arbitrary: best u)
  case (Cons a as)
  then obtain c where c: "arc_link E a m = Some (a, c)" "child_link E tview m p (a, c)" "is_node (tview (m_tree m)) c"
    using child_link_of [OF assms(1), of a p] by auto
  obtain u' where u': "getUCTFromNode E p c m = Some u'" using getUCT_ok [OF assms(1,2) c(3)] by blast
  show ?case
  proof (cases "f_gt (e_float E) u' u")
    case True
    with Cons.IH [of "[(a, c)]" u'] Cons.prems c u' show ?thesis by (auto simp: neq_Nil_conv)
  next
    case False
    with Cons.IH [of "best @ [(a, c)]" u] Cons.IH [of best u] Cons.prems c u' show ?thesis by (auto simp: static_push_def)
  qed
qed simp

lemma selectChildUCT_ok:
  assumes "tinv (m_tree m)" "is_node (tview (m_tree m)) p" "outl (tview (m_tree m)) p \<noteq> []"
    and "int (length (outl (tview (m_tree m)) p)) \<le> g_max_no_moves (e_game E)"
  shows "\<exists>l g'. selectChildUCT E p m g = Some (l, g') \<and> child_link E tview m p l"
proof -
  let ?ids = "out_ids (tview (m_tree m)) p"
  have len: "length (outl (tview (m_tree m)) p) = length ?ids" by (simp add: outl_out_ids)
  with assms(3) obtain a as where ids: "?ids = a # as" by (cases ?ids) auto
  then obtain c where c: "arc_link E a m = Some (a, c)" "child_link E tview m p (a, c)" "is_node (tview (m_tree m)) c"
    using child_link_of [OF assms(1), of a p] by auto
  obtain u where u: "getUCTFromNode E p c m = Some u" using getUCT_ok [OF assms(1,2) c(3)] by blast
  have "set as \<subseteq> set ?ids" using ids by auto
  then obtain best where best: "select_loop E p m as [(a, c)] u = Some best" "best \<noteq> []" "\<forall>l \<in> set best. child_link E tview m p l"
    using select_loop_ok [OF assms(1,2), of as "[(a, c)]" u] c(2) assms(4) len ids by auto
  have out: "st_out (e_tree E) p (m_tree m) = Some (a # as)" using out [OF assms(1)] assms(2) ids by (simp add: is_node_def)
  have push: "static_push E [] (a, c) = Some [(a, c)]" using assms(4) len ids by (simp add: static_push_def)
  obtain i g' where ig: "e_unif E 0 (int (length best) - 1) g = (i, g')" by (cases "e_unif E 0 (int (length best) - 1) g")
  have "0 \<le> i" "i < int (length best)" using unif_index [of "int (length best)" g] best(2) ig by auto
  then have "aref best i = Some (best ! nat i)" "best ! nat i \<in> set best" by (auto simp: aref_def)
  with best(1,2) ig out push c(1) u have "\<exists>l g'. selectChildUCT E p m g = Some (l, g') \<and> l \<in> set best"
    by (auto simp: selectChildUCT_def random_link_def simp del: split_paired_Ex)
  with best(3) show ?thesis by blast
qed


lemma child_link_step:
  assumes inv: "search_inv E tinv tview legal nxt key Q L B m" and n: "is_node (tview (m_tree m)) n" and l: "child_link E tview m n l"
  shows "\<exists>mv. getMove E (fst l) m = Some mv \<and> mv \<in> set (legal (L n)) \<and> L (snd l) = nxt (L n) mv \<and> is_node (tview (m_tree m)) (snd l)
    \<and> mv \<in> set (arc_moves (tview (m_tree m)) n)"
proof -
  let ?v = "tview (m_tree m)"
  have t: "tinv (m_tree m)" and lab: "\<exists>tt. labelled legal nxt key ?v tt L" using inv by (auto simp: search_inv_defs)
  then have ok: "node_ok legal nxt ?v L n" "graph_ok ?v" using n by (auto simp: labelled_def)
  from out_arc_ok [OF t, of "fst l" n] l obtain c d where cd: "l = (fst l, c)" "getMove E (fst l) m = Some (ad_move d)"
    "(c, d) \<in> set (outl ?v n)" by (auto simp: child_link_def)
  then have "ad_move d \<in> set (arc_moves ?v n)" by (force simp: arc_moves_def)
  with cd ok outl_target [OF ok(2) cd(3)] show ?thesis by (cases l) (auto simp: node_ok_def)
qed

lemma outl_length_le:
  assumes inv: "search_inv E tinv tview legal nxt key Q L B m" and n: "is_node (tview (m_tree m)) n" and s: "ginv s" "pos s = L n"
  shows "int (length (outl (tview (m_tree m)) n)) \<le> g_max_no_moves (e_game E)"
proof -
  have ok: "node_ok legal nxt (tview (m_tree m)) L n" using inv n by (auto simp: search_inv_defs labelled_def)
  let ?am = "arc_moves (tview (m_tree m)) n"
  have "distinct ?am" "set ?am \<subseteq> set (legal (L n))" using ok by (auto simp: node_ok_def)
  then have "length ?am \<le> length (legal (L n))"
    using card_mono [of "set (legal (L n))" "set ?am"] distinct_card [of ?am] card_length [of "legal (L n)"] by simp
  with g_legal [OF s(1)] s(2) show ?thesis by (simp add: arc_moves_def)
qed

text \<open>The descent ends, because every arc makes a move.\<close>

lemma select_path_ok:
  assumes "search_inv E tinv tview legal nxt key Q L B m" "is_node (tview (m_tree m)) n" "ginv s" "pos s = L n"
  shows "\<exists>n' s' p g' ls. select_path E n s m g = Some (n', s', m\<lparr>m_path := p\<rparr>, g') \<and> is_node (tview (m_tree m)) n' \<and> ginv s' \<and> pos s' = L n'
    \<and> pt_links (e_path E) p = pt_links (e_path E) (m_path m) @ ls
    \<and> (\<forall>l \<in> set ls. is_node (tview (m_tree m)) (snd l) \<and> rem (L (snd l)) < rem (L n))
    \<and> length ls + rem (L n') \<le> rem (L n)
    \<and> (nd_moves (node_at (tview (m_tree m)) n') \<noteq> None \<or> outl (tview (m_tree m)) n' = [])
    \<and> (nd_moves (node_at (tview (m_tree m)) n) \<noteq> None \<longrightarrow> n' = n)"
  using assms
proof (induction "rem (L n)" arbitrary: n s m g rule: less_induct)
  case less
  let ?v = "tview (m_tree m)"
  have t: "tinv (m_tree m)" using less.prems(1) by (simp add: search_inv_defs)
  have nu: "hasNoUntriedMoves E n m = Some (nd_moves (node_at ?v n) = None)"
    by (simp add: hasNoUntriedMoves_def st_node_ok [OF t less.prems(2)])
  have ch: "hasChildren E n m = Some (outl ?v n \<noteq> [])"
    using isInternal [OF t] less.prems(2) by (simp add: hasChildren_def is_node_def)
  show ?case
  proof (cases "nd_moves (node_at ?v n) = None \<and> outl ?v n \<noteq> []")
    case False
    then have "select_path E n s m g = Some (n, s, m, g)" using nu ch by (subst select_path.simps) auto
    moreover have "m = m\<lparr>m_path := m_path m\<rparr>" by simp
    ultimately show ?thesis using less.prems False
      by (intro exI [of _ n] exI [of _ s] exI [of _ "m_path m"] exI [of _ g] exI [of _ "[]"]) auto
  next
    case True
    have "outl ?v n \<noteq> []" using True by simp
    from selectChildUCT_ok [OF t less.prems(2) this outl_length_le [OF less.prems], of g]
    obtain l g1 where l: "selectChildUCT E n m g = Some (l, g1)" "child_link E tview m n l" by blast
    from child_link_step [OF less.prems(1,2) l(2)] obtain mv where
      mv: "getMove E (fst l) m = Some mv" "mv \<in> set (legal (L n))" "L (snd l) = nxt (L n) mv" "is_node ?v (snd l)" by blast
    from g_move_hash [OF less.prems(3), of mv] mv(2) less.prems(4) obtain s1 where
      s1: "g_move_hash (e_game E) mv s = Some s1" "ginv s1" "pos s1 = L (snd l)" "rem (L (snd l)) < rem (L n)" by (auto simp: mv(3))
    let ?m1 = "m\<lparr>m_path := pt_push (e_path E) l (m_path m)\<rparr>"
    have step: "select_path E n s m g = select_path E (snd l) s1 ?m1 g1"
      using nu ch True l(1) mv(1) s1(1) by (subst select_path.simps) simp
    have "search_inv E tinv tview legal nxt key Q L B ?m1" "is_node (tview (m_tree ?m1)) (snd l)" using less.prems(1) mv(4) by simp_all
    from less.hyps [OF s1(4) this s1(2,3), of g1] obtain n' s' p g' ls where
      r: "select_path E (snd l) s1 ?m1 g1 = Some (n', s', ?m1\<lparr>m_path := p\<rparr>, g')" "is_node ?v n'" "ginv s'" "pos s' = L n'"
      "pt_links (e_path E) p = pt_links (e_path E) (m_path ?m1) @ ls"
      "\<forall>l' \<in> set ls. is_node ?v (snd l') \<and> rem (L (snd l')) < rem (L (snd l))" "length ls + rem (L n') \<le> rem (L (snd l))"
      "nd_moves (node_at ?v n') \<noteq> None \<or> outl ?v n' = []" by auto
    have "pt_links (e_path E) p = pt_links (e_path E) (m_path m) @ (l # ls)" using r(5) push by simp
    moreover have "\<forall>l' \<in> set (l # ls). is_node ?v (snd l') \<and> rem (L (snd l')) < rem (L n)" using r(6) mv(4) s1(4) by auto
    moreover have "length (l # ls) + rem (L n') \<le> rem (L n)" using r(7) s1(4) by simp
    moreover have "select_path E n s m g = Some (n', s', m\<lparr>m_path := p\<rparr>, g')" using step r(1) by simp
    ultimately show ?thesis using r(2-4,8) True by blast
  qed
qed

end

end
