(* ===== verification/Mcts_Compute.thy ===== *)
theory Mcts_Compute
  imports Mcts_Search
begin

text \<open>
  One iteration of the search, the loop of iterations and the choice of the move: every part of \<^verbatim>\<open>compute\<close> succeeds, and the
  move it returns is a legal move of the position whenever the root has a child.
\<close>

section \<open>Growth\<close>

text \<open>\<open>m'\<close> has grown from \<open>m\<close> by at most \<open>k\<close> arcs and nodes; labels and the root are kept.\<close>

definition grown ::
  "('t, 'p, 's, 'm, 'f) mcts_env \<Rightarrow> ('t \<Rightarrow> 'm search_graph) \<Rightarrow> nat \<Rightarrow> (index_t \<Rightarrow> 'q) \<Rightarrow> ('t, 'p) mcts \<Rightarrow> (index_t \<Rightarrow> 'q) \<Rightarrow> ('t, 'p) mcts \<Rightarrow> bool" where
  "grown E tview k L m L' m' \<longleftrightarrow>
    (\<forall>n. is_node (tview (m_tree m)) n \<longrightarrow> L' n = L n \<and> is_node (tview (m_tree m')) n)
    \<and> m_path_size m' = m_path_size m \<and> st_root_node (e_tree E) (m_tree m') = st_root_node (e_tree E) (m_tree m)
    \<and> length (g_arcs (tview (m_tree m'))) \<le> length (g_arcs (tview (m_tree m))) + k
    \<and> length (g_nodes (tview (m_tree m'))) \<le> length (g_nodes (tview (m_tree m))) + k
    \<and> (\<forall>n. outl (tview (m_tree m)) n \<noteq> [] \<longrightarrow> outl (tview (m_tree m')) n \<noteq> [])"

lemma grown_trans: "grown E tview k L m L' m' \<Longrightarrow> grown E tview j L' m' L'' m'' \<Longrightarrow> grown E tview (k + j) L m L'' m''"
  unfolding grown_def by (intro conjI allI impI) (auto intro: le_trans)

lemma grown_shape: "same_shape E tview m m' \<Longrightarrow> grown E tview 0 L m L m'"
  using same_shapeD [of E tview m m'] by (simp add: grown_def)

lemma grown_path [simp]: "grown E tview k L m L' (m'\<lparr>m_path := p\<rparr>) = grown E tview k L m L' m'"
  "grown E tview k L (m\<lparr>m_path := p\<rparr>) L' m' = grown E tview k L m L' m'"
  by (simp_all add: grown_def)

lemma path_count_append:
  "pt_links (e_path E) (m_path m') = pt_links (e_path E) (m_path m) @ ls \<Longrightarrow>
    path_count E m' n = path_count E m n + int (length (filter (\<lambda>l. snd l = n) ls))"
  by (simp add: path_count_def)

text \<open>The visits of the target of an arc, and its move.\<close>

definition arc_visits :: "'m search_graph \<Rightarrow> index_t \<Rightarrow> int" where
  "arc_visits v a = nd_visits (node_at v (fst (snd (g_arcs v ! nat a))))"

definition arc_move :: "'m search_graph \<Rightarrow> index_t \<Rightarrow> 'm" where
  "arc_move v a = ad_move (snd (snd (g_arcs v ! nat a)))"

text \<open>\<open>mv\<close> is the move of an arc of \<open>as\<close> with the most visits above \<open>bv\<close>, or \<open>bm\<close> when there is none.\<close>

definition best_of :: "'m search_graph \<Rightarrow> index_t list \<Rightarrow> int \<Rightarrow> 'm \<Rightarrow> 'm \<Rightarrow> bool" where
  "best_of v as bv bm mv \<longleftrightarrow>
    (if \<forall>a \<in> set as. arc_visits v a \<le> bv then mv = bm
     else \<exists>a \<in> set as. mv = arc_move v a \<and> arc_visits v a > bv \<and> (\<forall>a' \<in> set as. arc_visits v a' \<le> arc_visits v a))"

lemma best_of_Cons:
  "arc_visits v a > bv \<Longrightarrow> best_of v as (arc_visits v a) (arc_move v a) mv \<Longrightarrow> best_of v (a # as) bv bm mv"
  "\<not> arc_visits v a > bv \<Longrightarrow> best_of v as bv bm mv \<Longrightarrow> best_of v (a # as) bv bm mv"
  by (auto simp: best_of_def split: if_splits)

text \<open>The move \<^verbatim>\<open>getBestMove\<close> promises: that of a most visited child, or none without children.\<close>

definition most_visited :: "'m search_graph \<Rightarrow> index_t \<Rightarrow> 'm \<Rightarrow> 'm \<Rightarrow> bool" where
  "most_visited v r none mv \<longleftrightarrow>
    (if outl v r = [] then mv = none
     else \<exists>(c, d) \<in> set (outl v r). mv = ad_move d \<and> (\<forall>(c', d') \<in> set (outl v r). nd_visits (node_at v c') \<le> nd_visits (node_at v c)))"

lemma most_visitedI:
  assumes "best_of v (out_ids v r) bv none mv" "\<And>a. a \<in> set (out_ids v r) \<Longrightarrow> bv < arc_visits v a"
  shows "most_visited v r none mv"
proof (cases "out_ids v r = []")
  case True
  with assms(1) show ?thesis by (simp add: best_of_def most_visited_def outl_out_ids)
next
  case False
  then have "\<not> (\<forall>a \<in> set (out_ids v r). arc_visits v a \<le> bv)" using assms(2) by (meson last_in_set leD)
  with assms(1) have "\<exists>a \<in> set (out_ids v r). mv = arc_move v a \<and> (\<forall>a' \<in> set (out_ids v r). arc_visits v a' \<le> arc_visits v a)"
    unfolding best_of_def by (metis (no_types, lifting))
  with False show ?thesis
    by (auto simp: most_visited_def outl_out_ids arc_move_def arc_visits_def split_def)
qed

lemma suc_times:
  fixes K :: int
  shows "0 \<le> K \<Longrightarrow> B + K \<le> B + int (Suc k) * K" "B + K + int k * K = B + int (Suc k) * K"
  by (simp_all add: algebra_simps)

section \<open>The states a search looks up\<close>

text \<open>
  The transposition table identifies a position with its key. What the search needs of the keys is that positions it looks up in one table have different keys: the position it
  starts from, and in every iteration the one that the expansion arrives at. \<open>expand_state\<close> and \<open>looked_up_state\<close> repeat the code of an iteration up to that look-up;
  \<open>compute_states\<close> collects the states of a whole call, at most one for each iteration and the initial one.
\<close>

definition expand_state :: "('t, 'p, 's, 'm, 'f) mcts_env \<Rightarrow> index_t \<Rightarrow> 's \<Rightarrow> ('t, 'p) mcts \<Rightarrow> splitmix \<Rightarrow> 's option" where
  "expand_state E n s m g = do {
     untried \<leftarrow> hasUntriedMoves E n m;
     if untried then do { (mv, m, g) \<leftarrow> getUntriedMove E n m g; g_move_hash_winner (e_game E) mv s } else None }"

definition looked_up_state :: "('t, 'p, 's, 'm, 'f) mcts_env \<Rightarrow> 's \<Rightarrow> ('t, 'p) mcts \<Rightarrow> splitmix \<Rightarrow> 's option" where
  "looked_up_state E state m g = do {
     (n, s, m, g) \<leftarrow> select_path E (st_root_node (e_tree E) (m_tree m)) state m g;
     expand_state E n s m g }"

fun looked_up :: "('t, 'p, 's, 'm, 'f) mcts_env \<Rightarrow> nat \<Rightarrow> 's \<Rightarrow> ('t, 'p) mcts \<Rightarrow> splitmix \<Rightarrow> 's set" where
  "looked_up E 0 state m g = {}"
| "looked_up E (Suc k) state m g = set_option (looked_up_state E state m g) \<union>
    (case compute_iteration E state m g of None \<Rightarrow> {} | Some (m, g) \<Rightarrow> looked_up E k state m g)"

definition compute_states :: "('t, 'p, 's, 'm, 'f) mcts_env \<Rightarrow> 's \<Rightarrow> nat \<Rightarrow> ('t, 'p) mcts \<Rightarrow> splitmix \<Rightarrow> 's set" where
  "compute_states E state k m g = insert state
    (case (if m_not_initialized m then mcts_initialize E state m else connectStatesPath E state m) of
       None \<Rightarrow> {} | Some m \<Rightarrow> looked_up E k state m g)"

lemma card_looked_up:
  fixes E :: "('t, 'p, 's, 'm, 'f) mcts_env"
  shows "finite (looked_up E k state m g) \<and> card (looked_up E k state m g) \<le> k"
proof (induction k arbitrary: m g)
  case (Suc k)
  have o: "finite (set_option x) \<and> card (set_option x) \<le> 1" for x :: "'s option" by (cases x) simp_all
  show ?case
  proof (cases "compute_iteration E state m g")
    case None
    with o [of "looked_up_state E state m g"] show ?thesis by simp
  next
    case (Some mg)
    obtain m' g' where mg: "mg = (m', g')" by (cases mg)
    with Some o [of "looked_up_state E state m g"] Suc [of m' g'] card_Un_le [of "set_option (looked_up_state E state m g)" "looked_up E k state m' g'"]
    show ?thesis by simp
  qed
qed simp

lemma card_compute_states: "finite (compute_states E state k m g) \<and> card (compute_states E state k m g) \<le> Suc k"
  using card_looked_up [of E k state] by (auto simp: compute_states_def card_insert_if split: option.splits intro: le_SucI)

context mcts_setup
begin

section \<open>One iteration\<close>

lemma expand_state_next:
  assumes inv: "search_inv E tinv tview legal nxt key Q L B m" and n: "is_node (tview (m_tree m)) n" and s: "ginv s" "pos s = L n"
    and e: "expand_state E n s m g = Some s'"
  shows "\<exists>q \<in> Q. \<exists>mv \<in> set (legal q). pos s' = nxt q mv"
proof -
  have t: "tinv (m_tree m)" "L n \<in> Q" using inv n by (simp_all add: search_inv_defs)
  from e obtain mv m1 g1 where u: "nd_moves (node_at (tview (m_tree m)) n) \<noteq> None" "getUntriedMove E n m g = Some (mv, m1, g1)"
    "g_move_hash_winner (e_game E) mv s = Some s'"
    by (auto simp: expand_state_def hasUntriedMoves_def st_node_ok [OF t(1) n] bind_eq_Some_conv split: if_splits)
  from getUntriedMove_ok [OF inv n u(1), of g] u(2) have mv: "mv \<in> set (legal (pos s))" by (auto simp: s(2))
  from g_move_hash_winner [OF s(1) mv] u(3) have "pos s' = nxt (pos s) mv" by auto
  with mv t(2) s(2) show ?thesis by auto
qed

lemma expand_ok:
  assumes inv: "search_inv E tinv tview legal nxt key Q L B m" and Q: "inj_on key Q" "pos ` set_option (expand_state E n s m g) \<subseteq> Q"
    and n: "is_node (tview (m_tree m)) n" and s: "ginv s" "pos s = L n" and B: "0 \<le> B"
    and sz: "Suc (length (g_arcs (tview (m_tree m)))) < 2 ^ 31" "Suc (length (g_nodes (tview (m_tree m)))) < 2 ^ 31"
  shows "\<exists>s' m' g' L' ls. expand E n s m g = Some (s', m', g') \<and> search_inv E tinv tview legal nxt key Q L' B m' \<and> ginv s'
    \<and> grown E tview 1 L m L' m' \<and> pt_links (e_path E) (m_path m') = pt_links (e_path E) (m_path m) @ ls \<and> length ls \<le> 1
    \<and> (\<forall>l \<in> set ls. is_node (tview (m_tree m')) (snd l) \<and> rem (L' (snd l)) < rem (L n))
    \<and> (nd_moves (node_at (tview (m_tree m)) n) \<noteq> None \<longrightarrow> outl (tview (m_tree m')) n \<noteq> [])
    \<and> (\<forall>k. is_node (tview (m_tree m)) k \<longrightarrow> nd_visits (node_at (tview (m_tree m')) k) = nd_visits (node_at (tview (m_tree m)) k))"
proof -
  let ?v = "tview (m_tree m)"
  have t: "tinv (m_tree m)" using inv by (simp add: search_inv_defs)
  have hu: "hasUntriedMoves E n m = Some (nd_moves (node_at ?v n) \<noteq> None)"
    by (simp add: hasUntriedMoves_def st_node_ok [OF t n])
  show ?thesis
  proof (cases "nd_moves (node_at ?v n) = None")
    case True
    then have "expand E n s m g = Some (s, m, g)" using hu by (simp add: expand_def)
    moreover have "grown E tview 1 L m L m" by (simp add: grown_def)
    ultimately show ?thesis using True inv s(1)
      by (intro exI [of _ s] exI [of _ m] exI [of _ g] exI [of _ L] exI [of _ "[]"]) simp
  next
    case False
    from getUntriedMove_ok [OF inv n False, of g] obtain mv m1 g1 where
      m1: "getUntriedMove E n m g = Some (mv, m1, g1)" "search_base E tinv tview legal nxt key Q L B m1" "same_shape E tview m m1"
      "mv \<in> set (legal (L n))" "mv \<notin> set (untried (node_at (tview (m_tree m1)) n) @ arc_moves (tview (m_tree m1)) n)"
      "\<forall>k. is_node ?v k \<longrightarrow> nd_visits (node_at (tview (m_tree m1)) k) = nd_visits (node_at ?v k)"
      and cmp: "complete_but {(n, mv)} legal (tview (m_tree m1)) L" by blast
    note sh = same_shapeD [OF m1(3)]
    have "mv \<in> set (legal (pos s))" using m1(4) s(2) by simp
    from g_move_hash_winner [OF s(1) this, unfolded s(2)] obtain s1 where
      s1: "g_move_hash_winner (e_game E) mv s = Some s1" "gexact s1" "pos s1 = nxt (L n) mv" "rem (pos s1) < rem (L n)"
      "g_lastMove (e_game E) s1 = mv" by blast
    have sz1: "Suc (length (g_arcs (tview (m_tree m1)))) < 2 ^ 31" "Suc (length (g_nodes (tview (m_tree m1)))) < 2 ^ 31"
      using sz sh(6,7) by simp_all
    have n1: "is_node (tview (m_tree m1)) n" using n sh by simp
    have q1: "pos s1 \<in> Q" using Q(2) hu False m1(1) s1(1) by (simp add: expand_state_def)
    from addChild_ok [OF m1(2) cmp Q(1) n1 q1 s1(2,3,5) m1(4,5) sz1 B] obtain a c m2 L' where
      m2: "addChild E n s1 m1 = Some ((a, c), m2)" "search_inv E tinv tview legal nxt key Q L' B m2"
      "\<forall>k. is_node (tview (m_tree m1)) k \<longrightarrow> L' k = L k \<and> is_node (tview (m_tree m2)) k" "is_node (tview (m_tree m2)) c" "L' c = pos s1"
      "m_path m2 = m_path m1" "m_path_size m2 = m_path_size m1" "st_root_node (e_tree E) (m_tree m2) = st_root_node (e_tree E) (m_tree m1)"
      "length (g_arcs (tview (m_tree m2))) = Suc (length (g_arcs (tview (m_tree m1))))"
      "length (g_nodes (tview (m_tree m2))) \<le> Suc (length (g_nodes (tview (m_tree m1))))"
      "\<forall>k. outl (tview (m_tree m2)) k = outl (tview (m_tree m1)) k @ (if k = n then [(c, \<lparr>ad_move = mv\<rparr>)] else [])"
      "\<forall>k. is_node (tview (m_tree m1)) k \<longrightarrow> nd_visits (node_at (tview (m_tree m2)) k) = nd_visits (node_at (tview (m_tree m1)) k)"
      by blast
    let ?m' = "m2\<lparr>m_path := pt_push (e_path E) (a, c) (m_path m2)\<rparr>"
    have "expand E n s m g = Some (s1, ?m', g1)" using hu False m1(1) s1(1) m2(1) by (simp add: expand_def)
    moreover have "grown E tview 1 L m L' ?m'" using m2(3,7-11) sh by (simp add: grown_def)
    moreover have "pt_links (e_path E) (m_path ?m') = pt_links (e_path E) (m_path m) @ [(a, c)]" using push m2(6) sh(3) by simp
    moreover have "\<forall>l \<in> set [(a, c)]. is_node (tview (m_tree ?m')) (snd l) \<and> rem (L' (snd l)) < rem (L n)" using m2(4,5) s1(4) by simp
    moreover have "outl (tview (m_tree ?m')) n \<noteq> []" using m2(11) by simp
    moreover have "\<forall>k. is_node ?v k \<longrightarrow> nd_visits (node_at (tview (m_tree ?m')) k) = nd_visits (node_at ?v k)"
      using m1(6) m2(12) sh(1) by simp
    moreover have "search_inv E tinv tview legal nxt key Q L' B ?m'" using m2(2) by simp
    ultimately show ?thesis using g_exact [OF s1(2)] by (intro exI [of _ s1] exI [of _ ?m'] exI [of _ g1] exI [of _ L'] exI [of _ "[(a, c)]"]) auto
  qed
qed

text \<open>An iteration lengthens the path by at most the number of moves to come and one, updates each of its nodes three times,
  and cuts the path back.\<close>

lemma compute_iteration_ok:
  assumes inv: "search_inv E tinv tview legal nxt key Q L B m" and Q: "inj_on key Q" "pos ` set_option (looked_up_state E state m g) \<subseteq> Q" and B: "0 \<le> B"
    and s: "ginv state" "pos state = L (st_root_node (e_tree E) (m_tree m))"
    and p: "path_ok E tview m" "m_path_size m = int (length (pt_links (e_path E) (m_path m)))"
    and sz: "Suc (length (g_arcs (tview (m_tree m)))) < 2 ^ 31" "Suc (length (g_nodes (tview (m_tree m)))) < 2 ^ 31"
    and BK: "B + 3 * (m_path_size m + int (rem (pos state)) + 1) < 2 ^ 31"
  shows "\<exists>m' g' L'. compute_iteration E state m g = Some (m', g')
    \<and> search_inv E tinv tview legal nxt key Q L' (B + 3 * (m_path_size m + int (rem (pos state)) + 1)) m' \<and> grown E tview 1 L m L' m'
    \<and> pt_links (e_path E) (m_path m') = pt_links (e_path E) (m_path m) \<and> path_ok E tview m'
    \<and> (nd_moves (node_at (tview (m_tree m)) (st_root_node (e_tree E) (m_tree m))) \<noteq> None \<longrightarrow>
         outl (tview (m_tree m')) (st_root_node (e_tree E) (m_tree m)) \<noteq> [])
    \<and> nd_visits (node_at (tview (m_tree m')) (st_root_node (e_tree E) (m_tree m)))
        = nd_visits (node_at (tview (m_tree m)) (st_root_node (e_tree E) (m_tree m))) + 3 * path_count E m (st_root_node (e_tree E) (m_tree m))"
proof -
  let ?v = "tview (m_tree m)" and ?r = "st_root_node (e_tree E) (m_tree m)" and ?P = "\<lambda>m. pt_links (e_path E) (m_path m)"
  have t: "tinv (m_tree m)" using inv by (simp add: search_inv_defs)
  note r = root_is_node [OF t]
  from select_path_ok [OF inv r s(1,2), of g] obtain n s1 p1 g1 ls where
    sel: "select_path E ?r state m g = Some (n, s1, m\<lparr>m_path := p1\<rparr>, g1)" "is_node ?v n" "ginv s1" "pos s1 = L n"
    "pt_links (e_path E) p1 = ?P m @ ls" "\<forall>l \<in> set ls. is_node ?v (snd l) \<and> rem (L (snd l)) < rem (L ?r)"
    "length ls + rem (L n) \<le> rem (L ?r)" "nd_moves (node_at ?v ?r) \<noteq> None \<longrightarrow> n = ?r" by blast
  let ?m1 = "m\<lparr>m_path := p1\<rparr>"
  have i1: "search_inv E tinv tview legal nxt key Q L B ?m1" "is_node (tview (m_tree ?m1)) n" using inv sel(2) by simp_all
  have q1: "pos ` set_option (expand_state E n s1 ?m1 g1) \<subseteq> Q" using Q(2) sel(1) by (simp add: looked_up_state_def)
  from expand_ok [OF i1(1) Q(1) q1 i1(2) sel(3,4) B] sz obtain s2 m2 g2 L' ls' where
    ex: "expand E n s1 ?m1 g1 = Some (s2, m2, g2)" "search_inv E tinv tview legal nxt key Q L' B m2" "ginv s2" "grown E tview 1 L m L' m2"
    "?P m2 = ?P ?m1 @ ls'" "length ls' \<le> 1" "\<forall>l \<in> set ls'. is_node (tview (m_tree m2)) (snd l) \<and> rem (L' (snd l)) < rem (L n)"
    "nd_moves (node_at ?v n) \<noteq> None \<longrightarrow> outl (tview (m_tree m2)) n \<noteq> []"
    "\<forall>k. is_node ?v k \<longrightarrow> nd_visits (node_at (tview (m_tree m2)) k) = nd_visits (node_at ?v k)" by auto
  have P2: "?P m2 = ?P m @ (ls @ ls')" using ex(5) sel(5) by simp
  have len: "int (length (?P m2)) \<le> m_path_size m + int (rem (pos state)) + 1"
    using P2 p(2) ex(6) sel(7) s(2) by simp
  then have B3: "B + 3 * int (length (?P m2)) \<le> B + 3 * (m_path_size m + int (rem (pos state)) + 1)" by simp
  have po2: "path_ok E tview m2"
    using p(1) ex(4,7) sel(6) unfolding path_ok_def P2 by (auto simp: grown_def)
  from playouts_ok [OF ex(2) po2 ex(3), of 3 g2] B3 BK obtain m3 g3 where
    pl: "playouts E 3 s2 m2 g2 = Some (m3, g3)" "search_inv E tinv tview legal nxt key Q L' (B + 3 * int (length (?P m2))) m3"
    "same_shape E tview m2 m3" "\<forall>k. is_node (tview (m_tree m2)) k \<longrightarrow> nd_visits (node_at (tview (m_tree m3)) k)
         = nd_visits (node_at (tview (m_tree m2)) k) + 3 * path_count E m2 k" by auto
  note sh = same_shapeD [OF pl(3)]
  have ps: "m_path_size m3 = m_path_size m" using sh(4) ex(4) by (simp add: grown_def)
  have "nat (m_path_size m3) \<le> length (?P m3)" using ps p(2) P2 sh(3) by simp
  from resize [OF this] obtain p4 where p4: "pt_resize (e_path E) (nat (m_path_size m3)) (m_path m3) = Some p4"
    "pt_links (e_path E) p4 = ?P m" using P2 ps p(2) sh(3) by auto
  let ?m' = "m3\<lparr>m_path := p4\<rparr>"
  have "compute_iteration E state m g = Some (?m', g3)"
    using sel(1) ex(1) pl(1) p4(1) by (simp add: compute_iteration_def)
  moreover have "search_inv E tinv tview legal nxt key Q L' (B + 3 * (m_path_size m + int (rem (pos state)) + 1)) ?m'"
    using search_inv_mono [OF pl(2) B3] by simp
  moreover have gr: "grown E tview 1 L m L' ?m'" using grown_trans [OF ex(4) grown_shape [OF pl(3)]] by simp
  moreover have "path_ok E tview ?m'" using p(1) gr p4(2) by (auto simp: path_ok_def grown_def)
  moreover have "nd_moves (node_at ?v ?r) \<noteq> None \<longrightarrow> outl (tview (m_tree ?m')) ?r \<noteq> []" using sel(8) ex(8) sh(2) by auto
  moreover have "nd_visits (node_at (tview (m_tree ?m')) ?r) = nd_visits (node_at ?v ?r) + 3 * path_count E m ?r"
  proof -
    have r2: "is_node (tview (m_tree m2)) ?r" "L' ?r = L ?r" using r ex(4) by (auto simp: grown_def)
    have "snd l \<noteq> ?r" if "l \<in> set (ls @ ls')" for l
    proof
      assume eq: "snd l = ?r"
      from that consider "l \<in> set ls" | "l \<in> set ls'" by auto
      then show False
      proof cases
        case 1
        with sel(6) eq show False by force
      next
        case 2
        with ex(7) sel(7) eq r2(2) show False by force
      qed
    qed
    then have "path_count E m2 ?r = path_count E m ?r"
      using path_count_append [OF P2, of ?r] by (simp add: filter_empty_conv)
    with pl(4) r2(1) ex(9) r show ?thesis by simp
  qed
  ultimately show ?thesis using p4(2) by (intro exI [of _ ?m'] exI [of _ g3] exI [of _ L']) simp
qed


section \<open>The loop\<close>

lemma compute_loop_ok:
  assumes "search_inv E tinv tview legal nxt key Q L B m" and Q: "inj_on key Q" and "pos ` looked_up E k state m g \<subseteq> Q" and "0 \<le> B"
    and s: "ginv state" and "pos state = L (st_root_node (e_tree E) (m_tree m))"
    and "path_ok E tview m" "m_path_size m = int (length (pt_links (e_path E) (m_path m)))"
    and "length (g_arcs (tview (m_tree m))) + k < 2 ^ 31" "length (g_nodes (tview (m_tree m))) + k < 2 ^ 31"
    and "B + int k * (3 * (m_path_size m + int (rem (pos state)) + 1)) < 2 ^ 31"
  shows "\<exists>m' g' L'. compute_loop E k state m g = Some (m', g')
    \<and> search_inv E tinv tview legal nxt key Q L' (B + int k * (3 * (m_path_size m + int (rem (pos state)) + 1))) m' \<and> grown E tview k L m L' m'
    \<and> pt_links (e_path E) (m_path m') = pt_links (e_path E) (m_path m) \<and> path_ok E tview m'
    \<and> (0 < k \<and> nd_moves (node_at (tview (m_tree m)) (st_root_node (e_tree E) (m_tree m))) \<noteq> None \<longrightarrow>
         outl (tview (m_tree m')) (st_root_node (e_tree E) (m_tree m)) \<noteq> [])
    \<and> nd_visits (node_at (tview (m_tree m')) (st_root_node (e_tree E) (m_tree m)))
        = nd_visits (node_at (tview (m_tree m)) (st_root_node (e_tree E) (m_tree m)))
          + 3 * int k * path_count E m (st_root_node (e_tree E) (m_tree m))"
  using assms(1,3,4,6-)
proof (induction k arbitrary: m L B g)
  case 0
  then show ?case by (intro exI [of _ m] exI [of _ g] exI [of _ L]) (simp add: grown_def)
next
  case (Suc k)
  let ?r = "st_root_node (e_tree E) (m_tree m)" and ?K = "3 * (m_path_size m + int (rem (pos state)) + 1)"
  have K: "0 \<le> ?K" using Suc.prems(6) by simp
  have BK: "B + ?K < 2 ^ 31" using suc_times(1) [OF K, of B k] Suc.prems(9) by linarith
  have sz: "Suc (length (g_arcs (tview (m_tree m)))) < 2 ^ 31" "Suc (length (g_nodes (tview (m_tree m)))) < 2 ^ 31"
    using Suc.prems(7,8) by simp_all
  have q: "pos ` set_option (looked_up_state E state m g) \<subseteq> Q" using Suc.prems(2) by auto
  from compute_iteration_ok [OF Suc.prems(1) Q q Suc.prems(3) s Suc.prems(4-6) sz BK] obtain m1 g1 L1 where
    m1: "compute_iteration E state m g = Some (m1, g1)" "search_inv E tinv tview legal nxt key Q L1 (B + ?K) m1" "grown E tview 1 L m L1 m1"
    "pt_links (e_path E) (m_path m1) = pt_links (e_path E) (m_path m)" "path_ok E tview m1"
    "nd_moves (node_at (tview (m_tree m)) ?r) \<noteq> None \<longrightarrow> outl (tview (m_tree m1)) ?r \<noteq> []"
    "nd_visits (node_at (tview (m_tree m1)) ?r) = nd_visits (node_at (tview (m_tree m)) ?r) + 3 * path_count E m ?r" by blast
  note gr = m1(3) [unfolded grown_def]
  have r: "is_node (tview (m_tree m)) ?r" using Suc.prems(1) root_is_node by (auto simp: search_inv_defs)
  have r1: "st_root_node (e_tree E) (m_tree m1) = ?r" "m_path_size m1 = m_path_size m" "L1 ?r = L ?r" using gr r by auto
  have pc: "path_count E m1 ?r = path_count E m ?r" using m1(4) by (simp add: path_count_def)
  have sz1: "length (g_arcs (tview (m_tree m1))) + k < 2 ^ 31" "length (g_nodes (tview (m_tree m1))) + k < 2 ^ 31"
    using Suc.prems(7,8) gr by linarith+
  have Bk: "B + ?K + int k * ?K = B + int (Suc k) * ?K" by (rule suc_times(2))
  have B0: "0 \<le> B + ?K" using Suc.prems(3) K by simp
  have q1: "pos ` looked_up E k state m1 g1 \<subseteq> Q" using Suc.prems(2) m1(1) by auto
  from Suc.IH [OF m1(2) q1 B0, unfolded r1] Suc.prems(4,6,9) m1(4,5) sz1 r1(3) obtain m2 g2 L2 where
    m2: "compute_loop E k state m1 g1 = Some (m2, g2)" "search_inv E tinv tview legal nxt key Q L2 (B + int (Suc k) * ?K) m2"
    "grown E tview k L1 m1 L2 m2" "pt_links (e_path E) (m_path m2) = pt_links (e_path E) (m_path m1)" "path_ok E tview m2"
    "nd_visits (node_at (tview (m_tree m2)) ?r) = nd_visits (node_at (tview (m_tree m1)) ?r) + 3 * int k * path_count E m1 ?r"
    unfolding Bk by auto
  have g2: "grown E tview (Suc k) L m L2 m2" using grown_trans [OF m1(3) m2(3)] by simp
  have "compute_loop E (Suc k) state m g = Some (m2, g2)" using m1(1) m2(1) by simp
  moreover have "nd_moves (node_at (tview (m_tree m)) ?r) \<noteq> None \<longrightarrow> outl (tview (m_tree m2)) ?r \<noteq> []"
    using m1(6) m2(3) by (auto simp: grown_def)
  moreover have "nd_visits (node_at (tview (m_tree m2)) ?r) = nd_visits (node_at (tview (m_tree m)) ?r) + 3 * int (Suc k) * path_count E m ?r"
    using m1(7) m2(6) pc by (simp add: algebra_simps)
  ultimately show ?case using m2(2,4,5) m1(4) g2 by (intro exI [of _ m2] exI [of _ g2] exI [of _ L2]) simp
qed

section \<open>The choice of the move\<close>

lemma best_move_loop_ok:
  assumes "tinv (m_tree m)" "set as \<subseteq> set (out_ids (tview (m_tree m)) n)" "pt_links (e_path E) (m_path m) \<noteq> []"
  shows "\<exists>mv p. best_move_loop E as bv bm m = Some (mv, m\<lparr>m_path := p\<rparr>) \<and> pt_links (e_path E) p \<noteq> []
    \<and> best_of (tview (m_tree m)) as bv bm mv"
  using assms
proof (induction as arbitrary: bv bm m)
  case Nil
  have "m = m\<lparr>m_path := m_path m\<rparr>" by simp
  with Nil show ?case by (intro exI [of _ bm] exI [of _ "m_path m"]) (simp add: best_of_def)
next
  case (Cons a as)
  let ?v = "tview (m_tree m)" let ?e = "g_arcs ?v ! nat a"
  have a: "a \<in> set (out_ids ?v n)" using Cons.prems(2) by simp
  from out_ids_range [OF a] have r: "0 \<le> a" "a < int (length (g_arcs ?v))" by auto
  have l: "arc_link E a m = Some (a, fst (snd ?e))" "getMove E a m = Some (arc_move ?v a)"
    using target [OF Cons.prems(1) r] arc [OF Cons.prems(1) r] by (simp_all add: arc_link_def getMove_def arc_move_def)
  have c: "is_node ?v (fst (snd ?e))"
    using child_link_of [OF Cons.prems(1) a] l(1) by auto
  note nd = st_node_ok [OF Cons.prems(1) c]
  show ?case
  proof (cases "arc_visits ?v a > bv")
    case True
    from set_back [OF Cons.prems(3), of "(a, fst (snd ?e))"] obtain p where
      p: "pt_set_back (e_path E) (a, fst (snd ?e)) (m_path m) = Some p" "pt_links (e_path E) p \<noteq> []" by auto
    let ?m = "m\<lparr>m_path := p\<rparr>"
    have "best_move_loop E (a # as) bv bm m = best_move_loop E as (arc_visits ?v a) (arc_move ?v a) ?m"
      using l nd p(1) True by (simp add: arc_visits_def)
    with Cons.IH [of ?m "arc_visits ?v a" "arc_move ?v a"] Cons.prems p(2) best_of_Cons(1) [OF True] show ?thesis by auto
  next
    case False
    have "best_move_loop E (a # as) bv bm m = best_move_loop E as bv bm m"
      using l nd False by (simp add: arc_visits_def)
    with Cons.IH [of m bv bm] Cons.prems best_of_Cons(2) [OF False] show ?thesis by auto
  qed
qed

text \<open>With non-negative visit counts the most visited child is found.\<close>

lemma getBestMove_ok:
  assumes inv: "search_inv E tinv tview legal nxt key Q L B m"
  shows "\<exists>mv p. getBestMove E m = Some (mv, m\<lparr>m_path := p, m_path_size := m_path_size m + 1\<rparr>)
    \<and> most_visited (tview (m_tree m)) (st_root_node (e_tree E) (m_tree m)) (g_none (e_game E)) mv"
proof -
  let ?r = "st_root_node (e_tree E) (m_tree m)" let ?v = "tview (m_tree m)" let ?as = "out_ids ?v ?r"
  let ?l = "(st_invalid_arc (e_tree E), st_invalid_node (e_tree E))"
  let ?m = "m\<lparr>m_path := pt_push (e_path E) ?l (m_path m), m_path_size := m_path_size m + 1\<rparr>"
  have t: "tinv (m_tree m)" and vis: "\<And>n. is_node ?v n \<Longrightarrow> 0 \<le> nd_visits (node_at ?v n)" using inv by (auto simp: search_inv_defs)
  have o: "st_out (e_tree E) ?r (m_tree m) = Some ?as" using out [OF t] root_range [OF t] by simp
  obtain mv p where b: "best_move_loop E ?as (- (2 ^ 31)) (g_none (e_game E)) ?m = Some (mv, ?m\<lparr>m_path := p\<rparr>)"
    "best_of ?v ?as (- (2 ^ 31)) (g_none (e_game E)) mv"
    using best_move_loop_ok [of ?m ?as ?r "- (2 ^ 31)" "g_none (e_game E)"] t push by auto
  have pos: "arc_visits ?v a > - (2 ^ 31)" if "a \<in> set ?as" for a
  proof -
    have "is_node ?v (fst (snd (g_arcs ?v ! nat a)))"
      using child_link_of [OF t that] target [OF t, of a] out_ids_range [OF that] by (auto simp: arc_link_def)
    from vis [OF this] show ?thesis by (simp add: arc_visits_def)
  qed
  have "getBestMove E m = Some (mv, m\<lparr>m_path := p, m_path_size := m_path_size m + 1\<rparr>)"
    using o b(1) by (simp add: getBestMove_def Let_def)
  moreover have "most_visited ?v ?r (g_none (e_game E)) mv" by (rule most_visitedI [OF b(2) pos])
  ultimately show ?thesis by blast
qed


section \<open>The whole computation\<close>

text \<open>What a call returns: the invariant, the position of the root, a most visited move, the visits of the root, and room for
  the next call.\<close>

definition computed ::
  "'q set \<Rightarrow> 's \<Rightarrow> nat \<Rightarrow> int \<Rightarrow> ('t, 'p) mcts \<Rightarrow> 'm \<Rightarrow> ('t, 'p) mcts \<Rightarrow> bool" where
  "computed Q s k B m mv m' \<longleftrightarrow> (\<exists>L'.
     search_inv E tinv tview legal nxt key Q L' (B + int k * (3 * (m_path_size m + int (rem (pos s)) + 1))) m'
     \<and> L' (st_root_node (e_tree E) (m_tree m')) = pos s
     \<and> most_visited (tview (m_tree m')) (st_root_node (e_tree E) (m_tree m')) (g_none (e_game E)) mv
     \<and> (outl (tview (m_tree m')) (st_root_node (e_tree E) (m_tree m')) \<noteq> [] \<longrightarrow> mv \<in> set (legal (pos s)))
     \<and> length (g_arcs (tview (m_tree m'))) \<le> length (g_arcs (tview (m_tree m))) + k
     \<and> length (g_nodes (tview (m_tree m'))) \<le> length (g_nodes (tview (m_tree m))) + k)"

lemma compute_rest_ok:
  assumes inv: "search_inv E tinv tview legal nxt key Q L B m" and Q: "inj_on key Q" "pos ` looked_up E k state m g \<subseteq> Q" and B: "0 \<le> B"
    and s: "ginv state" "pos state = L (st_root_node (e_tree E) (m_tree m))"
    and p: "path_ok E tview m" "m_path_size m = int (length (pt_links (e_path E) (m_path m)))"
    and sz: "length (g_arcs (tview (m_tree m))) + k < 2 ^ 31" "length (g_nodes (tview (m_tree m))) + k < 2 ^ 31"
      "B + int k * (3 * (m_path_size m + int (rem (pos state)) + 1)) < 2 ^ 31"
  shows "\<exists>mv m1 m' g'. compute_loop E k state m g = Some (m1, g') \<and> getBestMove E m1 = Some (mv, m') \<and> computed Q state k B m mv m'
    \<and> st_root_node (e_tree E) (m_tree m') = st_root_node (e_tree E) (m_tree m)
    \<and> (0 < k \<and> legal (pos state) \<noteq> [] \<longrightarrow> mv \<in> set (legal (pos state)))
    \<and> nd_visits (node_at (tview (m_tree m')) (st_root_node (e_tree E) (m_tree m')))
        = nd_visits (node_at (tview (m_tree m)) (st_root_node (e_tree E) (m_tree m)))
          + 3 * int k * path_count E m (st_root_node (e_tree E) (m_tree m))"
proof -
  let ?r = "st_root_node (e_tree E) (m_tree m)"
  from compute_loop_ok [OF inv Q B s p sz] obtain m1 g1 L1 where
    m1: "compute_loop E k state m g = Some (m1, g1)"
    "search_inv E tinv tview legal nxt key Q L1 (B + int k * (3 * (m_path_size m + int (rem (pos state)) + 1))) m1" "grown E tview k L m L1 m1"
    "0 < k \<and> nd_moves (node_at (tview (m_tree m)) ?r) \<noteq> None \<longrightarrow> outl (tview (m_tree m1)) ?r \<noteq> []"
    "nd_visits (node_at (tview (m_tree m1)) ?r) = nd_visits (node_at (tview (m_tree m)) ?r) + 3 * int k * path_count E m ?r" by blast
  from getBestMove_ok [OF m1(2)] obtain mv p' where
    b: "getBestMove E m1 = Some (mv, m1\<lparr>m_path := p', m_path_size := m_path_size m1 + 1\<rparr>)"
    "most_visited (tview (m_tree m1)) (st_root_node (e_tree E) (m_tree m1)) (g_none (e_game E)) mv" by blast
  let ?m' = "m1\<lparr>m_path := p', m_path_size := m_path_size m1 + 1\<rparr>"
  have r: "is_node (tview (m_tree m)) ?r" using inv root_is_node by (auto simp: search_inv_defs)
  have r1: "st_root_node (e_tree E) (m_tree m1) = ?r" "L1 ?r = pos state" "is_node (tview (m_tree m1)) ?r"
    using m1(3) r s(2) by (auto simp: grown_def)
  have ok: "node_ok legal nxt (tview (m_tree m1)) L1 ?r" using m1(2) r1(3) by (auto simp: search_inv_defs labelled_def)
  have legal: "mv \<in> set (legal (pos state))" if "outl (tview (m_tree m1)) ?r \<noteq> []"
  proof -
    from b(2) that r1(1) obtain c d where "(c, d) \<in> set (outl (tview (m_tree m1)) ?r)" "mv = ad_move d"
      by (auto simp: most_visited_def)
    then have "mv \<in> set (arc_moves (tview (m_tree m1)) ?r)" by (force simp: arc_moves_def)
    with ok r1(2) show ?thesis by (auto simp: node_ok_def)
  qed
  have "search_inv E tinv tview legal nxt key Q L1 (B + int k * (3 * (m_path_size m + int (rem (pos state)) + 1))) ?m'"
    using m1(2) by simp
  then have "computed Q state k B m mv ?m'"
    unfolding computed_def using r1 b(2) legal m1(3) by (intro exI [of _ L1]) (simp add: grown_def)
  moreover have "mv \<in> set (legal (pos state))" if k: "0 < k" "legal (pos state) \<noteq> []"
  proof -
    have "hd (legal (pos state)) \<in> set (untried (node_at (tview (m_tree m)) ?r) @ arc_moves (tview (m_tree m)) ?r)"
      using inv r k(2) s(2) by (simp add: search_inv_def complete_but_def)
    then have "nd_moves (node_at (tview (m_tree m)) ?r) \<noteq> None \<or> outl (tview (m_tree m)) ?r \<noteq> []"
      by (auto simp: untried_def arc_moves_def)
    moreover have "outl (tview (m_tree m)) ?r \<noteq> [] \<longrightarrow> outl (tview (m_tree m1)) ?r \<noteq> []" using m1(3) by (simp add: grown_def)
    ultimately show ?thesis using m1(4) k(1) legal by blast
  qed
  ultimately show ?thesis using m1(1,5) b(1) r1(1) by auto
qed

text \<open>A search on a fresh object: the root is visited three times per iteration.\<close>

lemma compute_fresh:
  assumes s: "gexact s" and Q: "inj_on key Q" "pos ` compute_states E s k (mcts_new E) g \<subseteq> Q"
    and k: "int k < 2 ^ 31 - 1" "int k * (3 * (int (rem (pos s)) + 2)) < 2 ^ 31"
  shows "\<exists>mv m' g'. compute E s (int k) (mcts_new E) g = Some (mv, m', g')
    \<and> (\<exists>L. search_inv E tinv tview legal nxt key Q L (int k * (3 * (int (rem (pos s)) + 2))) m'
        \<and> L (st_root_node (e_tree E) (m_tree m')) = pos s)
    \<and> most_visited (tview (m_tree m')) (st_root_node (e_tree E) (m_tree m')) (g_none (e_game E)) mv
    \<and> (0 < k \<and> legal (pos s) \<noteq> [] \<longrightarrow> mv \<in> set (legal (pos s)))
    \<and> nd_visits (node_at (tview (m_tree m')) (st_root_node (e_tree E) (m_tree m'))) = 3 * int k
    \<and> length (g_arcs (tview (m_tree m'))) \<le> k + 1 \<and> length (g_nodes (tview (m_tree m'))) \<le> k + 1"
proof -
  let ?r = "\<lambda>m. st_root_node (e_tree E) (m_tree m)"
  have "pos s \<in> Q" using Q(2) by (simp add: compute_states_def)
  from mcts_initialize_ok [OF s this, of "mcts_new E"] obtain m0 where
    m0: "mcts_initialize E s (mcts_new E) = Some m0" "search_inv E tinv tview legal nxt key Q (\<lambda>_. pos s) 0 m0"
    "pt_links (e_path E) (m_path m0) = [(st_invalid_arc (e_tree E), ?r m0)]" "m_path_size m0 = 1"
    "length (g_arcs (tview (m_tree m0))) \<le> 1" "length (g_nodes (tview (m_tree m0))) = 1"
    by (auto simp: mcts_new_def)
  have r0: "is_node (tview (m_tree m0)) (?r m0)" using m0(2) root_is_node by (auto simp: search_inv_defs)
  have v0: "nd_visits (node_at (tview (m_tree m0)) (?r m0)) = 0" using m0(2) r0 by (force simp: search_inv_defs)
  have p: "path_ok E tview m0" "m_path_size m0 = int (length (pt_links (e_path E) (m_path m0)))" "path_count E m0 (?r m0) = 1"
    using m0(3,4) r0 by (simp_all add: path_ok_def path_count_def)
  have sz: "length (g_arcs (tview (m_tree m0))) + k < 2 ^ 31" "length (g_nodes (tview (m_tree m0))) + k < 2 ^ 31"
      "0 + int k * (3 * (m_path_size m0 + int (rem (pos s)) + 1)) < 2 ^ 31" using k m0(4-6) by (simp_all add: algebra_simps)
  have look: "pos ` looked_up E k s m0 g \<subseteq> Q" using Q(2) m0(1) by (auto simp: compute_states_def mcts_new_def)
  from compute_rest_ok [OF m0(2) Q(1) look order.refl g_exact [OF s] refl p(1,2) sz, unfolded p(3) v0] obtain mv m1 m' g' where
    m': "compute_loop E k s m0 g = Some (m1, g')" "getBestMove E m1 = Some (mv, m')" "computed Q s k 0 m0 mv m'"
    "?r m' = ?r m0" "0 < k \<and> legal (pos s) \<noteq> [] \<longrightarrow> mv \<in> set (legal (pos s))"
    "nd_visits (node_at (tview (m_tree m')) (?r m')) = 0 + 3 * int k * 1" by blast
  have "compute E s (int k) (mcts_new E) g = Some (mv, m', g')" using m0(1) m'(1,2) by (simp add: compute_def mcts_new_def)
  moreover have "1 + int (rem (pos s)) + 1 = int (rem (pos s)) + 2" by simp
  ultimately show ?thesis using m'(3,5,6) m0(4-6) unfolding computed_def
    by (intro exI [of _ mv] exI [of _ m'] exI [of _ g']) (auto simp: algebra_simps)
qed

section \<open>Which states can be looked up\<close>

text \<open>The positions that are looked up are reached by as many moves as there are iterations.\<close>

lemma looked_up_within:
  assumes fam: "\<And>j. Qs j \<subseteq> Qs (Suc j)" "\<And>j q mv. q \<in> Qs j \<Longrightarrow> mv \<in> set (legal q) \<Longrightarrow> nxt q mv \<in> Qs (Suc j)"
    and "search_inv E tinv tview legal nxt key (Qs i) L B m" "inj_on key (Qs (i + k))" "0 \<le> B"
    and s: "ginv state" and "pos state = L (st_root_node (e_tree E) (m_tree m))"
    and "path_ok E tview m" "m_path_size m = int (length (pt_links (e_path E) (m_path m)))"
    and "length (g_arcs (tview (m_tree m))) + k < 2 ^ 31" "length (g_nodes (tview (m_tree m))) + k < 2 ^ 31"
    and "B + int k * (3 * (m_path_size m + int (rem (pos state)) + 1)) < 2 ^ 31"
  shows "pos ` looked_up E k state m g \<subseteq> Qs (i + k)"
  using assms(3-5,7-)
proof (induction k arbitrary: i m L B g)
  case (Suc k)
  let ?r = "st_root_node (e_tree E) (m_tree m)" and ?K = "3 * (m_path_size m + int (rem (pos state)) + 1)"
  have up: "Qs (Suc i) \<subseteq> Qs (Suc i + k)" for k
  proof (induction k)
    case (Suc k)
    with fam(1) [of "Suc i + k"] show ?case by auto
  qed simp
  have K: "0 \<le> ?K" using Suc.prems(6) by simp
  have BK: "B + ?K < 2 ^ 31" using suc_times(1) [OF K, of B k] Suc.prems(9) by linarith
  have sz: "Suc (length (g_arcs (tview (m_tree m)))) < 2 ^ 31" "Suc (length (g_nodes (tview (m_tree m)))) < 2 ^ 31"
    using Suc.prems(7,8) by simp_all
  have t: "tinv (m_tree m)" using Suc.prems(1) by (simp add: search_inv_defs)
  note r = root_is_node [OF t]
  have q: "pos ` set_option (looked_up_state E state m g) \<subseteq> Qs (Suc i)"
  proof (rule image_subsetI)
    fix s' assume that: "s' \<in> set_option (looked_up_state E state m g)"
    from select_path_ok [OF Suc.prems(1) r s Suc.prems(4), of g] obtain n s1 p1 g1 where
      sel: "select_path E ?r state m g = Some (n, s1, m\<lparr>m_path := p1\<rparr>, g1)" "is_node (tview (m_tree m)) n" "ginv s1" "pos s1 = L n" by blast
    have e: "expand_state E n s1 (m\<lparr>m_path := p1\<rparr>) g1 = Some s'" using that sel(1) by (simp add: looked_up_state_def)
    have i1: "search_inv E tinv tview legal nxt key (Qs i) L B (m\<lparr>m_path := p1\<rparr>)" "is_node (tview (m_tree (m\<lparr>m_path := p1\<rparr>))) n"
      using Suc.prems(1) sel(2) by simp_all
    from expand_state_next [OF i1 sel(3,4) e] fam(2) [of _ i] show "pos s' \<in> Qs (Suc i)" by auto
  qed
  have inv: "search_inv E tinv tview legal nxt key (Qs (Suc i)) L B m" by (rule search_inv_subset [OF Suc.prems(1) fam(1)])
  have inj: "inj_on key (Qs (Suc i))" using inj_on_subset [OF Suc.prems(2)] up [of k] by simp
  from compute_iteration_ok [OF inv inj q Suc.prems(3) s Suc.prems(4-6) sz BK] obtain m1 g1 L1 where
    m1: "compute_iteration E state m g = Some (m1, g1)" "search_inv E tinv tview legal nxt key (Qs (Suc i)) L1 (B + ?K) m1" "grown E tview 1 L m L1 m1"
    "pt_links (e_path E) (m_path m1) = pt_links (e_path E) (m_path m)" "path_ok E tview m1" by blast
  note gr = m1(3) [unfolded grown_def]
  have r1: "st_root_node (e_tree E) (m_tree m1) = ?r" "m_path_size m1 = m_path_size m" "L1 ?r = L ?r" using gr r by auto
  have sz1: "length (g_arcs (tview (m_tree m1))) + k < 2 ^ 31" "length (g_nodes (tview (m_tree m1))) + k < 2 ^ 31"
    using Suc.prems(7,8) gr by linarith+
  have Bk: "B + ?K + int k * ?K = B + int (Suc k) * ?K" by (rule suc_times(2))
  have B0: "0 \<le> B + ?K" using Suc.prems(3) K by simp
  have inj1: "inj_on key (Qs (Suc i + k))" using Suc.prems(2) by simp
  have "pos ` looked_up E k state m1 g1 \<subseteq> Qs (Suc i + k)"
    by (rule Suc.IH [OF m1(2) inj1 B0, unfolded r1]) (use Suc.prems(4,6,9) m1(4,5) sz1 r1(3) Bk in auto)
  with q up [of k] m1(1) show ?case by auto
qed simp

lemma compute_states_within:
  assumes fam: "\<And>j. Qs j \<subseteq> Qs (Suc j)" "\<And>j q mv. q \<in> Qs j \<Longrightarrow> mv \<in> set (legal q) \<Longrightarrow> nxt q mv \<in> Qs (Suc j)"
    and s: "gexact s" "pos s \<in> Qs 0" and "inj_on key (Qs k)" and k: "int k < 2 ^ 31 - 1" "int k * (3 * (int (rem (pos s)) + 2)) < 2 ^ 31"
  shows "pos ` compute_states E s k (mcts_new E) g \<subseteq> Qs k"
proof -
  from mcts_initialize_ok [OF s, of "mcts_new E"] obtain m0 where
    m0: "mcts_initialize E s (mcts_new E) = Some m0" "search_inv E tinv tview legal nxt key (Qs 0) (\<lambda>_. pos s) 0 m0"
    "pt_links (e_path E) (m_path m0) = [(st_invalid_arc (e_tree E), st_root_node (e_tree E) (m_tree m0))]" "m_path_size m0 = 1"
    "length (g_arcs (tview (m_tree m0))) \<le> 1" "length (g_nodes (tview (m_tree m0))) = 1"
    by (auto simp: mcts_new_def)
  have r0: "is_node (tview (m_tree m0)) (st_root_node (e_tree E) (m_tree m0))" using m0(2) root_is_node by (auto simp: search_inv_defs)
  have p: "path_ok E tview m0" "m_path_size m0 = int (length (pt_links (e_path E) (m_path m0)))"
    using m0(3,4) r0 by (simp_all add: path_ok_def)
  have sz: "length (g_arcs (tview (m_tree m0))) + k < 2 ^ 31" "length (g_nodes (tview (m_tree m0))) + k < 2 ^ 31"
      "0 + int k * (3 * (m_path_size m0 + int (rem (pos s)) + 1)) < 2 ^ 31" using k m0(4-6) by (simp_all add: algebra_simps)
  have "pos ` looked_up E k s m0 g \<subseteq> Qs k"
    using looked_up_within [of Qs 0, OF fam m0(2) _ order.refl g_exact [OF s(1)] refl p sz] assms(5) by simp
  moreover have "Qs 0 \<subseteq> Qs k" by (induction k) (use fam(1) in auto)
  ultimately show ?thesis using s(2) m0(1) by (auto simp: compute_states_def mcts_new_def)
qed

end

end
