(* ===== verification/Mcts_Prune.thy ===== *)
theory Mcts_Prune
  imports Mcts_Compute
begin

text \<open>
  Pruning: the new tree is an isomorphic copy of the part of the old one that is reachable from the node of the given state,
  the transposition table is cut down and renumbered accordingly, and the result is a search that is ready to go on from
  that state.
\<close>

section \<open>The copy\<close>

definition vis_table :: "index_t \<Rightarrow> index_t list \<Rightarrow> (index_t \<rightharpoonup> index_t) \<Rightarrow> bool" where
  "vis_table none visited vis \<longleftrightarrow> (\<forall>n < length visited. visited ! n = (case vis (int n) of None \<Rightarrow> none | Some m \<Rightarrow> m))
    \<and> (\<forall>n m. vis n = Some m \<longrightarrow> 0 \<le> m)"

lemma vis_table_aref:
  "vis_table none visited vis \<Longrightarrow> 0 \<le> n \<Longrightarrow> n < int (length visited) \<Longrightarrow>
    aref visited n = Some (case vis n of None \<Rightarrow> none | Some m \<Rightarrow> m)"
  unfolding vis_table_def aref_def using nat_less_iff [of n "length visited"] by auto

lemma vis_table_upd:
  assumes "vis_table none visited vis" "0 \<le> n" "n < int (length visited)" "0 \<le> m"
  shows "\<exists>visited'. aset visited n m = Some visited' \<and> vis_table none visited' (vis(n \<mapsto> m)) \<and> length visited' = length visited"
proof -
  from assms(2) obtain k where k: "n = int k" using zero_le_imp_eq_int by blast
  with assms show ?thesis by (auto simp: vis_table_def nth_list_update)
qed

context mcts_setup
begin

definition prune_rel :: "'t \<Rightarrow> 't \<times> index_t list \<times> index_t list \<Rightarrow> ('m arc_data, 'm node_data) copy_state \<Rightarrow> bool" where
  "prune_rel old st cs = (case (st, cs) of ((new, visited, stack), (w, vis, work)) \<Rightarrow>
     tinv new \<and> tview new = w \<and> vis_table (st_invalid_node (e_tree E)) visited vis \<and> work = stack
     \<and> int (length visited) = order_of (tview old) \<and> st_root_node (e_tree E) new = 0)"

lemma prune_arcs_copy:
  assumes old: "tinv old" "length (g_nodes (tview old)) < 2 ^ 31 - 1"
    and "set as \<subseteq> set (out_ids (tview old) p)"
    and "prune_rel old st cs" "copy_inv (tview old) r D [p] cs" "copy_arcs_of cs p ps"
    and "fst ` set (map (\<lambda>a. snd (g_arcs (tview old) ! nat a)) as) \<subseteq> reach_from (tview old) r \<inter> {0..<order_of (tview old)}"
    and "length (g_arcs (fst cs)) + length as \<le> 2 ^ 31"
  shows "\<exists>st'. prune_arcs E old p as st = Some st' \<and>
    prune_rel old st' (copy_arcs (tview old) p (map (\<lambda>a. snd (g_arcs (tview old) ! nat a)) as) cs)"
  using assms(3-)
proof (induction as arbitrary: st cs ps)
  case Nil
  then show ?case by simp
next
  case (Cons a as)
  let ?v = "tview old" and ?none = "st_invalid_node (e_tree E)"
  obtain new visited stack where st: "st = (new, visited, stack)" by (rule prod_cases3)
  obtain vis where cs: "cs = (tview new, vis, stack)"
    using Cons.prems(2) unfolding st by (cases cs) (auto simp: prune_rel_def)
  note R = Cons.prems(2) [unfolded st cs prune_rel_def prod.case]
  note I = copy_invD [OF Cons.prems(3) [unfolded cs]] and rng = copy_inv_ran [OF Cons.prems(3) [unfolded cs]]
  have a: "a \<in> set (out_ids ?v p)" using Cons.prems(1) by simp
  from out_ids_range [OF a] have ar: "0 \<le> a" "a < int (length (g_arcs ?v))" by auto
  obtain t d where e: "snd (g_arcs ?v ! nat a) = (t, d)" by (cases "snd (g_arcs ?v ! nat a)")
  have ops: "st_target (e_tree E) a old = Some t" "st_arc (e_tree E) a old = Some d"
    using target [OF old(1) ar] arc [OF old(1) ar] e by simp_all
  have t: "0 \<le> t" "t < order_of ?v" "t \<in> reach_from ?v r" using Cons.prems(5) e by auto
  have tl: "t < int (length visited)" using t(2) R by simp
  have "p \<in> dom vis" "p \<in> {0..<order_of ?v}" using I(2,8) by auto
  then obtain p' where p': "vis p = Some p'" "0 \<le> p'" "p' < order_of (tview new)" and pl: "0 \<le> p" "p < int (length visited)"
    using rng R by auto
  have nd: "st_node (e_tree E) t old = Some (g_nodes ?v ! nat t)" using node [OF old(1) t(1,2)] .
  have sm: "length (g_arcs (tview new)) < 2 ^ 31" using Cons.prems(6) by (simp add: cs)
  have nl: "length (g_nodes (tview new)) < 2 ^ 31 - 1"
    using copy_inv_order [OF Cons.prems(3) [unfolded cs]] old(2) by (simp add: order_of_def)
  have vt: "vis_table ?none visited vis" using R by simp
  note vc = vis_table_aref [OF vt t(1) tl] and vp = vis_table_aref [OF vt pl]
  show ?case
  proof (cases "vis t")
    case None
    let ?N = "order_of (tview new)"
    have tp: "t \<noteq> p" using None p' by auto
    obtain new1 where n1: "st_addNode (e_tree E) (g_nodes ?v ! nat t) new = Some (?N, new1)" "tinv new1"
      "tview new1 = add_node (g_nodes ?v ! nat t) (tview new)" "st_root_node (e_tree E) new1 = st_root_node (e_tree E) new"
      using addNode [of new "g_nodes ?v ! nat t"] R sm nl by (auto simp: small_def)
    have N0: "0 \<le> ?N" by (simp add: order_of_def)
    obtain visited' where v': "aset visited t ?N = Some visited'" "vis_table ?none visited' (vis(t \<mapsto> ?N))" "length visited' = length visited"
      using vis_table_upd [OF vt t(1) tl N0] by blast
    have sm1: "small (tview new1)" using sm nl by (simp add: small_def n1(3))
    obtain a' new2 where n2: "st_addArc (e_tree E) p' ?N d new1 = Some (a', new2)" "tinv new2" "tview new2 = add_arc p' ?N d (tview new1)"
      "st_root_node (e_tree E) new2 = st_root_node (e_tree E) new1"
      using addArc [OF n1(2) sm1, of p' ?N d] p' N0 by (auto simp: n1(3))
    let ?st = "(new2, visited', stack @ [t])" and ?cs = "(tview new2, vis(t \<mapsto> ?N), stack @ [t])"
    have w2: "tview new2 = add_arc (the (vis p)) ?N d (add_node (g_nodes ?v ! nat t) (tview new))" using n1(3) n2(3) p'(1) by simp
    have rel: "prune_rel old ?st ?cs" using R n1(4) n2(2,4) v'(2,3) by (simp add: prune_rel_def)
    note step = copy_arc_new [OF Cons.prems(3) [unfolded cs] None t(3,1,2) Cons.prems(4) [unfolded cs], of d, folded w2]
    have "vis_table ?none visited' (vis(t \<mapsto> ?N))" "t < int (length visited')" "p < int (length visited')" using v' tl pl by auto
    then have look: "aref visited' p = Some p'" "aref visited' t = Some ?N"
      using vis_table_aref [of ?none visited' "vis(t \<mapsto> ?N)"] pl(1) t(1) p'(1) tp by auto
    have "\<exists>st'. prune_arcs E old p as ?st = Some st' \<and>
        prune_rel old st' (copy_arcs ?v p (map (\<lambda>a. snd (g_arcs ?v ! nat a)) as) ?cs)"
      by (rule Cons.IH [OF _ rel step(1) step(2)]) (use Cons.prems(1,5,6) in \<open>auto simp: cs n2(3) n1(3)\<close>)
    moreover have "prune_arcs E old p (a # as) st = prune_arcs E old p as ?st"
      using ops vc None nd n1(1) v'(1) look n2(1) by (simp add: st)
    moreover have "copy_arcs ?v p (map (\<lambda>a. snd (g_arcs ?v ! nat a)) (a # as)) cs
        = copy_arcs ?v p (map (\<lambda>a. snd (g_arcs ?v ! nat a)) as) ?cs" using None by (simp add: cs e w2)
    ultimately show ?thesis by simp
  next
    case (Some t')
    have t': "t' \<noteq> ?none" "0 \<le> t'" "t' < order_of (tview new)" using rng [OF Some] invalid(1) by auto
    obtain a' new2 where n2: "st_addArc (e_tree E) p' t' d new = Some (a', new2)" "tinv new2" "tview new2 = add_arc p' t' d (tview new)"
      "st_root_node (e_tree E) new2 = st_root_node (e_tree E) new"
      using addArc [of new p' t' d] R p' t' sm nl by (auto simp: small_def)
    let ?st = "(new2, visited, stack)" and ?cs = "(tview new2, vis, stack)"
    have w2: "tview new2 = add_arc (the (vis p)) t' d (tview new)" using n2(3) p'(1) by simp
    have rel: "prune_rel old ?st ?cs" using R n2(2,4) by (simp add: prune_rel_def)
    note step = copy_arc_known [OF Cons.prems(3) [unfolded cs] Some Cons.prems(4) [unfolded cs], of d, folded w2]
    have "\<exists>st'. prune_arcs E old p as ?st = Some st' \<and>
        prune_rel old st' (copy_arcs ?v p (map (\<lambda>a. snd (g_arcs ?v ! nat a)) as) ?cs)"
      by (rule Cons.IH [OF _ rel step(1) step(2)]) (use Cons.prems(1,5,6) in \<open>auto simp: cs n2(3)\<close>)
    moreover have "prune_arcs E old p (a # as) st = prune_arcs E old p as ?st"
      using ops vc Some vp p'(1) t'(1) n2(1) by (simp add: st)
    moreover have "copy_arcs ?v p (map (\<lambda>a. snd (g_arcs ?v ! nat a)) (a # as)) cs
        = copy_arcs ?v p (map (\<lambda>a. snd (g_arcs ?v ! nat a)) as) ?cs" using Some by (simp add: cs e w2)
    ultimately show ?thesis by simp
  qed
qed


definition prune_inv :: "'t \<Rightarrow> index_t \<Rightarrow> index_t set \<Rightarrow> 't \<times> index_t list \<times> index_t list \<Rightarrow> bool" where
  "prune_inv old r D st \<longleftrightarrow> (\<exists>cs. prune_rel old st cs \<and> copy_inv (tview old) r D [] cs
    \<and> length (g_arcs (fst cs)) \<le> 1 + (\<Sum>n\<in>D. length (outl (tview old) n)))"

lemma prune_round:
  assumes old: "tinv old" "length (g_nodes (tview old)) < 2 ^ 31 - 1" "length (g_arcs (tview old)) < 2 ^ 31"
    and inv: "prune_inv old r D (new, visited, stack)" and p: "p \<in> set stack" "mset stack = add_mset p (mset stack')"
  shows "\<exists>as st'. st_out (e_tree E) p old = Some as \<and> prune_arcs E old p as (new, visited, stack') = Some st'
    \<and> prune_inv old r (insert p D) st' \<and> card (insert p D) = Suc (card D) \<and> Suc (card D) \<le> length (g_nodes (tview old))"
proof -
  let ?v = "tview old"
  obtain vis where vis: "prune_rel old (new, visited, stack) (tview new, vis, stack)" "copy_inv ?v r D [] (tview new, vis, stack)"
    "length (g_arcs (tview new)) \<le> 1 + (\<Sum>n\<in>D. length (outl ?v n))"
    using inv unfolding prune_inv_def prune_rel_def by auto
  note I = copy_invD [OF vis(2)] and ok = view_ok [OF old(1)]
  note take = copy_take [OF ok vis(2) p]
  have pn: "0 \<le> p" "p < order_of ?v" using I(2,8) p by auto
  let ?as = "out_ids ?v p" and ?cs = "(tview new, vis, stack')"
  have o: "map (\<lambda>a. snd (g_arcs ?v ! nat a)) ?as = outl ?v p" by (simp add: outl_out_ids)
  have rel: "prune_rel old (new, visited, stack') ?cs" using vis(1) by (simp add: prune_rel_def)
  have D: "finite D" "p \<notin> D" using copy_inv_finite [OF vis(2)] take(3) by auto
  have sum: "(\<Sum>n\<in>D. length (outl ?v n)) + length (outl ?v p) \<le> length (g_arcs ?v)"
    using sum_outl_le [of "insert p D" ?v] D by simp
  have len: "length ?as = length (outl ?v p)" by (simp add: outl_out_ids)
  from prune_arcs_copy [OF old(1,2) order.refl rel take(1,2)] take(4) sum vis(3) old(3) len
  obtain st' where st': "prune_arcs E old p ?as (new, visited, stack') = Some st'"
    "prune_rel old st' (copy_arcs ?v p (outl ?v p) ?cs)" unfolding o by auto
  have step: "copy_inv ?v r (insert p D) [] (copy_arcs ?v p (outl ?v p) ?cs)" by (rule copy_step [OF ok vis(2) p])
  have "length (g_arcs (fst (copy_arcs ?v p (outl ?v p) ?cs))) \<le> 1 + (\<Sum>n\<in>insert p D. length (outl ?v n))"
    using vis(3) D by (simp add: copy_arcs_length)
  with step st'(2) have "prune_inv old r (insert p D) st'" unfolding prune_inv_def by blast
  moreover have "card (insert p D) \<le> length (g_nodes ?v)"
    using copy_inv_finite [of ?v r "insert p D" "[]"] step by (cases "copy_arcs ?v p (outl ?v p) ?cs") auto
  moreover have "card (insert p D) = Suc (card D)" using D by simp
  moreover have "st_out (e_tree E) p old = Some ?as" using out [OF old(1) pn] .
  ultimately show ?thesis using st'(1) by metis
qed

lemma prune_loop_ok:
  assumes old: "tinv old" "length (g_nodes (tview old)) < 2 ^ 31 - 1" "length (g_arcs (tview old)) < 2 ^ 31" and "prune_inv old r D st"
  shows "\<exists>new visited vis. prune_loop E old st = Some (new, visited) \<and> tinv new \<and> st_root_node (e_tree E) new = 0
    \<and> vis_table (st_invalid_node (e_tree E)) visited vis \<and> int (length visited) = order_of (tview old)
    \<and> dom vis = reach_from (tview old) r \<and> copy_of (tview old) r (tview new) (\<lambda>n. the (vis n))
    \<and> length (g_arcs (tview new)) \<le> 1 + length (g_arcs (tview old)) \<and> length (g_nodes (tview new)) \<le> length (g_nodes (tview old))"
  using assms(4)
proof (induction "length (g_nodes (tview old)) - card D" arbitrary: D st rule: less_induct)
  case less
  obtain new visited stack where st: "st = (new, visited, stack)" by (rule prod_cases3)
  show ?case
  proof (cases "stack = []")
    case True
    with less.prems st obtain vis where
      v: "prune_rel old (new, visited, []) (tview new, vis, [])" "copy_inv (tview old) r D [] (tview new, vis, [])"
      "length (g_arcs (tview new)) \<le> 1 + (\<Sum>n\<in>D. length (outl (tview old) n))"
      unfolding prune_inv_def prune_rel_def by auto
    have "length (g_arcs (tview new)) \<le> 1 + length (g_arcs (tview old))" "length (g_nodes (tview new)) \<le> length (g_nodes (tview old))"
      using v(3) sum_outl_le [of D "tview old"] copy_inv_finite [OF v(2)] copy_inv_order [OF v(2)] by (simp_all add: order_of_def)
    moreover have "prune_loop E old st = Some (new, visited)" using True by (subst prune_loop.simps) (simp add: st)
    ultimately show ?thesis using v(1) copy_done [OF v(2)]
      by (intro exI [of _ new] exI [of _ visited] exI [of _ vis]) (simp add: prune_rel_def)
  next
    case False
    then have p: "last stack \<in> set stack" "mset stack = add_mset (last stack) (mset (butlast stack))"
      by (simp, metis append_butlast_last_id mset_append mset_single_iff_right add_mset_add_single)
    from prune_round [OF old less.prems [unfolded st] p] obtain as st' where
      r: "st_out (e_tree E) (last stack) old = Some as" "prune_arcs E old (last stack) as (new, visited, butlast stack) = Some st'"
      "prune_inv old r (insert (last stack) D) st'" "card (insert (last stack) D) = Suc (card D)" "Suc (card D) \<le> length (g_nodes (tview old))"
      by blast
    have "prune_loop E old st = prune_loop E old st'"
      using r(1,2) False by (subst prune_loop.simps) (simp add: st)
    then show ?thesis using less.hyps [OF _ r(3)] r(4,5) by simp
  qed
qed

end

section \<open>The table\<close>

text \<open>Purging keeps the entries of the nodes that were copied, under their new numbers.\<close>

lemma purge_table_ok:
  assumes "vis_table none visited vis" "none < 0" "\<And>z n. (z, n) \<in> set tt \<Longrightarrow> 0 \<le> n \<and> n < int (length visited)"
  shows "purge_table none visited tt = Some (map (\<lambda>(z, n). (z, the (vis n))) (filter (\<lambda>(z, n). vis n \<noteq> None) tt))"
  using assms(3)
proof (induction tt)
  case (Cons zn tt)
  obtain z n where zn: "zn = (z, n)" by (cases zn)
  with Cons have IH: "purge_table none visited tt = Some (map (\<lambda>(z, n). (z, the (vis n))) (filter (\<lambda>(z, n). vis n \<noteq> None) tt))"
    and n: "0 \<le> n" "n < int (length visited)" by auto
  have "m \<noteq> none" if "vis n = Some m" for m
  proof -
    have "0 \<le> m" using that assms(1) unfolding vis_table_def by blast
    with assms(2) show ?thesis by simp
  qed
  with IH vis_table_aref [OF assms(1) n] show ?case by (auto simp: zn split: option.splits)
qed simp

text \<open>The labels of the copy.\<close>

lemma labelled_copy:
  assumes lab: "labelled legal nxt key v tt L" and cp: "copy_of v r w (\<lambda>n. the (vis n))" and dom: "dom vis = reach_from v r"
    and sub: "reach_from v r \<subseteq> {0..<order_of v}" and ok: "graph_ok w"
  defines "f \<equiv> \<lambda>n. the (vis n)"
  defines "L' \<equiv> \<lambda>k. L (the_inv_into (reach_from v r) f k)"
  shows "labelled legal nxt key w (map (\<lambda>(z, n). (z, the (vis n))) (filter (\<lambda>(z, n). vis n \<noteq> None) tt)) L'"
    "\<And>n. n \<in> reach_from v r \<Longrightarrow> L' (f n) = L n" "\<And>k. is_node w k \<Longrightarrow> \<exists>n \<in> reach_from v r. k = f n"
proof -
  let ?R = "reach_from v r" and ?tt = "map (\<lambda>(z, n). (z, the (vis n))) (filter (\<lambda>(z, n). vis n \<noteq> None) tt)"
  have bij: "bij_betw f ?R {0..<order_of w}" using cp by (simp add: copy_of_def f_def)
  then have inj: "inj_on f ?R" and ran: "f ` ?R = {0..<order_of w}" by (simp_all add: bij_betw_def)
  show Lf: "L' (f n) = L n" if "n \<in> ?R" for n using the_inv_into_f_f [OF inj that] by (simp add: L'_def)
  show ex: "\<exists>n \<in> ?R. k = f n" if "is_node w k" for k using that ran by (auto simp: is_node_def)
  have node: "is_node v n" "is_node w (f n)" if "n \<in> ?R" for n using that sub ran by (auto simp: is_node_def)
  have mem: "(z, k) \<in> set ?tt \<longleftrightarrow> (\<exists>n \<in> ?R. (z, n) \<in> set tt \<and> k = f n)" for z k
    using dom by (force simp: f_def)
  have tab: "table_ok key v tt L" using lab by (simp add: labelled_def)
  have d: "distinct (map fst ?tt)"
  proof -
    have "map fst ?tt = map fst (filter (\<lambda>(z, n). vis n \<noteq> None) tt)" by (auto simp: comp_def split_def)
    moreover have "distinct (map fst (filter (\<lambda>(z, n). vis n \<noteq> None) tt))"
      using tab by (simp add: table_ok_def distinct_map_filter)
    ultimately show ?thesis by (simp only:)
  qed
  have "table_ok key w ?tt L'"
    unfolding table_ok_def
  proof (intro conjI d allI impI)
    fix k assume "is_node w k"
    then obtain n where n: "n \<in> ?R" "k = f n" using ex by blast
    have "(key (L n), n) \<in> set tt" using tab node(1) [OF n(1)] by (auto simp: table_ok_def dest: map_of_SomeD)
    with n have "(key (L' k), k) \<in> set ?tt" using mem Lf by auto
    then show "map_of ?tt (key (L' k)) = Some k" using map_of_is_SomeI [OF d] by blast
  next
    show "\<forall>(z, k) \<in> set ?tt. is_node w k \<and> z = key (L' k)"
    proof clarify
      fix z k assume "(z, k) \<in> set ?tt"
      then obtain n where n: "n \<in> ?R" "(z, n) \<in> set tt" "k = f n" using mem by blast
      with tab node Lf show "is_node w k \<and> z = key (L' k)" by (auto simp: table_ok_def)
    qed
  qed
  moreover have "node_ok legal nxt w L' k" if "is_node w k" for k
  proof -
    from ex [OF that] obtain n where n: "n \<in> ?R" "k = f n" by blast
    have nv: "node_ok legal nxt v L n" using lab node(1) [OF n(1)] by (simp add: labelled_def)
    have data: "node_at w k = node_at v n" "outl w k = map (\<lambda>(t, d). (f t, d)) (outl v n)"
      using cp n by (auto simp: copy_of_def node_at_def f_def)
    have am: "arc_moves w k = arc_moves v n" by (simp add: arc_moves_def data(2) split_def)
    have "L' c = nxt (L' k) (ad_move d)" if cd: "(c, d) \<in> set (outl w k)" for c d
    proof -
      from cd data(2) obtain t where t: "(t, d) \<in> set (outl v n)" "c = f t" by auto
      have "t \<in> ?R" by (rule reach_from_step [OF n(1) t(1)])
      with t nv Lf n show ?thesis by (auto simp: node_ok_def)
    qed
    with nv data(1) am Lf n show ?thesis by (auto simp: node_ok_def)
  qed
  ultimately show "labelled legal nxt key w ?tt L'" using ok by (simp add: labelled_def)
qed

lemma complete_copy:
  assumes cmp: "complete_but {} legal v L" and cp: "copy_of v r w f" and n: "n \<in> reach_from v r" "is_node v n"
    and L': "L' (f n) = L n"
  shows "mv \<in> set (legal (L' (f n))) \<Longrightarrow> mv \<in> set (untried (node_at w (f n)) @ arc_moves w (f n))"
proof -
  have "node_at w (f n) = node_at v n" "outl w (f n) = map (\<lambda>(t, d). (f t, d)) (outl v n)"
    using cp n(1) by (auto simp: copy_of_def node_at_def)
  moreover from this(2) have "arc_moves w (f n) = arc_moves v n" by (simp add: arc_moves_def split_def)
  ultimately show "mv \<in> set (legal (L' (f n))) \<Longrightarrow> ?thesis" using cmp n(2) L' by (simp add: complete_but_def)
qed

lemma reach_from_range: "graph_ok v \<Longrightarrow> is_node v r \<Longrightarrow> reach_from v r \<subseteq> {0..<order_of v}"
proof
  fix m assume ok: "graph_ok v" and r: "is_node v r" and "m \<in> reach_from v r"
  then have "(r, m) \<in> (arc_rel v)\<^sup>*" by (simp add: reach_from_def)
  then show "m \<in> {0..<order_of v}"
    by (induction rule: rtrancl_induct) (use ok r in \<open>auto simp: is_node_def arc_rel_def graph_ok_def\<close>)
qed


section \<open>Ready searches\<close>

text \<open>A search whose root stands for the position \<open>q\<close> and whose path is the root alone.\<close>

definition ready_for ::
  "('t, 'p, 's, 'm, 'f) mcts_env \<Rightarrow> ('t \<Rightarrow> bool) \<Rightarrow> ('t \<Rightarrow> 'm search_graph) \<Rightarrow> ('q \<Rightarrow> 'm list) \<Rightarrow> ('q \<Rightarrow> 'm \<Rightarrow> 'q) \<Rightarrow>
   ('q \<Rightarrow> u64) \<Rightarrow> 'q set \<Rightarrow> int \<Rightarrow> 'q \<Rightarrow> ('t, 'p) mcts \<Rightarrow> bool" where
  "ready_for E tinv tview legal nxt key Q B q m \<longleftrightarrow>
    (\<exists>L. search_inv E tinv tview legal nxt key Q L B m \<and> L (st_root_node (e_tree E) (m_tree m)) = q)
    \<and> (\<exists>a. pt_links (e_path E) (m_path m) = [(a, st_root_node (e_tree E) (m_tree m))]) \<and> m_path_size m = 1"

context mcts_setup
begin

lemma getNode_ok:
  assumes inv: "search_inv E tinv tview legal nxt key Q L B m" and Q: "inj_on key Q" "q \<in> Q"
  shows "\<exists>n. getNode E (key q) m = Some n \<and> (is_node (tview (m_tree m)) n \<and> L n = q
      \<or> n = st_invalid_node (e_tree E) \<and> \<not> (\<exists>k. is_node (tview (m_tree m)) k \<and> L k = q))"
proof -
  from inv obtain tt where tt: "m_transposition_table m = Some tt" "table_ok key (tview (m_tree m)) tt L"
    and LQ: "\<And>k. is_node (tview (m_tree m)) k \<Longrightarrow> L k \<in> Q" by (auto simp: search_inv_defs labelled_def)
  note look = table_lookup [OF tt(2) Q(1) LQ Q(2)]
  show ?thesis
  proof (cases "map_of tt (key q)")
    case None
    then have "\<not> (\<exists>k. is_node (tview (m_tree m)) k \<and> L k = q)" using look by auto
    with None tt(1) show ?thesis by (simp add: getNode_def)
  next
    case (Some n)
    with look tt(1) show ?thesis by (auto simp: getNode_def)
  qed
qed

lemma prune_start:
  assumes t: "tinv old" and r: "is_node (tview old) r"
  shows "\<exists>new visited. st_set_node (e_tree E) 0 (fst (NodeData_assign_move (node_at (tview (st_new (e_tree E))) 0) (node_at (tview old) r))) (st_new (e_tree E))
      = Some new \<and> aset (replicate (nat (st_nodesSize (e_tree E) old)) (st_invalid_node (e_tree E))) r 0 = Some visited
    \<and> prune_inv old r {} (new, visited, [r])"
proof -
  let ?t0 = "st_new (e_tree E)" and ?none = "st_invalid_node (e_tree E)"
  let ?nd = "fst (NodeData_assign_move (node_at (tview ?t0) 0) (node_at (tview old) r))"
  have r0: "is_node (tview ?t0) 0" using new_view(1) by (simp add: is_node_def)
  have nd: "?nd = node_at (tview old) r" by (simp add: NodeData_assign_move_def)
  obtain new where new: "st_set_node (e_tree E) 0 ?nd ?t0 = Some new" "tinv new" "tview new = set_node_at 0 ?nd (tview ?t0)"
    "st_root_node (e_tree E) new = 0" using st_set_node_ok [OF new_inv r0] new_root by auto
  let ?vis0 = "replicate (nat (st_nodesSize (e_tree E) old)) ?none"
  have l: "int (length ?vis0) = order_of (tview old)" using nodeNum(2) [OF t] by (simp add: order_of_def)
  have "vis_table ?none ?vis0 Map.empty" by (simp add: vis_table_def)
  from vis_table_upd [OF this, of r 0] r l obtain visited where v: "aset ?vis0 r 0 = Some visited" "vis_table ?none visited [r \<mapsto> 0]"
    "length visited = length ?vis0" by (auto simp: is_node_def)
  have "copy_inv (tview old) r {} [] (tview new, [r \<mapsto> 0], [r])"
  proof (rule copy_start)
    show "g_nodes (tview new) ! 0 = g_nodes (tview old) ! nat r"
      using node_at_set_node_at [OF r0 r0, of ?nd] nd by (simp add: new(3) node_at_def)
  qed (use new_view r view_ok [OF new(2)] in \<open>auto simp: new(3) is_node_def\<close>)
  moreover have "prune_rel old (new, visited, [r]) (tview new, [r \<mapsto> 0], [r])"
    using new v l by (simp add: prune_rel_def)
  moreover have "length (g_arcs (tview new)) \<le> 1" using new_view(3) by (simp add: new(3))
  ultimately have "prune_inv old r {} (new, visited, [r])" unfolding prune_inv_def by (metis (no_types, lifting) fst_conv add_0_right sum.empty)
  with new(1) v(1) show ?thesis by blast
qed

lemma prune_impl_ok:
  assumes inv: "search_inv E tinv tview legal nxt key Q L B m" and Q: "inj_on key Q" "pos s \<in> Q" and s: "gexact s"
    and r: "is_node (tview (m_tree m)) r" "L r = pos s"
    and sz: "length (g_nodes (tview (m_tree m))) < 2 ^ 31 - 1" "length (g_arcs (tview (m_tree m))) < 2 ^ 31"
  shows "\<exists>m' f r'. prune_impl E s m (mcts_new E) = Some m' \<and> ready_for E tinv tview legal nxt key Q B (pos s) m'
    \<and> is_node (tview (m_tree m)) r' \<and> L r' = pos s \<and> copy_of (tview (m_tree m)) r' (tview (m_tree m')) f
    \<and> length (g_arcs (tview (m_tree m'))) \<le> 1 + length (g_arcs (tview (m_tree m)))
    \<and> length (g_nodes (tview (m_tree m'))) \<le> length (g_nodes (tview (m_tree m)))"
proof -
  let ?v = "tview (m_tree m)" and ?none = "st_invalid_node (e_tree E)" and ?t0 = "st_new (e_tree E)"
  have t: "tinv (m_tree m)" and LQ: "\<And>k. is_node ?v k \<Longrightarrow> L k \<in> Q"
    and vis0: "\<And>k. is_node ?v k \<Longrightarrow> 0 \<le> nd_visits (node_at ?v k) \<and> nd_visits (node_at ?v k) \<le> B"
    using inv by (auto simp: search_inv_defs)
  obtain tt where tt: "m_transposition_table m = Some tt" "labelled legal nxt key ?v tt L" using inv by (auto simp: search_inv_defs)
  from getNode_ok [OF inv Q] r obtain n where n: "getNode E (key (pos s)) m = Some n" "is_node ?v n" "L n = pos s" by auto
  obtain new visited where st: "st_set_node (e_tree E) 0 (fst (NodeData_assign_move (node_at (tview ?t0) 0) (node_at ?v n))) ?t0 = Some new"
    "aset (replicate (nat (st_nodesSize (e_tree E) (m_tree m))) ?none) n 0 = Some visited" "prune_inv (m_tree m) n {} (new, visited, [n])"
    using prune_start [OF t n(2)] by blast
  from prune_loop_ok [OF t sz st(3)] obtain new2 visited2 vis where
    lp: "prune_loop E (m_tree m) (new, visited, [n]) = Some (new2, visited2)" "tinv new2" "st_root_node (e_tree E) new2 = 0"
    "vis_table ?none visited2 vis" "int (length visited2) = order_of ?v" "dom vis = reach_from ?v n"
    "copy_of ?v n (tview new2) (\<lambda>k. the (vis k))" "length (g_arcs (tview new2)) \<le> 1 + length (g_arcs ?v)"
    "length (g_nodes (tview new2)) \<le> length (g_nodes ?v)" by blast
  define tt' where "tt' = map (\<lambda>(z, k). (z, the (vis k))) (filter (\<lambda>(z, k). vis k \<noteq> None) tt)"
  have "0 \<le> k \<and> k < int (length visited2)" if "(z, k) \<in> set tt" for z k
    using tt(2) that lp(5) by (auto simp: labelled_def table_ok_def is_node_def)
  then have purge: "purge_table ?none visited2 tt = Some tt'"
    using purge_table_ok [OF lp(4) invalid(1), of tt] by (simp add: tt'_def)
  have gok: "graph_ok ?v" using tt(2) by (simp add: labelled_def)
  note sub = reach_from_range [OF gok n(2)]
  note lab = labelled_copy [OF tt(2) lp(7,6) sub view_ok [OF lp(2)], folded tt'_def]
  define L' where "L' = (\<lambda>k. L (the_inv_into (reach_from ?v n) (\<lambda>n. the (vis n)) k))"
  have nR: "n \<in> reach_from ?v n" by (simp add: reach_from_def)
  have root: "the (vis n) = 0" using lp(7) by (simp add: copy_of_def)
  let ?m' = "(mcts_new E)\<lparr>m_tree := new2, m_transposition_table := Some tt', m_not_initialized := False,
       m_path := pt_reset (e_path E) (st_root_arc (e_tree E) new2) 0 (pt_new (e_path E)), m_path_size := 1\<rparr>"
  have node: "L' k \<in> Q \<and> 0 \<le> nd_visits (node_at (tview new2) k) \<and> nd_visits (node_at (tview new2) k) \<le> B" if k: "is_node (tview new2) k" for k
  proof -
    from lab(3) [OF k] obtain j where j: "j \<in> reach_from ?v n" "k = the (vis j)" by blast
    then have "is_node ?v j" using sub by (auto simp: is_node_def)
    moreover have "node_at (tview new2) k = node_at ?v j" using lp(7) j by (auto simp: copy_of_def node_at_def)
    moreover have "L' k = L j" using lab(2) [OF j(1)] j(2) by (simp add: L'_def)
    ultimately show ?thesis using LQ vis0 by simp
  qed
  have "complete_but {} legal ?v L" using inv by (simp add: search_inv_def)
  note cc = complete_copy [OF this lp(7), of _ L']
  have "complete_but {} legal (tview new2) L'"
    unfolding complete_but_def
  proof (intro allI impI)
    fix k mv assume k: "is_node (tview new2) k" "mv \<in> set (legal (L' k))"
    from lab(3) [OF k(1)] obtain j where j: "j \<in> reach_from ?v n" "k = the (vis j)" by blast
    then have "is_node ?v j" "L' (the (vis j)) = L j" using sub lab(2) [OF j(1)] by (auto simp: is_node_def L'_def)
    from cc [OF j(1) this] k(2) j(2) show "mv \<in> set (untried (node_at (tview new2) k) @ arc_moves (tview new2) k)" by simp
  qed
  then have "search_inv E tinv tview legal nxt key Q L' B ?m'"
    using lp(2) lab(1) node by (simp add: search_inv_defs L'_def)
  moreover have "L' 0 = pos s" using lab(2) [OF nR] root n(3) by (simp add: L'_def)
  ultimately have "ready_for E tinv tview legal nxt key Q B (pos s) ?m'"
    unfolding ready_for_def using lp(3) reset by (auto simp: mcts_new_def)
  moreover have "prune_impl E s m (mcts_new E) = Some ?m'"
  proof -
    have r0: "is_node (tview ?t0) 0" using new_view(1) by (simp add: is_node_def)
    show ?thesis
      using g_zobrist [OF g_exact [OF s]] n(1) st_node_ok [OF t n(2)] st_node_ok [OF new_inv r0] st(1,2) lp(1,3) tt(1) purge new_root
      by (simp add: prune_impl_def mcts_new_def Let_def)
  qed
  ultimately show ?thesis using n(2,3) lp(7-9) by (intro exI [of _ ?m'] exI [of _ "\<lambda>k. the (vis k)"] exI [of _ n]) (simp add: mcts_new_def)
qed

lemma prune_ok:
  assumes inv: "search_inv E tinv tview legal nxt key Q L B m" and Q: "inj_on key Q" "pos s \<in> Q" and s: "gexact s"
    and sz: "length (g_nodes (tview (m_tree m))) < 2 ^ 31 - 1" "length (g_arcs (tview (m_tree m))) < 2 ^ 31"
  shows "\<exists>m'. prune E m s = Some m' \<and> (if \<exists>r. is_node (tview (m_tree m)) r \<and> L r = pos s
      then ready_for E tinv tview legal nxt key Q B (pos s) m'
        \<and> (\<exists>f r. is_node (tview (m_tree m)) r \<and> L r = pos s \<and> copy_of (tview (m_tree m)) r (tview (m_tree m')) f)
        \<and> length (g_arcs (tview (m_tree m'))) \<le> 1 + length (g_arcs (tview (m_tree m)))
        \<and> length (g_nodes (tview (m_tree m'))) \<le> length (g_nodes (tview (m_tree m)))
      else m' = mcts_new E)"
proof -
  let ?v = "tview (m_tree m)"
  have t: "tinv (m_tree m)" and ni: "\<not> m_not_initialized m" using inv by (auto simp: search_inv_defs)
  from getNode_ok [OF inv Q] obtain n where n: "getNode E (key (pos s)) m = Some n"
    "is_node ?v n \<and> L n = pos s \<or> n = st_invalid_node (e_tree E) \<and> \<not> (\<exists>k. is_node ?v k \<and> L k = pos s)" by blast
  show ?thesis
  proof (cases "\<exists>r. is_node ?v r \<and> L r = pos s")
    case True
    with n(2) have nn: "is_node ?v n" "L n = pos s" by auto
    then have "n \<noteq> st_invalid_node (e_tree E)" using invalid(1) by (auto simp: is_node_def)
    then have "prune E m s = prune_impl E s m (mcts_new E)" using ni g_zobrist [OF g_exact [OF s]] n(1) by (simp add: prune_def)
    with prune_impl_ok [OF inv Q s nn sz] True show ?thesis by auto
  next
    case False
    with n(2) have nn: "n = st_invalid_node (e_tree E)" by auto
    note r = root_is_node [OF t]
    obtain nd where nd: "NodeData_state (e_game E) s = Some nd" using NodeData_state_ok [OF s] by blast
    obtain t' where "st_set_node (e_tree E) (st_root_node (e_tree E) (m_tree m))
        (fst (NodeData_assign_move (node_at ?v (st_root_node (e_tree E) (m_tree m))) nd)) (m_tree m) = Some t'"
      using st_set_node_ok [OF t r] by blast
    with nd st_node_ok [OF t r] g_zobrist [OF g_exact [OF s]] have "\<exists>m1. mcts_initialize E s m = Some m1"
      by (simp add: mcts_initialize_def Let_def)
    then have "prune E m s = Some (mcts_new E)" using ni g_zobrist [OF g_exact [OF s]] n(1) nn by (auto simp: prune_def)
    with False show ?thesis by auto
  qed
qed

end

end
