(* ===== verification/Match.thy ===== *)
theory Match
  imports Mcts_Prune
begin

text \<open>
  The program of main.cpp: matches between two searches that share the game state. Each turn the player to move computes a
  move on his own tree, the move is made, and the tree of the player who is next is pruned to the new state. A match
  ends, and every move made in it is legal.
\<close>

section \<open>Model\<close>

record ('t, 'p, 's) match =
  mt_state :: 's
  mt_agent :: "('t, 'p) mcts"
  mt_human :: "('t, 'p) mcts"

definition match_round ::
  "('t, 'p, 's, 'm, 'f) mcts_env \<Rightarrow> ('s \<Rightarrow> player) \<Rightarrow> index_t \<Rightarrow> index_t \<Rightarrow> ('t, 'p, 's) match \<Rightarrow> splitmix \<Rightarrow>
   (('t, 'p, 's) match \<times> splitmix) option" where
  "match_round E toMove ka kh mt g = do {
     (mv, mt, g) \<leftarrow> (if toMove (mt_state mt) = Agent then do {
         (mv, m, g) \<leftarrow> compute E (mt_state mt) ka (mt_agent mt) g;
         Some (mv, mt\<lparr>mt_agent := m\<rparr>, g) }
       else do {
         (mv, m, g) \<leftarrow> compute E (mt_state mt) kh (mt_human mt) g;
         Some (mv, mt\<lparr>mt_human := m\<rparr>, g) });
     s \<leftarrow> g_move_hash_winner (e_game E) mv (mt_state mt);
     let mt = mt\<lparr>mt_state := s\<rparr>;
     mt \<leftarrow> (if toMove s = Agent then do { m \<leftarrow> prune E (mt_agent mt) s; Some (mt\<lparr>mt_agent := m\<rparr>) }
       else do { m \<leftarrow> prune E (mt_human mt) s; Some (mt\<lparr>mt_human := m\<rparr>) });
     Some (mt, g) }"

partial_function (option) match_loop ::
  "('t, 'p, 's, 'm, 'f) mcts_env \<Rightarrow> ('s \<Rightarrow> player) \<Rightarrow> ('s \<Rightarrow> player option) \<Rightarrow> index_t \<Rightarrow> index_t \<Rightarrow> ('t, 'p, 's) match \<Rightarrow> splitmix \<Rightarrow>
   (player \<times> ('t, 'p, 's) match \<times> splitmix) option"
where
  "match_loop E toMove ended ka kh mt g = do {
     (mt, g) \<leftarrow> match_round E toMove ka kh mt g;
     let winner = ended (mt_state mt);
     if winner = None then match_loop E toMove ended ka kh mt g else Some (the winner, mt, g) }"

declare match_loop.simps [code]

definition play_match ::
  "('t, 'p, 's, 'm, 'f) mcts_env \<Rightarrow> ('s \<Rightarrow> player) \<Rightarrow> ('s \<Rightarrow> player option) \<Rightarrow> 's \<Rightarrow> splitmix \<Rightarrow>
   (player \<times> ('t, 'p, 's) match \<times> splitmix) option" where
  "play_match E toMove ended s g =
    match_loop E toMove ended 20000 2000 \<lparr>mt_state = s, mt_agent = mcts_new E, mt_human = mcts_new E\<rparr> g"

text \<open>The states whose keys a round looks up in the tables of the two trees, those of the computation and the one after the move, and those of a whole match.\<close>

definition round_states ::
  "('t, 'p, 's, 'm, 'f) mcts_env \<Rightarrow> ('s \<Rightarrow> player) \<Rightarrow> nat \<Rightarrow> nat \<Rightarrow> ('t, 'p, 's) match \<Rightarrow> splitmix \<Rightarrow> 's set" where
  "round_states E toMove ka kh mt g =
    (let (k, m) = (if toMove (mt_state mt) = Agent then (ka, mt_agent mt) else (kh, mt_human mt)) in
     compute_states E (mt_state mt) k m g \<union>
     (case compute E (mt_state mt) (int k) m g of
        None \<Rightarrow> {} | Some (mv, _, _) \<Rightarrow> set_option (g_move_hash_winner (e_game E) mv (mt_state mt))))"

inductive match_looks ::
  "('t, 'p, 's, 'm, 'f) mcts_env \<Rightarrow> ('s \<Rightarrow> player) \<Rightarrow> ('s \<Rightarrow> player option) \<Rightarrow> nat \<Rightarrow> nat \<Rightarrow> ('t, 'p, 's) match \<Rightarrow> splitmix \<Rightarrow> 's \<Rightarrow> bool"
  for E toMove ended ka kh where
  this_round: "s \<in> round_states E toMove ka kh mt g \<Longrightarrow> match_looks E toMove ended ka kh mt g s"
| later_round: "match_round E toMove (int ka) (int kh) mt g = Some (mt', g') \<Longrightarrow> ended (mt_state mt') = None \<Longrightarrow>
    match_looks E toMove ended ka kh mt' g' s \<Longrightarrow> match_looks E toMove ended ka kh mt g s"

definition match_states :: "('t, 'p, 's, 'm, 'f) mcts_env \<Rightarrow> ('s \<Rightarrow> player) \<Rightarrow> ('s \<Rightarrow> player option) \<Rightarrow> 's \<Rightarrow> splitmix \<Rightarrow> 's set" where
  "match_states E toMove ended s g =
    {s'. match_looks E toMove ended 20000 2000 \<lparr>mt_state = s, mt_agent = mcts_new E, mt_human = mcts_new E\<rparr> g s'}"

text \<open>The tally after a match; there is no case for a draw.\<close>

record tally =
  tl_matches :: "32 word"
  tl_agent_wins :: "32 word"
  tl_human_wins :: "32 word"

definition match_tally :: "player \<Rightarrow> tally \<Rightarrow> tally option" where
  "match_tally winner t =
    (let t = t\<lparr>tl_matches := tl_matches t + 1\<rparr> in
     if as_index winner = as_index Agent then Some (t\<lparr>tl_agent_wins := tl_agent_wins t + 1\<rparr>)
     else if as_index winner = as_index Human then Some (t\<lparr>tl_human_wins := tl_human_wins t + 1\<rparr>)
     else None)"

section \<open>Computing on a pruned search\<close>

text \<open>After pruning the path is the root; the state to compute is the root's, which is pushed once more, so that each
  iteration visits the root six times.\<close>

context mcts_setup
begin

lemma connect_ready:
  assumes m: "search_inv E tinv tview legal nxt key Q L B m" "L (st_root_node (e_tree E) (m_tree m)) = pos s"
    "pt_links (e_path E) (m_path m) = [(a, st_root_node (e_tree E) (m_tree m))]"
    and s: "ginv s" "pos s \<in> Q" and Q: "inj_on key Q"
  shows "\<exists>p a'. connectStatesPath E s m = Some (m\<lparr>m_path := p, m_path_size := m_path_size m + 1\<rparr>)
    \<and> pt_links (e_path E) p = [(a, st_root_node (e_tree E) (m_tree m)), (a', st_root_node (e_tree E) (m_tree m))]"
proof -
  let ?r = "st_root_node (e_tree E) (m_tree m)" and ?v = "tview (m_tree m)"
  have t: "tinv (m_tree m)" using m(1) by (simp add: search_inv_defs)
  note r = root_is_node [OF t]
  from m(1) obtain tt where tt: "m_transposition_table m = Some tt" "table_ok key ?v tt L"
    and LQ: "\<And>k. is_node ?v k \<Longrightarrow> L k \<in> Q" by (auto simp: search_inv_defs labelled_def)
  have "map_of tt (key (pos s)) = Some ?r" using table_lookup [OF tt(2) Q LQ s(2)] r m(2) by blast
  then have gn: "getNode E (key (pos s)) m = Some ?r" using tt(1) by (simp add: getNode_def)
  have nv: "st_invalid_node (e_tree E) \<noteq> ?r" using invalid(1) r by (auto simp: is_node_def)
  obtain a' where a': "st_link (e_tree E) ?r ?r (m_tree m) = Some (a', ?r)" using link [OF t, of ?r ?r] r by (auto simp: is_node_def)
  have "pt_back (e_path E) (m_path m) = Some (a, ?r)" using back_last [of "m_path m"] m(3) by simp
  with gn nv a' g_zobrist [OF s(1)] have "connectStatesPath E s m
      = Some (m\<lparr>m_path := pt_push (e_path E) (a', ?r) (m_path m), m_path_size := m_path_size m + 1\<rparr>)"
    by (simp add: connectStatesPath_def)
  with m(3) push show ?thesis by (intro exI [of _ "pt_push (e_path E) (a', ?r) (m_path m)"] exI [of _ a']) simp
qed

lemma compute_ready:
  assumes m: "ready_for E tinv tview legal nxt key Q B (pos s) m" and s: "gexact s"
    and Q: "inj_on key Q" "pos ` compute_states E s k m g \<subseteq> Q" and B: "0 \<le> B"
    and k: "length (g_arcs (tview (m_tree m))) + k < 2 ^ 31" "length (g_nodes (tview (m_tree m))) + k < 2 ^ 31"
      "B + int k * (3 * (int (rem (pos s)) + 3)) < 2 ^ 31"
  shows "\<exists>mv m' g'. compute E s (int k) m g = Some (mv, m', g')
    \<and> (\<exists>L. search_inv E tinv tview legal nxt key Q L (B + int k * (3 * (int (rem (pos s)) + 3))) m'
        \<and> L (st_root_node (e_tree E) (m_tree m')) = pos s)
    \<and> most_visited (tview (m_tree m')) (st_root_node (e_tree E) (m_tree m')) (g_none (e_game E)) mv
    \<and> (0 < k \<and> legal (pos s) \<noteq> [] \<longrightarrow> mv \<in> set (legal (pos s)))
    \<and> nd_visits (node_at (tview (m_tree m')) (st_root_node (e_tree E) (m_tree m')))
        = nd_visits (node_at (tview (m_tree m)) (st_root_node (e_tree E) (m_tree m))) + 6 * int k
    \<and> length (g_arcs (tview (m_tree m'))) \<le> length (g_arcs (tview (m_tree m))) + k
    \<and> length (g_nodes (tview (m_tree m'))) \<le> length (g_nodes (tview (m_tree m))) + k"
proof -
  let ?r = "\<lambda>m. st_root_node (e_tree E) (m_tree m)"
  from m obtain L a where
    L: "search_inv E tinv tview legal nxt key Q L B m" "L (?r m) = pos s" "pt_links (e_path E) (m_path m) = [(a, ?r m)]" "m_path_size m = 1"
    unfolding ready_for_def by blast
  have sQ: "pos s \<in> Q" using Q(2) by (simp add: compute_states_def)
  from connect_ready [OF L(1-3) g_exact [OF s] sQ Q(1)] obtain p a' where
    p: "connectStatesPath E s m = Some (m\<lparr>m_path := p, m_path_size := m_path_size m + 1\<rparr>)"
    "pt_links (e_path E) p = [(a, ?r m), (a', ?r m)]" by blast
  let ?m0 = "m\<lparr>m_path := p, m_path_size := m_path_size m + 1\<rparr>"
  have i0: "search_inv E tinv tview legal nxt key Q L B ?m0" using L(1) by simp
  have r0: "is_node (tview (m_tree ?m0)) (?r ?m0)" using L(1) root_is_node by (auto simp: search_inv_defs)
  have pc: "path_ok E tview ?m0" "m_path_size ?m0 = int (length (pt_links (e_path E) (m_path ?m0)))" "path_count E ?m0 (?r ?m0) = 2"
    using p(2) L(4) r0 by (simp_all add: path_ok_def path_count_def)
  have K: "m_path_size ?m0 + int (rem (pos s)) + 1 = int (rem (pos s)) + 3" using L(4) by simp
  have L0: "pos s = L (?r ?m0)" using L(2) by simp
  have sz: "length (g_arcs (tview (m_tree ?m0))) + k < 2 ^ 31" "length (g_nodes (tview (m_tree ?m0))) + k < 2 ^ 31"
    "B + int k * (3 * (m_path_size ?m0 + int (rem (pos s)) + 1)) < 2 ^ 31" using k unfolding K by simp_all
  have ni: "\<not> m_not_initialized m" using L(1) by (simp add: search_inv_defs)
  have look: "pos ` looked_up E k s ?m0 g \<subseteq> Q" using Q(2) ni p(1) by (auto simp: compute_states_def)
  from compute_rest_ok [OF i0 Q(1) look B g_exact [OF s] L0 pc(1,2) sz, unfolded pc(3)] obtain mv m1 m' g' where
    m': "compute_loop E k s ?m0 g = Some (m1, g')" "getBestMove E m1 = Some (mv, m')" "computed Q s k B ?m0 mv m'"
    "?r m' = ?r ?m0" "0 < k \<and> legal (pos s) \<noteq> [] \<longrightarrow> mv \<in> set (legal (pos s))"
    "nd_visits (node_at (tview (m_tree m')) (?r m')) = nd_visits (node_at (tview (m_tree ?m0)) (?r ?m0)) + 3 * int k * 2" by blast
  have "compute E s (int k) m g = Some (mv, m', g')" using ni p(1) m'(1,2) by (simp add: compute_def)
  then show ?thesis using m'(3,5,6) unfolding computed_def K
    by (intro exI [of _ mv] exI [of _ m'] exI [of _ g']) auto
qed

end

section \<open>Positions\<close>

text \<open>The positions that legal moves lead to.\<close>

definition move_rel :: "('q \<Rightarrow> 'm list) \<Rightarrow> ('q \<Rightarrow> 'm \<Rightarrow> 'q) \<Rightarrow> ('q \<times> 'q) set" where
  "move_rel legal nxt = {(q, nxt q m) | q m. m \<in> set (legal q)}"

definition positions :: "('q \<Rightarrow> 'm list) \<Rightarrow> ('q \<Rightarrow> 'm \<Rightarrow> 'q) \<Rightarrow> 'q \<Rightarrow> 'q set" where
  "positions legal nxt q = {q'. (q, q') \<in> (move_rel legal nxt)\<^sup>*}"

lemma positions_closed [simp]: "q \<in> positions legal nxt q" "closed_under legal nxt (positions legal nxt q)"
  by (auto simp: positions_def closed_under_def move_rel_def intro: rtrancl_into_rtrancl)

lemma positions_subset: "closed_under legal nxt Q \<Longrightarrow> q \<in> Q \<Longrightarrow> positions legal nxt q \<subseteq> Q"
  by (auto simp: positions_def closed_under_def move_rel_def elim: rtrancl_induct)

section \<open>A match\<close>

text \<open>A game for a match: the recorded end agrees with the legal moves.\<close>

locale match_setup = mcts_setup E tinv tview ginv gexact pos legal nxt key rem
  for E :: "('t, 'p, 's, 'm, 'f) mcts_env" and tinv :: "'t \<Rightarrow> bool" and tview :: "'t \<Rightarrow> 'm search_graph"
    and ginv :: "'s \<Rightarrow> bool" and gexact :: "'s \<Rightarrow> bool" and pos :: "'s \<Rightarrow> 'q" and legal :: "'q \<Rightarrow> 'm list" and nxt :: "'q \<Rightarrow> 'm \<Rightarrow> 'q"
    and key :: "'q \<Rightarrow> u64" and rem :: "'q \<Rightarrow> nat" +
  fixes toMove :: "'s \<Rightarrow> player" and ended :: "'s \<Rightarrow> player option"
  assumes ended_iff: "gexact s \<Longrightarrow> ended s = None \<longleftrightarrow> legal (pos s) \<noteq> []"
begin

text \<open>The tree of a player between his turns, and when he is to move: fresh, or a search with at most \<open>N\<close> arcs and nodes and
  at most \<open>B\<close> visits of each.\<close>

definition idle :: "'q set \<Rightarrow> int \<Rightarrow> nat \<Rightarrow> ('t, 'p) mcts \<Rightarrow> bool" where
  "idle Q B N m \<longleftrightarrow> m = mcts_new E \<or> (\<exists>L. search_inv E tinv tview legal nxt key Q L B m)
     \<and> length (g_arcs (tview (m_tree m))) \<le> N \<and> length (g_nodes (tview (m_tree m))) \<le> N"

definition to_play :: "'q set \<Rightarrow> int \<Rightarrow> nat \<Rightarrow> 'q \<Rightarrow> ('t, 'p) mcts \<Rightarrow> bool" where
  "to_play Q B N q m \<longleftrightarrow> m = mcts_new E \<or> ready_for E tinv tview legal nxt key Q B q m
     \<and> length (g_arcs (tview (m_tree m))) \<le> N \<and> length (g_nodes (tview (m_tree m))) \<le> N"

lemma idle_mono: "idle Q B N m \<Longrightarrow> B \<le> B' \<Longrightarrow> N \<le> N' \<Longrightarrow> idle Q B' N' m"
  unfolding idle_def using search_inv_mono by (meson le_trans)

lemma to_play_idle: "to_play Q B N q m \<Longrightarrow> idle Q B N m"
  by (auto simp: to_play_def idle_def ready_for_def)

lemma to_play_mono: "to_play Q B N q m \<Longrightarrow> B \<le> B' \<Longrightarrow> N \<le> N' \<Longrightarrow> to_play Q B' N' q m"
  unfolding to_play_def ready_for_def using search_inv_mono [of E tinv tview legal nxt key Q _ B m B'] by (auto intro: le_trans)

lemma compute_to_play:
  assumes m: "to_play Q B N (pos s) m" and s: "gexact s" "legal (pos s) \<noteq> []"
    and Q: "inj_on key Q" "pos ` compute_states E s k m g \<subseteq> Q" and B: "0 \<le> B" and k: "0 < k"
      "int N + int k + 1 < 2 ^ 31" "B + int k * (3 * (int (rem (pos s)) + 3)) < 2 ^ 31"
  shows "\<exists>mv m' g'. compute E s (int k) m g = Some (mv, m', g') \<and> mv \<in> set (legal (pos s))
    \<and> idle Q (B + int k * (3 * (int (rem (pos s)) + 3))) (N + k + 1) m'"
proof (cases "m = mcts_new E")
  case True
  have le: "int k * (3 * (int (rem (pos s)) + 2)) \<le> B + int k * (3 * (int (rem (pos s)) + 3))"
    using B by (simp add: distrib_left)
  have k': "int k < 2 ^ 31 - 1" "int k * (3 * (int (rem (pos s)) + 2)) < 2 ^ 31" using k le by linarith+
  from compute_fresh [OF s(1) Q [unfolded True] k'] obtain mv m' g' L where
    m': "compute E s (int k) (mcts_new E) g = Some (mv, m', g')"
    "search_inv E tinv tview legal nxt key Q L (int k * (3 * (int (rem (pos s)) + 2))) m'"
    "0 < k \<and> legal (pos s) \<noteq> [] \<longrightarrow> mv \<in> set (legal (pos s))"
    "length (g_arcs (tview (m_tree m'))) \<le> k + 1" "length (g_nodes (tview (m_tree m'))) \<le> k + 1" by blast
  have "idle Q (B + int k * (3 * (int (rem (pos s)) + 3))) (N + k + 1) m'"
    unfolding idle_def using search_inv_mono [OF m'(2) le] m'(4,5) by auto
  with m'(1,3) k(1) s(2) True show ?thesis by auto
next
  case False
  then have r: "ready_for E tinv tview legal nxt key Q B (pos s) m" "length (g_arcs (tview (m_tree m))) \<le> N"
    "length (g_nodes (tview (m_tree m))) \<le> N" using m by (auto simp: to_play_def)
  have sz: "length (g_arcs (tview (m_tree m))) + k < 2 ^ 31" "length (g_nodes (tview (m_tree m))) + k < 2 ^ 31"
    using r(2,3) k(2) by simp_all
  from compute_ready [OF r(1) s(1) Q B sz k(3)] obtain mv m' g' L where
    m': "compute E s (int k) m g = Some (mv, m', g')"
    "search_inv E tinv tview legal nxt key Q L (B + int k * (3 * (int (rem (pos s)) + 3))) m'"
    "0 < k \<and> legal (pos s) \<noteq> [] \<longrightarrow> mv \<in> set (legal (pos s))"
    "length (g_arcs (tview (m_tree m'))) \<le> length (g_arcs (tview (m_tree m))) + k"
    "length (g_nodes (tview (m_tree m'))) \<le> length (g_nodes (tview (m_tree m))) + k" by blast
  have "idle Q (B + int k * (3 * (int (rem (pos s)) + 3))) (N + k + 1) m'"
    unfolding idle_def using m'(2,4,5) r(2,3) by auto
  with m'(1,3) k(1) s(2) show ?thesis by auto
qed

lemma prune_to_play:
  assumes m: "idle Q B N m" and s: "gexact s" "pos s \<in> Q" and Q: "inj_on key Q" and N: "int N < 2 ^ 31 - 1"
  shows "\<exists>m'. prune E m s = Some m' \<and> to_play Q B (N + 1) (pos s) m'"
proof (cases "m = mcts_new E")
  case True
  from mcts_initialize_ok [OF s, of m] True have "\<exists>m1. mcts_initialize E s m = Some m1" by (auto simp: mcts_new_def)
  with True have "prune E m s = Some (mcts_new E)" by (auto simp: prune_def mcts_new_def)
  then show ?thesis by (simp add: to_play_def)
next
  case False
  with m obtain L where L: "search_inv E tinv tview legal nxt key Q L B m" "length (g_arcs (tview (m_tree m))) \<le> N"
    "length (g_nodes (tview (m_tree m))) \<le> N" by (auto simp: idle_def)
  have sz: "length (g_nodes (tview (m_tree m))) < 2 ^ 31 - 1" "length (g_arcs (tview (m_tree m))) < 2 ^ 31" using L(2,3) N by simp_all
  from prune_ok [OF L(1) Q s(2,1) sz] L(2,3) show ?thesis
    by (auto simp: to_play_def split: if_splits intro: le_trans)
qed

text \<open>One round: the mover's tree becomes idle, the other one is pruned for the next turn.\<close>

lemma match_round_ok:
  assumes st: "gexact (mt_state mt)" "legal (pos (mt_state mt)) \<noteq> []"
    and tr: "if toMove (mt_state mt) = Agent then to_play Q B N (pos (mt_state mt)) (mt_agent mt) \<and> idle Q B N (mt_human mt)
      else to_play Q B N (pos (mt_state mt)) (mt_human mt) \<and> idle Q B N (mt_agent mt)"
    and Q: "inj_on key Q" "pos ` round_states E toMove ka kh mt g \<subseteq> Q" and B: "0 \<le> B" and k: "0 < ka" "0 < kh" "ka \<le> K" "kh \<le> K"
    and R: "rem (pos (mt_state mt)) \<le> R" "int N + int K + 2 < 2 ^ 31" "B + int K * (3 * (int R + 3)) < 2 ^ 31"
  shows "\<exists>mt' g' mv. match_round E toMove (int ka) (int kh) mt g = Some (mt', g') \<and> gexact (mt_state mt')
    \<and> mv \<in> set (legal (pos (mt_state mt))) \<and> pos (mt_state mt') = nxt (pos (mt_state mt)) mv
    \<and> rem (pos (mt_state mt')) < rem (pos (mt_state mt))
    \<and> (let B' = B + int K * (3 * (int R + 3)); N' = N + K + 2 in
       if toMove (mt_state mt') = Agent then to_play Q B' N' (pos (mt_state mt')) (mt_agent mt') \<and> idle Q B' N' (mt_human mt')
       else to_play Q B' N' (pos (mt_state mt')) (mt_human mt') \<and> idle Q B' N' (mt_agent mt'))"
proof -
  let ?s = "mt_state mt" and ?B = "B + int K * (3 * (int R + 3))" and ?N = "N + K + 1"
  have turn: "\<exists>mv m' g'. compute E ?s (int k) m g = Some (mv, m', g') \<and> mv \<in> set (legal (pos ?s)) \<and> idle Q ?B ?N m'"
    if "to_play Q B N (pos ?s) m" "0 < k" "k \<le> K" "pos ` compute_states E ?s k m g \<subseteq> Q" for m k
  proof -
    have le: "B + int k * (3 * (int (rem (pos ?s)) + 3)) \<le> ?B" using that(3) R(1) by (intro add_left_mono mult_mono) auto
    have "int N + int k + 1 < 2 ^ 31" "B + int k * (3 * (int (rem (pos ?s)) + 3)) < 2 ^ 31" using le R(2,3) that(3) by linarith+
    from compute_to_play [OF that(1) st Q(1) that(4) B that(2) this] idle_mono [OF _ le, of Q "N + k + 1" _ ?N] that(3)
    show ?thesis by (metis add_le_mono le_refl)
  qed
  have BN: "B \<le> ?B" "N \<le> ?N" by simp_all
  obtain mv mt1 g1 where c: "(if toMove ?s = Agent then do {
         (mv, m, g) \<leftarrow> compute E ?s (int ka) (mt_agent mt) g; Some (mv, mt\<lparr>mt_agent := m\<rparr>, g) }
       else do { (mv, m, g) \<leftarrow> compute E ?s (int kh) (mt_human mt) g; Some (mv, mt\<lparr>mt_human := m\<rparr>, g) }) = Some (mv, mt1, g1)"
    "\<And>s. g_move_hash_winner (e_game E) mv ?s = Some s \<Longrightarrow> pos s \<in> Q" "mv \<in> set (legal (pos ?s))" "mt_state mt1 = ?s" "idle Q ?B ?N (mt_agent mt1)" "idle Q ?B ?N (mt_human mt1)"
  proof (cases "toMove ?s = Agent")
    case True
    then have sub: "pos ` compute_states E ?s ka (mt_agent mt) g \<subseteq> Q" using Q(2) by (auto simp: round_states_def)
    from True tr turn [OF _ k(1,3) sub] obtain mv m' g' where
      c: "compute E ?s (int ka) (mt_agent mt) g = Some (mv, m', g')" "mv \<in> set (legal (pos ?s))" "idle Q ?B ?N m'" by auto
    have "pos s \<in> Q" if "g_move_hash_winner (e_game E) mv ?s = Some s" for s using Q(2) True c(1) that by (auto simp: round_states_def)
    with c True tr idle_mono [OF _ BN, of Q "mt_human mt"] that [of mv "mt\<lparr>mt_agent := m'\<rparr>" g'] show thesis by simp
  next
    case False
    then have sub: "pos ` compute_states E ?s kh (mt_human mt) g \<subseteq> Q" using Q(2) by (auto simp: round_states_def)
    from False tr turn [OF _ k(2,4) sub] obtain mv m' g' where
      c: "compute E ?s (int kh) (mt_human mt) g = Some (mv, m', g')" "mv \<in> set (legal (pos ?s))" "idle Q ?B ?N m'" by auto
    have "pos s \<in> Q" if "g_move_hash_winner (e_game E) mv ?s = Some s" for s using Q(2) False c(1) that by (auto simp: round_states_def)
    with c False tr idle_mono [OF _ BN, of Q "mt_agent mt"] that [of mv "mt\<lparr>mt_human := m'\<rparr>" g'] show thesis by simp
  qed
  from g_move_hash_winner [OF g_exact [OF st(1)] c(3)] obtain s where
    s: "g_move_hash_winner (e_game E) mv ?s = Some s" "gexact s" "pos s = nxt (pos ?s) mv" "rem (pos s) < rem (pos ?s)" by blast
  note q = c(2) [OF s(1)]
  have N: "int ?N < 2 ^ 31 - 1" using R(2) by simp
  note pr = prune_to_play [OF _ s(2) q Q(1) N, of ?B]
  have up: "idle Q ?B (N + K + 2) m" if "idle Q ?B ?N m" for m using idle_mono [OF that] by simp
  have N2: "?N + 1 = N + K + 2" by simp
  obtain ma where ma: "prune E (mt_agent mt1) s = Some ma" "to_play Q ?B (N + K + 2) (pos s) ma" using pr [OF c(5)] unfolding N2 by blast
  obtain mh where mh: "prune E (mt_human mt1) s = Some mh" "to_play Q ?B (N + K + 2) (pos s) mh" using pr [OF c(6)] unfolding N2 by blast
  let ?mt = "if toMove s = Agent then mt1\<lparr>mt_state := s, mt_agent := ma\<rparr> else mt1\<lparr>mt_state := s, mt_human := mh\<rparr>"
  have "match_round E toMove (int ka) (int kh) mt g = Some (?mt, g1)"
    unfolding match_round_def c(1) using s(1) ma(1) mh(1) c(4) by simp
  with s c(3) ma(2) mh(2) up [OF c(5)] up [OF c(6)] show ?thesis
    by (intro exI [of _ ?mt] exI [of _ g1] exI [of _ mv]) (simp add: Let_def)
qed

text \<open>The tree of the player to move, and the other one.\<close>

definition trees_ok :: "'q set \<Rightarrow> int \<Rightarrow> nat \<Rightarrow> ('t, 'p, 's) match \<Rightarrow> bool" where
  "trees_ok Q B N mt \<longleftrightarrow>
    (if toMove (mt_state mt) = Agent then to_play Q B N (pos (mt_state mt)) (mt_agent mt) \<and> idle Q B N (mt_human mt)
     else to_play Q B N (pos (mt_state mt)) (mt_human mt) \<and> idle Q B N (mt_agent mt))"

lemma match_loop_ok:
  assumes Q: "inj_on key Q" and k: "0 < ka" "0 < kh" "ka \<le> K" "kh \<le> K"
    and "gexact (mt_state mt)" "\<And>s. match_looks E toMove ended ka kh mt g s \<Longrightarrow> pos s \<in> Q" "legal (pos (mt_state mt)) \<noteq> []" "trees_ok Q B N mt" "0 \<le> B"
    and "rem (pos (mt_state mt)) \<le> r" "r \<le> R" "int N + int r * (int K + 2) < 2 ^ 31" "B + int r * (int K * (3 * (int R + 3))) < 2 ^ 31"
  shows "\<exists>w mt' g'. match_loop E toMove ended (int ka) (int kh) mt g = Some (w, mt', g') \<and> gexact (mt_state mt')
    \<and> ended (mt_state mt') = Some w \<and> (pos (mt_state mt), pos (mt_state mt')) \<in> (move_rel legal nxt)\<^sup>+"
  using assms(6-)
proof (induction r arbitrary: mt B N g)
  case 0
  from 0(3) g_move_hash [OF g_exact [OF 0(1)], of "hd (legal (pos (mt_state mt)))"] 0(6) show ?case by auto
next
  case (Suc r)
  let ?W = "int K * (3 * (int R + 3))" and ?s = "mt_state mt"
  have W: "int (Suc r) * ?W = ?W + int r * ?W" "int (Suc r) * (int K + 2) = int K + 2 + int r * (int K + 2)" by (simp_all add: distrib_right)
  have W0: "0 \<le> ?W" "0 \<le> int r * ?W" "0 \<le> int r * (int K + 2)" by simp_all
  have R: "rem (pos ?s) \<le> R" "int N + int K + 2 < 2 ^ 31" "B + ?W < 2 ^ 31" using Suc.prems(6-9) W W0 by linarith+
  have sub: "pos ` round_states E toMove ka kh mt g \<subseteq> Q" by (rule image_subsetI) (rule Suc.prems(2) [OF match_looks.this_round])
  from match_round_ok [OF Suc.prems(1,3) Suc.prems(4) [unfolded trees_ok_def] Q sub Suc.prems(5) k R]
  obtain mt1 g1 mv where m1: "match_round E toMove (int ka) (int kh) mt g = Some (mt1, g1)" "gexact (mt_state mt1)"
    "mv \<in> set (legal (pos ?s))" "pos (mt_state mt1) = nxt (pos ?s) mv" "rem (pos (mt_state mt1)) < rem (pos ?s)"
    "trees_ok Q (B + ?W) (N + K + 2) mt1" by (auto simp: trees_ok_def Let_def)
  have rel: "(pos ?s, pos (mt_state mt1)) \<in> move_rel legal nxt" using m1(3,4) by (auto simp: move_rel_def)
  show ?case
  proof (cases "ended (mt_state mt1)")
    case (Some w)
    then have "match_loop E toMove ended (int ka) (int kh) mt g = Some (w, mt1, g1)"
      using m1(1) by (subst match_loop.simps) simp
    with Some m1(2) rel show ?thesis by auto
  next
    case None
    then have l1: "legal (pos (mt_state mt1)) \<noteq> []" using ended_iff [OF m1(2)] by simp
    have r1: "rem (pos (mt_state mt1)) \<le> r" "r \<le> R" using m1(5) Suc.prems(6,7) by linarith+
    have b1: "0 \<le> B + ?W" "int (N + K + 2) + int r * (int K + 2) < 2 ^ 31" "B + ?W + int r * ?W < 2 ^ 31"
      using Suc.prems(5,8,9) W W0 by simp_all
    have q1: "pos s \<in> Q" if "match_looks E toMove ended ka kh mt1 g1 s" for s
      by (rule Suc.prems(2) [OF match_looks.later_round [OF m1(1) None that]])
    from Suc.IH [OF m1(2) q1 l1 m1(6) b1(1) r1 b1(2,3)] obtain w mt' g' where
      m': "match_loop E toMove ended (int ka) (int kh) mt1 g1 = Some (w, mt', g')" "gexact (mt_state mt')" "ended (mt_state mt') = Some w"
      "(pos (mt_state mt1), pos (mt_state mt')) \<in> (move_rel legal nxt)\<^sup>+" by blast
    have "match_loop E toMove ended (int ka) (int kh) mt g = Some (w, mt', g')"
      using m1(1) None m'(1) by (subst match_loop.simps) simp
    with m' rel show ?thesis by (auto intro: trancl_into_trancl2)
  qed
qed

lemma play_match_ok:
  assumes s: "gexact s" "legal (pos s) \<noteq> []" "inj_on key (pos ` match_states E toMove ended s g)" and r: "rem (pos s) \<le> 180"
  shows "\<exists>w mt' g'. play_match E toMove ended s g = Some (w, mt', g') \<and> gexact (mt_state mt')
    \<and> ended (mt_state mt') = Some w \<and> (pos s, pos (mt_state mt')) \<in> (move_rel legal nxt)\<^sup>+"
proof -
  let ?Q = "pos ` match_states E toMove ended s g" and ?mt = "\<lparr>mt_state = s, mt_agent = mcts_new E, mt_human = mcts_new E\<rparr>"
  have t: "trees_ok ?Q 0 0 ?mt" by (simp add: trees_ok_def to_play_def idle_def)
  have q: "pos s' \<in> ?Q" if "match_looks E toMove ended 20000 2000 ?mt g s'" for s' using that by (simp add: match_states_def)
  from match_loop_ok [OF s(3), of 20000 2000 20000 ?mt g, OF _ _ _ _ _ q, of 0 0 180 180] s r t show ?thesis
    unfolding play_match_def by simp
qed

text \<open>All of these positions can follow from the first one.\<close>

lemma compute_states_closed:
  assumes m: "to_play Q B N (pos s) m" and s: "gexact s" "pos s \<in> Q" and Q: "inj_on key Q" "closed_under legal nxt Q" and B: "0 \<le> B"
    and k: "int N + int k + 1 < 2 ^ 31" "B + int k * (3 * (int (rem (pos s)) + 3)) < 2 ^ 31"
  shows "pos ` compute_states E s k m g \<subseteq> Q"
proof (cases "m = mcts_new E")
  case True
  have "int k * (3 * (int (rem (pos s)) + 2)) \<le> B + int k * (3 * (int (rem (pos s)) + 3))" using B by (simp add: distrib_left)
  then have "int k < 2 ^ 31 - 1" "int k * (3 * (int (rem (pos s)) + 2)) < 2 ^ 31" using k by linarith+
  from compute_states_within [of "\<lambda>_. Q", OF _ _ s Q(1) this] Q(2) True show ?thesis by (auto simp: closed_under_def)
next
  case False
  let ?r = "\<lambda>m. st_root_node (e_tree E) (m_tree m)"
  from m False obtain L a where
    L: "search_inv E tinv tview legal nxt key Q L B m" "L (?r m) = pos s" "pt_links (e_path E) (m_path m) = [(a, ?r m)]" "m_path_size m = 1"
    and N: "length (g_arcs (tview (m_tree m))) \<le> N" "length (g_nodes (tview (m_tree m))) \<le> N"
    unfolding to_play_def ready_for_def by blast
  from connect_ready [OF L(1-3) g_exact [OF s(1)] s(2) Q(1)] obtain p a' where
    p: "connectStatesPath E s m = Some (m\<lparr>m_path := p, m_path_size := m_path_size m + 1\<rparr>)"
    "pt_links (e_path E) p = [(a, ?r m), (a', ?r m)]" by blast
  let ?m0 = "m\<lparr>m_path := p, m_path_size := m_path_size m + 1\<rparr>"
  have i0: "search_inv E tinv tview legal nxt key Q L B ?m0" and ni: "\<not> m_not_initialized m" using L(1) by (simp, simp add: search_inv_defs)
  have r0: "is_node (tview (m_tree ?m0)) (?r ?m0)" using L(1) root_is_node by (auto simp: search_inv_defs)
  have pc: "path_ok E tview ?m0" "m_path_size ?m0 = int (length (pt_links (e_path E) (m_path ?m0)))"
    using p(2) L(4) r0 by (simp_all add: path_ok_def)
  have K: "m_path_size ?m0 + int (rem (pos s)) + 1 = int (rem (pos s)) + 3" using L(4) by simp
  have L0: "pos s = L (?r ?m0)" using L(2) by simp
  have sz: "length (g_arcs (tview (m_tree ?m0))) + k < 2 ^ 31" "length (g_nodes (tview (m_tree ?m0))) + k < 2 ^ 31"
    "B + int k * (3 * (m_path_size ?m0 + int (rem (pos s)) + 1)) < 2 ^ 31" using k N unfolding K by simp_all
  have "pos ` looked_up E k s ?m0 g \<subseteq> Q"
    using looked_up_within [of "\<lambda>_. Q", OF _ _ i0 Q(1) B g_exact [OF s(1)] L0 pc sz] Q(2) by (auto simp: closed_under_def)
  with s(2) ni p(1) show ?thesis by (auto simp: compute_states_def)
qed

lemma match_looks_closed:
  assumes Q: "inj_on key Q" "closed_under legal nxt Q" and k: "0 < ka" "0 < kh" "ka \<le> K" "kh \<le> K"
    and "match_looks E toMove ended ka kh mt g s"
    and "gexact (mt_state mt)" "pos (mt_state mt) \<in> Q" "legal (pos (mt_state mt)) \<noteq> []" "trees_ok Q B N mt" "0 \<le> B"
    and "rem (pos (mt_state mt)) \<le> r" "r \<le> R" "int N + int r * (int K + 2) < 2 ^ 31" "B + int r * (int K * (3 * (int R + 3))) < 2 ^ 31"
  shows "pos s \<in> Q"
proof -
  have round: "pos ` round_states E toMove ka kh mt g \<subseteq> Q"
    if st: "gexact (mt_state mt)" "pos (mt_state mt) \<in> Q" "trees_ok Q B N mt" "0 \<le> B" "legal (pos (mt_state mt)) \<noteq> []"
      and R: "rem (pos (mt_state mt)) \<le> R" "int N + int K + 2 < 2 ^ 31" "B + int K * (3 * (int R + 3)) < 2 ^ 31" for mt g B N
  proof -
    let ?s = "mt_state mt"
    have sub: "pos ` compute_states E ?s k' m g \<subseteq> Q \<and> (\<forall>mv m' g'. compute E ?s (int k') m g = Some (mv, m', g') \<longrightarrow> mv \<in> set (legal (pos ?s)))"
      if "to_play Q B N (pos ?s) m" "0 < k'" "k' \<le> K" for m k'
    proof -
      have "B + int k' * (3 * (int (rem (pos ?s)) + 3)) \<le> B + int K * (3 * (int R + 3))" using that(3) R(1) by (intro add_left_mono mult_mono) auto
      then have b: "int N + int k' + 1 < 2 ^ 31" "B + int k' * (3 * (int (rem (pos ?s)) + 3)) < 2 ^ 31" using R(2,3) that(3) by linarith+
      note sub = compute_states_closed [OF that(1) st(1,2) Q st(4) b, of g]
      from compute_to_play [OF that(1) st(1,5) Q(1) sub st(4) that(2) b] sub show ?thesis by auto
    qed
    have hw: "pos s \<in> Q" if "mv \<in> set (legal (pos ?s))" "g_move_hash_winner (e_game E) mv ?s = Some s" for mv s
      using g_move_hash_winner [OF g_exact [OF st(1)] that(1)] that Q(2) st(2) by (auto simp: closed_under_def)
    show ?thesis
    proof (cases "toMove ?s = Agent")
      case True
      with st(3) sub [OF _ k(1,3), of "mt_agent mt"] hw show ?thesis
        by (fastforce simp: trees_ok_def round_states_def split: option.splits)
    next
      case False
      with st(3) sub [OF _ k(2,4), of "mt_human mt"] hw show ?thesis
        by (fastforce simp: trees_ok_def round_states_def split: option.splits)
    qed
  qed
  show ?thesis
    using assms(7-)
  proof (induction arbitrary: B N r rule: match_looks.induct)
    case (this_round s mt g)
    let ?W = "int K * (3 * (int R + 3))"
    have "r \<noteq> 0" using this_round.prems(3,6) g_move_hash [OF g_exact [OF this_round.prems(1)], of "hd (legal (pos (mt_state mt)))"] by auto
    then obtain j where j: "r = Suc j" by (cases r) auto
    have W: "int (Suc j) * ?W = ?W + int j * ?W" "int (Suc j) * (int K + 2) = int K + 2 + int j * (int K + 2)" by (simp_all add: distrib_right)
    have W0: "0 \<le> ?W" "0 \<le> int j * ?W" "0 \<le> int j * (int K + 2)" by simp_all
    have R: "rem (pos (mt_state mt)) \<le> R" "int N + int K + 2 < 2 ^ 31" "B + ?W < 2 ^ 31"
      using this_round.prems(6-9) W W0 unfolding j by linarith+
    from round [OF this_round.prems(1,2,4,5,3) R] this_round.hyps show ?case by blast
  next
    case (later_round mt g mt' g' s)
    let ?W = "int K * (3 * (int R + 3))" and ?s = "mt_state mt"
    have "r \<noteq> 0" using later_round.prems(3,6) g_move_hash [OF g_exact [OF later_round.prems(1)], of "hd (legal (pos ?s))"] by auto
    then obtain j where j: "r = Suc j" by (cases r) auto
    have W: "int (Suc j) * ?W = ?W + int j * ?W" "int (Suc j) * (int K + 2) = int K + 2 + int j * (int K + 2)" by (simp_all add: distrib_right)
    have W0: "0 \<le> ?W" "0 \<le> int j * ?W" "0 \<le> int j * (int K + 2)" by simp_all
    have R: "rem (pos ?s) \<le> R" "int N + int K + 2 < 2 ^ 31" "B + ?W < 2 ^ 31"
      using later_round.prems(6-9) W W0 unfolding j by linarith+
    note sub = round [OF later_round.prems(1,2,4,5,3) R, of g]
    from match_round_ok [OF later_round.prems(1,3) later_round.prems(4) [unfolded trees_ok_def] Q(1) sub later_round.prems(5) k R] later_round.hyps(1)
    obtain mv where m1: "gexact (mt_state mt')" "mv \<in> set (legal (pos ?s))" "pos (mt_state mt') = nxt (pos ?s) mv"
      "rem (pos (mt_state mt')) < rem (pos ?s)" "trees_ok Q (B + ?W) (N + K + 2) mt'" by (auto simp: trees_ok_def Let_def)
    have q1: "pos (mt_state mt') \<in> Q" using Q(2) later_round.prems(2) m1(2,3) by (auto simp: closed_under_def)
    have l1: "legal (pos (mt_state mt')) \<noteq> []" using ended_iff [OF m1(1)] later_round.hyps(2) by simp
    have r1: "rem (pos (mt_state mt')) \<le> j" "j \<le> R" using m1(4) later_round.prems(6,7) unfolding j by linarith+
    have b1: "0 \<le> B + ?W" "int (N + K + 2) + int j * (int K + 2) < 2 ^ 31" "B + ?W + int j * ?W < 2 ^ 31"
      using later_round.prems(5,8,9) W W0 unfolding j by simp_all
    show ?case by (rule later_round.IH [OF m1(1) q1 l1 m1(5) b1(1) r1 b1(2,3)])
  qed
qed

lemma match_states_closed:
  assumes "gexact s" "legal (pos s) \<noteq> []" "inj_on key (positions legal nxt (pos s))" "rem (pos s) \<le> 180"
  shows "pos ` match_states E toMove ended s g \<subseteq> positions legal nxt (pos s)"
proof -
  let ?Q = "positions legal nxt (pos s)" and ?mt = "\<lparr>mt_state = s, mt_agent = mcts_new E, mt_human = mcts_new E\<rparr>"
  have t: "trees_ok ?Q 0 0 ?mt" by (simp add: trees_ok_def to_play_def idle_def)
  have "pos s' \<in> ?Q" if "match_looks E toMove ended 20000 2000 ?mt g s'" for s'
    using match_looks_closed [OF assms(3) positions_closed(2) _ _ _ _ that, of 20000 0 0 180 180] assms t by simp
  then show ?thesis by (auto simp: match_states_def)
qed

end

section \<open>Arithmetic\<close>

text \<open>The selection formula over the real numbers.\<close>

definition real_ops :: "real float_ops" where
  "real_ops =
    \<lparr>f_of_int = of_int, f_add = (+), f_mul = (*), f_div = (/), f_sqrt = sqrt, f_log = ln, f_gt = (\<lambda>x y. x > y), f_eq = (=)\<rparr>"

end
