(* ===== verification/Connect_Four_Mcts.thy ===== *)
theory Connect_Four_Mcts
  imports Match Connect_Four_Play
begin

unbundle bit_operations_syntax

text \<open>
  Connect Four as the game of the search. A position is the board with the player who moved last; the state may carry any
  winner, because the descent of the search does not keep \<^verbatim>\<open>m_winner\<close> up to date.
\<close>

definition cf_ops :: "uniform_int \<Rightarrow> int \<Rightarrow> (cf_state, move) game_ops" where
  "cf_ops unif C =
    \<lparr>g_zobrist = zobrist, g_moves = moves, g_move_hash = move_hash, g_move_hash_winner = move_hash_winner,
     g_simulate = simulate unif, g_result = result, g_playerJustMoved = playerJustMoved, g_lastMove = lastMove,
     g_new_moves = moves_new (nat C) move_invalid, g_none = move_none, g_invalid = move_invalid, g_max_no_moves = C\<rparr>"

type_synonym cf_pos = "player matrix \<times> player"

definition cf_ginv :: "int \<Rightarrow> int \<Rightarrow> cf_state \<Rightarrow> bool" where
  "cf_ginv R C s \<longleftrightarrow> cf_wf s \<and> hash_ok s \<and> NumRows s = R \<and> NumCols s = C \<and> (outcome (m_board s) = Invalid \<longrightarrow> m_winner s = Invalid)"

definition cf_exact :: "int \<Rightarrow> int \<Rightarrow> cf_state \<Rightarrow> bool" where
  "cf_exact R C s \<longleftrightarrow> cf_inv s \<and> hash_ok s \<and> NumRows s = R \<and> NumCols s = C"

definition cf_pos :: "cf_state \<Rightarrow> cf_pos" where
  "cf_pos s = (m_board s, m_player_just_moved s)"

definition cf_legal :: "cf_pos \<Rightarrow> move list" where
  "cf_legal q =
    (if outcome (fst q) = Invalid then filter (\<lambda>c. matrix_at (fst q) 0 c = Some Vacant) [0..m_J (fst q) - 1] else [])"

definition cf_nxt :: "cf_pos \<Rightarrow> move \<Rightarrow> cf_pos" where
  "cf_nxt q c =
    (case drop_row (fst q) c (m_I (fst q)) of
       None \<Rightarrow> q
     | Some r \<Rightarrow> (the (matrix_put (fst q) r c (opponent (snd q))), opponent (snd q)))"

definition cf_key :: "cf_pos \<Rightarrow> u64" where
  "cf_key q = (initial_hash XOR board_hash (fst q)) XOR the (m_zobrist_player_keys (as_index (snd q)))"

definition cf_rem :: "cf_pos \<Rightarrow> nat" where
  "cf_rem q = length (m_data (fst q)) - pieces (fst q)"

lemma cf_legal_pos: "cf_legal (cf_pos s) = (if outcome (m_board s) = Invalid then open_cols s else [])"
  by (simp add: cf_legal_def cf_pos_def open_cols_def)

lemma move_nxt: "move c s = Some (rc, s') \<Longrightarrow> cf_pos s' = cf_nxt (cf_pos s) c"
  by (auto simp: move_def Let_def cf_pos_def cf_nxt_def split: bind_splits)

lemma hash_pos: "hash (rc, s) = Some (rc', s') \<Longrightarrow> cf_pos s' = cf_pos s \<and> rc' = rc"
  by (auto simp: hash_def cf_pos_def split: bind_splits prod.splits)

lemma winner_frame: "winner rc s = Some s' \<Longrightarrow> s' = s\<lparr>m_winner := m_winner s'\<rparr>"
  by (auto simp: winner_def Let_def split: bind_splits if_splits prod.splits)

lemma move_hash_pos: "move_hash c s = Some s' \<Longrightarrow> cf_pos s' = cf_nxt (cf_pos s) c"
  by (auto simp: move_hash_def split: bind_splits dest!: move_nxt hash_pos)

lemma move_hash_winner_pos:
  assumes "move_hash_winner c s = Some s'"
  shows "cf_pos s' = cf_nxt (cf_pos s) c"
proof -
  from assms obtain rc s1 rc' s2 where s': "move c s = Some (rc, s1)" "hash (rc, s1) = Some (rc', s2)" "winner rc' s2 = Some s'"
    by (auto simp: move_hash_winner_def split: bind_splits)
  have "cf_pos s' = cf_pos (s2\<lparr>m_winner := m_winner s'\<rparr>)" by (rule arg_cong [OF winner_frame [OF s'(3)]])
  also have "\<dots> = cf_pos s2" by (simp add: cf_pos_def)
  finally have "cf_pos s' = cf_pos s2" .
  with move_nxt [OF s'(1)] hash_pos [OF s'(2)] show ?thesis by simp
qed

lemma cf_next_rem: "cf_next col s s' \<Longrightarrow> cf_wf s' \<Longrightarrow> cf_rem (cf_pos s') < cf_rem (cf_pos s)"
  using cf_next_pieces [of col s s'] by (simp add: cf_rem_def cf_pos_def)

lemma cf_key_pos: "cf_wf s \<Longrightarrow> hash_ok s \<Longrightarrow> zobrist s = Some (cf_key (cf_pos s))"
  by (auto simp: zobrist_def hash_ok_def cf_key_def cf_pos_def cf_wf_def is_mover_def m_zobrist_player_keys_def
      as_index_def aref_def m_zobrist_player_key_values_def)

lemma cf_exact_ginv: "cf_exact R C s \<Longrightarrow> cf_ginv R C s"
  by (simp add: cf_exact_def cf_ginv_def cf_inv_def)

lemma cf_exact_moves:
  assumes "cf_exact R C s"
  shows "\<exists>ms. moves s (moves_new (nat C) move_invalid) = Some (cf_legal (cf_pos s) \<noteq> [], ms) \<and> moves_wf ms
    \<and> (cf_legal (cf_pos s) \<noteq> [] \<longrightarrow> contents ms = cf_legal (cf_pos s))"
proof -
  have wf: "cf_wf s" "NumCols s = C" and out: "m_winner s = outcome (m_board s)" using assms by (auto simp: cf_exact_def cf_inv_def)
  then have C: "0 \<le> C" by (simp add: cf_wf_def board_inv_def cf_dims_def)
  have full: "cf_full s \<Longrightarrow> m_winner s \<noteq> Invalid" using outcome_full [of s] assms by (simp add: cf_exact_def)
  have "(\<not> cf_full s \<and> m_winner s = Invalid) = (cf_legal (cf_pos s) \<noteq> [])"
    using full open_cols_not_Nil [OF wf(1)] out by (auto simp: cf_legal_pos)
  with moves_ok [OF wf(1), of "moves_new (nat C) move_invalid"] wf(2) C out show ?thesis
    by (auto simp: capacity_new cf_legal_pos split: if_splits)
qed

lemma cf_legal_inv:
  assumes "cf_ginv R C s" "m \<in> set (cf_legal (cf_pos s))"
  shows "cf_inv s" "m_winner s = Invalid" "matrix_at (m_board s) 0 m = Some Vacant"
  using assms by (auto simp: cf_legal_pos cf_ginv_def cf_inv_def open_cols_def split: if_splits)

lemma cf_game:
  assumes "uniform_dist unif"
  shows "game (cf_ops unif C) (cf_ginv R C) (cf_exact R C) cf_pos cf_legal cf_nxt cf_key cf_rem"
proof
  fix s :: cf_state and g :: splitmix
  show "cf_exact R C s \<Longrightarrow> cf_ginv R C s" by (rule cf_exact_ginv)
  show "cf_exact R C s \<Longrightarrow> \<exists>ms. g_moves (cf_ops unif C) s (g_new_moves (cf_ops unif C)) = Some (cf_legal (cf_pos s) \<noteq> [], ms)
      \<and> moves_wf ms \<and> (cf_legal (cf_pos s) \<noteq> [] \<longrightarrow> mset (contents ms) = mset (cf_legal (cf_pos s)))"
    using cf_exact_moves [of R C s] by (auto simp: cf_ops_def)
  assume s: "cf_ginv R C s"
  then have wf: "cf_wf s" "hash_ok s" "NumCols s = C" by (auto simp: cf_ginv_def)
  then have C: "0 \<le> C" by (simp add: cf_wf_def board_inv_def cf_dims_def)
  show "g_zobrist (cf_ops unif C) s = Some (cf_key (cf_pos s))" using cf_key_pos wf by (simp add: cf_ops_def)
  have "length (open_cols s) \<le> nat C" using length_filter_le [of _ "[0..C - 1]"] wf(3) by (simp add: open_cols_def)
  then have "int (length (open_cols s)) \<le> C" "distinct (open_cols s)" using C by (linarith, simp add: open_cols_def)
  then show "distinct (cf_legal (cf_pos s)) \<and> int (length (cf_legal (cf_pos s))) \<le> g_max_no_moves (cf_ops unif C)"
    using C by (simp add: cf_legal_pos cf_ops_def)
  show "\<exists>s' g'. g_simulate (cf_ops unif C) s g = Some (s', g')"
    using simulate_wf_ok [OF assms wf(1), of g] by (auto simp: cf_ops_def)
  fix m assume "m \<in> set (cf_legal (cf_pos s))"
  note m = cf_legal_inv [OF s this]
  have out: "outcome (m_board s) = Invalid" using m(1,2) by (simp add: cf_inv_def)
  from move_hash_step [OF wf(1) m(3)] obtain s1 where
    s1: "move_hash m s = Some s1" "cf_wf s1" "cf_next m s s1" "m_winner s1 = m_winner s" "hash_ok s \<longrightarrow> hash_ok s1" by blast
  have "cf_ginv R C s1" using s s1 m(2) cf_next_dims [OF s1(3)] by (simp add: cf_ginv_def)
  then show "\<exists>s'. g_move_hash (cf_ops unif C) m s = Some s' \<and> cf_ginv R C s' \<and> cf_pos s' = cf_nxt (cf_pos s) m
      \<and> cf_rem (cf_pos s') < cf_rem (cf_pos s)"
    using s1(1) cf_next_rem [OF s1(3,2)] move_hash_pos [OF s1(1)] by (simp add: cf_ops_def)
  from move_hash_winner_step [OF m] obtain s2 where
    s2: "move_hash_winner m s = Some s2" "cf_inv s2" "cf_next m s s2" "hash_ok s \<longrightarrow> hash_ok s2" by blast
  have "cf_exact R C s2" using s s2 cf_next_dims [OF s2(3)] by (simp add: cf_ginv_def cf_exact_def)
  then show "\<exists>s'. g_move_hash_winner (cf_ops unif C) m s = Some s' \<and> cf_exact R C s' \<and> cf_pos s' = cf_nxt (cf_pos s) m
      \<and> cf_rem (cf_pos s') < cf_rem (cf_pos s) \<and> g_lastMove (cf_ops unif C) s' = m"
    using s2(1,3) cf_next_rem [OF s2(3) cf_inv_wf [OF s2(2)]] move_hash_winner_pos [OF s2(1)]
    by (simp add: cf_ops_def lastMove_def cf_next_def)
qed

section \<open>The search on Connect Four\<close>

text \<open>The environment: Connect Four with \<open>C\<close> columns, any tree and path, any floating-point operations and any distribution.\<close>

definition cf_search ::
  "('t, move arc_data, move node_data) tree_ops \<Rightarrow> 'p path_ops \<Rightarrow> uniform_int \<Rightarrow> 'f float_ops \<Rightarrow> int \<Rightarrow> ('t, 'p, cf_state, move, 'f) mcts_env" where
  "cf_search T P unif F C = \<lparr>e_tree = T, e_path = P, e_game = cf_ops unif C, e_float = F, e_unif = unif\<rparr>"

lemma cf_search_simps [simp]:
  "e_tree (cf_search T P unif F C) = T" "e_path (cf_search T P unif F C) = P" "e_game (cf_search T P unif F C) = cf_ops unif C"
  "g_none (cf_ops unif C) = move_none"
  by (simp_all add: cf_search_def cf_ops_def)

lemma cf_setup:
  assumes "search_tree T tinv tview" "search_path P" "uniform_dist unif"
  shows "match_setup (cf_search T P unif F C) tinv tview (cf_ginv R C) (cf_exact R C) cf_pos cf_legal cf_nxt cf_key cf_rem ended"
proof -
  have "mcts_setup (cf_search T P unif F C) tinv tview (cf_ginv R C) (cf_exact R C) cf_pos cf_legal cf_nxt cf_key cf_rem"
    unfolding mcts_setup_def using assms cf_game [OF assms(3)] by (simp add: cf_search_def)
  moreover have "ended s = None \<longleftrightarrow> cf_legal (cf_pos s) \<noteq> []" if "cf_exact R C s" for s
  proof -
    have s: "cf_inv s" "m_winner s = outcome (m_board s)" using that by (auto simp: cf_exact_def cf_inv_def)
    have "m_winner s = Invalid \<Longrightarrow> open_cols s \<noteq> []"
      using open_cols_not_Nil [OF cf_inv_wf [OF s(1)]] outcome_full [OF s(1)] by blast
    with s(2) show ?thesis by (auto simp: ended_def cf_legal_pos)
  qed
  ultimately show ?thesis by (simp add: match_setup_def match_setup_axioms_def)
qed

lemmas cf_mcts = match_setup.axioms(1) [OF cf_setup]

text \<open>The environment with the instances of the tree and the path, for closed examples.\<close>

type_synonym cf_tree = "(move arc_data, move node_data) tree"

definition cf_env :: "uniform_int \<Rightarrow> 'f float_ops \<Rightarrow> int \<Rightarrow> (cf_tree, path, cf_state, move, 'f) mcts_env" where
  "cf_env unif F C = cf_search (digraph_ops (ArcData (cf_ops unif C)) NodeData) digraph_path_ops unif F C"

lemma cf_env_simps [simp]:
  "st_root_node (e_tree (cf_env unif F C)) = root_node" "e_game (cf_env unif F C) = cf_ops unif C" "pt_links (e_path (cf_env unif F C)) p = p"
  by (simp_all add: cf_env_def digraph_ops_def digraph_path_ops_def)

lemma digraph_ops_root [simp]: "st_root_node (digraph_ops da dn) = root_node"
  by (simp add: digraph_ops_def)

lemmas digraph_contracts = dg.search_tree_axioms dp.search_path_axioms um.uniform_dist_axioms

interpretation cfm: match_setup "cf_env uniform_mod F C" digraph_inv view "cf_ginv R C" "cf_exact R C" cf_pos cf_legal cf_nxt cf_key cf_rem
    playerToMove ended for F :: "'f float_ops" and R C :: int
  unfolding cf_env_def by (rule cf_setup [OF digraph_contracts])

lemma cf_reach_exact: "cf_dims R C \<Longrightarrow> cf_reach R C s \<Longrightarrow> cf_exact R C s"
  using cf_reach_inv [of R C s] by (simp add: cf_exact_def)

end
