(* ===== verification/Connect_Four_Search.thy ===== *)
theory Connect_Four_Search
  imports Connect_Four_Mcts
begin

text \<open>
  The properties of the search on Connect Four: a computed move is legal and the move of a most visited child, pruning keeps
  the part of the tree below the position, and a match between two searches always ends with the outcome of its final
  board. They hold for every tree and path that meet the contracts of \<open>Search_Tree\<close>, and rest on one assumption about the Zobrist keys, which the transposition table relies on:
  no two of the positions that are looked up, or that a search stands for, have the same key.
\<close>

section \<open>An endgame\<close>

text \<open>A game of 40 moves that leaves the two upper cells of the first column, and the two positions that follow.\<close>

definition endgame_moves :: "move list" where
  "endgame_moves = [2, 2, 2, 1, 2, 2, 3, 6, 4, 4, 3, 6, 1, 1, 0, 2, 4, 5, 6, 1, 6, 6, 1, 0, 4, 4, 5, 5, 1, 3, 4, 5, 5, 3, 0, 5, 3, 6, 3, 0]"

definition endgame :: cf_state where
  "endgame =
    \<lparr>m_zobrist_hash = 2481481689493376124,
     m_board =
       \<lparr>m_I = 6, m_J = 7, m_BaseI = 0, m_BaseJ = 0,
        m_data =
          [Vacant, Human, Agent, Human, Human, Agent, Agent, Vacant, Human, Agent, Human, Agent, Human, Agent,
           Agent, Agent, Human, Agent, Human, Agent, Human, Human, Agent, Human, Agent, Human, Agent, Human,
           Agent, Human, Agent, Human, Agent, Human, Agent, Human, Agent, Human, Human, Human, Agent, Agent]\<rparr>,
     m_no_moves = 40, m_player_just_moved = Agent, m_winner = Invalid, m_move = 0\<rparr>"

definition endgame1 :: cf_state where "endgame1 = the (move_hash_winner 0 endgame)"

definition endgame2 :: cf_state where "endgame2 = the (move_hash_winner 0 endgame1)"

lemma endgame_play: "cf_play 7 endgame_moves (connect_four 6 7 Agent) = Some endgame"
  by code_simp

lemma endgame_steps:
  "move_hash_winner 0 endgame = Some endgame1" "move_hash_winner 0 endgame1 = Some endgame2"
  "m_winner endgame = Invalid" "m_winner endgame1 = Invalid" "m_winner endgame2 = Vacant"
  "open_cols endgame = [0]" "open_cols endgame1 = [0]"
  by code_simp+

lemma endgame_keys: "distinct (map zobrist [endgame, endgame1, endgame2])"
  by code_simp

lemma endgame_reach: "cf_reach 6 7 endgame"
  by (rule cf_play_reach [OF cf_reach.start endgame_play]) simp

lemma endgame_exact: "cf_exact 6 7 endgame" "cf_exact 6 7 endgame1" "cf_exact 6 7 endgame2"
proof -
  have step: "cf_exact 6 7 s'" if "cf_exact 6 7 s" "m_winner s = Invalid" "open_cols s = [0]" "move_hash_winner 0 s = Some s'" for s s'
  proof -
    have "0 \<in> set (open_cols s)" using that(3) by simp
    then have "matrix_at (m_board s) 0 0 = Some Vacant" by (simp add: open_cols_iff)
    with that move_hash_winner_step [of s 0] show ?thesis by (auto simp: cf_exact_def dest: cf_next_dims)
  qed
  show e: "cf_exact 6 7 endgame" by (rule cf_reach_exact [OF _ endgame_reach]) (simp add: cf_dims_def)
  show e1: "cf_exact 6 7 endgame1" using step [OF e] endgame_steps by blast
  show "cf_exact 6 7 endgame2" using step [OF e1] endgame_steps by blast
qed

lemma endgame_legal: "cf_legal (cf_pos endgame) = [0]" "cf_legal (cf_pos endgame1) = [0]" "cf_legal (cf_pos endgame2) = []"
proof -
  have "cf_legal (cf_pos s) = (if m_winner s = Invalid then open_cols s else [])" if "cf_exact 6 7 s" for s
    using that by (simp add: cf_legal_pos cf_exact_def cf_inv_def)
  with endgame_exact endgame_steps(3-7)
  show "cf_legal (cf_pos endgame) = [0]" "cf_legal (cf_pos endgame1) = [0]" "cf_legal (cf_pos endgame2) = []" by simp_all
qed

lemmas endgame_nxt = move_hash_winner_pos [OF endgame_steps(1), symmetric] move_hash_winner_pos [OF endgame_steps(2), symmetric]

lemma endgame_positions: "positions cf_legal cf_nxt (cf_pos endgame) \<subseteq> cf_pos ` {endgame, endgame1, endgame2}"
  by (rule positions_subset) (auto simp: closed_under_def endgame_legal endgame_nxt)

lemma endgame_inj: "inj_on cf_key (positions cf_legal cf_nxt (cf_pos endgame))"
proof -
  have "zobrist s = Some (cf_key (cf_pos s))" if "s \<in> {endgame, endgame1, endgame2}" for s
    using endgame_exact that cf_key_pos by (auto simp: cf_exact_def cf_inv_wf)
  with endgame_keys have "inj_on cf_key (cf_pos ` {endgame, endgame1, endgame2})" by (auto simp: inj_on_def)
  from inj_on_subset [OF this endgame_positions] show ?thesis .
qed

lemma endgame_rem: "cf_rem (cf_pos endgame) \<le> 42"
  by (simp add: cf_rem_def cf_pos_def endgame_def)

lemma cf_undecided:
  assumes "cf_exact R C s" "m_winner s = Invalid"
  shows "cf_legal (cf_pos s) = open_cols s" "open_cols s \<noteq> []"
proof -
  have inv: "cf_inv s" using assms(1) by (simp add: cf_exact_def)
  with assms(2) have "\<not> cf_full s" using outcome_full by blast
  then show "cf_legal (cf_pos s) = open_cols s" "open_cols s \<noteq> []"
    using assms(2) inv open_cols_not_Nil [OF cf_inv_wf [OF inv]] by (simp_all add: cf_legal_pos cf_inv_def)
qed

lemma endgame_states:
  "inj_on cf_key (cf_pos ` match_states (cf_env uniform_mod F 7) playerToMove ended endgame g)"
proof (rule inj_on_subset [OF endgame_inj])
  have "cf_legal (cf_pos endgame) \<noteq> []" "cf_rem (cf_pos endgame) \<le> 180" using endgame_rem endgame_legal(1) by simp_all
  then show "cf_pos ` match_states (cf_env uniform_mod F 7) playerToMove ended endgame g \<subseteq> positions cf_legal cf_nxt (cf_pos endgame)"
    by (intro cfm.match_states_closed [OF endgame_exact(1) _ endgame_inj])
qed

lemma endgame_compute_states:
  assumes "k \<le> 1000"
  shows "cf_pos ` compute_states (cf_env uniform_mod F 7) endgame k (mcts_new (cf_env uniform_mod F 7)) g \<subseteq> positions cf_legal cf_nxt (cf_pos endgame)"
proof (rule cfm.compute_states_within [of "\<lambda>_. positions cf_legal cf_nxt (cf_pos endgame)", OF _ _ endgame_exact(1) positions_closed(1) endgame_inj])
  have "int k * (3 * (int (cf_rem (cf_pos endgame)) + 2)) \<le> 1000 * (3 * (42 + 2))" using endgame_rem assms by (intro mult_mono) simp_all
  then show "int k * (3 * (int (cf_rem (cf_pos endgame)) + 2)) < 2 ^ 31" by simp
  show "int k < 2 ^ 31 - 1" using assms by simp
  show "cf_nxt q mv \<in> positions cf_legal cf_nxt (cf_pos endgame)"
    if "q \<in> positions cf_legal cf_nxt (cf_pos endgame)" "mv \<in> set (cf_legal q)" for q mv
    using that positions_closed(2) [of cf_legal cf_nxt "cf_pos endgame"] by (auto simp: closed_under_def)
qed simp

section \<open>The first moves of a game\<close>

text \<open>The states after \<open>j\<close> moves.\<close>

definition next_states :: "cf_state \<Rightarrow> cf_state list" where
  "next_states s = (if m_winner s = Invalid then map (\<lambda>c. the (move_hash_winner c s)) (open_cols s) else [])"

fun level :: "nat \<Rightarrow> cf_state list \<Rightarrow> cf_state list" where
  "level 0 xs = xs"
| "level (Suc j) xs = concat (map next_states (level j xs))"

fun levels :: "nat \<Rightarrow> cf_state list \<Rightarrow> cf_state list" where
  "levels 0 xs = xs"
| "levels (Suc j) xs = levels j xs @ level (Suc j) xs"

lemma next_states:
  assumes "cf_exact R C s"
  shows "\<forall>s' \<in> set (next_states s). cf_exact R C s'" "cf_nxt (cf_pos s) ` set (cf_legal (cf_pos s)) = cf_pos ` set (next_states s)"
proof -
  have inv: "cf_inv s" "m_winner s = outcome (m_board s)" "hash_ok s" using assms by (auto simp: cf_exact_def cf_inv_def)
  have step: "\<exists>s'. move_hash_winner c s = Some s' \<and> cf_exact R C s' \<and> cf_pos s' = cf_nxt (cf_pos s) c"
    if "m_winner s = Invalid" "c \<in> set (open_cols s)" for c
  proof -
    have "matrix_at (m_board s) 0 c = Some Vacant" using that(2) by (simp add: open_cols_iff)
    from move_hash_winner_step [OF inv(1) that(1) this] obtain s' where
      "move_hash_winner c s = Some s'" "cf_inv s'" "cf_next c s s'" "hash_ok s \<longrightarrow> hash_ok s'" by blast
    with assms move_hash_winner_pos show ?thesis by (auto simp: cf_exact_def dest: cf_next_dims)
  qed
  then show "\<forall>s' \<in> set (next_states s). cf_exact R C s'" by (fastforce simp: next_states_def)
  have "cf_pos (the (move_hash_winner c s)) = cf_nxt (cf_pos s) c" if "m_winner s = Invalid" "c \<in> set (open_cols s)" for c
    using step [OF that] by auto
  then show "cf_nxt (cf_pos s) ` set (cf_legal (cf_pos s)) = cf_pos ` set (next_states s)"
    using inv(2) by (auto simp: next_states_def cf_legal_pos image_image)
qed

lemma level_exact: "\<forall>s \<in> set xs. cf_exact R C s \<Longrightarrow> \<forall>s \<in> set (level j xs). cf_exact R C s"
  by (induction j) (use next_states(1) in fastforce)+

lemma levels_exact: "\<forall>s \<in> set xs. cf_exact R C s \<Longrightarrow> \<forall>s \<in> set (levels j xs). cf_exact R C s"
  using level_exact [of xs R C "Suc _"] by (induction j) auto

lemma levels_step:
  assumes "\<forall>s \<in> set xs. cf_exact R C s" "q \<in> cf_pos ` set (levels j xs)" "mv \<in> set (cf_legal q)"
  shows "cf_nxt q mv \<in> cf_pos ` set (levels (Suc j) xs)"
proof -
  have lv: "set (levels j xs) = (\<Union>i \<in> {..j}. set (level i xs))" for j
    by (induction j) (simp_all add: atMost_Suc Un_commute del: level.simps(2))
  from assms(2) lv obtain i s where i: "i \<le> j" "s \<in> set (level i xs)" "q = cf_pos s" by auto
  have "cf_exact R C s" using level_exact [OF assms(1)] i(2) by blast
  from next_states(2) [OF this] assms(3) i(3) obtain s' where "s' \<in> set (next_states s)" "cf_nxt q mv = cf_pos s'" by blast
  with i have "cf_nxt q mv = cf_pos s'" "s' \<in> set (level (Suc i) xs)" "Suc i \<le> Suc j" by auto
  then show ?thesis unfolding lv [of "Suc j"] by blast
qed

lemma levels_inj:
  assumes "\<forall>s \<in> set xs. cf_exact R C s" "distinct (map zobrist (levels j xs))"
  shows "inj_on cf_key (cf_pos ` set (levels j xs))"
proof -
  have "zobrist s = Some (cf_key (cf_pos s))" if "s \<in> set (levels j xs)" for s
    using levels_exact [OF assms(1), of j] that cf_key_pos by (auto simp: cf_exact_def cf_inv_wf)
  then have "inj_on (cf_key \<circ> cf_pos) (set (levels j xs))" using assms(2) by (auto simp: distinct_map inj_on_def)
  then show ?thesis by (auto simp: inj_on_def)
qed

lemma start_exact: "cf_exact 6 7 (connect_four 6 7 Human)"
  by (rule cf_reach_exact [OF _ cf_reach.start]) (simp_all add: cf_dims_def)

lemma start_keys: "distinct (map zobrist (levels 1 [connect_four 6 7 Human]))"
  by code_simp

lemma start_states:
  "inj_on cf_key (cf_pos ` compute_states (cf_env uniform_mod F 7) (connect_four 6 7 Human) 1 (mcts_new (cf_env uniform_mod F 7)) g)"
proof -
  let ?s = "connect_four 6 7 Human" and ?Q = "\<lambda>j. cf_pos ` set (levels j [connect_four 6 7 Human])"
  have ex: "\<forall>s \<in> set [?s]. cf_exact 6 7 s" using start_exact by simp
  have inj: "inj_on cf_key (?Q 1)" by (rule levels_inj [OF ex start_keys])
  have "cf_rem (cf_pos ?s) \<le> 42" by code_simp
  then have b: "int 1 * (3 * (int (cf_rem (cf_pos ?s)) + 2)) < 2 ^ 31" by simp
  have up: "?Q j \<subseteq> ?Q (Suc j)" for j by (rule image_mono) simp
  have s0: "cf_pos ?s \<in> ?Q 0" by simp
  have "int 1 < 2 ^ 31 - 1" by simp
  from cfm.compute_states_within [of ?Q, OF up levels_step [OF ex] start_exact s0 inj this b]
  show ?thesis by (rule inj_on_subset [OF inj])
qed

section \<open>Properties\<close>

text \<open>C2: A match of the program, two searches of 20000 and 2000 iterations per move with the trees pruned after every move,
  ends from every undecided position of a game on a board of at most 180 cells, for every tree and path that keep the
  contracts of the search: the searches never get into a state in which a step fails, every move made is legal, and the winner that
  is reported is the outcome of the final board. The one assumption on the Zobrist keys is that no two of the positions that this very match
  looks up in its transposition tables, at most one for every iteration and two for every move, have the same key.\<close>

theorem cf_match_ends:
  assumes "search_tree T tinv tview" "search_path P" "uniform_dist unif"
    and "cf_dims R C" "R * C \<le> 180" "cf_reach R C s" "m_winner s = Invalid"
    and "inj_on cf_key (cf_pos ` match_states (cf_search T P unif F C) playerToMove ended s g)"
  shows "\<exists>w mt g'. play_match (cf_search T P unif F C) playerToMove ended s g = Some (w, mt, g')
    \<and> (cf_pos s, cf_pos (mt_state mt)) \<in> (move_rel cf_legal cf_nxt)\<^sup>+
    \<and> w = outcome (m_board (mt_state mt)) \<and> w \<noteq> Invalid"
proof -
  have ex: "cf_exact R C s" by (rule cf_reach_exact [OF assms(4,6)])
  then have inv: "cf_inv s" "NumRows s = R" "NumCols s = C" by (auto simp: cf_exact_def)
  then have "length (m_data (m_board s)) = nat (R * C)" by (auto simp: cf_inv_def cf_wf_def board_inv_def matrix_wf_def)
  then have r: "cf_rem (cf_pos s) \<le> 180" using assms(5) by (simp add: cf_rem_def cf_pos_def)
  have "cf_legal (cf_pos s) \<noteq> []" using cf_undecided [OF ex assms(7)] by simp
  from match_setup.play_match_ok [OF cf_setup [OF assms(1-3), where F = F] ex this assms(8) r]
  show ?thesis by (fastforce simp: ended_def cf_exact_def cf_inv_def split: if_splits)
qed

theorem cf_match_ends_witness:
  "\<exists>w mt g'. play_match (cf_env uniform_mod real_ops 7) playerToMove ended endgame (splitmix64 42 7) = Some (w, mt, g')
    \<and> (cf_pos endgame, cf_pos (mt_state mt)) \<in> (move_rel cf_legal cf_nxt)\<^sup>+
    \<and> w = outcome (m_board (mt_state mt)) \<and> w \<noteq> Invalid"
  unfolding cf_env_def
  by (rule cf_match_ends [OF digraph_contracts _ _ endgame_reach endgame_steps(3) endgame_states [unfolded cf_env_def]]) (simp_all add: cf_dims_def)

text \<open>C3: A search on a fresh object succeeds for every tree and path that keep the contracts of the search and every number of
  iterations that keeps the visit counts in their 32 bits, when no two of the positions that it looks up in its transposition
  table, the root and at most one for every iteration, have the same Zobrist key. The
  root is visited three times per iteration, the tree has at most one node and one arc more than iterations, and the
  returned move is the move of a most visited child of the root. With at least one iteration and an undecided game it is a
  column that is not full. The tree is labelled: each node stands for one of these positions, its arcs and untried moves are all
  the legal moves there, each once, its children are the positions after the moves, and the transposition table maps the key
  of each position to its node.\<close>

theorem cf_compute_fresh:
  assumes "search_tree T tinv tview" "search_path P" "uniform_dist unif"
    and "cf_dims R C" "cf_reach R C s"
    and "inj_on cf_key (cf_pos ` compute_states (cf_search T P unif F C) s k (mcts_new (cf_search T P unif F C)) g)"
    and "int k < 2 ^ 31 - 1" "int k * (3 * (int (cf_rem (cf_pos s)) + 2)) < 2 ^ 31"
  shows "\<exists>mv m g'. compute (cf_search T P unif F C) s (int k) (mcts_new (cf_search T P unif F C)) g = Some (mv, m, g')
    \<and> (\<exists>L. search_inv (cf_search T P unif F C) tinv tview cf_legal cf_nxt cf_key
           (cf_pos ` compute_states (cf_search T P unif F C) s k (mcts_new (cf_search T P unif F C)) g) L
           (int k * (3 * (int (cf_rem (cf_pos s)) + 2))) m \<and> L (st_root_node T (m_tree m)) = cf_pos s)
    \<and> most_visited (tview (m_tree m)) (st_root_node T (m_tree m)) move_none mv
    \<and> (0 < k \<and> m_winner s = Invalid \<longrightarrow> mv \<in> set (open_cols s))
    \<and> nd_visits (node_at (tview (m_tree m)) (st_root_node T (m_tree m))) = 3 * int k
    \<and> length (g_arcs (tview (m_tree m))) \<le> k + 1 \<and> length (g_nodes (tview (m_tree m))) \<le> k + 1"
proof -
  have ex: "cf_exact R C s" by (rule cf_reach_exact [OF assms(4,5)])
  from mcts_setup.compute_fresh [OF cf_mcts [OF assms(1-3), where F = F] ex assms(6) order.refl assms(7,8)]
  show ?thesis unfolding cf_search_simps using cf_undecided [OF ex] by (elim ex_forward) auto
qed

theorem cf_compute_fresh_witness:
  "\<exists>mv m g'. compute (cf_env uniform_mod real_ops 7) (connect_four 6 7 Human) 1 (mcts_new (cf_env uniform_mod real_ops 7)) (splitmix64 42 7)
      = Some (mv, m, g') \<and> mv \<in> {0..6} \<and> nd_visits (node_at (view (m_tree m)) (root_node (m_tree m))) = 3"
proof -
  let ?s = "connect_four 6 7 Human"
  have s: "cf_rem (cf_pos ?s) = 42" "m_winner ?s = Invalid" "open_cols ?s = [0, 1, 2, 3, 4, 5, 6]" by code_simp+
  have b: "int 1 * (3 * (int (cf_rem (cf_pos ?s)) + 2)) < 2 ^ 31" using s(1) by simp
  have d: "cf_dims 6 7" by (simp add: cf_dims_def)
  from cf_compute_fresh [OF digraph_contracts d cf_reach.start start_states [unfolded cf_env_def] _ b, of real_ops "splitmix64 42 7"]
  show ?thesis unfolding cf_env_def by (auto simp: s)
qed

text \<open>C4: Pruning a labelled search to a state, for every tree and path that keep the contracts of the search and labels among positions with
  pairwise different Zobrist keys: when a node of the tree stands for the position of the state, the new tree is a copy of the
  part of the old one that can be reached from that node, data and order of the arcs included, its root is the copy of
  that node, and the result is again a labelled search, whose path is the root. Otherwise the result is a fresh object.\<close>

theorem cf_prune:
  assumes "search_tree T tinv tview" "search_path P" "uniform_dist unif"
    and "cf_dims R C" "cf_reach R C s" "cf_pos s \<in> Q" "inj_on cf_key Q"
    and "search_inv (cf_search T P unif F C) tinv tview cf_legal cf_nxt cf_key Q L B m"
    and "length (g_nodes (tview (m_tree m))) < 2 ^ 31 - 1" "length (g_arcs (tview (m_tree m))) < 2 ^ 31"
  shows "\<exists>m'. prune (cf_search T P unif F C) m s = Some m' \<and>
    (if \<exists>r. is_node (tview (m_tree m)) r \<and> L r = cf_pos s
     then ready_for (cf_search T P unif F C) tinv tview cf_legal cf_nxt cf_key Q B (cf_pos s) m'
       \<and> (\<exists>f r. is_node (tview (m_tree m)) r \<and> L r = cf_pos s \<and> copy_of (tview (m_tree m)) r (tview (m_tree m')) f)
     else m' = mcts_new (cf_search T P unif F C))"
  using mcts_setup.prune_ok [OF cf_mcts [OF assms(1-3), where F = F] assms(8,7,6) cf_reach_exact [OF assms(4,5)] assms(9,10)]
  by (auto split: if_splits)

theorem cf_prune_witness:
  "\<exists>mv m g' m'. compute (cf_env uniform_mod real_ops 7) endgame 10 (mcts_new (cf_env uniform_mod real_ops 7)) (splitmix64 42 7)
      = Some (mv, m, g') \<and> prune (cf_env uniform_mod real_ops 7) m endgame = Some m' \<and> \<not> m_not_initialized m'"
proof -
  let ?E = "cf_env uniform_mod real_ops 7" and ?Q = "positions cf_legal cf_nxt (cf_pos endgame)"
  have d: "cf_dims 6 7" by (simp add: cf_dims_def)
  have "int 10 * (3 * (int (cf_rem (cf_pos endgame)) + 2)) < 2 ^ 31" using endgame_rem by simp
  from cfm.compute_fresh [OF endgame_exact(1) endgame_inj endgame_compute_states _ this, of real_ops "splitmix64 42 7"]
  obtain mv m g' L B where c: "compute ?E endgame 10 (mcts_new ?E) (splitmix64 42 7) = Some (mv, m, g')"
    "search_inv ?E digraph_inv view cf_legal cf_nxt cf_key ?Q L B m"
    "L (root_node (m_tree m)) = cf_pos endgame" "length (g_nodes (view (m_tree m))) \<le> 11" "length (g_arcs (view (m_tree m))) \<le> 11" by force
  have n: "is_node (view (m_tree m)) (root_node (m_tree m))"
    using cfm.root_is_node [of "m_tree m" real_ops 7] c(2) by (simp add: search_inv_defs)
  with c(3) have ex: "\<exists>r. is_node (view (m_tree m)) r \<and> L r = cf_pos endgame" by blast
  have sz: "length (g_nodes (view (m_tree m))) < 2 ^ 31 - 1" "length (g_arcs (view (m_tree m))) < 2 ^ 31" using c(4,5) by simp_all
  from cf_prune [OF digraph_contracts d endgame_reach positions_closed(1) endgame_inj c(2) [unfolded cf_env_def] sz, unfolded if_P [OF ex]]
  obtain m' where "prune ?E m endgame = Some m'" "ready_for ?E digraph_inv view cf_legal cf_nxt cf_key ?Q B (cf_pos endgame) m'"
    unfolding cf_env_def by blast
  with c(1) show ?thesis by (auto simp: ready_for_def search_inv_defs)
qed

text \<open>C18: Computing on a pruned search goes on from it, for every tree and path that keep the contracts of the search, when the
  positions that the search stands for and those that this call looks up have pairwise different Zobrist keys and the visit counts keep
  in their 32 bits: the call returns the legal move of a most visited child of the root and leaves a labelled search; the visits of the root are
  kept, but as the root is pushed onto the path
  twice, once by the pruning and once for the state of the call, each iteration adds six to them.\<close>

theorem cf_compute_again:
  assumes "search_tree T tinv tview" "search_path P" "uniform_dist unif"
    and "cf_dims R C" "cf_reach R C s" "m_winner s = Invalid"
    and "inj_on cf_key Q" "cf_pos ` compute_states (cf_search T P unif F C) s k m g \<subseteq> Q"
    and "ready_for (cf_search T P unif F C) tinv tview cf_legal cf_nxt cf_key Q B (cf_pos s) m"
    and "0 < k" "0 \<le> B" "length (g_arcs (tview (m_tree m))) + k < 2 ^ 31" "length (g_nodes (tview (m_tree m))) + k < 2 ^ 31"
      "B + int k * (3 * (int (cf_rem (cf_pos s)) + 3)) < 2 ^ 31"
  shows "\<exists>mv m' g'. compute (cf_search T P unif F C) s (int k) m g = Some (mv, m', g') \<and> mv \<in> set (open_cols s)
    \<and> (\<exists>L. search_inv (cf_search T P unif F C) tinv tview cf_legal cf_nxt cf_key Q L (B + int k * (3 * (int (cf_rem (cf_pos s)) + 3))) m'
        \<and> L (st_root_node T (m_tree m')) = cf_pos s)
    \<and> most_visited (tview (m_tree m')) (st_root_node T (m_tree m')) move_none mv
    \<and> nd_visits (node_at (tview (m_tree m')) (st_root_node T (m_tree m')))
        = nd_visits (node_at (tview (m_tree m)) (st_root_node T (m_tree m))) + 6 * int k"
proof -
  have ex: "cf_exact R C s" by (rule cf_reach_exact [OF assms(4,5)])
  from mcts_setup.compute_ready [OF cf_mcts [OF assms(1-3), where F = F] assms(9) ex assms(7,8,11-14)]
  show ?thesis unfolding cf_search_simps using assms(10) cf_undecided [OF ex assms(6)] by (elim ex_forward) auto
qed

theorem cf_compute_again_witness:
  "\<exists>m mv m' g'. compute (cf_env uniform_mod real_ops 7) endgame 10 m (splitmix64 42 7) = Some (mv, m', g') \<and> mv = 0
    \<and> nd_visits (node_at (view (m_tree m')) (root_node (m_tree m')))
        = nd_visits (node_at (view (m_tree m)) (root_node (m_tree m))) + 60"
proof -
  let ?E = "cf_env uniform_mod real_ops 7" and ?Q = "positions cf_legal cf_nxt (cf_pos endgame)"
  have d: "cf_dims 6 7" by (simp add: cf_dims_def)
  from cfm.mcts_initialize_ok [OF endgame_exact(1) positions_closed(1) [of _ cf_legal cf_nxt], where F = real_ops and m = "mcts_new ?E"] obtain m where
    m: "search_inv ?E digraph_inv view cf_legal cf_nxt cf_key ?Q (\<lambda>_. cf_pos endgame) 0 m"
    "m_path m = [(st_invalid_arc (e_tree ?E), root_node (m_tree m))]" "m_path_size m = 1"
    "length (g_arcs (view (m_tree m))) \<le> 1" "length (g_nodes (view (m_tree m))) = 1" by (auto simp: mcts_new_def)
  then have r: "ready_for ?E digraph_inv view cf_legal cf_nxt cf_key ?Q 0 (cf_pos endgame) m" by (auto simp: ready_for_def)
  have b: "0 + int 10 * (3 * (int (cf_rem (cf_pos endgame)) + 3)) < 2 ^ 31" "int 1 + int 10 + 1 < 2 ^ 31" using endgame_rem by simp_all
  have "ready_for ?E digraph_inv view cf_legal cf_nxt cf_key ?Q 0 (cf_pos endgame) m
      \<and> length (g_arcs (view (m_tree m))) \<le> 1 \<and> length (g_nodes (view (m_tree m))) \<le> 1" using r m(4,5) by simp
  from cfm.compute_states_closed [OF iffD2 [OF cfm.to_play_def disjI2 [OF this]] endgame_exact(1) positions_closed(1) endgame_inj positions_closed(2) _ b(2,1), of "splitmix64 42 7"]
  have look: "cf_pos ` compute_states ?E endgame 10 m (splitmix64 42 7) \<subseteq> ?Q" by simp
  from cf_compute_again [OF digraph_contracts d endgame_reach endgame_steps(3) endgame_inj look [unfolded cf_env_def] r [unfolded cf_env_def] _ _ _ _ b(1)] m(4,5)
  show ?thesis unfolding cf_env_def by (auto simp: endgame_steps)
qed

end
