(* ===== verification/Connect_Four_Print.thy ===== *)
theory Connect_Four_Print
  imports Connect_Four_Search
begin

text \<open>
  Printing a Connect Four position. What \<^verbatim>\<open>ConnectFour::print\<close> writes to the standard output is the value; a cell whose index is outside of the markers
  fails. Every line has the same width, so the board can be read back.
\<close>

section \<open>Model\<close>

definition player_markers_print :: string where
  "player_markers_print = ''C.H''"

definition print_marker :: "player \<Rightarrow> char option" where
  "print_marker p = aref player_markers_print (1 + as_index p)"

definition print_rule :: "index_t \<Rightarrow> string" where
  "print_rule C = '' +'' @ concat (map (\<lambda>col. ''--'') [0..C - 2]) @ ''-+'' @ newline"

definition putchar :: "int \<Rightarrow> string" where
  "putchar ch = [char_of (nat (ch mod 256))]"

definition print_columns :: "index_t \<Rightarrow> string" where
  "print_columns C = '' |'' @ concat (map (\<lambda>col. putchar col @ '' '') [48..C + 46]) @ putchar (C + 47) @ ''|'' @ newline"

definition print_cell :: "player matrix \<Rightarrow> index_t \<Rightarrow> index_t \<Rightarrow> char option" where
  "print_cell b row col = do { p \<leftarrow> matrix_at b row col; print_marker p }"

fun print_cells :: "player matrix \<Rightarrow> index_t \<Rightarrow> index_t list \<Rightarrow> string option" where
  "print_cells b row [] = Some []"
| "print_cells b row (col # cols) = do {
     ch \<leftarrow> print_cell b row col;
     out \<leftarrow> print_cells b row cols;
     Some ([ch] @ '' '' @ out) }"

definition print_row :: "player matrix \<Rightarrow> index_t \<Rightarrow> string option" where
  "print_row b row = do {
     out \<leftarrow> print_cells b row [0..m_J b - 2];
     ch \<leftarrow> print_cell b row (max 0 (m_J b - 1));
     Some ('' |'' @ out @ [ch] @ ''|'' @ newline) }"

fun print_rows :: "player matrix \<Rightarrow> index_t list \<Rightarrow> string option" where
  "print_rows b [] = Some []"
| "print_rows b (row # rows) = do {
     l \<leftarrow> print_row b row;
     out \<leftarrow> print_rows b rows;
     Some (l @ out) }"

definition cf_print :: "cf_state \<Rightarrow> string option" where
  "cf_print s = do {
     out \<leftarrow> print_rows (m_board s) [0..NumRows s - 1];
     Some (print_rule (NumCols s) @ print_columns (NumCols s) @ print_rule (NumCols s) @ out @ print_rule (NumCols s)) }"

section \<open>Reading\<close>

definition read_marker :: "char \<Rightarrow> player" where
  "read_marker ch = (if ch = CHR ''C'' then Agent else if ch = CHR ''H'' then Human else Vacant)"

text \<open>The cell in row \<open>r\<close> and column \<open>c\<close> is on line \<open>r + 3\<close>, after the margin and \<open>c\<close> pairs.\<close>

definition read_board :: "nat \<Rightarrow> nat \<Rightarrow> string \<Rightarrow> player matrix" where
  "read_board R C out =
    \<lparr>m_I = int R, m_J = int C, m_BaseI = 0, m_BaseJ = 0,
     m_data = map (\<lambda>k. read_marker (out ! ((k div C + 3) * (2 * C + 3) + (2 + 2 * (k mod C))))) [0..<R * C]\<rparr>"

section \<open>Lines\<close>

lemma concat_nth:
  assumes "\<forall>l\<in>set ls. length l = n" "i < length ls" "j < n"
  shows "concat ls ! (i * n + j) = ls ! i ! j"
  using assms
proof (induction ls arbitrary: i)
  case (Cons l ls)
  then show ?case by (cases i) (auto simp: nth_append)
qed simp

lemma concat_length: "\<forall>l\<in>set ls. length l = n \<Longrightarrow> length (concat ls) = length ls * n"
  by (induction ls) auto

definition marker :: "player \<Rightarrow> char" where
  "marker p = (if p = Agent then CHR ''C'' else if p = Human then CHR ''H'' else CHR ''.'')"

lemma print_marker_ok: "p \<in> {Agent, Vacant, Human} \<Longrightarrow> print_marker p = Some (marker p)"
  by (auto simp: print_marker_def player_markers_print_def marker_def aref_def)

lemma read_marker_ok: "p \<in> {Agent, Vacant, Human} \<Longrightarrow> read_marker (marker p) = p"
  by (auto simp: read_marker_def marker_def)

definition row_line :: "player list \<Rightarrow> string" where
  "row_line ps = '' |'' @ concat (map (\<lambda>p. [marker p, CHR '' '']) (butlast ps)) @ [marker (last ps)] @ ''|'' @ newline"

lemma row_line_length: "ps \<noteq> [] \<Longrightarrow> length (row_line ps) = 2 * length ps + 3"
  by (cases ps rule: rev_cases) (simp_all add: row_line_def newline_def concat_length [where n = 2])

lemma row_line_nth:
  assumes "j < length ps"
  shows "row_line ps ! (2 + 2 * j) = marker (ps ! j)"
proof -
  obtain qs q where ps: "ps = qs @ [q]" using assms by (cases ps rule: rev_cases) auto
  let ?ls = "map (\<lambda>p. [marker p, CHR '' '']) qs"
  have len: "length (concat ?ls) = length qs * 2" by (rule concat_length [where n = 2, THEN trans]) simp_all
  show ?thesis
  proof (cases "j < length qs")
    case True
    then have "concat ?ls ! (j * 2 + 0) = ?ls ! j ! 0" by (intro concat_nth) simp_all
    with True len show ?thesis by (simp add: row_line_def ps nth_append mult.commute)
  next
    case False
    with assms ps have "j = length qs" by simp
    with len show ?thesis by (simp add: row_line_def ps nth_append mult.commute)
  qed
qed

lemma upto_int: "[0..int n - 1] = map int [0..<n]"
  by (rule nth_equalityI) (auto simp: nth_upto)

section \<open>Printing a board\<close>

text \<open>A board with its cells row by row.\<close>

definition print_ok :: "player matrix \<Rightarrow> nat \<Rightarrow> nat \<Rightarrow> bool" where
  "print_ok b R C \<longleftrightarrow> m_I b = int R \<and> m_J b = int C \<and> m_BaseI b = 0 \<and> m_BaseJ b = 0 \<and> 0 < C \<and> length (m_data b) = R * C \<and>
     set (m_data b) \<subseteq> {Agent, Vacant, Human}"

definition row_cells :: "player matrix \<Rightarrow> nat \<Rightarrow> nat \<Rightarrow> player list" where
  "row_cells b C i = map (\<lambda>j. m_data b ! (i * C + j)) [0..<C]"

lemma cell_index: "i < R \<Longrightarrow> j < C \<Longrightarrow> i * C + j < R * (C :: nat)"
proof -
  assume "i < R" "j < C"
  then have "i * C + j < Suc i * C" by simp
  also have "\<dots> \<le> R * C" using \<open>i < R\<close> by (intro mult_le_mono1) simp
  finally show ?thesis .
qed

lemma print_cell_ok:
  assumes "print_ok b R C" "i < R" "j < C"
  shows "print_cell b (int i) (int j) = Some (marker (m_data b ! (i * C + j)))"
proof -
  have k: "i * C + j < length (m_data b)" using assms cell_index by (simp add: print_ok_def)
  have "matrix_in b (int i) (int j)" "matrix_idx b (int i) (int j) = int (i * C + j)"
    using assms by (simp_all add: print_ok_def matrix_in_def matrix_idx_def)
  with k have "matrix_at b (int i) (int j) = Some (m_data b ! (i * C + j))" by (simp add: matrix_at_def aref_def del: of_nat_add of_nat_mult)
  moreover have "m_data b ! (i * C + j) \<in> {Agent, Vacant, Human}" using assms(1) nth_mem [OF k] by (auto simp: print_ok_def)
  ultimately show ?thesis using print_marker_ok by (simp add: print_cell_def)
qed

lemma print_cells_ok:
  assumes "print_ok b R C" "i < R" "\<forall>j\<in>set js. j < C"
  shows "print_cells b (int i) (map int js) = Some (concat (map (\<lambda>j. [marker (m_data b ! (i * C + j)), CHR '' '']) js))"
  using assms(3) print_cell_ok [OF assms(1,2)] by (induction js) simp_all

lemma print_row_ok:
  assumes "print_ok b R C" "i < R"
  shows "print_row b (int i) = Some (row_line (row_cells b C i))"
proof -
  obtain c where C: "C = Suc c" using assms(1) by (cases C) (simp_all add: print_ok_def)
  have m: "m_J b = int c + 1" using assms(1) C by (simp add: print_ok_def)
  have "print_cells b (int i) (map int [0..<c]) = Some (concat (map (\<lambda>j. [marker (m_data b ! (i * C + j)), CHR '' '']) [0..<c]))"
    by (rule print_cells_ok [OF assms]) (simp add: C)
  moreover have "print_cell b (int i) (int c) = Some (marker (m_data b ! (i * C + c)))" by (rule print_cell_ok [OF assms]) (simp add: C)
  ultimately show ?thesis by (simp add: print_row_def m upto_int row_line_def row_cells_def C comp_def)
qed

lemma print_rows_ok:
  assumes "print_ok b R C" "\<forall>i\<in>set is. i < R"
  shows "print_rows b (map int is) = Some (concat (map (\<lambda>i. row_line (row_cells b C i)) is))"
  using assms(2) print_row_ok [OF assms(1)] by (induction "is") simp_all

lemma rule_length: "0 < C \<Longrightarrow> length (print_rule (int C)) = 2 * C + 3"
  by (cases C) (simp_all add: print_rule_def newline_def concat_length [where n = 2])

lemma columns_length: "0 < C \<Longrightarrow> length (print_columns (int C)) = 2 * C + 3"
  by (cases C) (simp_all add: print_columns_def newline_def putchar_def concat_length [where n = 2])

lemma print_board:
  assumes ok: "print_ok (m_board s) R C"
  shows "\<exists>out. cf_print s = Some out \<and> length out = (R + 4) * (2 * C + 3) \<and>
    (\<forall>i < R. \<forall>j < C. out ! ((i + 3) * (2 * C + 3) + (2 + 2 * j)) = marker (m_data (m_board s) ! (i * C + j)))"
proof -
  let ?b = "m_board s" and ?n = "2 * C + 3"
  let ?ls = "[print_rule (int C), print_columns (int C), print_rule (int C)] @ map (\<lambda>i. row_line (row_cells ?b C i)) [0..<R] @ [print_rule (int C)]"
  have C: "0 < C" "NumRows s = int R" "NumCols s = int C" using ok by (simp_all add: print_ok_def)
  have "print_rows ?b (map int [0..<R]) = Some (concat (map (\<lambda>i. row_line (row_cells ?b C i)) [0..<R]))" by (rule print_rows_ok [OF ok]) simp
  then have out: "cf_print s = Some (concat ?ls)" unfolding cf_print_def C(2,3) upto_int by simp
  have len: "\<forall>l\<in>set ?ls. length l = ?n" using C(1) by (auto simp: rule_length columns_length row_line_length row_cells_def)
  have "concat ?ls ! ((i + 3) * ?n + (2 + 2 * j)) = marker (m_data ?b ! (i * C + j))" if "i < R" "j < C" for i j
  proof -
    have "concat ?ls ! ((i + 3) * ?n + (2 + 2 * j)) = ?ls ! (i + 3) ! (2 + 2 * j)" by (rule concat_nth [OF len]) (use that in simp_all)
    also have "?ls ! (i + 3) = row_line (row_cells ?b C i)" using that(1) by (simp add: nth_append)
    also have "row_line (row_cells ?b C i) ! (2 + 2 * j) = marker (row_cells ?b C i ! j)" by (rule row_line_nth) (simp add: row_cells_def that)
    finally show ?thesis using that by (simp add: row_cells_def)
  qed
  moreover have "length (concat ?ls) = (R + 4) * ?n" unfolding concat_length [OF len] by (simp add: algebra_simps)
  ultimately show ?thesis using out by blast
qed

lemma read_printed:
  assumes ok: "print_ok b R C"
    and out: "\<forall>i < R. \<forall>j < C. out ! ((i + 3) * (2 * C + 3) + (2 + 2 * j)) = marker (m_data b ! (i * C + j))"
  shows "read_board R C out = b"
proof -
  have C: "0 < C" "length (m_data b) = R * C" using ok by (simp_all add: print_ok_def)
  have "map (\<lambda>k. read_marker (out ! ((k div C + 3) * (2 * C + 3) + (2 + 2 * (k mod C))))) [0..<R * C] = m_data b"
  proof (rule nth_equalityI)
    fix k assume "k < length (map (\<lambda>k. read_marker (out ! ((k div C + 3) * (2 * C + 3) + (2 + 2 * (k mod C))))) [0..<R * C])"
    then have k: "k < R * C" by simp
    then have "k div C < R" "k mod C < C" using C(1) by (simp_all add: less_mult_imp_div_less)
    then have "out ! ((k div C + 3) * (2 * C + 3) + (2 + 2 * (k mod C))) = marker (m_data b ! k)" using out by simp
    moreover have "m_data b ! k \<in> set (m_data b)" using k C(2) by simp
    then have "m_data b ! k \<in> {Agent, Vacant, Human}" using ok by (auto simp: print_ok_def)
    ultimately show "map (\<lambda>k. read_marker (out ! ((k div C + 3) * (2 * C + 3) + (2 + 2 * (k mod C))))) [0..<R * C] ! k = m_data b ! k"
      using k read_marker_ok by simp
  qed (simp add: C)
  then show ?thesis using ok by (simp add: read_board_def print_ok_def)
qed

text \<open>The boards of a game can be printed.\<close>

lemma board_print_ok:
  assumes "board_inv b"
  shows "print_ok b (nat (m_I b)) (nat (m_J b))"
proof -
  have d: "4 \<le> m_I b" "4 \<le> m_J b" "m_BaseI b = 0" "m_BaseJ b = 0" "matrix_wf b" "cells_ok b" using assms by (auto simp: board_inv_def cf_dims_def)
  then have len: "length (m_data b) = nat (m_I b) * nat (m_J b)" by (simp add: matrix_wf_def nat_mult_distrib)
  have "m_data b ! k \<in> {Agent, Vacant, Human}" if "k < length (m_data b)" for k
  proof -
    let ?i = "k div nat (m_J b)" and ?j = "k mod nat (m_J b)"
    have "0 < nat (m_J b)" "?i < nat (m_I b)" "?j < nat (m_J b)" using that d len by (simp_all add: less_mult_imp_div_less)
    moreover from this d have "int ?i < m_I b" "int ?j < m_J b" by linarith+
    moreover have "int ?j + int ?i * m_J b = int k" using d(2) by (simp add: zdiv_int zmod_int)
    ultimately have "matrix_at b (int ?i) (int ?j) = Some (m_data b ! k)"
      using d that by (simp add: matrix_at_def matrix_in_def matrix_idx_def aref_def)
    then show ?thesis using d(6) by (auto simp: cells_ok_def is_mover_def)
  qed
  then have "set (m_data b) \<subseteq> {Agent, Vacant, Human}" by (metis in_set_conv_nth subsetI)
  with d len show ?thesis by (simp add: print_ok_def)
qed

section \<open>Property\<close>

text \<open>C31: In every position of a game \<^verbatim>\<open>print\<close> succeeds, writes \<open>NumRows + 4\<close> lines of \<open>2 * NumCols + 3\<close> characters, and the board can be read back from them.\<close>

theorem cf_print_roundtrip:
  assumes "cf_dims R C" "cf_reach R C s"
  shows "\<exists>out. cf_print s = Some out \<and> length out = (nat R + 4) * (2 * nat C + 3) \<and> read_board (nat R) (nat C) out = m_board s"
proof -
  have "cf_exact R C s" by (rule cf_reach_exact [OF assms])
  then have "board_inv (m_board s)" "NumRows s = R" "NumCols s = C" by (simp_all add: cf_exact_def cf_inv_def cf_wf_def)
  then have ok: "print_ok (m_board s) (nat R) (nat C)" using board_print_ok by blast
  from print_board [OF ok] read_printed [OF ok] show ?thesis by blast
qed

theorem cf_print_roundtrip_witness: "\<exists>out. cf_print endgame = Some out \<and> length out = 170 \<and> read_board 6 7 out = m_board endgame"
  using cf_print_roundtrip [OF _ endgame_reach] by (simp add: cf_dims_def)

end
