(* ===== verification/Mcts_Transpositions.thy ===== *)
theory Mcts_Transpositions
  imports Connect_Four_Search
begin

text \<open>
  The number of transpositions of a search: \<^verbatim>\<open>numTranspositions\<close> walks through the tree depth first and counts the nodes below the root that are
  entered by more than one arc.
\<close>

section \<open>Visited nodes\<close>

definition visited_set :: "bool list \<Rightarrow> index_t set" where
  "visited_set vs = {n. 0 \<le> n \<and> n < int (length vs) \<and> vs ! nat n}"

lemma visited_aref: "0 \<le> n \<Longrightarrow> n < int (length vs) \<Longrightarrow> aref vs n = Some (n \<in> visited_set vs)"
  by (auto simp: aref_def visited_set_def)

lemma visited_aset:
  assumes "0 \<le> n" "n < int (length vs)"
  shows "\<exists>vs'. aset vs n True = Some vs' \<and> length vs' = length vs \<and> visited_set vs' = insert n (visited_set vs)"
proof -
  obtain k where k: "n = int k" "k < length vs" using assms zero_le_imp_eq_int by fastforce
  then have "visited_set (vs[k := True]) = insert n (visited_set vs)" by (auto simp: visited_set_def nth_list_update)
  with k show ?thesis by simp
qed

lemma visited_start: "visited_set (replicate k False) = {}"
  by (auto simp: visited_set_def)

lemma visited_card: "finite (visited_set vs)" "card (visited_set vs) \<le> length vs"
proof -
  have "visited_set vs \<subseteq> int ` {..<length vs}"
  proof
    fix n assume "n \<in> visited_set vs"
    then have "n = int (nat n)" "nat n < length vs" by (auto simp: visited_set_def)
    then show "n \<in> int ` {..<length vs}" by blast
  qed
  moreover have "card (int ` {..<length vs}) = length vs" by (simp add: card_image)
  ultimately show "finite (visited_set vs)" "card (visited_set vs) \<le> length vs"
    by (simp add: finite_subset, metis card_mono finite_imageI finite_lessThan)
qed

section \<open>The walk\<close>

definition in_degree :: "('a, 'n) graph \<Rightarrow> index_t \<Rightarrow> nat" where
  "in_degree v n = length (filter (\<lambda>e. fst (snd e) = n) (g_arcs v))"

definition transpositions_in :: "('a, 'n) graph \<Rightarrow> index_t \<Rightarrow> index_t set \<Rightarrow> index_t set" where
  "transpositions_in v r X = {n \<in> X. n \<noteq> r \<and> 1 < in_degree v n}"

definition walk_inv :: "('a, 'n) graph \<Rightarrow> index_t \<Rightarrow> int \<times> bool list \<times> index_t list \<Rightarrow> bool" where
  "walk_inv v r st = (case st of (nt, vs, stack) \<Rightarrow>
     int (length vs) = order_of v \<and> r \<in> visited_set vs \<and> set stack \<subseteq> visited_set vs \<and> visited_set vs \<subseteq> reach_from v r \<and>
     nt = int (card (transpositions_in v r (visited_set vs))))"

definition walk_closed :: "('a, 'n) graph \<Rightarrow> int \<times> bool list \<times> index_t list \<Rightarrow> bool" where
  "walk_closed v st = (case st of (nt, vs, stack) \<Rightarrow> \<forall>n \<in> visited_set vs - set stack. fst ` set (outl v n) \<subseteq> visited_set vs)"

fun walk_left :: "int \<times> bool list \<times> index_t list \<Rightarrow> nat" where
  "walk_left (nt, vs, stack) = 2 * (length vs - card (visited_set vs)) + length stack"

lemma transpositions_insert:
  assumes "finite X" "n \<notin> X" "n \<noteq> r"
  shows "int (card (transpositions_in v r (insert n X))) = (if 1 < in_degree v n then int (card (transpositions_in v r X)) + 1 else int (card (transpositions_in v r X)))"
proof -
  have "transpositions_in v r (insert n X) = (if 1 < in_degree v n then insert n (transpositions_in v r X) else transpositions_in v r X)"
    using assms(3) by (auto simp: transpositions_in_def)
  moreover have "finite (transpositions_in v r X)" "n \<notin> transpositions_in v r X" using assms by (auto simp: transpositions_in_def)
  ultimately show ?thesis by simp
qed

text \<open>A closed set that contains the root and only nodes below it is the set of these nodes.\<close>

lemma closed_reach:
  assumes "r \<in> X" "X \<subseteq> reach_from v r" "\<forall>n \<in> X. fst ` set (outl v n) \<subseteq> X"
  shows "X = reach_from v r"
proof -
  have "m \<in> X" if "(r, m) \<in> (arc_rel v)\<^sup>*" for m
    using that
  proof (induction rule: rtrancl_induct)
    case (step m k)
    then obtain d where "(k, d) \<in> set (outl v m)" by (auto simp: arc_rel_def outl_mem)
    then show ?case using assms(3) step.IH by force
  qed (use assms in simp)
  with assms(2) show ?thesis by (auto simp: reach_from_def)
qed

text \<open>The walk relies on the tree alone.\<close>

locale tree_walk = search_tree "e_tree E" tinv tview
  for E :: "('t, 'p, 's, 'm, 'f) mcts_env" and tinv :: "'t \<Rightarrow> bool" and tview :: "'t \<Rightarrow> 'm search_graph"
begin

lemma transpositions_arcs_ok:
  assumes t: "tinv t" and p: "p \<in> reach_from (tview t) r"
    and "set as \<subseteq> set (out_ids (tview t) p)" "walk_inv (tview t) r (nt, vs, stack)"
  shows "\<exists>nt' vs' new. transpositions_arcs E t as (nt, vs, stack) = Some (nt', vs', stack @ new) \<and> walk_inv (tview t) r (nt', vs', stack @ new)
    \<and> length vs' = length vs \<and> visited_set vs' = visited_set vs \<union> set new \<and> card (visited_set vs') = card (visited_set vs) + length new
    \<and> (\<forall>a \<in> set as. fst (snd (g_arcs (tview t) ! nat a)) \<in> visited_set vs')"
  using assms(3,4)
proof (induction "as" arbitrary: nt vs stack)
  case Nil
  then show ?case by (intro exI [of _ nt] exI [of _ vs] exI [of _ "[]"]) simp
next
  case (Cons a "as")
  let ?v = "tview t"
  have a: "a \<in> set (out_ids ?v p)" using Cons.prems(1) by simp
  from out_ids_range [OF a] have ar: "0 \<le> a" "a < int (length (g_arcs ?v))" "fst (g_arcs ?v ! nat a) = p" by auto
  obtain c d where e: "snd (g_arcs ?v ! nat a) = (c, d)" by (cases "snd (g_arcs ?v ! nat a)")
  then have mem: "(p, c, d) \<in> set (g_arcs ?v)" using ar nth_mem [of "nat a" "g_arcs ?v"] by (cases "g_arcs ?v ! nat a") auto
  then have c: "0 \<le> c" "c < order_of ?v" using view_ok [OF t] by (auto simp: graph_ok_def)
  have reach: "c \<in> reach_from ?v r" using reach_from_step [OF p] mem by (simp add: outl_mem)
  note W = Cons.prems(2) [unfolded walk_inv_def split_conv]
  have cl: "c < int (length vs)" using c W by simp
  have ops: "st_target (e_tree E) a t = Some c" "st_inArcNum (e_tree E) c t = Some (int (in_degree ?v c))"
    using target [OF t ar(1,2)] inArcNum [OF t c] e by (simp_all add: in_degree_def)
  note look = visited_aref [OF c(1) cl]
  show ?case
  proof (cases "c \<in> visited_set vs")
    case True
    with Cons.IH [OF _ Cons.prems(2)] Cons.prems(1) obtain nt' vs' new where r: "transpositions_arcs E t as (nt, vs, stack) = Some (nt', vs', stack @ new)"
      "walk_inv ?v r (nt', vs', stack @ new)" "length vs' = length vs" "visited_set vs' = visited_set vs \<union> set new"
      "card (visited_set vs') = card (visited_set vs) + length new" "\<forall>a \<in> set as. fst (snd (g_arcs ?v ! nat a)) \<in> visited_set vs'" by auto
    with True look ops(1) e show ?thesis by (intro exI [of _ nt'] exI [of _ vs'] exI [of _ new]) simp
  next
    case False
    obtain vs1 where vs1: "aset vs c True = Some vs1" "length vs1 = length vs" "visited_set vs1 = insert c (visited_set vs)"
      using visited_aset [OF c(1) cl] by blast
    let ?nt = "if int (in_degree ?v c) > 1 then nt + 1 else nt"
    have "c \<noteq> r" using False W by auto
    then have "?nt = int (card (transpositions_in ?v r (visited_set vs1)))"
      unfolding vs1(3) using transpositions_insert [OF visited_card(1) False, of r ?v] W by simp
    then have "walk_inv ?v r (?nt, vs1, stack @ [c])" using W reach vs1(2,3) by (auto simp: walk_inv_def)
    from Cons.IH [OF _ this] Cons.prems(1) obtain nt' vs' new where r: "transpositions_arcs E t as (?nt, vs1, stack @ [c]) = Some (nt', vs', (stack @ [c]) @ new)"
      "walk_inv ?v r (nt', vs', (stack @ [c]) @ new)" "length vs' = length vs1" "visited_set vs' = visited_set vs1 \<union> set new"
      "card (visited_set vs') = card (visited_set vs1) + length new" "\<forall>a \<in> set as. fst (snd (g_arcs ?v ! nat a)) \<in> visited_set vs'" by auto
    have "card (visited_set vs1) = card (visited_set vs) + 1" using False by (simp add: vs1(3) visited_card)
    with r vs1 False look ops e show ?thesis
      by (intro exI [of _ nt'] exI [of _ vs'] exI [of _ "c # new"]) (simp add: stack_push_def)
  qed
qed

lemma transpositions_loop_ok:
  assumes t: "tinv t" and "walk_inv (tview t) r st" "walk_closed (tview t) st"
  shows "transpositions_loop E t st = Some (int (card (transpositions_in (tview t) r (reach_from (tview t) r))))"
  using assms(2,3)
proof (induction st rule: measure_induct_rule [of walk_left])
  case (less st)
  let ?v = "tview t"
  obtain nt vs stack where st: "st = (nt, vs, stack)" by (rule prod_cases3)
  note W = less.prems(1) [unfolded st walk_inv_def split_conv] and C = less.prems(2) [unfolded st walk_closed_def split_conv]
  show ?case
  proof (cases stack rule: rev_cases)
    case Nil
    then have "visited_set vs = reach_from ?v r" using W C by (intro closed_reach) auto
    then show ?thesis using Nil W by (subst transpositions_loop.simps) (simp add: st stack_not_empty_def)
  next
    case (snoc rest p)
    have p: "p \<in> reach_from ?v r" "p \<in> visited_set vs" using W snoc by auto
    then have pr: "0 \<le> p" "p < order_of ?v" using W by (auto simp: visited_set_def)
    have "walk_inv ?v r (nt, vs, rest)" using W snoc by (auto simp: walk_inv_def)
    from transpositions_arcs_ok [OF t p(1) order.refl this] obtain nt' vs' new where
      n: "transpositions_arcs E t (out_ids ?v p) (nt, vs, rest) = Some (nt', vs', rest @ new)" "walk_inv ?v r (nt', vs', rest @ new)"
      "length vs' = length vs" "visited_set vs' = visited_set vs \<union> set new" "card (visited_set vs') = card (visited_set vs) + length new"
      "\<forall>a \<in> set (out_ids ?v p). fst (snd (g_arcs ?v ! nat a)) \<in> visited_set vs'" by blast
    have op: "fst ` set (outl ?v p) \<subseteq> visited_set vs'" using n(6) by (auto simp: outl_out_ids)
    have "fst ` set (outl ?v q) \<subseteq> visited_set vs'" if "q \<in> visited_set vs' - set (rest @ new)" for q
    proof (cases "q = p")
      case False
      then have "q \<in> visited_set vs - set stack" using that n(4) snoc by auto
      then show ?thesis using C n(4) by blast
    qed (use op in simp)
    then have cl: "walk_closed ?v (nt', vs', rest @ new)" by (simp add: walk_closed_def)
    have "walk_left (nt', vs', rest @ new) < walk_left st" using n(3,5) snoc visited_card(2) [of vs'] by (simp add: st)
    from less.IH [OF this n(2) cl] show ?thesis
      using n(1) out [OF t pr] snoc by (subst transpositions_loop.simps) (simp add: st stack_not_empty_def stack_pop_def)
  qed
qed

lemma numTranspositions_ok:
  assumes t: "tinv (m_tree m)"
  shows "numTranspositions E m = Some (int (card (transpositions_in (tview (m_tree m)) (st_root_node (e_tree E) (m_tree m))
    (reach_from (tview (m_tree m)) (st_root_node (e_tree E) (m_tree m))))))"
proof -
  let ?t = "m_tree m" and ?v = "tview (m_tree m)" and ?r = "st_root_node (e_tree E) (m_tree m)"
  have n: "st_nodeNum (e_tree E) ?t = order_of ?v" by (rule nodeNum(1) [OF t])
  have r: "0 \<le> ?r" "?r < order_of ?v" using root_range [OF t] by auto
  then obtain vs where vs: "aset (replicate (nat (order_of ?v)) False) ?r True = Some vs" "length vs = nat (order_of ?v)" "visited_set vs = {?r}"
    using visited_aset [of ?r "replicate (nat (order_of ?v)) False"] by (auto simp: visited_start)
  have "walk_inv ?v ?r (0, vs, [?r])" "walk_closed ?v (0, vs, [?r])"
    using vs r by (auto simp: walk_inv_def walk_closed_def reach_from_def transpositions_in_def)
  from transpositions_loop_ok [OF t this] show ?thesis using vs(1) n by (simp add: numTranspositions_def stack_new_def Let_def)
qed

end

interpretation cfw: tree_walk "cf_env unif F C" digraph_inv view for unif :: uniform_int and F :: "'f float_ops" and C :: int
  unfolding tree_walk_def by (simp add: cf_env_def cf_search_def dg.search_tree_axioms)

section \<open>Property\<close>

text \<open>C17: The number of transpositions of a search is the number of nodes below the root that are entered by more than one arc, and the walk always ends.\<close>

theorem numTranspositions_exact:
  assumes "digraph_inv (m_tree m)"
  shows "numTranspositions (cf_env unif F C) m =
    Some (int (card {n \<in> reach_from (view (m_tree m)) (root_node (m_tree m)). n \<noteq> root_node (m_tree m) \<and> 1 < in_degree (view (m_tree m)) n}))"
  using cfw.numTranspositions_ok [OF assms] by (simp add: transpositions_in_def)

text \<open>A tree in which the node 3 is entered from the nodes 1 and 2: what the program returns is the number of such nodes.\<close>

fun grow_nodes :: "nat \<Rightarrow> cf_tree \<Rightarrow> cf_tree option" where
  "grow_nodes 0 g = Some g"
| "grow_nodes (Suc k) g = do { (n, g) \<leftarrow> digraph_addNode NodeData g; grow_nodes k g }"

fun grow_arcs :: "(index_t \<times> index_t) list \<Rightarrow> cf_tree \<Rightarrow> cf_tree option" where
  "grow_arcs [] g = Some g"
| "grow_arcs ((s, t) # es) g = do { (l, g) \<leftarrow> addArc_chk s t \<lparr>ad_move = s\<rparr> g; grow_arcs es g }"

text \<open>The walk does not compute with floating-point numbers.\<close>

definition no_floats :: "unit float_ops" where
  "no_floats = \<lparr>f_of_int = (\<lambda>i. ()), f_add = (\<lambda>x y. ()), f_mul = (\<lambda>x y. ()), f_div = (\<lambda>x y. ()), f_sqrt = (\<lambda>x. ()), f_log = (\<lambda>x. ()),
     f_gt = (\<lambda>x y. False), f_eq = (\<lambda>x y. True)\<rparr>"

definition diamond :: "(cf_tree, path) mcts" where
  "diamond = (mcts_new (cf_env uniform_mod no_floats 7))\<lparr>m_tree :=
     the (do { g \<leftarrow> grow_nodes 3 (tree_new \<lparr>ad_move = 0\<rparr> NodeData); grow_arcs [(0, 1), (0, 2), (1, 3), (2, 3)] g })\<rparr>"

lemma grow_nodes_ok:
  "digraph_inv g \<Longrightarrow> length (m_nodes g) + k \<le> 2 ^ 31 \<Longrightarrow>
    \<exists>g'. grow_nodes k g = Some g' \<and> digraph_inv g' \<and> length (m_nodes g') = length (m_nodes g) + k \<and> m_arcs g' = m_arcs g"
proof (induction k arbitrary: g)
  case (Suc k)
  obtain g' where g': "digraph_addNode NodeData g = Some (int (length (m_nodes g)), g')" "tree_wf g'" "m_arcs g' = m_arcs g"
    using digraph_addNode_ok [of g NodeData] Suc.prems by (auto simp: digraph_inv_def)
  moreover have "length (m_nodes g') = length (m_nodes g) + 1" using g'(1) by (auto simp: digraph_addNode_def arena_emplace_back_def)
  ultimately show ?case using Suc.IH [of g'] Suc.prems by (simp add: digraph_inv_def)
qed simp

lemma grow_arcs_ok:
  assumes "digraph_inv g" "small (view g)" "length (g_arcs (view g)) + length es < 2 ^ 31"
    "\<forall>(s, t) \<in> set es. 0 \<le> s \<and> s < order_of (view g) \<and> 0 \<le> t \<and> t < order_of (view g)"
  shows "\<exists>g'. grow_arcs es g = Some g' \<and> digraph_inv g'"
  using assms
proof (induction es arbitrary: g)
  case (Cons e es)
  obtain s t where e: "e = (s, t)" by (cases e)
  let ?T = "digraph_ops \<lparr>ad_move = 0\<rparr> NodeData :: (cf_tree, move arc_data, move node_data) tree_ops"
  obtain g' where g': "st_addArc ?T s t \<lparr>ad_move = s\<rparr> g = Some (int (length (g_arcs (view g))), g')" "digraph_inv g'"
    "view g' = add_arc s t \<lparr>ad_move = s\<rparr> (view g)"
    using dg.addArc [OF Cons.prems(1,2), of s t "\<lparr>ad_move = 0\<rparr>" NodeData "\<lparr>ad_move = s\<rparr>"] Cons.prems(4) e by auto
  moreover have "small (view g')" using Cons.prems(2,3) g'(3) by (simp add: small_def)
  ultimately have "\<exists>g''. grow_arcs es g' = Some g'' \<and> digraph_inv g''" using Cons.prems(3,4) by (intro Cons.IH) auto
  with g'(1) show ?case by (auto simp: e digraph_ops_def)
qed simp

lemma diamond_ok: "digraph_inv (m_tree diamond)"
proof -
  let ?g = "tree_new \<lparr>ad_move = 0\<rparr> NodeData :: cf_tree"
  have new: "digraph_inv ?g" using dg.new_inv [of "\<lparr>ad_move = 0\<rparr>" NodeData] by (simp add: digraph_ops_def)
  have len: "length (m_nodes ?g) = 1" "length (m_arcs ?g) = 1" by (simp_all add: tree_new_def arena_emplace_back_def)
  from grow_nodes_ok [OF new, of 3] len obtain g' where g': "grow_nodes 3 ?g = Some g'" "digraph_inv g'" "length (m_nodes g') = 4" "length (m_arcs g') = 1" by auto
  then obtain g'' where "grow_arcs [(0, 1), (0, 2), (1, 3), (2, 3)] g' = Some g''" "digraph_inv g''"
    using grow_arcs_ok [of g' "[(0, 1), (0, 2), (1, 3), (2, 3)]"] by (auto simp: small_def view_sel)
  with g'(1) show ?thesis by (simp add: diamond_def)
qed

lemma diamond_run: "numTranspositions (cf_env uniform_mod no_floats 7) diamond = Some 1"
  by code_simp

theorem numTranspositions_exact_witness:
  "card {n \<in> reach_from (view (m_tree diamond)) (root_node (m_tree diamond)). n \<noteq> root_node (m_tree diamond) \<and> 1 < in_degree (view (m_tree diamond)) n} = 1"
  using numTranspositions_exact [OF diamond_ok, of uniform_mod no_floats 7] unfolding diamond_run by simp

end
