(* ===== verification/Oska.thy ===== *)
theory Oska
  imports Moves Multi_Array "HOL-Library.Signed_Division"
begin

unbundle bit_operations_syntax

text \<open>
  The game of oska.hpp: the class template \<^verbatim>\<open>OskaStateTemplate<S>\<close> for games with \<open>S\<close> stones per player. The static lookup
  tables and keys are the record \<open>oska_tables\<close>, which every method that reads them takes as an argument; the members of an
  object are \<open>oska_state\<close>. The geometry of the hexagons for the graphical front end and the tree of their points are left
  out. The random numbers of \<^verbatim>\<open>once_initialize\<close> come from any source: \<open>hex\<close> is what the construction of a hexagon, with its
  two normally distributed offsets, does to the source, and \<open>key\<close> draws one 64-bit key.
\<close>

section \<open>Locations and moves\<close>

record location =
  l_c :: int
  l_r :: int

definition Location :: "index_t \<Rightarrow> index_t \<Rightarrow> location" where
  "Location c r = \<lparr>l_c = to_int8 c, l_r = to_int8 r\<rparr>"

definition location_invalid :: location where
  "location_invalid = \<lparr>l_c = -3, l_r = -3\<rparr>"

definition location_minus :: "location \<Rightarrow> location \<Rightarrow> location" where
  "location_minus a b = Location (l_c a - l_c b) (l_r a - l_r b)"

record oska_move =
  m_from :: location
  m_to :: location

definition oska_move_none :: oska_move where
  "oska_move_none = \<lparr>m_from = Location (-1) (-1), m_to = Location (-1) (-1)\<rparr>"

definition oska_move_root :: oska_move where
  "oska_move_root = \<lparr>m_from = Location (-2) (-2), m_to = Location (-2) (-2)\<rparr>"

text \<open>The constant \<^verbatim>\<open>Move::invalid\<close> is initialised from itself while it is still zero.\<close>

definition oska_move_invalid :: oska_move where
  "oska_move_invalid = \<lparr>m_from = \<lparr>l_c = 0, l_r = 0\<rparr>, m_to = \<lparr>l_c = 0, l_r = 0\<rparr>\<rparr>"

definition isMove :: "oska_move \<Rightarrow> bool" where
  "isMove m \<longleftrightarrow> l_r (m_to m) - l_r (m_from m) = 1 \<and> \<bar>l_c (m_to m) - l_c (m_from m)\<bar> = 1"

definition isCapture :: "oska_move \<Rightarrow> bool" where
  "isCapture m \<longleftrightarrow> l_r (m_to m) - l_r (m_from m) = 2 \<and> \<bar>l_c (m_to m) - l_c (m_from m)\<bar> = 2"

definition captured :: "oska_move \<Rightarrow> location" where
  "captured m = Location ((l_c (m_from m) + l_c (m_to m)) sdiv 2) ((l_r (m_from m) + l_r (m_to m)) sdiv 2)"

section \<open>Extents\<close>

definition ob_cols :: "index_t \<Rightarrow> index_t" where
  "ob_cols S = S + (S - 1) + 2"

definition no_rows :: "index_t \<Rightarrow> index_t" where
  "no_rows S = 2 * (S - 2) + 1"

definition ob_rows :: "index_t \<Rightarrow> index_t" where
  "ob_rows S = no_rows S + 2"

definition ob_home_row :: "index_t \<Rightarrow> index_t" where
  "ob_home_row S = ob_rows S - 2"

definition no_hexagons :: "index_t \<Rightarrow> index_t" where
  "no_hexagons S = S * (S + 1) - 4"

definition oska_max_no_moves :: "index_t \<Rightarrow> index_t" where
  "oska_max_no_moves S = 2 * S"

section \<open>State\<close>

record oska_tables =
  t_location_to_id :: "index_t matrix"
  t_id_to_location :: "location vector"
  t_zobrist_keys :: "u64 cube"

record oska_state =
  o_zobrist_hash :: u64
  o_agent_board :: "player matrix"
  o_human_board :: "player matrix"
  o_agent_stone_id :: "int list"
  o_human_stone_id :: "int list"
  o_no_home_agent :: index_t
  o_no_home_human :: index_t
  o_player_to_move :: player
  o_winner :: player
  o_last_move :: oska_move
  o_once_initialized :: bool

definition oska_player_key_values :: "u64 list" where
  "oska_player_key_values = [0x41fec34015a1bef2, 0x8b80677c9c144514, 0xf6242292160d5bb7]"

definition oska_player_keys :: "index_t \<Rightarrow> u64 option" where
  "oska_player_keys i = aref oska_player_key_values (i + 1)"

definition oska_tables_new :: "index_t \<Rightarrow> oska_tables" where
  "oska_tables_new S =
    \<lparr>t_location_to_id = matrix_new (ob_cols S) (ob_rows S) 0 0 0,
     t_id_to_location = vector_new (no_hexagons S) 0 location_invalid,
     t_zobrist_keys = \<lparr>c_I = 2, c_J = ob_cols S, c_K = ob_rows S, c_BaseI = 0, c_BaseJ = 0, c_BaseK = 0,
       c_data = replicate (nat (2 * ob_cols S * ob_rows S)) 0\<rparr>\<rparr>"

definition oska_new :: "index_t \<Rightarrow> player \<Rightarrow> oska_state" where
  "oska_new S p =
    \<lparr>o_zobrist_hash = the (oska_player_keys (as_index Vacant)),
     o_agent_board = matrix_new (ob_cols S) (ob_rows S) 0 0 Vacant, o_human_board = matrix_new (ob_cols S) (ob_rows S) 0 0 Vacant,
     o_agent_stone_id = [], o_human_stone_id = [], o_no_home_agent = 0, o_no_home_human = 0,
     o_player_to_move = p, o_winner = Invalid, o_last_move = oska_move_root, o_once_initialized = False\<rparr>"

section \<open>Initialisation\<close>

text \<open>The iteration spaces of the loops over the board: the values of \<open>c\<close> in a row, the values of \<open>r\<close>, \<open>li\<close> and \<open>ri\<close> above and
  below the middle, and the cells in the order they are visited.\<close>

function oska_cols :: "index_t \<Rightarrow> index_t \<Rightarrow> index_t list" where
  "oska_cols c ri = (if c < ri then c # oska_cols (c + 2) ri else [])"
  by pat_completeness auto
termination
  by (relation "measure (\<lambda>(c, ri). nat (ri - c))") auto

declare oska_cols.simps [simp del]

function oska_rows_top :: "index_t \<Rightarrow> index_t \<Rightarrow> index_t \<Rightarrow> index_t \<Rightarrow> (index_t \<times> index_t \<times> index_t) list" where
  "oska_rows_top n r li ri = (if r < n then (r, li, ri) # oska_rows_top n (r + 1) (li + 1) (ri - 1) else [])"
  by pat_completeness auto
termination
  by (relation "measure (\<lambda>(n, r, li, ri). nat (n - r))") auto

declare oska_rows_top.simps [simp del]

function oska_rows_bottom :: "index_t \<Rightarrow> index_t \<Rightarrow> index_t \<Rightarrow> index_t \<Rightarrow> (index_t \<times> index_t \<times> index_t) list" where
  "oska_rows_bottom n r li ri = (if r < n then (r, li, ri) # oska_rows_bottom n (r + 1) (li - 1) (ri + 1) else [])"
  by pat_completeness auto
termination
  by (relation "measure (\<lambda>(n, r, li, ri). nat (n - r))") auto

declare oska_rows_bottom.simps [simp del]

definition row_cells :: "index_t \<times> index_t \<times> index_t \<Rightarrow> (index_t \<times> index_t) list" where
  "row_cells = (\<lambda>(r, li, ri). map (\<lambda>c. (c, r)) (oska_cols li ri))"

definition top_cells :: "index_t \<Rightarrow> (index_t \<times> index_t) list" where
  "top_cells S = concat (map row_cells (oska_rows_top (ob_rows S div 2) 1 1 (ob_cols S - 1)))"

text \<open>\<open>r\<close>, \<open>li\<close> and \<open>ri\<close> fall through from the first loop.\<close>

definition bottom_cells :: "index_t \<Rightarrow> (index_t \<times> index_t) list" where
  "bottom_cells S =
    (let k = max 0 (ob_rows S div 2 - 1)
     in concat (map row_cells (oska_rows_bottom (ob_rows S - 1) (1 + k) (1 + k) (ob_cols S - 1 - k))))"

definition all_cells :: "index_t \<Rightarrow> (index_t \<times> index_t) list" where
  "all_cells S = concat (map (\<lambda>r. map (\<lambda>c. (c, r)) [0..ob_cols S - 1]) [0..ob_rows S - 1])"

fun ofold :: "('a \<Rightarrow> 's \<Rightarrow> 's option) \<Rightarrow> 'a list \<Rightarrow> 's \<Rightarrow> 's option" where
  "ofold f [] s = Some s"
| "ofold f (x # xs) s = do { s \<leftarrow> f x s; ofold f xs s }"

text \<open>\<^verbatim>\<open>boost::container::static_vector<std::int8_t, 8>\<close>.\<close>

definition stone_push :: "int list \<Rightarrow> index_t \<Rightarrow> int list option" where
  "stone_push ids i = (if length ids < 8 then Some (ids @ [to_int8 i]) else None)"

definition set_boards :: "index_t \<Rightarrow> index_t \<Rightarrow> player \<Rightarrow> oska_state \<Rightarrow> oska_state option" where
  "set_boards c r p s = do {
     ab \<leftarrow> matrix_put (o_agent_board s) c r p;
     hb \<leftarrow> matrix_put_r (o_human_board s) c r p;
     Some (s\<lparr>o_agent_board := ab, o_human_board := hb\<rparr>) }"

definition blank_cell :: "index_t \<times> index_t \<Rightarrow> oska_state \<Rightarrow> oska_state option" where
  "blank_cell = (\<lambda>(c, r) s. do {
     ab \<leftarrow> matrix_put (o_agent_board s) c r Invalid;
     hb \<leftarrow> matrix_put (o_human_board s) c r Invalid;
     Some (s\<lparr>o_agent_board := ab, o_human_board := hb\<rparr>) })"

definition blank_cell_table :: "index_t \<times> index_t \<Rightarrow> oska_tables \<times> oska_state \<Rightarrow> (oska_tables \<times> oska_state) option" where
  "blank_cell_table = (\<lambda>(c, r) (t, s). do {
     l \<leftarrow> matrix_put (t_location_to_id t) c r (-1);
     s \<leftarrow> blank_cell (c, r) s;
     Some (t\<lparr>t_location_to_id := l\<rparr>, s) })"

text \<open>A stone of the player whose home row this is: \<open>home\<close> is 1 for the agent and the last row for the human.\<close>

definition place_stone :: "player \<Rightarrow> index_t \<Rightarrow> oska_state \<Rightarrow> oska_state option" where
  "place_stone p i s =
    (if p = Agent then do { ids \<leftarrow> stone_push (o_agent_stone_id s) i; Some (s\<lparr>o_agent_stone_id := ids\<rparr>) }
     else do { ids \<leftarrow> stone_push (o_human_stone_id s) i; Some (s\<lparr>o_human_stone_id := ids\<rparr>) })"

definition init_cell ::
  "('g \<Rightarrow> 'g) \<Rightarrow> ('g \<Rightarrow> u64 \<times> 'g) \<Rightarrow> player \<Rightarrow> index_t \<Rightarrow> index_t \<times> index_t \<Rightarrow>
   oska_tables \<times> oska_state \<times> index_t \<times> 'g \<Rightarrow> (oska_tables \<times> oska_state \<times> index_t \<times> 'g) option" where
  "init_cell hex key p home = (\<lambda>(c, r) (t, s, i, g). do {
     let g = hex g;
     l \<leftarrow> matrix_put (t_location_to_id t) c r i;
     m \<leftarrow> vector_put (t_id_to_location t) i (Location c r);
     s \<leftarrow> set_boards c r (if r = home then p else Vacant) s;
     let (k0, g) = key g;
     ks \<leftarrow> cube_put (t_zobrist_keys t) 0 c r k0;
     let (k1, g) = key g;
     ks \<leftarrow> cube_put ks 1 c r k1;
     s \<leftarrow> (if r = home then do {
         j \<leftarrow> as_01index p;
         k \<leftarrow> cube_at ks j c r;
         place_stone p i (s\<lparr>o_zobrist_hash := o_zobrist_hash s XOR k\<rparr>) }
       else Some s);
     Some (\<lparr>t_location_to_id = l, t_id_to_location = m, t_zobrist_keys = ks\<rparr>, s, i + 1, g) })"

definition once_initialize ::
  "('g \<Rightarrow> 'g) \<Rightarrow> ('g \<Rightarrow> u64 \<times> 'g) \<Rightarrow> index_t \<Rightarrow> oska_tables \<times> oska_state \<times> 'g \<Rightarrow> (oska_tables \<times> oska_state \<times> 'g) option" where
  "once_initialize hex key S = (\<lambda>(t, s, g). do {
     (t, s) \<leftarrow> ofold blank_cell_table (all_cells S) (t, s);
     (t, s, i, g) \<leftarrow> ofold (init_cell hex key Agent 1) (top_cells S) (t, s, 0, g);
     (t, s, i, g) \<leftarrow> ofold (init_cell hex key Human (ob_home_row S)) (bottom_cells S) (t, s, i, g);
     Some (t, s, g) })"

definition reset_cell ::
  "player \<Rightarrow> index_t \<Rightarrow> index_t \<times> index_t \<Rightarrow> oska_state \<times> index_t \<Rightarrow> (oska_state \<times> index_t) option" where
  "reset_cell p home = (\<lambda>(c, r) (s, i). do {
     s \<leftarrow> set_boards c r (if r = home then p else Vacant) s;
     s \<leftarrow> (if r = home then place_stone p i s else Some s);
     Some (s, i + 1) })"

text \<open>\<open>p\<close> is the player \<^verbatim>\<open>Player::random\<close> returns.\<close>

definition oska_initialize ::
  "('g \<Rightarrow> 'g) \<Rightarrow> ('g \<Rightarrow> u64 \<times> 'g) \<Rightarrow> index_t \<Rightarrow> player \<Rightarrow> oska_tables \<times> oska_state \<times> 'g \<Rightarrow>
   (oska_tables \<times> oska_state \<times> 'g) option" where
  "oska_initialize hex key S p = (\<lambda>(t, s, g).
     if \<not> o_once_initialized s then once_initialize hex key S (t, s\<lparr>o_once_initialized := True\<rparr>, g)
     else do {
       s \<leftarrow> ofold blank_cell (all_cells S) s;
       (s, i) \<leftarrow> ofold (reset_cell Agent 1) (top_cells S) (s\<lparr>o_agent_stone_id := []\<rparr>, 0);
       (s, i) \<leftarrow> ofold (reset_cell Human (ob_home_row S)) (bottom_cells S) (s\<lparr>o_human_stone_id := []\<rparr>, i);
       Some (t, s\<lparr>o_no_home_agent := 0, o_no_home_human := 0, o_player_to_move := p, o_winner := Invalid,
         o_last_move := oska_move_root\<rparr>, g) })"

section \<open>Queries\<close>

definition isValidID :: "index_t \<Rightarrow> int \<Rightarrow> bool" where
  "isValidID S i \<longleftrightarrow> 0 \<le> i \<and> i < no_hexagons S"

definition getIdFromLocation :: "oska_tables \<Rightarrow> location \<Rightarrow> index_t option" where
  "getIdFromLocation t l = matrix_at (t_location_to_id t) (l_c l) (l_r l)"

text \<open>\<^verbatim>\<open>pointToHexID\<close> asks a spatial index, a library, for the nearest centre of a hexagon; it is the argument \<open>nearest\<close>.\<close>

definition pointToHexLocation :: "('p \<Rightarrow> index_t) \<Rightarrow> oska_tables \<Rightarrow> 'p \<Rightarrow> location option" where
  "pointToHexLocation nearest t p = vector_at (t_id_to_location t) (nearest p)"

definition pointToHumanID :: "('p \<Rightarrow> index_t) \<Rightarrow> oska_state \<Rightarrow> 'p \<Rightarrow> index_t" where
  "pointToHumanID nearest s p = (let i = nearest p in if i \<notin> set (o_human_stone_id s) then -1 else i)"

definition haveStones :: "player \<Rightarrow> oska_state \<Rightarrow> bool" where
  "haveStones p s = (if p = Agent then o_agent_stone_id s \<noteq> [] else o_human_stone_id s \<noteq> [])"

definition notHaveStones :: "player \<Rightarrow> oska_state \<Rightarrow> bool" where
  "notHaveStones p s = (if p = Agent then o_agent_stone_id s = [] else o_human_stone_id s = [])"

definition haveRemainingHome :: "player \<Rightarrow> oska_state \<Rightarrow> bool" where
  "haveRemainingHome p s =
    (if p = Agent then o_no_home_agent s \<noteq> 0 \<and> o_no_home_agent s = int (length (o_agent_stone_id s))
     else o_no_home_human s \<noteq> 0 \<and> o_no_home_human s = int (length (o_human_stone_id s)))"

definition oska_zobrist :: "oska_state \<Rightarrow> u64 option" where
  "oska_zobrist s = do {
     k \<leftarrow> oska_player_keys (as_index (o_player_to_move s));
     Some (o_zobrist_hash s XOR k) }"

definition oska_playerToMove :: "oska_state \<Rightarrow> player" where
  "oska_playerToMove s = o_player_to_move s"

definition oska_playerJustMoved :: "oska_state \<Rightarrow> player" where
  "oska_playerJustMoved s = opponent (o_player_to_move s)"

definition oska_lastMove :: "oska_state \<Rightarrow> oska_move" where
  "oska_lastMove s = o_last_move s"

definition other :: "index_t \<Rightarrow> location \<Rightarrow> location" where
  "other S l = location_minus (Location (ob_cols S - 1) (ob_rows S - 1)) l"

section \<open>Moving stones\<close>

text \<open>\<^verbatim>\<open>* std::find ( begin, end, a ) = b\<close>: the first stone at \<open>a\<close> goes to \<open>b\<close>; without one the end is dereferenced.\<close>

fun stone_move :: "int list \<Rightarrow> int \<Rightarrow> int \<Rightarrow> int list option" where
  "stone_move [] a b = None"
| "stone_move (x # xs) a b = (if x = a then Some (to_int8 b # xs) else map_option ((#) x) (stone_move xs a b))"

definition moveStone :: "index_t \<Rightarrow> oska_tables \<Rightarrow> player \<Rightarrow> oska_move \<Rightarrow> oska_state \<Rightarrow> oska_state option" where
  "moveStone S t p m s =
    (let fc = l_c (m_from m); fr = l_r (m_from m); tc = l_c (m_to m); tr = l_r (m_to m) in
     if p = Agent then do {
       hb \<leftarrow> matrix_put_r (o_human_board s) fc fr Vacant;
       ab \<leftarrow> matrix_put (o_agent_board s) fc fr Vacant;
       hb \<leftarrow> matrix_put_r hb tc tr Agent;
       ab \<leftarrow> matrix_put ab tc tr Agent;
       from_id \<leftarrow> matrix_at (t_location_to_id t) fc fr;
       to_id \<leftarrow> matrix_at (t_location_to_id t) tc tr;
       ids \<leftarrow> stone_move (o_agent_stone_id s) from_id to_id;
       Some (s\<lparr>o_agent_board := ab, o_human_board := hb, o_agent_stone_id := ids,
         o_no_home_agent := o_no_home_agent s + (if tr = ob_home_row S then 1 else 0)\<rparr>) }
     else do {
       ab \<leftarrow> matrix_put_r (o_agent_board s) fc fr Vacant;
       hb \<leftarrow> matrix_put (o_human_board s) fc fr Vacant;
       ab \<leftarrow> matrix_put_r ab tc tr Human;
       hb \<leftarrow> matrix_put hb tc tr Human;
       from_id \<leftarrow> matrix_at_r (t_location_to_id t) fc fr;
       to_id \<leftarrow> matrix_at_r (t_location_to_id t) tc tr;
       ids \<leftarrow> stone_move (o_human_stone_id s) from_id to_id;
       Some (s\<lparr>o_agent_board := ab, o_human_board := hb, o_human_stone_id := ids,
         o_no_home_human := o_no_home_human s + (if tr = ob_home_row S then 1 else 0)\<rparr>) })"

definition captureStone :: "oska_tables \<Rightarrow> player \<Rightarrow> oska_move \<Rightarrow> oska_state \<Rightarrow> oska_state option" where
  "captureStone t p m s =
    (let c = l_c (captured m); r = l_r (captured m) in
     if p = Agent then do {
       hb \<leftarrow> matrix_put_r (o_human_board s) c r Vacant;
       ab \<leftarrow> matrix_put (o_agent_board s) c r Vacant;
       i \<leftarrow> matrix_at (t_location_to_id t) c r;
       Some (s\<lparr>o_agent_board := ab, o_human_board := hb, o_human_stone_id := filter (\<lambda>x. x \<noteq> i) (o_human_stone_id s)\<rparr>) }
     else do {
       ab \<leftarrow> matrix_put_r (o_agent_board s) c r Vacant;
       hb \<leftarrow> matrix_put (o_human_board s) c r Vacant;
       i \<leftarrow> matrix_at_r (t_location_to_id t) c r;
       Some (s\<lparr>o_agent_board := ab, o_human_board := hb, o_agent_stone_id := filter (\<lambda>x. x \<noteq> i) (o_agent_stone_id s)\<rparr>) })"

text \<open>The hashing variants repeat the statements above; the keys are those of the mover's perspective.\<close>

definition moveStoneHash :: "index_t \<Rightarrow> oska_tables \<Rightarrow> player \<Rightarrow> oska_move \<Rightarrow> oska_state \<Rightarrow> oska_state option" where
  "moveStoneHash S t p m s = do {
     s \<leftarrow> moveStone S t p m s;
     let j = (if p = Agent then 0 else 1);
     k \<leftarrow> cube_at (t_zobrist_keys t) j (l_c (m_from m)) (l_r (m_from m));
     k' \<leftarrow> cube_at (t_zobrist_keys t) j (l_c (m_to m)) (l_r (m_to m));
     Some (s\<lparr>o_zobrist_hash := (o_zobrist_hash s XOR k) XOR k'\<rparr>) }"

definition captureStoneHash :: "index_t \<Rightarrow> oska_tables \<Rightarrow> player \<Rightarrow> oska_move \<Rightarrow> oska_state \<Rightarrow> oska_state option" where
  "captureStoneHash S t p m s = do {
     s \<leftarrow> captureStone t p m s;
     k \<leftarrow> cube_at (t_zobrist_keys t) (if p = Agent then 1 else 0) (ob_cols S - 1 - l_c (captured m)) (ob_rows S - 1 - l_r (captured m));
     Some (s\<lparr>o_zobrist_hash := o_zobrist_hash s XOR k\<rparr>) }"

section \<open>Possible moves\<close>

text \<open>Forward to the left and to the right, from the perspective of the player whose board this is: a step onto a vacant cell,
  or a jump over a stone of the opponent onto a vacant cell.\<close>

definition leftMove :: "player matrix \<Rightarrow> index_t \<Rightarrow> index_t \<Rightarrow> oska_move option" where
  "leftMove b c r = do {
     let from = Location c r;
     player \<leftarrow> matrix_at b (c + 1) (r + 1);
     if player = Vacant then Some \<lparr>m_from = from, m_to = Location (c + 1) (r + 1)\<rparr>
     else do {
       own \<leftarrow> matrix_at b (l_c from) (l_r from);
       if player = opponent own then do {
         q \<leftarrow> matrix_at b (c + 2) (r + 2);
         Some (if q = Vacant then \<lparr>m_from = from, m_to = Location (c + 2) (r + 2)\<rparr> else oska_move_invalid) }
       else Some oska_move_invalid } }"

definition rightMove :: "player matrix \<Rightarrow> index_t \<Rightarrow> index_t \<Rightarrow> oska_move option" where
  "rightMove b c r = do {
     let from = Location c r;
     player \<leftarrow> matrix_at b (c - 1) (r + 1);
     if player = Vacant then Some \<lparr>m_from = from, m_to = Location (c - 1) (r + 1)\<rparr>
     else do {
       own \<leftarrow> matrix_at b (l_c from) (l_r from);
       if player = opponent own then do {
         q \<leftarrow> matrix_at b (c - 2) (r + 2);
         Some (if q = Vacant then \<lparr>m_from = from, m_to = Location (c - 2) (r + 2)\<rparr> else oska_move_invalid) }
       else Some oska_move_invalid } }"

text \<open>The loops over the stones of a player; \<open>loc\<close> is \<^verbatim>\<open>m_id_to_location.at\<close> or \<^verbatim>\<open>at_r\<close>.\<close>

definition push_valid :: "oska_move \<Rightarrow> oska_move moves \<Rightarrow> oska_move moves option" where
  "push_valid m ms = (if m \<noteq> oska_move_invalid then push_back ms m else Some ms)"

fun oska_moves_loop :: "(index_t \<Rightarrow> location option) \<Rightarrow> player matrix \<Rightarrow> int list \<Rightarrow> oska_move moves \<Rightarrow> oska_move moves option" where
  "oska_moves_loop loc b [] ms = Some ms"
| "oska_moves_loop loc b (i # ids) ms = do {
     l \<leftarrow> loc i;
     m \<leftarrow> leftMove b (l_c l) (l_r l);
     ms \<leftarrow> push_valid m ms;
     m \<leftarrow> rightMove b (l_c l) (l_r l);
     ms \<leftarrow> push_valid m ms;
     oska_moves_loop loc b ids ms }"

definition oska_moves :: "oska_tables \<Rightarrow> oska_state \<Rightarrow> oska_move moves \<Rightarrow> (bool \<times> oska_move moves) option" where
  "oska_moves t s ms =
    (if occupied (o_winner s) then Some (False, ms)
     else do {
       ms \<leftarrow> (if o_player_to_move s = Agent
         then oska_moves_loop (vector_at (t_id_to_location t)) (o_agent_board s) (o_agent_stone_id s) (clear ms)
         else oska_moves_loop (vector_at_r (t_id_to_location t)) (o_human_board s) (o_human_stone_id s) (clear ms));
       Some (m_size ms \<noteq> 0, ms) })"

fun has_moves_loop :: "(index_t \<Rightarrow> location option) \<Rightarrow> player matrix \<Rightarrow> int list \<Rightarrow> bool option" where
  "has_moves_loop loc b [] = Some False"
| "has_moves_loop loc b (i # ids) = do {
     l \<leftarrow> loc i;
     m \<leftarrow> leftMove b (l_c l) (l_r l);
     if m \<noteq> oska_move_invalid then Some True
     else do {
       m \<leftarrow> rightMove b (l_c l) (l_r l);
       if m \<noteq> oska_move_invalid then Some True else has_moves_loop loc b ids } }"

definition hasMoves :: "oska_tables \<Rightarrow> player \<Rightarrow> oska_state \<Rightarrow> bool option" where
  "hasMoves t p s =
    (if p = Agent then has_moves_loop (vector_at (t_id_to_location t)) (o_agent_board s) (o_agent_stone_id s)
     else has_moves_loop (vector_at_r (t_id_to_location t)) (o_human_board s) (o_human_stone_id s))"

definition hasNoMoves :: "oska_tables \<Rightarrow> player \<Rightarrow> oska_state \<Rightarrow> bool option" where
  "hasNoMoves t p s = map_option Not (hasMoves t p s)"

definition playerMostHomeStones :: "oska_state \<Rightarrow> player" where
  "playerMostHomeStones s =
    (if o_no_home_agent s > o_no_home_human s then Agent
     else if o_no_home_agent s < o_no_home_human s then Human else Vacant)"

section \<open>Playing\<close>

definition oska_winner :: "oska_tables \<Rightarrow> oska_state \<Rightarrow> oska_state option" where
  "oska_winner t s =
    (let p = o_player_to_move s in
     if haveRemainingHome p s then
       Some (s\<lparr>o_winner := (if haveRemainingHome (opponent p) s then playerMostHomeStones s else p)\<rparr>)
     else if notHaveStones (opponent p) s then Some (s\<lparr>o_winner := p\<rparr>)
     else do {
       none \<leftarrow> hasNoMoves t (opponent p) s;
       Some (if none then s\<lparr>o_winner := opponent p\<rparr> else s) })"

definition next_player :: "oska_state \<Rightarrow> oska_state" where
  "next_player s = s\<lparr>o_player_to_move := opponent (o_player_to_move s)\<rparr>"

definition oska_move_hash :: "index_t \<Rightarrow> oska_tables \<Rightarrow> oska_move \<Rightarrow> oska_state \<Rightarrow> oska_state option" where
  "oska_move_hash S t m s = do {
     s \<leftarrow> moveStoneHash S t (o_player_to_move s) m (s\<lparr>o_last_move := m\<rparr>);
     s \<leftarrow> (if isCapture m then captureStoneHash S t (o_player_to_move s) m s else Some s);
     Some (next_player s) }"

definition oska_move_hash_winner :: "index_t \<Rightarrow> oska_tables \<Rightarrow> oska_move \<Rightarrow> oska_state \<Rightarrow> oska_state option" where
  "oska_move_hash_winner S t m s = do {
     s \<leftarrow> moveStoneHash S t (o_player_to_move s) m (s\<lparr>o_last_move := m\<rparr>);
     s \<leftarrow> (if isCapture m then captureStoneHash S t (o_player_to_move s) m s else Some s);
     s \<leftarrow> oska_winner t s;
     Some (next_player s) }"

definition oska_move_winner :: "index_t \<Rightarrow> oska_tables \<Rightarrow> oska_move \<Rightarrow> oska_state \<Rightarrow> oska_state option" where
  "oska_move_winner S t m s = do {
     s \<leftarrow> moveStone S t (o_player_to_move s) m (s\<lparr>o_last_move := m\<rparr>);
     s \<leftarrow> (if isCapture m then captureStone t (o_player_to_move s) m s else Some s);
     s \<leftarrow> oska_winner t s;
     Some (next_player s) }"

definition doMove :: "index_t \<Rightarrow> oska_tables \<Rightarrow> oska_move \<Rightarrow> oska_state \<Rightarrow> (oska_move \<times> oska_state) option" where
  "doMove S t m s = do { s \<leftarrow> oska_move_hash S t m s; Some (m, s) }"

partial_function (option) oska_simulate_loop ::
  "uniform_int \<Rightarrow> index_t \<Rightarrow> oska_tables \<Rightarrow> oska_state \<Rightarrow> oska_move moves \<Rightarrow> splitmix \<Rightarrow> (oska_state \<times> splitmix) option"
where
  "oska_simulate_loop unif S t s ms g = do {
     (b, ms) \<leftarrow> oska_moves t s ms;
     if b then do {
       (m, g) \<leftarrow> moves_random unif ms g;
       s \<leftarrow> oska_move_winner S t m s;
       oska_simulate_loop unif S t s ms g }
     else Some (s, g) }"

declare oska_simulate_loop.simps [code]

definition oska_simulate :: "uniform_int \<Rightarrow> index_t \<Rightarrow> oska_tables \<Rightarrow> oska_state \<Rightarrow> splitmix \<Rightarrow> (oska_state \<times> splitmix) option" where
  "oska_simulate unif S t s g = oska_simulate_loop unif S t s (moves_new (nat (oska_max_no_moves S)) oska_move_invalid) g"

definition oska_result :: "player \<Rightarrow> oska_state \<Rightarrow> int" where
  "oska_result p s = (if o_winner s = Vacant then 0 else if o_winner s = p then 1 else -1)"

definition oska_ended :: "oska_state \<Rightarrow> player option" where
  "oska_ended s = (if o_winner s = Invalid then None else Some (o_winner s))"

definition oska_terminal :: "oska_state \<Rightarrow> bool" where
  "oska_terminal s = occupied (o_winner s)"

definition oska_nonterminal :: "oska_state \<Rightarrow> bool" where
  "oska_nonterminal s \<longleftrightarrow> o_winner s = Vacant"

section \<open>Printing\<close>

definition oska_char :: "player \<Rightarrow> string option" where
  "oska_char p =
    (if as_index p = as_index Invalid then Some '' ''
     else if as_index p = as_index Agent then Some ''A''
     else if as_index p = as_index Vacant then Some ''*''
     else if as_index p = as_index Human then Some ''H''
     else None)"

definition print_oska_row :: "index_t \<Rightarrow> player matrix \<Rightarrow> index_t \<Rightarrow> string option" where
  "print_oska_row S b r = do {
     cs \<leftarrow> ofold (\<lambda>c out. do {
         p \<leftarrow> matrix_at b c r;
         ch \<leftarrow> oska_char p;
         Some (out @ ch @ (if c < ob_cols S then '' '' else [])) }) [0..ob_cols S - 1] [];
     Some ('' '' @ cs @ newline) }"

definition printRaw :: "index_t \<Rightarrow> player matrix \<Rightarrow> oska_state \<Rightarrow> string option" where
  "printRaw S b s = do {
     rows \<leftarrow> ofold (\<lambda>r out. do { l \<leftarrow> print_oska_row S b r; Some (out @ l) }) [0..ob_rows S - 1] newline;
     Some (rows @ newline @
       '' Agent: has '' @ decimal (int (length (o_agent_stone_id s))) @ '' stones ('' @ decimal (o_no_home_agent s) @ '' stone(s) home)'' @ newline @
       '' Human: has '' @ decimal (int (length (o_human_stone_id s))) @ '' stones ('' @ decimal (o_no_home_human s) @ '' stone(s) home)'' @ newline @ newline) }"

definition oska_print :: "index_t \<Rightarrow> oska_state \<Rightarrow> string option" where
  "oska_print S s = printRaw S (o_agent_board s) s"

section \<open>Moves of the front end\<close>

text \<open>One of the two moves of a stone; a coin decides which is tried first.\<close>

definition either_move :: "bool \<Rightarrow> player matrix \<Rightarrow> location \<Rightarrow> oska_move option" where
  "either_move heads b l =
    (if heads then do {
       m \<leftarrow> leftMove b (l_c l) (l_r l);
       if m \<noteq> oska_move_invalid then Some m else rightMove b (l_c l) (l_r l) }
     else do {
       m \<leftarrow> rightMove b (l_c l) (l_r l);
       if m \<noteq> oska_move_invalid then Some m else leftMove b (l_c l) (l_r l) })"

function random_move_loop ::
  "uniform_int \<Rightarrow> bernoulli_dist \<Rightarrow> (index_t \<Rightarrow> location option) \<Rightarrow> player matrix \<Rightarrow> int list \<Rightarrow> oska_move \<Rightarrow> splitmix \<Rightarrow>
   (oska_move \<times> splitmix) option" where
  "random_move_loop unif bern loc b ids m g =
    (if ids = [] then Some (m, g)
     else
       let (i, g) = unif 0 (int (length ids) - 1) g in
       (case aref ids i of
          None \<Rightarrow> None
        | Some x \<Rightarrow>
            (case loc x of
               None \<Rightarrow> None
             | Some l \<Rightarrow>
                 let (heads, g) = bern g in
                 (case either_move heads b l of
                    None \<Rightarrow> None
                  | Some m \<Rightarrow>
                      if m \<noteq> oska_move_invalid then Some (m, g)
                      else random_move_loop unif bern loc b (take (nat i) ids @ drop (nat i + 1) ids) m g))))"
  by pat_completeness auto
termination
  by (relation "measure (\<lambda>(unif, bern, loc, b, ids, m, g). length ids)") (auto simp: aref_def split: if_splits)

declare random_move_loop.simps [simp del]

definition randomMove ::
  "uniform_int \<Rightarrow> bernoulli_dist \<Rightarrow> oska_tables \<Rightarrow> oska_state \<Rightarrow> splitmix \<Rightarrow> (oska_move \<times> splitmix) option" where
  "randomMove unif bern t s g =
    (if o_player_to_move s = Agent
     then random_move_loop unif bern (vector_at (t_id_to_location t)) (o_agent_board s) (o_agent_stone_id s) oska_move_invalid g
     else random_move_loop unif bern (vector_at_r (t_id_to_location t)) (o_human_board s) (o_human_stone_id s) oska_move_invalid g)"

definition validator_entry :: "oska_tables \<Rightarrow> index_t \<Rightarrow> index_t \<Rightarrow> bool option" where
  "validator_entry t c r =
    (if r = c then Some False
     else do {
       a \<leftarrow> vector_at (t_id_to_location t) r;
       b \<leftarrow> vector_at (t_id_to_location t) c;
       let d = location_minus a b;
       Some (\<not> (\<bar>l_r d\<bar> > 2 \<or> \<bar>l_c d\<bar> > 2 \<or> \<bar>l_r d\<bar> \<noteq> \<bar>l_c d\<bar>)) })"

definition buildMoveValidator :: "index_t \<Rightarrow> oska_tables \<Rightarrow> bool matrix option" where
  "buildMoveValidator S t =
    ofold (\<lambda>(c, r) v. do { e \<leftarrow> validator_entry t c r; matrix_put v c r e })
      (concat (map (\<lambda>r. map (\<lambda>c. (c, r)) [0..no_hexagons S - 1]) [0..no_hexagons S - 1]))
      (matrix_new (no_hexagons S) (no_hexagons S) 0 0 False)"

definition humanMove :: "index_t \<Rightarrow> oska_tables \<Rightarrow> oska_state \<Rightarrow> index_t \<Rightarrow> index_t \<Rightarrow> oska_move option" where
  "humanMove S t s f_id t_id = do {
     validator \<leftarrow> buildMoveValidator S t;
     if f_id = t_id then Some oska_move_none
     else if f_id < 0 \<or> f_id > no_hexagons S - 1 \<or> t_id < 0 \<or> t_id > no_hexagons S - 1 then Some oska_move_invalid
     else do {
       ok \<leftarrow> matrix_at validator f_id t_id;
       if \<not> ok then Some oska_move_invalid
       else do {
         lf \<leftarrow> vector_at (t_id_to_location t) f_id;
         lt \<leftarrow> vector_at (t_id_to_location t) t_id;
         let mf = other S lf;
         let mt = other S lt;
         pf \<leftarrow> matrix_at (o_human_board s) (l_c mf) (l_r mf);
         if pf \<noteq> Human then Some oska_move_invalid
         else do {
           pt \<leftarrow> matrix_at (o_human_board s) (l_c mt) (l_r mt);
           if pt \<noteq> Vacant then Some oska_move_invalid
           else if l_r mt - l_r mf = 2 then do {
             pm \<leftarrow> matrix_at (o_human_board s) ((l_c mf + l_c mt) sdiv 2) ((l_r mf + l_r mt) sdiv 2);
             Some (if pm \<noteq> Agent then oska_move_invalid else \<lparr>m_from = mf, m_to = mt\<rparr>) }
           else Some \<lparr>m_from = mf, m_to = mt\<rparr> } } } }"

end
