(* ===== verification/Oska_Board.thy ===== *)
theory Oska_Board
  imports Oska
begin

text \<open>
  The board of Oska: its cells in the order of their identifiers, the point reflection that takes one player's perspective to
  the other's, and boards as functions of cells.
\<close>

section \<open>Cells\<close>

type_synonym cell = "index_t \<times> index_t"

definition cells :: "index_t \<Rightarrow> cell list" where
  "cells S = top_cells S @ bottom_cells S"

definition mirror :: "index_t \<Rightarrow> cell \<Rightarrow> cell" where
  "mirror S x = (ob_cols S - 1 - fst x, ob_rows S - 1 - snd x)"

text \<open>The position of a cell in the list is its identifier.\<close>

definition cid :: "index_t \<Rightarrow> cell \<Rightarrow> int" where
  "cid S x = int (length (takeWhile (\<lambda>y. y \<noteq> x) (cells S)))"

text \<open>What the proofs need of the layout, as an executable test; it holds for the sizes the stone lists have room for.\<close>

definition geometry :: "index_t \<Rightarrow> bool" where
  "geometry S \<longleftrightarrow>
    distinct (cells S) \<and> int (length (cells S)) = no_hexagons S \<and> map (mirror S) (rev (cells S)) = cells S
    \<and> list_all (\<lambda>x. 1 \<le> fst x \<and> fst x \<le> ob_cols S - 2 \<and> 1 \<le> snd x \<and> snd x \<le> ob_home_row S) (cells S)
    \<and> int (length (filter (\<lambda>x. snd x = 1) (cells S))) = S
    \<and> list_all (\<lambda>x. snd x < ob_home_row S) (top_cells S) \<and> list_all (\<lambda>x. 1 < snd x) (bottom_cells S)
    \<and> (1, 1) \<in> set (cells S) \<and> (2, 2) \<in> set (cells S)
    \<and> ob_cols S < 100 \<and> 5 \<le> ob_rows S \<and> ob_rows S < 100 \<and> no_hexagons S < 100 \<and> 0 < S \<and> S \<le> 8"

lemma geometry_sizes: "geometry 3" "geometry 4" "geometry 5" "geometry 6" "geometry 7" "geometry 8"
  by code_simp+

lemma geometry: "3 \<le> S \<Longrightarrow> S \<le> 8 \<Longrightarrow> geometry S"
proof -
  assume "3 \<le> S" "S \<le> 8"
  then have "S = 3 \<or> S = 4 \<or> S = 5 \<or> S = 6 \<or> S = 7 \<or> S = 8" by presburger
  with geometry_sizes show ?thesis by auto
qed

definition inb :: "index_t \<Rightarrow> cell \<Rightarrow> bool" where
  "inb S x \<longleftrightarrow> 0 \<le> fst x \<and> fst x < ob_cols S \<and> 0 \<le> snd x \<and> snd x < ob_rows S"

lemma home_row: "ob_home_row S = ob_rows S - 2"
  by (simp add: ob_home_row_def)

lemma mirror_simps [simp]:
  "mirror S (mirror S x) = x" "fst (mirror S x) = ob_cols S - 1 - fst x" "snd (mirror S x) = ob_rows S - 1 - snd x"
  by (simp_all add: mirror_def)

lemma mirror_eq_iff: "mirror S x = y \<longleftrightarrow> x = mirror S y"
  by auto

lemma inb_mirror [simp]: "inb S (mirror S x) = inb S x"
  by (auto simp: inb_def)

text \<open>The loops over the whole array visit every cell.\<close>

lemma all_cells_set: "x \<in> set (all_cells S) \<longleftrightarrow> inb S x"
  by (cases x) (auto simp: all_cells_def inb_def image_iff)

locale oska_size =
  fixes S :: index_t
  assumes geometry: "geometry S"
begin

lemma cells_distinct: "distinct (cells S)"
  and length_cells: "int (length (cells S)) = no_hexagons S"
  and S_bounds: "0 < S" "S \<le> 8"
  and extents: "ob_cols S < 100" "5 \<le> ob_rows S" "ob_rows S < 100" "no_hexagons S < 100"
  using geometry by (auto simp: geometry_def)

lemma cells_bounds:
  assumes "x \<in> set (cells S)"
  shows "1 \<le> fst x" "fst x \<le> ob_cols S - 2" "1 \<le> snd x" "snd x \<le> ob_rows S - 2"
  using geometry assms by (auto simp: geometry_def list_all_iff home_row)

lemma cells_inb: "x \<in> set (cells S) \<Longrightarrow> inb S x"
  using cells_bounds [of x] by (auto simp: inb_def)

lemma cells_rev: "map (mirror S) (rev (cells S)) = cells S"
  using geometry by (simp add: geometry_def)

lemma mirror_cells [simp]: "mirror S x \<in> set (cells S) \<longleftrightarrow> x \<in> set (cells S)"
proof -
  have "mirror S ` set (cells S) = set (cells S)" using arg_cong [OF cells_rev, of set] by simp
  then show ?thesis by (metis imageI mirror_simps(1))
qed

lemma cells_top_bottom: "(1, 1) \<in> set (cells S)" "(2, 2) \<in> set (cells S)"
    "x \<in> set (top_cells S) \<Longrightarrow> snd x < ob_home_row S" "x \<in> set (bottom_cells S) \<Longrightarrow> 1 < snd x"
    "set (cells S) = set (top_cells S) \<union> set (bottom_cells S)"
  using geometry by (auto simp: geometry_def list_all_iff cells_def)

lemma home_count: "int (length (filter (\<lambda>x. snd x = 1) (cells S))) = S" "int (length (filter (\<lambda>x. snd x = ob_home_row S) (cells S))) = S"
proof -
  show 1: "int (length (filter (\<lambda>x. snd x = 1) (cells S))) = S" using geometry by (simp add: geometry_def)
  have "length (filter (\<lambda>x. snd x = ob_home_row S) (cells S)) = length (filter (\<lambda>x. snd x = ob_home_row S) (map (mirror S) (rev (cells S))))"
    by (simp add: cells_rev)
  also have "\<dots> = length (filter (\<lambda>x. snd x = 1) (cells S))"
    by (auto simp: filter_map rev_filter [symmetric] home_row intro!: arg_cong [of _ _ length] filter_cong)
  finally show "int (length (filter (\<lambda>x. snd x = ob_home_row S) (cells S))) = S" using 1 by simp
qed

lemma cid_nth: "i < length (cells S) \<Longrightarrow> cid S (cells S ! i) = int i"
  using cells_distinct takeWhile_eq_take_P_nth [of i "cells S" "\<lambda>y. y \<noteq> cells S ! i"]
  by (auto simp: cid_def nth_eq_iff_index_eq)

lemma cid:
  assumes "x \<in> set (cells S)"
  shows "0 \<le> cid S x" "cid S x < no_hexagons S" "cells S ! nat (cid S x) = x"
proof -
  from assms obtain i where "i < length (cells S)" "x = cells S ! i" by (auto simp: in_set_conv_nth)
  with cid_nth length_cells show "0 \<le> cid S x" "cid S x < no_hexagons S" "cells S ! nat (cid S x) = x" by auto
qed

lemma cid_inj: "inj_on (cid S) (set (cells S))"
  by (metis cid(3) inj_onI)

lemma cid_eq_iff: "x \<in> set (cells S) \<Longrightarrow> y \<in> set (cells S) \<Longrightarrow> cid S x = cid S y \<longleftrightarrow> x = y"
  using cid_inj by (auto dest: inj_onD)

lemma cid_append: "cells S = ys @ x # zs \<Longrightarrow> cid S x = int (length ys)"
  using cid_nth [of "length ys"] by simp

text \<open>Mirrored access to the list of locations finds the mirrored cell.\<close>

lemma cells_mirror_nth:
  assumes "i < length (cells S)"
  shows "cells S ! (length (cells S) - 1 - i) = mirror S (cells S ! i)"
proof -
  have "cells S ! i = map (mirror S) (rev (cells S)) ! i" by (simp add: cells_rev)
  also have "\<dots> = mirror S (cells S ! (length (cells S) - Suc i))" using assms by (simp add: rev_nth)
  finally show ?thesis by simp
qed

lemma cid_int8 [cast_simps]: "x \<in> set (cells S) \<Longrightarrow> to_int8 (cid S x) = cid S x"
  using cid [of x] extents by (intro to_int8_id) auto

end

section \<open>Boards\<close>

lemma cube_at_defined:
  "length (c_data c) = nat (c_I c * c_J c * c_K c) \<Longrightarrow> cube_in c i j k \<Longrightarrow> \<exists>v. cube_at c i j k = Some v"
  using cub.flat_read [of c "(i, j, k)" "c_data c"] by (simp add: cube_at_def)

lemma cube_put_defined:
  assumes "length (c_data c) = nat (c_I c * c_J c * c_K c)" "cube_in c i j k"
  shows "\<exists>c'. cube_put c i j k v = Some c' \<and> length (c_data c') = length (c_data c) \<and> c_I c' = c_I c \<and> c_J c' = c_J c
    \<and> c_K c' = c_K c \<and> c_BaseI c' = c_BaseI c \<and> c_BaseJ c' = c_BaseJ c \<and> c_BaseK c' = c_BaseK c"
  using cub.flat_write [of c "(i, j, k)" "c_data c" v] assms by (simp add: cube_put_def)

definition bat :: "'a matrix \<Rightarrow> cell \<Rightarrow> 'a option" where
  "bat b x = matrix_at b (fst x) (snd x)"

definition bput :: "'a matrix \<Rightarrow> cell \<Rightarrow> 'a \<Rightarrow> 'a matrix" where
  "bput b x v = the (matrix_put b (fst x) (snd x) v)"

definition board_ok :: "index_t \<Rightarrow> 'a matrix \<Rightarrow> bool" where
  "board_ok S b \<longleftrightarrow> matrix_wf b \<and> m_I b = ob_cols S \<and> m_J b = ob_rows S \<and> m_BaseI b = 0 \<and> m_BaseJ b = 0"

lemma oboard_ok_in: "board_ok S b \<Longrightarrow> matrix_in b (fst x) (snd x) \<longleftrightarrow> inb S x"
  by (auto simp: board_ok_def matrix_in_def inb_def)

lemma board_ok_new [simp]: "board_ok S (matrix_new (ob_cols S) (ob_rows S) 0 0 v)"
  by (simp add: board_ok_def) (simp add: matrix_new_def)

lemma bat_Some: "board_ok S b \<Longrightarrow> inb S x \<Longrightarrow> \<exists>v. bat b x = Some v"
  using matrix_at_defined [of b "fst x" "snd x"] oboard_ok_in [of S b x] by (simp add: bat_def board_ok_def)

lemma bat_None: "board_ok S b \<Longrightarrow> \<not> inb S x \<Longrightarrow> bat b x = None"
  using matrix_at_None [of b "fst x" "snd x"] oboard_ok_in [of S b x] by (simp add: bat_def)

lemma bput:
  assumes "board_ok S b" "inb S x"
  shows "matrix_put b (fst x) (snd x) v = Some (bput b x v)" "board_ok S (bput b x v)"
    "bat (bput b x v) y = (if y = x then Some v else bat b y)"
proof -
  from matrix_put_defined [of b "fst x" "snd x" v] assms obtain b' where b': "matrix_put b (fst x) (snd x) v = Some b'"
    by (auto simp: oboard_ok_in) (auto simp: board_ok_def)
  then show "matrix_put b (fst x) (snd x) v = Some (bput b x v)" by (simp add: bput_def)
  show "board_ok S (bput b x v)" using assms matrix_put_frame [OF b'] b' by (simp add: bput_def board_ok_def)
  show "bat (bput b x v) y = (if y = x then Some v else bat b y)"
    using matrix_at_put [OF b', of "fst y" "snd y"] b' by (simp add: bput_def bat_def prod_eq_iff)
qed

lemma bat_r: "board_ok S b \<Longrightarrow> matrix_at_r b (fst x) (snd x) = bat b (mirror S x)"
  using matrix_at_r_mirror_aux [of b "fst x" "snd x"] by (simp add: bat_def board_ok_def)

lemma bput_r: "board_ok S b \<Longrightarrow> inb S x \<Longrightarrow> matrix_put_r b (fst x) (snd x) v = Some (bput b (mirror S x) v)"
  using matrix_put_r_mirror_aux [of b "fst x" "snd x" v] bput(1) [of S b "mirror S x" v] by (simp add: board_ok_def)

text \<open>Writing a list of cells.\<close>

lemma bput_fold:
  assumes "board_ok S b" "\<And>x. x \<in> set xs \<Longrightarrow> inb S x"
  shows "board_ok S (fold (\<lambda>x b. bput b x (f x)) xs b)
    \<and> (\<forall>y. bat (fold (\<lambda>x b. bput b x (f x)) xs b) y = (if y \<in> set xs then Some (f y) else bat b y))"
  using assms
proof (induction xs arbitrary: b)
  case (Cons x xs)
  then show ?case using Cons.IH [of "bput b x (f x)"] bput [of S b x "f x"] by auto
qed simp

lemma bput_fold_r:
  assumes "board_ok S b" "\<And>x. x \<in> set xs \<Longrightarrow> inb S x"
  shows "board_ok S (fold (\<lambda>x b. bput b (mirror S x) (f x)) xs b)
    \<and> (\<forall>y. bat (fold (\<lambda>x b. bput b (mirror S x) (f x)) xs b) y = (if mirror S y \<in> set xs then Some (f (mirror S y)) else bat b y))"
  using assms
proof (induction xs arbitrary: b)
  case (Cons x xs)
  then show ?case using Cons.IH [of "bput b (mirror S x) (f x)"] bput [of S b "mirror S x" "f x"] by auto
qed simp

end
