(* ===== verification/Oska_Inv.thy ===== *)
theory Oska_Inv
  imports Oska_Board
begin

unbundle bit_operations_syntax

text \<open>
  The invariant of an Oska game, and that every move keeps it. All statements are in the coordinates of the agent's board;
  \<open>persp\<close> takes a cell from a player's own perspective to them.
\<close>

section \<open>Perspectives\<close>

definition persp :: "index_t \<Rightarrow> player \<Rightarrow> cell \<Rightarrow> cell" where
  "persp S p x = (if p = Agent then x else mirror S x)"

definition pboard :: "player \<Rightarrow> oska_state \<Rightarrow> player matrix" where
  "pboard p s = (if p = Agent then o_agent_board s else o_human_board s)"

definition pids :: "player \<Rightarrow> oska_state \<Rightarrow> int list" where
  "pids p s = (if p = Agent then o_agent_stone_id s else o_human_stone_id s)"

definition phome :: "player \<Rightarrow> oska_state \<Rightarrow> index_t" where
  "phome p s = (if p = Agent then o_no_home_agent s else o_no_home_human s)"

lemma persp_simps [simp]:
  "persp S p (persp S p x) = x" "inb S (persp S p x) = inb S x" "persp S Agent x = x" "persp S p x = persp S p y \<longleftrightarrow> x = y"
  by (auto simp: persp_def) (metis mirror_simps(1))

lemma persp_eq_iff: "persp S p x = y \<longleftrightarrow> x = persp S p y"
  by auto

declare split_paired_All [simp del] split_paired_Ex [simp del]

section \<open>The invariant\<close>

text \<open>The stones of a player, and those on the row opposite his own.\<close>

definition own :: "index_t \<Rightarrow> player matrix \<Rightarrow> player \<Rightarrow> cell set" where
  "own S b p = {x \<in> set (cells S). bat b x = Some p}"

definition homed :: "index_t \<Rightarrow> player matrix \<Rightarrow> player \<Rightarrow> cell set" where
  "homed S b p = {x \<in> own S b p. snd (persp S p x) = ob_home_row S}"

lemma own_finite [simp]: "finite (own S b p)" "finite (homed S b p)"
  by (auto simp: own_def homed_def)

text \<open>The boards: cells off the board are invalid, the others are vacant or hold a stone, and the human's board is the
  agent's seen from the other side.\<close>

definition pieces_ok :: "index_t \<Rightarrow> player matrix \<Rightarrow> bool" where
  "pieces_ok S b \<longleftrightarrow> board_ok S b
    \<and> (\<forall>x. inb S x \<longrightarrow> (if x \<in> set (cells S) then bat b x \<in> {Some Agent, Some Human, Some Vacant} else bat b x = Some Invalid))"

definition boards_ok :: "index_t \<Rightarrow> player matrix \<Rightarrow> player matrix \<Rightarrow> bool" where
  "boards_ok S a h \<longleftrightarrow> pieces_ok S a \<and> board_ok S h \<and> (\<forall>x. bat h x = bat a (mirror S x))"

text \<open>The list of identifiers of a player's stones, and the count of those that are home.\<close>

definition side_ok :: "index_t \<Rightarrow> player matrix \<Rightarrow> player \<Rightarrow> int list \<Rightarrow> index_t \<Rightarrow> bool" where
  "side_ok S b p is n \<longleftrightarrow>
    distinct is \<and> set is = cid S ` own S b p \<and> int (length is) \<le> S \<and> n = int (card (homed S b p))"

definition tables_ok :: "index_t \<Rightarrow> oska_tables \<Rightarrow> bool" where
  "tables_ok S t \<longleftrightarrow>
    board_ok S (t_location_to_id t) \<and> (\<forall>x \<in> set (cells S). bat (t_location_to_id t) x = Some (cid S x))
    \<and> t_id_to_location t = \<lparr>v_I = no_hexagons S, v_BaseI = 0, v_data = map (\<lambda>x. Location (fst x) (snd x)) (cells S)\<rparr>
    \<and> c_I (t_zobrist_keys t) = 2 \<and> c_J (t_zobrist_keys t) = ob_cols S \<and> c_K (t_zobrist_keys t) = ob_rows S
    \<and> c_BaseI (t_zobrist_keys t) = 0 \<and> c_BaseJ (t_zobrist_keys t) = 0 \<and> c_BaseK (t_zobrist_keys t) = 0
    \<and> length (c_data (t_zobrist_keys t)) = nat (2 * ob_cols S * ob_rows S)"

definition oska_wf :: "index_t \<Rightarrow> oska_state \<Rightarrow> bool" where
  "oska_wf S s \<longleftrightarrow>
    boards_ok S (o_agent_board s) (o_human_board s) \<and> is_mover (o_player_to_move s)
    \<and> side_ok S (o_agent_board s) Agent (o_agent_stone_id s) (o_no_home_agent s)
    \<and> side_ok S (o_agent_board s) Human (o_human_stone_id s) (o_no_home_human s)"

lemma oska_wfD:
  assumes "oska_wf S s"
  shows "boards_ok S (o_agent_board s) (o_human_board s)" "pieces_ok S (o_agent_board s)"
    "is_mover (o_player_to_move s)" "is_mover p \<Longrightarrow> side_ok S (o_agent_board s) p (pids p s) (phome p s)"
  using assms by (auto simp: oska_wf_def boards_ok_def pids_def phome_def is_mover_def)

section \<open>Moves\<close>

definition loc :: "cell \<Rightarrow> location" where
  "loc x = \<lparr>l_c = fst x, l_r = snd x\<rparr>"

lemma loc_simps [simp]: "l_c (loc x) = fst x" "l_r (loc x) = snd x" "loc x = loc y \<longleftrightarrow> x = y"
  by (auto simp: loc_def prod_eq_iff)

text \<open>The move of the stone on \<open>x\<close>, in \<open>p\<close>'s perspective, in direction \<open>d\<close>: a step onto a vacant cell or a jump over a stone of the
  opponent onto a vacant cell.\<close>

definition stone_dir :: "index_t \<Rightarrow> player matrix \<Rightarrow> player \<Rightarrow> int \<Rightarrow> cell \<Rightarrow> oska_move option" where
  "stone_dir S b p d x =
    (let y = (fst x + d, snd x + 1); z = (fst x + 2 * d, snd x + 2) in
     if bat b (persp S p y) = Some Vacant then Some \<lparr>m_from = loc x, m_to = loc y\<rparr>
     else if bat b (persp S p y) = Some (opponent p) \<and> bat b (persp S p z) = Some Vacant
     then Some \<lparr>m_from = loc x, m_to = loc z\<rparr> else None)"

definition opt_list :: "'a option \<Rightarrow> 'a list" where
  "opt_list a = (case a of None \<Rightarrow> [] | Some x \<Rightarrow> [x])"

lemma set_opt_list [simp]: "set (opt_list a) = set_option a"
  by (cases a) (simp_all add: opt_list_def)

definition stone_moves :: "index_t \<Rightarrow> player matrix \<Rightarrow> player \<Rightarrow> cell \<Rightarrow> oska_move list" where
  "stone_moves S b p x = opt_list (stone_dir S b p 1 x) @ opt_list (stone_dir S b p (-1) x)"

text \<open>All moves of a player, in the order of his cells.\<close>

definition player_moves :: "index_t \<Rightarrow> player matrix \<Rightarrow> player \<Rightarrow> oska_move list" where
  "player_moves S b p =
    concat (map (\<lambda>x. stone_moves S b p (persp S p x)) (filter (\<lambda>x. bat b x = Some p) (cells S)))"

text \<open>A move that may be made, with the cells it concerns.\<close>

definition move_ok :: "index_t \<Rightarrow> player matrix \<Rightarrow> player \<Rightarrow> oska_move \<Rightarrow> cell \<Rightarrow> cell \<Rightarrow> cell \<Rightarrow> bool" where
  "move_ok S b p m x y z \<longleftrightarrow>
    m = \<lparr>m_from = loc x, m_to = loc y\<rparr> \<and> x \<in> set (cells S) \<and> y \<in> set (cells S)
    \<and> bat b (persp S p x) = Some p \<and> bat b (persp S p y) = Some Vacant \<and> snd x < snd y
    \<and> (if isCapture m then captured m = loc z \<and> z \<in> set (cells S) \<and> bat b (persp S p z) = Some (opponent p) \<and> snd z = snd x + 1
       else z = x)"

context oska_size
begin

lemma persp_cells [simp]: "persp S p x \<in> set (cells S) \<longleftrightarrow> x \<in> set (cells S)"
  by (simp add: persp_def)

lemma Location_loc: "inb S x \<Longrightarrow> Location (fst x) (snd x) = loc x"
  using extents by (simp add: Location_def loc_def inb_def to_int8_id)

lemma pieces_in_cells: "pieces_ok S b \<Longrightarrow> bat b x = Some q \<Longrightarrow> q \<noteq> Invalid \<Longrightarrow> x \<in> set (cells S)"
proof (rule ccontr)
  assume b: "pieces_ok S b" "bat b x = Some q" "q \<noteq> Invalid" "x \<notin> set (cells S)"
  then have "inb S x" using matrix_at_None [of b "fst x" "snd x"] oboard_ok_in [of S b x]
    by (cases "inb S x") (auto simp: pieces_ok_def bat_def)
  with b show False by (auto simp: pieces_ok_def)
qed

lemma pieces_at:
  assumes "pieces_ok S b" "inb S x"
  obtains q where "bat b x = Some q" "q \<in> {Agent, Human, Vacant, Invalid}"
proof -
  have "if x \<in> set (cells S) then bat b x \<in> {Some Agent, Some Human, Some Vacant} else bat b x = Some Invalid"
    using assms unfolding pieces_ok_def by blast
  with that show thesis by (auto split: if_splits)
qed

lemma boards_ok_persp:
  "boards_ok S (o_agent_board s) (o_human_board s) \<Longrightarrow> bat (pboard p s) x = bat (o_agent_board s) (persp S p x)"
  by (auto simp: boards_ok_def pboard_def persp_def)

lemma stone_dir_ok:
  assumes b: "pieces_ok S b" and p: "is_mover p" and x: "x \<in> set (cells S)" "bat b (persp S p x) = Some p"
    and m: "stone_dir S b p d x = Some m" and d: "d = 1 \<or> d = -1"
  shows "\<exists>y z. move_ok S b p m x y z"
proof -
  let ?y = "(fst x + d, snd x + 1)" and ?z = "(fst x + 2 * d, snd x + 2)"
  have opp: "opponent p \<noteq> Invalid" using p by (auto simp: is_mover_def)
  show ?thesis
  proof (cases "bat b (persp S p ?y) = Some Vacant")
    case True
    then have "?y \<in> set (cells S)" using pieces_in_cells [OF b True] by simp
    moreover have "m = \<lparr>m_from = loc x, m_to = loc ?y\<rparr>" using m True by (simp add: stone_dir_def)
    ultimately show ?thesis using True x by (intro exI [of _ ?y] exI [of _ x]) (simp add: move_ok_def isCapture_def)
  next
    case False
    with m have z: "bat b (persp S p ?y) = Some (opponent p)" "bat b (persp S p ?z) = Some Vacant" "m = \<lparr>m_from = loc x, m_to = loc ?z\<rparr>"
      by (auto simp: stone_dir_def Let_def split: if_splits)
    have yz: "?y \<in> set (cells S)" "?z \<in> set (cells S)" using pieces_in_cells [OF b z(1)] pieces_in_cells [OF b z(2)] opp by simp_all
    have "(fst x + (fst x + 2 * d)) sdiv 2 = fst x + d" "(snd x + (snd x + 2)) sdiv 2 = snd x + 1"
      using cells_bounds [OF x(1)] cells_bounds [OF yz(1)] by (auto simp: signed_divide_int_def)
    then have "captured m = loc ?y" using Location_loc [OF cells_inb [OF yz(1)]] by (simp add: captured_def z(3))
    moreover have "isCapture m" using d by (auto simp: isCapture_def z(3))
    ultimately show ?thesis using z yz x by (intro exI [of _ ?z] exI [of _ ?y]) (simp add: move_ok_def)
  qed
qed

lemma player_moves_ok:
  assumes "pieces_ok S b" "is_mover p" "m \<in> set (player_moves S b p)"
  shows "\<exists>x y z. move_ok S b p m x y z"
proof -
  from assms(3) obtain x d where x: "x \<in> set (cells S)" "bat b x = Some p" "stone_dir S b p d (persp S p x) = Some m" "d = 1 \<or> d = -1"
    by (auto simp: player_moves_def stone_moves_def)
  with stone_dir_ok [OF assms(1,2) _ _ x(3,4)] show ?thesis by (metis persp_cells persp_simps(1))
qed

text \<open>The code's search for a move finds it; the cells it looks at are all on the array.\<close>

lemma leftMove_ok:
  assumes b: "pieces_ok S b" and p: "is_mover p" and h: "\<And>y. bat h y = bat b (persp S p y)"
    and x: "x \<in> set (cells S)" "bat b (persp S p x) = Some p"
  shows "leftMove h (fst x) (snd x) = Some (case stone_dir S b p 1 x of None \<Rightarrow> oska_move_invalid | Some m \<Rightarrow> m)"
    and "rightMove h (fst x) (snd x) = Some (case stone_dir S b p (-1) x of None \<Rightarrow> oska_move_invalid | Some m \<Rightarrow> m)"
proof -
  note xb = cells_bounds [OF x(1)]
  have opp: "opponent p \<noteq> Invalid" "opponent p \<noteq> Vacant" using p by (auto simp: is_mover_def)
  have H: "matrix_at h c r = bat b (persp S p (c, r))" for c r using h [of "(c, r)"] by (simp add: bat_def)
  have own: "matrix_at h (fst x) (snd x) = Some p" using H x(2) by simp
  have L: "Location (fst x) (snd x) = loc x" using Location_loc cells_inb x(1) by simp
  have dir: "\<exists>q. bat b (persp S p (fst x + d, snd x + 1)) = Some q" "inb S (fst x + d, snd x + 1)" if "d = 1 \<or> d = -1" for d
  proof -
    show *: "inb S (fst x + d, snd x + 1)" using that xb by (auto simp: inb_def)
    from pieces_at [OF b, of "persp S p (fst x + d, snd x + 1)"] * show "\<exists>q. bat b (persp S p (fst x + d, snd x + 1)) = Some q" by auto
  qed
  have jump: "\<exists>q. bat b (persp S p (fst x + 2 * d, snd x + 2)) = Some q" "inb S (fst x + 2 * d, snd x + 2)"
    if d: "d = 1 \<or> d = -1" and o: "bat b (persp S p (fst x + d, snd x + 1)) = Some (opponent p)" for d
  proof -
    have "(fst x + d, snd x + 1) \<in> set (cells S)" using pieces_in_cells [OF b o] opp by simp
    from cells_bounds [OF this] d xb show *: "inb S (fst x + 2 * d, snd x + 2)" by (auto simp: inb_def)
    from pieces_at [OF b, of "persp S p (fst x + 2 * d, snd x + 2)"] * show "\<exists>q. bat b (persp S p (fst x + 2 * d, snd x + 2)) = Some q" by auto
  qed
  note LL = Location_loc [of "(fst x + _, snd x + _)", simplified]
  show "leftMove h (fst x) (snd x) = Some (case stone_dir S b p 1 x of None \<Rightarrow> oska_move_invalid | Some m \<Rightarrow> m)"
    using dir [of 1] jump [of 1] LL [of 1 1] LL [of 2 2] own opp
    by (auto simp: leftMove_def stone_dir_def H Let_def L)
  show "rightMove h (fst x) (snd x) = Some (case stone_dir S b p (-1) x of None \<Rightarrow> oska_move_invalid | Some m \<Rightarrow> m)"
    using dir [of "-1"] jump [of "-1"] LL [of "-1" 1] LL [of "-2" 2] own opp
    by (auto simp: rightMove_def stone_dir_def H Let_def L)
qed

end

text \<open>The Zobrist key of a stone, in its owner's perspective, and the hash of a board.\<close>

definition zkey :: "index_t \<Rightarrow> oska_tables \<Rightarrow> player \<Rightarrow> cell \<Rightarrow> u64" where
  "zkey S t p x = the (cube_at (t_zobrist_keys t) (if p = Agent then 0 else 1) (fst (persp S p x)) (snd (persp S p x)))"

definition cell_key :: "index_t \<Rightarrow> oska_tables \<Rightarrow> player matrix \<Rightarrow> cell \<Rightarrow> u64" where
  "cell_key S t b x = (case bat b x of Some p \<Rightarrow> if is_mover p then zkey S t p x else 0 | None \<Rightarrow> 0)"

definition stones_hash :: "index_t \<Rightarrow> oska_tables \<Rightarrow> player matrix \<Rightarrow> u64" where
  "stones_hash S t b = foldr (\<lambda>x h. cell_key S t b x XOR h) (cells S) 0"

lemma foldr_xor_change:
  fixes f f' :: "'a \<Rightarrow> u64"
  assumes "distinct xs" "y \<in> set xs" "\<And>u. u \<in> set xs \<Longrightarrow> u \<noteq> y \<Longrightarrow> f' u = f u"
  shows "foldr (\<lambda>x h. f' x XOR h) xs 0 = (foldr (\<lambda>x h. f x XOR h) xs 0 XOR f y) XOR f' y"
  using assms
proof (induction xs)
  case (Cons x xs)
  show ?case
  proof (cases "x = y")
    case True
    with Cons.prems have "f' u = f u" if "u \<in> set xs" for u using that by auto
    then have "foldr (\<lambda>x h. f' x XOR h) xs 0 = foldr (\<lambda>x h. f x XOR h) xs 0" by (intro foldr_cong) simp_all
    with True show ?thesis by (simp add: xor.assoc xor.left_commute xor.commute)
  next
    case False
    with Cons show ?thesis by (simp add: xor.assoc)
  qed
qed simp

context oska_size
begin

lemma zkey_ok:
  assumes "tables_ok S t" "inb S x"
  shows "cube_at (t_zobrist_keys t) (if p = Agent then 0 else 1) (fst x) (snd x) = Some (zkey S t p (persp S p x))"
proof -
  let ?k = "t_zobrist_keys t" and ?j = "if p = Agent then 0 else 1 :: int"
  have "cube_in ?k ?j (fst x) (snd x)" using assms by (auto simp: tables_ok_def cube_in_def inb_def)
  then have "\<exists>v. cube_at ?k ?j (fst x) (snd x) = Some v"
    by (rule cube_at_defined [rotated]) (use assms(1) in \<open>simp add: tables_ok_def\<close>)
  then show ?thesis by (auto simp: zkey_def)
qed

lemma stones_hash_put:
  assumes "board_ok S b" "x \<in> set (cells S)"
  shows "stones_hash S t (bput b x v) = (stones_hash S t b XOR cell_key S t b x) XOR (if is_mover v then zkey S t v x else 0)"
proof -
  note put = bput(3) [OF assms(1) cells_inb [OF assms(2)], of v]
  have "cell_key S t (bput b x v) u = cell_key S t b u" if "u \<noteq> x" for u using that by (simp add: cell_key_def put)
  from foldr_xor_change [OF cells_distinct assms(2) this] show ?thesis
    unfolding stones_hash_def by (simp add: cell_key_def [of S t "bput b x v" x] put)
qed

end

end
