(* ===== verification/Oska_Step.thy ===== *)
theory Oska_Step
  imports Oska_Inv
begin

unbundle bit_operations_syntax

text \<open>
  Making a move: what the code does to the two boards, the stone lists, the home counters and the hash, and that the
  invariant is kept.
\<close>

section \<open>The effect of a move\<close>

definition put2 :: "index_t \<Rightarrow> cell \<Rightarrow> player \<Rightarrow> oska_state \<Rightarrow> oska_state" where
  "put2 S x v s = s\<lparr>o_agent_board := bput (o_agent_board s) x v, o_human_board := bput (o_human_board s) (mirror S x) v\<rparr>"

definition set_side :: "player \<Rightarrow> int list \<Rightarrow> index_t \<Rightarrow> oska_state \<Rightarrow> oska_state" where
  "set_side p is n s =
    (if p = Agent then s\<lparr>o_agent_stone_id := is, o_no_home_agent := n\<rparr> else s\<lparr>o_human_stone_id := is, o_no_home_human := n\<rparr>)"

definition moved :: "index_t \<Rightarrow> player \<Rightarrow> cell \<Rightarrow> cell \<Rightarrow> oska_state \<Rightarrow> oska_state" where
  "moved S p x y s =
    set_side p (map (\<lambda>i. if i = cid S (persp S p x) then cid S (persp S p y) else i) (pids p s))
      (phome p s + (if snd y = ob_home_row S then 1 else 0))
      (put2 S (persp S p y) p (put2 S (persp S p x) Vacant s))"

definition taken :: "index_t \<Rightarrow> player \<Rightarrow> cell \<Rightarrow> oska_state \<Rightarrow> oska_state" where
  "taken S p z s =
    set_side (opponent p) (filter (\<lambda>i. i \<noteq> cid S (persp S p z)) (pids (opponent p) s)) (phome (opponent p) s)
      (put2 S (persp S p z) Vacant s)"

definition made :: "index_t \<Rightarrow> player \<Rightarrow> oska_move \<Rightarrow> cell \<Rightarrow> cell \<Rightarrow> cell \<Rightarrow> oska_state \<Rightarrow> oska_state" where
  "made S p m x y z s = (if isCapture m then taken S p z (moved S p x y s) else moved S p x y s)"

lemma stone_move_map:
  "distinct xs \<Longrightarrow> a \<in> set xs \<Longrightarrow> stone_move xs a b = Some (map (\<lambda>i. if i = a then to_int8 b else i) xs)"
proof (induction xs)
  case (Cons x xs)
  then show ?case by (cases "x = a") (auto intro: map_idI [symmetric])
qed simp

context oska_size
begin

lemma boards_put2:
  assumes "boards_ok S (o_agent_board s) (o_human_board s)" "x \<in> set (cells S)" "v \<in> {Agent, Human, Vacant}"
  shows "boards_ok S (o_agent_board (put2 S x v s)) (o_human_board (put2 S x v s))"
    "bat (o_agent_board (put2 S x v s)) u = (if u = x then Some v else bat (o_agent_board s) u)"
proof -
  have ok: "board_ok S (o_agent_board s)" "board_ok S (o_human_board s)" using assms(1) by (auto simp: boards_ok_def pieces_ok_def)
  note a = bput [OF ok(1) cells_inb [OF assms(2)], of v]
  have "inb S (mirror S x)" using assms(2) cells_inb by simp
  note h = bput [OF ok(2) this, of v]
  show "boards_ok S (o_agent_board (put2 S x v s)) (o_human_board (put2 S x v s))"
    using assms a(2,3) h(2,3) unfolding boards_ok_def pieces_ok_def put2_def by (auto simp: mirror_eq_iff)
  show "bat (o_agent_board (put2 S x v s)) u = (if u = x then Some v else bat (o_agent_board s) u)"
    using a(3) by (simp add: put2_def)
qed

lemma location_to_id:
  assumes "tables_ok S t" "x \<in> set (cells S)"
  shows "matrix_at (t_location_to_id t) (fst x) (snd x) = Some (cid S x)"
    "matrix_at_r (t_location_to_id t) (fst x) (snd x) = Some (cid S (mirror S x))"
proof -
  show "matrix_at (t_location_to_id t) (fst x) (snd x) = Some (cid S x)" using assms by (simp add: tables_ok_def bat_def)
  have "matrix_at_r (t_location_to_id t) (fst x) (snd x) = bat (t_location_to_id t) (mirror S x)"
    using assms(1) by (intro bat_r) (simp add: tables_ok_def)
  then show "matrix_at_r (t_location_to_id t) (fst x) (snd x) = Some (cid S (mirror S x))" using assms by (simp add: tables_ok_def)
qed

lemma own_id:
  assumes "oska_wf S s" "is_mover p" "x \<in> set (cells S)" "bat (o_agent_board s) (persp S p x) = Some p"
  shows "cid S (persp S p x) \<in> set (pids p s)" "distinct (pids p s)"
  using oska_wfD(4) [OF assms(1,2)] assms(3,4) by (auto simp: side_ok_def own_def)

lemma moveStone_ok:
  assumes s: "oska_wf S s" and t: "tables_ok S t" and p: "is_mover p" and m: "move_ok S (o_agent_board s) p m x y z"
  shows "moveStone S t p m s = Some (moved S p x y s)"
proof -
  have xy: "x \<in> set (cells S)" "y \<in> set (cells S)" "m_from m = loc x" "m_to m = loc y"
    "bat (o_agent_board s) (persp S p x) = Some p" using m by (auto simp: move_ok_def)
  have ok: "board_ok S (o_agent_board s)" "board_ok S (o_human_board s)" using oska_wfD(1) [OF s] by (auto simp: boards_ok_def pieces_ok_def)
  note inb = cells_inb [OF xy(1)] cells_inb [OF xy(2)]
  have inbm: "inb S (mirror S x)" "inb S (mirror S y)" using inb by simp_all
  note puts = bput(1,2) [OF ok(1) inb(1)] bput_r [OF ok(1) inb(1)] bput(1,2) [OF ok(2) inb(1)] bput_r [OF ok(2) inb(1)]
    bput(2) [OF ok(1) inbm(1)] bput(2) [OF ok(2) inbm(1)]
  note ids = own_id [OF s p xy(1,5)]
  have ym: "mirror S y \<in> set (cells S)" using xy by simp
  show ?thesis
  proof (cases "p = Agent")
    case True
    show ?thesis
      using stone_move_map [OF ids(2,1)] True bput(1) [OF puts(2) inb(2)] bput_r [OF puts(8) inb(2)] cid_int8 [OF xy(2)]
        location_to_id(1) [OF t xy(1)] location_to_id(1) [OF t xy(2)] puts
      by (simp add: moveStone_def xy(3,4) moved_def set_side_def put2_def pids_def phome_def)
  next
    case False
    then have "p = Human" using p by (simp add: is_mover_def)
    then show ?thesis
      using stone_move_map [OF ids(2,1)] bput(1) [OF puts(5) inb(2)] bput_r [OF puts(7) inb(2)] cid_int8 [OF ym]
        location_to_id(2) [OF t xy(1)] location_to_id(2) [OF t xy(2)] puts
      by (simp add: moveStone_def xy(3,4) moved_def set_side_def put2_def pids_def phome_def persp_def)
  qed
qed

lemma captureStone_ok:
  assumes b: "boards_ok S (o_agent_board s) (o_human_board s)" and t: "tables_ok S t" and p: "is_mover p"
    and z: "z \<in> set (cells S)" "captured m = loc z"
  shows "captureStone t p m s = Some (taken S p z s)"
proof -
  have ok: "board_ok S (o_agent_board s)" "board_ok S (o_human_board s)" using b by (auto simp: boards_ok_def pieces_ok_def)
  note inb = cells_inb [OF z(1)]
  note puts = bput(1) [OF ok(1) inb] bput_r [OF ok(1) inb] bput(1) [OF ok(2) inb] bput_r [OF ok(2) inb]
  from p consider "p = Agent" | "p = Human" by (auto simp: is_mover_def)
  then show ?thesis
    using puts location_to_id [OF t z(1)]
    by cases (simp_all add: captureStone_def z(2) taken_def set_side_def put2_def pids_def phome_def persp_def)
qed

text \<open>The board after the move and the capture, at every cell.\<close>

lemma made_board:
  assumes b: "boards_ok S (o_agent_board s) (o_human_board s)" and p: "is_mover p" and m: "move_ok S (o_agent_board s) p m x y z"
  shows "boards_ok S (o_agent_board (made S p m x y z s)) (o_human_board (made S p m x y z s))"
    "bat (o_agent_board (made S p m x y z s)) u =
      (if u = persp S p y then Some p else if u = persp S p x \<or> u = persp S p z then Some Vacant else bat (o_agent_board s) u)"
    "boards_ok S (o_agent_board (moved S p x y s)) (o_human_board (moved S p x y s))"
proof -
  let ?x = "persp S p x" and ?y = "persp S p y" and ?z = "persp S p z"
  have c: "?x \<in> set (cells S)" "?y \<in> set (cells S)" "isCapture m \<Longrightarrow> ?z \<in> set (cells S)" "\<not> isCapture m \<Longrightarrow> z = x"
    "isCapture m \<Longrightarrow> ?z \<noteq> ?y" using m p by (auto simp: move_ok_def is_mover_def split: if_splits)
  have v: "Vacant \<in> {Agent, Human, Vacant}" "p \<in> {Agent, Human, Vacant}" using p by (auto simp: is_mover_def)
  note b1 = boards_put2 [OF b c(1) v(1)]
  note b2 = boards_put2 [OF b1(1) c(2) v(2)]
  have bd: "o_agent_board (set_side q is n s) = o_agent_board s" "o_human_board (set_side q is n s) = o_human_board s" for q "is" n s
    by (simp_all add: set_side_def)
  show 3: "boards_ok S (o_agent_board (moved S p x y s)) (o_human_board (moved S p x y s))" using b2(1) by (simp add: moved_def bd)
  have at: "bat (o_agent_board (moved S p x y s)) u = (if u = ?y then Some p else if u = ?x then Some Vacant else bat (o_agent_board s) u)" for u
    using b1(2) b2(2) by (simp add: moved_def bd)
  show "boards_ok S (o_agent_board (made S p m x y z s)) (o_human_board (made S p m x y z s))"
    using 3 boards_put2(1) [OF 3 c(3) v(1)] by (simp add: made_def taken_def bd)
  show "bat (o_agent_board (made S p m x y z s)) u =
      (if u = ?y then Some p else if u = ?x \<or> u = ?z then Some Vacant else bat (o_agent_board s) u)"
  proof (cases "isCapture m")
    case True
    with boards_put2(2) [OF 3 c(3) v(1), of u] c(5) show ?thesis by (simp add: made_def taken_def bd at)
  next
    case False
    with c(4) have "z = x" by simp
    with False show ?thesis by (simp add: made_def at)
  qed
qed

text \<open>The stones of the two players after a move.\<close>

lemma made_own:
  assumes b: "boards_ok S (o_agent_board s) (o_human_board s)" and p: "is_mover p" and m: "move_ok S (o_agent_board s) p m x y z"
  defines "b' \<equiv> o_agent_board (made S p m x y z s)" and "b \<equiv> o_agent_board s"
  shows "own S b' p = insert (persp S p y) (own S b p - {persp S p x})" "persp S p y \<notin> own S b p" "persp S p x \<in> own S b p"
    "own S b' (opponent p) = own S b (opponent p) - {persp S p z}" "isCapture m \<Longrightarrow> persp S p z \<in> own S b (opponent p)"
    "homed S b' p = (if snd y = ob_home_row S then insert (persp S p y) (homed S b p) else homed S b p)"
    "homed S b' (opponent p) = homed S b (opponent p)"
proof -
  note at = made_board(2) [OF b p m, folded b'_def, folded b_def]
  have pp: "p \<noteq> Vacant" "opponent p \<noteq> p" "opponent p \<noteq> Vacant" using p by (auto simp: is_mover_def)
  have c: "x \<in> set (cells S)" "y \<in> set (cells S)" "bat b (persp S p x) = Some p" "bat b (persp S p y) = Some Vacant" "snd x < snd y"
    "\<not> isCapture m \<Longrightarrow> z = x" "isCapture m \<Longrightarrow> z \<in> set (cells S) \<and> bat b (persp S p z) = Some (opponent p) \<and> snd z = snd x + 1"
    using m by (auto simp: move_ok_def b_def split: if_splits)
  show o1: "own S b' p = insert (persp S p y) (own S b p - {persp S p x})" using c pp by (auto simp: own_def at) (metis option.inject)+
  show o2: "persp S p y \<notin> own S b p" "persp S p x \<in> own S b p" using c pp by (auto simp: own_def)
  show o3: "own S b' (opponent p) = own S b (opponent p) - {persp S p z}" using c pp by (auto simp: own_def at)
  show "isCapture m \<Longrightarrow> persp S p z \<in> own S b (opponent p)" using c(7) by (simp add: own_def)
  have xb: "snd x \<noteq> ob_home_row S" using c(5) cells_bounds(4) [OF c(2)] by (simp add: home_row)
  show "homed S b' p = (if snd y = ob_home_row S then insert (persp S p y) (homed S b p) else homed S b p)"
    using xb o2 by (auto simp: homed_def o1)
  have "snd (persp S (opponent p) (persp S p z)) \<noteq> ob_home_row S" if "persp S p z \<in> own S b (opponent p)"
  proof -
    have "isCapture m" by (rule ccontr) (use that c(3,6) pp in \<open>auto simp: own_def\<close>)
    then have "2 \<le> snd z" using c(7) cells_bounds(3) [OF c(1)] by simp
    then show ?thesis using p by (auto simp: persp_def is_mover_def home_row)
  qed
  then show "homed S b' (opponent p) = homed S b (opponent p)" by (auto simp: homed_def o3)
qed

lemma made_wf:
  assumes s: "oska_wf S s" and p: "is_mover p" and m: "move_ok S (o_agent_board s) p m x y z"
  shows "oska_wf S (made S p m x y z s)"
proof -
  let ?s = "made S p m x y z s" and ?b = "o_agent_board s" and ?x = "persp S p x" and ?y = "persp S p y" and ?z = "persp S p z"
  note b = oska_wfD(1) [OF s]
  note o = made_own [OF b p m]
  have opp: "is_mover (opponent p)" "opponent p \<noteq> p" using p by (auto simp: is_mover_def)
  have c: "?x \<in> set (cells S)" "?y \<in> set (cells S)" using m by (auto simp: move_ok_def)
  have cut: "cid S ` (A - {a}) = cid S ` A - {cid S a}" if "A \<subseteq> set (cells S)" "a \<in> set (cells S)" for A a
    using that cid_inj by (auto simp: inj_on_def)
  have sub: "own S ?b q \<subseteq> set (cells S)" for q by (auto simp: own_def)
  have ids: "pids p ?s = map (\<lambda>i. if i = cid S ?x then cid S ?y else i) (pids p s)"
    "phome p ?s = phome p s + (if snd y = ob_home_row S then 1 else 0)"
    "pids (opponent p) ?s = (if isCapture m then filter (\<lambda>i. i \<noteq> cid S ?z) (pids (opponent p) s) else pids (opponent p) s)"
    "phome (opponent p) ?s = phome (opponent p) s" "o_player_to_move ?s = o_player_to_move s"
    using p by (auto simp: made_def moved_def taken_def set_side_def put2_def pids_def phome_def is_mover_def)
  have sp: "distinct (pids p s)" "set (pids p s) = cid S ` own S ?b p" "int (length (pids p s)) \<le> S" "phome p s = int (card (homed S ?b p))"
    using oska_wfD(4) [OF s p] by (auto simp: side_ok_def)
  have so: "distinct (pids (opponent p) s)" "set (pids (opponent p) s) = cid S ` own S ?b (opponent p)"
    "int (length (pids (opponent p) s)) \<le> S" "phome (opponent p) s = int (card (homed S ?b (opponent p)))"
    using oska_wfD(4) [OF s opp(1)] by (auto simp: side_ok_def)
  have ny: "cid S ?y \<notin> set (pids p s)"
  proof
    assume "cid S ?y \<in> set (pids p s)"
    then obtain u where "u \<in> own S ?b p" "cid S ?y = cid S u" using sp(2) by auto
    with cid_eq_iff [OF c(2), of u] sub o(2) show False by auto
  qed
  have "side_ok S (o_agent_board ?s) p (pids p ?s) (phome p ?s)"
    unfolding side_ok_def
  proof (intro conjI)
    show "distinct (pids p ?s)" using sp(1) ny by (auto simp: ids distinct_map inj_on_def)
    have "set (pids p ?s) = insert (cid S ?y) (set (pids p s) - {cid S ?x})" using o(3) sp(2) by (auto simp: ids)
    also have "\<dots> = cid S ` own S (o_agent_board ?s) p" using cut [OF sub c(1)] by (simp add: o(1) sp(2))
    finally show "set (pids p ?s) = cid S ` own S (o_agent_board ?s) p" .
    show "int (length (pids p ?s)) \<le> S" using sp(3) by (simp add: ids)
    have "?y \<notin> homed S ?b p" using o(2) by (auto simp: homed_def)
    then show "phome p ?s = int (card (homed S (o_agent_board ?s) p))" using sp(4) by (simp add: ids o(6))
  qed
  moreover have "side_ok S (o_agent_board ?s) (opponent p) (pids (opponent p) ?s) (phome (opponent p) ?s)"
    unfolding side_ok_def
  proof (intro conjI)
    show "distinct (pids (opponent p) ?s)" using so(1) by (simp add: ids)
    show "set (pids (opponent p) ?s) = cid S ` own S (o_agent_board ?s) (opponent p)"
    proof (cases "isCapture m")
      case True
      then have "?z \<in> set (cells S)" using o(5) sub by blast
      then have "cid S ` own S (o_agent_board ?s) (opponent p) = set (pids (opponent p) s) - {cid S ?z}"
        using cut [OF sub, of ?z "opponent p"] by (simp add: o(4) so(2))
      with True show ?thesis by (auto simp: ids)
    next
      case False
      then have "?z \<notin> own S ?b (opponent p)" using m opp by (auto simp: move_ok_def own_def)
      with False show ?thesis by (simp add: ids o(4) so(2))
    qed
    have "int (length (filter (\<lambda>i. i \<noteq> cid S ?z) (pids (opponent p) s))) \<le> S" by (rule order_trans [OF _ so(3)]) simp
    with so(3) show "int (length (pids (opponent p) ?s)) \<le> S" by (simp add: ids)
    show "phome (opponent p) ?s = int (card (homed S (o_agent_board ?s) (opponent p)))" using so(4) by (simp add: ids o(7))
  qed
  ultimately show ?thesis
    using made_board(1) [OF b p m] oska_wfD(3) [OF s] ids(5) p
    by (auto simp: oska_wf_def pids_def phome_def is_mover_def)
qed

text \<open>The hash of the board changes by the keys of the stones that come and go.\<close>

lemma made_hash:
  assumes s: "oska_wf S s" and p: "is_mover p" and m: "move_ok S (o_agent_board s) p m x y z"
  shows "stones_hash S t (o_agent_board (made S p m x y z s)) =
    ((stones_hash S t (o_agent_board s) XOR zkey S t p (persp S p x)) XOR zkey S t p (persp S p y))
    XOR (if isCapture m then zkey S t (opponent p) (persp S p z) else 0)"
proof -
  let ?b = "o_agent_board s" and ?x = "persp S p x" and ?y = "persp S p y" and ?z = "persp S p z"
  note ok = oska_wfD(1) [OF s]
  have c: "?x \<in> set (cells S)" "?y \<in> set (cells S)" "bat ?b ?x = Some p" "bat ?b ?y = Some Vacant" "?y \<noteq> ?x"
    using m p by (auto simp: move_ok_def)
  have z: "isCapture m \<Longrightarrow> ?z \<in> set (cells S) \<and> bat ?b ?z = Some (opponent p) \<and> ?z \<noteq> ?x \<and> ?z \<noteq> ?y"
    using m p by (auto simp: move_ok_def is_mover_def)
  have bd: "o_agent_board (set_side q is n s) = o_agent_board s" for q "is" n s by (simp add: set_side_def)
  have b0: "board_ok S ?b" using ok by (simp add: boards_ok_def pieces_ok_def)
  note p1 = bput(2,3) [OF b0 cells_inb [OF c(1)], of Vacant]
  note p2 = bput(2,3) [OF p1(1) cells_inb [OF c(2)], of p]
  have mb: "o_agent_board (moved S p x y s) = bput (bput ?b ?x Vacant) ?y p" by (simp add: moved_def bd put2_def)
  have h1: "stones_hash S t (bput (bput ?b ?x Vacant) ?y p) = (stones_hash S t ?b XOR zkey S t p ?x) XOR zkey S t p ?y"
    using stones_hash_put [OF p1(1) c(2), of t p] stones_hash_put [OF b0 c(1), of t Vacant] c p by (simp add: cell_key_def p1(2))
  show ?thesis
  proof (cases "isCapture m")
    case True
    from z [OF True] p c have "cell_key S t (bput (bput ?b ?x Vacant) ?y p) ?z = zkey S t (opponent p) ?z"
      by (auto simp: cell_key_def p1(2) p2(2) is_mover_opponent)
    with True stones_hash_put [OF p2(1), of ?z t Vacant] z [OF True] h1 show ?thesis
      by (simp add: made_def taken_def bd put2_def mb)
  next
    case False
    with h1 show ?thesis by (simp add: made_def mb)
  qed
qed

end

section \<open>Progress\<close>

text \<open>The rows the stones of both players still have to go.\<close>

definition to_go :: "index_t \<Rightarrow> player \<Rightarrow> cell \<Rightarrow> nat" where
  "to_go S p x = nat (ob_home_row S - snd (persp S p x))"

definition togo :: "index_t \<Rightarrow> player matrix \<Rightarrow> nat" where
  "togo S b = (\<Sum>x\<in>own S b Agent. to_go S Agent x) + (\<Sum>x\<in>own S b Human. to_go S Human x)"

context oska_size
begin

lemma togo_mover: "is_mover p \<Longrightarrow> togo S b = (\<Sum>x\<in>own S b p. to_go S p x) + (\<Sum>x\<in>own S b (opponent p). to_go S (opponent p) x)"
  by (auto simp: togo_def is_mover_def)

lemma made_togo:
  assumes b: "boards_ok S (o_agent_board s) (o_human_board s)" and p: "is_mover p" and m: "move_ok S (o_agent_board s) p m x y z"
  shows "togo S (o_agent_board (made S p m x y z s)) < togo S (o_agent_board s)"
proof -
  let ?b = "o_agent_board s" and ?w = "to_go S p"
  note o = made_own [OF b p m]
  have xy: "snd x < snd y" "y \<in> set (cells S)" using m by (auto simp: move_ok_def)
  then have lt: "?w (persp S p y) < ?w (persp S p x)" using cells_bounds(4) [of y] by (simp add: to_go_def home_row)
  have "(\<Sum>u\<in>own S (o_agent_board (made S p m x y z s)) p. ?w u) = ?w (persp S p y) + (\<Sum>u\<in>own S ?b p - {persp S p x}. ?w u)"
    unfolding o(1) using o(2) by (subst sum.insert) auto
  also have "\<dots> < ?w (persp S p x) + (\<Sum>u\<in>own S ?b p - {persp S p x}. ?w u)" using lt by simp
  also have "\<dots> = (\<Sum>u\<in>own S ?b p. ?w u)" using o(3) by (subst sum.remove [of _ "persp S p x"]) auto
  finally have "(\<Sum>u\<in>own S (o_agent_board (made S p m x y z s)) p. ?w u) < (\<Sum>u\<in>own S ?b p. ?w u)" .
  moreover have "(\<Sum>u\<in>own S (o_agent_board (made S p m x y z s)) (opponent p). to_go S (opponent p) u)
      \<le> (\<Sum>u\<in>own S ?b (opponent p). to_go S (opponent p) u)" unfolding o(4) by (rule sum_mono2) auto
  ultimately show ?thesis unfolding togo_mover [OF p] by linarith
qed

end

end
