(* ===== verification/Oska_Play.thy ===== *)
theory Oska_Play
  imports Oska_Step
begin

unbundle bit_operations_syntax

text \<open>
  The operations of an Oska game on states that satisfy the invariant: the moves on offer are the moves of the rules, the
  winner is the outcome of the board, and every operation succeeds.
\<close>

section \<open>Possible moves\<close>

definition ploc :: "oska_tables \<Rightarrow> player \<Rightarrow> index_t \<Rightarrow> location option" where
  "ploc t p = (if p = Agent then vector_at (t_id_to_location t) else vector_at_r (t_id_to_location t))"

lemma oska_moves_persp:
  "oska_moves t s ms =
    (if occupied (o_winner s) then Some (False, ms)
     else do {
       ms \<leftarrow> oska_moves_loop (ploc t (o_player_to_move s)) (pboard (o_player_to_move s) s) (pids (o_player_to_move s) s) (clear ms);
       Some (m_size ms \<noteq> 0, ms) })"
  by (simp add: oska_moves_def ploc_def pboard_def pids_def)

lemma hasMoves_persp: "hasMoves t p s = has_moves_loop (ploc t p) (pboard p s) (pids p s)"
  by (simp add: hasMoves_def ploc_def pboard_def pids_def)

context oska_size
begin

lemma ploc_ok:
  assumes "tables_ok S t" "x \<in> set (cells S)"
  shows "ploc t p (cid S x) = Some (loc (persp S p x))"
proof -
  let ?v = "t_id_to_location t" and ?n = "length (cells S)"
  note i = cid [OF assms(2)]
  have len: "int ?n = no_hexagons S" by (rule length_cells)
  then have lt: "nat (cid S x) < ?n" using i by linarith
  have v: "?v = \<lparr>v_I = no_hexagons S, v_BaseI = 0, v_data = map (\<lambda>x. Location (fst x) (snd x)) (cells S)\<rparr>"
    using assms(1) by (simp add: tables_ok_def)
  have "vector_at ?v (cid S x) = Some (loc x)"
    using i len lt Location_loc [OF cells_inb [OF assms(2)]] by (simp add: v vector_at_def vector_in_def vector_idx_def aref_def)
  moreover have "vector_at_r ?v (cid S x) = Some (loc (mirror S x))"
  proof -
    have "nat (no_hexagons S - 1 + - cid S x) = ?n - 1 - nat (cid S x)" using i len by linarith
    moreover have "cells S ! (?n - 1 - nat (cid S x)) = mirror S x" using cells_mirror_nth [OF lt] i(3) by simp
    ultimately show ?thesis
      using i len lt Location_loc [of "mirror S x"] cells_inb [OF assms(2)]
      by (simp add: v vector_at_r_def vector_in_def vector_idx_r_def aref_def)
  qed
  ultimately show ?thesis by (simp add: ploc_def persp_def)
qed

lemma stone_dir_valid: "x \<in> set (cells S) \<Longrightarrow> stone_dir S b p d x = Some m \<Longrightarrow> m \<noteq> oska_move_invalid"
  using cells_bounds(1) [of x] by (auto simp: stone_dir_def oska_move_invalid_def Let_def loc_def split: if_splits)

lemma stone_moves_length: "length (stone_moves S b p x) \<le> 2"
  by (auto simp: stone_moves_def opt_list_def split: option.splits)

lemma push_dir:
  assumes "x \<in> set (cells S)" "moves_wf ms" "m_size ms < capacity ms"
  shows "\<exists>ms'. push_valid (case stone_dir S b p d x of None \<Rightarrow> oska_move_invalid | Some m \<Rightarrow> m) ms = Some ms' \<and> moves_wf ms'
    \<and> contents ms' = contents ms @ opt_list (stone_dir S b p d x) \<and> capacity ms' = capacity ms \<and> m_size ms' \<le> m_size ms + 1"
proof (cases "stone_dir S b p d x")
  case None
  with assms(2) show ?thesis by (simp add: push_valid_def opt_list_def)
next
  case (Some m)
  with stone_dir_valid [OF assms(1), of b p d m] push_back_ok [OF assms(2,3), of m] show ?thesis
    by (auto simp: push_valid_def opt_list_def)
qed

lemma omoves_loop_ok:
  assumes t: "tables_ok S t" and b: "boards_ok S (o_agent_board s) (o_human_board s)" and p: "is_mover p"
  shows "set xs \<subseteq> own S (o_agent_board s) p \<Longrightarrow> moves_wf ms \<Longrightarrow> m_size ms + 2 * int (length xs) \<le> capacity ms \<Longrightarrow>
    \<exists>ms'. oska_moves_loop (ploc t p) (pboard p s) (map (cid S) xs) ms = Some ms' \<and> moves_wf ms'
      \<and> contents ms' = contents ms @ concat (map (\<lambda>x. stone_moves S (o_agent_board s) p (persp S p x)) xs) \<and> capacity ms' = capacity ms"
proof (induction xs arbitrary: ms)
  case (Cons x xs)
  let ?b = "o_agent_board s" and ?y = "persp S p x"
  have x: "x \<in> set (cells S)" "?y \<in> set (cells S)" "bat ?b (persp S p ?y) = Some p" using Cons.prems(1) by (auto simp: own_def)
  have pb: "pieces_ok S ?b" using b by (simp add: boards_ok_def)
  note dirs = leftMove_ok [OF pb p boards_ok_persp [OF b] x(2,3)]
  from push_dir [OF x(2) Cons.prems(2), of ?b p 1] Cons.prems(3) obtain m1 where
    m1: "push_valid (case stone_dir S ?b p 1 ?y of None \<Rightarrow> oska_move_invalid | Some m \<Rightarrow> m) ms = Some m1" "moves_wf m1"
    "contents m1 = contents ms @ opt_list (stone_dir S ?b p 1 ?y)" "capacity m1 = capacity ms" "m_size m1 \<le> m_size ms + 1" by auto
  from push_dir [OF x(2) m1(2), of ?b p "-1"] Cons.prems(3) m1(4,5) obtain m2 where
    m2: "push_valid (case stone_dir S ?b p (-1) ?y of None \<Rightarrow> oska_move_invalid | Some m \<Rightarrow> m) m1 = Some m2" "moves_wf m2"
    "contents m2 = contents m1 @ opt_list (stone_dir S ?b p (-1) ?y)" "capacity m2 = capacity m1" "m_size m2 \<le> m_size m1 + 1" by auto
  from Cons.IH [OF _ m2(2)] Cons.prems(1,3) m1(4,5) m2(4,5) obtain ms' where
    "oska_moves_loop (ploc t p) (pboard p s) (map (cid S) xs) m2 = Some ms'" "moves_wf ms'"
    "contents ms' = contents m2 @ concat (map (\<lambda>x. stone_moves S ?b p (persp S p x)) xs)" "capacity ms' = capacity m2" by auto
  with ploc_ok [OF t x(1)] dirs m1(1,3,4) m2(1,3,4) show ?case by (simp add: stone_moves_def)
qed simp

text \<open>The identifiers list the player's stones.\<close>

lemma stones_of:
  assumes "side_ok S b p ks n"
  shows "\<exists>xs. ks = map (cid S) xs \<and> distinct xs \<and> set xs = own S b p
    \<and> mset xs = mset (filter (\<lambda>x. bat b x = Some p) (cells S)) \<and> int (length xs) \<le> S"
proof -
  let ?xs = "map (\<lambda>i. cells S ! nat i) ks"
  have d: "distinct ks" "set ks = cid S ` own S b p" "int (length ks) \<le> S" using assms by (auto simp: side_ok_def)
  have inv_id: "cid S (cells S ! nat i) = i" "cells S ! nat i \<in> own S b p" if "i \<in> set ks" for i
    using that d(2) cid(3) by (auto simp: own_def)
  have 1: "ks = map (cid S) ?xs" using inv_id(1) by (simp add: map_idI)
  have "inj_on (\<lambda>i. cells S ! nat i) (set ks)" by (rule inj_on_inverseI [where g = "cid S"]) (rule inv_id(1))
  then have 2: "distinct ?xs" using d(1) by (simp add: distinct_map)
  have 3: "set ?xs = own S b p" using d(2) inv_id(2) cid(3) by (force simp: own_def)
  have "set ?xs = set (filter (\<lambda>x. bat b x = Some p) (cells S))" using 3 by (auto simp: own_def)
  then have "mset ?xs = mset (filter (\<lambda>x. bat b x = Some p) (cells S))"
    using set_eq_iff_mset_eq_distinct [OF 2 distinct_filter [OF cells_distinct]] by blast
  with 1 2 3 d(3) show ?thesis by (intro exI [of _ ?xs]) simp
qed

lemma side_length: "side_ok S b p ks n \<Longrightarrow> length ks = card (own S b p)"
  using stones_of [of b p ks n] by (metis distinct_card length_map)

lemma mset_player_moves:
  assumes "mset xs = mset (filter (\<lambda>x. bat b x = Some p) (cells S))"
  shows "mset (concat (map (\<lambda>x. stone_moves S b p (persp S p x)) xs)) = mset (player_moves S b p)"
proof -
  show ?thesis unfolding player_moves_def mset_concat sum_mset_sum_list [symmetric] mset_map assms by (rule refl)
qed

lemma oska_moves_ok:
  assumes t: "tables_ok S t" and s: "oska_wf S s" and ms: "moves_wf ms" "capacity ms = oska_max_no_moves S"
  shows "if occupied (o_winner s) then oska_moves t s ms = Some (False, ms)
    else \<exists>ms'. oska_moves t s ms = Some (player_moves S (o_agent_board s) (o_player_to_move s) \<noteq> [], ms') \<and> moves_wf ms'
      \<and> mset (contents ms') = mset (player_moves S (o_agent_board s) (o_player_to_move s)) \<and> capacity ms' = capacity ms"
proof (cases "occupied (o_winner s)")
  case True
  then show ?thesis by (simp add: oska_moves_def)
next
  case False
  let ?p = "o_player_to_move s" and ?b = "o_agent_board s"
  note p = oska_wfD(3) [OF s]
  from stones_of [OF oska_wfD(4) [OF s p]] obtain xs where xs: "pids ?p s = map (cid S) xs" "set xs = own S ?b ?p"
    "mset xs = mset (filter (\<lambda>x. bat ?b x = Some ?p) (cells S))" "int (length xs) \<le> S" by blast
  have "m_size (clear ms) + 2 * int (length xs) \<le> capacity (clear ms)" using ms(2) xs(4) by (simp add: clear_def oska_max_no_moves_def capacity_def)
  from omoves_loop_ok [OF t oska_wfD(1) [OF s] p _ _ this] xs(2) obtain ms' where
    ms': "oska_moves_loop (ploc t ?p) (pboard ?p s) (map (cid S) xs) (clear ms) = Some ms'" "moves_wf ms'"
    "contents ms' = concat (map (\<lambda>x. stone_moves S ?b ?p (persp S ?p x)) xs)" "capacity ms' = capacity ms" by auto
  have eq: "oska_moves t s ms = Some (m_size ms' \<noteq> 0, ms')" using False ms'(1)
    by (simp add: oska_moves_persp xs(1))
  have ms'': "mset (contents ms') = mset (player_moves S ?b ?p)" using mset_player_moves [OF xs(3)] by (simp add: ms'(3))
  from mset_eq_length [OF this] length_contents [OF ms'(2)] have "(m_size ms' \<noteq> 0) = (player_moves S ?b ?p \<noteq> [])" by auto
  with eq ms'' ms'(2,4) False show ?thesis by simp
qed

text \<open>No move is offered twice.\<close>

lemma stone_moves_from: "m \<in> set (stone_moves S b p x) \<Longrightarrow> m_from m = loc x"
  by (auto simp: stone_moves_def stone_dir_def Let_def split: if_splits)

lemma stone_moves_distinct [simp]: "distinct (stone_moves S b p x)"
  by (auto simp: stone_moves_def stone_dir_def opt_list_def Let_def)

lemma player_moves_distinct: "distinct (player_moves S b p)"
proof -
  let ?f = "\<lambda>x. stone_moves S b p (persp S p x)"
  have ne: "x = y" if "m \<in> set (?f x)" "m \<in> set (?f y)" for x y m
    using stone_moves_from [OF that(1)] stone_moves_from [OF that(2)] by simp
  have "distinct xs \<Longrightarrow> distinct (concat (map ?f xs))" for xs
  proof (induction xs)
    case (Cons x xs)
    have "set (?f x) \<inter> set (concat (map ?f xs)) = {}"
    proof (rule equals0I)
      fix m assume "m \<in> set (?f x) \<inter> set (concat (map ?f xs))"
      then obtain y where "y \<in> set xs" "m \<in> set (?f y)" "m \<in> set (?f x)" by (auto simp only: set_concat set_map)
      with ne [of m x y] Cons.prems show False by simp
    qed
    with Cons show ?case by simp
  qed simp
  from this [OF distinct_filter [OF cells_distinct]] show ?thesis by (simp add: player_moves_def)
qed

lemma has_moves_ok:
  assumes t: "tables_ok S t" and b: "boards_ok S (o_agent_board s) (o_human_board s)" and p: "is_mover p"
  shows "set xs \<subseteq> own S (o_agent_board s) p \<Longrightarrow>
    has_moves_loop (ploc t p) (pboard p s) (map (cid S) xs)
      = Some (\<exists>x \<in> set xs. stone_moves S (o_agent_board s) p (persp S p x) \<noteq> [])"
proof (induction xs)
  case (Cons x xs)
  let ?b = "o_agent_board s" and ?y = "persp S p x"
  have x: "x \<in> set (cells S)" "?y \<in> set (cells S)" "bat ?b (persp S p ?y) = Some p" using Cons.prems by (auto simp: own_def)
  have pb: "pieces_ok S ?b" using b by (simp add: boards_ok_def)
  note dirs = leftMove_ok [OF pb p boards_ok_persp [OF b] x(2,3)]
  from Cons dirs ploc_ok [OF t x(1)] stone_dir_valid [OF x(2), of ?b p] show ?case
    by (auto simp: stone_moves_def opt_list_def split: option.splits)
qed simp

lemma hasMoves_ok:
  assumes t: "tables_ok S t" and s: "oska_wf S s" and p: "is_mover p"
  shows "hasMoves t p s = Some (player_moves S (o_agent_board s) p \<noteq> [])"
proof -
  from stones_of [OF oska_wfD(4) [OF s p]] obtain xs where xs: "pids p s = map (cid S) xs" "set xs = own S (o_agent_board s) p" by blast
  have "player_moves S (o_agent_board s) p \<noteq> [] \<longleftrightarrow> (\<exists>x \<in> set xs. stone_moves S (o_agent_board s) p (persp S p x) \<noteq> [])"
    unfolding xs(2) by (auto simp: player_moves_def own_def)
  with has_moves_ok [OF t oska_wfD(1) [OF s] p, of xs] xs show ?thesis by (simp add: hasMoves_persp)
qed

end

section \<open>The outcome\<close>

text \<open>All remaining stones of a player have arrived, and there is one.\<close>

definition all_home :: "index_t \<Rightarrow> player matrix \<Rightarrow> player \<Rightarrow> bool" where
  "all_home S b p \<longleftrightarrow> own S b p \<noteq> {} \<and> homed S b p = own S b p"

text \<open>The outcome of a board on which \<open>p\<close> has moved last.\<close>

definition oska_outcome :: "index_t \<Rightarrow> player matrix \<Rightarrow> player \<Rightarrow> player" where
  "oska_outcome S b p =
    (if all_home S b p then
       if all_home S b (opponent p) then
         if card (own S b Agent) > card (own S b Human) then Agent
         else if card (own S b Agent) < card (own S b Human) then Human else Vacant
       else p
     else if own S b (opponent p) = {} then p
     else if player_moves S b (opponent p) = [] then opponent p
     else Invalid)"

context oska_size
begin

lemma haveRemainingHome_ok:
  assumes "oska_wf S s" "is_mover p"
  shows "haveRemainingHome p s = all_home S (o_agent_board s) p"
proof -
  let ?b = "o_agent_board s"
  note side = oska_wfD(4) [OF assms]
  have "haveRemainingHome p s \<longleftrightarrow> phome p s \<noteq> 0 \<and> phome p s = int (length (pids p s))"
    by (simp add: haveRemainingHome_def phome_def pids_def)
  also have "\<dots> \<longleftrightarrow> card (homed S ?b p) \<noteq> 0 \<and> card (homed S ?b p) = card (own S ?b p)"
    using side side_length [OF side] by (auto simp: side_ok_def)
  also have "\<dots> \<longleftrightarrow> homed S ?b p \<noteq> {} \<and> homed S ?b p = own S ?b p"
    using card_subset_eq [of "own S ?b p" "homed S ?b p"] by (auto simp: homed_def)
  finally show ?thesis by (auto simp: all_home_def)
qed

lemma notHaveStones_ok: "oska_wf S s \<Longrightarrow> is_mover p \<Longrightarrow> notHaveStones p s \<longleftrightarrow> own S (o_agent_board s) p = {}"
  using oska_wfD(4) [of S s p] by (auto simp: side_ok_def notHaveStones_def pids_def split: if_splits)

lemma playerMostHomeStones_ok:
  assumes "oska_wf S s" "all_home S (o_agent_board s) Agent" "all_home S (o_agent_board s) Human"
  shows "playerMostHomeStones s =
    (if card (own S (o_agent_board s) Agent) > card (own S (o_agent_board s) Human) then Agent
     else if card (own S (o_agent_board s) Agent) < card (own S (o_agent_board s) Human) then Human else Vacant)"
  using assms by (auto simp: playerMostHomeStones_def oska_wf_def side_ok_def all_home_def)

lemma oska_winner_ok:
  assumes t: "tables_ok S t" and s: "oska_wf S s" and w: "o_winner s = Invalid"
  shows "oska_winner t s = Some (s\<lparr>o_winner := oska_outcome S (o_agent_board s) (o_player_to_move s)\<rparr>)"
proof -
  note p = oska_wfD(3) [OF s]
  note q = is_mover_opponent [OF p]
  note facts = haveRemainingHome_ok [OF s p] haveRemainingHome_ok [OF s q] notHaveStones_ok [OF s q] hasMoves_ok [OF t s q]
  have most: "playerMostHomeStones s = (if card (own S (o_agent_board s) Agent) > card (own S (o_agent_board s) Human) then Agent
     else if card (own S (o_agent_board s) Agent) < card (own S (o_agent_board s) Human) then Human else Vacant)"
    if "all_home S (o_agent_board s) (o_player_to_move s)" "all_home S (o_agent_board s) (opponent (o_player_to_move s))"
    using playerMostHomeStones_ok [OF s] that p by (auto simp: is_mover_def)
  show ?thesis using most w by (simp add: oska_winner_def oska_outcome_def facts hasNoMoves_def Let_def)
qed

text \<open>A player whose stones have all arrived cannot move.\<close>

lemma all_home_no_moves:
  assumes "pieces_ok S b" "all_home S b p" "is_mover p"
  shows "player_moves S b p = []"
proof (rule ccontr)
  assume "player_moves S b p \<noteq> []"
  then obtain x d m where x: "x \<in> own S b p" "stone_dir S b p d (persp S p x) = Some m"
    by (fastforce simp: player_moves_def own_def stone_moves_def opt_list_def split: option.splits)
  then have r: "snd (persp S p x) = ob_home_row S" using assms(2) by (auto simp: all_home_def homed_def)
  have off: "bat b (persp S p (c, r)) \<noteq> Some q" if "r > ob_home_row S" "q \<noteq> Invalid" for c r q
    using pieces_in_cells [OF assms(1), of "persp S p (c, r)" q] cells_bounds(4) [of "(c, r)"] that by (auto simp: home_row)
  have "opponent p \<noteq> Invalid" using assms(3) by (auto simp: is_mover_def)
  with x(2) off show False by (simp add: stone_dir_def r split: if_splits)
qed

end

section \<open>Making moves\<close>

definition cell_of :: "location \<Rightarrow> cell" where
  "cell_of l = (l_c l, l_r l)"

lemma cell_of_loc [simp]: "cell_of (loc x) = x"
  by (simp add: cell_of_def)

definition move_board :: "index_t \<Rightarrow> player \<Rightarrow> oska_move \<Rightarrow> player matrix \<Rightarrow> player matrix" where
  "move_board S p m b =
    (let b = bput (bput b (persp S p (cell_of (m_from m))) Vacant) (persp S p (cell_of (m_to m))) p
     in if isCapture m then bput b (persp S p (cell_of (captured m))) Vacant else b)"

text \<open>What a move leaves: the position, and all that does not depend on the variant of the operation.\<close>

definition after :: "index_t \<Rightarrow> oska_move \<Rightarrow> oska_state \<Rightarrow> oska_state \<Rightarrow> bool" where
  "after S m s s' \<longleftrightarrow>
    oska_wf S s' \<and> o_agent_board s' = move_board S (o_player_to_move s) m (o_agent_board s)
    \<and> o_player_to_move s' = opponent (o_player_to_move s) \<and> o_last_move s' = m
    \<and> togo S (o_agent_board s') < togo S (o_agent_board s)"

lemma after_frame:
  "after S m s (next_player (s1\<lparr>o_zobrist_hash := h\<rparr>)) = after S m s (next_player s1)"
  "after S m s (next_player (s1\<lparr>o_winner := w\<rparr>)) = after S m s (next_player s1)"
  "after S m s (next_player (s1\<lparr>o_zobrist_hash := h, o_winner := w\<rparr>)) = after S m s (next_player s1)"
  by (simp_all add: after_def next_player_def oska_wf_def)

context oska_size
begin

lemma moves_made:
  assumes t: "tables_ok S t" and s: "oska_wf S s" and m: "m \<in> set (player_moves S (o_agent_board s) (o_player_to_move s))"
  defines "p \<equiv> o_player_to_move s"
  shows "\<exists>s1. (do { s \<leftarrow> moveStone S t p m (s\<lparr>o_last_move := m\<rparr>); if isCapture m then captureStone t p m s else Some s }) = Some s1
    \<and> (do { s \<leftarrow> moveStoneHash S t p m (s\<lparr>o_last_move := m\<rparr>); if isCapture m then captureStoneHash S t p m s else Some s })
        = Some (s1\<lparr>o_zobrist_hash := o_zobrist_hash s XOR (stones_hash S t (o_agent_board s) XOR stones_hash S t (o_agent_board s1))\<rparr>)
    \<and> oska_wf S s1 \<and> after S m s (next_player s1) \<and> o_player_to_move s1 = p \<and> o_winner s1 = o_winner s \<and> o_zobrist_hash s1 = o_zobrist_hash s"
proof -
  let ?s = "s\<lparr>o_last_move := m\<rparr>"
  have p: "is_mover p" using oska_wfD(3) [OF s] by (simp add: p_def)
  from player_moves_ok [OF oska_wfD(2) [OF s] p] m obtain x y z where m': "move_ok S (o_agent_board ?s) p m x y z"
    unfolding p_def by (simp add: p_def) blast
  have s': "oska_wf S ?s" using s by (simp add: oska_wf_def)
  have xyz: "m_from m = loc x" "m_to m = loc y" "isCapture m \<Longrightarrow> captured m = loc z \<and> z \<in> set (cells S)" "x \<in> set (cells S)" "y \<in> set (cells S)"
    using m' by (auto simp: move_ok_def)
  let ?s1 = "made S p m x y z ?s"
  have fr: "o_player_to_move ?s1 = p" "o_winner ?s1 = o_winner s" "o_zobrist_hash ?s1 = o_zobrist_hash s" "o_last_move ?s1 = m"
    "o_zobrist_hash (moved S p x y ?s) = o_zobrist_hash s"
    by (simp_all add: made_def moved_def taken_def set_side_def put2_def p_def)
  note mv = moveStone_ok [OF s' t p m']
  note cap = captureStone_ok [OF made_board(3) [OF oska_wfD(1) [OF s'] p m'] t p, of z m]
  have 1: "(do { s \<leftarrow> moveStone S t p m ?s; if isCapture m then captureStone t p m s else Some s }) = Some ?s1"
    using mv cap xyz(3) by (simp add: made_def)
  have key: "cube_at (t_zobrist_keys t) (if p = Agent then 1 else 0) (ob_cols S - 1 - fst z) (ob_rows S - 1 - snd z)
      = Some (zkey S t (opponent p) (persp S p z))" if "z \<in> set (cells S)"
    using zkey_ok [OF t, of "mirror S z" "opponent p"] cells_inb [OF that] p by (auto simp: is_mover_def persp_def)
  let ?h = "(o_zobrist_hash s XOR zkey S t p (persp S p x)) XOR zkey S t p (persp S p y)"
  have mh: "moveStoneHash S t p m ?s = Some ((moved S p x y ?s)\<lparr>o_zobrist_hash := ?h\<rparr>)"
    using mv zkey_ok [OF t cells_inb [OF xyz(4)], of p] zkey_ok [OF t cells_inb [OF xyz(5)], of p]
    by (simp add: moveStoneHash_def xyz(1,2) fr(5))
  have hash: "o_zobrist_hash s XOR (stones_hash S t (o_agent_board s) XOR stones_hash S t (o_agent_board ?s1))
      = ?h XOR (if isCapture m then zkey S t (opponent p) (persp S p z) else 0)"
    using made_hash [OF s' p m', of t] by (simp add: xor.assoc xor.left_commute)
  have 2: "(do { s \<leftarrow> moveStoneHash S t p m ?s; if isCapture m then captureStoneHash S t p m s else Some s })
      = Some (?s1\<lparr>o_zobrist_hash := o_zobrist_hash s XOR (stones_hash S t (o_agent_board s) XOR stones_hash S t (o_agent_board ?s1))\<rparr>)"
  proof (cases "isCapture m")
    case True
    let ?sm = "(moved S p x y ?s)\<lparr>o_zobrist_hash := ?h\<rparr>"
    have "captureStone t p m ?sm = Some (taken S p z ?sm)"
      using made_board(3) [OF oska_wfD(1) [OF s'] p m'] xyz(3) [OF True] by (intro captureStone_ok [OF _ t p]) simp_all
    moreover have "taken S p z ?sm = (taken S p z (moved S p x y ?s))\<lparr>o_zobrist_hash := ?h\<rparr>"
      by (simp add: taken_def set_side_def put2_def pids_def phome_def)
    ultimately show ?thesis using True mh key xyz(3) [OF True] unfolding hash by (simp add: captureStoneHash_def made_def)
  next
    case False
    with mh show ?thesis unfolding hash by (simp add: made_def)
  qed
  have bd: "o_agent_board ?s1 = move_board S p m (o_agent_board s)"
    using xyz(3) by (simp add: made_def moved_def taken_def set_side_def put2_def move_board_def xyz(1,2))
  have 3: "after S m s (next_player ?s1)"
    using made_wf [OF s' p m'] made_togo [OF oska_wfD(1) [OF s'] p m'] fr bd is_mover_opponent [OF p]
    by (simp add: after_def next_player_def oska_wf_def p_def [symmetric])
  show ?thesis using 1 2 3 made_wf [OF s' p m'] fr by (intro exI [of _ ?s1]) simp
qed

text \<open>The three operations that make a move.\<close>

lemma oska_move_hash_ok:
  assumes t: "tables_ok S t" and s: "oska_wf S s" and m: "m \<in> set (player_moves S (o_agent_board s) (o_player_to_move s))"
  shows "\<exists>s'. oska_move_hash S t m s = Some s' \<and> after S m s s' \<and> o_winner s' = o_winner s
    \<and> o_zobrist_hash s' XOR stones_hash S t (o_agent_board s') = o_zobrist_hash s XOR stones_hash S t (o_agent_board s)"
proof -
  from moves_made [OF t s m] obtain s1 where s1:
    "(do { s' \<leftarrow> moveStoneHash S t (o_player_to_move s) m (s\<lparr>o_last_move := m\<rparr>);
        if isCapture m then captureStoneHash S t (o_player_to_move s) m s' else Some s' })
      = Some (s1\<lparr>o_zobrist_hash := o_zobrist_hash s XOR (stones_hash S t (o_agent_board s) XOR stones_hash S t (o_agent_board s1))\<rparr>)"
    "after S m s (next_player s1)" "o_winner s1 = o_winner s" "o_player_to_move s1 = o_player_to_move s" by blast
  let ?s' = "next_player (s1\<lparr>o_zobrist_hash := o_zobrist_hash s XOR (stones_hash S t (o_agent_board s) XOR stones_hash S t (o_agent_board s1))\<rparr>)"
  have to: "o_player_to_move s' = o_player_to_move s" if "moveStoneHash S t (o_player_to_move s) m (s\<lparr>o_last_move := m\<rparr>) = Some s'" for s'
    using that by (auto simp: moveStoneHash_def moveStone_def Let_def split: bind_splits if_splits)
  have "oska_move_hash S t m s = Some ?s'"
    using s1(1) to by (auto simp: oska_move_hash_def split: bind_splits if_splits)
  moreover have "after S m s ?s'" using s1(2) by (simp add: after_frame)
  ultimately show ?thesis using s1(3) by (intro exI [of _ ?s']) (simp add: next_player_def xor.assoc)
qed

lemma oska_move_winner_ok:
  assumes t: "tables_ok S t" and s: "oska_wf S s" "o_winner s = Invalid"
    and m: "m \<in> set (player_moves S (o_agent_board s) (o_player_to_move s))"
  shows "\<exists>s'. oska_move_winner S t m s = Some s' \<and> after S m s s'
    \<and> o_winner s' = oska_outcome S (o_agent_board s') (o_player_to_move s)"
    and "\<exists>s'. oska_move_hash_winner S t m s = Some s' \<and> after S m s s'
    \<and> o_winner s' = oska_outcome S (o_agent_board s') (o_player_to_move s)
    \<and> o_zobrist_hash s' XOR stones_hash S t (o_agent_board s') = o_zobrist_hash s XOR stones_hash S t (o_agent_board s)"
proof -
  let ?p = "o_player_to_move s"
  from moves_made [OF t s(1) m] obtain s1 where s1:
    "(do { s' \<leftarrow> moveStone S t ?p m (s\<lparr>o_last_move := m\<rparr>); if isCapture m then captureStone t ?p m s' else Some s' }) = Some s1"
    "(do { s' \<leftarrow> moveStoneHash S t ?p m (s\<lparr>o_last_move := m\<rparr>); if isCapture m then captureStoneHash S t ?p m s' else Some s' })
      = Some (s1\<lparr>o_zobrist_hash := o_zobrist_hash s XOR (stones_hash S t (o_agent_board s) XOR stones_hash S t (o_agent_board s1))\<rparr>)"
    "oska_wf S s1" "after S m s (next_player s1)" "o_winner s1 = o_winner s" "o_player_to_move s1 = ?p" by blast
  let ?h = "o_zobrist_hash s XOR (stones_hash S t (o_agent_board s) XOR stones_hash S t (o_agent_board s1))"
  let ?s2 = "s1\<lparr>o_zobrist_hash := ?h\<rparr>"
  have to: "o_player_to_move s' = ?p" if "moveStone S t ?p m (s\<lparr>o_last_move := m\<rparr>) = Some s'" for s'
    using that by (auto simp: moveStone_def Let_def split: bind_splits if_splits)
  have to': "o_player_to_move s' = ?p" if "moveStoneHash S t ?p m (s\<lparr>o_last_move := m\<rparr>) = Some s'" for s'
    using that by (auto simp: moveStoneHash_def moveStone_def Let_def split: bind_splits if_splits)
  have w1: "oska_winner t s1 = Some (s1\<lparr>o_winner := oska_outcome S (o_agent_board s1) ?p\<rparr>)"
    using oska_winner_ok [OF t s1(3)] s1(5,6) s(2) by simp
  have "oska_wf S ?s2" using s1(3) by (simp add: oska_wf_def)
  then have w2: "oska_winner t ?s2 = Some (?s2\<lparr>o_winner := oska_outcome S (o_agent_board s1) ?p\<rparr>)"
    using oska_winner_ok [OF t, of ?s2] s1(5,6) s(2) by simp
  let ?s' = "next_player (s1\<lparr>o_winner := oska_outcome S (o_agent_board s1) ?p\<rparr>)"
  let ?s2' = "next_player (?s2\<lparr>o_winner := oska_outcome S (o_agent_board s1) ?p\<rparr>)"
  have "oska_move_winner S t m s = Some ?s'" using s1(1) to w1 by (auto simp: oska_move_winner_def split: bind_splits if_splits)
  moreover have "after S m s ?s'" using s1(4) by (simp add: after_frame)
  ultimately show "\<exists>s'. oska_move_winner S t m s = Some s' \<and> after S m s s'
    \<and> o_winner s' = oska_outcome S (o_agent_board s') ?p" by (intro exI [of _ ?s']) (simp add: next_player_def)
  have "oska_move_hash_winner S t m s = Some ?s2'" using s1(2) to' w2 by (auto simp: oska_move_hash_winner_def split: bind_splits if_splits)
  moreover have "after S m s ?s2'" using s1(4) by (simp add: after_frame)
  ultimately show "\<exists>s'. oska_move_hash_winner S t m s = Some s' \<and> after S m s s'
    \<and> o_winner s' = oska_outcome S (o_agent_board s') ?p
    \<and> o_zobrist_hash s' XOR stones_hash S t (o_agent_board s') = o_zobrist_hash s XOR stones_hash S t (o_agent_board s)"
    by (intro exI [of _ ?s2']) (simp add: next_player_def xor.assoc)
qed

end

section \<open>Play-outs\<close>

text \<open>The recorded winner is the outcome of the board.\<close>

definition oska_inv :: "index_t \<Rightarrow> oska_state \<Rightarrow> bool" where
  "oska_inv S s \<longleftrightarrow> oska_wf S s \<and> o_winner s = oska_outcome S (o_agent_board s) (opponent (o_player_to_move s))"

context oska_size
begin

lemma after_inv:
  assumes "oska_wf S s" "after S m s s'" "o_winner s' = oska_outcome S (o_agent_board s') (o_player_to_move s)"
  shows "oska_inv S s'"
  using assms oska_wfD(3) [OF assms(1)] by (auto simp: oska_inv_def after_def is_mover_def)

text \<open>The player to move has a move if and only if the game is undecided.\<close>

lemma inv_undecided:
  assumes "oska_inv S s"
  shows "o_winner s = Invalid \<Longrightarrow> player_moves S (o_agent_board s) (o_player_to_move s) \<noteq> []"
    "o_winner s \<noteq> Invalid \<Longrightarrow> occupied (o_winner s) \<or> player_moves S (o_agent_board s) (o_player_to_move s) = []"
proof -
  let ?p = "o_player_to_move s" and ?b = "o_agent_board s"
  have wf: "oska_wf S s" using assms by (simp add: oska_inv_def)
  have p: "is_mover ?p" "opponent (opponent ?p) = ?p" "pieces_ok S ?b"
    using oska_wfD(2,3) [OF wf] opponent_involution by auto
  have w: "o_winner s = oska_outcome S ?b (opponent ?p)" using assms by (simp add: oska_inv_def)
  show "o_winner s = Invalid \<Longrightarrow> player_moves S ?b ?p \<noteq> []" using w p by (auto simp: oska_outcome_def is_mover_def split: if_splits)
  show "occupied (o_winner s) \<or> player_moves S ?b ?p = []" if "o_winner s \<noteq> Invalid"
    using w p that all_home_no_moves [OF p(3) _ p(1)] by (auto simp: oska_outcome_def is_mover_def split: if_splits)
qed

lemma osimulate_loop_ok:
  assumes u: "uniform_dist unif" and t: "tables_ok S t"
  shows "oska_wf S s \<Longrightarrow> o_winner s = Invalid \<or> oska_inv S s \<Longrightarrow> moves_wf ms \<Longrightarrow> capacity ms = oska_max_no_moves S \<Longrightarrow>
    \<exists>s' g'. oska_simulate_loop unif S t s ms g = Some (s', g') \<and> oska_wf S s' \<and> (oska_inv S s \<longrightarrow> oska_inv S s' \<and> o_winner s' \<noteq> Invalid)"
proof (induction "togo S (o_agent_board s)" arbitrary: s ms g rule: less_induct)
  case less
  let ?pm = "player_moves S (o_agent_board s) (o_player_to_move s)"
  note mv = oska_moves_ok [OF t less.prems(1,3,4)]
  show ?case
  proof (cases "occupied (o_winner s) \<or> ?pm = []")
    case True
    have "\<exists>ms'. oska_moves t s ms = Some (False, ms')" using True mv by (auto split: if_splits)
    then have "oska_simulate_loop unif S t s ms g = Some (s, g)" by (subst oska_simulate_loop.simps) auto
    moreover have "o_winner s \<noteq> Invalid" if "oska_inv S s" using inv_undecided(1) [OF that] True by auto
    ultimately show ?thesis using less.prems(1) by auto
  next
    case False
    then obtain ms' where ms': "oska_moves t s ms = Some (True, ms')" "moves_wf ms'" "mset (contents ms') = mset ?pm"
      "capacity ms' = capacity ms" using mv by auto
    have w: "o_winner s = Invalid" using less.prems(2) False inv_undecided(2) by blast
    have "contents ms' \<noteq> []" using False ms'(3) by auto
    then have "0 < length (contents ms')" by simp
    then have "0 < m_size ms'" using length_contents [OF ms'(2)] by linarith
    from moves_random_ok [OF u ms'(2) this, of g] obtain m g1 where m: "moves_random unif ms' g = Some (m, g1)" "m \<in> set (contents ms')" by blast
    have "m \<in> set ?pm" using m(2) mset_eq_setD [OF ms'(3)] by simp
    from oska_move_winner_ok(1) [OF t less.prems(1) w this] obtain s1 where s1: "oska_move_winner S t m s = Some s1" "after S m s s1"
      "o_winner s1 = oska_outcome S (o_agent_board s1) (o_player_to_move s)" by blast
    have i1: "oska_inv S s1" by (rule after_inv [OF less.prems(1) s1(2,3)])
    have "oska_wf S s1" "togo S (o_agent_board s1) < togo S (o_agent_board s)" using s1(2) by (auto simp: after_def)
    from less.hyps [OF this(2,1) disjI2 [OF i1] ms'(2), of g1] ms'(4) less.prems(4) obtain s' g' where
      "oska_simulate_loop unif S t s1 ms' g1 = Some (s', g')" "oska_wf S s'" "oska_inv S s'" "o_winner s' \<noteq> Invalid" using i1 by auto
    with ms'(1) m(1) s1(1) show ?thesis by (subst oska_simulate_loop.simps) auto
  qed
qed

lemma osimulate_ok:
  assumes "uniform_dist unif" "tables_ok S t" "oska_wf S s" "o_winner s = Invalid \<or> oska_inv S s"
  shows "\<exists>s' g'. oska_simulate unif S t s g = Some (s', g') \<and> oska_wf S s' \<and> (oska_inv S s \<longrightarrow> oska_inv S s' \<and> o_winner s' \<noteq> Invalid)"
  unfolding oska_simulate_def using S_bounds
  by (intro osimulate_loop_ok [OF assms]) (simp_all add: oska_max_no_moves_def)

end

end
