(* ===== verification/Oska_Init.thy ===== *)
theory Oska_Init
  imports Oska_Play
begin

unbundle bit_operations_syntax

text \<open>
  Setting up an Oska game: the loops of \<^verbatim>\<open>once_initialize\<close> and \<^verbatim>\<open>initialize\<close> fill the tables and lay out the stones, whatever
  numbers are drawn for the keys, and the invariant holds of the result.
\<close>

section \<open>The loops\<close>

definition start_piece :: "index_t \<Rightarrow> cell \<Rightarrow> player" where
  "start_piece S x = (if snd x = 1 then Agent else if snd x = ob_home_row S then Human else Vacant)"

text \<open>The state components that do not depend on random numbers, after the cells \<open>xs\<close>.\<close>

definition laid_out :: "index_t \<Rightarrow> player \<Rightarrow> index_t \<Rightarrow> cell list \<Rightarrow> oska_state \<Rightarrow> oska_state" where
  "laid_out S p home xs s =
    (let s = s\<lparr>o_agent_board := fold (\<lambda>x b. bput b x (if snd x = home then p else Vacant)) xs (o_agent_board s),
       o_human_board := fold (\<lambda>x b. bput b (mirror S x) (if snd x = home then p else Vacant)) xs (o_human_board s)\<rparr>;
       ids = map (cid S) (filter (\<lambda>x. snd x = home) xs)
     in if p = Agent then s\<lparr>o_agent_stone_id := o_agent_stone_id s @ ids\<rparr> else s\<lparr>o_human_stone_id := o_human_stone_id s @ ids\<rparr>)"

text \<open>The tables after the first \<open>k\<close> cells.\<close>

definition tables_part :: "index_t \<Rightarrow> nat \<Rightarrow> oska_tables \<Rightarrow> bool" where
  "tables_part S k t \<longleftrightarrow>
    board_ok S (t_location_to_id t) \<and> (\<forall>x \<in> set (take k (cells S)). bat (t_location_to_id t) x = Some (cid S x))
    \<and> v_I (t_id_to_location t) = no_hexagons S \<and> v_BaseI (t_id_to_location t) = 0
    \<and> length (v_data (t_id_to_location t)) = length (cells S)
    \<and> take k (v_data (t_id_to_location t)) = map (\<lambda>x. Location (fst x) (snd x)) (take k (cells S))
    \<and> c_I (t_zobrist_keys t) = 2 \<and> c_J (t_zobrist_keys t) = ob_cols S \<and> c_K (t_zobrist_keys t) = ob_rows S
    \<and> c_BaseI (t_zobrist_keys t) = 0 \<and> c_BaseJ (t_zobrist_keys t) = 0 \<and> c_BaseK (t_zobrist_keys t) = 0
    \<and> length (c_data (t_zobrist_keys t)) = nat (2 * ob_cols S * ob_rows S)"

context oska_size
begin

lemma tables_part_all: "tables_part S (length (cells S)) t \<Longrightarrow> tables_ok S t"
  by (cases "t_id_to_location t") (auto simp: tables_part_def tables_ok_def)

lemma tables_part_step:
  assumes t: "tables_part S k t" and k: "k < length (cells S)" "x = cells S ! k"
  shows "\<exists>l v ks ks'. matrix_put (t_location_to_id t) (fst x) (snd x) (int k) = Some l
    \<and> vector_put (t_id_to_location t) (int k) (Location (fst x) (snd x)) = Some v
    \<and> cube_put (t_zobrist_keys t) 0 (fst x) (snd x) k0 = Some ks
    \<and> cube_put ks 1 (fst x) (snd x) k1 = Some ks' \<and> (\<forall>i \<in> {0, 1}. \<exists>h. cube_at ks' i (fst x) (snd x) = Some h)
    \<and> tables_part S (Suc k) \<lparr>t_location_to_id = l, t_id_to_location = v, t_zobrist_keys = ks'\<rparr>"
proof -
  have x: "x \<in> set (cells S)" "inb S x" using k cells_inb by auto
  have lok: "board_ok S (t_location_to_id t)" using t by (simp add: tables_part_def)
  note l = bput [OF lok x(2), of "int k"]
  have ci: "cid S x = int k" using cid_nth [OF k(1)] k(2) by simp
  have tk: "take (Suc k) (cells S) = take k (cells S) @ [x]" using k by (simp add: take_Suc_conv_app_nth)
  have "int k < no_hexagons S" using k(1) length_cells by linarith
  then have v: "vector_put (t_id_to_location t) (int k) (Location (fst x) (snd x))
      = Some (t_id_to_location t\<lparr>v_data := (v_data (t_id_to_location t))[k := Location (fst x) (snd x)]\<rparr>)"
    using t k(1) by (simp add: tables_part_def vector_put_def vector_in_def vector_idx_def aset_def)
  have "cube_in (t_zobrist_keys t) 0 (fst x) (snd x)" using t x(2) by (auto simp: tables_part_def cube_in_def inb_def)
  from cube_put_defined [OF _ this, of k0] t obtain ks where ks: "cube_put (t_zobrist_keys t) 0 (fst x) (snd x) k0 = Some ks"
    "length (c_data ks) = nat (2 * ob_cols S * ob_rows S)" "c_I ks = 2" "c_J ks = ob_cols S" "c_K ks = ob_rows S"
    "c_BaseI ks = 0" "c_BaseJ ks = 0" "c_BaseK ks = 0" by (auto simp: tables_part_def)
  have "cube_in ks 1 (fst x) (snd x)" using ks x(2) by (auto simp: cube_in_def inb_def)
  from cube_put_defined [OF _ this, of k1] ks obtain ks' where ks': "cube_put ks 1 (fst x) (snd x) k1 = Some ks'"
    "length (c_data ks') = nat (2 * ob_cols S * ob_rows S)" "c_I ks' = 2" "c_J ks' = ob_cols S" "c_K ks' = ob_rows S"
    "c_BaseI ks' = 0" "c_BaseJ ks' = 0" "c_BaseK ks' = 0" by auto
  have "\<exists>h. cube_at ks' i (fst x) (snd x) = Some h" if "i \<in> {0, 1}" for i
    using that ks' x(2) by (intro cube_at_defined) (auto simp: cube_in_def inb_def)
  moreover have "tables_part S (Suc k) \<lparr>t_location_to_id = bput (t_location_to_id t) x (int k),
      t_id_to_location = t_id_to_location t\<lparr>v_data := (v_data (t_id_to_location t))[k := Location (fst x) (snd x)]\<rparr>, t_zobrist_keys = ks'\<rparr>"
    using t l ks' k(1) ci by (simp add: tables_part_def tk take_Suc_conv_app_nth)
  ultimately show ?thesis using l(1) v ks(1) ks'(1) by blast
qed

lemma set_boards_ok:
  assumes "board_ok S (o_agent_board s)" "board_ok S (o_human_board s)" "inb S x"
  shows "set_boards (fst x) (snd x) v s = Some (s\<lparr>o_agent_board := bput (o_agent_board s) x v, o_human_board := bput (o_human_board s) (mirror S x) v\<rparr>)"
  using bput(1) [OF assms(1,3)] bput_r [OF assms(2,3)] by (simp add: set_boards_def)

lemma place_stone_ok:
  assumes "x \<in> set (cells S)" "length (pids p s) < 8" "is_mover p"
  shows "place_stone p (cid S x) s =
    Some (if p = Agent then s\<lparr>o_agent_stone_id := o_agent_stone_id s @ [cid S x]\<rparr> else s\<lparr>o_human_stone_id := o_human_stone_id s @ [cid S x]\<rparr>)"
  using assms cid_int8 by (auto simp: place_stone_def stone_push_def pids_def is_mover_def)

lemma laid_out_Cons:
  assumes "is_mover p"
  shows "laid_out S p home (x # xs) s =
    laid_out S p home xs
      (let s = s\<lparr>o_agent_board := bput (o_agent_board s) x (if snd x = home then p else Vacant),
           o_human_board := bput (o_human_board s) (mirror S x) (if snd x = home then p else Vacant)\<rparr>
       in if snd x = home then if p = Agent then s\<lparr>o_agent_stone_id := o_agent_stone_id s @ [cid S x]\<rparr>
         else s\<lparr>o_human_stone_id := o_human_stone_id s @ [cid S x]\<rparr> else s)"
  using assms by (simp add: laid_out_def Let_def)

lemma reset_cells_ok:
  assumes "is_mover p"
  shows "cells S = ys @ xs @ zs \<Longrightarrow> board_ok S (o_agent_board s) \<Longrightarrow> board_ok S (o_human_board s) \<Longrightarrow>
    length (pids p s) + length (filter (\<lambda>x. snd x = home) xs) \<le> 8 \<Longrightarrow>
    ofold (reset_cell p home) xs (s, int (length ys)) = Some (laid_out S p home xs s, int (length ys + length xs))"
proof (induction xs arbitrary: ys s)
  case Nil
  then show ?case by (simp add: laid_out_def)
next
  case (Cons x xs)
  have x: "x \<in> set (cells S)" "cid S x = int (length ys)" using Cons.prems(1) cid_append [of ys x "xs @ zs"] by simp_all
  let ?v = "if snd x = home then p else Vacant"
  let ?s1 = "s\<lparr>o_agent_board := bput (o_agent_board s) x ?v, o_human_board := bput (o_human_board s) (mirror S x) ?v\<rparr>"
  let ?s2 = "if snd x = home then if p = Agent then ?s1\<lparr>o_agent_stone_id := o_agent_stone_id ?s1 @ [cid S x]\<rparr>
         else ?s1\<lparr>o_human_stone_id := o_human_stone_id ?s1 @ [cid S x]\<rparr> else ?s1"
  have step: "reset_cell p home x (s, int (length ys)) = Some (?s2, int (length (ys @ [x])))"
    using set_boards_ok [OF Cons.prems(2,3) cells_inb [OF x(1)], of ?v] place_stone_ok [OF x(1) _ assms, of ?s1] Cons.prems(4)
    by (cases x) (auto simp: reset_cell_def x(2) [symmetric] pids_def)
  have "inb S (mirror S x)" using cells_inb [OF x(1)] by simp
  then have ok: "board_ok S (o_agent_board ?s2)" "board_ok S (o_human_board ?s2)"
    using bput(2) [OF Cons.prems(2) cells_inb [OF x(1)]] bput(2) [OF Cons.prems(3)] by auto
  have "length (pids p ?s2) + length (filter (\<lambda>x. snd x = home) xs) \<le> 8" using Cons.prems(4) by (auto simp: pids_def)
  from Cons.IH [OF _ ok this, of "ys @ [x]"] Cons.prems(1)
  have "ofold (reset_cell p home) xs (?s2, int (length (ys @ [x]))) = Some (laid_out S p home xs ?s2, int (length (ys @ [x]) + length xs))" by simp
  with step show ?case by (simp add: laid_out_Cons [OF assms] Let_def)
qed

lemma init_cells_ok:
  assumes "is_mover p"
  shows "cells S = ys @ xs @ zs \<Longrightarrow> tables_part S (length ys) t \<Longrightarrow> board_ok S (o_agent_board s) \<Longrightarrow> board_ok S (o_human_board s) \<Longrightarrow>
    length (pids p s) + length (filter (\<lambda>x. snd x = home) xs) \<le> 8 \<Longrightarrow>
    \<exists>t' h g'. ofold (init_cell hex key p home) xs (t, s, int (length ys), g)
        = Some (t', (laid_out S p home xs s)\<lparr>o_zobrist_hash := h\<rparr>, int (length ys + length xs), g')
      \<and> tables_part S (length ys + length xs) t'"
proof (induction xs arbitrary: ys s t g)
  case Nil
  then show ?case by (auto simp: laid_out_def intro!: exI [of _ "o_zobrist_hash s"])
next
  case (Cons x xs)
  have x: "x \<in> set (cells S)" "cid S x = int (length ys)" "x = cells S ! length ys" "length ys < length (cells S)"
    using Cons.prems(1) cid_append [of ys x "xs @ zs"] by simp_all
  let ?v = "if snd x = home then p else Vacant"
  let ?s1 = "s\<lparr>o_agent_board := bput (o_agent_board s) x ?v, o_human_board := bput (o_human_board s) (mirror S x) ?v\<rparr>"
  let ?s2 = "if snd x = home then if p = Agent then ?s1\<lparr>o_agent_stone_id := o_agent_stone_id ?s1 @ [cid S x]\<rparr>
         else ?s1\<lparr>o_human_stone_id := o_human_stone_id ?s1 @ [cid S x]\<rparr> else ?s1"
  obtain k0 g1 where k0: "key (hex g) = (k0, g1)" by (cases "key (hex g)")
  obtain k1 g2 where k1: "key g1 = (k1, g2)" by (cases "key g1")
  from tables_part_step [OF Cons.prems(2) x(4,3), of k0 k1] obtain l v ks ks' where
    ks: "matrix_put (t_location_to_id t) (fst x) (snd x) (int (length ys)) = Some l"
    "vector_put (t_id_to_location t) (int (length ys)) (Location (fst x) (snd x)) = Some v"
    "cube_put (t_zobrist_keys t) 0 (fst x) (snd x) k0 = Some ks" "cube_put ks 1 (fst x) (snd x) k1 = Some ks'"
    "\<forall>i \<in> {0, 1}. \<exists>h. cube_at ks' i (fst x) (snd x) = Some h"
    "tables_part S (Suc (length ys)) \<lparr>t_location_to_id = l, t_id_to_location = v, t_zobrist_keys = ks'\<rparr>"
    by (elim exE conjE) (rule that)
  let ?t = "\<lparr>t_location_to_id = l, t_id_to_location = v, t_zobrist_keys = ks'\<rparr>"
  obtain j k where j: "as_01index p = Some j" "cube_at ks' j (fst x) (snd x) = Some k" using assms ks(5) by (auto simp: is_mover_def)
  let ?h = "if snd x = home then o_zobrist_hash s XOR k else o_zobrist_hash s"
  define s1 where "s1 = ?s1"
  define s2 where "s2 = ?s2"
  have sb: "set_boards (fst x) (snd x) ?v s = Some s1" "o_zobrist_hash s1 = o_zobrist_hash s"
    using set_boards_ok [OF Cons.prems(3,4) cells_inb [OF x(1)], of ?v] by (simp_all add: s1_def)
  have pl: "place_stone p (int (length ys)) (s1\<lparr>o_zobrist_hash := h\<rparr>) = Some (s2\<lparr>o_zobrist_hash := h\<rparr>)" if "snd x = home" for h
  proof -
    have "length (pids p (s1\<lparr>o_zobrist_hash := h\<rparr>)) < 8" using Cons.prems(5) that by (simp add: pids_def s1_def split: if_splits)
    from place_stone_ok [OF x(1) this assms] that x(2) show ?thesis by (simp add: s2_def s1_def cong: if_cong)
  qed
  have no: "s2\<lparr>o_zobrist_hash := o_zobrist_hash s\<rparr> = s1" if "snd x \<noteq> home" using that by (simp add: s2_def s1_def)
  have step: "init_cell hex key p home x (t, s, int (length ys), g) = Some (?t, s2\<lparr>o_zobrist_hash := ?h\<rparr>, int (length (ys @ [x])), g2)"
  proof (cases "snd x = home")
    case True
    with pl [OF True] sb ks(1-4) k0 k1 j show ?thesis by (simp add: init_cell_def case_prod_beta)
  next
    case False
    with no [OF False] sb ks(1-4) k0 k1 j show ?thesis by (simp add: init_cell_def case_prod_beta)
  qed
  have "inb S (mirror S x)" using cells_inb [OF x(1)] by simp
  then have ok: "board_ok S (o_agent_board (s2\<lparr>o_zobrist_hash := ?h\<rparr>))" "board_ok S (o_human_board (s2\<lparr>o_zobrist_hash := ?h\<rparr>))"
    using bput(2) [OF Cons.prems(3) cells_inb [OF x(1)]] bput(2) [OF Cons.prems(4)] by (auto simp: s2_def)
  have len: "length (pids p (s2\<lparr>o_zobrist_hash := ?h\<rparr>)) + length (filter (\<lambda>x. snd x = home) xs) \<le> 8"
    using Cons.prems(5) by (auto simp: pids_def s2_def)
  have c: "cells S = (ys @ [x]) @ xs @ zs" "tables_part S (length (ys @ [x])) ?t" using Cons.prems(1) ks(6) by simp_all
  from Cons.IH [OF c ok len, of g2] obtain t' h g' where
    ih: "ofold (init_cell hex key p home) xs (?t, s2\<lparr>o_zobrist_hash := ?h\<rparr>, int (length (ys @ [x])), g2)
        = Some (t', (laid_out S p home xs (s2\<lparr>o_zobrist_hash := ?h\<rparr>))\<lparr>o_zobrist_hash := h\<rparr>, int (length (ys @ [x]) + length xs), g')"
    "tables_part S (length (ys @ [x]) + length xs) t'" by blast
  have "(laid_out S p home xs (s2\<lparr>o_zobrist_hash := h'\<rparr>))\<lparr>o_zobrist_hash := h\<rparr> = (laid_out S p home xs s2)\<lparr>o_zobrist_hash := h\<rparr>" for h'
    by (simp add: laid_out_def Let_def)
  moreover have "laid_out S p home (x # xs) s = laid_out S p home xs s2" unfolding laid_out_Cons [OF assms] s2_def Let_def ..
  ultimately show ?case using step ih by (intro exI [of _ t'] exI [of _ h] exI [of _ g']) simp
qed

text \<open>Clearing the boards.\<close>

lemma blank_cells_ok:
  "(\<And>x. x \<in> set xs \<Longrightarrow> inb S x) \<Longrightarrow> board_ok S (o_agent_board s) \<Longrightarrow> board_ok S (o_human_board s) \<Longrightarrow>
    ofold blank_cell xs s = Some (s\<lparr>o_agent_board := fold (\<lambda>x b. bput b x Invalid) xs (o_agent_board s),
      o_human_board := fold (\<lambda>x b. bput b x Invalid) xs (o_human_board s)\<rparr>)"
proof (induction xs arbitrary: s)
  case (Cons x xs)
  then show ?case using bput [of S _ x Invalid] by (simp add: blank_cell_def case_prod_beta)
qed simp

lemma blank_tables_ok:
  "(\<And>x. x \<in> set xs \<Longrightarrow> inb S x) \<Longrightarrow> board_ok S (o_agent_board s) \<Longrightarrow> board_ok S (o_human_board s) \<Longrightarrow> board_ok S (t_location_to_id t) \<Longrightarrow>
    ofold blank_cell_table xs (t, s) = Some (t\<lparr>t_location_to_id := fold (\<lambda>x b. bput b x (-1)) xs (t_location_to_id t)\<rparr>,
      s\<lparr>o_agent_board := fold (\<lambda>x b. bput b x Invalid) xs (o_agent_board s), o_human_board := fold (\<lambda>x b. bput b x Invalid) xs (o_human_board s)\<rparr>)"
proof (induction xs arbitrary: s t)
  case (Cons x xs)
  then have x: "inb S x" by simp
  note b = bput(1,2) [OF Cons.prems(2) x] bput(1,2) [OF Cons.prems(3) x] bput(1,2) [OF Cons.prems(4) x]
  have "blank_cell_table x (t, s) = Some (t\<lparr>t_location_to_id := bput (t_location_to_id t) x (-1)\<rparr>,
      s\<lparr>o_agent_board := bput (o_agent_board s) x Invalid, o_human_board := bput (o_human_board s) x Invalid\<rparr>)"
    using b by (simp add: blank_cell_def blank_cell_table_def case_prod_beta)
  with b Cons show ?case by simp
qed simp

end

section \<open>The position at the start\<close>

definition started :: "index_t \<Rightarrow> oska_state \<Rightarrow> bool" where
  "started S s \<longleftrightarrow>
    boards_ok S (o_agent_board s) (o_human_board s)
    \<and> (\<forall>x \<in> set (cells S). bat (o_agent_board s) x = Some (start_piece S x))
    \<and> o_agent_stone_id s = map (cid S) (filter (\<lambda>x. snd x = 1) (top_cells S))
    \<and> o_human_stone_id s = map (cid S) (filter (\<lambda>x. snd x = ob_home_row S) (bottom_cells S))"

context oska_size
begin

lemma laid_out_started:
  assumes a: "board_ok S a" "board_ok S h" "\<And>x. inb S x \<Longrightarrow> bat a x = Some Invalid" "\<And>x. inb S x \<Longrightarrow> bat h x = Some Invalid"
    and s: "o_agent_board s = a" "o_human_board s = h" "o_agent_stone_id s = []" "o_human_stone_id s = []"
  shows "started S (laid_out S Human (ob_home_row S) (bottom_cells S) (laid_out S Agent 1 (top_cells S) s))"
proof -
  let ?s = "laid_out S Human (ob_home_row S) (bottom_cells S) (laid_out S Agent 1 (top_cells S) s)"
  let ?f = "\<lambda>x. if snd x = 1 then Agent else Vacant" and ?g = "\<lambda>x. if snd x = ob_home_row S then Human else Vacant"
  have inb: "x \<in> set (top_cells S) \<Longrightarrow> inb S x" "x \<in> set (bottom_cells S) \<Longrightarrow> inb S x" for x
    using cells_inb cells_top_bottom(5) by auto
  note a1 = bput_fold [OF a(1) inb(1), where f = ?f]
  note a2 = bput_fold [OF conjunct1 [OF a1] inb(2), where f = ?g]
  note h1 = bput_fold_r [OF a(2) inb(1), where f = ?f]
  note h2 = bput_fold_r [OF conjunct1 [OF h1] inb(2), where f = ?g]
  let ?a = "fold (\<lambda>x b. bput b x (?g x)) (bottom_cells S) (fold (\<lambda>x b. bput b x (?f x)) (top_cells S) a)"
  let ?h = "fold (\<lambda>x b. bput b (mirror S x) (?g x)) (bottom_cells S) (fold (\<lambda>x b. bput b (mirror S x) (?f x)) (top_cells S) h)"
  have bd: "o_agent_board ?s = ?a" "o_human_board ?s = ?h" using s by (simp_all add: laid_out_def Let_def)
  have at: "bat ?a y = (if y \<in> set (bottom_cells S) then Some (?g y) else if y \<in> set (top_cells S) then Some (?f y) else bat a y)" for y
    using a1 a2 by simp
  have ht: "bat ?h y = (if mirror S y \<in> set (bottom_cells S) then Some (?g (mirror S y))
      else if mirror S y \<in> set (top_cells S) then Some (?f (mirror S y)) else bat h y)" for y
    using h1 h2 by simp
  have start: "bat ?a y = Some (start_piece S y)" if "y \<in> set (cells S)" for y
    using that cells_top_bottom(3,4) [of y] cells_top_bottom(5) by (auto simp: at start_piece_def)
  have out: "bat ?a y = Some Invalid" if "inb S y" "y \<notin> set (cells S)" for y
    using that a(3) cells_top_bottom(5) by (simp add: at)
  have "bat h y = bat a (mirror S y)" for y
    using a bat_None [OF a(1), of "mirror S y"] bat_None [OF a(2), of y] by (cases "inb S y") simp_all
  then have "bat ?h y = bat ?a (mirror S y)" for y by (simp add: at ht)
  moreover have "start_piece S x \<in> {Agent, Human, Vacant}" for x by (simp add: start_piece_def)
  ultimately have "boards_ok S ?a ?h"
    unfolding boards_ok_def pieces_ok_def using conjunct1 [OF a2] conjunct1 [OF h2] start out by simp
  moreover have "o_agent_stone_id ?s = map (cid S) (filter (\<lambda>x. snd x = 1) (top_cells S))"
    "o_human_stone_id ?s = map (cid S) (filter (\<lambda>x. snd x = ob_home_row S) (bottom_cells S))"
    using s by (simp_all add: laid_out_def Let_def)
  ultimately show ?thesis unfolding started_def bd using start by simp
qed

lemma started_own:
  assumes "started S s"
  shows "own S (o_agent_board s) Agent = set (filter (\<lambda>x. snd x = 1) (top_cells S))"
    "own S (o_agent_board s) Human = set (filter (\<lambda>x. snd x = ob_home_row S) (bottom_cells S))"
    "is_mover p \<Longrightarrow> homed S (o_agent_board s) p = {}" "is_mover p \<Longrightarrow> persp S p (1, 1) \<in> own S (o_agent_board s) p"
proof -
  have home: "2 < ob_home_row S" using extents(2) by (simp add: home_row)
  have own: "own S (o_agent_board s) q = {x \<in> set (cells S). start_piece S x = q}" for q
    using assms by (auto simp: started_def own_def)
  show 1: "own S (o_agent_board s) Agent = set (filter (\<lambda>x. snd x = 1) (top_cells S))"
    unfolding own cells_top_bottom(5) by (auto simp: start_piece_def dest: cells_top_bottom(4) split: if_splits)
  show 2: "own S (o_agent_board s) Human = set (filter (\<lambda>x. snd x = ob_home_row S) (bottom_cells S))"
    unfolding own cells_top_bottom(5) using home by (auto simp: start_piece_def dest: cells_top_bottom(3,4) split: if_splits)
  show "is_mover p \<Longrightarrow> homed S (o_agent_board s) p = {}" using home by (auto simp: homed_def 1 2 is_mover_def persp_def home_row)
  show "is_mover p \<Longrightarrow> persp S p (1, 1) \<in> own S (o_agent_board s) p"
    using cells_top_bottom(1) home mirror_cells [of "(1, 1)"] by (auto simp: own is_mover_def persp_def start_piece_def home_row mirror_def)
qed

lemma player_moves_nonempty: "x \<in> own S b p \<Longrightarrow> stone_moves S b p (persp S p x) \<noteq> [] \<Longrightarrow> player_moves S b p \<noteq> []"
  by (auto simp: player_moves_def own_def)

text \<open>The invariant holds at the start, and whoever is to move has a move.\<close>

lemma started_inv:
  assumes s: "started S s" and p: "is_mover (o_player_to_move s)" and h: "o_no_home_agent s = 0" "o_no_home_human s = 0" and w: "o_winner s = Invalid"
  shows "oska_inv S s"
proof -
  let ?b = "o_agent_board s" and ?p = "o_player_to_move s"
  note o = started_own [OF s]
  have sub: "set (filter P (top_cells S)) \<subseteq> set (cells S)" "set (filter P (bottom_cells S)) \<subseteq> set (cells S)" for P
    using cells_top_bottom(5) by auto
  have di: "distinct (top_cells S)" "distinct (bottom_cells S)" using cells_distinct by (auto simp: cells_def)
  have len: "int (length (filter (\<lambda>x. snd x = 1) (top_cells S))) \<le> S" "int (length (filter (\<lambda>x. snd x = ob_home_row S) (bottom_cells S))) \<le> S"
    using home_count by (simp_all add: cells_def)
  have "side_ok S ?b Agent (o_agent_stone_id s) (o_no_home_agent s)"
    using s h(1) o(1,3) di(1) len(1) inj_on_subset [OF cid_inj sub(1)] by (auto simp: side_ok_def started_def distinct_map)
  moreover have "side_ok S ?b Human (o_human_stone_id s) (o_no_home_human s)"
    using s h(2) o(2,3) di(2) len(2) inj_on_subset [OF cid_inj sub(2)] by (auto simp: side_ok_def started_def distinct_map)
  ultimately have wf: "oska_wf S s" using s p by (simp add: oska_wf_def started_def)
  have home: "\<not> all_home S ?b q" "own S ?b q \<noteq> {}" if "is_mover q" for q using o(3,4) [OF that] by (auto simp: all_home_def)
  have "bat ?b (persp S ?p (2, 2)) = Some Vacant"
    using s cells_top_bottom(2) mirror_cells [of "(2, 2)"] extents(2) p
    by (auto simp: started_def is_mover_def persp_def start_piece_def home_row mirror_def)
  then have "stone_dir S ?b ?p 1 (1, 1) = Some \<lparr>m_from = loc (1, 1), m_to = loc (2, 2)\<rparr>" by (simp add: stone_dir_def)
  then have "stone_moves S ?b ?p (persp S ?p (persp S ?p (1, 1))) \<noteq> []" by (simp add: stone_moves_def opt_list_def)
  then have "player_moves S ?b ?p \<noteq> []" by (rule player_moves_nonempty [OF o(4) [OF p]])
  moreover have "opponent (opponent ?p) = ?p" "is_mover (opponent ?p)" using p opponent_involution is_mover_opponent by auto
  ultimately show ?thesis using wf w home p by (simp add: oska_inv_def oska_outcome_def)
qed

section \<open>Initialisation\<close>

lemma blank_boards:
  assumes "board_ok S b"
  shows "board_ok S (fold (\<lambda>x b. bput b x v) (all_cells S) b)" "inb S x \<Longrightarrow> bat (fold (\<lambda>x b. bput b x v) (all_cells S) b) x = Some v"
  using bput_fold [OF assms, of "all_cells S" "\<lambda>_. v"] by (auto simp: all_cells_set)

lemma laid_out_frame:
  assumes "board_ok S (o_agent_board s)" "board_ok S (o_human_board s)" "set xs \<subseteq> set (cells S)"
  shows "board_ok S (o_agent_board (laid_out S p home xs s))" "board_ok S (o_human_board (laid_out S p home xs s))"
proof -
  let ?f = "\<lambda>x :: cell. if snd x = home then p else Vacant"
  have inb: "x \<in> set xs \<Longrightarrow> inb S x" for x using assms(3) cells_inb by blast
  show "board_ok S (o_agent_board (laid_out S p home xs s))"
    using bput_fold [OF assms(1) inb, where f = ?f] by (simp add: laid_out_def Let_def)
  show "board_ok S (o_human_board (laid_out S p home xs s))"
    using bput_fold_r [OF assms(2) inb, where f = ?f] by (simp add: laid_out_def Let_def)
qed

lemma laid_out_others [simp]:
  "o_no_home_agent (laid_out S p home xs s) = o_no_home_agent s" "o_no_home_human (laid_out S p home xs s) = o_no_home_human s"
  "o_player_to_move (laid_out S p home xs s) = o_player_to_move s" "o_winner (laid_out S p home xs s) = o_winner s"
  "o_zobrist_hash (laid_out S p home xs s) = o_zobrist_hash s" "o_once_initialized (laid_out S p home xs s) = o_once_initialized s"
  "o_human_stone_id (laid_out S Agent home xs s) = o_human_stone_id s"
  "laid_out S p home xs (s\<lparr>o_zobrist_hash := h\<rparr>) = (laid_out S p home xs s)\<lparr>o_zobrist_hash := h\<rparr>"
  "started S (s\<lparr>o_zobrist_hash := h\<rparr>) = started S s"
  by (simp_all add: laid_out_def Let_def started_def)

text \<open>The first call, for any random numbers.\<close>

lemma once_initialize_ok:
  assumes t: "tables_part S 0 t" and s: "board_ok S (o_agent_board s)" "board_ok S (o_human_board s)" "o_agent_stone_id s = []" "o_human_stone_id s = []"
    and p: "is_mover (o_player_to_move s)" "o_no_home_agent s = 0" "o_no_home_human s = 0" "o_winner s = Invalid" "\<not> o_once_initialized s"
  shows "\<exists>t' s' g'. oska_initialize hex key S q (t, s, g) = Some (t', s', g') \<and> tables_ok S t' \<and> oska_inv S s' \<and> started S s'
    \<and> o_player_to_move s' = o_player_to_move s \<and> o_winner s' = Invalid"
proof -
  let ?t1 = "t\<lparr>t_location_to_id := fold (\<lambda>x b. bput b x (-1)) (all_cells S) (t_location_to_id t)\<rparr>"
  let ?s0 = "s\<lparr>o_once_initialized := True\<rparr>"
  let ?s1 = "?s0\<lparr>o_agent_board := fold (\<lambda>x b. bput b x Invalid) (all_cells S) (o_agent_board s),
    o_human_board := fold (\<lambda>x b. bput b x Invalid) (all_cells S) (o_human_board s)\<rparr>"
  have l: "board_ok S (t_location_to_id t)" using t by (simp add: tables_part_def)
  have 1: "ofold blank_cell_table (all_cells S) (t, ?s0) = Some (?t1, ?s1)"
    using blank_tables_ok [of "all_cells S" ?s0 t] s(1,2) l by (simp add: all_cells_set)
  note ba = blank_boards [OF s(1), where v = Invalid] and bh = blank_boards [OF s(2), where v = Invalid]
  have t1: "tables_part S (length []) ?t1" using t blank_boards(1) [OF l] by (simp add: tables_part_def)
  have len: "length (filter (\<lambda>x. snd x = 1) (top_cells S)) \<le> 8" "length (filter (\<lambda>x. snd x = ob_home_row S) (bottom_cells S)) \<le> 8"
    using home_count S_bounds by (simp_all add: cells_def)
  have c: "cells S = [] @ top_cells S @ bottom_cells S" "cells S = top_cells S @ bottom_cells S @ []" by (simp_all add: cells_def)
  from init_cells_ok [OF _ c(1) t1, of Agent ?s1 1 hex key g] ba(1) bh(1) len(1) s(3) obtain t2 h g2 where
    2: "ofold (init_cell hex key Agent 1) (top_cells S) (?t1, ?s1, 0, g)
        = Some (t2, (laid_out S Agent 1 (top_cells S) ?s1)\<lparr>o_zobrist_hash := h\<rparr>, int (length (top_cells S)), g2)"
    "tables_part S (length (top_cells S)) t2" by (auto simp: pids_def)
  let ?s2 = "(laid_out S Agent 1 (top_cells S) ?s1)\<lparr>o_zobrist_hash := h\<rparr>"
  have b2: "board_ok S (o_agent_board ?s2)" "board_ok S (o_human_board ?s2)"
    using laid_out_frame [of ?s1 "top_cells S" Agent 1] ba(1) bh(1) cells_top_bottom(5) by auto
  have l2: "length (pids Human ?s2) + length (filter (\<lambda>x. snd x = ob_home_row S) (bottom_cells S)) \<le> 8"
    using len(2) s(4) by (simp add: pids_def)
  from init_cells_ok [OF _ c(2) 2(2) b2 l2, of hex key g2] obtain t3 h3 g3 where
    3: "ofold (init_cell hex key Human (ob_home_row S)) (bottom_cells S) (t2, ?s2, int (length (top_cells S)), g2)
        = Some (t3, (laid_out S Human (ob_home_row S) (bottom_cells S) ?s2)\<lparr>o_zobrist_hash := h3\<rparr>,
            int (length (top_cells S) + length (bottom_cells S)), g3)" "tables_part S (length (top_cells S) + length (bottom_cells S)) t3"
    by auto
  let ?s3 = "(laid_out S Human (ob_home_row S) (bottom_cells S) ?s2)\<lparr>o_zobrist_hash := h3\<rparr>"
  have run: "oska_initialize hex key S q (t, s, g) = Some (t3, ?s3, g3)"
    using 1 2(1) 3(1) p(5) by (simp add: oska_initialize_def once_initialize_def)
  have st: "started S ?s3"
    using laid_out_started [of "o_agent_board ?s1" "o_human_board ?s1" ?s1] ba bh s(3,4) by simp
  have "oska_inv S ?s3" using started_inv [OF st] p by simp
  moreover have "tables_ok S t3" using tables_part_all 3(2) by (simp add: cells_def)
  ultimately show ?thesis using run st p(4) by (intro exI [of _ t3] exI [of _ ?s3] exI [of _ g3]) simp
qed

text \<open>A later call lays out a new game on the same tables, but keeps the hash of the old one.\<close>

lemma initialize_again_ok:
  assumes t: "tables_ok S t" and s: "board_ok S (o_agent_board s)" "board_ok S (o_human_board s)" "o_once_initialized s" and q: "is_mover q"
  shows "\<exists>s'. oska_initialize hex key S q (t, s, g) = Some (t, s', g) \<and> oska_inv S s' \<and> started S s' \<and> o_player_to_move s' = q
    \<and> o_winner s' = Invalid \<and> o_zobrist_hash s' = o_zobrist_hash s"
proof -
  let ?s1 = "s\<lparr>o_agent_board := fold (\<lambda>x b. bput b x Invalid) (all_cells S) (o_agent_board s),
    o_human_board := fold (\<lambda>x b. bput b x Invalid) (all_cells S) (o_human_board s)\<rparr>"
  have 1: "ofold blank_cell (all_cells S) s = Some ?s1" using blank_cells_ok [of "all_cells S" s] s(1,2) by (simp add: all_cells_set)
  note ba = blank_boards [OF s(1), where v = Invalid] and bh = blank_boards [OF s(2), where v = Invalid]
  have len: "length (filter (\<lambda>x. snd x = 1) (top_cells S)) \<le> 8" "length (filter (\<lambda>x. snd x = ob_home_row S) (bottom_cells S)) \<le> 8"
    using home_count S_bounds by (simp_all add: cells_def)
  have c: "cells S = [] @ top_cells S @ bottom_cells S" "cells S = top_cells S @ bottom_cells S @ []" by (simp_all add: cells_def)
  let ?s1' = "?s1\<lparr>o_agent_stone_id := []\<rparr>"
  have 2: "ofold (reset_cell Agent 1) (top_cells S) (?s1', 0) = Some (laid_out S Agent 1 (top_cells S) ?s1', int (length (top_cells S)))"
    using reset_cells_ok [OF _ c(1), of Agent ?s1' 1] ba(1) bh(1) len(1) by (simp add: pids_def)
  let ?s2 = "(laid_out S Agent 1 (top_cells S) ?s1')\<lparr>o_human_stone_id := []\<rparr>"
  have b2: "board_ok S (o_agent_board ?s2)" "board_ok S (o_human_board ?s2)"
    using laid_out_frame [of ?s1' "top_cells S" Agent 1] ba(1) bh(1) cells_top_bottom(5) by auto
  let ?s3 = "laid_out S Human (ob_home_row S) (bottom_cells S) ?s2"
  have 3: "ofold (reset_cell Human (ob_home_row S)) (bottom_cells S) (?s2, int (length (top_cells S)))
      = Some (?s3, int (length (top_cells S) + length (bottom_cells S)))"
    using reset_cells_ok [OF _ c(2) b2, of Human "ob_home_row S"] len(2) by (simp add: pids_def)
  let ?s4 = "?s3\<lparr>o_no_home_agent := 0, o_no_home_human := 0, o_player_to_move := q, o_winner := Invalid, o_last_move := oska_move_root\<rparr>"
  have run: "oska_initialize hex key S q (t, s, g) = Some (t, ?s4, g)" using 1 2 3 s(3) by (simp add: oska_initialize_def)
  have eq: "?s2 = laid_out S Agent 1 (top_cells S) (?s1'\<lparr>o_human_stone_id := []\<rparr>)" by (simp add: laid_out_def Let_def)
  have "started S ?s3" unfolding eq
    by (rule laid_out_started [of "o_agent_board ?s1" "o_human_board ?s1"]) (use ba bh in simp_all)
  then have st: "started S ?s4" by (simp add: started_def)
  have "oska_inv S ?s4" using started_inv [OF st] q by simp
  with run st show ?thesis by (intro exI [of _ ?s4]) (simp add: eq)
qed

end

end
