(* ===== verification/Oska_Mcts.thy ===== *)
theory Oska_Mcts
  imports Oska_Init Match
begin

unbundle bit_operations_syntax

text \<open>
  Oska as the game of the search. A position is the agent's board with the player to move. The hash of a state differs from the
  hash of its stones by an offset that no move changes; the offset is fixed by the initialisation and a parameter here.
\<close>

definition oska_ops :: "uniform_int \<Rightarrow> index_t \<Rightarrow> oska_tables \<Rightarrow> (oska_state, oska_move) game_ops" where
  "oska_ops unif S t =
    \<lparr>g_zobrist = oska_zobrist, g_moves = oska_moves t, g_move_hash = oska_move_hash S t, g_move_hash_winner = oska_move_hash_winner S t,
     g_simulate = oska_simulate unif S t, g_result = oska_result, g_playerJustMoved = oska_playerJustMoved, g_lastMove = oska_lastMove,
     g_new_moves = moves_new (nat (oska_max_no_moves S)) oska_move_invalid, g_none = oska_move_none, g_invalid = oska_move_invalid,
     g_max_no_moves = oska_max_no_moves S\<rparr>"

type_synonym oska_pos = "player matrix \<times> player"

definition oska_pos :: "oska_state \<Rightarrow> oska_pos" where
  "oska_pos s = (o_agent_board s, o_player_to_move s)"

definition oska_legal :: "index_t \<Rightarrow> oska_pos \<Rightarrow> oska_move list" where
  "oska_legal S q = (if oska_outcome S (fst q) (opponent (snd q)) = Invalid then player_moves S (fst q) (snd q) else [])"

definition oska_nxt :: "index_t \<Rightarrow> oska_pos \<Rightarrow> oska_move \<Rightarrow> oska_pos" where
  "oska_nxt S q m = (move_board S (snd q) m (fst q), opponent (snd q))"

definition oska_key :: "index_t \<Rightarrow> oska_tables \<Rightarrow> u64 \<Rightarrow> oska_pos \<Rightarrow> u64" where
  "oska_key S t k q = (k XOR stones_hash S t (fst q)) XOR the (oska_player_keys (as_index (snd q)))"

definition oska_rem :: "index_t \<Rightarrow> oska_pos \<Rightarrow> nat" where
  "oska_rem S q = togo S (fst q)"

definition hash_offset :: "index_t \<Rightarrow> oska_tables \<Rightarrow> oska_state \<Rightarrow> u64" where
  "hash_offset S t s = o_zobrist_hash s XOR stones_hash S t (o_agent_board s)"

definition oska_exact :: "index_t \<Rightarrow> oska_tables \<Rightarrow> u64 \<Rightarrow> oska_state \<Rightarrow> bool" where
  "oska_exact S t k s \<longleftrightarrow> oska_inv S s \<and> hash_offset S t s = k"

definition oska_ginv :: "index_t \<Rightarrow> oska_tables \<Rightarrow> u64 \<Rightarrow> oska_state \<Rightarrow> bool" where
  "oska_ginv S t k s \<longleftrightarrow> oska_wf S s \<and> hash_offset S t s = k \<and> (o_winner s = Invalid \<or> oska_inv S s)"

lemma after_pos: "after S m s s' \<Longrightarrow> oska_pos s' = oska_nxt S (oska_pos s) m \<and> oska_rem S (oska_pos s') < oska_rem S (oska_pos s)"
  by (auto simp: after_def oska_pos_def oska_nxt_def oska_rem_def)

context oska_size
begin

lemma oska_ginv_legal:
  assumes "oska_ginv S t k s" "m \<in> set (oska_legal S (oska_pos s))"
  shows "oska_wf S s" "o_winner s = Invalid" "m \<in> set (player_moves S (o_agent_board s) (o_player_to_move s))"
  using assms by (auto simp: oska_ginv_def oska_legal_def oska_pos_def oska_inv_def split: if_splits)

lemma oska_zobrist_key: "oska_wf S s \<Longrightarrow> oska_zobrist s = Some (oska_key S t (hash_offset S t s) (oska_pos s))"
  using oska_wfD(3) [of S s]
  by (auto simp: oska_zobrist_def oska_key_def hash_offset_def oska_pos_def is_mover_def oska_player_keys_def
      oska_player_key_values_def aref_def xor.assoc)

lemma player_moves_length:
  assumes "oska_wf S s" "is_mover p"
  shows "int (length (player_moves S (o_agent_board s) p)) \<le> oska_max_no_moves S"
proof -
  from stones_of [OF oska_wfD(4) [OF assms]] obtain xs where
    xs: "mset xs = mset (filter (\<lambda>x. bat (o_agent_board s) x = Some p) (cells S))" "int (length xs) \<le> S" by blast
  have "length (concat (map (\<lambda>x. stone_moves S b p (f x)) ys)) \<le> 2 * length ys" for ys b and f :: "cell \<Rightarrow> cell"
  proof (induction ys)
    case (Cons y ys)
    then show ?case using stone_moves_length [of b p "f y"] by simp
  qed simp
  then have "length (player_moves S (o_agent_board s) p) \<le> 2 * length xs"
    unfolding player_moves_def using mset_eq_length [OF xs(1)] by metis
  with xs(2) show ?thesis by (simp add: oska_max_no_moves_def)
qed

lemma oska_exact_moves:
  assumes t: "tables_ok S t" and s: "oska_inv S s"
  shows "\<exists>ms. oska_moves t s (moves_new (nat (oska_max_no_moves S)) oska_move_invalid) = Some (oska_legal S (oska_pos s) \<noteq> [], ms) \<and> moves_wf ms
    \<and> (oska_legal S (oska_pos s) \<noteq> [] \<longrightarrow> mset (contents ms) = mset (oska_legal S (oska_pos s)))"
proof -
  let ?n = "moves_new (nat (oska_max_no_moves S)) oska_move_invalid"
  have wf: "oska_wf S s" and out: "o_winner s = oska_outcome S (o_agent_board s) (opponent (o_player_to_move s))" using s by (auto simp: oska_inv_def)
  have "capacity ?n = oska_max_no_moves S" using S_bounds by (simp add: oska_max_no_moves_def)
  from oska_moves_ok [OF t wf moves_wf_new this] inv_undecided [OF s] out show ?thesis
    by (cases "o_winner s = Invalid") (auto simp: oska_legal_def oska_pos_def split: if_splits)
qed

lemma oska_game:
  assumes u: "uniform_dist unif" and t: "tables_ok S t"
  shows "game (oska_ops unif S t) (oska_ginv S t k) (oska_exact S t k) oska_pos (oska_legal S) (oska_nxt S) (oska_key S t k) (oska_rem S)"
proof
  fix s :: oska_state and g :: splitmix
  show "oska_exact S t k s \<Longrightarrow> oska_ginv S t k s" by (simp add: oska_exact_def oska_ginv_def oska_inv_def)
  show "oska_exact S t k s \<Longrightarrow> \<exists>ms. g_moves (oska_ops unif S t) s (g_new_moves (oska_ops unif S t)) = Some (oska_legal S (oska_pos s) \<noteq> [], ms)
      \<and> moves_wf ms \<and> (oska_legal S (oska_pos s) \<noteq> [] \<longrightarrow> mset (contents ms) = mset (oska_legal S (oska_pos s)))"
    using oska_exact_moves [OF t, of s] by (simp add: oska_ops_def oska_exact_def)
  assume s: "oska_ginv S t k s"
  then have wf: "oska_wf S s" "hash_offset S t s = k" by (auto simp: oska_ginv_def)
  show "g_zobrist (oska_ops unif S t) s = Some (oska_key S t k (oska_pos s))" using oska_zobrist_key [OF wf(1), of t] wf(2) by (simp add: oska_ops_def)
  show "distinct (oska_legal S (oska_pos s)) \<and> int (length (oska_legal S (oska_pos s))) \<le> g_max_no_moves (oska_ops unif S t)"
    using player_moves_distinct player_moves_length [OF wf(1) oska_wfD(3) [OF wf(1)]] S_bounds
    by (simp add: oska_legal_def oska_ops_def oska_pos_def oska_max_no_moves_def)
  show "\<exists>s' g'. g_simulate (oska_ops unif S t) s g = Some (s', g')"
    using osimulate_ok [OF u t wf(1), of g] s by (auto simp: oska_ops_def oska_ginv_def)
  fix m assume "m \<in> set (oska_legal S (oska_pos s))"
  note m = oska_ginv_legal [OF s this]
  from oska_move_hash_ok [OF t m(1,3)] obtain s1 where s1: "oska_move_hash S t m s = Some s1" "after S m s s1" "o_winner s1 = o_winner s"
    "hash_offset S t s1 = hash_offset S t s" unfolding hash_offset_def by blast
  then show "\<exists>s'. g_move_hash (oska_ops unif S t) m s = Some s' \<and> oska_ginv S t k s' \<and> oska_pos s' = oska_nxt S (oska_pos s) m
      \<and> oska_rem S (oska_pos s') < oska_rem S (oska_pos s)"
    using after_pos [OF s1(2)] m(2) wf(2) by (auto simp: oska_ops_def oska_ginv_def after_def)
  from oska_move_winner_ok(2) [OF t m] obtain s2 where s2: "oska_move_hash_winner S t m s = Some s2" "after S m s s2"
    "o_winner s2 = oska_outcome S (o_agent_board s2) (o_player_to_move s)" "hash_offset S t s2 = hash_offset S t s" unfolding hash_offset_def by blast
  then show "\<exists>s'. g_move_hash_winner (oska_ops unif S t) m s = Some s' \<and> oska_exact S t k s' \<and> oska_pos s' = oska_nxt S (oska_pos s) m
      \<and> oska_rem S (oska_pos s') < oska_rem S (oska_pos s) \<and> g_lastMove (oska_ops unif S t) s' = m"
    using after_pos [OF s2(2)] after_inv [OF m(1) s2(2,3)] wf(2) by (auto simp: oska_ops_def oska_exact_def oska_lastMove_def after_def)
qed

end

section \<open>The search on Oska\<close>

text \<open>The environment: Oska of one size, any tree and path, any floating-point operations and any distribution.\<close>

definition oska_search ::
  "('t, oska_move arc_data, oska_move node_data) tree_ops \<Rightarrow> 'p path_ops \<Rightarrow> uniform_int \<Rightarrow> 'f float_ops \<Rightarrow> index_t \<Rightarrow> oska_tables \<Rightarrow>
   ('t, 'p, oska_state, oska_move, 'f) mcts_env" where
  "oska_search T P unif F S t = \<lparr>e_tree = T, e_path = P, e_game = oska_ops unif S t, e_float = F, e_unif = unif\<rparr>"

text \<open>The environment with the instances of the tree and the path, for closed examples.\<close>

type_synonym oska_tree = "(oska_move arc_data, oska_move node_data) tree"

definition oska_env :: "uniform_int \<Rightarrow> 'f float_ops \<Rightarrow> index_t \<Rightarrow> oska_tables \<Rightarrow> (oska_tree, path, oska_state, oska_move, 'f) mcts_env" where
  "oska_env unif F S t = oska_search (digraph_ops (ArcData (oska_ops unif S t)) NodeData) digraph_path_ops unif F S t"

context oska_size
begin

lemma oska_setup:
  assumes "search_tree T tinv tview" "search_path P" "uniform_dist unif" "tables_ok S t"
  shows "match_setup (oska_search T P unif F S t) tinv tview (oska_ginv S t k) (oska_exact S t k) oska_pos (oska_legal S) (oska_nxt S)
    (oska_key S t k) (oska_rem S) oska_ended"
proof -
  have "mcts_setup (oska_search T P unif F S t) tinv tview (oska_ginv S t k) (oska_exact S t k) oska_pos (oska_legal S) (oska_nxt S)
      (oska_key S t k) (oska_rem S)"
    unfolding mcts_setup_def using assms oska_game [OF assms(3,4)] by (simp add: oska_search_def)
  moreover have "oska_ended s = None \<longleftrightarrow> oska_legal S (oska_pos s) \<noteq> []" if "oska_exact S t k s" for s
    using inv_undecided [of s] that by (auto simp: oska_exact_def oska_inv_def oska_ended_def oska_legal_def oska_pos_def)
  ultimately show ?thesis by (simp add: match_setup_def match_setup_axioms_def)
qed

text \<open>No game is longer than the rows its stones can go.\<close>

lemma togo_bound:
  assumes "oska_wf S s"
  shows "int (togo S (o_agent_board s)) \<le> 2 * S * (ob_rows S - 3)"
proof -
  have "int (\<Sum>x\<in>own S (o_agent_board s) p. to_go S p x) \<le> S * (ob_rows S - 3)" if p: "is_mover p" for p
  proof -
    have side: "side_ok S (o_agent_board s) p (pids p s) (phome p s)" by (rule oska_wfD(4) [OF assms p])
    have card: "int (card (own S (o_agent_board s) p)) \<le> S" using side side_length [OF side] by (simp add: side_ok_def)
    have "to_go S p x \<le> nat (ob_rows S - 3)" if "x \<in> own S (o_agent_board s) p" for x
      using that cells_bounds(3) [of "persp S p x"] by (simp add: to_go_def own_def home_row)
    from sum_bounded_above [of _ _ "nat (ob_rows S - 3)", OF this]
    have "(\<Sum>x\<in>own S (o_agent_board s) p. to_go S p x) \<le> card (own S (o_agent_board s) p) * nat (ob_rows S - 3)" by simp
    then have "int (\<Sum>x\<in>own S (o_agent_board s) p. to_go S p x) \<le> int (card (own S (o_agent_board s) p)) * (ob_rows S - 3)"
      using extents(2) by (simp add: zle_int [symmetric] del: zle_int of_nat_sum)
    also have "\<dots> \<le> S * (ob_rows S - 3)" using card extents(2) by (intro mult_right_mono) simp_all
    finally show ?thesis .
  qed
  from this [of Agent] this [of Human] show ?thesis by (simp add: togo_def)
qed

end

interpretation o5: oska_size 5
  by unfold_locales (simp add: geometry_sizes)

interpretation o3: oska_size 3
  by unfold_locales (simp add: geometry_sizes)

end
