(* ===== verification/Oska_Reach.thy ===== *)
theory Oska_Reach
  imports Oska_Mcts
begin

unbundle bit_operations_syntax

text \<open>
  The states that can be reached in a game of Oska, and concrete games.
\<close>

section \<open>Reachable states\<close>

text \<open>The tables are static: the first object of the program finds them zeroed, and each object that is initialised for the first time
  fills them again.\<close>

inductive oska_tables_reach :: "('g \<Rightarrow> 'g) \<Rightarrow> ('g \<Rightarrow> u64 \<times> 'g) \<Rightarrow> index_t \<Rightarrow> oska_tables \<Rightarrow> bool"
  for hex :: "'g \<Rightarrow> 'g" and key :: "'g \<Rightarrow> u64 \<times> 'g" and S :: index_t where
  fresh: "oska_tables_reach hex key S (oska_tables_new S)"
| used: "oska_tables_reach hex key S t \<Longrightarrow> is_mover p \<Longrightarrow> oska_initialize hex key S q (t, oska_new S p, g) = Some (t', s, g') \<Longrightarrow>
    oska_tables_reach hex key S t'"

text \<open>A new object is initialised, with any random numbers and either player to begin; then moves on offer are made.\<close>

inductive oska_reach :: "('g \<Rightarrow> 'g) \<Rightarrow> ('g \<Rightarrow> u64 \<times> 'g) \<Rightarrow> index_t \<Rightarrow> oska_tables \<Rightarrow> u64 \<Rightarrow> oska_state \<Rightarrow> bool"
  for hex :: "'g \<Rightarrow> 'g" and key :: "'g \<Rightarrow> u64 \<times> 'g" and S :: index_t where
  start: "oska_tables_reach hex key S t0 \<Longrightarrow> is_mover p \<Longrightarrow> oska_initialize hex key S q (t0, oska_new S p, g) = Some (t, s, g') \<Longrightarrow>
    oska_reach hex key S t (hash_offset S t s) s"
| step: "oska_reach hex key S t k s \<Longrightarrow>
    oska_moves t s (moves_new (nat (oska_max_no_moves S)) oska_move_invalid) = Some (True, ms) \<Longrightarrow> m \<in> set (contents ms) \<Longrightarrow>
    oska_move_hash_winner S t m s = Some s' \<Longrightarrow> oska_reach hex key S t k s'"

context oska_size
begin

lemma tables_new: "tables_part S 0 (oska_tables_new S)"
  using length_cells extents board_ok_new [of S "0 :: index_t"]
  by (simp add: tables_part_def oska_tables_new_def vector_new_def)

lemma tables_ok_part: "tables_ok S t \<Longrightarrow> tables_part S 0 t"
  by (simp add: tables_ok_def tables_part_def)

lemma part_initialize:
  assumes "tables_part S 0 t0" "is_mover p"
  shows "\<exists>t s g'. oska_initialize hex key S q (t0, oska_new S p, g) = Some (t, s, g') \<and> tables_ok S t \<and> oska_inv S s
    \<and> started S s \<and> o_player_to_move s = p \<and> o_winner s = Invalid"
  using once_initialize_ok [OF assms(1), of "oska_new S p" hex key q g] assms(2) by (simp add: oska_new_def)

lemma tables_reach_part: "oska_tables_reach hex key S t \<Longrightarrow> tables_part S 0 t"
proof (induction rule: oska_tables_reach.induct)
  case fresh
  show ?case by (rule tables_new)
next
  case (used t p q g t' s g')
  from part_initialize [OF used(4,2), of hex key q g] used(3) show ?case by (auto intro: tables_ok_part)
qed

lemma new_initialize:
  assumes "oska_tables_reach hex key S t0" "is_mover p"
  shows "\<exists>t s g'. oska_initialize hex key S q (t0, oska_new S p, g) = Some (t, s, g') \<and> tables_ok S t \<and> oska_inv S s
    \<and> started S s \<and> o_player_to_move s = p \<and> o_winner s = Invalid"
  by (rule part_initialize [OF tables_reach_part [OF assms(1)] assms(2)])

lemma started_cell:
  "started S s \<Longrightarrow> (c, r) \<in> set (cells S) \<Longrightarrow>
    matrix_at (o_agent_board s) c r = Some (if r = 1 then Agent else if r = ob_home_row S then Human else Vacant)"
  unfolding started_def by (drule conjunct2, drule conjunct1, drule bspec [of _ _ "(c, r)"]) (auto simp: bat_def start_piece_def)

lemma started_lengths:
  assumes "started S s"
  shows "length (o_agent_stone_id s) = nat S" "length (o_human_stone_id s) = nat S"
proof -
  have "filter (\<lambda>x. snd x = 1) (bottom_cells S) = []" "filter (\<lambda>x. snd x = ob_home_row S) (top_cells S) = []"
    using cells_top_bottom(3,4) by (force simp: filter_empty_conv)+
  with home_count have "int (length (filter (\<lambda>x. snd x = 1) (top_cells S))) = S" "int (length (filter (\<lambda>x. snd x = ob_home_row S) (bottom_cells S))) = S"
    by (simp_all add: cells_def)
  then show "length (o_agent_stone_id s) = nat S" "length (o_human_stone_id s) = nat S" using assms by (simp_all add: started_def)
qed

lemma reach_inv: "oska_reach hex key S t k s \<Longrightarrow> tables_ok S t \<and> oska_exact S t k s"
proof (induction rule: oska_reach.induct)
  case (start t0 p q g t s g')
  from new_initialize [OF start(1,2), of q g] obtain t1 s1 g1 where
    "oska_initialize hex key S q (t0, oska_new S p, g) = Some (t1, s1, g1)" "tables_ok S t1" "oska_inv S s1" by blast
  with start(3) show ?case by (simp add: oska_exact_def)
next
  case (step t k s ms m s')
  then have t: "tables_ok S t" and s: "oska_inv S s" "hash_offset S t s = k" by (auto simp: oska_exact_def)
  from oska_exact_moves [OF t s(1)] step(2) have "mset (contents ms) = mset (oska_legal S (oska_pos s))" by auto
  with step(3) have "m \<in> set (oska_legal S (oska_pos s))" using mset_eq_setD by blast
  note m = oska_ginv_legal [OF _ this, of t k]
  have g: "oska_ginv S t k s" using s by (simp add: oska_ginv_def oska_inv_def)
  from oska_move_winner_ok(2) [OF t m [OF g]] obtain s1 where "oska_move_hash_winner S t m s = Some s1" "after S m s s1"
    "o_winner s1 = oska_outcome S (o_agent_board s1) (o_player_to_move s)" "hash_offset S t s1 = hash_offset S t s" unfolding hash_offset_def by blast
  with after_inv [OF m(1) [OF g]] step(4) s(2) t show ?case by (simp add: oska_exact_def)
qed

end

lemma sizes: "3 \<le> S \<Longrightarrow> S \<le> 8 \<Longrightarrow> oska_size S"
  by unfold_locales (rule geometry)

context oska_size
begin

lemma player_moves_iff:
  assumes s: "oska_wf S s" and p: "is_mover p"
  shows "m \<in> set (player_moves S (o_agent_board s) p) \<longleftrightarrow>
    (\<exists>c r d. (d = 1 \<or> d = -1) \<and> matrix_at (pboard p s) c r = Some p
      \<and> (matrix_at (pboard p s) (c + d) (r + 1) = Some Vacant \<and> m = \<lparr>m_from = \<lparr>l_c = c, l_r = r\<rparr>, m_to = \<lparr>l_c = c + d, l_r = r + 1\<rparr>\<rparr>
        \<or> matrix_at (pboard p s) (c + d) (r + 1) = Some (opponent p) \<and> matrix_at (pboard p s) (c + 2 * d) (r + 2) = Some Vacant
          \<and> m = \<lparr>m_from = \<lparr>l_c = c, l_r = r\<rparr>, m_to = \<lparr>l_c = c + 2 * d, l_r = r + 2\<rparr>\<rparr>))" (is "?L \<longleftrightarrow> ?R")
proof -
  let ?b = "o_agent_board s"
  have at: "matrix_at (pboard p s) c r = bat ?b (persp S p (c, r))" for c r
    using boards_ok_persp [OF oska_wfD(1) [OF s], of p "(c, r)"] by (simp add: bat_def)
  have opp: "opponent p \<noteq> Vacant" "p \<noteq> Invalid" using p by (auto simp: is_mover_def)
  have dir: "stone_dir S ?b p d (c, r) = Some m \<longleftrightarrow>
      matrix_at (pboard p s) (c + d) (r + 1) = Some Vacant \<and> m = \<lparr>m_from = \<lparr>l_c = c, l_r = r\<rparr>, m_to = \<lparr>l_c = c + d, l_r = r + 1\<rparr>\<rparr>
      \<or> matrix_at (pboard p s) (c + d) (r + 1) = Some (opponent p) \<and> matrix_at (pboard p s) (c + 2 * d) (r + 2) = Some Vacant
        \<and> m = \<lparr>m_from = \<lparr>l_c = c, l_r = r\<rparr>, m_to = \<lparr>l_c = c + 2 * d, l_r = r + 2\<rparr>\<rparr>" for d c r
    using opp by (auto simp: stone_dir_def at loc_def Let_def split: if_splits)
  have "?L \<longleftrightarrow> (\<exists>x \<in> own S ?b p. \<exists>d. (d = 1 \<or> d = -1) \<and> stone_dir S ?b p d (persp S p x) = Some m)"
    by (auto simp: player_moves_def stone_moves_def own_def)
  also have "\<dots> \<longleftrightarrow> (\<exists>y d. (d = 1 \<or> d = -1) \<and> bat ?b (persp S p y) = Some p \<and> stone_dir S ?b p d y = Some m)"
  proof
    assume "\<exists>x \<in> own S ?b p. \<exists>d. (d = 1 \<or> d = -1) \<and> stone_dir S ?b p d (persp S p x) = Some m"
    then obtain x d where "x \<in> own S ?b p" "d = 1 \<or> d = -1" "stone_dir S ?b p d (persp S p x) = Some m" by blast
    then show "\<exists>y d. (d = 1 \<or> d = -1) \<and> bat ?b (persp S p y) = Some p \<and> stone_dir S ?b p d y = Some m"
      by (intro exI [of _ "persp S p x"] exI [of _ d]) (simp add: own_def)
  next
    assume "\<exists>y d. (d = 1 \<or> d = -1) \<and> bat ?b (persp S p y) = Some p \<and> stone_dir S ?b p d y = Some m"
    then obtain y d where y: "d = 1 \<or> d = -1" "bat ?b (persp S p y) = Some p" "stone_dir S ?b p d y = Some m" by blast
    then have "persp S p y \<in> own S ?b p" using pieces_in_cells [OF oska_wfD(2) [OF s] y(2)] opp by (simp add: own_def)
    with y show "\<exists>x \<in> own S ?b p. \<exists>d. (d = 1 \<or> d = -1) \<and> stone_dir S ?b p d (persp S p x) = Some m"
      by (intro bexI [of _ "persp S p y"] exI [of _ d]) simp_all
  qed
  also have "\<dots> \<longleftrightarrow> ?R" unfolding split_paired_Ex dir at by blast
  finally show ?thesis .
qed

end

section \<open>Concrete games\<close>

text \<open>Keys from a simple source, the opening of a game of any size, and a game with three stones each that is two moves from its
  end.\<close>

definition demo_key :: "u64 \<Rightarrow> u64 \<times> u64" where
  "demo_key g = (g * 0x9e3779b97f4a7c15, g + 0x9e3779b97f4a7c15)"

definition demo_game :: "index_t \<Rightarrow> oska_tables \<times> oska_state \<times> u64" where
  "demo_game S = the (oska_initialize id demo_key S Human (oska_tables_new S, oska_new S Agent, 42))"

lemma demo_game:
  assumes "3 \<le> S" "S \<le> 8" "demo_game S = (t, s, g)"
  shows "oska_reach id demo_key S t (hash_offset S t s) s" "o_winner s = Invalid" "o_player_to_move s = Agent"
proof -
  from oska_size.new_initialize [OF sizes [OF assms(1,2)] oska_tables_reach.fresh, of Agent id demo_key Human 42] obtain t' s' g' where
    i: "oska_initialize id demo_key S Human (oska_tables_new S, oska_new S Agent, 42) = Some (t', s', g')" "o_winner s' = Invalid" "o_player_to_move s' = Agent"
    by auto
  then have eq: "t' = t" "s' = s" using assms(3) by (simp_all add: demo_game_def)
  from oska_reach.start [OF oska_tables_reach.fresh _ i(1)] i show "oska_reach id demo_key S t (hash_offset S t s) s" "o_winner s = Invalid" "o_player_to_move s = Agent"
    by (simp_all add: eq)
qed

context oska_size
begin

lemma reach_step_pos:
  assumes "oska_reach hex key S t k s" "oska_moves t s (moves_new (nat (oska_max_no_moves S)) oska_move_invalid) = Some (True, ms)"
    "m \<in> set (contents ms)" "oska_move_hash_winner S t m s = Some s'"
  shows "m \<in> set (oska_legal S (oska_pos s)) \<and> oska_pos s' = oska_nxt S (oska_pos s) m"
proof -
  from reach_inv [OF assms(1)] have t: "tables_ok S t" and s: "oska_inv S s" "oska_ginv S t k s"
    by (auto simp: oska_exact_def oska_ginv_def oska_inv_def)
  from oska_exact_moves [OF t s(1)] assms(2) have "mset (contents ms) = mset (oska_legal S (oska_pos s))" by auto
  from mset_eq_setD [OF this] assms(3) have m: "m \<in> set (oska_legal S (oska_pos s))" by simp
  from oska_move_winner_ok(2) [OF t oska_ginv_legal [OF s(2) m]] assms(4) have "after S m s s'" by auto
  from after_pos [OF this] m show ?thesis by simp
qed

end

text \<open>Moves given by their places in the list on offer.\<close>

fun oska_play :: "index_t \<Rightarrow> oska_tables \<Rightarrow> nat list \<Rightarrow> oska_state \<Rightarrow> oska_state option" where
  "oska_play S t [] s = Some s"
| "oska_play S t (i # ks) s = do {
     (b, ms) \<leftarrow> oska_moves t s (moves_new (nat (oska_max_no_moves S)) oska_move_invalid);
     if b \<and> i < length (contents ms) then do {
       s \<leftarrow> oska_move_hash_winner S t (contents ms ! i) s;
       oska_play S t ks s }
     else None }"

lemma oska_play_reach: "oska_play S t ks s = Some s' \<Longrightarrow> oska_reach hex key S t k s \<Longrightarrow> oska_reach hex key S t k s'"
proof (induction ks arbitrary: s)
  case (Cons i ks)
  from Cons.prems(1) obtain ms s1 where
    s1: "oska_moves t s (moves_new (nat (oska_max_no_moves S)) oska_move_invalid) = Some (True, ms)" "i < length (contents ms)"
    "oska_move_hash_winner S t (contents ms ! i) s = Some s1" "oska_play S t ks s1 = Some s'"
    by (auto split: bind_splits if_splits)
  from oska_reach.step [OF Cons.prems(2) s1(1) nth_mem [OF s1(2)] s1(3)] Cons.IH [OF s1(4)] show ?case by blast
qed simp

definition tables3 :: oska_tables where
  "tables3 =
    \<lparr>t_location_to_id = \<lparr>m_I = 7, m_J = 5, m_BaseI = 0, m_BaseJ = 0, m_data = [-1, -1, -1, -1, -1, -1, 0, -1, 5, -1,
     -1, -1, 3, -1, -1, -1, 1, -1, 6, -1, -1, -1, 4, -1, -1, -1, 2, -1, 7, -1, -1, -1, -1, -1, -1]\<rparr>, t_id_to_location =
     \<lparr>v_I = 8, v_BaseI = 0, v_data = [\<lparr>l_c = 1, l_r = 1\<rparr>, \<lparr>l_c = 3, l_r = 1\<rparr>, \<lparr>l_c = 5,
     l_r = 1\<rparr>, \<lparr>l_c = 2, l_r = 2\<rparr>, \<lparr>l_c = 4, l_r = 2\<rparr>, \<lparr>l_c = 1, l_r = 3\<rparr>,
     \<lparr>l_c = 3, l_r = 3\<rparr>, \<lparr>l_c = 5, l_r = 3\<rparr>]\<rparr>, t_zobrist_keys = \<lparr>c_I = 2, c_J = 7, c_K =
     5, c_BaseI = 0, c_BaseJ = 0, c_BaseK = 0, c_data = [0, 0, 0, 0, 0, 0, 17661420568835545970, 0, 12521057869321985196, 0, 0, 0,
     3509156504901678536, 0, 0, 0, 12943999214190923492, 0, 7803636514677362718, 0, 0, 0, 17238479223966607674, 0, 0, 0,
     8226577859546301014, 0, 3086215160032740240, 0, 0, 0, 0, 0, 0, 0, 0, 0, 0, 0, 0, 15302709891513234731, 0,
     10162347191999673957, 0, 0, 0, 1150445827579367297, 0, 0, 0, 10585288536868612253, 0, 5444925837355051479, 0, 0, 0,
     14879768546644296435, 0, 0, 0, 5867867182223989775, 0, 727504482710429001, 0, 0, 0, 0, 0, 0]\<rparr>\<rparr>"

definition opening3 :: oska_state where
  "opening3 =
    \<lparr>o_zobrist_hash = 8331193092060844079, o_agent_board = \<lparr>m_I = 7, m_J = 5, m_BaseI = 0, m_BaseJ = 0, m_data =
     [Invalid, Invalid, Invalid, Invalid, Invalid, Invalid, Agent, Invalid, Human, Invalid, Invalid, Invalid, Vacant, Invalid,
     Invalid, Invalid, Agent, Invalid, Human, Invalid, Invalid, Invalid, Vacant, Invalid, Invalid, Invalid, Agent, Invalid, Human,
     Invalid, Invalid, Invalid, Invalid, Invalid, Invalid]\<rparr>, o_human_board = \<lparr>m_I = 7, m_J = 5, m_BaseI = 0, m_BaseJ
     = 0, m_data = [Invalid, Invalid, Invalid, Invalid, Invalid, Invalid, Human, Invalid, Agent, Invalid, Invalid, Invalid,
     Vacant, Invalid, Invalid, Invalid, Human, Invalid, Agent, Invalid, Invalid, Invalid, Vacant, Invalid, Invalid, Invalid,
     Human, Invalid, Agent, Invalid, Invalid, Invalid, Invalid, Invalid, Invalid]\<rparr>, o_agent_stone_id = [0, 1, 2],
     o_human_stone_id = [5, 6, 7], o_no_home_agent = 0, o_no_home_human = 0, o_player_to_move = Agent, o_winner = Invalid,
     o_last_move = \<lparr>m_from = \<lparr>l_c = -2, l_r = -2\<rparr>, m_to = \<lparr>l_c = -2, l_r = -2\<rparr>\<rparr>,
     o_once_initialized = True\<rparr>"

definition late :: oska_state where
  "late =
    \<lparr>o_zobrist_hash = 16221258209309884138, o_agent_board = \<lparr>m_I = 7, m_J = 5, m_BaseI = 0, m_BaseJ = 0, m_data =
     [Invalid, Invalid, Invalid, Invalid, Invalid, Invalid, Vacant, Invalid, Human, Invalid, Invalid, Invalid, Agent, Invalid,
     Invalid, Invalid, Agent, Invalid, Agent, Invalid, Invalid, Invalid, Human, Invalid, Invalid, Invalid, Vacant, Invalid,
     Vacant, Invalid, Invalid, Invalid, Invalid, Invalid, Invalid]\<rparr>, o_human_board = \<lparr>m_I = 7, m_J = 5, m_BaseI = 0,
     m_BaseJ = 0, m_data = [Invalid, Invalid, Invalid, Invalid, Invalid, Invalid, Vacant, Invalid, Vacant, Invalid, Invalid,
     Invalid, Human, Invalid, Invalid, Invalid, Agent, Invalid, Agent, Invalid, Invalid, Invalid, Agent, Invalid, Invalid,
     Invalid, Human, Invalid, Vacant, Invalid, Invalid, Invalid, Invalid, Invalid, Invalid]\<rparr>, o_agent_stone_id = [3, 1, 6],
     o_human_stone_id = [5, 4], o_no_home_agent = 1, o_no_home_human = 0, o_player_to_move = Agent, o_winner = Invalid,
     o_last_move = \<lparr>m_from = \<lparr>l_c = 1, l_r = 1\<rparr>, m_to = \<lparr>l_c = 2, l_r = 2\<rparr>\<rparr>,
     o_once_initialized = True\<rparr>"

definition late1 :: oska_state where "late1 = the (oska_play 3 tables3 [0] late)"

definition late2 :: oska_state where "late2 = the (oska_play 3 tables3 [0] late1)"

lemma opening3: "demo_game 3 = (tables3, opening3, 16390740445785211258)"
  by code_simp

lemma late_play: "oska_play 3 tables3 [0, 1, 1, 0] opening3 = Some late"
  by code_simp

lemma late_steps: "oska_play 3 tables3 [0] late = Some late1" "oska_play 3 tables3 [0] late1 = Some late2"
  "o_winner late = Invalid" "o_winner late1 = Invalid" "o_winner late2 = Agent"
  by code_simp+

lemma late_keys: "distinct (map oska_zobrist [late, late1, late2])"
  by code_simp

lemma late_moves: "length (player_moves 3 (o_agent_board late) Agent) = 1" "length (player_moves 3 (o_agent_board late1) Human) = 1"
  by code_simp+

abbreviation offset3 :: u64 where "offset3 \<equiv> hash_offset 3 tables3 opening3"

lemma late_reach: "oska_reach id demo_key 3 tables3 offset3 late" "oska_reach id demo_key 3 tables3 offset3 late1"
    "oska_reach id demo_key 3 tables3 offset3 late2"
proof -
  show l: "oska_reach id demo_key 3 tables3 offset3 late" by (rule oska_play_reach [OF late_play demo_game(1) [OF _ _ opening3]]) simp_all
  show l1: "oska_reach id demo_key 3 tables3 offset3 late1" by (rule oska_play_reach [OF late_steps(1) l])
  show "oska_reach id demo_key 3 tables3 offset3 late2" by (rule oska_play_reach [OF late_steps(2) l1])
qed

lemma play_single:
  assumes "oska_reach hex key 3 t k s" "oska_play 3 t [i] s = Some s'" "length (oska_legal 3 (oska_pos s)) = 1"
  shows "oska_nxt 3 (oska_pos s) ` set (oska_legal 3 (oska_pos s)) = {oska_pos s'}"
proof -
  from assms(2) obtain ms where ms: "oska_moves t s (moves_new (nat (oska_max_no_moves 3)) oska_move_invalid) = Some (True, ms)" "i < length (contents ms)"
    "oska_move_hash_winner 3 t (contents ms ! i) s = Some s'" by (auto split: bind_splits if_splits)
  from o3.reach_step_pos [OF assms(1) ms(1) nth_mem [OF ms(2)] ms(3)] assms(3) show ?thesis by (auto simp: length_Suc_conv)
qed

lemma late_legal: "length (oska_legal 3 (oska_pos late)) = 1" "length (oska_legal 3 (oska_pos late1)) = 1" "oska_legal 3 (oska_pos late2) = []"
proof -
  have legal: "oska_legal 3 (oska_pos s) = (if o_winner s = Invalid then player_moves 3 (o_agent_board s) (o_player_to_move s) else [])"
    if "oska_reach id demo_key 3 tables3 offset3 s" for s
    using o3.reach_inv [OF that] by (simp add: oska_legal_def oska_pos_def oska_exact_def oska_inv_def)
  have "o_player_to_move late = Agent" "o_player_to_move late1 = Human" by code_simp+
  with late_moves late_steps(3-5) legal [OF late_reach(1)] legal [OF late_reach(2)] legal [OF late_reach(3)]
  show "length (oska_legal 3 (oska_pos late)) = 1" "length (oska_legal 3 (oska_pos late1)) = 1" "oska_legal 3 (oska_pos late2) = []" by simp_all
qed

lemma late_inj: "inj_on (oska_key 3 tables3 offset3) (positions (oska_legal 3) (oska_nxt 3) (oska_pos late))"
proof -
  note nxt = play_single [OF late_reach(1) late_steps(1) late_legal(1)] play_single [OF late_reach(2) late_steps(2) late_legal(2)]
  have "closed_under (oska_legal 3) (oska_nxt 3) (oska_pos ` {late, late1, late2})"
    unfolding closed_under_def
  proof (intro ballI)
    fix q m assume "q \<in> oska_pos ` {late, late1, late2}" "m \<in> set (oska_legal 3 q)"
    then consider "q = oska_pos late" | "q = oska_pos late1" using late_legal(3) by auto
    then show "oska_nxt 3 q m \<in> oska_pos ` {late, late1, late2}"
      using \<open>m \<in> set (oska_legal 3 q)\<close> imageI [of m _ "oska_nxt 3 q"] nxt by cases auto
  qed
  then have sub: "positions (oska_legal 3) (oska_nxt 3) (oska_pos late) \<subseteq> oska_pos ` {late, late1, late2}" by (rule positions_subset) simp
  have "oska_zobrist s = Some (oska_key 3 tables3 offset3 (oska_pos s))" if "oska_reach id demo_key 3 tables3 offset3 s" for s
    using o3.reach_inv [OF that] o3.oska_zobrist_key [of s tables3] by (auto simp: oska_exact_def oska_inv_def)
  with late_reach late_keys have "inj_on (oska_key 3 tables3 offset3) (oska_pos ` {late, late1, late2})" by (auto simp: inj_on_def)
  from inj_on_subset [OF this sub] show ?thesis .
qed

end
