(* ===== verification/Oska_Search.thy ===== *)
theory Oska_Search
  imports Oska_Reach
begin

unbundle bit_operations_syntax

text \<open>
  The properties of Oska: the reachable states of a game, the moves on offer, play-outs, random moves, and the match of main.cpp,
  which is played on this game with five stones per player.
\<close>

section \<open>Properties\<close>

text \<open>C27: Initialising a new object lays out the stones of both players and fills the tables, whatever random numbers are drawn:
  the agent's stones are on the first row, the human's on the last, all other cells are vacant, the tables of locations and
  identifiers are inverse to each other, and the player to move has a move.\<close>

theorem oska_initialize_start:
  assumes "3 \<le> S" "S \<le> 8" "oska_tables_reach hex key S t0" "is_mover p"
  shows "\<exists>t s g'. oska_initialize hex key S q (t0, oska_new S p, g) = Some (t, s, g')
    \<and> (\<forall>c r. (c, r) \<in> set (cells S) \<longrightarrow>
         matrix_at (o_agent_board s) c r = Some (if r = 1 then Agent else if r = ob_home_row S then Human else Vacant)
         \<and> (\<exists>i. matrix_at (t_location_to_id t) c r = Some i \<and> vector_at (t_id_to_location t) i = Some \<lparr>l_c = c, l_r = r\<rparr>))
    \<and> length (o_agent_stone_id s) = nat S \<and> length (o_human_stone_id s) = nat S
    \<and> (\<exists>ms. oska_moves t s (moves_new (nat (oska_max_no_moves S)) oska_move_invalid) = Some (True, ms))"
proof -
  note S = sizes [OF assms(1,2)]
  from oska_size.new_initialize [OF S assms(3,4), of q g] obtain t s g' where
    i: "oska_initialize hex key S q (t0, oska_new S p, g) = Some (t, s, g')" "tables_ok S t" "oska_inv S s" "started S s" "o_winner s = Invalid"
    by blast
  have cell: "matrix_at (o_agent_board s) c r = Some (if r = 1 then Agent else if r = ob_home_row S then Human else Vacant)
      \<and> (\<exists>i. matrix_at (t_location_to_id t) c r = Some i \<and> vector_at (t_id_to_location t) i = Some \<lparr>l_c = c, l_r = r\<rparr>)"
    if "(c, r) \<in> set (cells S)" for c r
    using oska_size.ploc_ok [OF S i(2) that, of Agent] i(2,4) that
    by (auto simp: started_def tables_ok_def bat_def start_piece_def ploc_def loc_def)
  have "length (o_agent_stone_id s) = nat S \<and> length (o_human_stone_id s) = nat S" using oska_size.started_lengths [OF S i(4)] by simp
  moreover have "\<exists>ms. oska_moves t s (moves_new (nat (oska_max_no_moves S)) oska_move_invalid) = Some (True, ms)"
    using oska_size.oska_exact_moves [OF S i(2,3)] oska_size.inv_undecided(1) [OF S i(3,5)] i(3,5) by (auto simp: oska_legal_def oska_pos_def oska_inv_def)
  ultimately show ?thesis using i(1) cell by blast
qed

theorem oska_initialize_start_witness:
  "\<exists>t s g'. oska_initialize id demo_key 5 Human (oska_tables_new 5, oska_new 5 Agent, 42) = Some (t, s, g')
    \<and> matrix_at (o_agent_board s) 1 1 = Some Agent \<and> matrix_at (o_agent_board s) 9 7 = Some Human \<and> length (o_agent_stone_id s) = 5"
proof -
  have "(1, 1) \<in> set (cells 5)" "(9, 7) \<in> set (cells 5)" "ob_home_row 5 = 7" by code_simp+
  with oska_initialize_start [OF _ _ oska_tables_reach.fresh [of id demo_key 5], of Agent Human 42] show ?thesis by fastforce
qed

text \<open>Initialising an object again, for a new game, lays out the stones anew, but the hash keeps its old value, so that the hash of the
  first position of a game differs from game to game on one object.\<close>

theorem oska_reinitialize_keeps_hash:
  assumes "3 \<le> S" "S \<le> 8" "oska_reach hex key S t k s" "o_once_initialized s" "is_mover q"
  shows "\<exists>s'. oska_initialize hex key S q (t, s, g) = Some (t, s', g) \<and> o_zobrist_hash s' = o_zobrist_hash s
    \<and> (\<forall>c r. (c, r) \<in> set (cells S) \<longrightarrow>
         matrix_at (o_agent_board s') c r = Some (if r = 1 then Agent else if r = ob_home_row S then Human else Vacant))
    \<and> o_player_to_move s' = q \<and> o_winner s' = Invalid"
proof -
  note S = sizes [OF assms(1,2)]
  from oska_size.reach_inv [OF S assms(3)] have t: "tables_ok S t" and wf: "oska_wf S s" by (auto simp: oska_exact_def oska_inv_def)
  have b: "board_ok S (o_agent_board s)" "board_ok S (o_human_board s)" using oska_wfD(1) [OF wf] by (auto simp: boards_ok_def pieces_ok_def)
  from oska_size.initialize_again_ok [OF S t b assms(4,5), of hex key g] obtain s' where
    "oska_initialize hex key S q (t, s, g) = Some (t, s', g)" "started S s'" "o_player_to_move s' = q" "o_winner s' = Invalid"
    "o_zobrist_hash s' = o_zobrist_hash s" by blast
  with oska_size.started_cell [OF S, of s'] show ?thesis by (intro exI [of _ s']) simp
qed

theorem oska_reinitialize_keeps_hash_witness:
  "\<exists>s'. oska_initialize id demo_key 3 Agent (tables3, late, 7) = Some (tables3, s', 7) \<and> o_zobrist_hash s' = o_zobrist_hash late
    \<and> o_zobrist_hash s' \<noteq> o_zobrist_hash opening3 \<and> matrix_at (o_agent_board s') 1 1 = Some Agent"
proof -
  have "(1, 1) \<in> set (cells 3)" "o_once_initialized late" "o_zobrist_hash late \<noteq> o_zobrist_hash opening3" by code_simp+
  with oska_reinitialize_keeps_hash [OF _ _ late_reach(1), of Agent 7] show ?thesis by fastforce
qed

text \<open>C11: In every state that can be reached in a game the two boards are each other seen from the other side; the lists of
  identifiers list the stones of each player, each once; the counters count the stones on the opposite row; the recorded winner is the
  outcome of the board, recomputed from scratch; and the hash is that of the stones, up to an offset that stays the same for the
  whole game.\<close>

theorem oska_reachable:
  assumes "3 \<le> S" "S \<le> 8" "oska_reach hex key S t k s"
  shows "(\<forall>c r. matrix_at (o_human_board s) c r = matrix_at_r (o_agent_board s) c r)
    \<and> distinct (o_agent_stone_id s) \<and> distinct (o_human_stone_id s)
    \<and> set (o_agent_stone_id s) = {i. \<exists>c r. (c, r) \<in> set (cells S) \<and> matrix_at (o_agent_board s) c r = Some Agent \<and> matrix_at (t_location_to_id t) c r = Some i}
    \<and> set (o_human_stone_id s) = {i. \<exists>c r. (c, r) \<in> set (cells S) \<and> matrix_at (o_agent_board s) c r = Some Human \<and> matrix_at (t_location_to_id t) c r = Some i}
    \<and> o_no_home_agent s = int (card {x \<in> set (cells S). matrix_at (o_agent_board s) (fst x) (snd x) = Some Agent \<and> snd x = ob_home_row S})
    \<and> o_no_home_human s = int (card {x \<in> set (cells S). matrix_at (o_agent_board s) (fst x) (snd x) = Some Human \<and> snd x = 1})
    \<and> o_winner s = oska_outcome S (o_agent_board s) (opponent (o_player_to_move s))
    \<and> o_zobrist_hash s = k XOR stones_hash S t (o_agent_board s)"
proof -
  note S = sizes [OF assms(1,2)]
  from oska_size.reach_inv [OF S assms(3)] have t: "tables_ok S t" and wf: "oska_wf S s" and k: "hash_offset S t s = k"
    and w: "o_winner s = oska_outcome S (o_agent_board s) (opponent (o_player_to_move s))" by (auto simp: oska_exact_def oska_inv_def)
  have b: "board_ok S (o_agent_board s)" "\<And>x. bat (o_human_board s) x = bat (o_agent_board s) (mirror S x)"
    using oska_wfD(1) [OF wf] by (auto simp: boards_ok_def pieces_ok_def)
  have "matrix_at (o_human_board s) c r = matrix_at_r (o_agent_board s) c r" for c r
    using b(2) [of "(c, r)"] bat_r [OF b(1), of "(c, r)"] by (simp add: bat_def)
  moreover have "cid S ` own S (o_agent_board s) p
      = {i. \<exists>c r. (c, r) \<in> set (cells S) \<and> matrix_at (o_agent_board s) c r = Some p \<and> matrix_at (t_location_to_id t) c r = Some i}" for p
    using t by (fastforce simp: own_def tables_ok_def bat_def)
  moreover have "homed S (o_agent_board s) Agent = {x \<in> set (cells S). matrix_at (o_agent_board s) (fst x) (snd x) = Some Agent \<and> snd x = ob_home_row S}"
    "homed S (o_agent_board s) Human = {x \<in> set (cells S). matrix_at (o_agent_board s) (fst x) (snd x) = Some Human \<and> snd x = 1}"
    by (auto simp: homed_def own_def bat_def persp_def home_row)
  moreover have "o_zobrist_hash s = k XOR stones_hash S t (o_agent_board s)" using k by (auto simp: hash_offset_def xor.assoc)
  ultimately show ?thesis using wf w by (simp add: oska_wf_def side_ok_def)
qed

theorem oska_reachable_witness:
  "oska_reach id demo_key 3 tables3 offset3 late2 \<and> set (o_agent_stone_id late2) = {6, 7}
    \<and> set (o_agent_stone_id late2) = {i. \<exists>c r. (c, r) \<in> set (cells 3) \<and> matrix_at (o_agent_board late2) c r = Some Agent
        \<and> matrix_at (t_location_to_id tables3) c r = Some i} \<and> o_winner late2 = oska_outcome 3 (o_agent_board late2) Human"
proof -
  have "set (o_agent_stone_id late2) = {6, 7}" "o_player_to_move late2 = Agent" by code_simp+
  with oska_reachable [OF _ _ late_reach(3)] late_reach(3) show ?thesis by simp
qed

text \<open>C10: While the game is undecided, \<^verbatim>\<open>moves\<close> offers exactly the moves of the rules, each once: a stone of the player to move steps diagonally
  forward onto a vacant cell, or jumps over a stone of the opponent onto a vacant cell; there is one, and the array of \<open>2 S\<close>
  elements never overflows. When the game is over none is offered.\<close>

theorem oska_moves_rules:
  assumes "3 \<le> S" "S \<le> 8" "oska_reach hex key S t k s"
  shows "\<exists>ms. oska_moves t s (moves_new (nat (oska_max_no_moves S)) oska_move_invalid) = Some (o_winner s = Invalid, ms)
    \<and> (o_winner s = Invalid \<longrightarrow> contents ms \<noteq> [] \<and> distinct (contents ms) \<and>
      (\<forall>m. m \<in> set (contents ms) \<longleftrightarrow>
        (let b = (if o_player_to_move s = Agent then o_agent_board s else o_human_board s) in
         \<exists>c r d. (d = 1 \<or> d = -1) \<and> matrix_at b c r = Some (o_player_to_move s)
          \<and> (matrix_at b (c + d) (r + 1) = Some Vacant \<and> m = \<lparr>m_from = \<lparr>l_c = c, l_r = r\<rparr>, m_to = \<lparr>l_c = c + d, l_r = r + 1\<rparr>\<rparr>
            \<or> matrix_at b (c + d) (r + 1) = Some (opponent (o_player_to_move s)) \<and> matrix_at b (c + 2 * d) (r + 2) = Some Vacant
              \<and> m = \<lparr>m_from = \<lparr>l_c = c, l_r = r\<rparr>, m_to = \<lparr>l_c = c + 2 * d, l_r = r + 2\<rparr>\<rparr>))))"
proof -
  note S = sizes [OF assms(1,2)]
  let ?p = "o_player_to_move s" and ?pm = "player_moves S (o_agent_board s) (o_player_to_move s)"
  from oska_size.reach_inv [OF S assms(3)] have t: "tables_ok S t" and i: "oska_inv S s" and wf: "oska_wf S s" by (auto simp: oska_exact_def oska_inv_def)
  have legal: "oska_legal S (oska_pos s) = (if o_winner s = Invalid then ?pm else [])" using i by (simp add: oska_legal_def oska_pos_def oska_inv_def)
  from oska_size.oska_exact_moves [OF S t i] obtain ms where
    ms: "oska_moves t s (moves_new (nat (oska_max_no_moves S)) oska_move_invalid) = Some (oska_legal S (oska_pos s) \<noteq> [], ms)"
    "oska_legal S (oska_pos s) \<noteq> [] \<longrightarrow> mset (contents ms) = mset (oska_legal S (oska_pos s))" by blast
  have pm: "o_winner s = Invalid \<Longrightarrow> ?pm \<noteq> []" using oska_size.inv_undecided(1) [OF S i] .
  have "contents ms \<noteq> [] \<and> distinct (contents ms) \<and> set (contents ms) = set ?pm" if w: "o_winner s = Invalid"
  proof -
    have eq: "mset (contents ms) = mset ?pm" using ms(2) pm w by (simp add: legal)
    from mset_eq_imp_distinct_iff [OF eq] mset_eq_setD [OF eq] mset_eq_length [OF eq] oska_size.player_moves_distinct [OF S, of "o_agent_board s" ?p] pm [OF w]
    show ?thesis by auto
  qed
  moreover have "(oska_legal S (oska_pos s) \<noteq> []) = (o_winner s = Invalid)" using pm by (simp add: legal)
  ultimately show ?thesis using ms(1) unfolding Let_def by (intro exI [of _ ms]) (simp add: oska_size.player_moves_iff [OF S wf oska_wfD(3) [OF wf]] pboard_def)
qed

theorem oska_moves_rules_witness:
  "\<exists>ms. oska_moves tables3 late (moves_new (nat (oska_max_no_moves 3)) oska_move_invalid) = Some (True, ms) \<and> contents ms \<noteq> []
    \<and> \<lparr>m_from = \<lparr>l_c = 3, l_r = 1\<rparr>, m_to = \<lparr>l_c = 5, l_r = 3\<rparr>\<rparr> \<in> set (contents ms)"
proof -
  from oska_moves_rules [OF _ _ late_reach(1)] late_steps(3) obtain ms where
    ms: "oska_moves tables3 late (moves_new (nat (oska_max_no_moves 3)) oska_move_invalid) = Some (True, ms)" "contents ms \<noteq> []" by auto
  have "map_option (\<lambda>r. contents (snd r)) (oska_moves tables3 late (moves_new (nat (oska_max_no_moves 3)) oska_move_invalid))
      = Some [\<lparr>m_from = \<lparr>l_c = 3, l_r = 1\<rparr>, m_to = \<lparr>l_c = 5, l_r = 3\<rparr>\<rparr>]" by code_simp
  with ms show ?thesis by simp
qed

text \<open>C26: A play-out from any state of a game ends, for every state of the generator and every distribution that stays in its
  range, with the game decided and the winner recorded that the final board shows.\<close>

theorem oska_simulate_ends:
  assumes "3 \<le> S" "S \<le> 8" "oska_reach hex key S t k s" "uniform_dist unif"
  shows "\<exists>s' g'. oska_simulate unif S t s g = Some (s', g') \<and> oska_ended s' \<noteq> None
    \<and> o_winner s' = oska_outcome S (o_agent_board s') (opponent (o_player_to_move s'))"
proof -
  note S = sizes [OF assms(1,2)]
  from oska_size.reach_inv [OF S assms(3)] have t: "tables_ok S t" and i: "oska_inv S s" "oska_wf S s" by (auto simp: oska_exact_def oska_inv_def)
  from oska_size.osimulate_ok [OF S assms(4) t i(2) disjI2 [OF i(1)], of g] i(1) show ?thesis by (auto simp: oska_ended_def oska_inv_def)
qed

theorem oska_simulate_ends_witness:
  "\<exists>s' g'. oska_simulate uniform_mod 3 tables3 opening3 (splitmix64 42 7) = Some (s', g') \<and> oska_ended s' \<noteq> None"
  using oska_simulate_ends [OF _ _ demo_game(1) [OF _ _ opening3] um.uniform_dist_axioms, of "splitmix64 42 7"] by auto

text \<open>Two states of one game with the same board and the same player to move have the same Zobrist key, although their lists
  of stones may differ in order.\<close>

theorem oska_transposition:
  assumes "3 \<le> S" "S \<le> 8" "oska_reach hex key S t k s" "oska_reach hex key S t k s'"
    and "o_agent_board s = o_agent_board s'" "o_player_to_move s = o_player_to_move s'"
  shows "oska_zobrist s = oska_zobrist s' \<and> oska_zobrist s \<noteq> None"
proof -
  note S = sizes [OF assms(1,2)]
  have "oska_zobrist s = Some (oska_key S t k (oska_pos s))" if "oska_reach hex key S t k s" for s
    using oska_size.reach_inv [OF S that] oska_size.oska_zobrist_key [OF S, of s t] by (auto simp: oska_exact_def oska_inv_def)
  with assms(3-6) show ?thesis by (simp add: oska_pos_def)
qed

theorem oska_transposition_witness:
  "\<exists>s s'. oska_play 3 tables3 [0, 2, 0, 0, 0, 0, 0] opening3 = Some s \<and> oska_play 3 tables3 [1, 1, 0, 1, 0, 0, 0] opening3 = Some s'
    \<and> o_agent_stone_id s \<noteq> o_agent_stone_id s' \<and> oska_zobrist s = oska_zobrist s'"
proof -
  let ?p = "oska_play 3 tables3 [0, 2, 0, 0, 0, 0, 0] opening3" and ?p' = "oska_play 3 tables3 [1, 1, 0, 1, 0, 0, 0] opening3"
  have e: "map_option o_agent_stone_id ?p = Some [7, 6]" "map_option o_agent_stone_id ?p' = Some [6, 7]"
    "map_option o_agent_board ?p = map_option o_agent_board ?p'" "map_option o_player_to_move ?p = map_option o_player_to_move ?p'"
    by code_simp+
  then obtain s s' where s: "?p = Some s" "?p' = Some s'" by auto
  have r: "oska_reach id demo_key 3 tables3 offset3 opening3" by (rule demo_game(1) [OF _ _ opening3]) simp_all
  from oska_transposition [OF _ _ oska_play_reach [OF s(1) r] oska_play_reach [OF s(2) r]] e s show ?thesis by auto
qed

text \<open>C1: The match that main.cpp plays, two searches of 20000 and 2000 iterations per move on one game of Oska, ends from every undecided
  state of a game with up to seven stones per player, for every tree and path that keep the contracts of the search: no step of the searches
  fails, every move made is legal, and the winner that is reported is the outcome of the final board. The one assumption on the Zobrist keys is
  that no two of the positions that this very match looks up in its transposition tables, at most one for every iteration and two for every
  move, have the same key.\<close>

theorem oska_match_ends:
  assumes "search_tree T tinv tview" "search_path P" "uniform_dist unif"
    and "3 \<le> S" "S \<le> 7" "oska_reach hex key S t k s" "o_winner s = Invalid"
    and "inj_on (oska_key S t k) (oska_pos ` match_states (oska_search T P unif F S t) oska_playerToMove oska_ended s g)"
  shows "\<exists>w mt g'. play_match (oska_search T P unif F S t) oska_playerToMove oska_ended s g = Some (w, mt, g')
    \<and> (oska_pos s, oska_pos (mt_state mt)) \<in> (move_rel (oska_legal S) (oska_nxt S))\<^sup>+
    \<and> w = oska_outcome S (o_agent_board (mt_state mt)) (opponent (o_player_to_move (mt_state mt))) \<and> w \<noteq> Invalid"
proof -
  have le: "S \<le> 8" using assms(5) by simp
  note S = sizes [OF assms(4) le]
  from oska_size.reach_inv [OF S assms(6)] have t: "tables_ok S t" and ex: "oska_exact S t k s" by auto
  then have inv: "oska_inv S s" "oska_wf S s" by (auto simp: oska_exact_def oska_inv_def)
  have legal: "oska_legal S (oska_pos s) \<noteq> []"
    using oska_size.inv_undecided(1) [OF S inv(1) assms(7)] inv(1) assms(7) by (simp add: oska_legal_def oska_pos_def oska_inv_def)
  have "ob_rows S - 3 \<le> 10" "0 \<le> ob_rows S - 3" using assms(4,5) by (simp_all add: ob_rows_def no_rows_def)
  then have "2 * S * (ob_rows S - 3) \<le> 14 * 10" using assms(4,5) by (intro mult_mono) simp_all
  then have r: "oska_rem S (oska_pos s) \<le> 180" using oska_size.togo_bound [OF S inv(2)] by (simp add: oska_rem_def oska_pos_def)
  from match_setup.play_match_ok [OF oska_size.oska_setup [OF S assms(1-3) t, where F = F and k = k] ex legal assms(8) r]
  show ?thesis by (fastforce simp: oska_ended_def oska_exact_def oska_inv_def split: if_splits)
qed

theorem oska_match_ends_witness:
  "\<exists>w mt g'. play_match (oska_env uniform_mod real_ops 3 tables3) oska_playerToMove oska_ended late (splitmix64 42 7) = Some (w, mt, g')
    \<and> (oska_pos late, oska_pos (mt_state mt)) \<in> (move_rel (oska_legal 3) (oska_nxt 3))\<^sup>+ \<and> w \<noteq> Invalid"
proof -
  note contracts = dg.search_tree_axioms [where da = "ArcData (oska_ops uniform_mod 3 tables3)" and dn = NodeData] dp.search_path_axioms um.uniform_dist_axioms
  from o3.reach_inv [OF late_reach(1)] have t: "tables_ok 3 tables3" and ex: "oska_exact 3 tables3 offset3 late" by auto
  then have inv: "oska_inv 3 late" "oska_wf 3 late" by (auto simp: oska_exact_def oska_inv_def)
  have legal: "oska_legal 3 (oska_pos late) \<noteq> []"
    using o3.inv_undecided(1) [OF inv(1) late_steps(3)] inv(1) late_steps(3) by (simp add: oska_legal_def oska_pos_def oska_inv_def)
  have r: "oska_rem 3 (oska_pos late) \<le> 180"
    using o3.togo_bound [OF inv(2)] by (simp add: oska_rem_def oska_pos_def ob_rows_def no_rows_def)
  note sub = match_setup.match_states_closed [OF o3.oska_setup [OF contracts t] ex legal late_inj r]
  from oska_match_ends [where F = real_ops and g = "splitmix64 42 7", OF contracts _ _ late_reach(1) late_steps(3) inj_on_subset [OF late_inj sub]]
  show ?thesis unfolding oska_env_def by auto
qed

end
