(* ===== verification/Oska_Front.thy ===== *)
theory Oska_Front
  imports Oska_Search
begin

text \<open>
  The moves the front end asks for: a random move of the player to move, and the move of the human between two hexagons.
\<close>

section \<open>Random moves\<close>

context oska_size
begin

lemma either_move_ok:
  assumes b: "pieces_ok S b" and p: "is_mover p" and h: "\<And>y. bat h y = bat b (persp S p y)"
    and x: "x \<in> set (cells S)" "bat b (persp S p x) = Some p"
  shows "\<exists>m. either_move heads h (loc x) = Some m
    \<and> (if stone_moves S b p x = [] then m = oska_move_invalid else m \<in> set (stone_moves S b p x) \<and> m \<noteq> oska_move_invalid)"
  using leftMove_ok [OF b p h x] stone_dir_valid [OF x(1), of b p]
  by (cases "stone_dir S b p 1 x"; cases "stone_dir S b p (-1) x") (auto simp: either_move_def stone_moves_def opt_list_def)

lemma random_move_loop_ok:
  assumes u: "uniform_dist unif" and t: "tables_ok S t" and b: "boards_ok S (o_agent_board s) (o_human_board s)" and p: "is_mover p"
  shows "set xs \<subseteq> own S (o_agent_board s) p \<Longrightarrow>
    \<exists>m g'. random_move_loop unif bern (ploc t p) (pboard p s) (map (cid S) xs) oska_move_invalid g = Some (m, g')
      \<and> (if \<exists>x \<in> set xs. stone_moves S (o_agent_board s) p (persp S p x) \<noteq> []
         then \<exists>x \<in> set xs. m \<in> set (stone_moves S (o_agent_board s) p (persp S p x)) else m = oska_move_invalid)"
proof (induction "length xs" arbitrary: xs g rule: less_induct)
  case less
  let ?b = "o_agent_board s" and ?f = "\<lambda>x. stone_moves S (o_agent_board s) p (persp S p x)"
  show ?case
  proof (cases "xs = []")
    case True
    then show ?thesis by (simp add: random_move_loop.simps [of unif bern _ _ "[]"])
  next
    case False
    obtain i g1 where i: "unif 0 (int (length (map (cid S) xs)) - 1) g = (i, g1)" by (cases "unif 0 (int (length (map (cid S) xs)) - 1) g")
    have ir: "0 \<le> i" "nat i < length xs" using uniform_dist.unif_index [OF u, of "int (length xs)" g] False i by auto
    obtain heads g2 where h: "bern g1 = (heads, g2)" by (cases "bern g1")
    let ?x = "xs ! nat i"
    have x: "?x \<in> set xs" "?x \<in> set (cells S)" "bat ?b ?x = Some p" using nth_mem [OF ir(2)] less.prems by (auto simp: own_def)
    have ids: "aref (map (cid S) xs) i = Some (cid S ?x)" using ir by (simp add: aref_def)
    have pb: "pieces_ok S ?b" using b by (simp add: boards_ok_def)
    from either_move_ok [OF pb p boards_ok_persp [OF b, of p], of "persp S p ?x" heads] x obtain m where
      m: "either_move heads (pboard p s) (loc (persp S p ?x)) = Some m"
      "if ?f ?x = [] then m = oska_move_invalid else m \<in> set (?f ?x) \<and> m \<noteq> oska_move_invalid" by auto
    note run = random_move_loop.simps [of unif bern "ploc t p" "pboard p s" "map (cid S) xs" oska_move_invalid g]
    show ?thesis
    proof (cases "?f ?x = []")
      case True
      let ?ys = "take (nat i) xs @ drop (nat i + 1) xs"
      have "length ?ys < length xs" "set ?ys \<subseteq> own S ?b p" using ir less.prems set_take_subset [of "nat i" xs] set_drop_subset [of "nat i + 1" xs] by auto
      from less.hyps [OF this, of g2] obtain m' g' where
        ih: "random_move_loop unif bern (ploc t p) (pboard p s) (map (cid S) ?ys) oska_move_invalid g2 = Some (m', g')"
        "if \<exists>x \<in> set ?ys. ?f x \<noteq> [] then \<exists>x \<in> set ?ys. m' \<in> set (?f x) else m' = oska_move_invalid" by blast
      have eq: "random_move_loop unif bern (ploc t p) (pboard p s) (map (cid S) xs) oska_move_invalid g = Some (m', g')"
        using run False i ids ploc_ok [OF t x(2), of p] h m True ih(1) by (simp add: take_map drop_map)
      have xs: "set xs = insert ?x (set ?ys)" by (subst id_take_nth_drop [OF ir(2)]) simp
      show ?thesis using eq ih(2) True unfolding xs by (auto split: if_splits)
    next
      case f: False
      have "random_move_loop unif bern (ploc t p) (pboard p s) (map (cid S) xs) oska_move_invalid g = Some (m, g2)"
        using run False i ids ploc_ok [OF t x(2), of p] h m f by simp
      with f m(2) x(1) show ?thesis by auto
    qed
  qed
qed

lemma randomMove_persp:
  "randomMove unif bern t s g =
    random_move_loop unif bern (ploc t (o_player_to_move s)) (pboard (o_player_to_move s) s) (pids (o_player_to_move s) s) oska_move_invalid g"
  by (simp add: randomMove_def ploc_def pboard_def pids_def)

lemma randomMove_ok:
  assumes u: "uniform_dist unif" and t: "tables_ok S t" and s: "oska_wf S s"
  defines "pm \<equiv> player_moves S (o_agent_board s) (o_player_to_move s)"
  shows "\<exists>m g'. randomMove unif bern t s g = Some (m, g') \<and> (if pm = [] then m = oska_move_invalid else m \<in> set pm)"
proof -
  let ?p = "o_player_to_move s"
  note p = oska_wfD(3) [OF s]
  from stones_of [OF oska_wfD(4) [OF s p]] obtain xs where xs: "pids ?p s = map (cid S) xs" "set xs = own S (o_agent_board s) ?p" by blast
  from random_move_loop_ok [OF u t oska_wfD(1) [OF s] p, of xs bern g] xs(2) obtain m g' where
    m: "random_move_loop unif bern (ploc t ?p) (pboard ?p s) (map (cid S) xs) oska_move_invalid g = Some (m, g')"
    "if \<exists>x \<in> set xs. stone_moves S (o_agent_board s) ?p (persp S ?p x) \<noteq> []
     then \<exists>x \<in> set xs. m \<in> set (stone_moves S (o_agent_board s) ?p (persp S ?p x)) else m = oska_move_invalid" by auto
  have "set pm = (\<Union>x \<in> set xs. set (stone_moves S (o_agent_board s) ?p (persp S ?p x)))"
    unfolding xs(2) by (auto simp: pm_def player_moves_def own_def)
  with m xs(1) show ?thesis by (intro exI [of _ m] exI [of _ g']) (auto simp: randomMove_persp split: if_splits)
qed

end

text \<open>C28: \<^verbatim>\<open>randomMove\<close> ends for every state of the generator; while the game is undecided it returns one of the moves on offer.\<close>

theorem oska_randomMove_legal:
  assumes "3 \<le> S" "S \<le> 8" "oska_reach hex key S t k s" "uniform_dist unif"
  shows "\<exists>m g' ms. randomMove unif bern t s g = Some (m, g')
    \<and> oska_moves t s (moves_new (nat (oska_max_no_moves S)) oska_move_invalid) = Some (o_winner s = Invalid, ms)
    \<and> (o_winner s = Invalid \<longrightarrow> m \<in> set (contents ms))"
proof -
  note S = sizes [OF assms(1,2)]
  from oska_size.reach_inv [OF S assms(3)] have t: "tables_ok S t" and i: "oska_inv S s" "oska_wf S s" by (auto simp: oska_exact_def oska_inv_def)
  let ?pm = "player_moves S (o_agent_board s) (o_player_to_move s)"
  have legal: "oska_legal S (oska_pos s) = (if o_winner s = Invalid then ?pm else [])" using i(1) by (simp add: oska_legal_def oska_pos_def oska_inv_def)
  have pm: "o_winner s = Invalid \<Longrightarrow> ?pm \<noteq> []" by (rule oska_size.inv_undecided(1) [OF S i(1)])
  from oska_size.oska_exact_moves [OF S t i(1)] obtain ms where
    ms: "oska_moves t s (moves_new (nat (oska_max_no_moves S)) oska_move_invalid) = Some (oska_legal S (oska_pos s) \<noteq> [], ms)"
    "oska_legal S (oska_pos s) \<noteq> [] \<longrightarrow> mset (contents ms) = mset (oska_legal S (oska_pos s))" by blast
  from oska_size.randomMove_ok [OF S assms(4) t i(2), of bern g] obtain m g' where
    m: "randomMove unif bern t s g = Some (m, g')" "if ?pm = [] then m = oska_move_invalid else m \<in> set ?pm" by blast
  have "m \<in> set (contents ms)" if "o_winner s = Invalid"
    using that ms(2) pm m(2) mset_eq_setD [of "contents ms" ?pm] by (simp add: legal)
  with m(1) ms(1) pm show ?thesis by (auto simp: legal)
qed

theorem oska_randomMove_legal_witness:
  "\<exists>m g'. randomMove uniform_mod (\<lambda>g. (True, g)) tables3 late (splitmix64 42 7) = Some (m, g')
    \<and> m = \<lparr>m_from = \<lparr>l_c = 3, l_r = 1\<rparr>, m_to = \<lparr>l_c = 5, l_r = 3\<rparr>\<rparr>"
proof -
  from oska_randomMove_legal [OF _ _ late_reach(1) um.uniform_dist_axioms, of "\<lambda>g. (True, g)" "splitmix64 42 7"] late_steps(3) obtain m g' ms where
    m: "randomMove uniform_mod (\<lambda>g. (True, g)) tables3 late (splitmix64 42 7) = Some (m, g')"
    "oska_moves tables3 late (moves_new (nat (oska_max_no_moves 3)) oska_move_invalid) = Some (True, ms)" "m \<in> set (contents ms)" by auto
  have "map_option (\<lambda>r. contents (snd r)) (oska_moves tables3 late (moves_new (nat (oska_max_no_moves 3)) oska_move_invalid))
      = Some [\<lparr>m_from = \<lparr>l_c = 3, l_r = 1\<rparr>, m_to = \<lparr>l_c = 5, l_r = 3\<rparr>\<rparr>]" by code_simp
  with m show ?thesis by simp
qed

section \<open>Moves of the human\<close>

lemma ofold_put:
  assumes "matrix_wf v" "\<And>x. x \<in> set xs \<Longrightarrow> matrix_in v (fst x) (snd x) \<and> ent (fst x) (snd x) \<noteq> None"
  shows "\<exists>v'. ofold (\<lambda>(c, r) v. do { e \<leftarrow> ent c r; matrix_put v c r e }) xs v = Some v'
    \<and> (\<forall>c r. matrix_at v' c r = (if (c, r) \<in> set xs then ent c r else matrix_at v c r))"
  using assms
proof (induction xs arbitrary: v)
  case (Cons x xs)
  obtain c r where x: "x = (c, r)" by (cases x)
  with Cons.prems(2) [of x] obtain e where e: "ent c r = Some e" "matrix_in v c r" by auto
  from matrix_put_defined [OF Cons.prems(1) e(2), of e] obtain v1 where v1: "matrix_put v c r e = Some v1" by blast
  note fr = matrix_put_frame [OF v1]
  from Cons.IH [of v1] Cons.prems fr(5,6) obtain v' where
    v': "ofold (\<lambda>(c, r) v. do { e \<leftarrow> ent c r; matrix_put v c r e }) xs v1 = Some v'"
    "\<forall>c r. matrix_at v' c r = (if (c, r) \<in> set xs then ent c r else matrix_at v1 c r)" by auto
  have "matrix_at v' c' r' = (if (c', r') \<in> set (x # xs) then ent c' r' else matrix_at v c' r')" for c' r'
    using v'(2) matrix_at_put [OF v1, of c' r'] e(1) x by auto
  with v'(1) v1 e(1) x show ?case by simp
qed simp

text \<open>What the table of admissible pairs says of two cells: they are one or two diagonal steps apart, in any direction.\<close>

definition diagonal :: "cell \<Rightarrow> cell \<Rightarrow> bool" where
  "diagonal x y \<longleftrightarrow> x \<noteq> y \<and> \<bar>snd y - snd x\<bar> \<le> 2 \<and> \<bar>fst y - fst x\<bar> = \<bar>snd y - snd x\<bar>"

context oska_size
begin

lemma validator_entry_ok:
  assumes t: "tables_ok S t" and x: "x \<in> set (cells S)" "y \<in> set (cells S)"
  shows "validator_entry t (cid S x) (cid S y) = Some (diagonal x y)"
proof -
  have l: "vector_at (t_id_to_location t) (cid S x) = Some (loc x)" "vector_at (t_id_to_location t) (cid S y) = Some (loc y)"
    using ploc_ok [OF t x(1), of Agent] ploc_ok [OF t x(2), of Agent] by (simp_all add: ploc_def)
  have "location_minus (loc y) (loc x) = loc (fst y - fst x, snd y - snd x)"
    using cells_bounds [OF x(1)] cells_bounds [OF x(2)] extents by (simp add: location_minus_def Location_def loc_def to_int8_id)
  with l cid_eq_iff [OF x] show ?thesis by (auto simp: validator_entry_def diagonal_def)
qed

lemma cid_range: "{0..no_hexagons S - 1} = cid S ` set (cells S)"
proof -
  have "i \<in> cid S ` set (cells S)" if "0 \<le> i" "i < no_hexagons S" for i
  proof -
    have "nat i < length (cells S)" using that length_cells by linarith
    with cid_nth [of "nat i"] that show ?thesis by (intro image_eqI [of _ _ "cells S ! nat i"]) auto
  qed
  moreover have "i \<in> {0..no_hexagons S - 1}" if "i \<in> cid S ` set (cells S)" for i using that cid by force
  ultimately show ?thesis by auto
qed

lemma validator_ok:
  assumes "tables_ok S t"
  shows "\<exists>v. buildMoveValidator S t = Some v \<and> (\<forall>x \<in> set (cells S). \<forall>y \<in> set (cells S). matrix_at v (cid S x) (cid S y) = Some (diagonal x y))"
proof -
  let ?n = "no_hexagons S" let ?v = "matrix_new ?n ?n 0 0 False"
  let ?xs = "concat (map (\<lambda>r. map (\<lambda>c. (c, r)) [0..?n - 1]) [0..?n - 1])"
  have set: "(c, r) \<in> set ?xs \<longleftrightarrow> c \<in> cid S ` set (cells S) \<and> r \<in> cid S ` set (cells S)" for c r
    by (auto simp: cid_range [symmetric] image_iff)
  have ent: "matrix_in ?v (fst q) (snd q) \<and> validator_entry t (fst q) (snd q) \<noteq> None" if q: "q \<in> set ?xs" for q
  proof -
    from q set [of "fst q" "snd q"] obtain x y where xy: "x \<in> set (cells S)" "y \<in> set (cells S)" "fst q = cid S x" "snd q = cid S y" by auto
    with cid [OF xy(1)] cid [OF xy(2)] validator_entry_ok [OF assms xy(1,2)] show ?thesis by (simp add: matrix_in_def matrix_new_def)
  qed
  from ofold_put [of ?v ?xs "validator_entry t", OF matrix_wf_new ent] obtain v where
    v: "buildMoveValidator S t = Some v" "\<forall>c r. matrix_at v c r = (if (c, r) \<in> set ?xs then validator_entry t c r else matrix_at ?v c r)"
    unfolding buildMoveValidator_def by blast
  have "matrix_at v (cid S x) (cid S y) = Some (diagonal x y)" if "x \<in> set (cells S)" "y \<in> set (cells S)" for x y
    using v(2) that set [of "cid S x" "cid S y"] validator_entry_ok [OF assms that] by simp
  with v(1) show ?thesis by blast
qed

lemma other_loc: "x \<in> set (cells S) \<Longrightarrow> other S (loc x) = loc (mirror S x)"
  using cells_bounds [of x] extents by (simp add: other_def location_minus_def Location_def loc_def to_int8_id)

text \<open>The move of the human between two cells, given in the agent's coordinates by their identifiers.\<close>

lemma humanMove_ok:
  assumes t: "tables_ok S t" and s: "oska_wf S s" and x: "x \<in> set (cells S)" "y \<in> set (cells S)" "x \<noteq> y"
  shows "humanMove S t s (cid S x) (cid S y) = Some
    (if diagonal x y \<and> bat (o_agent_board s) x = Some Human \<and> bat (o_agent_board s) y = Some Vacant
       \<and> (snd x - snd y = 2 \<longrightarrow> bat (o_agent_board s) ((fst x + fst y) div 2, snd x - 1) = Some Agent)
     then \<lparr>m_from = loc (mirror S x), m_to = loc (mirror S y)\<rparr> else oska_move_invalid)"
proof -
  let ?b = "o_agent_board s"
  from validator_ok [OF t] x obtain v where v: "buildMoveValidator S t = Some v" "matrix_at v (cid S x) (cid S y) = Some (diagonal x y)" by blast
  have ids: "cid S x \<noteq> cid S y" "0 \<le> cid S x" "cid S x < no_hexagons S" "0 \<le> cid S y" "cid S y < no_hexagons S"
    using cid_eq_iff [OF x(1,2)] x(3) cid [OF x(1)] cid [OF x(2)] by auto
  have l: "vector_at (t_id_to_location t) (cid S x) = Some (loc x)" "vector_at (t_id_to_location t) (cid S y) = Some (loc y)"
    using ploc_ok [OF t x(1), of Agent] ploc_ok [OF t x(2), of Agent] by (simp_all add: ploc_def)
  have at: "matrix_at (o_human_board s) c r = bat ?b (mirror S (c, r))" for c r
    using boards_ok_persp [OF oska_wfD(1) [OF s], of Human "(c, r)"] by (simp add: bat_def pboard_def persp_def)
  have some: "\<exists>q. bat ?b u = Some q" if "u \<in> set (cells S)" for u using pieces_at [OF oska_wfD(2) [OF s] cells_inb [OF that]] by blast
  have mid: "mirror S ((fst (mirror S x) + fst (mirror S y)) sdiv 2, (snd (mirror S x) + snd (mirror S y)) sdiv 2) = ((fst x + fst y) div 2, snd x - 1)"
    and mid_in: "inb S ((fst x + fst y) div 2, snd x - 1)"
    if "diagonal x y" "snd x - snd y = 2"
  proof -
    have d: "fst y = fst x + 2 \<or> fst y = fst x - 2" "snd y = snd x - 2" using that by (auto simp: diagonal_def)
    note bx = cells_bounds [OF x(1)] cells_bounds [OF x(2)]
    have "(fst (mirror S x) + fst (mirror S y)) sdiv 2 = ob_cols S - 1 - (fst x + fst y) div 2"
      "(snd (mirror S x) + snd (mirror S y)) sdiv 2 = ob_rows S - snd x"
      using d bx by (auto simp: signed_divide_int_def)
    then show "mirror S ((fst (mirror S x) + fst (mirror S y)) sdiv 2, (snd (mirror S x) + snd (mirror S y)) sdiv 2) = ((fst x + fst y) div 2, snd x - 1)"
      by (simp add: mirror_def)
    show "inb S ((fst x + fst y) div 2, snd x - 1)" using d bx by (auto simp: inb_def)
  qed
  have mid_some: "\<exists>q. bat ?b ((fst x + fst y) div 2, snd x - 1) = Some q" if "diagonal x y" "snd x - snd y = 2"
    using pieces_at [OF oska_wfD(2) [OF s] mid_in [OF that]] by blast
  from some [OF x(1)] some [OF x(2)] obtain qx qy where q: "bat ?b x = Some qx" "bat ?b y = Some qy" by blast
  define mx my where "mx = mirror S x" and "my = mirror S y"
  have o: "other S (loc x) = loc mx" "other S (loc y) = loc my" using other_loc x by (simp_all add: mx_def my_def)
  have h: "matrix_at (o_human_board s) (fst mx) (snd mx) = Some qx" "matrix_at (o_human_board s) (fst my) (snd my) = Some qy"
    using q by (simp_all add: at mx_def my_def del: mirror_simps(2,3))
  have r: "snd my - snd mx = 2 \<longleftrightarrow> snd x - snd y = 2" by (auto simp: mx_def my_def)
  have m: "\<exists>q. matrix_at (o_human_board s) ((fst mx + fst my) sdiv 2) ((snd mx + snd my) sdiv 2) = Some q \<and> bat ?b ((fst x + fst y) div 2, snd x - 1) = Some q"
    if "diagonal x y" "snd x - snd y = 2"
    using mid [OF that] mid_some [OF that] by (simp add: at mx_def my_def del: mirror_simps(2,3))
  have "humanMove S t s (cid S x) (cid S y) = Some
    (if diagonal x y \<and> qx = Human \<and> qy = Vacant \<and> (snd x - snd y = 2 \<longrightarrow> bat ?b ((fst x + fst y) div 2, snd x - 1) = Some Agent)
     then \<lparr>m_from = loc mx, m_to = loc my\<rparr> else oska_move_invalid)"
  proof (cases "diagonal x y \<and> snd x - snd y = 2")
    case True
    from m True obtain qm where "matrix_at (o_human_board s) ((fst mx + fst my) sdiv 2) ((snd mx + snd my) sdiv 2) = Some qm"
      "bat ?b ((fst x + fst y) div 2, snd x - 1) = Some qm" by blast
    with v ids l o h q r True show ?thesis by (simp add: humanMove_def Let_def)
  next
    case False
    with v ids l o h q r show ?thesis by (simp add: humanMove_def Let_def)
  qed
  then show ?thesis using q unfolding mx_def my_def by (simp only: option.inject)
qed

lemma humanMove_forward:
  assumes t: "tables_ok S t" and s: "oska_wf S s" and m: "humanMove S t s f i = Some m" "l_r (m_from m) < l_r (m_to m)"
  shows "m \<in> set (player_moves S (o_agent_board s) Human)"
proof -
  from validator_ok [OF t] obtain v where v: "buildMoveValidator S t = Some v" by blast
  have "f \<noteq> i" "f \<in> {0..no_hexagons S - 1}" "i \<in> {0..no_hexagons S - 1}"
    using m v by (auto simp: humanMove_def oska_move_none_def oska_move_invalid_def split: if_splits)
  then obtain x y where xy: "x \<in> set (cells S)" "y \<in> set (cells S)" "x \<noteq> y" "f = cid S x" "i = cid S y" unfolding cid_range by auto
  let ?b = "o_agent_board s"
  have g: "diagonal x y" "bat ?b x = Some Human" "bat ?b y = Some Vacant"
      "snd x - snd y = 2 \<longrightarrow> bat ?b ((fst x + fst y) div 2, snd x - 1) = Some Agent" "m = \<lparr>m_from = loc (mirror S x), m_to = loc (mirror S y)\<rparr>"
    using humanMove_ok [OF t s xy(1-3)] m by (auto simp: xy(4,5) oska_move_invalid_def split: if_splits)
  define d where "d = (if fst y < fst x then 1 else -1 :: int)"
  have r: "snd y < snd x" using g(5) m(2) by simp
  then consider "snd x - snd y = 1" "fst x - fst y = d" | "snd x - snd y = 2" "fst x - fst y = 2 * d"
    using g(1) unfolding diagonal_def d_def by (cases "snd x - snd y = 1"; cases "fst y < fst x") simp_all
  then have "stone_dir S ?b Human d (mirror S x) = Some m"
  proof cases
    case 1
    then have "(fst (mirror S x) + d, snd (mirror S x) + 1) = mirror S y" by (simp add: mirror_def)
    with g(3,5) show ?thesis by (simp add: stone_dir_def Let_def persp_def del: mirror_simps(2,3))
  next
    case 2
    have z: "(fst (mirror S x) + 2 * d, snd (mirror S x) + 2) = mirror S y" using 2 by (simp add: mirror_def)
    have "(fst x + fst y) div 2 = fst x - d" using 2 by simp
    then have "mirror S (fst (mirror S x) + d, snd (mirror S x) + 1) = ((fst x + fst y) div 2, snd x - 1)" by (simp add: mirror_def)
    with g(3,4,5) 2(1) z show ?thesis by (simp add: stone_dir_def Let_def persp_def del: mirror_simps(2,3))
  qed
  then have "m \<in> set (stone_moves S ?b Human (persp S Human x))" by (auto simp: stone_moves_def d_def persp_def split: if_splits)
  with xy(1) g(2) show ?thesis unfolding player_moves_def set_concat set_map set_filter by blast
qed

lemma humanMove_all:
  assumes t: "tables_ok S t" and s: "oska_wf S s" and m: "m \<in> set (player_moves S (o_agent_board s) Human)"
  shows "\<exists>f i. humanMove S t s f i = Some m"
proof -
  let ?b = "o_agent_board s"
  from m obtain x d where x: "x \<in> set (cells S)" "bat ?b x = Some Human" "stone_dir S ?b Human d (mirror S x) = Some m" "d = 1 \<or> d = -1"
    by (auto simp: player_moves_def stone_moves_def persp_def)
  let ?y = "(fst x - d, snd x - 1)" and ?z = "(fst x - 2 * d, snd x - 2)"
  have mir: "mirror S (fst (mirror S x) + d, snd (mirror S x) + 1) = ?y" "mirror S (fst (mirror S x) + 2 * d, snd (mirror S x) + 2) = ?z"
    by (simp_all add: mirror_def)
  have eqs: "(fst (mirror S x) + d, snd (mirror S x) + 1) = mirror S ?y" "(fst (mirror S x) + 2 * d, snd (mirror S x) + 2) = mirror S ?z"
    by (simp_all add: mirror_def)
  from x(3) consider "bat ?b ?y = Some Vacant" "m = \<lparr>m_from = loc (mirror S x), m_to = loc (mirror S ?y)\<rparr>"
    | "bat ?b ?y = Some Agent" "bat ?b ?z = Some Vacant" "m = \<lparr>m_from = loc (mirror S x), m_to = loc (mirror S ?z)\<rparr>"
    unfolding stone_dir_def eqs by (auto simp: Let_def persp_def split: if_splits)
  then show ?thesis
  proof cases
    case 1
    then have "?y \<in> set (cells S)" using pieces_in_cells [OF oska_wfD(2) [OF s]] by blast
    with humanMove_ok [OF t s x(1) this] 1 x(2,4) show ?thesis
      by (intro exI [of _ "cid S x"] exI [of _ "cid S ?y"]) (auto simp: diagonal_def prod_eq_iff)
  next
    case 2
    then have z: "?z \<in> set (cells S)" using pieces_in_cells [OF oska_wfD(2) [OF s]] by blast
    have "(fst x + fst ?z) div 2 = fst x - d" by simp
    with humanMove_ok [OF t s x(1) z] 2 x(2,4) show ?thesis
      by (intro exI [of _ "cid S x"] exI [of _ "cid S ?z"]) (auto simp: diagonal_def prod_eq_iff)
  qed
qed

text \<open>A move backward needs a stone of the human and a vacant cell one or two diagonal steps behind it, and nothing of the cell between them.\<close>

lemma humanMove_backward:
  assumes t: "tables_ok S t" and s: "oska_wf S s" and m: "l_r (m_to m) < l_r (m_from m)"
  shows "(\<exists>f i. humanMove S t s f i = Some m) \<longleftrightarrow>
    (\<exists>c r d j. (d = 1 \<or> d = -1) \<and> (j = 1 \<or> j = 2) \<and> matrix_at (o_human_board s) c r = Some Human
      \<and> matrix_at (o_human_board s) (c + j * d) (r - j) = Some Vacant \<and> m = \<lparr>m_from = \<lparr>l_c = c, l_r = r\<rparr>, m_to = \<lparr>l_c = c + j * d, l_r = r - j\<rparr>\<rparr>)"
    (is "?L \<longleftrightarrow> ?R")
proof
  let ?b = "o_agent_board s"
  have at: "matrix_at (o_human_board s) c r = bat ?b (mirror S (c, r))" for c r
    using boards_ok_persp [OF oska_wfD(1) [OF s], of Human "(c, r)"] by (simp add: bat_def pboard_def persp_def)
  have wf: "pieces_ok S ?b" by (rule oska_wfD(2) [OF s])
  show ?R if ?L
  proof -
    from that obtain f i where fi: "humanMove S t s f i = Some m" by blast
    from validator_ok [OF t] obtain v where v: "buildMoveValidator S t = Some v" by blast
    have "f \<noteq> i" "f \<in> {0..no_hexagons S - 1}" "i \<in> {0..no_hexagons S - 1}"
      using fi m v by (auto simp: humanMove_def oska_move_none_def oska_move_invalid_def split: if_splits)
    then obtain x y where xy: "x \<in> set (cells S)" "y \<in> set (cells S)" "x \<noteq> y" "f = cid S x" "i = cid S y" unfolding cid_range by auto
    have g: "diagonal x y" "bat ?b x = Some Human" "bat ?b y = Some Vacant" "m = \<lparr>m_from = loc (mirror S x), m_to = loc (mirror S y)\<rparr>"
      using humanMove_ok [OF t s xy(1-3)] fi m by (auto simp: xy(4,5) oska_move_invalid_def split: if_splits)
    define d j where "d = (if fst y < fst x then 1 else -1 :: int)" and "j = snd y - snd x"
    have j: "0 < j" using g(4) m by (simp add: j_def)
    have dj: "d = 1 \<or> d = -1" "j = 1 \<or> j = 2" "fst y = fst x - j * d" "snd y = snd x + j"
      using g(1) j by (auto simp: diagonal_def d_def j_def)
    have my: "mirror S y = (fst (mirror S x) + j * d, snd (mirror S x) - j)" using dj(3,4) by (simp add: mirror_def)
    have "matrix_at (o_human_board s) (fst (mirror S x)) (snd (mirror S x)) = Some Human"
      "matrix_at (o_human_board s) (fst (mirror S x) + j * d) (snd (mirror S x) - j) = Some Vacant"
      using g(2,3) by (simp_all add: at my [symmetric] del: mirror_simps(2,3))
    with dj(1,2) g(4) show ?R
      by (intro exI [of _ "fst (mirror S x)"] exI [of _ "snd (mirror S x)"] exI [of _ d] exI [of _ j]) (simp add: loc_def my del: mirror_simps(2,3))
  qed
  show ?L if ?R
  proof -
    from that obtain c r d j where h: "d = 1 \<or> d = -1" "j = 1 \<or> j = 2" "bat ?b (mirror S (c, r)) = Some Human"
      "bat ?b (mirror S (c + j * d, r - j)) = Some Vacant" "m = \<lparr>m_from = \<lparr>l_c = c, l_r = r\<rparr>, m_to = \<lparr>l_c = c + j * d, l_r = r - j\<rparr>\<rparr>"
      unfolding at by blast
    let ?x = "mirror S (c, r)" and ?y = "mirror S (c + j * d, r - j)"
    have c: "?x \<in> set (cells S)" "?y \<in> set (cells S)" using pieces_in_cells [OF wf h(3)] pieces_in_cells [OF wf h(4)] by simp_all
    have d: "diagonal ?x ?y" "?x \<noteq> ?y" "snd ?x - snd ?y \<noteq> 2" using h(1,2) by (elim disjE; simp add: diagonal_def mirror_def)+
    have "humanMove S t s (cid S ?x) (cid S ?y) = Some \<lparr>m_from = loc (mirror S ?x), m_to = loc (mirror S ?y)\<rparr>"
      unfolding humanMove_ok [OF t s c d(2)] using d(1,3) h(3,4) by (simp del: mirror_simps(1-3))
    then show ?L unfolding h(5) mirror_simps(1) loc_def fst_conv snd_conv by blast
  qed
qed

end

lemma player_moves_rows:
  assumes "m \<in> set (player_moves S b p)"
  shows "l_r (m_from m) < l_r (m_to m)"
  using assms by (auto simp: player_moves_def stone_moves_def stone_dir_def Let_def split: if_splits)

text \<open>C29: Every move of the rules can be entered by the human as a pair of hexagons, and every move that \<^verbatim>\<open>humanMove\<close> returns that goes
  forward is a move of the rules.\<close>

theorem oska_humanMove_rules:
  assumes "3 \<le> S" "S \<le> 8" "oska_reach hex key S t k s"
  shows "(\<forall>m \<in> set (player_moves S (o_agent_board s) Human). \<exists>f i. humanMove S t s f i = Some m)
    \<and> (\<forall>f i m. humanMove S t s f i = Some m \<and> l_r (m_from m) < l_r (m_to m) \<longrightarrow> m \<in> set (player_moves S (o_agent_board s) Human))"
proof -
  note S = sizes [OF assms(1,2)]
  from oska_size.reach_inv [OF S assms(3)] have t: "tables_ok S t" and wf: "oska_wf S s" by (auto simp: oska_exact_def oska_inv_def)
  show ?thesis using oska_size.humanMove_all [OF S t wf] oska_size.humanMove_forward [OF S t wf] by blast
qed

theorem oska_humanMove_rules_witness:
  "humanMove 3 tables3 late1 5 1 = Some \<lparr>m_from = \<lparr>l_c = 5, l_r = 1\<rparr>, m_to = \<lparr>l_c = 3, l_r = 3\<rparr>\<rparr>
    \<and> \<lparr>m_from = \<lparr>l_c = 5, l_r = 1\<rparr>, m_to = \<lparr>l_c = 3, l_r = 3\<rparr>\<rparr> \<in> set (player_moves 3 (o_agent_board late1) Human)"
proof -
  have "humanMove 3 tables3 late1 5 1 = Some \<lparr>m_from = \<lparr>l_c = 5, l_r = 1\<rparr>, m_to = \<lparr>l_c = 3, l_r = 3\<rparr>\<rparr>" by code_simp
  with oska_humanMove_rules [OF _ _ late_reach(2)] show ?thesis by simp
qed

text \<open>C30: The table of admissible pairs compares absolute differences, so that \<^verbatim>\<open>humanMove\<close> also returns moves backward, which the rules do
  not have. In every state of a game the backward moves it returns are exactly these: a stone of the human goes one or two diagonal steps back
  onto a vacant cell, whatever stands on the cell between; none of them is a move of the rules.\<close>

theorem oska_humanMove_backward:
  assumes "3 \<le> S" "S \<le> 8" "oska_reach hex key S t k s" "l_r (m_to m) < l_r (m_from m)"
  shows "((\<exists>f i. humanMove S t s f i = Some m) \<longleftrightarrow>
      (\<exists>c r d j. (d = 1 \<or> d = -1) \<and> (j = 1 \<or> j = 2) \<and> matrix_at (o_human_board s) c r = Some Human
        \<and> matrix_at (o_human_board s) (c + j * d) (r - j) = Some Vacant
        \<and> m = \<lparr>m_from = \<lparr>l_c = c, l_r = r\<rparr>, m_to = \<lparr>l_c = c + j * d, l_r = r - j\<rparr>\<rparr>))
    \<and> m \<notin> set (player_moves S (o_agent_board s) Human)"
proof -
  note S = sizes [OF assms(1,2)]
  from oska_size.reach_inv [OF S assms(3)] have t: "tables_ok S t" and wf: "oska_wf S s" by (auto simp: oska_exact_def oska_inv_def)
  have "m \<notin> set (player_moves S (o_agent_board s) Human)" using player_moves_rows assms(4) by (meson less_asym)
  with oska_size.humanMove_backward [OF S t wf assms(4)] show ?thesis by (intro conjI)
qed

theorem oska_humanMove_backward_witness:
  "\<exists>f i. humanMove 3 tables3 late f i = Some \<lparr>m_from = \<lparr>l_c = 2, l_r = 2\<rparr>, m_to = \<lparr>l_c = 1, l_r = 1\<rparr>\<rparr>"
proof -
  let ?m = "\<lparr>m_from = \<lparr>l_c = 2, l_r = 2\<rparr>, m_to = \<lparr>l_c = 1, l_r = 1\<rparr>\<rparr>"
  have at: "matrix_at (o_human_board late) 2 2 = Some Human" "matrix_at (o_human_board late) (2 + 1 * -1) (2 - 1) = Some Vacant" by code_simp+
  have b: "3 \<le> (3 :: int)" "3 \<le> (8 :: int)" "l_r (m_to ?m) < l_r (m_from ?m)" by simp_all
  note iff = conjunct1 [OF oska_humanMove_backward [OF b(1,2) late_reach(1) b(3)]]
  show ?thesis unfolding iff by (intro exI [of _ 2] exI [of _ "-1"] exI [of _ 1] conjI at) simp_all
qed

end
