(* ===== verification/Pool_Allocator.thy ===== *)
theory Pool_Allocator
  imports Mcts_Prelude
begin

text \<open>
  The memory pool of pool_allocator.hpp and pool_allocator.inl. The memory is explicit: the regions the operating system has mapped,
  and the slots in them. A slot is the union of the source, an element or a pointer to the next slot; reading a member
  that is not the active one, or outside of the mapped regions, fails. The functions of the operating system are \<^verbatim>\<open>VirtualAlloc\<close>, a
  parameter, and \<^verbatim>\<open>VirtualFree\<close>; \<^verbatim>\<open>ska_sort\<close> of the library ska_sort.hpp is a parameter too.
\<close>

section \<open>The template parameters\<close>

text \<open>What the code asks of the type \<^verbatim>\<open>T\<close>, and the three numbers.\<close>

record pool_type =
  pt_sizeof :: u64
  pt_alignof :: u64
  pt_trivial :: bool
  pt_chunk_count :: u64
  pt_page_size :: u64
  pt_min_alloc :: u64

definition sizeof_pointer :: u64 where
  "sizeof_pointer = 8"

text \<open>The union of a \<^verbatim>\<open>T\<close> and a pointer: its alignment is the larger one, its size the larger one, rounded up.\<close>

definition alignof_slot :: "pool_type \<Rightarrow> u64" where
  "alignof_slot P = max (pt_alignof P) 8"

definition sizeof_slot :: "pool_type \<Rightarrow> u64" where
  "sizeof_slot P = (max (pt_sizeof P) sizeof_pointer + (alignof_slot P - 1)) div alignof_slot P * alignof_slot P"

section \<open>The memory\<close>

datatype 'a slot = Element 'a | Next u64

record 'a memory =
  mem_regions :: "(u64 \<times> u64) list"
  mem_slots :: "u64 \<Rightarrow> 'a slot option"
  mem_allocs :: nat
  mem_dtors :: "u64 list"

text \<open>The address and the size of the mapped regions; the slots; the number of calls of \<^verbatim>\<open>VirtualAlloc\<close> so far, so that what it returns can be any
  function of its past; and the addresses on which a destructor of \<^verbatim>\<open>T\<close> has run, which is all the pool lets one see of them.\<close>

type_synonym valloc = "nat \<Rightarrow> (u64 \<times> u64) list \<Rightarrow> u64 \<Rightarrow> u64"

definition in_region :: "u64 \<times> u64 \<Rightarrow> u64 \<Rightarrow> nat \<Rightarrow> bool" where
  "in_region r p n \<longleftrightarrow> fst r \<le> p \<and> unat p + n \<le> unat (fst r) + unat (snd r)"

definition mapped :: "'a memory \<Rightarrow> u64 \<Rightarrow> nat \<Rightarrow> bool" where
  "mapped mem p n = list_ex (\<lambda>r. in_region r p n) (mem_regions mem)"

definition read_next :: "'a memory \<Rightarrow> u64 \<Rightarrow> u64 option" where
  "read_next mem p =
    (if mapped mem p 8 then (case mem_slots mem p of Some (Next q) \<Rightarrow> Some q | _ \<Rightarrow> None) else None)"

definition write_next :: "'a memory \<Rightarrow> u64 \<Rightarrow> u64 \<Rightarrow> 'a memory option" where
  "write_next mem p q =
    (if mapped mem p 8 then Some (mem\<lparr>mem_slots := (mem_slots mem)(p \<mapsto> Next q)\<rparr>) else None)"

definition virtual_alloc :: "valloc \<Rightarrow> u64 \<Rightarrow> 'a memory \<Rightarrow> u64 \<times> 'a memory" where
  "virtual_alloc va n mem =
    (let p = va (mem_allocs mem) (mem_regions mem) n;
         mem = mem\<lparr>mem_allocs := mem_allocs mem + 1\<rparr> in
     if p = 0 then (0, mem)
     else (p, mem\<lparr>mem_regions := (p, n) # mem_regions mem,
                 mem_slots := (\<lambda>q. if in_region (p, n) q 1 then None else mem_slots mem q)\<rparr>))"

text \<open>\<^verbatim>\<open>VirtualFree\<close> releases the region that starts at this address; it fails, and the code does not look at its answer, when there is none.\<close>

definition virtual_free :: "u64 \<Rightarrow> 'a memory \<Rightarrow> 'a memory" where
  "virtual_free b mem =
    (if b \<in> fst ` set (mem_regions mem) then
       mem\<lparr>mem_regions := filter (\<lambda>r. fst r \<noteq> b) (mem_regions mem),
           mem_slots := (\<lambda>q. if \<exists>r\<in>set (mem_regions mem). fst r = b \<and> in_region r q 1 then None else mem_slots mem q)\<rparr>
     else mem)"

section \<open>Sizes\<close>

definition chunk_count :: "pool_type \<Rightarrow> u64" where
  "chunk_count P = pt_chunk_count P"

definition chunk_size :: "pool_type \<Rightarrow> u64" where
  "chunk_size P = pt_chunk_count P * pt_sizeof P"

definition minimum_required_block_size :: "pool_type \<Rightarrow> u64" where
  "minimum_required_block_size P = sizeof_pointer + pt_min_alloc P * chunk_size P + pt_alignof P"

partial_function (option) block_size_loop :: "u64 \<Rightarrow> u64 \<Rightarrow> u64 \<Rightarrow> u64 option" where
  "block_size_loop pageSize required bs =
    (if bs < required then block_size_loop pageSize required (bs + pageSize) else Some bs)"

declare block_size_loop.simps [code]

definition block_size :: "pool_type \<Rightarrow> u64 option" where
  "block_size P = block_size_loop (pt_page_size P) (minimum_required_block_size P) (pt_page_size P)"

definition no_chunks :: "pool_type \<Rightarrow> u64 option" where
  "no_chunks P = do {
     bs \<leftarrow> block_size P;
     Some ((bs - sizeof_pointer - pt_alignof P) div chunk_size P) }"

definition max_size :: "pool_type \<Rightarrow> u64 option" where
  "max_size P = do {
     bs \<leftarrow> block_size P;
     let max_blocks = - 1 div bs;
     Some (bs * max_blocks) }"

definition pad_pointer :: "u64 \<Rightarrow> u64 \<Rightarrow> u64" where
  "pad_pointer p align = (align - p) mod align"

definition first_slot :: "pool_type \<Rightarrow> u64 \<Rightarrow> u64" where
  "first_slot P block =
    (let body = block + sizeof_pointer in body + pad_pointer body (alignof_slot P))"

definition last_slot :: "pool_type \<Rightarrow> u64 \<Rightarrow> u64" where
  "last_slot P block =
    (let body = block + sizeof_pointer in body + pad_pointer body (alignof_slot P) + chunk_size P)"

section \<open>The pool\<close>

record pool =
  m_current_block :: u64
  m_current_slot :: u64
  m_last_slot :: u64
  m_free_slots :: u64

definition pool_new :: pool where
  "pool_new = \<lparr>m_current_block = 0, m_current_slot = 0, m_last_slot = 0, m_free_slots = 0\<rparr>"

text \<open>The copy constructor, and the constructor from a pool of another type (\<open>pool_rebind\<close>), make an empty pool; the move constructor copies the pointers
  and leaves its argument as it is. The result is the new pool.\<close>

definition pool_copy :: "pool \<Rightarrow> pool" where
  "pool_copy s = pool_new"

definition pool_rebind :: "pool \<Rightarrow> pool" where
  "pool_rebind s = pool_new"

definition pool_move :: "pool \<Rightarrow> pool" where
  "pool_move s = \<lparr>m_current_block = m_current_block s, m_current_slot = m_current_slot s, m_last_slot = m_last_slot s, m_free_slots = m_free_slots s\<rparr>"

definition allocate_block :: "pool_type \<Rightarrow> valloc \<Rightarrow> pool \<times> 'a memory \<Rightarrow> (pool \<times> 'a memory) option" where
  "allocate_block P va = (\<lambda>(s, mem). do {
     bs \<leftarrow> block_size P;
     let (new_block, mem) = virtual_alloc va bs mem;
     mem \<leftarrow> write_next mem new_block (m_current_block s);
     let s = s\<lparr>m_current_block := new_block\<rparr>;
     let body = new_block + sizeof_pointer;
     let s = s\<lparr>m_current_slot := body + pad_pointer body (alignof_slot P)\<rparr>;
     let s = s\<lparr>m_last_slot := m_current_slot s + chunk_size P\<rparr>;
     Some (s, mem) })"

definition allocate :: "pool_type \<Rightarrow> valloc \<Rightarrow> pool \<times> 'a memory \<Rightarrow> (u64 \<times> pool \<times> 'a memory) option" where
  "allocate P va = (\<lambda>(s, mem).
    if m_free_slots s \<noteq> 0 then do {
      let result = m_free_slots s;
      q \<leftarrow> read_next mem (m_free_slots s);
      Some (result, s\<lparr>m_free_slots := q\<rparr>, mem) }
    else do {
      (s, mem) \<leftarrow> (if m_current_slot s \<ge> m_last_slot s then allocate_block P va (s, mem) else Some (s, mem));
      let result = m_current_slot s;
      Some (result, s\<lparr>m_current_slot := m_current_slot s + chunk_count P * sizeof_slot P\<rparr>, mem) })"

definition deallocate :: "u64 \<Rightarrow> pool \<times> 'a memory \<Rightarrow> (pool \<times> 'a memory) option" where
  "deallocate p = (\<lambda>(s, mem).
    if p \<noteq> 0 then do {
      mem \<leftarrow> write_next mem p (m_free_slots s);
      Some (s\<lparr>m_free_slots := p\<rparr>, mem) }
    else Some (s, mem))"

text \<open>The chains of pointers, walked to the null pointer.\<close>

partial_function (option) memory_size_loop :: "u64 \<Rightarrow> 'a memory \<Rightarrow> u64 \<Rightarrow> u64 \<Rightarrow> u64 option" where
  "memory_size_loop bs mem sp ms =
    (if sp \<noteq> 0 then do { sp' \<leftarrow> read_next mem sp; memory_size_loop bs mem sp' (ms + bs) } else Some ms)"

definition memory_size :: "pool_type \<Rightarrow> pool \<times> 'a memory \<Rightarrow> u64 option" where
  "memory_size P = (\<lambda>(s, mem). do { bs \<leftarrow> block_size P; memory_size_loop bs mem (m_current_block s) 0 })"

partial_function (option) pointer_vector_loop :: "'a memory \<Rightarrow> u64 \<Rightarrow> u64 list \<Rightarrow> u64 list option" where
  "pointer_vector_loop mem sp v =
    (if sp \<noteq> 0 then do { sp' \<leftarrow> read_next mem sp; pointer_vector_loop mem sp' (v @ [sp]) } else Some v)"

declare memory_size_loop.simps [code] pointer_vector_loop.simps [code]

definition pointer_vector :: "'a memory \<Rightarrow> u64 \<Rightarrow> u64 list option" where
  "pointer_vector mem sp = pointer_vector_loop mem sp []"

definition block_vector :: "pool \<times> 'a memory \<Rightarrow> u64 list option" where
  "block_vector = (\<lambda>(s, mem). pointer_vector mem (m_current_block s))"

section \<open>The nodes: chunks of one element\<close>

text \<open>A constructor makes the element the active member of the slot; a destructor ends its life. Running a destructor on a slot that holds no element
  is a failure.\<close>

definition construct :: "pool_type \<Rightarrow> u64 \<Rightarrow> 'a \<Rightarrow> 'a memory \<Rightarrow> 'a memory option" where
  "construct P p v mem = (if mapped mem p (unat (pt_sizeof P)) then Some (mem\<lparr>mem_slots := (mem_slots mem)(p \<mapsto> Element v)\<rparr>) else None)"

definition destruct :: "pool_type \<Rightarrow> u64 \<Rightarrow> 'a memory \<Rightarrow> 'a memory option" where
  "destruct P p mem =
    (case mem_slots mem p of
       Some (Element v) \<Rightarrow> if mapped mem p (unat (pt_sizeof P)) then Some (mem\<lparr>mem_slots := (mem_slots mem)(p := None), mem_dtors := mem_dtors mem @ [p]\<rparr>) else None
     | _ \<Rightarrow> None)"

definition pool_destroy_element :: "pool_type \<Rightarrow> u64 \<Rightarrow> 'a memory \<Rightarrow> 'a memory option" where
  "pool_destroy_element P p mem = (if \<not> pt_trivial P then destruct P p mem else Some mem)"

definition new_element :: "pool_type \<Rightarrow> valloc \<Rightarrow> 'a \<Rightarrow> pool \<times> 'a memory \<Rightarrow> (u64 \<times> pool \<times> 'a memory) option" where
  "new_element P va v sm = do {
     (result, s, mem) \<leftarrow> allocate P va sm;
     mem \<leftarrow> construct P result v mem;
     Some (result, s, mem) }"

definition delete_element :: "pool_type \<Rightarrow> u64 \<Rightarrow> pool \<times> 'a memory \<Rightarrow> (pool \<times> 'a memory) option" where
  "delete_element P p = (\<lambda>(s, mem).
    if p \<noteq> 0 then do {
      mem \<leftarrow> (if \<not> pt_trivial P then destruct P p mem else Some mem);
      deallocate p (s, mem) }
    else Some (s, mem))"

section \<open>The destructor\<close>

text \<open>\<^verbatim>\<open>*std::lower_bound (...)\<close>: the first element that is not less; there is nothing to read at the end.\<close>

fun lower_bound :: "u64 list \<Rightarrow> u64 \<Rightarrow> u64 option" where
  "lower_bound [] p = None"
| "lower_bound (q # qs) p = (if q < p then lower_bound qs p else Some q)"

partial_function (option) destruct_all_loop :: "pool_type \<Rightarrow> u64 \<Rightarrow> u64 \<Rightarrow> 'a memory \<Rightarrow> 'a memory option" where
  "destruct_all_loop P lastp ptr mem =
    (if ptr < lastp then do { mem \<leftarrow> destruct P ptr mem; destruct_all_loop P lastp (ptr + sizeof_slot P) mem }
     else Some mem)"

partial_function (option) destruct_used_loop :: "pool_type \<Rightarrow> u64 list \<Rightarrow> u64 \<Rightarrow> u64 \<Rightarrow> 'a memory \<Rightarrow> 'a memory option" where
  "destruct_used_loop P fs lastp ptr mem =
    (if ptr < lastp then do {
       q \<leftarrow> lower_bound fs ptr;
       mem \<leftarrow> (if ptr \<noteq> q then destruct P ptr mem else Some mem);
       destruct_used_loop P fs lastp (ptr + sizeof_slot P) mem }
     else Some mem)"

partial_function (option) blocks_loop :: "pool_type \<Rightarrow> u64 list \<Rightarrow> u64 \<Rightarrow> u64 \<Rightarrow> 'a memory \<Rightarrow> 'a memory option" where
  "blocks_loop P fs cur lastp mem =
    (if cur \<noteq> 0 then do {
       prev \<leftarrow> read_next mem cur;
       let ptr = first_slot P cur;
       mem \<leftarrow> (if fs = [] then destruct_all_loop P lastp ptr mem else destruct_used_loop P fs lastp ptr mem);
       let mem = virtual_free cur mem;
       blocks_loop P fs prev (last_slot P prev) mem }
     else Some mem)"

partial_function (option) free_blocks_loop :: "u64 \<Rightarrow> 'a memory \<Rightarrow> 'a memory option" where
  "free_blocks_loop cur mem =
    (if cur \<noteq> 0 then do {
       prev \<leftarrow> read_next mem cur;
       free_blocks_loop prev (virtual_free cur mem) }
     else Some mem)"

declare destruct_all_loop.simps [code] destruct_used_loop.simps [code] blocks_loop.simps [code] free_blocks_loop.simps [code]

definition pool_destroy ::
  "pool_type \<Rightarrow> (u64 list \<Rightarrow> u64 list) \<Rightarrow> pool \<times> 'a memory \<Rightarrow> (pool \<times> 'a memory) option"
where
  "pool_destroy P ska_sort = (\<lambda>(s, mem). do {
     mem \<leftarrow>
       (if \<not> pt_trivial P then
          (if pt_chunk_count P = 1 then do {
             free_vector \<leftarrow> pointer_vector mem (m_free_slots s);
             let sorted_free_vector = (if free_vector = [] then free_vector else ska_sort free_vector);
             blocks_loop P sorted_free_vector (m_current_block s) (m_current_slot s) mem }
           else Some mem)
        else free_blocks_loop (m_current_block s) mem);
     Some (pool_new, mem) })"

end
