(* ===== verification/Node_Memory.thy ===== *)
theory Node_Memory
  imports Mcts Pool_Allocator
begin

text \<open>
  The data of the nodes of the search (mcts.hpp, \<^verbatim>\<open>NodeData\<close>) with its memory: the untried moves are an array in the pool \<^verbatim>\<open>m_moves_pool\<close>, and a node holds a pointer to
  it. The constructors, the assignments, the destructor and \<^verbatim>\<open>getUntriedMove\<close> make, copy, hand over and delete the arrays. \<open>Mcts\<close> has the same operations on values.
\<close>

section \<open>Elements of the pool\<close>

text \<open>Reading and changing an element through a pointer; both fail when no element lives there.\<close>

definition read_element :: "pool_type \<Rightarrow> u64 \<Rightarrow> pool \<times> 'v memory \<Rightarrow> 'v option" where
  "read_element P p sm =
    (if mapped (snd sm) p (unat (pt_sizeof P)) then (case mem_slots (snd sm) p of Some (Element v) \<Rightarrow> Some v | _ \<Rightarrow> None) else None)"

definition write_element :: "pool_type \<Rightarrow> u64 \<Rightarrow> 'v \<Rightarrow> pool \<times> 'v memory \<Rightarrow> (pool \<times> 'v memory) option" where
  "write_element P p v sm = do {
     old \<leftarrow> read_element P p sm;
     mem \<leftarrow> construct P p v (snd sm);
     Some (fst sm, mem) }"

section \<open>Nodes\<close>

record node_mem =
  nm_moves :: u64
  nm_score :: int
  nm_visits :: int
  nm_player :: player

type_synonym 'm moves_pool = "pool \<times> 'm moves memory"

definition nm_default :: node_mem where
  "nm_default = \<lparr>nm_moves = 0, nm_score = 0, nm_visits = 0, nm_player = Invalid\<rparr>"

definition nm_of_state :: "pool_type \<Rightarrow> valloc \<Rightarrow> ('s, 'm) game_ops \<Rightarrow> 's \<Rightarrow> 'm moves_pool \<Rightarrow> (node_mem \<times> 'm moves_pool) option" where
  "nm_of_state P va G s sm = do {
     (p, sm) \<leftarrow> new_element P va (g_new_moves G) sm;
     let nd = nm_default\<lparr>nm_moves := p\<rparr>;
     ms \<leftarrow> read_element P (nm_moves nd) sm;
     (b, ms) \<leftarrow> g_moves G s ms;
     sm \<leftarrow> write_element P (nm_moves nd) ms sm;
     (nd, sm) \<leftarrow> (if \<not> b then do {
         sm \<leftarrow> delete_element P (nm_moves nd) sm;
         Some (nd\<lparr>nm_moves := 0\<rparr>, sm) }
       else Some (nd, sm));
     Some (nd\<lparr>nm_player := g_playerJustMoved G s\<rparr>, sm) }"

definition nm_copy :: "pool_type \<Rightarrow> valloc \<Rightarrow> node_mem \<Rightarrow> 'm moves_pool \<Rightarrow> (node_mem \<times> 'm moves_pool) option" where
  "nm_copy P va nd sm = do {
     (p, sm) \<leftarrow> (if nm_moves nd \<noteq> 0 then do { ms \<leftarrow> read_element P (nm_moves nd) sm; new_element P va ms sm } else Some (0, sm));
     Some (\<lparr>nm_moves = p, nm_score = nm_score nd, nm_visits = nm_visits nd, nm_player = nm_player nd\<rparr>, sm) }"

text \<open>The new node and its source, which is left with the null pointer of the new one.\<close>

definition nm_move :: "node_mem \<Rightarrow> node_mem \<times> node_mem" where
  "nm_move nd =
    (\<lparr>nm_moves = nm_moves nd, nm_score = nm_score nd, nm_visits = nm_visits nd, nm_player = nm_player nd\<rparr>, nd\<lparr>nm_moves := 0\<rparr>)"

definition nm_destroy :: "pool_type \<Rightarrow> node_mem \<Rightarrow> 'm moves_pool \<Rightarrow> 'm moves_pool option" where
  "nm_destroy P nd sm = delete_element P (nm_moves nd) sm"

definition nm_getUntriedMove ::
  "pool_type \<Rightarrow> uniform_int \<Rightarrow> node_mem \<Rightarrow> 'm moves_pool \<Rightarrow> splitmix \<Rightarrow> ('m \<times> node_mem \<times> 'm moves_pool \<times> splitmix) option"
where
  "nm_getUntriedMove P unif nd sm g = do {
     ms \<leftarrow> read_element P (nm_moves nd) sm;
     if 1 = m_size ms then do {
       mv \<leftarrow> front ms;
       sm \<leftarrow> delete_element P (nm_moves nd) sm;
       Some (mv, nd\<lparr>nm_moves := 0\<rparr>, sm, g) }
     else do {
       (mv, ms, g) \<leftarrow> draw unif ms g;
       sm \<leftarrow> write_element P (nm_moves nd) ms sm;
       Some (mv, nd, sm, g) } }"

definition nm_plus :: "node_mem \<Rightarrow> node_mem \<Rightarrow> node_mem" where
  "nm_plus nd rhs = nd\<lparr>nm_score := float_add (nm_score nd) (nm_score rhs), nm_visits := to_int32 (nm_visits nd + nm_visits rhs)\<rparr>"

text \<open>The copy assignment overwrites the pointer of its target without deleting what it points to.\<close>

definition nm_assign_copy ::
  "pool_type \<Rightarrow> valloc \<Rightarrow> node_mem \<Rightarrow> node_mem \<Rightarrow> 'm moves_pool \<Rightarrow> (node_mem \<times> 'm moves_pool) option"
where
  "nm_assign_copy P va nd rhs sm = do {
     (nd, sm) \<leftarrow> (if nm_moves rhs \<noteq> 0 then do {
         ms \<leftarrow> read_element P (nm_moves rhs) sm;
         (p, sm) \<leftarrow> new_element P va ms sm;
         Some (nd\<lparr>nm_moves := p\<rparr>, sm) }
       else Some (nd, sm));
     Some (nd\<lparr>nm_score := nm_score rhs, nm_visits := nm_visits rhs, nm_player := nm_player rhs\<rparr>, sm) }"

definition nm_assign_move :: "node_mem \<Rightarrow> node_mem \<Rightarrow> node_mem \<times> node_mem" where
  "nm_assign_move nd rhs =
    (nd\<lparr>nm_moves := nm_moves rhs, nm_score := nm_score rhs, nm_visits := nm_visits rhs, nm_player := nm_player rhs\<rparr>,
     rhs\<lparr>nm_moves := nm_moves nd\<rparr>)"

section \<open>Programs\<close>

text \<open>The nodes of a program have names. A move of a node onto itself changes nothing.\<close>

datatype 's node_op =
    Op_new nat
  | Op_state nat 's
  | Op_copy nat nat
  | Op_move nat nat
  | Op_assign_copy nat nat
  | Op_assign_move nat nat
  | Op_plus nat nat
  | Op_untried nat
  | Op_destroy nat

record 'm node_state =
  ns_nodes :: "nat \<Rightarrow> node_mem option"
  ns_pool :: "'m moves_pool"
  ns_rng :: splitmix
  ns_drawn :: "'m list"

definition unused :: "(nat \<Rightarrow> 'x option) \<Rightarrow> nat \<Rightarrow> unit option" where
  "unused N i = (if N i = None then Some () else None)"

fun node_exec ::
  "pool_type \<Rightarrow> valloc \<Rightarrow> ('s, 'm) game_ops \<Rightarrow> uniform_int \<Rightarrow> 's node_op \<Rightarrow> 'm node_state \<Rightarrow> 'm node_state option"
where
  "node_exec P va G unif (Op_new i) st = do {
     _ \<leftarrow> unused (ns_nodes st) i;
     Some (st\<lparr>ns_nodes := (ns_nodes st)(i \<mapsto> nm_default)\<rparr>) }"
| "node_exec P va G unif (Op_state i s) st = do {
     _ \<leftarrow> unused (ns_nodes st) i;
     (nd, sm) \<leftarrow> nm_of_state P va G s (ns_pool st);
     Some (st\<lparr>ns_nodes := (ns_nodes st)(i \<mapsto> nd), ns_pool := sm\<rparr>) }"
| "node_exec P va G unif (Op_copy i j) st = do {
     _ \<leftarrow> unused (ns_nodes st) i;
     src \<leftarrow> ns_nodes st j;
     (nd, sm) \<leftarrow> nm_copy P va src (ns_pool st);
     Some (st\<lparr>ns_nodes := (ns_nodes st)(i \<mapsto> nd), ns_pool := sm\<rparr>) }"
| "node_exec P va G unif (Op_move i j) st = do {
     _ \<leftarrow> unused (ns_nodes st) i;
     src \<leftarrow> ns_nodes st j;
     let (nd, src) = nm_move src;
     Some (st\<lparr>ns_nodes := (ns_nodes st)(j \<mapsto> src, i \<mapsto> nd)\<rparr>) }"
| "node_exec P va G unif (Op_assign_copy i j) st = do {
     nd \<leftarrow> ns_nodes st i;
     rhs \<leftarrow> ns_nodes st j;
     (nd, sm) \<leftarrow> nm_assign_copy P va nd rhs (ns_pool st);
     Some (st\<lparr>ns_nodes := (ns_nodes st)(i \<mapsto> nd), ns_pool := sm\<rparr>) }"
| "node_exec P va G unif (Op_assign_move i j) st = do {
     nd \<leftarrow> ns_nodes st i;
     rhs \<leftarrow> ns_nodes st j;
     if i = j then Some st
     else do {
       let (nd, rhs) = nm_assign_move nd rhs;
       Some (st\<lparr>ns_nodes := (ns_nodes st)(j \<mapsto> rhs, i \<mapsto> nd)\<rparr>) } }"
| "node_exec P va G unif (Op_plus i j) st = do {
     nd \<leftarrow> ns_nodes st i;
     rhs \<leftarrow> ns_nodes st j;
     Some (st\<lparr>ns_nodes := (ns_nodes st)(i \<mapsto> nm_plus nd rhs)\<rparr>) }"
| "node_exec P va G unif (Op_untried i) st = do {
     nd \<leftarrow> ns_nodes st i;
     (mv, nd, sm, g) \<leftarrow> nm_getUntriedMove P unif nd (ns_pool st) (ns_rng st);
     Some (st\<lparr>ns_nodes := (ns_nodes st)(i \<mapsto> nd), ns_pool := sm, ns_rng := g, ns_drawn := ns_drawn st @ [mv]\<rparr>) }"
| "node_exec P va G unif (Op_destroy i) st = do {
     nd \<leftarrow> ns_nodes st i;
     sm \<leftarrow> nm_destroy P nd (ns_pool st);
     Some (st\<lparr>ns_nodes := (ns_nodes st)(i := None), ns_pool := sm\<rparr>) }"

definition node_start :: "'m moves memory \<Rightarrow> splitmix \<Rightarrow> 'm node_state" where
  "node_start mem g = \<lparr>ns_nodes = (\<lambda>_. None), ns_pool = (pool_new, mem), ns_rng = g, ns_drawn = []\<rparr>"

fun node_run ::
  "pool_type \<Rightarrow> valloc \<Rightarrow> ('s, 'm) game_ops \<Rightarrow> uniform_int \<Rightarrow> 's node_op list \<Rightarrow> 'm node_state \<Rightarrow> 'm node_state option"
where
  "node_run P va G unif [] st = Some st"
| "node_run P va G unif (x # xs) st = do { st \<leftarrow> node_exec P va G unif x st; node_run P va G unif xs st }"

section \<open>The same programs on values\<close>

record 'm value_state =
  vs_nodes :: "nat \<Rightarrow> 'm node_data option"
  vs_rng :: splitmix
  vs_drawn :: "'m list"

fun value_exec :: "('s, 'm) game_ops \<Rightarrow> uniform_int \<Rightarrow> 's node_op \<Rightarrow> 'm value_state \<Rightarrow> 'm value_state option" where
  "value_exec G unif (Op_new i) st = do {
     _ \<leftarrow> unused (vs_nodes st) i;
     Some (st\<lparr>vs_nodes := (vs_nodes st)(i \<mapsto> NodeData)\<rparr>) }"
| "value_exec G unif (Op_state i s) st = do {
     _ \<leftarrow> unused (vs_nodes st) i;
     nd \<leftarrow> NodeData_state G s;
     Some (st\<lparr>vs_nodes := (vs_nodes st)(i \<mapsto> nd)\<rparr>) }"
| "value_exec G unif (Op_copy i j) st = do {
     _ \<leftarrow> unused (vs_nodes st) i;
     src \<leftarrow> vs_nodes st j;
     Some (st\<lparr>vs_nodes := (vs_nodes st)(i \<mapsto> NodeData_copy src)\<rparr>) }"
| "value_exec G unif (Op_move i j) st = do {
     _ \<leftarrow> unused (vs_nodes st) i;
     src \<leftarrow> vs_nodes st j;
     Some (st\<lparr>vs_nodes := (vs_nodes st)(j \<mapsto> src\<lparr>nd_moves := None\<rparr>, i \<mapsto> NodeData_copy src)\<rparr>) }"
| "value_exec G unif (Op_assign_copy i j) st = do {
     nd \<leftarrow> vs_nodes st i;
     rhs \<leftarrow> vs_nodes st j;
     Some (st\<lparr>vs_nodes := (vs_nodes st)(i \<mapsto> NodeData_assign_copy nd rhs)\<rparr>) }"
| "value_exec G unif (Op_assign_move i j) st = do {
     nd \<leftarrow> vs_nodes st i;
     rhs \<leftarrow> vs_nodes st j;
     if i = j then Some st
     else do {
       let (nd, rhs) = NodeData_assign_move nd rhs;
       Some (st\<lparr>vs_nodes := (vs_nodes st)(j \<mapsto> rhs, i \<mapsto> nd)\<rparr>) } }"
| "value_exec G unif (Op_plus i j) st = do {
     nd \<leftarrow> vs_nodes st i;
     rhs \<leftarrow> vs_nodes st j;
     Some (st\<lparr>vs_nodes := (vs_nodes st)(i \<mapsto> NodeData_plus nd rhs)\<rparr>) }"
| "value_exec G unif (Op_untried i) st = do {
     nd \<leftarrow> vs_nodes st i;
     (mv, nd, g) \<leftarrow> getUntriedMove_data unif nd (vs_rng st);
     Some (st\<lparr>vs_nodes := (vs_nodes st)(i \<mapsto> nd), vs_rng := g, vs_drawn := vs_drawn st @ [mv]\<rparr>) }"
| "value_exec G unif (Op_destroy i) st = do {
     nd \<leftarrow> vs_nodes st i;
     Some (st\<lparr>vs_nodes := (vs_nodes st)(i := None)\<rparr>) }"

definition value_start :: "splitmix \<Rightarrow> 'm value_state" where
  "value_start g = \<lparr>vs_nodes = (\<lambda>_. None), vs_rng = g, vs_drawn = []\<rparr>"

fun value_run :: "('s, 'm) game_ops \<Rightarrow> uniform_int \<Rightarrow> 's node_op list \<Rightarrow> 'm value_state \<Rightarrow> 'm value_state option" where
  "value_run G unif [] st = Some st"
| "value_run G unif (x # xs) st = do { st \<leftarrow> value_exec G unif x st; value_run G unif xs st }"

end
