(* ===== verification/Pool_Allocator_Inv.thy ===== *)
theory Pool_Allocator_Inv
  imports Pool_Allocator
begin

text \<open>
  The invariant of the pool: the blocks are chained from \<^verbatim>\<open>m_current_block\<close>, the free slots from \<^verbatim>\<open>m_free_slots\<close>; every block is a region
  of its own, and there is one slot to a block. The slots that are not free belong to the clients.
\<close>

section \<open>Sizes and addresses\<close>

text \<open>The alignment of a type is a power of two that divides its size (the language), here at most the granularity of \<^verbatim>\<open>VirtualAlloc\<close>; the sizes
  are those of a program that fits into the address space of 47 bits.\<close>

definition pool_type_ok :: "pool_type \<Rightarrow> bool" where
  "pool_type_ok P \<longleftrightarrow>
     (\<exists>k \<le> (16 :: nat). pt_alignof P = 2 ^ k) \<and> unat (pt_alignof P) dvd unat (pt_sizeof P) \<and> 0 < pt_sizeof P \<and>
     0 < pt_chunk_count P \<and> 0 < pt_min_alloc P \<and> 16 \<le> pt_page_size P \<and>
     unat (pt_page_size P) + unat (pt_min_alloc P) * (unat (pt_chunk_count P) * unat (pt_sizeof P)) +
       unat (pt_chunk_count P) * (unat (pt_sizeof P) + 131072) + 131072 < 2 ^ 47"

lemma pool_sizes:
  assumes "pool_type_ok P"
  shows "unat (pt_page_size P) + unat (pt_min_alloc P) * (unat (pt_chunk_count P) * unat (pt_sizeof P)) +
       unat (pt_chunk_count P) * (unat (pt_sizeof P) + 131072) + 131072 < 2 ^ 47"
    "unat (pt_chunk_count P) * (unat (pt_sizeof P) + 131072) < 2 ^ 47"
    "0 < unat (pt_sizeof P)" "0 < unat (pt_chunk_count P)" "0 < unat (pt_min_alloc P)" "16 \<le> unat (pt_page_size P)"
proof -
  show g: "unat (pt_page_size P) + unat (pt_min_alloc P) * (unat (pt_chunk_count P) * unat (pt_sizeof P)) +
       unat (pt_chunk_count P) * (unat (pt_sizeof P) + 131072) + 131072 < 2 ^ 47"
    using assms unfolding pool_type_ok_def by blast
  then show "unat (pt_chunk_count P) * (unat (pt_sizeof P) + 131072) < 2 ^ 47" by linarith
qed (use assms in \<open>simp_all add: pool_type_ok_def word_gt_0 unat_gt_0 word_le_nat_alt\<close>)

text \<open>What \<^verbatim>\<open>VirtualAlloc\<close> promises: the null pointer, or the start of a region on a multiple of 64K in the lower half of the address space that
  overlaps no other one.\<close>

definition apart :: "u64 \<times> u64 \<Rightarrow> u64 \<times> u64 \<Rightarrow> bool" where
  "apart r r' \<longleftrightarrow> unat (fst r) + unat (snd r) \<le> unat (fst r') \<or> unat (fst r') + unat (snd r') \<le> unat (fst r)"

definition valloc_ok :: "valloc \<Rightarrow> bool" where
  "valloc_ok va \<longleftrightarrow> (\<forall>i rs n. 0 < n \<longrightarrow> va i rs n \<noteq> 0 \<longrightarrow>
     65536 dvd unat (va i rs n) \<and> unat (va i rs n) + unat n \<le> 2 ^ 47 \<and> list_all (apart (va i rs n, n)) rs)"

fun regions_ok :: "(u64 \<times> u64) list \<Rightarrow> bool" where
  "regions_ok [] = True"
| "regions_ok (r # rs) \<longleftrightarrow> fst r \<noteq> 0 \<and> 0 < snd r \<and> unat (fst r) + unat (snd r) \<le> 2 ^ 47 \<and> list_all (apart r) rs \<and> regions_ok rs"

lemma regions_okD:
  assumes "regions_ok rs" "r \<in> set rs"
  shows "fst r \<noteq> 0 \<and> 0 < snd r \<and> unat (fst r) + unat (snd r) \<le> 2 ^ 47"
  using assms by (induction rs) auto

lemma apart_sym: "apart r r' \<longleftrightarrow> apart r' r"
  by (auto simp: apart_def)

lemma regions_ok_apart:
  assumes "regions_ok rs" "r \<in> set rs" "r' \<in> set rs" "r \<noteq> r'"
  shows "apart r r'"
  using assms by (induction rs) (auto simp: list_all_iff apart_sym)

lemma regions_ok_filter: "regions_ok rs \<Longrightarrow> regions_ok (filter p rs)"
  by (induction rs) (auto simp: list_all_iff)

text \<open>The alignment of a slot, as a number.\<close>

abbreviation slot_align :: "pool_type \<Rightarrow> nat" where
  "slot_align P \<equiv> unat (alignof_slot P)"

lemma unat_2_power: "k \<le> 16 \<Longrightarrow> unat (2 ^ k :: u64) = 2 ^ k"
proof -
  assume "k \<le> 16"
  then have "(2 :: nat) ^ k \<le> 2 ^ 16" by (intro power_increasing) simp_all
  then show ?thesis using unat_of_nat [of "2 ^ k", where 'a = 64] by simp
qed

lemma alignof_slot:
  assumes "pool_type_ok P"
  obtains k where "3 \<le> k" "k \<le> 16" "alignof_slot P = 2 ^ k" "slot_align P = 2 ^ k"
proof -
  from assms obtain k where k: "k \<le> 16" "pt_alignof P = 2 ^ k" by (auto simp: pool_type_ok_def)
  show ?thesis
  proof (cases "3 \<le> k")
    case True
    then have "(2 :: nat) ^ 3 \<le> 2 ^ k" by (intro power_increasing) simp_all
    then have "(8 :: u64) \<le> 2 ^ k" by (simp add: word_le_nat_alt unat_2_power k(1))
    with True k show ?thesis by (intro that [of k]) (simp_all add: alignof_slot_def unat_2_power max_def)
  next
    case False
    then have "(2 :: nat) ^ k \<le> 2 ^ 3" by (intro power_increasing) simp_all
    then have "(2 ^ k :: u64) \<le> 8" by (simp add: word_le_nat_alt unat_2_power k(1))
    with k show ?thesis by (intro that [of 3]) (simp_all add: alignof_slot_def max_def)
  qed
qed

lemma slot_align_bounds:
  assumes "pool_type_ok P" shows "8 \<le> slot_align P" "slot_align P \<le> 65536" "slot_align P dvd 65536"
proof -
  from alignof_slot [OF assms] obtain k where k: "3 \<le> k" "k \<le> 16" "slot_align P = 2 ^ k" .
  have "(2 :: nat) ^ 3 \<le> 2 ^ k" using k(1) by (rule power_increasing) simp
  moreover have "(2 :: nat) ^ k \<le> 2 ^ 16" using k(2) by (rule power_increasing) simp
  ultimately show "8 \<le> slot_align P" "slot_align P \<le> 65536" using k(3) by simp_all
  have "(2 :: nat) ^ k dvd 2 ^ 16" using k(2) by (rule le_imp_power_dvd)
  then show "slot_align P dvd 65536" using k by simp
qed

lemma unat_add_small: "unat a + unat b < 2 ^ 64 \<Longrightarrow> unat (a + b :: u64) = unat a + unat b"
  by (subst unat_add_lem [THEN iffD1]) simp_all

lemma unat_mult_small: "unat a * unat b < 2 ^ 64 \<Longrightarrow> unat (a * b :: u64) = unat a * unat b"
  by (subst unat_mult_lem [THEN iffD1]) simp_all

lemma pad_pointer_eq:
  assumes "3 \<le> k" "k \<le> 16" "65536 dvd unat b" "unat b + 8 < 2 ^ 64"
  shows "unat (pad_pointer (b + 8) (2 ^ k)) = 2 ^ k - 8"
proof -
  have le: "(2 :: int) ^ 3 \<le> 2 ^ k" using assms(1) by (intro power_increasing) simp_all
  have "(2 :: int) ^ k dvd 2 ^ 16" using assms(2) by (rule le_imp_power_dvd)
  moreover have "(65536 :: int) dvd uint b" using assms(3) unfolding uint_nat by (metis int_dvd_int_iff of_nat_numeral)
  ultimately have d: "(2 :: int) ^ k dvd uint b" by (elim dvd_trans) simp
  have d64: "(2 :: int) ^ k dvd 2 ^ 64" using assms(2) by (intro le_imp_power_dvd) simp
  have u: "uint (2 ^ k :: u64) = 2 ^ k" unfolding uint_nat unat_2_power [OF assms(2)] by simp
  have "unat (b + 8) = unat b + 8" using assms(4) unat_add_small [of b 8] by simp
  then have u8: "uint (b + 8) = uint b + 8" unfolding uint_nat by (simp only: of_nat_add of_nat_numeral)
  have "uint (pad_pointer (b + 8) (2 ^ k)) = ((2 ^ k - (uint b + 8)) mod 2 ^ 64) mod 2 ^ k"
    unfolding pad_pointer_def uint_mod u uint_word_arith_bintrs(2) u8 by (simp only: take_bit_eq_mod len_num1 len_num0 len_bit0 len_bit1) simp
  also have "\<dots> = (2 ^ k - (uint b + 8)) mod 2 ^ k" using d64 by (rule mod_mod_cancel)
  also have "\<dots> = ((2 ^ k - 8) - uint b) mod 2 ^ k" by (simp add: algebra_simps)
  also have "\<dots> = (2 ^ k - 8) mod 2 ^ k" using d by (simp add: mod_eq_dvd_iff)
  also have "\<dots> = 2 ^ k - 8" using le by (intro mod_pos_pos_trivial) simp_all
  finally show ?thesis using le unfolding unat_eq_nat_uint by (simp only:) (simp add: nat_diff_distrib nat_power_eq)
qed

text \<open>The slot of a block begins one alignment behind the start of the block.\<close>

lemma first_slot_eq:
  assumes "pool_type_ok P" "65536 dvd unat b" "unat b < 2 ^ 47"
  shows "unat (first_slot P b) = unat b + slot_align P"
proof -
  from alignof_slot [OF assms(1)] obtain k where k: "3 \<le> k" "k \<le> 16" "alignof_slot P = 2 ^ k" "slot_align P = 2 ^ k" .
  have p: "unat (pad_pointer (b + 8) (2 ^ k)) = 2 ^ k - 8" using k(1,2) assms(2,3) by (intro pad_pointer_eq) simp_all
  have b8: "unat (b + 8) = unat b + 8" using assms(3) by (subst unat_add_small) simp_all
  show ?thesis using slot_align_bounds [OF assms(1)] assms(3) k(3,4)
    by (simp add: first_slot_def sizeof_pointer_def Let_def unat_add_small b8 p)
qed


lemma chunk_size_eq:
  assumes "pool_type_ok P"
  shows "unat (chunk_size P) = unat (pt_chunk_count P) * unat (pt_sizeof P)" "0 < unat (chunk_size P)"
proof -
  have "unat (pt_chunk_count P) * unat (pt_sizeof P) < 2 ^ 47"
    using assms by (auto simp: pool_type_ok_def algebra_simps)
  then show e: "unat (chunk_size P) = unat (pt_chunk_count P) * unat (pt_sizeof P)"
    by (simp add: chunk_size_def unat_mult_small)
  show "0 < unat (chunk_size P)" using assms unfolding e by (simp add: pool_type_ok_def word_gt_0 unat_gt_0)
qed

text \<open>The loop of \<^verbatim>\<open>block_size\<close> finds the smallest number of pages that is large enough.\<close>

lemma block_size_loop_ok:
  assumes "0 < n" "unat pg = n" "unat rq + n < 2 ^ 64"
  shows "unat bs \<le> unat rq + n \<Longrightarrow> \<exists>r j. block_size_loop pg rq bs = Some r \<and> unat r = unat bs + j * n \<and> rq \<le> r \<and> (j = 0 \<or> unat r < unat rq + n)"
proof (induction "unat rq - unat bs" arbitrary: bs rule: less_induct)
  case less
  show ?case
  proof (cases "bs < rq")
    case False
    then show ?thesis by (subst block_size_loop.simps) (auto intro!: exI [of _ 0])
  next
    case True
    then have lt: "unat bs < unat rq" by (simp add: word_less_nat_alt)
    have u: "unat (bs + pg) = unat bs + n" using assms lt by (subst unat_add_small) simp_all
    have dec: "unat rq - unat (bs + pg) < unat rq - unat bs" "unat (bs + pg) \<le> unat rq + n" using u assms(1) lt by linarith+
    from less(1) [OF dec] obtain r j where r: "block_size_loop pg rq (bs + pg) = Some r" "unat r = unat bs + n + j * n" "rq \<le> r"
      "j = 0 \<or> unat r < unat rq + n" unfolding u by blast
    have "unat r < unat rq + n" using r(2,4) lt by auto
    with True r show ?thesis by (subst block_size_loop.simps) (auto intro!: exI [of _ "Suc j"])
  qed
qed

lemma minimum_required_eq:
  assumes "pool_type_ok P"
  shows "unat (minimum_required_block_size P) = 8 + unat (pt_min_alloc P) * unat (chunk_size P) + unat (pt_alignof P)"
    "unat (minimum_required_block_size P) + unat (pt_page_size P) < 2 ^ 47"
proof -
  have al: "unat (pt_alignof P) \<le> 65536"
  proof -
    have "pt_alignof P \<le> alignof_slot P" by (simp add: alignof_slot_def)
    then show ?thesis using slot_align_bounds(2) [OF assms] by (simp add: word_le_nat_alt)
  qed
  have b: "unat (pt_page_size P) + unat (pt_min_alloc P) * unat (chunk_size P) + 131072 < 2 ^ 47"
    using assms by (simp add: pool_type_ok_def chunk_size_eq [OF assms])
  have m: "unat (pt_min_alloc P * chunk_size P) = unat (pt_min_alloc P) * unat (chunk_size P)"
    using b by (intro unat_mult_small) simp
  have a: "unat (8 + pt_min_alloc P * chunk_size P) = 8 + unat (pt_min_alloc P) * unat (chunk_size P)"
    using b m by (subst unat_add_small) simp_all
  show e: "unat (minimum_required_block_size P) = 8 + unat (pt_min_alloc P) * unat (chunk_size P) + unat (pt_alignof P)"
    unfolding minimum_required_block_size_def sizeof_pointer_def using b al a by (subst unat_add_small) simp_all
  show "unat (minimum_required_block_size P) + unat (pt_page_size P) < 2 ^ 47" using e b al by simp
qed

lemma block_size_ok:
  assumes "pool_type_ok P"
  obtains n j where "block_size P = Some n" "unat n = (j + 1) * unat (pt_page_size P)" "minimum_required_block_size P \<le> n"
    "j = 0 \<or> unat n < unat (minimum_required_block_size P) + unat (pt_page_size P)"
proof -
  have "0 < unat (pt_page_size P)" using assms by (simp add: pool_type_ok_def word_le_nat_alt)
  then obtain n j where "block_size_loop (pt_page_size P) (minimum_required_block_size P) (pt_page_size P) = Some n"
    "unat n = unat (pt_page_size P) + j * unat (pt_page_size P)" "minimum_required_block_size P \<le> n"
    "j = 0 \<or> unat n < unat (minimum_required_block_size P) + unat (pt_page_size P)"
    using block_size_loop_ok [OF _ refl, of "pt_page_size P" "minimum_required_block_size P" "pt_page_size P"]
      minimum_required_eq(2) [OF assms] by auto
  then show ?thesis by (intro that [of n j]) (simp_all add: block_size_def)
qed

text \<open>What a client may use of a slot, and what the free list writes into it.\<close>

definition slot_extent :: "pool_type \<Rightarrow> nat" where
  "slot_extent P = max (unat (chunk_size P)) 8"

lemma block_fits:
  assumes "pool_type_ok P" "block_size P = Some n"
  shows "slot_align P + slot_extent P \<le> unat n" "unat n < 2 ^ 47"
proof -
  from block_size_ok [OF assms(1)] assms(2) obtain j where j: "unat n = (j + 1) * unat (pt_page_size P)"
    "minimum_required_block_size P \<le> n" "j = 0 \<or> unat n < unat (minimum_required_block_size P) + unat (pt_page_size P)" by auto
  have pg: "16 \<le> unat (pt_page_size P)" "unat (pt_page_size P) < 2 ^ 47" using assms(1) by (auto simp: pool_type_ok_def word_le_nat_alt)
  then have n16: "16 \<le> unat n" using j(1) by simp
  have "1 * unat (chunk_size P) \<le> unat (pt_min_alloc P) * unat (chunk_size P)"
    using assms(1) by (intro mult_le_mono1) (simp add: pool_type_ok_def word_gt_0 unat_gt_0 Suc_le_eq)
  then have n: "8 + unat (chunk_size P) + unat (pt_alignof P) \<le> unat n"
    using j(2) [unfolded word_le_nat_alt] unfolding minimum_required_eq(1) [OF assms(1)] by linarith
  show "slot_align P + slot_extent P \<le> unat n"
  proof (cases "pt_alignof P \<le> 8")
    case True
    then have "slot_align P = 8" by (simp add: alignof_slot_def max_def)
    with n n16 show ?thesis by (simp add: slot_extent_def)
  next
    case False
    then have a: "slot_align P = unat (pt_alignof P)" by (simp add: alignof_slot_def max_def)
    have "unat (pt_alignof P) \<le> unat (pt_sizeof P)"
      using assms(1) by (intro dvd_imp_le) (simp_all add: pool_type_ok_def word_gt_0 unat_gt_0)
    also have "1 * unat (pt_sizeof P) \<le> unat (chunk_size P)" unfolding chunk_size_eq(1) [OF assms(1)]
      using assms(1) by (intro mult_le_mono1) (simp add: pool_type_ok_def word_gt_0 unat_gt_0 Suc_le_eq)
    finally have "slot_extent P = unat (chunk_size P)" using slot_align_bounds(1) [OF assms(1)] a by (simp add: slot_extent_def)
    with n a show ?thesis by simp
  qed
  show "unat n < 2 ^ 47" using j(1,3) pg minimum_required_eq(2) [OF assms(1)] by auto
qed


section \<open>Chains of pointers\<close>

primrec links :: "'a memory \<Rightarrow> u64 \<Rightarrow> u64 list \<Rightarrow> bool" where
  "links mem p [] \<longleftrightarrow> p = 0"
| "links mem p (q # qs) \<longleftrightarrow> p = q \<and> q \<noteq> 0 \<and> (\<exists>r. read_next mem q = Some r \<and> links mem r qs)"

lemma links_0 [simp]: "links mem 0 qs \<longleftrightarrow> qs = []"
  by (cases qs) auto

lemma links_Cons: "p \<noteq> 0 \<Longrightarrow> links mem p qs \<longleftrightarrow> (\<exists>r rs. qs = p # rs \<and> read_next mem p = Some r \<and> links mem r rs)"
  by (cases qs) auto

lemma links_unique: "links mem p qs \<Longrightarrow> links mem p qs' \<Longrightarrow> qs = qs'"
  by (induction qs arbitrary: p qs') (auto simp: links_Cons)

lemma links_app: "links mem p (qs @ q # rs) \<Longrightarrow> links mem q (q # rs)"
  by (induction qs arbitrary: p) auto

lemma links_distinct: "links mem p qs \<Longrightarrow> distinct qs"
proof (induction qs arbitrary: p)
  case (Cons q qs)
  then obtain r where r: "read_next mem q = Some r" "links mem r qs" by auto
  have "q \<notin> set qs"
  proof
    assume "q \<in> set qs"
    then obtain xs ys where q: "qs = xs @ q # ys" by (meson split_list)
    then have "links mem q (q # ys)" using r(2) links_app by blast
    with Cons.prems have "q # qs = q # ys" by (metis links.simps(2) links_unique)
    then show False using q by simp
  qed
  with r(2) Cons.IH show ?case by simp
qed simp

lemma links_cong: "\<forall>q\<in>set qs. read_next mem' q = read_next mem q \<Longrightarrow> links mem' p qs \<longleftrightarrow> links mem p qs"
  by (induction qs arbitrary: p) auto

lemma links_not_0: "links mem p qs \<Longrightarrow> 0 \<notin> set qs"
  by (induction qs arbitrary: p) auto

lemma mapped_slots [simp]: "mapped (mem\<lparr>mem_slots := f\<rparr>) = mapped mem"
  by (simp add: mapped_def fun_eq_iff)

lemma read_next_upd [simp]: "q \<noteq> p \<Longrightarrow> read_next (mem\<lparr>mem_slots := (mem_slots mem)(p := x)\<rparr>) q = read_next mem q"
  by (simp add: read_next_def)

lemma links_write [simp]: "p \<notin> set qs \<Longrightarrow> links (mem\<lparr>mem_slots := (mem_slots mem)(p := x)\<rparr>) r qs \<longleftrightarrow> links mem r qs"
  by (rule links_cong) (metis read_next_upd)

lemma pointer_vector_loop_links: "links mem p qs \<Longrightarrow> pointer_vector_loop mem p v = Some (v @ qs)"
  by (induction qs arbitrary: p v) (auto simp: pointer_vector_loop.simps)

lemma pointer_vector_links: "links mem p qs \<Longrightarrow> pointer_vector mem p = Some qs"
  by (simp add: pointer_vector_def pointer_vector_loop_links)

lemma memory_size_loop_links: "links mem p qs \<Longrightarrow> memory_size_loop n mem p ms = Some (ms + of_nat (length qs) * n)"
  by (induction qs arbitrary: p ms) (auto simp: memory_size_loop.simps algebra_simps)

section \<open>The invariant\<close>

definition pool_at :: "pool_type \<Rightarrow> u64 \<Rightarrow> u64 list \<Rightarrow> u64 list \<Rightarrow> pool \<Rightarrow> 'a memory \<Rightarrow> bool" where
  "pool_at P n bs fs s mem \<longleftrightarrow>
     block_size P = Some n \<and> links mem (m_current_block s) bs \<and> links mem (m_free_slots s) fs \<and> regions_ok (mem_regions mem) \<and>
     (\<forall>b\<in>set bs. (b, n) \<in> set (mem_regions mem) \<and> 65536 dvd unat b) \<and> set fs \<subseteq> first_slot P ` set bs \<and>
     m_last_slot s \<le> m_current_slot s \<and>
     (bs \<noteq> [] \<longrightarrow> m_current_slot s = first_slot P (hd bs) + chunk_count P * sizeof_slot P)"

definition live :: "pool_type \<Rightarrow> u64 list \<Rightarrow> u64 list \<Rightarrow> u64 set" where
  "live P bs fs = first_slot P ` set bs - set fs"

lemma pool_atD:
  assumes "pool_at P n bs fs s mem"
  shows "block_size P = Some n" "links mem (m_current_block s) bs" "links mem (m_free_slots s) fs" "regions_ok (mem_regions mem)"
    "\<And>b. b \<in> set bs \<Longrightarrow> (b, n) \<in> set (mem_regions mem) \<and> 65536 dvd unat b" "set fs \<subseteq> first_slot P ` set bs"
    "m_last_slot s \<le> m_current_slot s" "bs \<noteq> [] \<Longrightarrow> m_current_slot s = first_slot P (hd bs) + chunk_count P * sizeof_slot P"
  using assms by (auto simp: pool_at_def)

lemma pool_at_new: "regions_ok (mem_regions mem) \<Longrightarrow> block_size P = Some n \<Longrightarrow> pool_at P n [] [] pool_new mem"
  by (simp add: pool_at_def pool_new_def)

text \<open>Where the slot of a block is.\<close>

lemma block_slot:
  assumes "pool_type_ok P" "pool_at P n bs fs s mem" "b \<in> set bs"
  shows "unat (first_slot P b) = unat b + slot_align P" "unat b + slot_align P + slot_extent P \<le> unat b + unat n"
    "unat b + unat n \<le> 2 ^ 47" "b \<noteq> 0"
proof -
  note A = pool_atD [OF assms(2)]
  from regions_okD [OF A(4), of "(b, n)"] A(5) [OF assms(3)] have r: "b \<noteq> 0" "0 < n" "unat b + unat n \<le> 2 ^ 47" by auto
  from r(2) have "0 < unat n" by (simp add: word_gt_0 unat_gt_0)
  with r(3) have "unat b < 2 ^ 47" by linarith
  then show "unat (first_slot P b) = unat b + slot_align P" using A(5) [OF assms(3)] by (intro first_slot_eq assms(1)) simp_all
  show "unat b + slot_align P + slot_extent P \<le> unat b + unat n" using block_fits(1) [OF assms(1) A(1)] by linarith
  show "b \<noteq> 0" "unat b + unat n \<le> 2 ^ 47" using r by simp_all
qed

lemma slot_mapped:
  assumes "pool_type_ok P" "pool_at P n bs fs s mem" "b \<in> set bs" "k \<le> slot_extent P"
  shows "mapped mem (first_slot P b) k" "mapped mem b 8"
proof -
  note B = block_slot [OF assms(1-3)]
  have r: "(b, n) \<in> set (mem_regions mem)" using pool_atD(5) [OF assms(2,3)] by simp
  have "in_region (b, n) (first_slot P b) k" using B(1,2) assms(4) by (simp add: in_region_def word_le_nat_alt)
  with r show "mapped mem (first_slot P b) k" unfolding mapped_def list_ex_iff by blast
  have "8 \<le> slot_extent P" by (simp add: slot_extent_def)
  then have "in_region (b, n) b 8" using B(2) by (simp add: in_region_def)
  with r show "mapped mem b 8" unfolding mapped_def list_ex_iff by blast
qed

text \<open>Slots of different blocks are apart, and no slot is the header of a block.\<close>

lemma slots_apart:
  assumes "pool_type_ok P" "pool_at P n bs fs s mem" "b \<in> set bs" "c \<in> set bs" "b \<noteq> c"
  shows "unat (first_slot P b) + slot_extent P \<le> unat (first_slot P c) \<or> unat (first_slot P c) + slot_extent P \<le> unat (first_slot P b)"
    "unat b + unat n \<le> unat c \<or> unat c + unat n \<le> unat b"
proof -
  note A = pool_atD [OF assms(2)]
  have "apart (b, n) (c, n)" using A(5) assms(3-5) by (intro regions_ok_apart [OF A(4)]) auto
  then show "unat b + unat n \<le> unat c \<or> unat c + unat n \<le> unat b" by (simp add: apart_def)
  then show "unat (first_slot P b) + slot_extent P \<le> unat (first_slot P c) \<or> unat (first_slot P c) + slot_extent P \<le> unat (first_slot P b)"
    using block_slot(1,2) [OF assms(1-3)] block_slot(1,2) [OF assms(1,2,4)] by linarith
qed

lemma slot_not_header:
  assumes "pool_type_ok P" "pool_at P n bs fs s mem" "b \<in> set bs" "c \<in> set bs"
  shows "first_slot P b \<noteq> c"
proof
  assume e: "first_slot P b = c"
  note B = block_slot(1,2) [OF assms(1-3)]
  have a: "8 \<le> slot_align P" "8 \<le> slot_extent P" using slot_align_bounds [OF assms(1)] by (simp_all add: slot_extent_def)
  show False
  proof (cases "b = c")
    case True then show ?thesis using e B(1) a by simp
  next
    case False
    from slots_apart(2) [OF assms False] B block_slot(1,2) [OF assms(1,2,4)] a show ?thesis unfolding e by linarith
  qed
qed

lemma first_slot_inj:
  assumes "pool_type_ok P" "pool_at P n bs fs s mem"
  shows "inj_on (first_slot P) (set bs)"
proof (rule inj_onI)
  fix b c assume "b \<in> set bs" "c \<in> set bs" "first_slot P b = first_slot P c"
  then have "unat b = unat c" using block_slot(1) [OF assms, of b] block_slot(1) [OF assms, of c] by simp
  then show "b = c" by (simp add: word_unat_eq_iff)
qed

lemma slot_not_0:
  assumes "pool_type_ok P" "pool_at P n bs fs s mem" "p \<in> first_slot P ` set bs"
  shows "p \<noteq> 0"
  using assms(3) block_slot(1) [OF assms(1,2)] slot_align_bounds(1) [OF assms(1)]
  by (metis add_is_0 image_iff not_numeral_le_zero unat_0)

text \<open>Writing into a slot that is not free.\<close>

lemma pool_at_write:
  assumes "pool_type_ok P" "pool_at P n bs fs s mem" "p \<in> live P bs fs"
  shows "pool_at P n bs fs s (mem\<lparr>mem_slots := (mem_slots mem)(p := x)\<rparr>)"
proof -
  note A = pool_atD [OF assms(2)]
  from assms(3) obtain b where b: "b \<in> set bs" "p = first_slot P b" "p \<notin> set fs" by (auto simp: live_def)
  have nb: "p \<notin> set bs" using slot_not_header [OF assms(1,2) b(1)] b(2) by blast
  with A(2,3) b(3) show ?thesis using assms(2) by (simp add: pool_at_def)
qed

text \<open>The operations.\<close>

lemma deallocate_ok:
  assumes "pool_type_ok P" "pool_at P n bs fs s mem" "p \<in> live P bs fs"
  shows "\<exists>s' mem'. deallocate p (s, mem) = Some (s', mem') \<and> pool_at P n bs (p # fs) s' mem' \<and>
    (\<forall>q. q \<noteq> p \<longrightarrow> mem_slots mem' q = mem_slots mem q) \<and> m_free_slots s' = p \<and> mem_regions mem' = mem_regions mem \<and> mem_allocs mem' = mem_allocs mem \<and>
    mem_dtors mem' = mem_dtors mem \<and> read_next mem' p = Some (m_free_slots s)"
proof -
  from assms(3) obtain b where b: "b \<in> set bs" "p = first_slot P b" "p \<notin> set fs" by (auto simp: live_def)
  have p0: "p \<noteq> 0" using slot_not_0 [OF assms(1,2)] b by blast
  have m: "mapped mem p 8" using slot_mapped(1) [OF assms(1,2) b(1), of 8] b(2) by (simp add: slot_extent_def)
  have w: "pool_at P n bs fs s (mem\<lparr>mem_slots := (mem_slots mem)(p \<mapsto> Next (m_free_slots s))\<rparr>)" (is "pool_at _ _ _ _ _ ?m")
    by (rule pool_at_write [OF assms])
  have r: "read_next ?m p = Some (m_free_slots s)" using m by (simp add: read_next_def)
  have "pool_at P n bs (p # fs) (s\<lparr>m_free_slots := p\<rparr>) ?m"
    using w r p0 b by (auto simp: pool_at_def)
  with p0 m r show ?thesis by (auto simp: deallocate_def write_next_def)
qed

lemma allocate_free:
  assumes "pool_type_ok P" "pool_at P n bs (p # fs) s mem"
  shows "\<exists>s'. allocate P va (s, mem) = Some (p, s', mem) \<and> pool_at P n bs fs s' mem"
proof -
  note A = pool_atD [OF assms(2)]
  from A(3) obtain r where r: "m_free_slots s = p" "p \<noteq> 0" "read_next mem p = Some r" "links mem r fs" by auto
  have "pool_at P n bs fs (s\<lparr>m_free_slots := r\<rparr>) mem" using assms(2) r by (auto simp: pool_at_def)
  with r show ?thesis by (auto simp: allocate_def)
qed

lemma live_free:
  assumes "pool_at P n bs (p # fs) s mem"
  shows "p \<notin> live P bs (p # fs)" "live P bs fs = insert p (live P bs (p # fs))" "p \<in> first_slot P ` set bs"
  using pool_atD(6) [OF assms] links_distinct [OF pool_atD(3) [OF assms]] by (auto simp: live_def)

lemma mapped_Cons: "mapped (mem\<lparr>mem_regions := r # mem_regions mem\<rparr>) p k \<longleftrightarrow> in_region r p k \<or> mapped mem p k"
  by (simp add: mapped_def)

text \<open>A chunk of elements is not larger than a chunk of slots: after one allocation from a block its end is reached.\<close>

lemma sizeof_slot_bounds:
  assumes "pool_type_ok P"
  shows "unat (pt_sizeof P) \<le> unat (sizeof_slot P)" "unat (sizeof_slot P) \<le> unat (pt_sizeof P) + 131072"
proof -
  define M where "M = unat (max (pt_sizeof P) 8)"
  define A where "A = slot_align P"
  have A: "8 \<le> A" "A \<le> 65536" using slot_align_bounds [OF assms] by (simp_all add: A_def)
  have "unat (pt_sizeof P) + 131072 \<le> unat (pt_chunk_count P) * (unat (pt_sizeof P) + 131072)"
    using pool_sizes(4) [OF assms] by simp
  also note pool_sizes(2) [OF assms]
  finally have sz: "unat (pt_sizeof P) + 131072 < 2 ^ 47" .
  have M: "unat (pt_sizeof P) \<le> M" "M \<le> unat (pt_sizeof P) + 8" by (auto simp: M_def max_def word_le_nat_alt)
  have a1: "unat (alignof_slot P - 1) = A - 1" using A by (simp add: A_def unat_minus_one unat_eq_0 flip: unat_gt_0)
  have s: "unat (max (pt_sizeof P) 8 + (alignof_slot P - 1)) = M + (A - 1)"
    using a1 sz M A by (subst unat_add_small) (simp_all add: M_def [symmetric])
  have d: "unat ((max (pt_sizeof P) 8 + (alignof_slot P - 1)) div alignof_slot P) = (M + (A - 1)) div A"
    by (simp only: unat_div s A_def)
  have le: "(M + (A - 1)) div A * A \<le> M + (A - 1)" by simp
  have u: "unat (sizeof_slot P) = (M + (A - 1)) div A * A"
    unfolding sizeof_slot_def sizeof_pointer_def
  proof (subst unat_mult_small)
    have "(M + (A - 1)) div A * A < 2 ^ 64" by (rule le_less_trans [OF le]) (use M A sz in simp)
    then show "unat ((max (pt_sizeof P) 8 + (alignof_slot P - 1)) div alignof_slot P) * slot_align P < 2 ^ 64"
      unfolding d A_def [symmetric] .
  qed (simp only: d A_def)
  have "M + (A - 1) - (M + (A - 1)) mod A = (M + (A - 1)) div A * A" by (simp add: minus_mod_eq_div_mult)
  moreover have "(M + (A - 1)) mod A \<le> A - 1" using A by (simp add: less_Suc_eq_le [symmetric])
  ultimately have "M \<le> unat (sizeof_slot P)" unfolding u by linarith
  with M show "unat (pt_sizeof P) \<le> unat (sizeof_slot P)" by simp
  show "unat (sizeof_slot P) \<le> unat (pt_sizeof P) + 131072" unfolding u using le M A by linarith
qed

lemma chunk_slack:
  assumes "pool_type_ok P" "unat p < 2 ^ 47"
  shows "p + chunk_size P \<le> p + chunk_count P * sizeof_slot P" "unat (p + chunk_size P) = unat p + unat (chunk_size P)"
    "unat (p + chunk_count P * sizeof_slot P) = unat p + unat (pt_chunk_count P) * unat (sizeof_slot P)"
proof -
  note S = sizeof_slot_bounds [OF assms(1)]
  have le: "unat (pt_chunk_count P) * unat (sizeof_slot P) \<le> unat (pt_chunk_count P) * (unat (pt_sizeof P) + 131072)"
    using S(2) by (rule mult_le_mono2)
  have b: "unat (pt_chunk_count P) * (unat (pt_sizeof P) + 131072) < 2 ^ 47" by (rule pool_sizes(2) [OF assms(1)])
  have b': "unat (pt_chunk_count P) * unat (sizeof_slot P) < 2 ^ 47" using le b by (rule le_less_trans)
  have u: "unat (chunk_count P * sizeof_slot P) = unat (pt_chunk_count P) * unat (sizeof_slot P)"
    unfolding chunk_count_def using b' by (intro unat_mult_small) simp
  have c: "unat (chunk_size P) \<le> unat (pt_chunk_count P) * unat (sizeof_slot P)"
    unfolding chunk_size_eq(1) [OF assms(1)] using S(1) by (rule mult_le_mono2)
  show e: "unat (p + chunk_size P) = unat p + unat (chunk_size P)" using c b' assms(2) by (intro unat_add_small) simp
  show f: "unat (p + chunk_count P * sizeof_slot P) = unat p + unat (pt_chunk_count P) * unat (sizeof_slot P)"
    unfolding u [symmetric] using b' [folded u] assms(2) by (intro unat_add_small) simp
  show "p + chunk_size P \<le> p + chunk_count P * sizeof_slot P" unfolding word_le_nat_alt e f using c by simp
qed

lemma allocate_fresh:
  assumes "pool_type_ok P" "pool_at P n bs [] s mem" "valloc_ok va" "va (mem_allocs mem) (mem_regions mem) n \<noteq> 0"
  defines "b \<equiv> va (mem_allocs mem) (mem_regions mem) n"
  shows "\<exists>s' mem'. allocate P va (s, mem) = Some (first_slot P b, s', mem') \<and> pool_at P n (b # bs) [] s' mem' \<and>
    b \<notin> set bs \<and> (\<forall>q\<in>live P bs []. mem_slots mem' q = mem_slots mem q)"
proof -
  note A = pool_atD [OF assms(2)]
  have n: "0 < unat n" using block_fits(1) [OF assms(1) A(1)] slot_align_bounds(1) [OF assms(1)] by linarith
  then have n0: "0 < n" by (simp add: word_less_nat_alt)
  have v: "b \<noteq> 0" "65536 dvd unat b" "unat b + unat n \<le> 2 ^ 47" "list_all (apart (b, n)) (mem_regions mem)"
    using assms(3,4) n0 unfolding valloc_ok_def b_def by blast+
  have blt: "unat b < 2 ^ 47" using v(3) n by linarith
  define m1 where "m1 = mem\<lparr>mem_allocs := mem_allocs mem + 1, mem_regions := (b, n) # mem_regions mem,
    mem_slots := (\<lambda>q. if in_region (b, n) q 1 then None else mem_slots mem q)\<rparr>"
  define m2 where "m2 = m1\<lparr>mem_slots := (mem_slots m1)(b \<mapsto> Next (m_current_block s))\<rparr>"
  have va: "virtual_alloc va n mem = (b, m1)" using v(1) by (simp add: virtual_alloc_def Let_def m1_def b_def cong: if_cong)
  have A8: "8 \<le> unat n" using block_fits(1) [OF assms(1) A(1)] slot_align_bounds(1) [OF assms(1)] by linarith
  then have "mapped m1 b 8" by (simp add: mapped_def m1_def in_region_def)
  then have w: "write_next m1 b (m_current_block s) = Some m2" by (simp add: write_next_def m2_def)
  have rb: "read_next m2 b = Some (m_current_block s)" using \<open>mapped m1 b 8\<close> by (simp add: read_next_def m2_def)
  have out: "\<not> in_region (b, n) q 1" if q: "in_region (c, n) q k" "0 < k" "(c, n) \<in> set (mem_regions mem)" for q c k
  proof -
    from v(4) q(3) have "apart (b, n) (c, n)" by (auto simp: list_all_iff)
    then show ?thesis using q(1,2) by (auto simp: apart_def in_region_def word_le_nat_alt)
  qed
  have bn: "b \<notin> set bs"
  proof
    assume "b \<in> set bs"
    then have "in_region (b, n) b 1" "(b, n) \<in> set (mem_regions mem)" using A(5) n by (auto simp: in_region_def)
    with out [of b b 1] show False by simp
  qed
  have mono: "mapped mem q k \<Longrightarrow> mapped m2 q k" for q k by (auto simp: mapped_def m2_def m1_def)
  have "read_next m2 c = read_next mem c" if c: "c \<in> set bs" for c
  proof -
    have "in_region (c, n) c 8" using A8 by (simp add: in_region_def)
    with out [of c c 8] A(5) [OF c] have "\<not> in_region (b, n) c 1" by simp
    moreover have "c \<noteq> b" using c bn by blast
    ultimately have "mem_slots m2 c = mem_slots mem c" by (simp add: m2_def m1_def)
    moreover have "mapped mem c 8" using slot_mapped(2) [OF assms(1,2) c, of 0] by simp
    ultimately show ?thesis using mono by (simp add: read_next_def)
  qed
  then have lb: "links m2 (m_current_block s) bs" using A(2) links_cong [of bs m2 mem] by blast
  define s' where "s' = s\<lparr>m_current_block := b, m_current_slot := first_slot P b + chunk_count P * sizeof_slot P, m_last_slot := last_slot P b\<rparr>"
  have fs0: "m_free_slots s = 0" using A(3) by simp
  have "unat (first_slot P b) < 2 ^ 47"
    using first_slot_eq [OF assms(1) v(2) blt] block_fits(1) [OF assms(1) A(1)] v(3) by (simp add: slot_extent_def)
  then have le: "last_slot P b \<le> first_slot P b + chunk_count P * sizeof_slot P"
    using chunk_slack(1) [OF assms(1)] by (simp add: last_slot_def first_slot_def Let_def)
  have "allocate P va (s, mem) = Some (first_slot P b, s', m2)"
    using fs0 A(7) by (simp add: allocate_def allocate_block_def A(1) va w Let_def s'_def last_slot_def first_slot_def)
  moreover have "pool_at P n (b # bs) [] s' m2"
  proof -
    have r: "mem_regions m2 = (b, n) # mem_regions mem" by (simp add: m2_def m1_def)
    show ?thesis using A(1,4,5) lb rb v n0 le fs0 by (auto simp: pool_at_def r s'_def)
  qed
  moreover have "mem_slots m2 q = mem_slots mem q" if q: "q \<in> live P bs []" for q
  proof -
    from q obtain c where c: "c \<in> set bs" "q = first_slot P c" by (auto simp: live_def)
    note B = block_slot(1,2) [OF assms(1,2) c(1)]
    have "in_region (c, n) q 1" using B c(2) by (simp add: in_region_def word_le_nat_alt slot_extent_def)
    with out [of c q 1] A(5) [OF c(1)] have o: "\<not> in_region (b, n) q 1" by simp
    moreover have "q \<noteq> b" using o n by (auto simp: in_region_def)
    ultimately show ?thesis by (simp add: m2_def m1_def)
  qed
  ultimately show ?thesis using bn by blast
qed

end
