(* ===== verification/Pool_Allocator_Nodes.thy ===== *)
theory Pool_Allocator_Nodes
  imports Pool_Allocator_Inv
begin

text \<open>
  What the clients of the pool see: a set of elements that keep their values until they are deleted, the one from which nodes are taken
  and to which they are given back. The abstract state is a map from the addresses of the living elements to their values.
\<close>

section \<open>Elements\<close>

lemma sizeof_le_extent: "pool_type_ok P \<Longrightarrow> unat (pt_sizeof P) \<le> slot_extent P"
proof -
  assume P: "pool_type_ok P"
  have "unat (pt_sizeof P) \<le> unat (pt_chunk_count P) * unat (pt_sizeof P)" using pool_sizes(4) [OF P] by simp
  then show ?thesis unfolding slot_extent_def chunk_size_eq(1) [OF P] by linarith
qed

lemma live_mapped:
  assumes "pool_type_ok P" "pool_at P n bs fs s mem" "p \<in> live P bs fs" "k \<le> slot_extent P"
  shows "mapped mem p k"
  using assms(3) slot_mapped(1) [OF assms(1,2) _ assms(4)] by (auto simp: live_def)

lemma construct_ok:
  assumes "pool_type_ok P" "pool_at P n bs fs s mem" "p \<in> live P bs fs"
  shows "construct P p v mem = Some (mem\<lparr>mem_slots := (mem_slots mem)(p \<mapsto> Element v)\<rparr>)"
  using live_mapped [OF assms sizeof_le_extent [OF assms(1)]] by (simp add: construct_def)

lemma pool_at_dtors [simp]: "pool_at P n bs fs s (mem\<lparr>mem_dtors := d\<rparr>) \<longleftrightarrow> pool_at P n bs fs s mem"
proof -
  have m: "mapped (mem\<lparr>mem_dtors := d\<rparr>) = mapped mem" by (simp add: mapped_def fun_eq_iff)
  have "read_next (mem\<lparr>mem_dtors := d\<rparr>) q = read_next mem q" for q by (simp add: read_next_def m)
  then have "links (mem\<lparr>mem_dtors := d\<rparr>) r qs = links mem r qs" for r qs by (intro links_cong) simp
  then show ?thesis by (simp add: pool_at_def)
qed

lemma destruct_ok:
  assumes "pool_type_ok P" "pool_at P n bs fs s mem" "p \<in> live P bs fs" "mem_slots mem p = Some (Element v)"
  shows "destruct P p mem = Some (mem\<lparr>mem_slots := (mem_slots mem)(p := None), mem_dtors := mem_dtors mem @ [p]\<rparr>)"
    "pool_at P n bs fs s (mem\<lparr>mem_slots := (mem_slots mem)(p := None), mem_dtors := mem_dtors mem @ [p]\<rparr>)"
proof -
  show "destruct P p mem = Some (mem\<lparr>mem_slots := (mem_slots mem)(p := None), mem_dtors := mem_dtors mem @ [p]\<rparr>)"
    using live_mapped [OF assms(1-3) sizeof_le_extent [OF assms(1)]] assms(4) by (simp add: destruct_def)
  have "pool_at P n bs fs s ((mem\<lparr>mem_slots := (mem_slots mem)(p := None)\<rparr>)\<lparr>mem_dtors := mem_dtors mem @ [p]\<rparr>)"
    using pool_at_write [OF assms(1-3)] by simp
  then show "pool_at P n bs fs s (mem\<lparr>mem_slots := (mem_slots mem)(p := None), mem_dtors := mem_dtors mem @ [p]\<rparr>)" by simp
qed

definition nodes_at :: "pool_type \<Rightarrow> (u64 \<Rightarrow> 'a option) \<Rightarrow> u64 list \<Rightarrow> u64 list \<Rightarrow> pool \<Rightarrow> 'a memory \<Rightarrow> bool" where
  "nodes_at P \<sigma> bs fs s mem \<longleftrightarrow> (\<exists>n. pool_at P n bs fs s mem) \<and> live P bs fs = dom \<sigma> \<and>
     (\<forall>p v. \<sigma> p = Some v \<longrightarrow> mem_slots mem p = Some (Element v))"

text \<open>Taking a node succeeds unless the free list is empty and the operating system has no memory.\<close>

lemma allocate_none:
  assumes "pool_at P n bs [] s mem" "va (mem_allocs mem) (mem_regions mem) n = 0"
  shows "allocate P va (s, mem) = None"
proof -
  note A = pool_atD [OF assms(1)]
  have "\<not> list_ex (\<lambda>r. in_region r 0 8) (mem_regions mem)"
    using regions_okD [OF A(4)] by (auto simp: list_ex_iff in_region_def)
  then have "write_next (mem\<lparr>mem_allocs := mem_allocs mem + 1\<rparr>) 0 q = None" for q by (simp add: write_next_def mapped_def)
  then show ?thesis using A(1,3,7) assms(2) by (simp add: allocate_def allocate_block_def virtual_alloc_def Let_def)
qed

lemma allocate_ok:
  assumes "pool_type_ok P" "valloc_ok va" "pool_at P n bs fs s mem"
    "m_free_slots s \<noteq> 0 \<or> va (mem_allocs mem) (mem_regions mem) n \<noteq> 0"
  shows "\<exists>p s' mem' bs' fs'. allocate P va (s, mem) = Some (p, s', mem') \<and> pool_at P n bs' fs' s' mem' \<and>
    p \<notin> live P bs fs \<and> live P bs' fs' = insert p (live P bs fs) \<and> (\<forall>q\<in>live P bs fs. mem_slots mem' q = mem_slots mem q)"
proof (cases fs)
  case Nil
  note at = assms(3) [unfolded Nil]
  have "va (mem_allocs mem) (mem_regions mem) n \<noteq> 0" using assms(4) pool_atD(3) [OF at] by simp
  from allocate_fresh [OF assms(1) at assms(2) this] obtain b s' mem' where
    r: "allocate P va (s, mem) = Some (first_slot P b, s', mem')" "pool_at P n (b # bs) [] s' mem'" "b \<notin> set bs"
    "\<forall>q\<in>live P bs []. mem_slots mem' q = mem_slots mem q" by blast
  have "first_slot P b \<notin> first_slot P ` set bs" using first_slot_inj [OF assms(1) r(2)] r(3) by (auto simp: inj_on_def)
  with r show ?thesis unfolding Nil by (intro exI [of _ "first_slot P b"] exI [of _ s'] exI [of _ mem'] exI [of _ "b # bs"] exI [of _ "[]"])
    (simp add: live_def)
next
  case (Cons p fs')
  note at = assms(3) [unfolded Cons]
  from allocate_free [OF assms(1) at, of va] live_free [OF at] show ?thesis unfolding Cons by blast
qed

lemma new_element_ok:
  assumes "pool_type_ok P" "valloc_ok va" "nodes_at P \<sigma> bs fs s mem" "block_size P = Some n"
    "m_free_slots s \<noteq> 0 \<or> va (mem_allocs mem) (mem_regions mem) n \<noteq> 0"
  shows "\<exists>p s' mem' bs' fs'. new_element P va v (s, mem) = Some (p, s', mem') \<and> \<sigma> p = None \<and> p \<noteq> 0 \<and>
    nodes_at P (\<sigma>(p \<mapsto> v)) bs' fs' s' mem'"
proof -
  from assms(3) obtain at: "pool_at P n bs fs s mem" and l: "live P bs fs = dom \<sigma>" and c: "\<And>p v. \<sigma> p = Some v \<Longrightarrow> mem_slots mem p = Some (Element v)"
    using pool_atD(1) assms(4) unfolding nodes_at_def by fastforce
  from allocate_ok [OF assms(1,2) at assms(5)] obtain p s' mem' bs' fs' where r: "allocate P va (s, mem) = Some (p, s', mem')"
    "pool_at P n bs' fs' s' mem'" "p \<notin> live P bs fs" "live P bs' fs' = insert p (live P bs fs)"
    "\<forall>q\<in>live P bs fs. mem_slots mem' q = mem_slots mem q" by blast
  define mem'' where "mem'' = mem'\<lparr>mem_slots := (mem_slots mem')(p \<mapsto> Element v)\<rparr>"
  have p: "p \<in> live P bs' fs'" using r(4) by simp
  have "p \<in> first_slot P ` set bs'" using p by (auto simp: live_def)
  then have p0: "p \<noteq> 0" by (rule slot_not_0 [OF assms(1) r(2)])
  have "new_element P va v (s, mem) = Some (p, s', mem'')"
    using r(1) construct_ok [OF assms(1) r(2) p, of v] by (simp add: new_element_def mem''_def)
  moreover have "\<sigma> p = None" using r(3) l by auto
  moreover have "nodes_at P (\<sigma>(p \<mapsto> v)) bs' fs' s' mem''" unfolding nodes_at_def
  proof (intro conjI)
    show "\<exists>n. pool_at P n bs' fs' s' mem''" using pool_at_write [OF assms(1) r(2) p] unfolding mem''_def by blast
    show "live P bs' fs' = dom (\<sigma>(p \<mapsto> v))" using r(4) l by simp
    show "\<forall>q w. (\<sigma>(p \<mapsto> v)) q = Some w \<longrightarrow> mem_slots mem'' q = Some (Element w)"
      using c r(5) l by (auto simp: mem''_def) (metis domI)
  qed
  ultimately show ?thesis using p0 by blast
qed

lemma delete_element_ok:
  assumes "pool_type_ok P" "nodes_at P \<sigma> bs fs s mem" "p \<in> dom \<sigma>"
  shows "\<exists>s' mem'. delete_element P p (s, mem) = Some (s', mem') \<and> nodes_at P (\<sigma>(p := None)) bs (p # fs) s' mem' \<and> m_free_slots s' = p \<and>
    mem_dtors mem' = mem_dtors mem @ (if pt_trivial P then [] else [p])"
proof -
  from assms(2) obtain n where at: "pool_at P n bs fs s mem" and l: "live P bs fs = dom \<sigma>"
    and c: "\<And>p v. \<sigma> p = Some v \<Longrightarrow> mem_slots mem p = Some (Element v)" unfolding nodes_at_def by blast
  define m1 where "m1 = (if pt_trivial P then mem else mem\<lparr>mem_slots := (mem_slots mem)(p := None), mem_dtors := mem_dtors mem @ [p]\<rparr>)"
  from assms(3) obtain v where v: "\<sigma> p = Some v" by blast
  have p: "p \<in> live P bs fs" using l assms(3) by simp
  then have "p \<in> first_slot P ` set bs" by (auto simp: live_def)
  then have p0: "p \<noteq> 0" by (rule slot_not_0 [OF assms(1) at])
  have at1: "pool_at P n bs fs s m1" using at destruct_ok(2) [OF assms(1) at p c [OF v]] by (auto simp: m1_def)
  from deallocate_ok [OF assms(1) at1 p] obtain s' mem' where r: "deallocate p (s, m1) = Some (s', mem')" "pool_at P n bs (p # fs) s' mem'"
    "\<forall>q. q \<noteq> p \<longrightarrow> mem_slots mem' q = mem_slots m1 q" "m_free_slots s' = p" "mem_dtors mem' = mem_dtors m1" by blast
  have "delete_element P p (s, mem) = Some (s', mem')"
    using r(1) p0 destruct_ok(1) [OF assms(1) at p c [OF v]] by (auto simp: delete_element_def m1_def)
  moreover have "nodes_at P (\<sigma>(p := None)) bs (p # fs) s' mem'"
    unfolding nodes_at_def using r(2,3) l c by (auto simp: live_def m1_def)
  moreover have "mem_dtors mem' = mem_dtors mem @ (if pt_trivial P then [] else [p])" using r(5) by (simp add: m1_def)
  ultimately show ?thesis using r(4) by blast
qed

section \<open>Programs that use the pool\<close>

inductive nodes_reach :: "pool_type \<Rightarrow> valloc \<Rightarrow> (u64 \<Rightarrow> 'a option) \<Rightarrow> pool \<times> 'a memory \<Rightarrow> bool" for P va where
  start: "regions_ok (mem_regions mem) \<Longrightarrow> nodes_reach P va (\<lambda>_. None) (pool_new, mem)"
| new: "nodes_reach P va \<sigma> sm \<Longrightarrow> new_element P va v sm = Some (p, sm') \<Longrightarrow> nodes_reach P va (\<sigma>(p \<mapsto> v)) sm'"
| delete: "nodes_reach P va \<sigma> sm \<Longrightarrow> p \<in> dom \<sigma> \<Longrightarrow> delete_element P p sm = Some sm' \<Longrightarrow> nodes_reach P va (\<sigma>(p := None)) sm'"
| assign: "nodes_reach P va \<sigma> (s, mem) \<Longrightarrow> p \<in> dom \<sigma> \<Longrightarrow> construct P p v mem = Some mem' \<Longrightarrow> nodes_reach P va (\<sigma>(p \<mapsto> v)) (s, mem')"

lemma new_element_none:
  assumes "nodes_at P \<sigma> bs fs s mem" "block_size P = Some n" "m_free_slots s = 0" "va (mem_allocs mem) (mem_regions mem) n = 0"
  shows "new_element P va v (s, mem) = None"
proof -
  from assms(1,2) have at: "pool_at P n bs fs s mem" unfolding nodes_at_def using pool_atD(1) by fastforce
  then have "fs = []" using pool_atD(3) [OF at] assms(3) by simp
  with allocate_none [of P n bs s mem va] at assms(4) show ?thesis by (simp add: new_element_def)
qed

lemma nodes_reach_at:
  assumes "pool_type_ok P" "valloc_ok va" "nodes_reach P va \<sigma> sm"
  shows "\<exists>bs fs. nodes_at P \<sigma> bs fs (fst sm) (snd sm)"
  using assms(3)
proof (induction rule: nodes_reach.induct)
  case (start mem)
  from block_size_ok [OF assms(1)] obtain n where "block_size P = Some n" by blast
  with start have "nodes_at P (\<lambda>_. None :: 'a option) [] [] pool_new mem" using pool_at_new by (auto simp: nodes_at_def live_def)
  then show ?case by auto
next
  case (new \<sigma> sm v p sm')
  obtain s mem where sm: "sm = (s, mem)" by force
  from new.IH sm obtain bs fs where at: "nodes_at P \<sigma> bs fs s mem" by auto
  from block_size_ok [OF assms(1)] obtain n where n: "block_size P = Some n" by blast
  have "m_free_slots s \<noteq> 0 \<or> va (mem_allocs mem) (mem_regions mem) n \<noteq> 0"
    using new_element_none [OF at n, of va v] new.hyps(2) sm by auto
  from new_element_ok [OF assms(1,2) at n this, of v] new.hyps(2) [unfolded sm] show ?case
    by (metis (no_types, lifting) fst_conv old.prod.inject option.inject snd_conv)
next
  case (delete \<sigma> sm p sm')
  obtain s mem where sm: "sm = (s, mem)" by force
  from delete.IH sm obtain bs fs where "nodes_at P \<sigma> bs fs s mem" by auto
  from delete_element_ok [OF assms(1) this delete.hyps(2)] delete.hyps(3) [unfolded sm] show ?case
    by (metis (no_types, lifting) fst_conv option.inject snd_conv)
next
  case (assign \<sigma> s mem p v mem')
  then obtain bs fs n where at: "pool_at P n bs fs s mem" "live P bs fs = dom \<sigma>"
    and c: "\<forall>p v. \<sigma> p = Some v \<longrightarrow> mem_slots mem p = Some (Element v)" by (auto simp: nodes_at_def)
  from assign.hyps(2) at(2) have p: "p \<in> live P bs fs" by simp
  have m: "mem' = mem\<lparr>mem_slots := (mem_slots mem)(p \<mapsto> Element v)\<rparr>"
    using assign.hyps(3) construct_ok [OF assms(1) at(1) p, of v] by simp
  have "nodes_at P (\<sigma>(p \<mapsto> v)) bs fs s mem'"
    unfolding nodes_at_def m using pool_at_write [OF assms(1) at(1) p] at(2) c assign.hyps(2) by auto
  then show ?case by (metis fst_conv snd_conv)
qed

end
