(* ===== verification/Pool_Allocator_Destroy.thy ===== *)
theory Pool_Allocator_Destroy
  imports Pool_Allocator_Nodes
begin

text \<open>
  The destructor of the pool: it walks the chain of blocks and gives every block back; for a type with a destructor of its own it first destroys the element
  of the block, unless its slot is on the free list.
\<close>

section \<open>Blocks without a free list\<close>

definition blocks_pool :: "pool_type \<Rightarrow> u64 list \<Rightarrow> pool" where
  "blocks_pool P bs = (if bs = [] then pool_new else
     \<lparr>m_current_block = hd bs, m_current_slot = first_slot P (hd bs) + chunk_count P * sizeof_slot P, m_last_slot = 0, m_free_slots = 0\<rparr>)"

abbreviation blocks_at :: "pool_type \<Rightarrow> u64 \<Rightarrow> u64 list \<Rightarrow> 'a memory \<Rightarrow> bool" where
  "blocks_at P n bs mem \<equiv> pool_at P n bs [] (blocks_pool P bs) mem"

lemma blocks_at_iff:
  "blocks_at P n bs mem \<longleftrightarrow> block_size P = Some n \<and> links mem (if bs = [] then 0 else hd bs) bs \<and> regions_ok (mem_regions mem) \<and>
     (\<forall>b\<in>set bs. (b, n) \<in> set (mem_regions mem) \<and> 65536 dvd unat b)"
  by (auto simp: pool_at_def blocks_pool_def pool_new_def)

lemma links_hd: "links mem p bs \<Longrightarrow> p = (if bs = [] then 0 else hd bs)"
  by (cases bs) auto

lemma pool_at_blocks: "pool_at P n bs fs s mem \<Longrightarrow> blocks_at P n bs mem"
proof -
  assume "pool_at P n bs fs s mem"
  note A = pool_atD [OF this]
  from links_hd [OF A(2)] have h: "(if bs = [] then 0 else hd bs) = m_current_block s" by simp
  show ?thesis unfolding blocks_at_iff h using A(1,2,4,5) by blast
qed

lemma virtual_free_simps [simp]:
  "mem_dtors (virtual_free b mem) = mem_dtors mem" "mem_regions (virtual_free b mem) = filter (\<lambda>r. fst r \<noteq> b) (mem_regions mem)"
  by (auto simp: virtual_free_def) (auto simp: filter_id_conv image_iff intro!: sym [OF filter_True])

lemma blocks_at_Cons:
  assumes "pool_type_ok P" "blocks_at P n (b # bs) mem"
  shows "read_next mem b = Some (if bs = [] then 0 else hd bs)" "blocks_at P n bs (virtual_free b mem)"
    "\<forall>c\<in>set bs. mem_slots (virtual_free b mem) (first_slot P c) = mem_slots mem (first_slot P c)" "b \<notin> set bs" "b \<noteq> 0"
proof -
  note A = assms(2) [unfolded blocks_at_iff]
  from A obtain r where r: "read_next mem b = Some r" "links mem r bs" "b \<noteq> 0" by auto
  with links_hd [OF r(2)] show "read_next mem b = Some (if bs = [] then 0 else hd bs)" by simp
  have d: "distinct (b # bs)" using A links_distinct by blast
  then show "b \<notin> set bs" by simp
  have out: "\<not> in_region r q 1" if "c \<in> set bs" "in_region (c, n) q 1" "r \<in> set (mem_regions mem)" "fst r = b" for c q r
  proof -
    have "(c, n) \<noteq> r" using that(1,4) d by auto
    then have "apart (c, n) r" using A that(1,3) by (intro regions_ok_apart [of "mem_regions mem"]) auto
    then show ?thesis using that(2) by (auto simp: apart_def in_region_def word_le_nat_alt)
  qed
  have sl: "mem_slots (virtual_free b mem) q = mem_slots mem q" if "c \<in> set bs" "in_region (c, n) q 1" for c q
    using out [OF that] by (auto simp: virtual_free_def)
  show "\<forall>c\<in>set bs. mem_slots (virtual_free b mem) (first_slot P c) = mem_slots mem (first_slot P c)"
  proof
    fix c assume c: "c \<in> set bs"
    then have c': "c \<in> set (b # bs)" by simp
    have "in_region (c, n) (first_slot P c) 1" using block_slot(1,2) [OF assms c']
      by (simp add: in_region_def word_le_nat_alt slot_extent_def)
    then show "mem_slots (virtual_free b mem) (first_slot P c) = mem_slots mem (first_slot P c)" by (rule sl [OF c])
  qed
  have "read_next (virtual_free b mem) c = read_next mem c" if c: "c \<in> set bs" for c
  proof -
    have c': "c \<in> set (b # bs)" using c by simp
    have i: "in_region (c, n) c 8" using block_slot(2) [OF assms c'] slot_align_bounds(1) [OF assms(1)] by (simp add: in_region_def)
    then have s: "mem_slots (virtual_free b mem) c = mem_slots mem c" using sl [OF c, of c] by (simp add: in_region_def)
    have m: "(c, n) \<in> set (mem_regions (virtual_free b mem))" using A c d by auto
    then have "mapped (virtual_free b mem) c 8" "mapped mem c 8" using i A c unfolding mapped_def list_ex_iff by auto
    with s show ?thesis by (simp add: read_next_def)
  qed
  then have "links (virtual_free b mem) r bs" using r(2) links_cong [of bs "virtual_free b mem" mem] by blast
  then show "blocks_at P n bs (virtual_free b mem)" unfolding blocks_at_iff
    using A d links_hd [OF r(2)] regions_ok_filter by auto
  show "b \<noteq> 0" by fact
qed

text \<open>The loop over the elements of a block runs once.\<close>

lemma first_slot_last:
  assumes "pool_type_ok P" "pool_at P n bs fs s mem" "b \<in> set bs"
  shows "first_slot P b < last_slot P b" "last_slot P b \<le> first_slot P b + chunk_count P * sizeof_slot P"
    "first_slot P b < first_slot P b + chunk_count P * sizeof_slot P"
proof -
  have lt: "unat (first_slot P b) < 2 ^ 47" using block_slot(1-3) [OF assms] by (simp add: slot_extent_def)
  have l: "last_slot P b = first_slot P b + chunk_size P" by (simp add: last_slot_def first_slot_def Let_def)
  show a: "first_slot P b < last_slot P b" unfolding l word_less_nat_alt chunk_slack(2) [OF assms(1) lt]
    using chunk_size_eq(2) [OF assms(1)] by simp
  show b: "last_slot P b \<le> first_slot P b + chunk_count P * sizeof_slot P" unfolding l by (rule chunk_slack(1) [OF assms(1) lt])
  show "first_slot P b < first_slot P b + chunk_count P * sizeof_slot P" using a b by (rule less_le_trans)
qed

lemma lower_bound_sorted:
  assumes "sorted fs"
  shows "lower_bound fs p = None \<longleftrightarrow> (\<forall>q\<in>set fs. q < p)" "lower_bound fs p = Some q \<Longrightarrow> q = p \<longleftrightarrow> p \<in> set fs"
  using assms by (induction fs) (auto split: if_splits)

lemma free_blocks_loop_ok:
  assumes "pool_type_ok P"
  shows "blocks_at P n bs mem \<Longrightarrow> \<exists>mem'. free_blocks_loop (if bs = [] then 0 else hd bs) mem = Some mem' \<and>
    mem_regions mem' = filter (\<lambda>r. fst r \<notin> set bs) (mem_regions mem) \<and> mem_dtors mem' = mem_dtors mem"
proof (induction bs arbitrary: mem)
  case Nil
  then show ?case by (simp add: free_blocks_loop.simps)
next
  case (Cons b bs)
  note B = blocks_at_Cons [OF assms Cons.prems]
  from Cons.IH [OF B(2)] obtain mem' where m: "free_blocks_loop (if bs = [] then 0 else hd bs) (virtual_free b mem) = Some mem'"
    "mem_regions mem' = filter (\<lambda>r. fst r \<notin> set bs) (mem_regions (virtual_free b mem))" "mem_dtors mem' = mem_dtors mem" by auto
  have "free_blocks_loop b mem = Some mem'" using B(1,5) m(1) by (subst free_blocks_loop.simps) simp
  with m(2,3) show ?case by (auto intro!: filter_cong)
qed

lemma destruct_all_loop_once:
  assumes "ptr < e" "e \<le> ptr + sizeof_slot P" "destruct P ptr mem = Some mem'"
  shows "destruct_all_loop P e ptr mem = Some mem'"
proof -
  have "destruct_all_loop P e (ptr + sizeof_slot P) mem' = Some mem'" using assms(2) by (subst destruct_all_loop.simps) auto
  then show ?thesis using assms(1,3) by (subst destruct_all_loop.simps) simp
qed

lemma destruct_used_loop_once:
  assumes "ptr < e" "e \<le> ptr + sizeof_slot P" "sorted fs" "\<exists>q\<in>set fs. ptr \<le> q" "ptr \<notin> set fs \<Longrightarrow> destruct P ptr mem = Some mem'"
    "ptr \<in> set fs \<Longrightarrow> mem' = mem"
  shows "destruct_used_loop P fs e ptr mem = Some mem'"
proof -
  from lower_bound_sorted(1) [OF assms(3), of ptr] assms(4) obtain q where q: "lower_bound fs ptr = Some q" by (cases "lower_bound fs ptr") auto
  have "destruct_used_loop P fs e (ptr + sizeof_slot P) mem' = Some mem'" using assms(2) by (subst destruct_used_loop.simps) auto
  then show ?thesis using assms(1,5,6) q lower_bound_sorted(2) [OF assms(3) q] by (subst destruct_used_loop.simps) auto
qed

lemma destruct_used_loop_end:
  assumes "ptr < e" "sorted fs" "\<forall>q\<in>set fs. q < ptr"
  shows "destruct_used_loop P fs e ptr mem = None"
  using assms lower_bound_sorted(1) [OF assms(2), of ptr] by (subst destruct_used_loop.simps) simp

text \<open>The slots of the blocks hold elements, those of the free list apart.\<close>

definition elements_at :: "pool_type \<Rightarrow> u64 list \<Rightarrow> u64 list \<Rightarrow> 'a memory \<Rightarrow> bool" where
  "elements_at P fs bs mem \<longleftrightarrow> (\<forall>b\<in>set bs. first_slot P b \<notin> set fs \<longrightarrow> (\<exists>v. mem_slots mem (first_slot P b) = Some (Element v)))"

lemma blocks_loop_step:
  assumes "pool_type_ok P" "pt_chunk_count P = 1" "blocks_at P n (b # bs) mem" "elements_at P fs (b # bs) mem" "sorted fs"
    "fs = [] \<or> (\<exists>q\<in>set fs. first_slot P b \<le> q)" "first_slot P b < e" "e \<le> first_slot P b + sizeof_slot P"
  shows "\<exists>mem'. blocks_loop P fs b e mem = blocks_loop P fs (if bs = [] then 0 else hd bs) (last_slot P (if bs = [] then 0 else hd bs)) mem' \<and>
    blocks_at P n bs mem' \<and> elements_at P fs bs mem' \<and> mem_regions mem' = filter (\<lambda>r. fst r \<noteq> b) (mem_regions mem) \<and>
    mem_dtors mem' = mem_dtors mem @ (if first_slot P b \<in> set fs then [] else [first_slot P b])"
proof -
  define p where "p = first_slot P b"
  define m1 where "m1 = (if p \<in> set fs then mem else mem\<lparr>mem_slots := (mem_slots mem)(p := None), mem_dtors := mem_dtors mem @ [p]\<rparr>)"
  note B = blocks_at_Cons [OF assms(1,3)]
  have l: "p \<in> live P (b # bs) []" by (simp add: live_def p_def)
  have d: "destruct P p mem = Some m1" "blocks_at P n (b # bs) m1" if "p \<notin> set fs"
    using destruct_ok [OF assms(1,3) l] assms(4) that by (auto simp: m1_def elements_at_def p_def)
  have at1: "blocks_at P n (b # bs) m1" using d(2) assms(3) by (cases "p \<in> set fs") (simp_all add: m1_def)
  have one: "(if fs = [] then destruct_all_loop P e p mem else destruct_used_loop P fs e p mem) = Some m1"
    using assms(5-8) d(1) by (auto intro!: destruct_all_loop_once destruct_used_loop_once simp: p_def [symmetric]) (simp add: m1_def)
  note B1 = blocks_at_Cons [OF assms(1) at1]
  have "blocks_loop P fs b e mem = blocks_loop P fs (if bs = [] then 0 else hd bs) (last_slot P (if bs = [] then 0 else hd bs)) (virtual_free b m1)"
    by (subst blocks_loop.simps) (simp only: if_P [OF B(5)] B(1) one [unfolded p_def] Let_def Option.bind.bind_lunit)
  moreover have "first_slot P c \<noteq> p" if "c \<in> set bs" for c
    using first_slot_inj [OF assms(1,3)] B(4) that unfolding p_def by (simp add: inj_on_insert) (metis imageI)
  then have "elements_at P fs bs (virtual_free b m1)" using assms(4) B1(3) by (auto simp: elements_at_def m1_def)
  ultimately show ?thesis using B1(2) by (intro exI [of _ "virtual_free b m1"]) (simp add: m1_def p_def)
qed

lemma blocks_loop_ok:
  assumes "pool_type_ok P" "pt_chunk_count P = 1" "sorted fs"
  shows "blocks_at P n bs mem \<Longrightarrow> elements_at P fs bs mem \<Longrightarrow> fs = [] \<or> (\<forall>b\<in>set bs. \<exists>q\<in>set fs. first_slot P b \<le> q) \<Longrightarrow>
    bs \<noteq> [] \<longrightarrow> first_slot P (hd bs) < e \<and> e \<le> first_slot P (hd bs) + sizeof_slot P \<Longrightarrow>
    \<exists>mem'. blocks_loop P fs (if bs = [] then 0 else hd bs) e mem = Some mem' \<and>
      mem_regions mem' = filter (\<lambda>r. fst r \<notin> set bs) (mem_regions mem) \<and>
      mem_dtors mem' = mem_dtors mem @ filter (\<lambda>p. p \<notin> set fs) (map (first_slot P) bs)"
proof (induction bs arbitrary: mem e)
  case Nil
  then show ?case by (simp add: blocks_loop.simps)
next
  case (Cons b bs)
  from Cons.prems(3) have "fs = [] \<or> (\<exists>q\<in>set fs. first_slot P b \<le> q)" by auto
  with blocks_loop_step [OF assms(1,2) Cons.prems(1,2) assms(3), of e] Cons.prems(4) obtain m1 where m1:
    "blocks_loop P fs b e mem = blocks_loop P fs (if bs = [] then 0 else hd bs) (last_slot P (if bs = [] then 0 else hd bs)) m1"
    "blocks_at P n bs m1" "elements_at P fs bs m1" "mem_regions m1 = filter (\<lambda>r. fst r \<noteq> b) (mem_regions mem)"
    "mem_dtors m1 = mem_dtors mem @ (if first_slot P b \<in> set fs then [] else [first_slot P b])" by auto
  have "first_slot P (hd bs) < last_slot P (hd bs) \<and> last_slot P (hd bs) \<le> first_slot P (hd bs) + sizeof_slot P" if "bs \<noteq> []"
    using first_slot_last(1,2) [OF assms(1) m1(2), of "hd bs"] that assms(2) by (simp add: chunk_count_def)
  with Cons.IH [OF m1(2,3), of "last_slot P (if bs = [] then 0 else hd bs)"] Cons.prems(3) obtain mem' where
    "blocks_loop P fs (if bs = [] then 0 else hd bs) (last_slot P (if bs = [] then 0 else hd bs)) m1 = Some mem'"
    "mem_regions mem' = filter (\<lambda>r. fst r \<notin> set bs) (mem_regions m1)"
    "mem_dtors mem' = mem_dtors m1 @ filter (\<lambda>p. p \<notin> set fs) (map (first_slot P) bs)" by auto
  with m1 show ?case by (auto intro!: filter_cong)
qed

lemma blocks_loop_end:
  assumes "pool_type_ok P" "pt_chunk_count P = 1" "sorted fs" "fs \<noteq> []"
  shows "blocks_at P n bs mem \<Longrightarrow> elements_at P fs bs mem \<Longrightarrow> \<exists>b\<in>set bs. \<forall>q\<in>set fs. q < first_slot P b \<Longrightarrow>
    bs \<noteq> [] \<longrightarrow> first_slot P (hd bs) < e \<and> e \<le> first_slot P (hd bs) + sizeof_slot P \<Longrightarrow>
    blocks_loop P fs (if bs = [] then 0 else hd bs) e mem = None"
proof (induction bs arbitrary: mem e)
  case (Cons b bs)
  show ?case
  proof (cases "\<forall>q\<in>set fs. q < first_slot P b")
    case True
    then have "destruct_used_loop P fs e (first_slot P b) mem = None" using Cons.prems(4) assms(3) by (intro destruct_used_loop_end) simp_all
    then show ?thesis using assms(4) blocks_at_Cons(1,5) [OF assms(1) Cons.prems(1)] by (subst blocks_loop.simps) (simp add: Let_def)
  next
    case False
    then have "\<exists>q\<in>set fs. first_slot P b \<le> q" using not_le by blast
    with blocks_loop_step [OF assms(1,2) Cons.prems(1,2) assms(3), of e] Cons.prems(4) obtain m1 where m1:
      "blocks_loop P fs b e mem = blocks_loop P fs (if bs = [] then 0 else hd bs) (last_slot P (if bs = [] then 0 else hd bs)) m1"
      "blocks_at P n bs m1" "elements_at P fs bs m1" by auto
    have h: "first_slot P (hd bs) < last_slot P (hd bs) \<and> last_slot P (hd bs) \<le> first_slot P (hd bs) + sizeof_slot P" if "bs \<noteq> []"
      using first_slot_last(1,2) [OF assms(1) m1(2), of "hd bs"] that assms(2) by (simp add: chunk_count_def)
    have "bs \<noteq> []" using Cons.prems(3) False by auto
    with h Cons.IH [OF m1(2,3), of "last_slot P (hd bs)"] Cons.prems(3) False m1(1) show ?thesis by auto
  qed
qed simp

end
