(* ===== verification/Pool_Allocator_Spec.thy ===== *)
theory Pool_Allocator_Spec
  imports Pool_Allocator_Destroy
begin

text \<open>The properties of the pool of pool_allocator.hpp, with a small system for the examples.\<close>

section \<open>Reachable pools\<close>

lemma align_dvd:
  assumes "pool_type_ok P" shows "unat (pt_alignof P) dvd slot_align P"
proof -
  from assms obtain k where k: "k \<le> 16" "pt_alignof P = 2 ^ k" by (auto simp: pool_type_ok_def)
  show ?thesis
  proof (cases "pt_alignof P \<le> 8")
    case True
    then have "(2 :: nat) ^ k \<le> 2 ^ 3" using k by (simp add: word_le_nat_alt unat_2_power)
    then have "k \<le> 3" by (rule power_le_imp_le_exp [rotated]) simp
    then have "(2 :: nat) ^ k dvd 2 ^ 3" by (rule le_imp_power_dvd)
    with True k show ?thesis by (simp add: alignof_slot_def max_def unat_2_power)
  qed (simp add: alignof_slot_def max_def)
qed

lemma live_card:
  assumes "pool_type_ok P" "pool_at P n bs fs s mem"
  shows "card (live P bs fs) + length fs = length bs" "finite (live P bs fs)"
proof -
  note A = pool_atD [OF assms(2)]
  have "card (first_slot P ` set bs) = length bs"
    using first_slot_inj [OF assms] links_distinct [OF A(2)] by (simp add: card_image distinct_card)
  moreover have "card (set fs) = length fs" using links_distinct [OF A(3)] by (rule distinct_card)
  moreover have "card (set fs) \<le> card (first_slot P ` set bs)" using A(6) by (intro card_mono) simp_all
  ultimately show "card (live P bs fs) + length fs = length bs" "finite (live P bs fs)"
    using A(6) by (simp_all add: live_def card_Diff_subset)
qed

text \<open>The state of a reachable pool, with its chains written as what the code's own functions return.\<close>

lemma nodes_reach_state:
  assumes "pool_type_ok P" "valloc_ok va" "nodes_reach P va \<sigma> (s, mem)"
  obtains n bs fs where "block_size P = Some n" "block_vector (s, mem) = Some bs" "pointer_vector mem (m_free_slots s) = Some fs"
    "pool_at P n bs fs s mem" "live P bs fs = dom \<sigma>" "\<And>p v. \<sigma> p = Some v \<Longrightarrow> mem_slots mem p = Some (Element v)" "nodes_at P \<sigma> bs fs s mem"
proof -
  from nodes_reach_at [OF assms] obtain bs fs where at: "nodes_at P \<sigma> bs fs s mem" by auto
  then obtain n where p: "pool_at P n bs fs s mem" "live P bs fs = dom \<sigma>" "\<And>p v. \<sigma> p = Some v \<Longrightarrow> mem_slots mem p = Some (Element v)"
    unfolding nodes_at_def by blast
  note A = pool_atD [OF p(1)]
  show ?thesis using that [of n bs fs] A(1) pointer_vector_links [OF A(2)] pointer_vector_links [OF A(3)] p at by (simp add: block_vector_def)
qed

section \<open>An example system\<close>

text \<open>An operating system with a million units of 64K, and two types: a number of eight bytes without a destructor and an object of 24 bytes with one.\<close>

definition demo_valloc :: valloc where
  "demo_valloc i rs n =
    (let p = 65536 * (of_nat i + 1) in
     if i < 1000000 \<and> n \<le> 65536 \<and> list_all (\<lambda>r. unat p + unat n \<le> unat (fst r) \<or> unat (fst r) + unat (snd r) \<le> unat p) rs then p else 0)"

lemma demo_valloc_ok: "valloc_ok demo_valloc"
  unfolding valloc_ok_def
proof (intro allI impI)
  fix i rs and n :: u64
  assume a: "0 < n" "demo_valloc i rs n \<noteq> 0"
  define p where "p = (65536 * (of_nat i + 1) :: u64)"
  have d: "i < 1000000" "n \<le> 65536" "list_all (\<lambda>r. unat p + unat n \<le> unat (fst r) \<or> unat (fst r) + unat (snd r) \<le> unat p) rs" "demo_valloc i rs n = p"
    using a(2) unfolding demo_valloc_def Let_def p_def [symmetric] by (auto split: if_splits)
  have "p = of_nat (65536 * (i + 1))" by (simp add: p_def)
  then have u: "unat p = 65536 * (i + 1)" using d(1) by (simp only: unat_of_nat) simp
  have n: "unat n \<le> 65536" using d(2) by (simp add: word_le_nat_alt)
  show "65536 dvd unat (demo_valloc i rs n) \<and> unat (demo_valloc i rs n) + unat n \<le> 2 ^ 47 \<and> list_all (apart (demo_valloc i rs n, n)) rs"
    using d n by (auto simp: u apart_def list_all_iff)
qed

definition demo_number :: pool_type where
  "demo_number = \<lparr>pt_sizeof = 8, pt_alignof = 8, pt_trivial = True, pt_chunk_count = 1, pt_page_size = 4096, pt_min_alloc = 8\<rparr>"

definition demo_object :: pool_type where
  "demo_object = \<lparr>pt_sizeof = 24, pt_alignof = 8, pt_trivial = False, pt_chunk_count = 1, pt_page_size = 4096, pt_min_alloc = 8\<rparr>"

lemma demo_types: "pool_type_ok demo_number" "pool_type_ok demo_object"
  by (auto simp: pool_type_ok_def demo_number_def demo_object_def intro!: exI [of _ 3])

definition demo_memory :: "int memory" where
  "demo_memory = \<lparr>mem_regions = [], mem_slots = (\<lambda>_. None), mem_allocs = 0, mem_dtors = []\<rparr>"

text \<open>Two elements are made, the first of them is deleted.\<close>

definition demo_two :: "pool_type \<Rightarrow> (u64 \<times> u64 \<times> pool \<times> int memory) option" where
  "demo_two P = do {
     (p, sm) \<leftarrow> new_element P demo_valloc 5 (pool_new, demo_memory);
     (q, sm) \<leftarrow> new_element P demo_valloc 6 sm;
     sm \<leftarrow> delete_element P p sm;
     Some (p, q, sm) }"

lemma demo_two_reach:
  assumes "demo_two P = Some (p, q, sm)"
  shows "nodes_reach P demo_valloc ((\<lambda>_. None)(p \<mapsto> 5, q \<mapsto> 6, p := None)) sm"
proof -
  from assms obtain sm1 sm2 where n: "new_element P demo_valloc 5 (pool_new, demo_memory) = Some (p, sm1)"
    "new_element P demo_valloc 6 sm1 = Some (q, sm2)" "delete_element P p sm2 = Some sm"
    by (auto simp: demo_two_def bind_eq_Some_conv)
  have "nodes_reach P demo_valloc (\<lambda>_. None) (pool_new, demo_memory)" by (rule nodes_reach.start) (simp add: demo_memory_def)
  from nodes_reach.new [OF nodes_reach.new [OF this n(1)] n(2)] show ?thesis
    by (rule nodes_reach.delete [OF _ _ n(3)]) simp
qed

lemma demo_sizes:
  "block_size demo_number = Some 4096" "block_size demo_object = Some 4096"
  "sizeof_slot demo_number = 8" "sizeof_slot demo_object = 24" "chunk_size demo_number = 8" "chunk_size demo_object = 24"
  "chunk_count demo_number = 1" "chunk_count demo_object = 1" "alignof_slot demo_number = 8" "alignof_slot demo_object = 8"
  "pad_pointer 65544 8 = 0" "pad_pointer 131080 8 = 0"
  by code_simp+

lemmas pool_ops = new_element_def allocate_def allocate_block_def virtual_alloc_def write_next_def mapped_def in_region_def
  construct_def destruct_def delete_element_def deallocate_def sizeof_pointer_def Let_def

lemma demo_two_eq:
  "map_option (\<lambda>(p, q, s, mem). (p, q, m_current_block s, m_free_slots s, read_next mem 65544)) (demo_two demo_number) =
     Some (65544, 131080, 131072, 65544, Some 0)"
  "map_option (\<lambda>(p, q, s, mem). (p, q, m_current_block s, m_free_slots s, read_next mem 65544)) (demo_two demo_object) =
     Some (65544, 131080, 131072, 65544, Some 0)"
  by (simp_all add: demo_two_def pool_ops read_next_def demo_sizes pool_new_def demo_memory_def demo_valloc_def)
    (simp_all add: demo_number_def demo_object_def)

lemma demo_two_obtain:
  assumes "P = demo_number \<or> P = demo_object"
  obtains s mem where "demo_two P = Some (65544, 131080, s, mem)" "m_current_block s = 131072" "m_free_slots s = 65544"
    "pointer_vector mem 65544 = Some [65544]" "nodes_reach P demo_valloc [131080 \<mapsto> 6] (s, mem)"
proof -
  from assms demo_two_eq obtain s mem where r: "demo_two P = Some (65544, 131080, s, mem)" "m_current_block s = 131072" "m_free_slots s = 65544"
    "read_next mem 65544 = Some 0" by (elim disjE) (auto simp: map_option_eq_Some)
  have "((\<lambda>_. None)(65544 \<mapsto> 5, 131080 \<mapsto> 6, 65544 := None)) = [131080 :: u64 \<mapsto> 6 :: int]" by (rule ext) simp
  with demo_two_reach [OF r(1)] have "nodes_reach P demo_valloc [131080 \<mapsto> 6] (s, mem)" by (simp only:)
  moreover have "pointer_vector mem 65544 = Some [65544]" using r(4) by (simp add: pointer_vector_def pointer_vector_loop.simps)
  ultimately show ?thesis using r that by blast
qed

section \<open>Properties\<close>

text \<open>C13: The elements that a program has made and not deleted lie in mapped memory, at addresses aligned for their type, do not overlap, and keep
  their values through every sequence of makings, deletions and assignments of others, whatever addresses the operating system chooses.\<close>

theorem pool_nodes_safe:
  assumes "pool_type_ok P" "valloc_ok va" "nodes_reach P va \<sigma> (s, mem)"
  shows "(\<forall>p v. \<sigma> p = Some v \<longrightarrow> mem_slots mem p = Some (Element v) \<and> mapped mem p (unat (pt_sizeof P)) \<and>
      unat (pt_alignof P) dvd unat p \<and> p \<noteq> 0) \<and>
    (\<forall>p\<in>dom \<sigma>. \<forall>q\<in>dom \<sigma>. p \<noteq> q \<longrightarrow> unat p + unat (pt_sizeof P) \<le> unat q \<or> unat q + unat (pt_sizeof P) \<le> unat p)"
proof -
  from nodes_reach_state [OF assms] obtain n bs fs where N: "pool_at P n bs fs s mem" "live P bs fs = dom \<sigma>"
    "\<And>p v. \<sigma> p = Some v \<Longrightarrow> mem_slots mem p = Some (Element v)" by metis
  note le = sizeof_le_extent [OF assms(1)]
  have slot: "\<exists>b\<in>set bs. p = first_slot P b" if "p \<in> dom \<sigma>" for p using that N(2) by (auto simp: live_def)
  have "unat (pt_alignof P) dvd unat p \<and> p \<noteq> 0" if p: "p \<in> dom \<sigma>" for p
  proof -
    from slot [OF p] obtain b where b: "b \<in> set bs" "p = first_slot P b" by blast
    have "unat (pt_alignof P) dvd unat b"
      using align_dvd [OF assms(1)] slot_align_bounds(3) [OF assms(1)] pool_atD(5) [OF N(1) b(1)] by (meson dvd_trans)
    then have "unat (pt_alignof P) dvd unat p" unfolding b(2) block_slot(1) [OF assms(1) N(1) b(1)]
      using align_dvd [OF assms(1)] by (rule dvd_add)
    moreover have "p \<noteq> 0" using b by (intro slot_not_0 [OF assms(1) N(1)]) blast
    ultimately show ?thesis by simp
  qed
  moreover have "unat p + unat (pt_sizeof P) \<le> unat q \<or> unat q + unat (pt_sizeof P) \<le> unat p"
    if "p \<in> dom \<sigma>" "q \<in> dom \<sigma>" "p \<noteq> q" for p q
    using slot [OF that(1)] slot [OF that(2)] that(3) slots_apart(1) [OF assms(1) N(1)] le by fastforce
  moreover have "mapped mem p (unat (pt_sizeof P))" if "p \<in> dom \<sigma>" for p
    using that N(2) by (intro live_mapped [OF assms(1) N(1) _ le]) simp
  ultimately show ?thesis using N(3) by (metis domI)
qed

theorem pool_nodes_safe_witness:
  "\<exists>s mem. demo_two demo_object = Some (65544, 131080, s, mem) \<and> mem_slots mem 131080 = Some (Element 6) \<and> mapped mem 131080 24"
proof -
  obtain s mem where "demo_two demo_object = Some (65544, 131080, s, mem)" "nodes_reach demo_object demo_valloc [131080 \<mapsto> 6] (s, mem)"
    using demo_two_obtain [of demo_object] by blast
  with pool_nodes_safe [OF demo_types(2) demo_valloc_ok this(2)] show ?thesis by (auto simp: demo_object_def)
qed

text \<open>C5: The pool implements an abstract store of elements: making one fails only if the free list is empty and the operating system has no memory, and else
  returns an address that was not in use; every element in use can be deleted; the address of the element deleted last is the next
  one to be used.\<close>

theorem pool_nodes_refine:
  assumes "pool_type_ok P" "valloc_ok va" "nodes_reach P va \<sigma> (s, mem)"
  shows "(new_element P va v (s, mem) = None \<longleftrightarrow>
      m_free_slots s = 0 \<and> va (mem_allocs mem) (mem_regions mem) (the (block_size P)) = 0) \<and>
    (\<forall>p sm. new_element P va v (s, mem) = Some (p, sm) \<longrightarrow> \<sigma> p = None) \<and>
    (\<forall>p\<in>dom \<sigma>. \<exists>sm. delete_element P p (s, mem) = Some sm \<and> (\<exists>sm'. new_element P va v sm = Some (p, sm')))"
proof -
  from nodes_reach_state [OF assms] obtain n bs fs where N: "block_size P = Some n" "nodes_at P \<sigma> bs fs s mem" by metis
  have "\<exists>sm. delete_element P p (s, mem) = Some sm \<and> (\<exists>sm'. new_element P va v sm = Some (p, sm'))" if p: "p \<in> dom \<sigma>" for p
  proof -
    from delete_element_ok [OF assms(1) N(2) p] obtain s' mem' where d: "delete_element P p (s, mem) = Some (s', mem')"
      "nodes_at P (\<sigma>(p := None)) bs (p # fs) s' mem'" by blast
    from d(2) obtain n' where at: "pool_at P n' bs (p # fs) s' mem'" unfolding nodes_at_def by blast
    from allocate_free [OF assms(1) at, of va] obtain s'' where a: "allocate P va (s', mem') = Some (p, s'', mem')" "pool_at P n' bs fs s'' mem'" by blast
    have "p \<in> live P bs fs" using live_free(2) [OF at] by simp
    from construct_ok [OF assms(1) a(2) this] a(1) d(1) show ?thesis by (auto simp: new_element_def)
  qed
  with new_element_none [OF N(2,1), of va v] new_element_ok [OF assms(1,2) N(2,1), of v] N(1) show ?thesis by fastforce
qed

theorem pool_nodes_refine_witness:
  "\<exists>s mem s' mem'. demo_two demo_object = Some (65544, 131080, s, mem) \<and> delete_element demo_object 131080 (s, mem) = Some (s', mem') \<and>
     (\<exists>sm. new_element demo_object demo_valloc 7 (s', mem') = Some (131080, sm))"
proof -
  obtain s mem where r: "demo_two demo_object = Some (65544, 131080, s, mem)" "nodes_reach demo_object demo_valloc [131080 \<mapsto> 6] (s, mem)"
    using demo_two_obtain [of demo_object] by blast
  have "131080 \<in> dom [131080 :: u64 \<mapsto> 6 :: int]" by simp
  with pool_nodes_refine [OF demo_types(2) demo_valloc_ok r(2), of 7] have
    "\<exists>sm. delete_element demo_object 131080 (s, mem) = Some sm \<and> (\<exists>sm'. new_element demo_object demo_valloc 7 sm = Some (131080, sm'))" by blast
  with r(1) show ?thesis by force
qed

text \<open>C36: Every slot that is in use or on the free list occupies a block of its own: the memory of the pool is the number of these slots times the size of
  a block, although \<^verbatim>\<open>no_chunks\<close> chunks would fit into one, since \<^verbatim>\<open>m_last_slot\<close> is set one chunk behind the first slot.\<close>

theorem pool_one_slot_per_block:
  assumes "pool_type_ok P" "valloc_ok va" "nodes_reach P va \<sigma> (s, mem)"
  shows "memory_size P (s, mem) =
    Some (of_nat (card (dom \<sigma>) + length (the (pointer_vector mem (m_free_slots s)))) * the (block_size P))"
proof -
  from nodes_reach_state [OF assms] obtain n bs fs where N: "block_size P = Some n" "pointer_vector mem (m_free_slots s) = Some fs"
    "pool_at P n bs fs s mem" "live P bs fs = dom \<sigma>" by metis
  have "card (dom \<sigma>) + length fs = length bs" using live_card(1) [OF assms(1) N(3)] N(4) by simp
  with memory_size_loop_links [OF pool_atD(2) [OF N(3)], of n 0] show ?thesis by (simp only: memory_size_def N prod.case option.sel Option.bind.bind_lunit) simp
qed

theorem pool_one_slot_per_block_witness:
  "no_chunks demo_object = Some 170 \<and>
   (\<exists>s mem. demo_two demo_object = Some (65544, 131080, s, mem) \<and> memory_size demo_object (s, mem) = Some 8192)"
proof -
  obtain s mem where r: "demo_two demo_object = Some (65544, 131080, s, mem)" "m_free_slots s = 65544"
    "pointer_vector mem 65544 = Some [65544]" "nodes_reach demo_object demo_valloc [131080 \<mapsto> 6] (s, mem)" using demo_two_obtain [of demo_object] by blast
  have "no_chunks demo_object = Some 170" by code_simp
  with r(1) pool_one_slot_per_block [OF demo_types(2) demo_valloc_ok r(4)] show ?thesis by (simp add: r(2,3) demo_sizes)
qed

lemma pool_move_eq [simp]: "pool_move s = s"
  by (cases s) (simp add: pool_move_def)

lemma sort_contract:
  assumes "\<forall>xs :: u64 list. sorted (srt xs) \<and> mset (srt xs) = mset xs"
  shows "sorted (srt xs)" "set (srt xs) = set xs"
  using assms by (auto dest: mset_eq_setD)

lemma pool_destroy_result:
  assumes "pool_type_ok P" "valloc_ok va" "nodes_reach P va \<sigma> (s, mem)" "pt_trivial P \<or> pt_chunk_count P = 1"
    "\<forall>xs :: u64 list. sorted (srt xs) \<and> mset (srt xs) = mset xs"
  shows "(pool_destroy P srt (s, mem) = None \<longleftrightarrow> \<not> pt_trivial P \<and> m_free_slots s \<noteq> 0 \<and>
      (\<exists>p\<in>dom \<sigma>. \<forall>q\<in>set (the (pointer_vector mem (m_free_slots s))). q < p)) \<and>
    (\<forall>s' mem'. pool_destroy P srt (s, mem) = Some (s', mem') \<longrightarrow> s' = pool_new \<and>
      mem_regions mem' = filter (\<lambda>r. fst r \<notin> set (the (block_vector (s, mem)))) (mem_regions mem) \<and>
      mset (mem_dtors mem') = mset (mem_dtors mem) + (if pt_trivial P then {#} else mset_set (dom \<sigma>)))"
proof -
  from nodes_reach_state [OF assms(1-3)] obtain n bs fs where N: "block_vector (s, mem) = Some bs" "pointer_vector mem (m_free_slots s) = Some fs"
    "pool_at P n bs fs s mem" "live P bs fs = dom \<sigma>" "\<And>p v. \<sigma> p = Some v \<Longrightarrow> mem_slots mem p = Some (Element v)" by metis
  note A = pool_atD [OF N(3)] and B = pool_at_blocks [OF N(3)]
  have cur: "m_current_block s = (if bs = [] then 0 else hd bs)" by (rule links_hd [OF A(2)])
  have free: "m_free_slots s = 0 \<longleftrightarrow> fs = []" using links_hd [OF A(3)] links_not_0 [OF A(3)] by (cases fs) auto
  show ?thesis
  proof (cases "pt_trivial P")
    case True
    from free_blocks_loop_ok [OF assms(1) B] obtain mem' where "free_blocks_loop (m_current_block s) mem = Some mem'"
      "mem_regions mem' = filter (\<lambda>r. fst r \<notin> set bs) (mem_regions mem)" "mem_dtors mem' = mem_dtors mem" unfolding cur by blast
    with True show ?thesis by (simp add: pool_destroy_def N(1))
  next
    case False
    then have c1: "pt_chunk_count P = 1" using assms(4) by simp
    define ss where "ss = (if fs = [] then fs else srt fs)"
    have ss: "sorted ss" "set ss = set fs" "ss = [] \<longleftrightarrow> fs = []"
      using sort_contract [OF assms(5), of fs] by (auto simp: ss_def)
    have e: "bs \<noteq> [] \<longrightarrow> first_slot P (hd bs) < m_current_slot s \<and> m_current_slot s \<le> first_slot P (hd bs) + sizeof_slot P"
      using A(8) first_slot_last(3) [OF assms(1) B, of "hd bs"] assms(4) False by (simp add: chunk_count_def)
    have "first_slot P b \<in> dom \<sigma>" if "b \<in> set bs" "first_slot P b \<notin> set ss" for b using that N(4) ss(2) by (auto simp: live_def)
    then have el: "elements_at P ss bs mem" unfolding elements_at_def using N(5) by (metis domD)
    have d: "pool_destroy P srt (s, mem) = map_option (Pair pool_new) (blocks_loop P ss (if bs = [] then 0 else hd bs) (m_current_slot s) mem)"
      using False assms(4) N(2) by (cases "blocks_loop P ss (if bs = [] then 0 else hd bs) (m_current_slot s) mem")
        (simp_all add: pool_destroy_def cur ss_def Let_def)
    have top: "(\<exists>p\<in>dom \<sigma>. \<forall>q\<in>set fs. q < p) \<longleftrightarrow> (\<exists>b\<in>set bs. \<forall>q\<in>set ss. q < first_slot P b)" if "fs \<noteq> []"
      unfolding N(4) [symmetric] ss(2) live_def by auto
    show ?thesis
    proof (cases "ss \<noteq> [] \<and> (\<exists>b\<in>set bs. \<forall>q\<in>set ss. q < first_slot P b)")
      case True
      then have "blocks_loop P ss (if bs = [] then 0 else hd bs) (m_current_slot s) mem = None"
        using e by (intro blocks_loop_end [OF assms(1) c1 ss(1) _ B el]) simp_all
      with True False top show ?thesis by (simp add: d N(2) free ss(3))
    next
      case ok: False
      then have "ss = [] \<or> (\<forall>b\<in>set bs. \<exists>q\<in>set ss. first_slot P b \<le> q)" by (metis not_le)
      from blocks_loop_ok [OF assms(1) c1 ss(1) B el this e] obtain mem' where m:
        "blocks_loop P ss (if bs = [] then 0 else hd bs) (m_current_slot s) mem = Some mem'"
        "mem_regions mem' = filter (\<lambda>r. fst r \<notin> set bs) (mem_regions mem)"
        "mem_dtors mem' = mem_dtors mem @ filter (\<lambda>p. p \<notin> set ss) (map (first_slot P) bs)" by blast
      have "distinct (filter (\<lambda>p. p \<notin> set ss) (map (first_slot P) bs))"
        using first_slot_inj [OF assms(1) N(3)] links_distinct [OF A(2)] by (simp add: distinct_map)
      moreover have "set (filter (\<lambda>p. p \<notin> set ss) (map (first_slot P) bs)) = dom \<sigma>" using N(4) ss(2) by (auto simp: live_def)
      ultimately have "mset (filter (\<lambda>p. p \<notin> set ss) (map (first_slot P) bs)) = mset_set (dom \<sigma>)" by (metis mset_set_set)
      moreover have "\<not> (fs \<noteq> [] \<and> (\<exists>p\<in>dom \<sigma>. \<forall>q\<in>set fs. q < p))" using ok top ss(3) by blast
      ultimately show ?thesis using m False by (simp add: d N(1,2) free)
    qed
  qed
qed

text \<open>C19: The destructor of a pool of single elements gives back every block of the pool and nothing else, and destroys every living
  element exactly once. It fails in one case: elements with a destructor, a free list that is not empty and a living element above all free slots,
  where \<^verbatim>\<open>*std::lower_bound\<close> reads the end of the sorted vector.\<close>

theorem pool_destroy_ok:
  assumes "pool_type_ok P" "valloc_ok va" "nodes_reach P va \<sigma> (s, mem)" "pt_trivial P \<or> pt_chunk_count P = 1"
    "\<forall>xs :: u64 list. sorted (srt xs) \<and> mset (srt xs) = mset xs"
  shows "(pool_destroy P srt (s, mem) = None \<longleftrightarrow> \<not> pt_trivial P \<and> m_free_slots s \<noteq> 0 \<and>
      (\<exists>p\<in>dom \<sigma>. \<forall>q\<in>set (the (pointer_vector mem (m_free_slots s))). q < p)) \<and>
    (\<forall>s' mem'. pool_destroy P srt (s, mem) = Some (s', mem') \<longrightarrow> s' = pool_new \<and>
      mem_regions mem' = filter (\<lambda>r. fst r \<notin> set (the (block_vector (s, mem)))) (mem_regions mem) \<and>
      mset (mem_dtors mem') = mset (mem_dtors mem) + (if pt_trivial P then {#} else mset_set (dom \<sigma>)))"
  by (rule pool_destroy_result [OF assms])

theorem pool_destroy_ok_witness:
  "\<exists>s mem. demo_two demo_object = Some (65544, 131080, s, mem) \<and> pool_destroy demo_object sort (s, mem) = None"
proof -
  obtain s mem where r: "demo_two demo_object = Some (65544, 131080, s, mem)" "m_free_slots s = 65544"
    "pointer_vector mem 65544 = Some [65544]" "nodes_reach demo_object demo_valloc [131080 \<mapsto> 6] (s, mem)" using demo_two_obtain [of demo_object] by blast
  have "pt_trivial demo_object \<or> pt_chunk_count demo_object = 1" "\<not> pt_trivial demo_object" by (simp_all add: demo_object_def)
  with pool_destroy_ok [OF demo_types(2) demo_valloc_ok r(4), of sort] have "pool_destroy demo_object sort (s, mem) = None"
    by (simp add: r(2,3))
  with r(1) show ?thesis by blast
qed

text \<open>C37: A move leaves the old pool in charge of the same blocks: when both pools are destroyed, the second destructor reads a block that the first has given back.\<close>

theorem pool_move_double_free:
  assumes "pool_type_ok P" "valloc_ok va" "nodes_reach P va \<sigma> (s, mem)" "pt_trivial P \<or> pt_chunk_count P = 1" "m_current_block s \<noteq> 0"
    "\<forall>xs :: u64 list. sorted (srt xs) \<and> mset (srt xs) = mset xs"
    "pool_destroy P srt (pool_move s, mem) = Some (s', mem')"
  shows "pool_destroy P srt (s, mem') = None"
proof -
  from nodes_reach_state [OF assms(1-3)] obtain n bs fs where N: "block_vector (s, mem) = Some bs" "pool_at P n bs fs s mem" by metis
  note A = pool_atD [OF N(2)]
  define b where "b = m_current_block s"
  have b: "b \<in> set bs" using links_hd [OF A(2)] assms(5) by (auto simp: b_def split: if_splits)
  have "pool_destroy P srt (s, mem) = Some (s', mem')" using assms(7) by simp
  with pool_destroy_result [OF assms(1-4,6)] have m: "mem_regions mem' = filter (\<lambda>r. fst r \<notin> set bs) (mem_regions mem)" by (simp add: N(1))
  have "\<not> in_region r b 8" if "r \<in> set (mem_regions mem')" for r
  proof -
    have "r \<noteq> (b, n)" using that b by (auto simp: m)
    then have "apart (b, n) r" using A(5) [OF b] that by (intro regions_ok_apart [OF A(4)]) (auto simp: m)
    then show ?thesis using block_slot(2) [OF assms(1) N(2) b] slot_align_bounds(1) [OF assms(1)]
      by (auto simp: apart_def in_region_def word_le_nat_alt)
  qed
  then have "read_next mem' b = None" by (auto simp: read_next_def mapped_def list_ex_iff)
  then have n: "free_blocks_loop (m_current_block s) mem' = None" "blocks_loop P xs (m_current_block s) e mem' = None" for xs e
    using assms(5) unfolding b_def by (auto simp: free_blocks_loop.simps blocks_loop.simps)
  show ?thesis
  proof (cases "pt_trivial P")
    case True then show ?thesis by (simp add: pool_destroy_def n)
  next
    case False
    with assms(4) show ?thesis by (cases "pointer_vector mem' (m_free_slots s)") (simp_all add: pool_destroy_def n)
  qed
qed

theorem pool_move_double_free_witness:
  "\<exists>s mem s' mem'. demo_two demo_number = Some (65544, 131080, s, mem) \<and>
    pool_destroy demo_number sort (pool_move s, mem) = Some (s', mem') \<and> pool_destroy demo_number sort (s, mem') = None"
proof -
  obtain s mem where r: "demo_two demo_number = Some (65544, 131080, s, mem)" "m_current_block s = 131072"
    "nodes_reach demo_number demo_valloc [131080 \<mapsto> 6] (s, mem)" using demo_two_obtain [of demo_number] by blast
  have t: "pt_trivial demo_number \<or> pt_chunk_count demo_number = 1" "pt_trivial demo_number" by (simp_all add: demo_number_def)
  have srt: "\<forall>xs :: u64 list. sorted (sort xs) \<and> mset (sort xs) = mset xs" by simp
  have "pool_destroy demo_number sort (pool_move s, mem) \<noteq> None"
    using pool_destroy_result [OF demo_types(1) demo_valloc_ok r(3) t(1) srt] t(2) by simp
  then obtain s' mem' where d: "pool_destroy demo_number sort (pool_move s, mem) = Some (s', mem')" by force
  with pool_move_double_free [OF demo_types(1) demo_valloc_ok r(3) t(1) _ srt d] r(1,2) show ?thesis by auto
qed

text \<open>An element of a type without a destructor that is deleted twice is handed out twice: the next two allocations return the same address.\<close>

theorem pool_double_delete:
  assumes "pool_type_ok P" "valloc_ok va" "nodes_reach P va \<sigma> (s, mem)" "p \<in> dom \<sigma>"
  shows "do { sm \<leftarrow> deallocate p (s, mem); sm \<leftarrow> deallocate p sm; (q, sm) \<leftarrow> allocate P va sm; (r, sm) \<leftarrow> allocate P va sm; Some (q, r) } = Some (p, p)"
proof -
  from nodes_reach_state [OF assms(1-3)] obtain n bs fs where N: "pool_at P n bs fs s mem" "live P bs fs = dom \<sigma>" by metis
  from assms(4) N(2) have p: "p \<in> live P bs fs" by simp
  from deallocate_ok [OF assms(1) N(1) p] obtain s1 mem1 where d: "deallocate p (s, mem) = Some (s1, mem1)" "m_free_slots s1 = p"
    "pool_at P n bs (p # fs) s1 mem1" "read_next mem1 p = Some (m_free_slots s)" by blast
  have p0: "p \<noteq> 0" using slot_not_0 [OF assms(1) d(3)] live_free(3) [OF d(3)] by blast
  have m: "mapped mem1 p 8" using d(4) by (auto simp: read_next_def split: if_splits)
  define mem2 where "mem2 = mem1\<lparr>mem_slots := (mem_slots mem1)(p \<mapsto> Next p)\<rparr>"
  have "deallocate p (s1, mem1) = Some (s1, mem2)" using m p0 d(2) by (simp add: deallocate_def write_next_def mem2_def)
  moreover have "read_next mem2 p = Some p" using m by (simp add: read_next_def mem2_def)
  then have "allocate P va (s1, mem2) = Some (p, s1, mem2)" using p0 d(2) by (simp add: allocate_def)
  ultimately show ?thesis using d(1) by simp
qed

theorem pool_double_delete_witness:
  "\<exists>sm. demo_two demo_number = Some (65544, 131080, sm) \<and>
    do { sm \<leftarrow> deallocate 131080 sm; sm \<leftarrow> deallocate 131080 sm; (q, sm) \<leftarrow> allocate demo_number demo_valloc sm;
      (r, sm) \<leftarrow> allocate demo_number demo_valloc sm; Some (q, r) } = Some (131080, 131080)"
proof -
  obtain s mem where r: "demo_two demo_number = Some (65544, 131080, s, mem)"
    "nodes_reach demo_number demo_valloc [131080 \<mapsto> 6] (s, mem)" using demo_two_obtain [of demo_number] by blast
  have "131080 \<in> dom [131080 :: u64 \<mapsto> 6 :: int]" by simp
  from r(1) pool_double_delete [OF demo_types(1) demo_valloc_ok r(2) this] show ?thesis by blast
qed

text \<open>\<^verbatim>\<open>block_size\<close> returns the smallest number of pages that holds the header of a block, \<^verbatim>\<open>MinAlloc\<close> chunks and the padding: it is large enough, and
  one page less would not be.\<close>

theorem block_size_least:
  assumes "pool_type_ok P"
  shows "\<exists>n k. block_size P = Some n \<and> unat n = (k + 1) * unat (pt_page_size P) \<and>
    8 + unat (pt_min_alloc P) * (unat (pt_chunk_count P) * unat (pt_sizeof P)) + unat (pt_alignof P) \<le> unat n \<and>
    (k > 0 \<longrightarrow> unat n - unat (pt_page_size P) < 8 + unat (pt_min_alloc P) * (unat (pt_chunk_count P) * unat (pt_sizeof P)) + unat (pt_alignof P))"
proof -
  from block_size_ok [OF assms] obtain n k where n: "block_size P = Some n" "unat n = (k + 1) * unat (pt_page_size P)"
    "minimum_required_block_size P \<le> n" "k = 0 \<or> unat n < unat (minimum_required_block_size P) + unat (pt_page_size P)" .
  note m = minimum_required_eq(1) [OF assms, unfolded chunk_size_eq(1) [OF assms]]
  from n m show ?thesis by (intro exI [of _ n] exI [of _ k]) (auto simp: word_le_nat_alt)
qed

theorem block_size_least_witness: "\<exists>n. block_size demo_object = Some n \<and> 8 + 8 * (1 * 24) + 8 \<le> unat n"
  using block_size_least [OF demo_types(2)] by (auto simp: demo_object_def)

end
