(* ===== verification/Node_Memory_Spec.thy ===== *)
theory Node_Memory_Spec
  imports Node_Memory Pool_Allocator_Spec Connect_Four_Mcts
begin

text \<open>
  Programs that use nodes: every array of moves in the pool belongs to at most one node, so that the operations on the memory do what \<open>Mcts\<close> says of
  the values; and the arrays that belong to no node are those that a copy assignment has lost.
\<close>

section \<open>What the pool promises\<close>

definition pool_ok :: "pool_type \<Rightarrow> valloc \<Rightarrow> bool" where
  "pool_ok P va \<longleftrightarrow> pool_type_ok P \<and> valloc_ok va"

definition no_memory :: "pool_type \<Rightarrow> valloc \<Rightarrow> pool \<times> 'v memory \<Rightarrow> bool" where
  "no_memory P va sm \<longleftrightarrow> m_free_slots (fst sm) = 0 \<and> va (mem_allocs (snd sm)) (mem_regions (snd sm)) (the (block_size P)) = 0"

lemma reach_at:
  assumes "pool_ok P va" "nodes_reach P va \<sigma> sm"
  obtains n bs fs where "block_size P = Some n" "pool_at P n bs fs (fst sm) (snd sm)" "live P bs fs = dom \<sigma>" "nodes_at P \<sigma> bs fs (fst sm) (snd sm)"
    "\<And>p v. \<sigma> p = Some v \<Longrightarrow> mem_slots (snd sm) p = Some (Element v)"
proof -
  obtain s mem where sm: "sm = (s, mem)" by (rule prod.exhaust)
  from assms(1) have P: "pool_type_ok P" "valloc_ok va" by (simp_all add: pool_ok_def)
  show ?thesis by (rule nodes_reach_state [OF P assms(2) [unfolded sm]]) (rule that, simp_all add: sm)
qed

lemma read_live:
  assumes "pool_ok P va" "nodes_reach P va \<sigma> sm" "\<sigma> p = Some v"
  shows "read_element P p sm = Some v" "p \<noteq> 0"
proof -
  from assms(1) have P: "pool_type_ok P" by (simp add: pool_ok_def)
  obtain n bs fs where r: "pool_at P n bs fs (fst sm) (snd sm)" "live P bs fs = dom \<sigma>"
    "\<And>p v. \<sigma> p = Some v \<Longrightarrow> mem_slots (snd sm) p = Some (Element v)" by (rule reach_at [OF assms(1,2)]) blast
  have p: "p \<in> live P bs fs" using r(2) assms(3) by auto
  show "read_element P p sm = Some v"
    using live_mapped [OF P r(1) p sizeof_le_extent [OF P]] r(3) [OF assms(3)] by (simp add: read_element_def)
  show "p \<noteq> 0" using slot_not_0 [OF P r(1), of p] p by (auto simp: live_def)
qed

lemma read_null:
  assumes "pool_ok P va" "nodes_reach P va \<sigma> sm"
  shows "read_element P 0 sm = None"
proof -
  obtain n bs fs where r: "pool_at P n bs fs (fst sm) (snd sm)" by (rule reach_at [OF assms])
  have "\<not> mapped (snd sm) 0 k" for k
    using regions_okD [OF pool_atD(4) [OF r]] by (auto simp: mapped_def list_ex_iff in_region_def)
  then show ?thesis by (simp add: read_element_def)
qed

lemma new_live:
  assumes "pool_ok P va" "nodes_reach P va \<sigma> sm"
  shows "new_element P va v sm = None \<Longrightarrow> no_memory P va sm"
    "new_element P va v sm = Some (p, sm') \<Longrightarrow> nodes_reach P va (\<sigma>(p \<mapsto> v)) sm' \<and> \<sigma> p = None \<and> p \<noteq> 0"
proof -
  obtain s mem where sm: "sm = (s, mem)" by (rule prod.exhaust)
  from assms(1) have P: "pool_type_ok P" "valloc_ok va" by (simp_all add: pool_ok_def)
  obtain n bs fs where r: "block_size P = Some n" "nodes_at P \<sigma> bs fs s mem" by (rule reach_at [OF assms]) (simp add: sm)
  have ok: "\<exists>p s' mem' bs' fs'. new_element P va v (s, mem) = Some (p, s', mem') \<and> \<sigma> p = None \<and> p \<noteq> 0 \<and> nodes_at P (\<sigma>(p \<mapsto> v)) bs' fs' s' mem'"
    if "m_free_slots s \<noteq> 0 \<or> va (mem_allocs mem) (mem_regions mem) n \<noteq> 0"
    by (rule new_element_ok [OF P r(2,1) that])
  show "no_memory P va sm" if "new_element P va v sm = None"
  proof (rule ccontr)
    assume "\<not> no_memory P va sm"
    with ok r(1) that show False by (auto simp: no_memory_def sm)
  qed
  show "nodes_reach P va (\<sigma>(p \<mapsto> v)) sm' \<and> \<sigma> p = None \<and> p \<noteq> 0" if n: "new_element P va v sm = Some (p, sm')"
  proof -
    have "m_free_slots s \<noteq> 0 \<or> va (mem_allocs mem) (mem_regions mem) n \<noteq> 0"
      using new_element_none [OF r(2,1), of va v] n by (auto simp: sm)
    from ok [OF this] n have "\<sigma> p = None" "p \<noteq> 0" by (auto simp: sm)
    with nodes_reach.new [OF assms(2) n] show ?thesis by simp
  qed
qed

lemma delete_live:
  assumes "pool_ok P va" "nodes_reach P va \<sigma> sm" "p \<in> dom \<sigma>"
  shows "\<exists>sm'. delete_element P p sm = Some sm' \<and> nodes_reach P va (\<sigma>(p := None)) sm'"
proof -
  obtain s mem where sm: "sm = (s, mem)" by (rule prod.exhaust)
  from assms(1) have P: "pool_type_ok P" by (simp add: pool_ok_def)
  obtain bs fs where r: "nodes_at P \<sigma> bs fs s mem" by (rule reach_at [OF assms(1,2)]) (simp add: sm)
  obtain s' mem' where d: "delete_element P p (s, mem) = Some (s', mem')" using delete_element_ok [OF P r assms(3)] by blast
  then show ?thesis using nodes_reach.delete [OF assms(2,3)] by (simp add: sm)
qed

lemma delete_null: "delete_element P 0 sm = Some sm"
  by (simp add: delete_element_def split: prod.split)

lemma write_live:
  assumes "pool_ok P va" "nodes_reach P va \<sigma> sm" "\<sigma> p = Some w"
  shows "\<exists>sm'. write_element P p v sm = Some sm' \<and> nodes_reach P va (\<sigma>(p \<mapsto> v)) sm'"
proof -
  obtain s mem where sm: "sm = (s, mem)" by (rule prod.exhaust)
  from assms(1) have P: "pool_type_ok P" by (simp add: pool_ok_def)
  obtain n bs fs where r: "pool_at P n bs fs s mem" "live P bs fs = dom \<sigma>" by (rule reach_at [OF assms(1,2)]) (simp add: sm)
  have "p \<in> live P bs fs" using r(2) assms(3) by auto
  from construct_ok [OF P r(1) this, of v] obtain mem' where c: "construct P p v mem = Some mem'" by blast
  have "write_element P p v sm = Some (s, mem')"
    using read_live(1) [OF assms] c by (simp add: write_element_def sm)
  moreover have "nodes_reach P va (\<sigma>(p \<mapsto> v)) (s, mem')"
    by (rule nodes_reach.assign [OF _ _ c]) (use assms(2,3) in \<open>auto simp: sm\<close>)
  ultimately show ?thesis by blast
qed

section \<open>Owned arrays\<close>

fun pointers :: "node_mem option \<Rightarrow> u64 set" where
  "pointers None = {}"
| "pointers (Some nd) = {nm_moves nd} - {0}"

definition owned_arrays_of :: "(nat \<Rightarrow> node_mem option) \<Rightarrow> u64 set" where
  "owned_arrays_of N = (\<Union>i. pointers (N i))"

definition one_owner :: "(nat \<Rightarrow> node_mem option) \<Rightarrow> bool" where
  "one_owner N \<longleftrightarrow> (\<forall>i j. i \<noteq> j \<longrightarrow> pointers (N i) \<inter> pointers (N j) = {})"

definition node_value :: "(u64 \<Rightarrow> 'm moves option) \<Rightarrow> node_mem \<Rightarrow> 'm node_data" where
  "node_value \<sigma> nd = \<lparr>nd_moves = (if nm_moves nd = 0 then None else \<sigma> (nm_moves nd)), nd_score = nm_score nd, nd_visits = nm_visits nd,
     nd_player_just_moved = nm_player nd\<rparr>"

definition node_values :: "(u64 \<Rightarrow> 'm moves option) \<Rightarrow> (nat \<Rightarrow> node_mem option) \<Rightarrow> nat \<Rightarrow> 'm node_data option" where
  "node_values \<sigma> N i = map_option (node_value \<sigma>) (N i)"

lemma owned_upd:
  assumes "one_owner N"
  shows "owned_arrays_of (N(i := x)) = (owned_arrays_of N - pointers (N i)) \<union> pointers x"
  using assms by (auto simp: owned_arrays_of_def one_owner_def split: if_splits) blast

lemma one_owner_upd:
  assumes "one_owner N" "pointers x \<inter> (owned_arrays_of N - pointers (N i)) = {}"
  shows "one_owner (N(i := x))"
proof -
  have d: "pointers (N k) \<inter> pointers x = {}" if "k \<noteq> i" for k
  proof -
    have "pointers (N k) \<inter> pointers (N i) = {}" using assms(1) that by (simp add: one_owner_def)
    moreover have "pointers (N k) \<subseteq> owned_arrays_of N" by (auto simp: owned_arrays_of_def)
    ultimately show ?thesis using assms(2) by blast
  qed
  show ?thesis unfolding one_owner_def
  proof (intro allI impI)
    fix k j :: nat assume "k \<noteq> j"
    then show "pointers ((N(i := x)) k) \<inter> pointers ((N(i := x)) j) = {}"
      using d [of k] d [of j] assms(1) by (cases "k = i"; cases "j = i") (auto simp: one_owner_def)
  qed
qed

lemma node_value_cong: "(\<And>p. p \<in> pointers (Some nd) \<Longrightarrow> \<tau> p = \<sigma> p) \<Longrightarrow> node_value \<tau> nd = node_value \<sigma> nd"
  by (simp add: node_value_def)

lemma node_values_upd:
  assumes "one_owner N" "\<And>p. p \<in> owned_arrays_of N - pointers (N i) \<Longrightarrow> \<tau> p = \<sigma> p"
  shows "node_values \<tau> (N(i := x)) = (node_values \<sigma> N)(i := map_option (node_value \<tau>) x)"
proof
  fix k
  show "node_values \<tau> (N(i := x)) k = ((node_values \<sigma> N)(i := map_option (node_value \<tau>) x)) k"
  proof (cases "k = i \<or> N k = None")
    case False
    then obtain nd where nd: "N k = Some nd" "k \<noteq> i" by auto
    have "p \<in> owned_arrays_of N - pointers (N i)" if "p \<in> pointers (Some nd)" for p
      using that nd assms(1) unfolding one_owner_def owned_arrays_of_def by (metis Diff_iff UNIV_I UN_iff disjoint_iff)
    with assms(2) have "node_value \<tau> nd = node_value \<sigma> nd" by (intro node_value_cong) blast
    with nd show ?thesis by (simp add: node_values_def)
  qed (auto simp: node_values_def)
qed

section \<open>Every operation\<close>

definition node_inv :: "pool_type \<Rightarrow> valloc \<Rightarrow> (u64 \<Rightarrow> 'm moves option) \<Rightarrow> 'm node_state \<Rightarrow> bool" where
  "node_inv P va \<sigma> st \<longleftrightarrow> nodes_reach P va \<sigma> (ns_pool st) \<and> owned_arrays_of (ns_nodes st) \<subseteq> dom \<sigma> \<and> one_owner (ns_nodes st)"

definition value_state :: "(u64 \<Rightarrow> 'm moves option) \<Rightarrow> 'm node_state \<Rightarrow> 'm value_state" where
  "value_state \<sigma> st = \<lparr>vs_nodes = node_values \<sigma> (ns_nodes st), vs_rng = ns_rng st, vs_drawn = ns_drawn st\<rparr>"

text \<open>The array that an operation loses: that of the target of a copy assignment from a node that has one.\<close>

fun lost :: "'s node_op \<Rightarrow> 'm node_state \<Rightarrow> u64 set" where
  "lost (Op_assign_copy i j) st = (if pointers (ns_nodes st j) = {} then {} else pointers (ns_nodes st i))"
| "lost x st = {}"

definition step_ok ::
  "pool_type \<Rightarrow> valloc \<Rightarrow> ('s, 'm) game_ops \<Rightarrow> uniform_int \<Rightarrow> (u64 \<Rightarrow> 'm moves option) \<Rightarrow> 's node_op \<Rightarrow> 'm node_state \<Rightarrow> bool"
where
  "step_ok P va G unif \<sigma> x st \<longleftrightarrow> (case node_exec P va G unif x st of
     None \<Rightarrow> value_exec G unif x (value_state \<sigma> st) = None \<or> no_memory P va (ns_pool st)
   | Some st' \<Rightarrow> \<exists>\<tau>. node_inv P va \<tau> st' \<and> value_exec G unif x (value_state \<sigma> st) = Some (value_state \<tau> st') \<and>
       dom \<tau> - owned_arrays_of (ns_nodes st') = (dom \<sigma> - owned_arrays_of (ns_nodes st)) \<union> lost x st)"

lemma upd_step:
  assumes inv: "node_inv P va \<sigma> st" and nodes: "nodes_reach P va \<tau> sm" "ns_pool st' = sm" "ns_nodes st' = (ns_nodes st)(i := y)"
    and y: "pointers y \<subseteq> dom \<tau>" "pointers y \<inter> (owned_arrays_of (ns_nodes st) - pointers (ns_nodes st i)) = {}"
    and frame: "\<And>p. p \<in> owned_arrays_of (ns_nodes st) - pointers (ns_nodes st i) \<Longrightarrow> \<tau> p = \<sigma> p"
  shows "node_inv P va \<tau> st'" "node_values \<tau> (ns_nodes st') = (node_values \<sigma> (ns_nodes st))(i := map_option (node_value \<tau>) y)"
    "owned_arrays_of (ns_nodes st') = (owned_arrays_of (ns_nodes st) - pointers (ns_nodes st i)) \<union> pointers y"
proof -
  have I: "owned_arrays_of (ns_nodes st) \<subseteq> dom \<sigma>" "one_owner (ns_nodes st)" using inv by (simp_all add: node_inv_def)
  show o: "owned_arrays_of (ns_nodes st') = (owned_arrays_of (ns_nodes st) - pointers (ns_nodes st i)) \<union> pointers y"
    unfolding nodes(3) by (rule owned_upd [OF I(2)])
  have "owned_arrays_of (ns_nodes st') \<subseteq> dom \<tau>"
  proof
    fix p assume "p \<in> owned_arrays_of (ns_nodes st')"
    then show "p \<in> dom \<tau>" unfolding o using y(1) I(1) frame [of p] by (auto simp: domIff)
  qed
  with nodes one_owner_upd [OF I(2) y(2)] show "node_inv P va \<tau> st'" by (simp add: node_inv_def)
  show "node_values \<tau> (ns_nodes st') = (node_values \<sigma> (ns_nodes st))(i := map_option (node_value \<tau>) y)"
    unfolding nodes(3) by (rule node_values_upd [OF I(2) frame])
qed

lemma value_at: "vs_nodes (value_state \<sigma> st) i = map_option (node_value \<sigma>) (ns_nodes st i)"
  by (simp add: value_state_def node_values_def)

lemma unused_values [simp]: "unused (node_values \<sigma> N) i = unused N i"
  by (simp add: unused_def node_values_def)

lemma owned_in: "ns_nodes st i = Some nd \<Longrightarrow> nm_moves nd \<noteq> 0 \<Longrightarrow> nm_moves nd \<in> owned_arrays_of (ns_nodes st)"
  unfolding owned_arrays_of_def by (rule UN_I [of i]) simp_all

text \<open>An update of the memory state and the same update of the value state.\<close>

lemma step_upd:
  assumes inv: "node_inv P va \<sigma> st" and nodes: "nodes_reach P va \<tau> (ns_pool st')" "ns_nodes st' = (ns_nodes st)(i := y)"
    and y: "pointers y \<subseteq> dom \<tau>" "pointers y \<inter> (owned_arrays_of (ns_nodes st) - pointers (ns_nodes st i)) = {}"
    and frame: "\<And>p. p \<in> owned_arrays_of (ns_nodes st) - pointers (ns_nodes st i) \<Longrightarrow> \<tau> p = \<sigma> p"
    and exec: "node_exec P va G unif x st = Some st'"
      "value_exec G unif x (value_state \<sigma> st) = Some ((value_state \<sigma> st)\<lparr>vs_nodes := (vs_nodes (value_state \<sigma> st))(i := map_option (node_value \<tau>) y),
         vs_rng := ns_rng st', vs_drawn := ns_drawn st'\<rparr>)"
    and dom: "dom \<tau> - ((owned_arrays_of (ns_nodes st) - pointers (ns_nodes st i)) \<union> pointers y) = (dom \<sigma> - owned_arrays_of (ns_nodes st)) \<union> lost x st"
  shows "step_ok P va G unif \<sigma> x st"
proof -
  note U = upd_step [OF inv nodes(1) refl nodes(2) y frame, simplified]
  have "value_exec G unif x (value_state \<sigma> st) = Some (value_state \<tau> st')"
    unfolding exec(2) using U(2) by (simp add: value_state_def)
  then show ?thesis using exec(1) U(1,3) dom by (auto simp: step_ok_def)
qed

lemma step_new:
  assumes inv: "node_inv P va \<sigma> st"
  shows "step_ok P va G unif \<sigma> (Op_new i) st"
proof (cases "ns_nodes st i = None")
  case True
  show ?thesis
    by (rule step_upd [OF inv, of \<sigma> "st\<lparr>ns_nodes := (ns_nodes st)(i \<mapsto> nm_default)\<rparr>" i "Some nm_default"])
      (use inv True in \<open>auto simp: node_inv_def nm_default_def unused_def node_value_def node_values_def NodeData_def value_state_def\<close>)
qed (auto simp: step_ok_def value_state_def unused_def node_values_def)

lemma step_plus:
  assumes inv: "node_inv P va \<sigma> st"
  shows "step_ok P va G unif \<sigma> (Op_plus i j) st"
proof (cases "ns_nodes st i = None \<or> ns_nodes st j = None")
  case False
  then obtain nd rhs where n: "ns_nodes st i = Some nd" "ns_nodes st j = Some rhs" by auto
  have "pointers (ns_nodes st i) \<subseteq> owned_arrays_of (ns_nodes st)" by (auto simp: owned_arrays_of_def)
  moreover have "pointers (Some (nm_plus nd rhs)) = pointers (ns_nodes st i)" by (simp add: n nm_plus_def)
  moreover have "node_value \<sigma> (nm_plus nd rhs) = NodeData_plus (node_value \<sigma> nd) (node_value \<sigma> rhs)"
    by (simp add: node_value_def nm_plus_def NodeData_plus_def)
  ultimately show ?thesis
    by (intro step_upd [OF inv, of \<sigma> "st\<lparr>ns_nodes := (ns_nodes st)(i \<mapsto> nm_plus nd rhs)\<rparr>" i "Some (nm_plus nd rhs)"])
      (use inv n in \<open>auto simp: node_inv_def value_at simp del: pointers.simps\<close>, auto simp: value_state_def)
qed (auto simp: step_ok_def value_at split: option.splits)

lemma owned_in_dom: "node_inv P va \<sigma> st \<Longrightarrow> ns_nodes st i = Some nd \<Longrightarrow> nm_moves nd \<noteq> 0 \<Longrightarrow> \<exists>ms. \<sigma> (nm_moves nd) = Some ms"
  using owned_in [of st i nd] by (auto simp: node_inv_def)

lemma step_state:
  assumes P: "pool_ok P va" and inv: "node_inv P va \<sigma> st"
  shows "step_ok P va G unif \<sigma> (Op_state i s) st"
proof (cases "ns_nodes st i")
  case None
  have r: "nodes_reach P va \<sigma> (ns_pool st)" "owned_arrays_of (ns_nodes st) \<subseteq> dom \<sigma>" using inv by (simp_all add: node_inv_def)
  have u: "unused (ns_nodes st) i = Some ()" by (simp add: unused_def None)
  show ?thesis
  proof (cases "new_element P va (g_new_moves G) (ns_pool st)")
    case None
    then show ?thesis using new_live(1) [OF P r(1)] u by (simp add: step_ok_def nm_of_state_def)
  next
    case (Some psm)
    obtain p sm1 where n: "new_element P va (g_new_moves G) (ns_pool st) = Some (p, sm1)" using Some by (cases psm) auto
    from new_live(2) [OF P r(1) n] have n1: "nodes_reach P va (\<sigma>(p \<mapsto> g_new_moves G)) sm1" "\<sigma> p = None" "p \<noteq> 0" by auto
    have rd: "read_element P p sm1 = Some (g_new_moves G)" by (rule read_live(1) [OF P n1(1)]) simp
    have po: "p \<notin> owned_arrays_of (ns_nodes st)" using n1(2) r(2) by auto
    show ?thesis
    proof (cases "g_moves G s (g_new_moves G)")
      case None
      then show ?thesis using u n rd by (simp add: step_ok_def value_state_def nm_of_state_def NodeData_state_def Let_def)
    next
      case (Some bms)
      obtain b ms where b: "g_moves G s (g_new_moves G) = Some (b, ms)" using Some by (cases bms) auto
      obtain sm2 where w: "write_element P p ms sm1 = Some sm2" "nodes_reach P va (\<sigma>(p \<mapsto> ms)) sm2"
        using write_live [OF P n1(1), of p "g_new_moves G" ms] by auto
      show ?thesis
      proof (cases b)
        case True
        let ?nd = "nm_default\<lparr>nm_moves := p, nm_player := g_playerJustMoved G s\<rparr>"
        let ?st = "st\<lparr>ns_nodes := (ns_nodes st)(i \<mapsto> ?nd), ns_pool := sm2\<rparr>"
        have e: "node_exec P va G unif (Op_state i s) st = Some ?st" using u n rd b w(1) True by (simp add: nm_of_state_def Let_def)
        show ?thesis
          by (rule step_upd [OF inv, of "\<sigma>(p \<mapsto> ms)" ?st i "Some ?nd"])
            (use w(2) r(2) po n1(2,3) u b True \<open>ns_nodes st i = None\<close> e in
              \<open>auto simp: NodeData_state_def NodeData_def node_value_def nm_default_def value_state_def\<close>)
      next
        case False
        obtain sm3 where d: "delete_element P p sm2 = Some sm3" "nodes_reach P va ((\<sigma>(p \<mapsto> ms))(p := None)) sm3"
          using delete_live [OF P w(2), of p] by auto
        have "(\<sigma>(p \<mapsto> ms))(p := None) = \<sigma>" using n1(2) by auto
        then have d3: "nodes_reach P va \<sigma> sm3" using d(2) by simp
        let ?nd = "nm_default\<lparr>nm_moves := 0, nm_player := g_playerJustMoved G s\<rparr>"
        let ?st = "st\<lparr>ns_nodes := (ns_nodes st)(i \<mapsto> ?nd), ns_pool := sm3\<rparr>"
        have e: "node_exec P va G unif (Op_state i s) st = Some ?st" using u n rd b w(1) d(1) False by (simp add: nm_of_state_def Let_def)
        show ?thesis
          by (rule step_upd [OF inv, of \<sigma> ?st i "Some ?nd"])
            (use d3 r(2) u b False \<open>ns_nodes st i = None\<close> e in
              \<open>auto simp: NodeData_state_def NodeData_def node_value_def nm_default_def value_state_def\<close>)
      qed
    qed
  qed
qed (auto simp: step_ok_def value_state_def unused_def node_values_def)

lemma step_copy:
  assumes P: "pool_ok P va" and inv: "node_inv P va \<sigma> st"
  shows "step_ok P va G unif \<sigma> (Op_copy i j) st"
proof (cases "ns_nodes st i = None \<and> ns_nodes st j \<noteq> None")
  case True
  then obtain src where n: "ns_nodes st i = None" "ns_nodes st j = Some src" by auto
  have r: "nodes_reach P va \<sigma> (ns_pool st)" "owned_arrays_of (ns_nodes st) \<subseteq> dom \<sigma>" using inv by (simp_all add: node_inv_def)
  have u: "unused (ns_nodes st) i = Some ()" by (simp add: unused_def n)
  show ?thesis
  proof (cases "nm_moves src = 0")
    case True
    let ?nd = "\<lparr>nm_moves = 0, nm_score = nm_score src, nm_visits = nm_visits src, nm_player = nm_player src\<rparr>"
    show ?thesis
      by (rule step_upd [OF inv, of \<sigma> "st\<lparr>ns_nodes := (ns_nodes st)(i \<mapsto> ?nd)\<rparr>" i "Some ?nd"])
        (use r n u True in \<open>auto simp: nm_copy_def NodeData_copy_def node_value_def node_values_def value_state_def\<close>)
  next
    case False
    obtain ms where ms: "\<sigma> (nm_moves src) = Some ms" using owned_in_dom [OF inv n(2) False] by blast
    note rd = read_live(1) [OF P r(1) ms]
    show ?thesis
    proof (cases "new_element P va ms (ns_pool st)")
      case None
      then show ?thesis using new_live(1) [OF P r(1)] u n(2) rd False by (simp add: step_ok_def nm_copy_def)
    next
      case (Some psm)
      obtain p sm where e: "new_element P va ms (ns_pool st) = Some (p, sm)" using Some by (cases psm) auto
      from new_live(2) [OF P r(1) e] have n1: "nodes_reach P va (\<sigma>(p \<mapsto> ms)) sm" "\<sigma> p = None" "p \<noteq> 0" by auto
      have po: "p \<notin> owned_arrays_of (ns_nodes st)" using n1(2) r(2) by auto
      let ?nd = "\<lparr>nm_moves = p, nm_score = nm_score src, nm_visits = nm_visits src, nm_player = nm_player src\<rparr>"
      show ?thesis
        by (rule step_upd [OF inv, of "\<sigma>(p \<mapsto> ms)" "st\<lparr>ns_nodes := (ns_nodes st)(i \<mapsto> ?nd), ns_pool := sm\<rparr>" i "Some ?nd"])
          (use r n u False n1 po e rd ms in \<open>auto simp: nm_copy_def NodeData_copy_def node_value_def node_values_def value_state_def\<close>)
    qed
  qed
qed (auto simp: step_ok_def unused_def value_state_def node_values_def split: option.splits)

lemma step_assign_copy:
  assumes P: "pool_ok P va" and inv: "node_inv P va \<sigma> st"
  shows "step_ok P va G unif \<sigma> (Op_assign_copy i j) st"
proof (cases "ns_nodes st i \<noteq> None \<and> ns_nodes st j \<noteq> None")
  case True
  then obtain nd rhs where n: "ns_nodes st i = Some nd" "ns_nodes st j = Some rhs" by auto
  have r: "nodes_reach P va \<sigma> (ns_pool st)" "owned_arrays_of (ns_nodes st) \<subseteq> dom \<sigma>" using inv by (simp_all add: node_inv_def)
  have pi: "pointers (ns_nodes st i) \<subseteq> owned_arrays_of (ns_nodes st)" by (auto simp: owned_arrays_of_def)
  show ?thesis
  proof (cases "nm_moves rhs = 0")
    case True
    let ?nd = "nd\<lparr>nm_score := nm_score rhs, nm_visits := nm_visits rhs, nm_player := nm_player rhs\<rparr>"
    show ?thesis
      by (rule step_upd [OF inv, of \<sigma> "st\<lparr>ns_nodes := (ns_nodes st)(i \<mapsto> ?nd)\<rparr>" i "Some ?nd"])
        (use r n True pi in \<open>auto simp: nm_assign_copy_def NodeData_assign_copy_def node_value_def node_values_def value_state_def\<close>)
  next
    case False
    obtain ms where ms: "\<sigma> (nm_moves rhs) = Some ms" using owned_in_dom [OF inv n(2) False] by blast
    note rd = read_live(1) [OF P r(1) ms]
    show ?thesis
    proof (cases "new_element P va ms (ns_pool st)")
      case None
      then show ?thesis using new_live(1) [OF P r(1)] n rd False by (simp add: step_ok_def nm_assign_copy_def)
    next
      case (Some psm)
      obtain p sm where e: "new_element P va ms (ns_pool st) = Some (p, sm)" using Some by (cases psm) auto
      from new_live(2) [OF P r(1) e] have n1: "nodes_reach P va (\<sigma>(p \<mapsto> ms)) sm" "\<sigma> p = None" "p \<noteq> 0" by auto
      have po: "p \<notin> owned_arrays_of (ns_nodes st)" using n1(2) r(2) by auto
      let ?nd = "nd\<lparr>nm_moves := p, nm_score := nm_score rhs, nm_visits := nm_visits rhs, nm_player := nm_player rhs\<rparr>"
      show ?thesis
        by (rule step_upd [OF inv, of "\<sigma>(p \<mapsto> ms)" "st\<lparr>ns_nodes := (ns_nodes st)(i \<mapsto> ?nd), ns_pool := sm\<rparr>" i "Some ?nd"])
          (use r n False n1 po e rd ms pi in \<open>auto simp: nm_assign_copy_def NodeData_assign_copy_def node_value_def node_values_def value_state_def\<close>)
    qed
  qed
qed (auto simp: step_ok_def value_state_def node_values_def split: option.splits)

lemma step_destroy:
  assumes P: "pool_ok P va" and inv: "node_inv P va \<sigma> st"
  shows "step_ok P va G unif \<sigma> (Op_destroy i) st"
proof (cases "ns_nodes st i")
  case (Some nd)
  have r: "nodes_reach P va \<sigma> (ns_pool st)" "owned_arrays_of (ns_nodes st) \<subseteq> dom \<sigma>" using inv by (simp_all add: node_inv_def)
  have pi: "pointers (ns_nodes st i) \<subseteq> owned_arrays_of (ns_nodes st)" by (auto simp: owned_arrays_of_def)
  show ?thesis
  proof (cases "nm_moves nd = 0")
    case True
    show ?thesis
      by (rule step_upd [OF inv, of \<sigma> "st\<lparr>ns_nodes := (ns_nodes st)(i := None)\<rparr>" i None])
        (use r Some True in \<open>auto simp: nm_destroy_def delete_null node_values_def value_state_def\<close>)
  next
    case False
    obtain sm where d: "delete_element P (nm_moves nd) (ns_pool st) = Some sm" "nodes_reach P va (\<sigma>(nm_moves nd := None)) sm"
      using delete_live [OF P r(1), of "nm_moves nd"] owned_in_dom [OF inv Some False] by blast
    show ?thesis
      by (rule step_upd [OF inv, of "\<sigma>(nm_moves nd := None)" "st\<lparr>ns_nodes := (ns_nodes st)(i := None), ns_pool := sm\<rparr>" i None])
        (use r Some False d pi in \<open>auto simp: nm_destroy_def node_values_def value_state_def\<close>)
  qed
qed (simp add: step_ok_def value_state_def node_values_def)

lemma step_untried:
  assumes P: "pool_ok P va" and inv: "node_inv P va \<sigma> st"
  shows "step_ok P va G unif \<sigma> (Op_untried i) st"
proof (cases "ns_nodes st i")
  case (Some nd)
  have r: "nodes_reach P va \<sigma> (ns_pool st)" "owned_arrays_of (ns_nodes st) \<subseteq> dom \<sigma>" using inv by (simp_all add: node_inv_def)
  have pi: "pointers (ns_nodes st i) \<subseteq> owned_arrays_of (ns_nodes st)" by (auto simp: owned_arrays_of_def)
  show ?thesis
  proof (cases "nm_moves nd = 0")
    case True
    then show ?thesis using read_null [OF P r(1)] Some
      by (simp add: step_ok_def nm_getUntriedMove_def getUntriedMove_data_def value_state_def node_values_def node_value_def)
  next
    case False
    obtain ms where ms: "\<sigma> (nm_moves nd) = Some ms" using owned_in_dom [OF inv Some False] by blast
    note rd = read_live(1) [OF P r(1) ms]
    have v: "nd_moves (node_value \<sigma> nd) = Some ms" using ms False by (simp add: node_value_def)
    show ?thesis
    proof (cases "1 = m_size ms")
      case True
      show ?thesis
      proof (cases "front ms")
        case None
        then show ?thesis using Some rd v True
          by (simp add: step_ok_def nm_getUntriedMove_def getUntriedMove_data_def value_state_def node_values_def)
      next
        case mv: (Some mv)
        obtain sm where d: "delete_element P (nm_moves nd) (ns_pool st) = Some sm" "nodes_reach P va (\<sigma>(nm_moves nd := None)) sm"
          using delete_live [OF P r(1), of "nm_moves nd"] ms by blast
        show ?thesis
          by (rule step_upd [OF inv, of "\<sigma>(nm_moves nd := None)"
                "st\<lparr>ns_nodes := (ns_nodes st)(i \<mapsto> nd\<lparr>nm_moves := 0\<rparr>), ns_pool := sm, ns_drawn := ns_drawn st @ [mv]\<rparr>" i "Some (nd\<lparr>nm_moves := 0\<rparr>)"])
            (use r Some False d pi rd v True mv in \<open>auto simp: nm_getUntriedMove_def getUntriedMove_data_def value_state_def node_values_def node_value_def\<close>)
      qed
    next
      case many: False
      show ?thesis
      proof (cases "draw unif ms (ns_rng st)")
        case None
        then show ?thesis using Some rd v many
          by (simp add: step_ok_def nm_getUntriedMove_def getUntriedMove_data_def value_state_def node_values_def)
      next
        case dr: (Some res)
        obtain mv ms' g where dr: "draw unif ms (ns_rng st) = Some (mv, ms', g)" using dr by (cases res) auto
        obtain sm where w: "write_element P (nm_moves nd) ms' (ns_pool st) = Some sm" "nodes_reach P va (\<sigma>(nm_moves nd \<mapsto> ms')) sm"
          using write_live [OF P r(1) ms] by blast
        show ?thesis
          by (rule step_upd [OF inv, of "\<sigma>(nm_moves nd \<mapsto> ms')"
                "st\<lparr>ns_nodes := (ns_nodes st)(i \<mapsto> nd), ns_pool := sm, ns_rng := g, ns_drawn := ns_drawn st @ [mv]\<rparr>" i "Some nd"])
            (use r Some False w pi rd v many dr ms in \<open>auto simp: nm_getUntriedMove_def getUntriedMove_data_def value_state_def node_values_def node_value_def\<close>)
      qed
    qed
  qed
qed (simp add: step_ok_def value_state_def node_values_def)

text \<open>Handing over: the array changes its node in two or three updates of the names.\<close>

lemma step_move:
  assumes inv: "node_inv P va \<sigma> st"
  shows "step_ok P va G unif \<sigma> (Op_move i j) st"
proof (cases "ns_nodes st i = None \<and> ns_nodes st j \<noteq> None")
  case True
  then obtain src where n: "ns_nodes st i = None" "ns_nodes st j = Some src" by auto
  then have ij: "i \<noteq> j" by auto
  have r: "nodes_reach P va \<sigma> (ns_pool st)" "owned_arrays_of (ns_nodes st) \<subseteq> dom \<sigma>" using inv by (simp_all add: node_inv_def)
  have pj: "pointers (Some src) \<subseteq> owned_arrays_of (ns_nodes st)" unfolding owned_arrays_of_def n(2) [symmetric] by blast
  let ?src = "src\<lparr>nm_moves := 0\<rparr>" and ?nd = "\<lparr>nm_moves = nm_moves src, nm_score = nm_score src, nm_visits = nm_visits src, nm_player = nm_player src\<rparr>"
  let ?st1 = "st\<lparr>ns_nodes := (ns_nodes st)(j \<mapsto> ?src)\<rparr>"
  let ?st2 = "?st1\<lparr>ns_nodes := (ns_nodes ?st1)(i \<mapsto> ?nd)\<rparr>"
  have 1: "node_inv P va \<sigma> ?st1" "node_values \<sigma> (ns_nodes ?st1) = (node_values \<sigma> (ns_nodes st))(j \<mapsto> node_value \<sigma> ?src)"
    "owned_arrays_of (ns_nodes ?st1) = owned_arrays_of (ns_nodes st) - pointers (Some src)"
    using upd_step [OF inv r(1), of ?st1 j "Some ?src"] n(2) by simp_all
  have p: "pointers (Some ?nd) = pointers (Some src)" by simp
  have 2: "node_inv P va \<sigma> ?st2" "node_values \<sigma> (ns_nodes ?st2) = (node_values \<sigma> (ns_nodes ?st1))(i \<mapsto> node_value \<sigma> ?nd)"
    "owned_arrays_of (ns_nodes ?st2) = owned_arrays_of (ns_nodes ?st1) \<union> pointers (Some src)"
    using upd_step [OF 1(1), of \<sigma> "ns_pool st" ?st2 i "Some ?nd"] r pj n(1) ij unfolding 1(3) p by auto
  have "node_exec P va G unif (Op_move i j) st = Some ?st2" using n by (simp add: unused_def nm_move_def)
  moreover have "node_value \<sigma> ?src = (node_value \<sigma> src)\<lparr>nd_moves := None\<rparr>" "node_value \<sigma> ?nd = NodeData_copy (node_value \<sigma> src)"
    by (simp_all add: node_value_def NodeData_copy_def)
  then have "value_exec G unif (Op_move i j) (value_state \<sigma> st) = Some (value_state \<sigma> ?st2)"
    using n 2(2) unfolding 1(2) by (simp add: value_state_def unused_def node_values_def [of _ _ j] node_values_def [of _ _ i])
  moreover have "owned_arrays_of (ns_nodes ?st2) = owned_arrays_of (ns_nodes st)" unfolding 2(3) 1(3) using pj by blast
  ultimately show ?thesis using 2(1) by (auto simp: step_ok_def)
qed (auto simp: step_ok_def unused_def value_state_def node_values_def split: option.splits)

lemma step_assign_move:
  assumes inv: "node_inv P va \<sigma> st"
  shows "step_ok P va G unif \<sigma> (Op_assign_move i j) st"
proof (cases "ns_nodes st i \<noteq> None \<and> ns_nodes st j \<noteq> None")
  case True
  then obtain nd rhs where n: "ns_nodes st i = Some nd" "ns_nodes st j = Some rhs" by auto
  have r: "nodes_reach P va \<sigma> (ns_pool st)" "owned_arrays_of (ns_nodes st) \<subseteq> dom \<sigma>" "one_owner (ns_nodes st)" using inv by (simp_all add: node_inv_def)
  show ?thesis
  proof (cases "i = j")
    case True
    then show ?thesis using n inv by (auto simp: step_ok_def value_state_def node_values_def)
  next
    case False
    let ?nd = "nd\<lparr>nm_moves := nm_moves rhs, nm_score := nm_score rhs, nm_visits := nm_visits rhs, nm_player := nm_player rhs\<rparr>"
    let ?rhs = "rhs\<lparr>nm_moves := nm_moves nd\<rparr>"
    let ?O = "owned_arrays_of (ns_nodes st)" and ?p = "pointers (Some nd)" and ?q = "pointers (Some rhs)"
    have pq: "?p \<subseteq> ?O" "?q \<subseteq> ?O" unfolding owned_arrays_of_def n [symmetric] by blast+
    have dis: "?p \<inter> ?q = {}" using r(3) False unfolding one_owner_def n [symmetric] by blast
    let ?st1 = "st\<lparr>ns_nodes := (ns_nodes st)(i := None)\<rparr>"
    let ?st2 = "?st1\<lparr>ns_nodes := (ns_nodes ?st1)(j \<mapsto> ?rhs)\<rparr>"
    let ?st3 = "?st2\<lparr>ns_nodes := (ns_nodes ?st2)(i \<mapsto> ?nd)\<rparr>"
    have 1: "node_inv P va \<sigma> ?st1" "node_values \<sigma> (ns_nodes ?st1) = (node_values \<sigma> (ns_nodes st))(i := None)"
      "owned_arrays_of (ns_nodes ?st1) = ?O - ?p"
      using upd_step [OF inv r(1), of ?st1 i None] n(1) by simp_all
    have e2: "pointers (Some ?rhs) = ?p" "pointers (ns_nodes ?st1 j) = ?q" using n(2) False by simp_all
    have "pointers (Some ?rhs) \<subseteq> dom \<sigma>" "pointers (Some ?rhs) \<inter> (owned_arrays_of (ns_nodes ?st1) - pointers (ns_nodes ?st1 j)) = {}"
      unfolding 1(3) e2 using r(2) pq by blast+
    then have 2: "node_inv P va \<sigma> ?st2" "node_values \<sigma> (ns_nodes ?st2) = (node_values \<sigma> (ns_nodes ?st1))(j \<mapsto> node_value \<sigma> ?rhs)"
      "owned_arrays_of (ns_nodes ?st2) = (owned_arrays_of (ns_nodes ?st1) - pointers (ns_nodes ?st1 j)) \<union> pointers (Some ?rhs)"
      using upd_step [OF 1(1) r(1), of ?st2 j "Some ?rhs"] by (simp_all del: pointers.simps)
    have O2: "owned_arrays_of (ns_nodes ?st2) = (?O - ?p - ?q) \<union> ?p" unfolding 2(3) 1(3) e2 ..
    have e3: "pointers (Some ?nd) = ?q" "pointers (ns_nodes ?st2 i) = {}" using False by simp_all
    have "pointers (Some ?nd) \<subseteq> dom \<sigma>" "pointers (Some ?nd) \<inter> (owned_arrays_of (ns_nodes ?st2) - pointers (ns_nodes ?st2 i)) = {}"
      unfolding O2 e3 using r(2) pq dis by blast+
    then have 3: "node_inv P va \<sigma> ?st3" "node_values \<sigma> (ns_nodes ?st3) = (node_values \<sigma> (ns_nodes ?st2))(i \<mapsto> node_value \<sigma> ?nd)"
      "owned_arrays_of (ns_nodes ?st3) = (owned_arrays_of (ns_nodes ?st2) - pointers (ns_nodes ?st2 i)) \<union> pointers (Some ?nd)"
      using upd_step [OF 2(1) r(1), of ?st3 i "Some ?nd"] by (simp_all del: pointers.simps)
    have O3: "owned_arrays_of (ns_nodes ?st3) = ?O" unfolding 3(3) O2 e3 using pq by blast
    have "ns_nodes ?st3 = (ns_nodes st)(j \<mapsto> ?rhs, i \<mapsto> ?nd)" using False by (simp add: fun_eq_iff)
    then have "node_exec P va G unif (Op_assign_move i j) st = Some ?st3" using n False by (simp add: nm_assign_move_def)
    moreover have "(node_value \<sigma> ?nd, node_value \<sigma> ?rhs) = NodeData_assign_move (node_value \<sigma> nd) (node_value \<sigma> rhs)"
      by (simp add: node_value_def NodeData_assign_move_def)
    then have "value_exec G unif (Op_assign_move i j) (value_state \<sigma> st) = Some (value_state \<sigma> ?st3)"
      using n 3(2) False unfolding 2(2) 1(2)
      by (simp add: value_state_def node_values_def [of _ _ i] node_values_def [of _ _ j] fun_upd_twist split: prod.splits) (auto simp: fun_eq_iff)
    ultimately show ?thesis using 3(1) O3 by (auto simp: step_ok_def)
  qed
qed (auto simp: step_ok_def value_state_def node_values_def split: option.splits)

lemma node_step:
  assumes "pool_ok P va" "node_inv P va \<sigma> st"
  shows "step_ok P va G unif \<sigma> x st"
  by (cases x) (simp_all add: assms step_new [OF assms(2)] step_state [OF assms] step_copy [OF assms] step_move [OF assms(2)]
      step_assign_copy [OF assms] step_assign_move [OF assms(2)] step_plus [OF assms(2)] step_untried [OF assms] step_destroy [OF assms])

section \<open>Whole programs\<close>

text \<open>The arrays that the copy assignments of a program lose.\<close>

fun lost_by :: "pool_type \<Rightarrow> valloc \<Rightarrow> ('s, 'm) game_ops \<Rightarrow> uniform_int \<Rightarrow> 's node_op list \<Rightarrow> 'm node_state \<Rightarrow> u64 set" where
  "lost_by P va G unif [] st = {}"
| "lost_by P va G unif (x # xs) st =
    lost x st \<union> (case node_exec P va G unif x st of None \<Rightarrow> {} | Some st' \<Rightarrow> lost_by P va G unif xs st')"

lemma node_inv_start: "regions_ok (mem_regions mem) \<Longrightarrow> node_inv P va (\<lambda>_. None) (node_start mem g)"
  by (simp add: node_inv_def node_start_def owned_arrays_of_def one_owner_def nodes_reach.start)

lemma value_state_start: "value_state (\<lambda>_. None) (node_start mem g) = value_start g"
  by (simp add: value_state_def node_start_def value_start_def node_values_def fun_eq_iff)

lemma node_run_some:
  assumes "pool_ok P va" "node_inv P va \<sigma> st" "node_run P va G unif xs st = Some st'"
  shows "\<exists>\<tau>. node_inv P va \<tau> st' \<and> value_run G unif xs (value_state \<sigma> st) = Some (value_state \<tau> st') \<and>
    dom \<tau> - owned_arrays_of (ns_nodes st') = (dom \<sigma> - owned_arrays_of (ns_nodes st)) \<union> lost_by P va G unif xs st"
  using assms(2,3)
proof (induction xs arbitrary: \<sigma> st)
  case (Cons x xs)
  from Cons.prems(2) obtain st1 where e: "node_exec P va G unif x st = Some st1" "node_run P va G unif xs st1 = Some st'"
    by (auto simp: bind_eq_Some_conv)
  with node_step [OF assms(1) Cons.prems(1), of G unif x] obtain \<rho> where
    r: "node_inv P va \<rho> st1" "value_exec G unif x (value_state \<sigma> st) = Some (value_state \<rho> st1)"
      "dom \<rho> - owned_arrays_of (ns_nodes st1) = (dom \<sigma> - owned_arrays_of (ns_nodes st)) \<union> lost x st"
    by (auto simp: step_ok_def)
  from Cons.IH [OF r(1) e(2)] show ?case unfolding r(3) by (auto simp: e(1) r(2) Un_assoc)
qed auto

lemma node_run_none:
  assumes "pool_ok P va" "node_inv P va \<sigma> st" "node_run P va G unif xs st = None"
  shows "value_run G unif xs (value_state \<sigma> st) = None \<or>
    (\<exists>ys zs st'. xs = ys @ zs \<and> node_run P va G unif ys st = Some st' \<and> no_memory P va (ns_pool st'))"
  using assms(2,3)
proof (induction xs arbitrary: \<sigma> st)
  case (Cons x xs)
  note s = node_step [OF assms(1) Cons.prems(1), of G unif x]
  show ?case
  proof (cases "node_exec P va G unif x st")
    case None
    with s have "value_exec G unif x (value_state \<sigma> st) = None \<or> no_memory P va (ns_pool st)" by (simp add: step_ok_def)
    then show ?thesis
    proof
      assume "no_memory P va (ns_pool st)"
      then show ?thesis by (intro disjI2 exI [of _ "[]"] exI [of _ "x # xs"] exI [of _ st]) simp
    qed simp
  next
    case (Some st1)
    with s obtain \<rho> where r: "node_inv P va \<rho> st1" "value_exec G unif x (value_state \<sigma> st) = Some (value_state \<rho> st1)"
      by (auto simp: step_ok_def)
    have "node_run P va G unif xs st1 = None" using Cons.prems(2) Some by simp
    from Cons.IH [OF r(1) this] show ?thesis
    proof (elim disjE exE conjE)
      fix ys zs st' assume "xs = ys @ zs" "node_run P va G unif ys st1 = Some st'" "no_memory P va (ns_pool st')"
      then show ?thesis by (intro disjI2 exI [of _ "x # ys"] exI [of _ zs] exI [of _ st']) (simp add: Some)
    qed (simp add: r(2))
  qed
qed simp

section \<open>A program\<close>

text \<open>Two nodes on a new game of Connect Four, one assigned to the other, and both destroyed.\<close>

definition moves_memory :: "move moves memory" where
  "moves_memory = \<lparr>mem_regions = [], mem_slots = (\<lambda>_. None), mem_allocs = 0, mem_dtors = []\<rparr>"

definition node_program :: "cf_state node_op list" where
  "node_program = [Op_state 0 (connect_four 6 7 Human), Op_copy 1 0, Op_assign_copy 0 1, Op_destroy 0, Op_destroy 1]"

abbreviation node_game :: "(cf_state, move) game_ops" where
  "node_game \<equiv> cf_ops uniform_mod 7"

lemma node_game_moves:
  "g_moves node_game (connect_four 6 7 Human) (g_new_moves node_game) = Some (True, \<lparr>m_size = 7, m_moves = [0, 1, 2, 3, 4, 5, 6]\<rparr>)"
  "g_playerJustMoved node_game (connect_four 6 7 Human) = Human"
  by code_simp+

lemma node_pad: "pad_pointer 196616 8 = 0" by code_simp

lemmas node_ops = node_start_def node_program_def unused_def nm_of_state_def nm_copy_def nm_assign_copy_def nm_destroy_def read_element_def
  write_element_def nm_default_def node_game_moves pool_ops demo_sizes node_pad pool_new_def moves_memory_def demo_valloc_def

lemma node_program_run:
  "map_option ns_nodes (node_run demo_object demo_valloc node_game uniform_mod node_program (node_start moves_memory g)) = Some (\<lambda>_. None)"
  "lost_by demo_object demo_valloc node_game uniform_mod node_program (node_start moves_memory g) = {65544}"
  by (simp add: node_ops, simp add: demo_object_def)+

lemma node_pool_ok: "pool_ok demo_object demo_valloc" "regions_ok (mem_regions moves_memory)"
  by (simp_all add: pool_ok_def demo_types demo_valloc_ok moves_memory_def)

section \<open>Properties\<close>

text \<open>C16: The operations of \<^verbatim>\<open>NodeData\<close> on the pool of arrays do what they do on values. In a program of constructions, copies, moves, assignments, additions, draws and
  destructions, every array belongs to at most one node and lives in the pool, the nodes have the values of the same program on values and the same moves are drawn. The program
  stops only where that on values does, or when the pool can not get memory.
\<close>

theorem node_memory_refines:
  assumes "pool_ok P va" "regions_ok (mem_regions mem)"
  shows "case node_run P va G unif xs (node_start mem g) of
      Some st \<Rightarrow> \<exists>\<sigma>. node_inv P va \<sigma> st \<and> value_run G unif xs (value_start g) = Some (value_state \<sigma> st)
    | None \<Rightarrow> value_run G unif xs (value_start g) = None \<or>
        (\<exists>ys zs st. xs = ys @ zs \<and> node_run P va G unif ys (node_start mem g) = Some st \<and> no_memory P va (ns_pool st))"
proof (cases "node_run P va G unif xs (node_start mem g)")
  case None
  from node_run_none [OF assms(1) node_inv_start [OF assms(2)] None] None show ?thesis by (simp add: value_state_start)
next
  case (Some st)
  from node_run_some [OF assms(1) node_inv_start [OF assms(2)] Some] Some show ?thesis by (auto simp: value_state_start)
qed

theorem node_memory_refines_witness:
  "\<exists>st \<sigma>. node_run demo_object demo_valloc node_game uniform_mod node_program (node_start moves_memory (splitmix64 42 7)) = Some st \<and>
    node_inv demo_object demo_valloc \<sigma> st \<and> value_run node_game uniform_mod node_program (value_start (splitmix64 42 7)) = Some (value_state \<sigma> st)"
proof -
  obtain st where "node_run demo_object demo_valloc node_game uniform_mod node_program (node_start moves_memory (splitmix64 42 7)) = Some st"
    using node_program_run(1) by (auto simp: map_option_eq_Some)
  with node_memory_refines [OF node_pool_ok, of node_game uniform_mod node_program "splitmix64 42 7"] show ?thesis by simp
qed

text \<open>C35: The arrays that live in the pool and belong to no node are those that the copy assignments of the program have lost, each the old array of a target whose source has one
  too: without such an assignment nothing leaks, and with one an array stays in the pool when all nodes are gone.
\<close>

theorem node_memory_leaks:
  assumes "pool_ok P va" "regions_ok (mem_regions mem)" "node_run P va G unif xs (node_start mem g) = Some st"
  shows "\<exists>\<sigma>. node_inv P va \<sigma> st \<and> value_run G unif xs (value_start g) = Some (value_state \<sigma> st) \<and>
    dom \<sigma> - owned_arrays_of (ns_nodes st) = lost_by P va G unif xs (node_start mem g)"
proof -
  have "owned_arrays_of (ns_nodes (node_start mem g)) = {}" by (simp add: node_start_def owned_arrays_of_def)
  with node_run_some [OF assms(1) node_inv_start [OF assms(2)] assms(3)] show ?thesis by (simp add: value_state_start)
qed

theorem node_memory_leaks_witness:
  "\<exists>st \<sigma>. node_run demo_object demo_valloc node_game uniform_mod node_program (node_start moves_memory (splitmix64 42 7)) = Some st \<and>
    nodes_reach demo_object demo_valloc \<sigma> (ns_pool st) \<and> ns_nodes st = (\<lambda>_. None) \<and> dom \<sigma> = {65544}"
proof -
  obtain st where st: "node_run demo_object demo_valloc node_game uniform_mod node_program (node_start moves_memory (splitmix64 42 7)) = Some st"
    "ns_nodes st = (\<lambda>_. None)"
    using node_program_run(1) by (auto simp: map_option_eq_Some)
  from node_memory_leaks [OF node_pool_ok st(1)] st show ?thesis
    by (auto simp: node_program_run(2) node_inv_def owned_arrays_of_def)
qed

end
