(* ===== verification/Mcts_Archive.thy ===== *)
theory Mcts_Archive
  imports Node_Memory_Spec
begin

text \<open>
  The archives of mcts.hpp: the data of arcs and nodes, the latter with the pool that the arrays of moves live in, and the search object. The remaining members of \<^verbatim>\<open>ArcData\<close>
  are here too: copying and adding.
\<close>

section \<open>Arcs\<close>

definition ArcData_copy :: "'m arc_data \<Rightarrow> 'm arc_data" where
  "ArcData_copy ad = \<lparr>ad_move = ad_move ad\<rparr>"

definition ArcData_move :: "'m arc_data \<Rightarrow> 'm arc_data" where
  "ArcData_move ad = \<lparr>ad_move = ad_move ad\<rparr>"

definition ArcData_plus :: "'m arc_data \<Rightarrow> 'm arc_data \<Rightarrow> 'm arc_data" where
  "ArcData_plus ad rhs = ad"

definition ArcData_assign_copy :: "'m arc_data \<Rightarrow> 'm arc_data \<Rightarrow> 'm arc_data" where
  "ArcData_assign_copy ad rhs = ad\<lparr>ad_move := ad_move rhs\<rparr>"

definition ArcData_assign_move :: "'m arc_data \<Rightarrow> 'm arc_data \<Rightarrow> 'm arc_data" where
  "ArcData_assign_move ad rhs = ad\<lparr>ad_move := ad_move rhs\<rparr>"

text \<open>\<^verbatim>\<open>serialize\<close> with an output archive, and with an input archive.\<close>

definition ArcData_save :: "'m arc_data \<Rightarrow> 'm archive" where
  "ArcData_save ad = [Item_element (ad_move ad)]"

definition ArcData_load :: "'m archive \<Rightarrow> 'm arc_data \<Rightarrow> ('m arc_data \<times> 'm archive) option" where
  "ArcData_load ar ad = do {
     (mv, ar) \<leftarrow> take_element ar;
     Some (ad\<lparr>ad_move := mv\<rparr>, ar) }"

lemma ArcData_save_load: "ArcData_load (ArcData_save ad @ ar) ad' = Some (ArcData_copy ad, ar)"
  by (simp add: ArcData_save_def ArcData_load_def ArcData_copy_def)

section \<open>Nodes\<close>

text \<open>A node is written with the array its pointer leads to. Reading one with the tag 2 makes a new array, whatever the pointer of the target was; with
  the tag 1 the pointer of the target stays.\<close>

definition nm_save :: "pool_type \<Rightarrow> node_mem \<Rightarrow> 'm moves_pool \<Rightarrow> 'm archive option" where
  "nm_save P nd sm = do {
     out \<leftarrow> (if nm_moves nd \<noteq> 0 then do {
         ms \<leftarrow> read_element P (nm_moves nd) sm;
         out \<leftarrow> moves_save ms;
         Some (Item_int8 2 # out) }
       else Some [Item_int8 1]);
     Some (out @ [Item_float (nm_score nd), Item_int32 (nm_visits nd), Item_player (nm_player nd)]) }"

definition nm_load ::
  "pool_type \<Rightarrow> valloc \<Rightarrow> ('s, 'm) game_ops \<Rightarrow> 'm archive \<Rightarrow> node_mem \<Rightarrow> 'm moves_pool \<Rightarrow> (node_mem \<times> 'm moves_pool \<times> 'm archive) option"
where
  "nm_load P va G ar nd sm = do {
     (tag, ar) \<leftarrow> take_int8 ar;
     (nd, sm, ar) \<leftarrow> (if 2 = tag then do {
         (p, sm) \<leftarrow> new_element P va (g_new_moves G) sm;
         let nd = nd\<lparr>nm_moves := p\<rparr>;
         ms \<leftarrow> read_element P (nm_moves nd) sm;
         (ms, ar) \<leftarrow> moves_load ar ms;
         sm \<leftarrow> write_element P (nm_moves nd) ms sm;
         Some (nd, sm, ar) }
       else Some (nd, sm, ar));
     (score, ar) \<leftarrow> take_float ar;
     (visits, ar) \<leftarrow> take_int32 ar;
     (p, ar) \<leftarrow> take_player ar;
     Some (nd\<lparr>nm_score := score, nm_visits := visits, nm_player := p\<rparr>, sm, ar) }"

lemma new_element_no_memory:
  assumes "pool_ok P va" "nodes_reach P va \<sigma> sm" "no_memory P va sm"
  shows "new_element P va v sm = None"
proof -
  obtain s mem where sm: "sm = (s, mem)" by (rule prod.exhaust)
  obtain n bs fs where r: "block_size P = Some n" "nodes_at P \<sigma> bs fs s mem" by (rule reach_at [OF assms(1,2)]) (simp add: sm)
  with new_element_none [OF r(2,1)] assms(3) show ?thesis by (simp add: no_memory_def sm)
qed

text \<open>Reading the moves of a node makes one new array.\<close>

lemma load_new_array:
  assumes P: "pool_ok P va" and r: "nodes_reach P va \<sigma> sm" and ms: "moves_wf ms" "m_size ms \<le> capacity n" and out: "moves_save ms = Some out"
    and "new_element P va n sm = Some (p, sm1)"
  shows "\<exists>ms' sm'. read_element P p sm1 = Some n \<and> moves_load (out @ ar) n = Some (ms', ar) \<and> write_element P p ms' sm1 = Some sm'
    \<and> nodes_reach P va (\<sigma>(p \<mapsto> ms')) sm' \<and> \<sigma> p = None \<and> p \<noteq> 0 \<and> moves_wf ms' \<and> contents ms' = contents ms \<and> capacity ms' = capacity n"
proof -
  from new_live(2) [OF P r assms(6)] have n: "nodes_reach P va (\<sigma>(p \<mapsto> n)) sm1" "\<sigma> p = None" "p \<noteq> 0" by simp_all
  from moves_save_load [OF ms, of ar] out obtain ms' where
    ms': "moves_load (out @ ar) n = Some (ms', ar)" "moves_wf ms'" "contents ms' = contents ms" "capacity ms' = capacity n" by auto
  have "(\<sigma>(p \<mapsto> n)) p = Some n" by simp
  from read_live(1) [OF P n(1) this] write_live [OF P n(1) this, of ms', unfolded fun_upd_upd] n(2,3) ms' show ?thesis by blast
qed

section \<open>The search object\<close>

text \<open>The archives of the tree and of the table are a matter of their libraries, and parameters. Saving an object that was never initialised dereferences the null pointer of its table.\<close>

definition mcts_save :: "('t \<Rightarrow> 'm archive) \<Rightarrow> ((u64 \<times> index_t) list \<Rightarrow> 'm archive) \<Rightarrow> ('t, 'p) mcts \<Rightarrow> 'm archive option" where
  "mcts_save tree_save table_save m = do {
     tt \<leftarrow> m_transposition_table m;
     Some (tree_save (m_tree m) @ table_save tt @ [Item_flag (m_not_initialized m)]) }"

definition mcts_load ::
  "('t, 'p, 's, 'm, 'f) mcts_env \<Rightarrow> ('t \<Rightarrow> 't) \<Rightarrow> ('m archive \<Rightarrow> 't \<Rightarrow> ('t \<times> 'm archive) option) \<Rightarrow>
   ('m archive \<Rightarrow> (u64 \<times> index_t) list \<Rightarrow> ((u64 \<times> index_t) list \<times> 'm archive) option) \<Rightarrow> 'm archive \<Rightarrow> ('t, 'p) mcts \<Rightarrow> (('t, 'p) mcts \<times> 'm archive) option"
where
  "mcts_load E tree_clear tree_load table_load ar m = do {
     let m = m\<lparr>m_tree := tree_clear (m_tree m)\<rparr>;
     let m = (case m_transposition_table m of
       None \<Rightarrow> m\<lparr>m_transposition_table := Some []\<rparr> | Some tt \<Rightarrow> m\<lparr>m_transposition_table := Some []\<rparr>);
     (t, ar) \<leftarrow> tree_load ar (m_tree m);
     let m = m\<lparr>m_tree := t\<rparr>;
     tt \<leftarrow> m_transposition_table m;
     (tt, ar) \<leftarrow> table_load ar tt;
     let m = m\<lparr>m_transposition_table := Some tt\<rparr>;
     (f, ar) \<leftarrow> take_flag ar;
     let m = m\<lparr>m_not_initialized := f\<rparr>;
     let m = m\<lparr>m_path := pt_reset (e_path E) (st_root_arc (e_tree E) (m_tree m)) (st_root_node (e_tree E) (m_tree m)) (m_path m)\<rparr>;
     Some (m\<lparr>m_path_size := 1\<rparr>, ar) }"

text \<open>The archives need to be read back right only into an object that has just been emptied.\<close>

lemma mcts_save_load:
  assumes "\<And>t t' ar. tree_load (tree_save t @ ar) (tree_clear t') = Some (t, ar)" "\<And>tt ar. table_load (table_save tt @ ar) [] = Some (tt, ar)"
    and "mcts_save tree_save table_save m = Some out"
  shows "\<exists>m''. mcts_load E tree_clear tree_load table_load (out @ ar) m' = Some (m'', ar) \<and> m_tree m'' = m_tree m
    \<and> m_transposition_table m'' = m_transposition_table m \<and> m_not_initialized m'' = m_not_initialized m \<and> m_path_size m'' = 1
    \<and> m_path m'' = pt_reset (e_path E) (st_root_arc (e_tree E) (m_tree m)) (st_root_node (e_tree E) (m_tree m)) (m_path m')"
  using assms(3)
  by (cases "m_transposition_table m"; cases "m_transposition_table m'") (auto simp: mcts_save_def mcts_load_def Let_def assms(1,2))

section \<open>Properties\<close>

text \<open>C33: A node is written and read back through its archive. Let its array of moves live in a pool and have no more moves than a new array can hold. Then saving succeeds, and reading what was
  saved, with anything behind it, into any node and any reachable pool consumes exactly what was saved. It gives back the score, the visits and the player; when the
  node had moves, the target has a pointer to a new array with the same moves in the same order, distinct from all arrays of the pool, of which none has changed, also the one that the target had before; when the
  node had none, the target keeps its pointer and the pool is as it was. Reading fails exactly when there are moves to read and the pool has neither a free slot nor memory for a block.\<close>

theorem node_archive_roundtrip:
  assumes "pool_ok P va" "nodes_reach P va \<sigma> sm" "nodes_reach P va \<tau> sm'"
    and "nm_moves nd \<noteq> 0 \<longrightarrow> (\<exists>ms. \<sigma> (nm_moves nd) = Some ms \<and> moves_wf ms \<and> m_size ms \<le> capacity (g_new_moves G))"
  shows "\<exists>ar. nm_save P nd sm = Some ar \<and>
    (nm_load P va G (ar @ rest) x sm' = None \<longleftrightarrow> nm_moves nd \<noteq> 0 \<and> no_memory P va sm') \<and>
    (\<forall>nd' sm'' rest'. nm_load P va G (ar @ rest) x sm' = Some (nd', sm'', rest') \<longrightarrow>
      rest' = rest \<and> nm_score nd' = nm_score nd \<and> nm_visits nd' = nm_visits nd \<and> nm_player nd' = nm_player nd \<and>
      (if nm_moves nd = 0 then nm_moves nd' = nm_moves x \<and> sm'' = sm'
       else nm_moves nd' \<noteq> 0 \<and> \<tau> (nm_moves nd') = None \<and>
         (\<exists>ms'. nodes_reach P va (\<tau>(nm_moves nd' \<mapsto> ms')) sm'' \<and> moves_wf ms' \<and> contents ms' = contents (the (\<sigma> (nm_moves nd))))))"
proof (cases "nm_moves nd = 0")
  case True
  then show ?thesis by (auto simp: nm_save_def nm_load_def)
next
  case False
  with assms(4) obtain ms where ms: "\<sigma> (nm_moves nd) = Some ms" "moves_wf ms" "m_size ms \<le> capacity (g_new_moves G)" by blast
  let ?rest = "[Item_float (nm_score nd), Item_int32 (nm_visits nd), Item_player (nm_player nd)] @ rest"
  from moves_save_load [OF ms(2,3)] obtain out where out: "moves_save ms = Some out" by blast
  have save: "nm_save P nd sm = Some (Item_int8 2 # out @ [Item_float (nm_score nd), Item_int32 (nm_visits nd), Item_player (nm_player nd)])"
    using read_live(1) [OF assms(1,2) ms(1)] out False by (simp add: nm_save_def)
  show ?thesis
  proof (cases "new_element P va (g_new_moves G) sm'")
    case None
    from new_live(1) [OF assms(1,3) None] have "no_memory P va sm'" .
    with None save False show ?thesis by (simp add: nm_load_def)
  next
    case (Some q)
    then obtain p sm1 where new: "new_element P va (g_new_moves G) sm' = Some (p, sm1)" by (cases q) simp
    then have mem: "\<not> no_memory P va sm'" using new_element_no_memory [OF assms(1,3)] by fastforce
    from load_new_array [OF assms(1,3) ms(2,3) out new, of ?rest] obtain ms' sm2 where
      l: "read_element P p sm1 = Some (g_new_moves G)" "moves_load (out @ ?rest) (g_new_moves G) = Some (ms', ?rest)" "write_element P p ms' sm1 = Some sm2"
      "nodes_reach P va (\<tau>(p \<mapsto> ms')) sm2" "\<tau> p = None" "p \<noteq> 0" "moves_wf ms'" "contents ms' = contents ms" by blast
    show ?thesis using save new mem l ms(1) False by (auto simp: nm_load_def)
  qed
qed

theorem node_archive_roundtrip_witness:
  "\<exists>p sm ar nd' sm' ms'. new_element demo_object demo_valloc \<lparr>m_size = 2, m_moves = [3, 5, 0, 0, 0, 0, 0]\<rparr> (pool_new, moves_memory) = Some (p, sm)
    \<and> nm_save demo_object \<lparr>nm_moves = p, nm_score = 3, nm_visits = 5, nm_player = Human\<rparr> sm = Some ar
    \<and> nm_load demo_object demo_valloc node_game ar nm_default (pool_new, moves_memory) = Some (nd', sm', [])
    \<and> nm_visits nd' = 5 \<and> nodes_reach demo_object demo_valloc [nm_moves nd' \<mapsto> ms'] sm' \<and> contents ms' = [3, 5]"
proof -
  let ?ms = "\<lparr>m_size = 2, m_moves = [3, 5, 0, 0, 0, 0, 0]\<rparr> :: move moves"
  have r0: "nodes_reach demo_object demo_valloc (\<lambda>_. None) (pool_new, moves_memory)" using node_pool_ok(2) by (rule nodes_reach.start)
  have mem: "\<not> no_memory demo_object demo_valloc (pool_new, moves_memory :: move moves memory)"
    by (simp add: no_memory_def pool_new_def moves_memory_def demo_sizes demo_valloc_def)
  with new_live(1) [OF node_pool_ok(1) r0, of ?ms] obtain p sm where n: "new_element demo_object demo_valloc ?ms (pool_new, moves_memory) = Some (p, sm)" by fastforce
  from new_live(2) [OF node_pool_ok(1) r0 n] have r: "nodes_reach demo_object demo_valloc [p \<mapsto> ?ms] sm" "p \<noteq> 0" by auto
  let ?nd = "\<lparr>nm_moves = p, nm_score = 3, nm_visits = 5, nm_player = Human\<rparr>"
  have ms: "nm_moves ?nd \<noteq> 0 \<longrightarrow> (\<exists>ms. [p \<mapsto> ?ms] (nm_moves ?nd) = Some ms \<and> moves_wf ms \<and> m_size ms \<le> capacity (g_new_moves node_game))"
    by (simp add: moves_wf_def capacity_def cf_ops_def moves_new_def)
  from node_archive_roundtrip [OF node_pool_ok(1) r(1) r0 ms, of "[]" nm_default] obtain ar where
    ar: "nm_save demo_object ?nd sm = Some ar" "nm_load demo_object demo_valloc node_game ar nm_default (pool_new, moves_memory) \<noteq> None"
    and rd: "\<forall>nd' sm' rest'. nm_load demo_object demo_valloc node_game ar nm_default (pool_new, moves_memory) = Some (nd', sm', rest') \<longrightarrow>
      rest' = [] \<and> nm_visits nd' = 5 \<and> (\<exists>ms'. nodes_reach demo_object demo_valloc [nm_moves nd' \<mapsto> ms'] sm' \<and> contents ms' = contents ?ms)"
    using mem r(2) by (simp only: append_Nil2 node_mem.simps fun_upd_same option.sel if_False simp_thms) blast
  from ar(2) obtain nd' sm' rest' where l: "nm_load demo_object demo_valloc node_game ar nm_default (pool_new, moves_memory) = Some (nd', sm', rest')"
    by (cases "nm_load demo_object demo_valloc node_game ar nm_default (pool_new, moves_memory)") auto
  from rd [rule_format, OF l] obtain ms' where "rest' = []" "nm_visits nd' = 5" "nodes_reach demo_object demo_valloc [nm_moves nd' \<mapsto> ms'] sm'"
    "contents ms' = [3, 5]" by (auto simp: contents_def)
  with ar(1) l n show ?thesis by blast
qed

end
