(* ===== verification/Owning_Ptr.thy ===== *)
theory Owning_Ptr
  imports Mcts_Prelude
begin

text \<open>
  The smart pointers of owningptr.hpp. The store maps addresses to what \<^verbatim>\<open>new\<close> and \<^verbatim>\<open>new []\<close> have made; \<^verbatim>\<open>delete\<close> of an address that holds no object, or
  \<^verbatim>\<open>delete\<close> of an array, fails. The value of an owning pointer is its member \<^verbatim>\<open>Ptr\<close>; a member function that changes it returns the new one.
\<close>

section \<open>The store\<close>

datatype 'a block = Object 'a | Array "'a list"

type_synonym 'a store = "u64 \<Rightarrow> 'a block option"

definition delete_object :: "u64 \<Rightarrow> 'a store \<Rightarrow> 'a store option" where
  "delete_object p h = (if p = 0 then Some h else case h p of Some (Object v) \<Rightarrow> Some (h(p := None)) | _ \<Rightarrow> None)"

definition delete_array :: "u64 \<Rightarrow> 'a store \<Rightarrow> 'a store option" where
  "delete_array p h = (if p = 0 then Some h else case h p of Some (Array vs) \<Rightarrow> Some (h(p := None)) | _ \<Rightarrow> None)"

section \<open>OwningPtr\<close>

record owning =
  own_ptr :: u64

definition OwningPtr :: "u64 \<Rightarrow> owning" where
  "OwningPtr p = \<lparr>own_ptr = p\<rparr>"

definition op_destroy :: "owning \<Rightarrow> 'a store \<Rightarrow> 'a store option" where
  "op_destroy w h = delete_object (own_ptr w) h"

definition op_reset :: "u64 \<Rightarrow> owning \<times> 'a store \<Rightarrow> (owning \<times> 'a store) option" where
  "op_reset p = (\<lambda>(w, h).
    if p = own_ptr w then Some (w, h)
    else do {
      let tmp = own_ptr w;
      let w = w\<lparr>own_ptr := p\<rparr>;
      h \<leftarrow> delete_object tmp h;
      Some (w, h) })"

definition op_take :: "owning \<Rightarrow> u64 \<times> owning" where
  "op_take w = (let tmp = own_ptr w in (tmp, w\<lparr>own_ptr := 0\<rparr>))"

definition op_deref :: "owning \<Rightarrow> 'a store \<Rightarrow> 'a option" where
  "op_deref w h =
    (if own_ptr w \<noteq> 0 then (case h (own_ptr w) of Some (Object v) \<Rightarrow> Some v | _ \<Rightarrow> None) else None)"

definition op_get :: "owning \<Rightarrow> u64" where
  "op_get w = own_ptr w"

definition op_bool :: "owning \<Rightarrow> bool" where
  "op_bool w = (own_ptr w \<noteq> 0)"

definition op_not :: "owning \<Rightarrow> bool" where
  "op_not w = (own_ptr w = 0)"

definition op_swap :: "owning \<Rightarrow> owning \<Rightarrow> owning \<times> owning" where
  "op_swap w rhs =
    (let tmp = own_ptr rhs;
         rhs = rhs\<lparr>own_ptr := own_ptr w\<rparr>;
         w = w\<lparr>own_ptr := tmp\<rparr> in (w, rhs))"

section \<open>OwningArrayPtr\<close>

record owning_array =
  arr_ptr :: u64

definition OwningArrayPtr :: "u64 \<Rightarrow> owning_array" where
  "OwningArrayPtr p = \<lparr>arr_ptr = p\<rparr>"

definition oa_destroy :: "owning_array \<Rightarrow> 'a store \<Rightarrow> 'a store option" where
  "oa_destroy w h = delete_array (arr_ptr w) h"

definition oa_reset :: "u64 \<Rightarrow> owning_array \<times> 'a store \<Rightarrow> (owning_array \<times> 'a store) option" where
  "oa_reset p = (\<lambda>(w, h).
    if p = arr_ptr w then Some (w, h)
    else do {
      let tmp = arr_ptr w;
      let w = w\<lparr>arr_ptr := p\<rparr>;
      h \<leftarrow> delete_array tmp h;
      Some (w, h) })"

definition oa_take :: "owning_array \<Rightarrow> u64 \<times> owning_array" where
  "oa_take w = (let tmp = arr_ptr w in (tmp, w\<lparr>arr_ptr := 0\<rparr>))"

definition oa_index :: "owning_array \<Rightarrow> int \<Rightarrow> 'a store \<Rightarrow> 'a option" where
  "oa_index w i h =
    (if arr_ptr w \<noteq> 0 then (case h (arr_ptr w) of Some (Array vs) \<Rightarrow> aref vs i | _ \<Rightarrow> None) else None)"

definition oa_get :: "owning_array \<Rightarrow> u64" where
  "oa_get w = arr_ptr w"

definition oa_bool :: "owning_array \<Rightarrow> bool" where
  "oa_bool w = (arr_ptr w \<noteq> 0)"

definition oa_not :: "owning_array \<Rightarrow> bool" where
  "oa_not w = (arr_ptr w = 0)"

definition oa_swap :: "owning_array \<Rightarrow> owning_array \<Rightarrow> owning_array \<times> owning_array" where
  "oa_swap w rhs =
    (let tmp = arr_ptr rhs;
         rhs = rhs\<lparr>arr_ptr := arr_ptr w\<rparr>;
         w = w\<lparr>arr_ptr := tmp\<rparr> in (w, rhs))"

end
