(* ===== verification/Owning_Ptr_Inv.thy ===== *)
theory Owning_Ptr_Inv
  imports Owning_Ptr
begin

text \<open>
  Programs that use owning pointers: every object is made by \<^verbatim>\<open>new\<close>, held by a plain pointer until an owner gets it, and owned by one owner
  from then on. The state is the multiset of the owners of objects, that of the owners of arrays, the set of the plain pointers that own something, and the store.
\<close>

section \<open>Programs\<close>

inductive own_reach :: "owning multiset \<Rightarrow> owning_array multiset \<Rightarrow> u64 set \<Rightarrow> 'a store \<Rightarrow> bool" where
  start: "own_reach {#} {#} {} (\<lambda>_. None)"
| new_object: "own_reach W A R h \<Longrightarrow> p \<noteq> 0 \<Longrightarrow> h p = None \<Longrightarrow> own_reach W A (insert p R) (h(p \<mapsto> Object v))"
| new_array: "own_reach W A R h \<Longrightarrow> p \<noteq> 0 \<Longrightarrow> h p = None \<Longrightarrow> own_reach W A (insert p R) (h(p \<mapsto> Array vs))"
| make: "own_reach W A R h \<Longrightarrow> p \<in> R \<Longrightarrow> h p = Some (Object v) \<Longrightarrow> own_reach (add_mset (OwningPtr p) W) A (R - {p}) h"
| make_null: "own_reach W A R h \<Longrightarrow> own_reach (add_mset (OwningPtr 0) W) A R h"
| reset: "own_reach (add_mset w W) A R h \<Longrightarrow> p = 0 \<or> p = op_get w \<or> p \<in> R \<and> h p = Some (Object v) \<Longrightarrow> op_reset p (w, h) = Some (w', h') \<Longrightarrow>
    own_reach (add_mset w' W) A (R - {p}) h'"
| take: "own_reach (add_mset w W) A R h \<Longrightarrow> op_take w = (p, w') \<Longrightarrow> own_reach (add_mset w' W) A (if p = 0 then R else insert p R) h"
| swap: "own_reach (add_mset w (add_mset x W)) A R h \<Longrightarrow> op_swap w x = (w', x') \<Longrightarrow> own_reach (add_mset w' (add_mset x' W)) A R h"
| destroy: "own_reach (add_mset w W) A R h \<Longrightarrow> op_destroy w h = Some h' \<Longrightarrow> own_reach W A R h'"
| make_array: "own_reach W A R h \<Longrightarrow> p \<in> R \<Longrightarrow> h p = Some (Array vs) \<Longrightarrow> own_reach W (add_mset (OwningArrayPtr p) A) (R - {p}) h"
| make_array_null: "own_reach W A R h \<Longrightarrow> own_reach W (add_mset (OwningArrayPtr 0) A) R h"
| reset_array: "own_reach W (add_mset a A) R h \<Longrightarrow> p = 0 \<or> p = oa_get a \<or> p \<in> R \<and> h p = Some (Array vs) \<Longrightarrow> oa_reset p (a, h) = Some (a', h') \<Longrightarrow>
    own_reach W (add_mset a' A) (R - {p}) h'"
| take_array: "own_reach W (add_mset a A) R h \<Longrightarrow> oa_take a = (p, a') \<Longrightarrow> own_reach W (add_mset a' A) (if p = 0 then R else insert p R) h"
| swap_array: "own_reach W (add_mset a (add_mset b A)) R h \<Longrightarrow> oa_swap a b = (a', b') \<Longrightarrow> own_reach W (add_mset a' (add_mset b' A)) R h"
| destroy_array: "own_reach W (add_mset a A) R h \<Longrightarrow> oa_destroy a h = Some h' \<Longrightarrow> own_reach W A R h'"

section \<open>Every object has one owner\<close>

definition owned :: "owning multiset \<Rightarrow> u64 multiset" where
  "owned W = filter_mset (\<lambda>p. p \<noteq> 0) (image_mset op_get W)"

definition owned_arrays :: "owning_array multiset \<Rightarrow> u64 multiset" where
  "owned_arrays A = filter_mset (\<lambda>p. p \<noteq> 0) (image_mset oa_get A)"

definition own_inv :: "owning multiset \<Rightarrow> owning_array multiset \<Rightarrow> u64 set \<Rightarrow> 'a store \<Rightarrow> bool" where
  "own_inv W A R h \<longleftrightarrow> finite (dom h) \<and> finite R \<and> 0 \<notin> dom h \<and> owned W + owned_arrays A + mset_set R = mset_set (dom h) \<and>
     (\<forall>p\<in>#owned W. \<exists>v. h p = Some (Object v)) \<and> (\<forall>p\<in>#owned_arrays A. \<exists>vs. h p = Some (Array vs))"

lemma owned_simps [simp]:
  "owned {#} = {#}" "owned (add_mset w W) = (if op_get w = 0 then owned W else add_mset (op_get w) (owned W))"
  "owned_arrays {#} = {#}" "owned_arrays (add_mset a A) = (if oa_get a = 0 then owned_arrays A else add_mset (oa_get a) (owned_arrays A))"
  by (simp_all add: owned_def owned_arrays_def)

lemma op_get_simps [simp]: "op_get (OwningPtr p) = p" "op_get (w\<lparr>own_ptr := p\<rparr>) = p" "own_ptr w = op_get w"
  by (simp_all add: op_get_def OwningPtr_def)

lemma oa_get_simps [simp]: "oa_get (OwningArrayPtr p) = p" "oa_get (a\<lparr>arr_ptr := p\<rparr>) = p" "arr_ptr a = oa_get a"
  by (simp_all add: oa_get_def OwningArrayPtr_def)

lemma own_inv_in:
  assumes "own_inv W A R h"
  shows "p \<in># owned W + owned_arrays A + mset_set R \<longleftrightarrow> p \<in> dom h" "count (owned W + owned_arrays A + mset_set R) p \<le> 1"
  using assms by (simp_all only: own_inv_def) (auto simp: count_mset_set')

lemma own_inv_plain:
  assumes "own_inv W A R h" shows "finite R" "0 \<notin> R" "R \<subseteq> dom h"
proof -
  show f: "finite R" using assms by (simp add: own_inv_def)
  show d: "R \<subseteq> dom h" using own_inv_in(1) [OF assms] f by auto
  show "0 \<notin> R" using assms d unfolding own_inv_def by blast
qed

text \<open>Adding and removing one address.\<close>

lemma mset_set_put: "finite (dom h) \<Longrightarrow> h p = None \<Longrightarrow> mset_set (dom (h(p \<mapsto> b))) = add_mset p (mset_set (dom h))"
  by (simp add: domIff)

lemma mset_set_drop: "finite (dom h) \<Longrightarrow> p \<in> dom h \<Longrightarrow> mset_set (dom h) = add_mset p (mset_set (dom (h(p := None))))"
  by (simp add: mset_set.remove)

lemma mset_set_out: "finite R \<Longrightarrow> p \<in> R \<Longrightarrow> mset_set R = add_mset p (mset_set (R - {p}))"
  by (rule mset_set.remove)

lemma mset_set_in: "finite R \<Longrightarrow> p \<notin> R \<Longrightarrow> mset_set (insert p R) = add_mset p (mset_set R)"
  by simp

lemma own_inv_null [simp]:
  "op_get w = 0 \<Longrightarrow> own_inv (add_mset w W) A R h = own_inv W A R h"
  "oa_get a = 0 \<Longrightarrow> own_inv W (add_mset a A) R h = own_inv W A R h"
  by (simp_all add: own_inv_def)

lemma own_inv_one:
  assumes "own_inv W A R h" "owned W + owned_arrays A + mset_set R = add_mset p M"
  shows "p \<notin># M" "p \<in> dom h" "p \<noteq> 0"
proof -
  have "count (add_mset p M) p \<le> 1" using own_inv_in(2) [OF assms(1), of p] unfolding assms(2) .
  then show "p \<notin># M" by (simp add: not_in_iff)
  show "p \<in> dom h" using own_inv_in(1) [OF assms(1), of p] unfolding assms(2) by simp
  with assms(1) show "p \<noteq> 0" unfolding own_inv_def by metis
qed

lemma own_inv_drop:
  assumes "own_inv W A R h" "owned W + owned_arrays A + mset_set R = add_mset p (owned W' + owned_arrays A' + mset_set R)"
    "set_mset (owned W') \<subseteq> set_mset (owned W)" "set_mset (owned_arrays A') \<subseteq> set_mset (owned_arrays A)"
  shows "own_inv W' A' R (h(p := None))"
proof -
  note O = own_inv_one [OF assms(1,2)]
  from assms(1) have f: "finite (dom h)" "finite R" "0 \<notin> dom h" "mset_set (dom h) = owned W + owned_arrays A + mset_set R"
    "\<forall>p\<in>#owned W. \<exists>v. h p = Some (Object v)" "\<forall>p\<in>#owned_arrays A. \<exists>vs. h p = Some (Array vs)" unfolding own_inv_def by auto
  have "owned W' + owned_arrays A' + mset_set R = mset_set (dom (h(p := None)))"
    using f(4) mset_set_drop [OF f(1) O(2)] assms(2) by simp
  moreover have "p \<notin># owned W'" "p \<notin># owned_arrays A'" using O(1) by auto
  ultimately show ?thesis unfolding own_inv_def using f assms(3,4) by auto
qed

lemma own_inv_move:
  assumes "own_inv W A R h" "owned W' + owned_arrays A' + mset_set R' = owned W + owned_arrays A + mset_set R" "finite R'"
    "\<forall>p\<in>#owned W'. p \<in># owned W \<or> (\<exists>v. h p = Some (Object v))" "\<forall>p\<in>#owned_arrays A'. p \<in># owned_arrays A \<or> (\<exists>vs. h p = Some (Array vs))"
  shows "own_inv W' A' R' h"
  using assms unfolding own_inv_def by metis

lemma own_inv_new:
  assumes "own_inv W A R h" "p \<noteq> 0" "h p = None"
  shows "own_inv W A (insert p R) (h(p \<mapsto> b))"
proof -
  have n: "p \<notin># owned W + owned_arrays A + mset_set R" using own_inv_in(1) [OF assms(1), of p] assms(3) by auto
  from assms(1) have f: "finite (dom h)" "finite R" "0 \<notin> dom h" "owned W + owned_arrays A + mset_set R = mset_set (dom h)"
    "\<forall>p\<in>#owned W. \<exists>v. h p = Some (Object v)" "\<forall>p\<in>#owned_arrays A. \<exists>vs. h p = Some (Array vs)" unfolding own_inv_def by auto
  have "p \<notin> R" using n f(2) by auto
  then have "owned W + owned_arrays A + mset_set (insert p R) = mset_set (dom (h(p \<mapsto> b)))"
    using f(4) unfolding mset_set_in [OF f(2) \<open>p \<notin> R\<close>] mset_set_put [where h = h, OF f(1) assms(3)] by simp
  then show ?thesis unfolding own_inv_def using f assms(2,3) by auto
qed

text \<open>An owner dies with its object, gives it up, or gets one.\<close>

lemma own_delete: "own_inv (add_mset w W) A R h \<Longrightarrow> op_get w \<noteq> 0 \<Longrightarrow> own_inv W A R (h(op_get w := None))"
  by (rule own_inv_drop) auto

lemma own_delete_array: "own_inv W (add_mset a A) R h \<Longrightarrow> oa_get a \<noteq> 0 \<Longrightarrow> own_inv W A R (h(oa_get a := None))"
  by (rule own_inv_drop) auto

lemma own_release: "own_inv (add_mset w W) A R h \<Longrightarrow> op_get w \<noteq> 0 \<Longrightarrow> own_inv W A (insert (op_get w) R) h"
proof -
  assume a: "own_inv (add_mset w W) A R h" "op_get w \<noteq> 0"
  have f: "finite R" using a(1) by (simp add: own_inv_def)
  from own_inv_one(1) [OF a(1), of "op_get w" "owned W + owned_arrays A + mset_set R"] a(2) f have "op_get w \<notin> R" by auto
  with a f show ?thesis by (elim own_inv_move) auto
qed

lemma own_release_array: "own_inv W (add_mset a A) R h \<Longrightarrow> oa_get a \<noteq> 0 \<Longrightarrow> own_inv W A (insert (oa_get a) R) h"
proof -
  assume a: "own_inv W (add_mset a A) R h" "oa_get a \<noteq> 0"
  have f: "finite R" using a(1) by (simp add: own_inv_def)
  from own_inv_one(1) [OF a(1), of "oa_get a" "owned W + owned_arrays A + mset_set R"] a(2) f have "oa_get a \<notin> R" by auto
  with a f show ?thesis by (elim own_inv_move) auto
qed

lemma own_acquire: "own_inv W A R h \<Longrightarrow> op_get w \<in> R \<Longrightarrow> h (op_get w) = Some (Object v) \<Longrightarrow> own_inv (add_mset w W) A (R - {op_get w}) h"
proof -
  assume a: "own_inv W A R h" "op_get w \<in> R" "h (op_get w) = Some (Object v)"
  have f: "finite R" using a(1) by (simp add: own_inv_def)
  have "op_get w \<noteq> 0" using a(1,3) unfolding own_inv_def by (metis domI)
  with a f show ?thesis by (elim own_inv_move) (auto simp: mset_set_out)
qed

lemma own_acquire_array: "own_inv W A R h \<Longrightarrow> oa_get a \<in> R \<Longrightarrow> h (oa_get a) = Some (Array vs) \<Longrightarrow> own_inv W (add_mset a A) (R - {oa_get a}) h"
proof -
  assume a: "own_inv W A R h" "oa_get a \<in> R" "h (oa_get a) = Some (Array vs)"
  have f: "finite R" using a(1) by (simp add: own_inv_def)
  have "oa_get a \<noteq> 0" using a(1,3) unfolding own_inv_def by (metis domI)
  with a f show ?thesis by (elim own_inv_move) (auto simp: mset_set_out)
qed

text \<open>Deleting what an owner holds.\<close>

lemma op_destroy_ok:
  assumes "own_inv (add_mset w W) A R h"
  shows "\<exists>h'. op_destroy w h = Some h' \<and> own_inv W A R h' \<and> (\<forall>q\<in>R. h' q = h q)"
proof (cases "op_get w = 0")
  case True
  with assms show ?thesis by (simp add: op_destroy_def delete_object_def)
next
  case False
  with assms obtain v where v: "h (op_get w) = Some (Object v)" by (auto simp: own_inv_def)
  have "finite R" using assms by (simp add: own_inv_def)
  with own_inv_one(1) [OF assms, of "op_get w" "owned W + owned_arrays A + mset_set R"] False have "op_get w \<notin> R" by auto
  with False v own_delete [OF assms False] show ?thesis by (auto simp: op_destroy_def delete_object_def)
qed

lemma oa_destroy_ok:
  assumes "own_inv W (add_mset a A) R h"
  shows "\<exists>h'. oa_destroy a h = Some h' \<and> own_inv W A R h' \<and> (\<forall>q\<in>R. h' q = h q)"
proof (cases "oa_get a = 0")
  case True
  with assms show ?thesis by (simp add: oa_destroy_def delete_array_def)
next
  case False
  with assms obtain vs where v: "h (oa_get a) = Some (Array vs)" by (auto simp: own_inv_def)
  have "finite R" using assms by (simp add: own_inv_def)
  with own_inv_one(1) [OF assms, of "oa_get a" "owned W + owned_arrays A + mset_set R"] False have "oa_get a \<notin> R" by auto
  with False v own_delete_array [OF assms False] show ?thesis by (auto simp: oa_destroy_def delete_array_def)
qed

lemma op_reset_ok:
  assumes "own_inv (add_mset w W) A R h" "p = 0 \<or> p = op_get w \<or> p \<in> R \<and> h p = Some (Object v)"
  shows "\<exists>w' h'. op_reset p (w, h) = Some (w', h') \<and> own_inv (add_mset w' W) A (R - {p}) h' \<and> op_get w' = p"
proof -
  note f = own_inv_plain(1,2) [OF assms(1)]
  from op_destroy_ok [OF assms(1)] obtain h' where h: "delete_object (op_get w) h = Some h'" "own_inv W A R h'" "\<forall>q\<in>R. h' q = h q"
    by (auto simp: op_destroy_def)
  show ?thesis
  proof (cases "p = op_get w")
    case True
    have "op_get w \<notin> R"
    proof (cases "op_get w = 0")
      case False
      with own_inv_one(1) [OF assms(1), of "op_get w" "owned W + owned_arrays A + mset_set R"] f show ?thesis by auto
    qed (use f in simp)
    with True assms(1) show ?thesis by (simp add: op_reset_def)
  next
    case False
    define w' where "w' = w\<lparr>own_ptr := p\<rparr>"
    have w: "op_get w' = p" by (simp add: w'_def)
    have "op_reset p (w, h) = Some (w', h')" using False h(1) by (simp add: op_reset_def Let_def w'_def)
    moreover have "own_inv (add_mset w' W) A (R - {p}) h'"
    proof (cases "p = 0")
      case True with h(2) f(2) w show ?thesis by simp
    next
      case nz: False
      with assms(2) False have "p \<in> R" "h p = Some (Object v)" by auto
      with h(3) have "p \<in> R" "h' p = Some (Object v)" by auto
      with own_acquire [OF h(2), of w'] w show ?thesis by simp
    qed
    ultimately show ?thesis using w by blast
  qed
qed

lemma oa_reset_ok:
  assumes "own_inv W (add_mset a A) R h" "p = 0 \<or> p = oa_get a \<or> p \<in> R \<and> h p = Some (Array vs)"
  shows "\<exists>a' h'. oa_reset p (a, h) = Some (a', h') \<and> own_inv W (add_mset a' A) (R - {p}) h' \<and> oa_get a' = p"
proof -
  note f = own_inv_plain(1,2) [OF assms(1)]
  from oa_destroy_ok [OF assms(1)] obtain h' where h: "delete_array (oa_get a) h = Some h'" "own_inv W A R h'" "\<forall>q\<in>R. h' q = h q"
    by (auto simp: oa_destroy_def)
  show ?thesis
  proof (cases "p = oa_get a")
    case True
    have "oa_get a \<notin> R"
    proof (cases "oa_get a = 0")
      case False
      with own_inv_one(1) [OF assms(1), of "oa_get a" "owned W + owned_arrays A + mset_set R"] f show ?thesis by auto
    qed (use f in simp)
    with True assms(1) show ?thesis by (simp add: oa_reset_def)
  next
    case False
    define a' where "a' = a\<lparr>arr_ptr := p\<rparr>"
    have w: "oa_get a' = p" by (simp add: a'_def)
    have "oa_reset p (a, h) = Some (a', h')" using False h(1) by (simp add: oa_reset_def Let_def a'_def)
    moreover have "own_inv W (add_mset a' A) (R - {p}) h'"
    proof (cases "p = 0")
      case True with h(2) f(2) w show ?thesis by simp
    next
      case nz: False
      with assms(2) False have "p \<in> R" "h p = Some (Array vs)" by auto
      with h(3) have "p \<in> R" "h' p = Some (Array vs)" by auto
      with own_acquire_array [OF h(2), of a'] w show ?thesis by simp
    qed
    ultimately show ?thesis using w by blast
  qed
qed

section \<open>Properties\<close>

lemma own_reach_inv: "own_reach W A R h \<Longrightarrow> own_inv W A R h"
proof (induction rule: own_reach.induct)
  case start
  then show ?case by (simp add: own_inv_def)
next
  case (make W A R h p v)
  then show ?case using own_acquire [of W A R h "OwningPtr p"] by simp
next
  case (reset w W A R h p v w' h')
  then show ?case using op_reset_ok [OF reset.IH reset.hyps(2)] by auto
next
  case (take w W A R h p w')
  then have w: "p = op_get w" "op_get w' = 0" by (auto simp: op_take_def Let_def)
  with take.IH own_release [OF take.IH] show ?case by (cases "op_get w = 0") auto
next
  case (swap w x W A R h w' x')
  then have w: "op_get w' = op_get x" "op_get x' = op_get w" by (auto simp: op_swap_def Let_def)
  from swap.IH show ?case by (elim own_inv_move) (auto simp: w own_inv_plain(1) [OF swap.IH])
next
  case (destroy w W A R h h')
  then show ?case using op_destroy_ok [OF destroy.IH] by auto
next
  case (make_array W A R h p vs)
  then show ?case using own_acquire_array [of W A R h "OwningArrayPtr p"] by simp
next
  case (reset_array W a A R h p vs a' h')
  then show ?case using oa_reset_ok [OF reset_array.IH reset_array.hyps(2)] by auto
next
  case (take_array W a A R h p a')
  then have w: "p = oa_get a" "oa_get a' = 0" by (auto simp: oa_take_def Let_def)
  with take_array.IH own_release_array [OF take_array.IH] show ?case by (cases "oa_get a = 0") auto
next
  case (swap_array W a b A R h a' b')
  then have w: "oa_get a' = oa_get b" "oa_get b' = oa_get a" by (auto simp: oa_swap_def Let_def)
  from swap_array.IH show ?case by (elim own_inv_move) (auto simp: w own_inv_plain(1) [OF swap_array.IH])
next
  case (destroy_array W a A R h h')
  then show ?case using oa_destroy_ok [OF destroy_array.IH] by auto
qed (use own_inv_new in \<open>(blast | simp)+\<close>)

text \<open>C20: In every program that gives each object to one owner, the objects that exist are exactly those held by the owners and by the plain pointers, each once;
  so no destructor and no \<^verbatim>\<open>reset\<close> deletes an object twice or deletes an array as an object, and every owner that is not empty can be dereferenced.\<close>

theorem owning_ptr_exclusive:
  assumes "own_reach W A R h"
  shows "filter_mset (\<lambda>p. p \<noteq> 0) (image_mset op_get W) + filter_mset (\<lambda>p. p \<noteq> 0) (image_mset oa_get A) + mset_set R = mset_set (dom h) \<and>
    (\<forall>w\<in>#W. op_destroy w h \<noteq> None \<and> op_reset 0 (w, h) \<noteq> None \<and> (op_bool w \<longrightarrow> op_deref w h \<noteq> None)) \<and>
    (\<forall>w\<in>#W. \<forall>p\<in>R. \<forall>v. h p = Some (Object v) \<longrightarrow> op_reset p (w, h) \<noteq> None) \<and>
    (\<forall>a\<in>#A. oa_destroy a h \<noteq> None \<and> oa_reset 0 (a, h) \<noteq> None \<and>
      (\<forall>p\<in>R. \<forall>vs. h p = Some (Array vs) \<longrightarrow> oa_reset p (a, h) \<noteq> None))"
proof -
  note I = own_reach_inv [OF assms]
  have w: "op_destroy w h \<noteq> None" "op_bool w \<longrightarrow> op_deref w h \<noteq> None"
    "p = 0 \<or> p = op_get w \<or> p \<in> R \<and> h p = Some (Object v) \<Longrightarrow> op_reset p (w, h) \<noteq> None" if W: "w \<in># W" for w p v
  proof -
    from W obtain W0 where "W = add_mset w W0" by (metis mset_add)
    with I have J: "own_inv (add_mset w W0) A R h" by simp
    show "op_destroy w h \<noteq> None" using op_destroy_ok [OF J] by auto
    show "p = 0 \<or> p = op_get w \<or> p \<in> R \<and> h p = Some (Object v) \<Longrightarrow> op_reset p (w, h) \<noteq> None" using op_reset_ok [OF J] by blast
    show "op_bool w \<longrightarrow> op_deref w h \<noteq> None" using J by (auto simp: op_bool_def op_deref_def own_inv_def)
  qed
  have a: "oa_destroy a h \<noteq> None" "p = 0 \<or> p = oa_get a \<or> p \<in> R \<and> h p = Some (Array vs) \<Longrightarrow> oa_reset p (a, h) \<noteq> None" if "a \<in># A" for a p vs
  proof -
    from that obtain A0 where "A = add_mset a A0" by (metis mset_add)
    with I have J: "own_inv W (add_mset a A0) R h" by simp
    show "oa_destroy a h \<noteq> None" using oa_destroy_ok [OF J] by auto
    show "p = 0 \<or> p = oa_get a \<or> p \<in> R \<and> h p = Some (Array vs) \<Longrightarrow> oa_reset p (a, h) \<noteq> None" using oa_reset_ok [OF J] by blast
  qed
  have "owned W + owned_arrays A + mset_set R = mset_set (dom h)" using I by (simp add: own_inv_def)
  with w a show ?thesis unfolding owned_def owned_arrays_def by blast
qed

text \<open>The example: an object and an array, each with its owner, and an object that an owner has given up.\<close>

theorem owning_ptr_exclusive_witness:
  "\<exists>w h. own_reach {#w, OwningPtr 8#} {#OwningArrayPtr 16#} {24} h \<and> op_deref (OwningPtr 8) h \<noteq> (None :: int option) \<and> op_get w = 0"
proof -
  define h where "h = (\<lambda>_. None)(8 :: u64 \<mapsto> Object (1 :: int), 16 \<mapsto> Array [2, 3], 24 \<mapsto> Object 4)"
  have "own_reach {#} {#} {24, 16, 8} h" unfolding h_def
    by (intro own_reach.new_object own_reach.new_array own_reach.start) simp_all
  from own_reach.make [OF this, of 8 1] have "own_reach {#OwningPtr 8#} {#} {24, 16} h" by (simp add: h_def insert_Diff_if)
  from own_reach.make_array [OF this, of 16 "[2, 3]"] have "own_reach {#OwningPtr 8#} {#OwningArrayPtr 16#} {24} h" by (simp add: h_def insert_Diff_if)
  from own_reach.make [OF this, of 24 4] have "own_reach {#OwningPtr 24, OwningPtr 8#} {#OwningArrayPtr 16#} {} h" by (simp add: h_def)
  from own_reach.take [OF this, of 24 "OwningPtr 0"] have r: "own_reach {#OwningPtr 0, OwningPtr 8#} {#OwningArrayPtr 16#} {24} h"
    by (simp add: op_take_def)
  from owning_ptr_exclusive [OF r] have "op_deref (OwningPtr 8) h \<noteq> None" by (simp add: op_bool_def)
  with r show ?thesis by (intro exI [of _ "OwningPtr 0"] exI [of _ h]) simp
qed

end
