(* ===== verification/TicTacToe.thy ===== *)
theory TicTacToe
  imports Moves Player Multi_Array
begin

text \<open>
  The game of old/tictactoe.hpp and the constants of old/tictactoe.cpp. The template parameters \<^verbatim>\<open>NumRows\<close> and \<^verbatim>\<open>NumCols\<close> are the extents of the board;
  the array of moves has room for \<^verbatim>\<open>NumCols\<close> of them.
\<close>

section \<open>Locations and moves\<close>

text \<open>The two bytes of a location are read and compared together as \<^verbatim>\<open>v\<close>.\<close>

record ttt_location =
  tl_c :: int
  tl_r :: int

definition ttt_invalid :: int where
  "ttt_invalid = -3"

definition ttt_Location :: "index_t \<Rightarrow> index_t \<Rightarrow> ttt_location" where
  "ttt_Location c r = \<lparr>tl_c = to_int8 c, tl_r = to_int8 r\<rparr>"

definition ttt_location_invalid :: ttt_location where
  "ttt_location_invalid = \<lparr>tl_c = ttt_invalid, tl_r = ttt_invalid\<rparr>"

definition ttt_location_minus :: "ttt_location \<Rightarrow> ttt_location \<Rightarrow> ttt_location" where
  "ttt_location_minus l rhs = ttt_Location (tl_c l - tl_c rhs) (tl_r l - tl_r rhs)"

record ttt_move =
  tm_loc :: ttt_location

definition ttt_Move :: "ttt_location \<Rightarrow> ttt_move" where
  "ttt_Move f = \<lparr>tm_loc = f\<rparr>"

definition ttt_move_none :: ttt_move where "ttt_move_none = ttt_Move (ttt_Location (-1) (-1))"
definition ttt_move_root :: ttt_move where "ttt_move_root = ttt_Move (ttt_Location (-2) (-2))"
definition ttt_move_invalid :: ttt_move where "ttt_move_invalid = ttt_Move (ttt_Location (-3) (-3))"

section \<open>The game\<close>

record ttt_state =
  tt_board :: "player matrix"
  tt_player_just_moved :: player
  tt_winner :: player
  tt_move :: ttt_move
  tt_no_moves :: index_t

text \<open>The members as they are initialised; \<open>p\<close> is the player that \<^verbatim>\<open>Player::random\<close> returns.\<close>

definition ttt_new :: "int \<Rightarrow> int \<Rightarrow> player \<Rightarrow> ttt_state" where
  "ttt_new R C p =
    \<lparr>tt_board = matrix_new R C 0 0 Vacant, tt_player_just_moved = p, tt_winner = Vacant, tt_move = ttt_move_invalid, tt_no_moves = 0\<rparr>"

definition ttt_playerJustMoved :: "ttt_state \<Rightarrow> player" where
  "ttt_playerJustMoved s = tt_player_just_moved s"

definition ttt_playerToMove :: "ttt_state \<Rightarrow> player" where
  "ttt_playerToMove s = opponent (tt_player_just_moved s)"

text \<open>The counting loops of \<^verbatim>\<open>winner\<close>.\<close>

partial_function (option) ttt_count ::
  "(index_t \<Rightarrow> index_t \<Rightarrow> bool) \<Rightarrow> index_t \<Rightarrow> index_t \<Rightarrow> player matrix \<Rightarrow> player \<Rightarrow> index_t \<Rightarrow> index_t \<Rightarrow> index_t \<Rightarrow> index_t option"
where
  "ttt_count cond dr dc b piece row col n =
    (if cond row col then
       (case matrix_at b row col of
          None \<Rightarrow> None
        | Some p \<Rightarrow> if p = piece then ttt_count cond dr dc b piece (row + dr) (col + dc) (n + 1) else Some n)
     else Some n)"

declare ttt_count.simps [code]

definition ttt_horizontal :: "player matrix \<Rightarrow> player \<Rightarrow> index_t \<Rightarrow> index_t \<Rightarrow> index_t option" where
  "ttt_horizontal b piece r c = do {
     n \<leftarrow> ttt_count (\<lambda>row col. col \<ge> 0) 0 (-1) b piece r (c - 1) 1;
     ttt_count (\<lambda>row col. col < m_J b) 0 1 b piece r (c + 1) n }"

definition ttt_vertical :: "player matrix \<Rightarrow> player \<Rightarrow> index_t \<Rightarrow> index_t \<Rightarrow> index_t option" where
  "ttt_vertical b piece r c = do {
     n \<leftarrow> ttt_count (\<lambda>row col. row \<ge> 0) (-1) 0 b piece (r - 1) c 1;
     ttt_count (\<lambda>row col. row < m_I b) 1 0 b piece (r + 1) c n }"

definition ttt_nw_se :: "player matrix \<Rightarrow> player \<Rightarrow> index_t \<Rightarrow> index_t \<Rightarrow> index_t option" where
  "ttt_nw_se b piece r c = do {
     n \<leftarrow> ttt_count (\<lambda>row col. row \<ge> 0 \<and> col \<ge> 0) (-1) (-1) b piece (r - 1) (c - 1) 1;
     ttt_count (\<lambda>row col. row < m_I b \<and> col < m_J b) 1 1 b piece (r + 1) (c + 1) n }"

definition ttt_sw_ne :: "player matrix \<Rightarrow> player \<Rightarrow> index_t \<Rightarrow> index_t \<Rightarrow> index_t option" where
  "ttt_sw_ne b piece r c = do {
     n \<leftarrow> ttt_count (\<lambda>row col. row < m_I b \<and> col \<ge> 0) 1 (-1) b piece (r + 1) (c - 1) 1;
     ttt_count (\<lambda>row col. row \<ge> 0 \<and> col < m_J b) (-1) 1 b piece (r - 1) (c + 1) n }"

definition ttt_winner :: "ttt_state \<Rightarrow> ttt_state option" where
  "ttt_winner s = do {
     let b = tt_board s;
     let r = tl_r (tm_loc (tt_move s));
     let c = tl_c (tm_loc (tt_move s));
     piece \<leftarrow> matrix_at b r c;
     left_right \<leftarrow> ttt_horizontal b piece r c;
     if left_right = 3 then Some (s\<lparr>tt_winner := piece\<rparr>)
     else do {
       up_down \<leftarrow> ttt_vertical b piece r c;
       if up_down = 3 then Some (s\<lparr>tt_winner := piece\<rparr>)
       else do {
         up_down \<leftarrow> ttt_nw_se b piece r c;
         if up_down = 3 then Some (s\<lparr>tt_winner := piece\<rparr>)
         else do {
           up_down \<leftarrow> ttt_sw_ne b piece r c;
           if up_down = 3 then Some (s\<lparr>tt_winner := piece\<rparr>) else Some s } } } }"

definition ttt_do_move :: "ttt_move \<Rightarrow> ttt_state \<Rightarrow> ttt_state option" where
  "ttt_do_move m s = do {
     let s = s\<lparr>tt_move := m\<rparr>;
     let s = s\<lparr>tt_player_just_moved := opponent (tt_player_just_moved s)\<rparr>;
     b \<leftarrow> matrix_put (tt_board s) (tl_r (tm_loc (tt_move s))) (tl_c (tm_loc (tt_move s))) (tt_player_just_moved s);
     let s = s\<lparr>tt_board := b\<rparr>;
     Some (s\<lparr>tt_no_moves := tt_no_moves s + 1\<rparr>) }"

definition ttt_move_winner :: "ttt_move \<Rightarrow> ttt_state \<Rightarrow> ttt_state option" where
  "ttt_move_winner m s = do { s \<leftarrow> ttt_do_move m s; ttt_winner s }"

text \<open>The two loops of \<^verbatim>\<open>moves\<close>: the columns, and in each the rows.\<close>

fun ttt_rows_loop :: "player matrix \<Rightarrow> index_t \<Rightarrow> index_t list \<Rightarrow> ttt_move moves \<Rightarrow> ttt_move moves option" where
  "ttt_rows_loop b col [] m = Some m"
| "ttt_rows_loop b col (row # rows) m = do {
     p \<leftarrow> matrix_at b row col;
     m \<leftarrow> (if p = Vacant then push_back m (ttt_Move (ttt_Location row col)) else Some m);
     ttt_rows_loop b col rows m }"

fun ttt_cols_loop :: "player matrix \<Rightarrow> index_t list \<Rightarrow> ttt_move moves \<Rightarrow> ttt_move moves option" where
  "ttt_cols_loop b [] m = Some m"
| "ttt_cols_loop b (col # cols) m = do {
     m \<leftarrow> ttt_rows_loop b col [0..m_I b - 1] m;
     ttt_cols_loop b cols m }"

definition ttt_moves :: "ttt_state \<Rightarrow> ttt_move moves \<Rightarrow> (bool \<times> ttt_move moves) option" where
  "ttt_moves s m =
    (if to_size_t (tt_no_moves s) = m_I (tt_board s) * m_J (tt_board s) \<or> occupied (tt_winner s) then Some (False, m)
     else do {
       m \<leftarrow> ttt_cols_loop (tt_board s) [0..m_J (tt_board s) - 1] (clear m);
       Some (True, m) })"

partial_function (option) ttt_simulate_loop :: "uniform_int \<Rightarrow> ttt_state \<Rightarrow> ttt_move moves \<Rightarrow> splitmix \<Rightarrow> (ttt_state \<times> splitmix) option" where
  "ttt_simulate_loop unif s m g = do {
     (b, m) \<leftarrow> ttt_moves s m;
     if b then do {
       (mv, g) \<leftarrow> moves_random unif m g;
       s \<leftarrow> ttt_move_winner mv s;
       ttt_simulate_loop unif s m g }
     else Some (s, g) }"

declare ttt_simulate_loop.simps [code]

definition ttt_simulate :: "uniform_int \<Rightarrow> ttt_state \<Rightarrow> splitmix \<Rightarrow> (ttt_state \<times> splitmix) option" where
  "ttt_simulate unif s g = ttt_simulate_loop unif s (moves_new (nat (m_J (tt_board s))) ttt_move_invalid) g"

text \<open>The results 1, 1/2 and 0, doubled.\<close>

definition ttt_result2 :: "player \<Rightarrow> ttt_state \<Rightarrow> int" where
  "ttt_result2 p s = (if tt_winner s = Vacant then 1 else if tt_winner s = p then 2 else 0)"

definition ttt_ended :: "ttt_state \<Rightarrow> player option" where
  "ttt_ended s =
    (if tt_winner s = Vacant \<and> to_size_t (tt_no_moves s) < m_I (tt_board s) * m_J (tt_board s) then None else Some (tt_winner s))"

end
