(* ===== verification/TicTacToe_Rules.thy ===== *)
theory TicTacToe_Rules
  imports TicTacToe
begin

text \<open>
  Tic-tac-toe on the board of three by three, the default of the template: what \<^verbatim>\<open>winner\<close> finds, what \<^verbatim>\<open>moves\<close> offers and where a move goes.
\<close>

section \<open>Boards\<close>

definition ttt_board_ok :: "player matrix \<Rightarrow> bool" where
  "ttt_board_ok b \<longleftrightarrow> m_I b = 3 \<and> m_J b = 3 \<and> m_BaseI b = 0 \<and> m_BaseJ b = 0 \<and> length (m_data b) = 9"

definition cell :: "player matrix \<Rightarrow> int \<Rightarrow> int \<Rightarrow> player" where
  "cell b i j = m_data b ! nat (j + i * 3)"

lemma ttt_at:
  assumes "ttt_board_ok b" "0 \<le> i" "i < 3" "0 \<le> j" "j < 3"
  shows "matrix_at b i j = Some (cell b i j)"
  using assms by (simp add: ttt_board_ok_def matrix_at_def matrix_in_def matrix_idx_def aref_def cell_def)

lemma ttt_cases:
  assumes "0 \<le> (i :: int)" "i < 3"
  shows "i = 0 \<or> i = 1 \<or> i = 2"
  using assms by auto

text \<open>Three in a row through a cell, as the rules say it.\<close>

definition ttt_line :: "player matrix \<Rightarrow> int \<Rightarrow> int \<Rightarrow> bool" where
  "ttt_line b r c \<longleftrightarrow> (let p = cell b r c in
     (\<forall>j\<in>{0, 1, 2}. cell b r j = p) \<or> (\<forall>i\<in>{0, 1, 2}. cell b i c = p) \<or>
     r = c \<and> (\<forall>k\<in>{0, 1, 2}. cell b k k = p) \<or> r + c = 2 \<and> (\<forall>k\<in>{0, 1, 2}. cell b k (2 - k) = p))"

lemma ttt_count_step:
  "\<not> cond row col \<Longrightarrow> ttt_count cond dr dc b piece row col n = Some n"
  "cond row col \<Longrightarrow> ttt_board_ok b \<Longrightarrow> 0 \<le> row \<Longrightarrow> row < 3 \<Longrightarrow> 0 \<le> col \<Longrightarrow> col < 3 \<Longrightarrow>
    ttt_count cond dr dc b piece row col n =
      (if cell b row col = piece then ttt_count cond dr dc b piece (row + dr) (col + dc) (n + 1) else Some n)"
  by (subst ttt_count.simps, simp add: ttt_at)+

lemma ttt_horizontal_eq:
  assumes "ttt_board_ok b" "0 \<le> r" "r < 3" "0 \<le> c" "c < 3"
  shows "\<exists>n. ttt_horizontal b (cell b r c) r c = Some n \<and> (n = 3 \<longleftrightarrow> (\<forall>j\<in>{0, 1, 2}. cell b r j = cell b r c))"
  using assms ttt_cases [OF assms(4,5)] by (elim disjE) (auto simp: ttt_horizontal_def ttt_count_step ttt_board_ok_def)

lemma ttt_vertical_eq:
  assumes "ttt_board_ok b" "0 \<le> r" "r < 3" "0 \<le> c" "c < 3"
  shows "\<exists>n. ttt_vertical b (cell b r c) r c = Some n \<and> (n = 3 \<longleftrightarrow> (\<forall>i\<in>{0, 1, 2}. cell b i c = cell b r c))"
  using assms ttt_cases [OF assms(2,3)] by (elim disjE) (auto simp: ttt_vertical_def ttt_count_step ttt_board_ok_def)

lemma ttt_nw_se_eq:
  assumes "ttt_board_ok b" "0 \<le> r" "r < 3" "0 \<le> c" "c < 3"
  shows "\<exists>n. ttt_nw_se b (cell b r c) r c = Some n \<and> (n = 3 \<longleftrightarrow> r = c \<and> (\<forall>k\<in>{0, 1, 2}. cell b k k = cell b r c))"
  using assms ttt_cases [OF assms(2,3)] ttt_cases [OF assms(4,5)] by (elim disjE) (auto simp: ttt_nw_se_def ttt_count_step ttt_board_ok_def)

lemma ttt_sw_ne_eq:
  assumes "ttt_board_ok b" "0 \<le> r" "r < 3" "0 \<le> c" "c < 3"
  shows "\<exists>n. ttt_sw_ne b (cell b r c) r c = Some n \<and> (n = 3 \<longleftrightarrow> r + c = 2 \<and> (\<forall>k\<in>{0, 1, 2}. cell b k (2 - k) = cell b r c))"
  using assms ttt_cases [OF assms(2,3)] ttt_cases [OF assms(4,5)] by (elim disjE) (auto simp: ttt_sw_ne_def ttt_count_step ttt_board_ok_def)

text \<open>C38: \<^verbatim>\<open>winner\<close>, called on the last stone, records its colour if and only if three stones of this colour stand in a row through it.\<close>

theorem ttt_winner_exact:
  assumes "ttt_board_ok (tt_board s)" "0 \<le> r" "r < 3" "0 \<le> c" "c < 3" "tm_loc (tt_move s) = \<lparr>tl_c = c, tl_r = r\<rparr>"
  shows "ttt_winner s = Some (if ttt_line (tt_board s) r c then s\<lparr>tt_winner := cell (tt_board s) r c\<rparr> else s)"
proof -
  define b where "b = tt_board s"
  define p where "p = cell b r c"
  note A = assms(1-5) [folded b_def]
  from ttt_horizontal_eq [OF A] obtain h where h: "ttt_horizontal b p r c = Some h" "h = 3 \<longleftrightarrow> (\<forall>j\<in>{0, 1, 2}. cell b r j = p)" unfolding p_def by blast
  from ttt_vertical_eq [OF A] obtain v where v: "ttt_vertical b p r c = Some v" "v = 3 \<longleftrightarrow> (\<forall>i\<in>{0, 1, 2}. cell b i c = p)" unfolding p_def by blast
  from ttt_nw_se_eq [OF A] obtain d where d: "ttt_nw_se b p r c = Some d" "d = 3 \<longleftrightarrow> r = c \<and> (\<forall>k\<in>{0, 1, 2}. cell b k k = p)" unfolding p_def by blast
  from ttt_sw_ne_eq [OF A] obtain e where e: "ttt_sw_ne b p r c = Some e" "e = 3 \<longleftrightarrow> r + c = 2 \<and> (\<forall>k\<in>{0, 1, 2}. cell b k (2 - k) = p)" unfolding p_def by blast
  have l: "ttt_line b r c \<longleftrightarrow> h = 3 \<or> v = 3 \<or> d = 3 \<or> e = 3" unfolding ttt_line_def Let_def p_def [symmetric] h(2) v(2) d(2) e(2) ..
  have at: "matrix_at b r c = Some p" unfolding p_def by (rule ttt_at [OF A])
  show ?thesis unfolding ttt_winner_def b_def [symmetric] p_def [symmetric] l
    by (simp add: assms(6) at h(1) v(1) d(1) e(1) Let_def)
qed

section \<open>Moves\<close>

text \<open>Pushing a list of moves: it succeeds as long as there is room.\<close>

fun push_all :: "'a moves \<Rightarrow> 'a list \<Rightarrow> 'a moves option" where
  "push_all m [] = Some m"
| "push_all m (v # vs) = do { m \<leftarrow> push_back m v; push_all m vs }"

lemma push_all_append: "push_all m (vs @ ws) = do { m \<leftarrow> push_all m vs; push_all m ws }"
proof (induction vs arbitrary: m)
  case (Cons v vs)
  then show ?case by (cases "push_back m v") simp_all
qed simp

lemma push_all_room:
  "moves_wf m \<Longrightarrow> m_size m + int (length vs) \<le> capacity m \<Longrightarrow>
    \<exists>m'. push_all m vs = Some m' \<and> moves_wf m' \<and> contents m' = contents m @ vs"
proof (induction vs arbitrary: m)
  case (Cons v vs)
  from Cons.prems have "m_size m < capacity m" by simp
  from push_back_ok [OF Cons.prems(1) this, of v] obtain m1 where m1: "push_back m v = Some m1" "moves_wf m1" "contents m1 = contents m @ [v]"
    "capacity m1 = capacity m" "m_size m1 = m_size m + 1" by blast
  with Cons.IH [OF m1(2)] Cons.prems show ?case by auto
qed simp

lemma push_all_full:
  "moves_wf m \<Longrightarrow> capacity m < m_size m + int (length vs) \<Longrightarrow> push_all m vs = None"
proof (induction vs arbitrary: m)
  case Nil
  then show ?case by (simp add: moves_wf_def)
next
  case (Cons v vs)
  show ?case
  proof (cases "m_size m < capacity m")
    case False
    with push_back_full [OF Cons.prems(1)] show ?thesis by simp
  next
    case True
    from push_back_ok [OF Cons.prems(1) this, of v] obtain m1 where m1: "push_back m v = Some m1" "moves_wf m1"
      "capacity m1 = capacity m" "m_size m1 = m_size m + 1" by blast
    with Cons.IH [OF m1(2)] Cons.prems show ?thesis by simp
  qed
qed

definition vacant_moves :: "player matrix \<Rightarrow> ttt_move list" where
  "vacant_moves b = concat (map (\<lambda>col. map (\<lambda>row. ttt_Move (ttt_Location row col)) (filter (\<lambda>row. cell b row col = Vacant) [0, 1, 2])) [0, 1, 2])"

lemma ttt_rows_loop_push:
  "ttt_board_ok b \<Longrightarrow> 0 \<le> col \<Longrightarrow> col < 3 \<Longrightarrow> set rows \<subseteq> {0, 1, 2} \<Longrightarrow>
    ttt_rows_loop b col rows m = push_all m (map (\<lambda>row. ttt_Move (ttt_Location row col)) (filter (\<lambda>row. cell b row col = Vacant) rows))"
proof (induction rows arbitrary: m)
  case (Cons row rows)
  have "matrix_at b row col = Some (cell b row col)" using Cons.prems by (intro ttt_at) auto
  with Cons show ?case by (cases "push_back m (ttt_Move (ttt_Location row col))") auto
qed simp

lemma ttt_cols_loop_push:
  "ttt_board_ok b \<Longrightarrow> set cols \<subseteq> {0, 1, 2} \<Longrightarrow> ttt_cols_loop b cols m = push_all m
    (concat (map (\<lambda>col. map (\<lambda>row. ttt_Move (ttt_Location row col)) (filter (\<lambda>row. cell b row col = Vacant) [0, 1, 2])) cols))"
proof (induction cols arbitrary: m)
  case (Cons col cols)
  have u: "[0..m_I b - 1] = [0, 1, 2 :: int]" using Cons.prems(1) by (simp add: ttt_board_ok_def upto_rec1)
  have c: "0 \<le> col" "col < 3" and i: "set cols \<subseteq> {0, 1, 2}" using Cons.prems(2) by auto
  have r: "set [0, 1, 2 :: int] \<subseteq> {0, 1, 2}" by simp
  show ?case by (simp only: ttt_cols_loop.simps u ttt_rows_loop_push [OF Cons.prems(1) c r] list.map concat.simps push_all_append)
    (rule arg_cong [of _ _ "Option.bind _"], rule ext, rule Cons.IH [OF Cons.prems(1) i])
qed simp

lemma ttt_moves_push:
  assumes "ttt_board_ok (tt_board s)" "tt_winner s = Vacant" "0 \<le> tt_no_moves s" "tt_no_moves s < 9"
  shows "ttt_moves s m = map_option (Pair True) (push_all (clear m) (vacant_moves (tt_board s)))"
proof -
  have "[0..m_J (tt_board s) - 1] = [0, 1, 2 :: int]" using assms(1) by (simp add: ttt_board_ok_def upto_rec1)
  then have "ttt_cols_loop (tt_board s) [0..m_J (tt_board s) - 1] (clear m) = push_all (clear m) (vacant_moves (tt_board s))"
    unfolding vacant_moves_def by (simp only:) (rule ttt_cols_loop_push [OF assms(1)], simp)
  moreover have "m_I (tt_board s) * m_J (tt_board s) = 9" using assms(1) by (simp add: ttt_board_ok_def)
  ultimately show ?thesis using assms(2-4)
    by (cases "push_all (clear m) (vacant_moves (tt_board s))") (simp_all add: ttt_moves_def to_size_t_id)
qed

lemma set_vacant_moves:
  "set (vacant_moves b) = {ttt_Move (ttt_Location i j) | i j. i \<in> {0, 1, 2} \<and> j \<in> {0, 1, 2} \<and> cell b i j = Vacant}"
proof -
  have "set (concat (map (\<lambda>c. map (\<lambda>r. f r c) (filter (\<lambda>r. P r c) xs)) ys)) = {f i j | i j. i \<in> set xs \<and> j \<in> set ys \<and> P i j}"
    for f :: "int \<Rightarrow> int \<Rightarrow> ttt_move" and P xs ys by auto
  from this [of "\<lambda>i j. ttt_Move (ttt_Location i j)" "\<lambda>i j. cell b i j = Vacant" "[0, 1, 2]" "[0, 1, 2]"]
  show ?thesis unfolding vacant_moves_def by (simp only: list.set)
qed

lemma ttt_Location_small: "0 \<le> i \<Longrightarrow> i < 3 \<Longrightarrow> 0 \<le> j \<Longrightarrow> j < 3 \<Longrightarrow> ttt_Location i j = \<lparr>tl_c = i, tl_r = j\<rparr>"
  by (simp add: ttt_Location_def to_int8_id)

lemma ttt_do_move_ok:
  assumes "ttt_board_ok (tt_board s)" "0 \<le> i" "i < 3" "0 \<le> j" "j < 3"
  shows "\<exists>s'. ttt_do_move (ttt_Move (ttt_Location i j)) s = Some s' \<and> ttt_board_ok (tt_board s') \<and> tt_no_moves s' = tt_no_moves s + 1 \<and>
    tt_player_just_moved s' = opponent (tt_player_just_moved s) \<and> tt_winner s' = tt_winner s \<and>
    (\<forall>k\<in>{0, 1, 2}. \<forall>l\<in>{0, 1, 2}. cell (tt_board s') k l =
      (if k = j \<and> l = i then opponent (tt_player_just_moved s) else cell (tt_board s) k l))"
proof -
  define b where "b = tt_board s"
  have b: "m_I b = 3" "m_J b = 3" "m_BaseI b = 0" "m_BaseJ b = 0" "length (m_data b) = 9" using assms(1) by (simp_all add: ttt_board_ok_def b_def)
  define b' where "b' = b\<lparr>m_data := (m_data b)[nat (i + j * 3) := opponent (tt_player_just_moved s)]\<rparr>"
  have p: "matrix_put b j i (opponent (tt_player_just_moved s)) = Some b'" using assms(2-5) b
    by (simp add: matrix_put_def matrix_in_def matrix_idx_def aset_def b'_def)
  have c: "cell b' k l = (if k = j \<and> l = i then opponent (tt_player_just_moved s) else cell b k l)"
    if "k \<in> {0, 1, 2}" "l \<in> {0, 1, 2}" for k l
  proof -
    have kl: "0 \<le> k" "k < 3" "0 \<le> l" "l < 3" using that by auto
    then have "nat (l + k * 3) = nat (i + j * 3) \<longleftrightarrow> l + k * 3 = i + j * 3" using assms(2-5) by (intro eq_nat_nat_iff) simp_all
    also have "\<dots> \<longleftrightarrow> k = j \<and> l = i" using kl assms(2-5) by presburger
    finally have "nat (l + k * 3) = nat (i + j * 3) \<longleftrightarrow> k = j \<and> l = i" .
    moreover have "nat (l + k * 3) < 9" using that by auto
    ultimately show ?thesis using b(5) by (auto simp: cell_def b'_def nth_list_update)
  qed
  have "ttt_do_move (ttt_Move (ttt_Location i j)) s = Some (s\<lparr>tt_move := ttt_Move \<lparr>tl_c = i, tl_r = j\<rparr>,
      tt_player_just_moved := opponent (tt_player_just_moved s), tt_board := b', tt_no_moves := tt_no_moves s + 1\<rparr>)"
    using p by (simp add: ttt_do_move_def ttt_Move_def ttt_Location_small assms b_def Let_def)
  then show ?thesis using c b by (simp add: ttt_board_ok_def b'_def b_def)
qed

text \<open>\<^verbatim>\<open>moves\<close> names a vacant cell in row \<open>i\<close> and column \<open>j\<close> by a location whose column is \<open>i\<close> and whose row is \<open>j\<close>, and \<^verbatim>\<open>move\<close> puts the stone
  into row \<open>j\<close> and column \<open>i\<close>: every move offered is played in the transposed cell, also when there is a stone in it.\<close>

theorem ttt_moves_transposed:
  assumes "ttt_board_ok (tt_board s)" "tt_winner s = Vacant" "0 \<le> tt_no_moves s" "tt_no_moves s < 9" "moves_wf m"
    "int (length (vacant_moves (tt_board s))) \<le> capacity m"
  shows "(\<exists>m'. ttt_moves s m = Some (True, m') \<and> set (contents m') =
      {ttt_Move (ttt_Location i j) | i j. i \<in> {0, 1, 2} \<and> j \<in> {0, 1, 2} \<and> cell (tt_board s) i j = Vacant}) \<and>
    (\<forall>i\<in>{0, 1, 2}. \<forall>j\<in>{0, 1, 2}. \<exists>s'. ttt_do_move (ttt_Move (ttt_Location i j)) s = Some s' \<and>
      (\<forall>k\<in>{0, 1, 2}. \<forall>l\<in>{0, 1, 2}. cell (tt_board s') k l =
        (if k = j \<and> l = i then opponent (tt_player_just_moved s) else cell (tt_board s) k l)))"
proof -
  have "m_size (clear m) + int (length (vacant_moves (tt_board s))) \<le> capacity (clear m)" using assms(6) by (simp add: clear_def capacity_def)
  from push_all_room [OF moves_wf_clear this] obtain m' where m: "push_all (clear m) (vacant_moves (tt_board s)) = Some m'"
    "contents m' = vacant_moves (tt_board s)" by auto
  have "\<exists>m'. ttt_moves s m = Some (True, m') \<and> set (contents m') =
      {ttt_Move (ttt_Location i j) | i j. i \<in> {0, 1, 2} \<and> j \<in> {0, 1, 2} \<and> cell (tt_board s) i j = Vacant}"
    unfolding ttt_moves_push [OF assms(1-4)] m(1) set_vacant_moves [symmetric] using m(2) by simp
  moreover have "\<exists>s'. ttt_do_move (ttt_Move (ttt_Location i j)) s = Some s' \<and>
      (\<forall>k\<in>{0, 1, 2}. \<forall>l\<in>{0, 1, 2}. cell (tt_board s') k l =
        (if k = j \<and> l = i then opponent (tt_player_just_moved s) else cell (tt_board s) k l))"
    if "i \<in> {0, 1, 2}" "j \<in> {0, 1, 2}" for i j
  proof -
    have b: "0 \<le> i" "i < 3" "0 \<le> j" "j < 3" using that by auto
    from ttt_do_move_ok [OF assms(1) b] obtain s' where "ttt_do_move (ttt_Move (ttt_Location i j)) s = Some s'"
      "\<forall>k\<in>{0, 1, 2}. \<forall>l\<in>{0, 1, 2}. cell (tt_board s') k l =
        (if k = j \<and> l = i then opponent (tt_player_just_moved s) else cell (tt_board s) k l)" by (elim exE conjE)
    then show ?thesis by (intro exI [of _ s'] conjI)
  qed
  ultimately show ?thesis by (intro conjI ballI)
qed

text \<open>C39: A play-out from an undecided position with more vacant cells than columns fails, since the array of moves has room for \<^verbatim>\<open>NumCols\<close>
  moves only: so does every play-out from the empty board.\<close>

theorem ttt_simulate_fails:
  assumes "ttt_board_ok (tt_board s)" "tt_winner s = Vacant" "0 \<le> tt_no_moves s" "tt_no_moves s < 9" "3 < length (vacant_moves (tt_board s))"
  shows "ttt_simulate unif s g = None"
proof -
  have c: "m_J (tt_board s) = 3" using assms(1) by (simp add: ttt_board_ok_def)
  define m where "m = moves_new 3 ttt_move_invalid"
  have "push_all (clear m) (vacant_moves (tt_board s)) = None" using assms(5)
    by (intro push_all_full) (simp_all add: m_def clear_def capacity_def moves_new_def moves_wf_def)
  then have "ttt_moves s m = None" by (simp add: ttt_moves_push [OF assms(1-4)])
  then show ?thesis unfolding ttt_simulate_def c m_def by (subst ttt_simulate_loop.simps) simp
qed

section \<open>Examples\<close>

lemma ttt_new_ok:
  "ttt_board_ok (tt_board (ttt_new 3 3 p))" "tt_winner (ttt_new 3 3 p) = Vacant" "tt_no_moves (ttt_new 3 3 p) = 0"
  "vacant_moves (tt_board (ttt_new 3 3 p)) = map (\<lambda>(i, j). ttt_Move (ttt_Location i j)) [(0, 0), (1, 0), (2, 0), (0, 1), (1, 1), (2, 1), (0, 2), (1, 2), (2, 2)]"
  by (simp_all add: ttt_new_def ttt_board_ok_def matrix_new_def vacant_moves_def cell_def nth_Cons' numeral_2_eq_2)

theorem ttt_simulate_fails_witness: "ttt_simulate uniform_mod (ttt_new 3 3 Human) (g_rng globals_init) = None"
  by (rule ttt_simulate_fails) (simp_all add: ttt_new_ok)

text \<open>Agent plays the location of column 0 and row 1, and this location is offered to the opponent again.\<close>

theorem ttt_moves_transposed_witness:
  "\<exists>s m' s'. ttt_do_move (ttt_Move (ttt_Location 0 1)) (ttt_new 3 3 Human) = Some s \<and> cell (tt_board s) 1 0 = Agent \<and>
    ttt_moves s (moves_new 9 ttt_move_invalid) = Some (True, m') \<and> ttt_Move (ttt_Location 0 1) \<in> set (contents m') \<and>
    ttt_do_move (ttt_Move (ttt_Location 0 1)) s = Some s' \<and> cell (tt_board s') 1 0 = Human"
proof -
  have p: "tt_player_just_moved (ttt_new 3 3 Human) = Human" "\<And>i j. i \<in> {0, 1, 2} \<Longrightarrow> j \<in> {0, 1, 2} \<Longrightarrow> cell (tt_board (ttt_new 3 3 Human)) i j = Vacant"
    by (auto simp: ttt_new_def cell_def matrix_new_def nth_Cons' numeral_2_eq_2)
  from ttt_do_move_ok [OF ttt_new_ok(1), of 0 1 Human] obtain s where s: "ttt_do_move (ttt_Move (ttt_Location 0 1)) (ttt_new 3 3 Human) = Some s"
    "ttt_board_ok (tt_board s)" "tt_no_moves s = 1" "tt_player_just_moved s = Agent" "tt_winner s = Vacant"
    "\<forall>k\<in>{0, 1, 2}. \<forall>l\<in>{0, 1, 2}. cell (tt_board s) k l = (if k = 1 \<and> l = 0 then Agent else cell (tt_board (ttt_new 3 3 Human)) k l)"
    by (auto simp: ttt_new_ok p(1))
  have len: "int (length (vacant_moves b)) \<le> capacity (moves_new 9 ttt_move_invalid)" for b
    by (auto simp: vacant_moves_def)
  have n: "0 \<le> tt_no_moves s" "tt_no_moves s < 9" using s(3) by simp_all
  note T = ttt_moves_transposed [OF s(2,5) n moves_wf_new len]
  from T obtain m' where m: "ttt_moves s (moves_new 9 ttt_move_invalid) = Some (True, m')"
    "set (contents m') = {ttt_Move (ttt_Location i j) | i j. i \<in> {0, 1, 2} \<and> j \<in> {0, 1, 2} \<and> cell (tt_board s) i j = Vacant}" by blast
  have "cell (tt_board s) 0 1 = Vacant" using s(6) p(2) by simp
  then have "ttt_Move (ttt_Location 0 1) \<in> set (contents m')" unfolding m(2) by blast
  moreover from T s(4) obtain s' where "ttt_do_move (ttt_Move (ttt_Location 0 1)) s = Some s'" "cell (tt_board s') 1 0 = Human" by fastforce
  moreover have "cell (tt_board s) 1 0 = Agent" using s(6) by simp
  ultimately show ?thesis using s(1) m(1) by blast
qed

theorem ttt_winner_exact_witness:
  "\<exists>s. ttt_line (tt_board s) 1 1 \<and> ttt_winner s = Some (s\<lparr>tt_winner := Human\<rparr>)"
proof -
  define s where "s = (ttt_new 3 3 Human)\<lparr>tt_board := \<lparr>m_I = 3, m_J = 3, m_BaseI = 0, m_BaseJ = 0,
    m_data = [Human, Agent, Vacant, Agent, Human, Vacant, Vacant, Vacant, Human]\<rparr>, tt_move := ttt_Move (ttt_Location 1 1)\<rparr>"
  have b: "ttt_board_ok (tt_board s)" "ttt_line (tt_board s) 1 1" "cell (tt_board s) 1 1 = Human"
    by (simp_all add: s_def ttt_board_ok_def ttt_line_def cell_def)
  have "tm_loc (tt_move s) = \<lparr>tl_c = 1, tl_r = 1\<rparr>" by (simp add: s_def ttt_Move_def ttt_Location_small)
  from ttt_winner_exact [OF b(1) _ _ _ _ this] b(2,3) show ?thesis by auto
qed

end
