(* ===== verification/Spec2Isabelle.thy ===== *)
theory Spec2Isabelle
  imports Splitmix Multi_Array Moves Rooted_Digraph_Slice Rooted_Digraph_Iter Rooted_Digraph_Concurrent Rooted_Digraph_11_Spec
    Connect_Four_Play Connect_Four_Search Connect_Four_Print Mcts_Transpositions Oska_Front
    Mcts_Archive Node_Memory_Spec Owning_Ptr_Inv TicTacToe_Rules
begin

text \<open>
  A verification of the Monte Carlo tree search programs in src/mcts: two-player board games (Connect Four, Oska, tic-tac-toe)
  played by a search that grows a directed graph of positions, and the containers, pointers, generators and memory pool
  it is built on.

  The program. \<^verbatim>\<open>main.cpp\<close> plays matches between two objects of the class \<^verbatim>\<open>Mcts\<close>, one with 20000 iterations per move and one with
  2000, which share the state of a game. In every round the object of the player to move runs \<^verbatim>\<open>compute\<close>, the move is made, and the object of
  the other player is pruned to the new state. \<^verbatim>\<open>Mcts\<close> keeps a search tree, a transposition table from Zobrist keys to nodes and a
  path from the root; it asks the game for moves, keys, play-outs and results only, and draws every random number from
  the global generator of \<^verbatim>\<open>globals.cpp\<close>, which is a splitmix generator.

  How the model is made. Every operation that can fail in the source (an assertion, an access outside of an array, a null or dangling
  pointer, an empty stack) returns an option, and \<^term>\<open>None\<close> is the failure. Objects are records that operations take and return. Integers of
  64 bits are words; indices and counters of 32 bits are integers, with the conversion \<open>to_int32\<close> where the source can exceed the range. Loops over a
  range recur on it; loops that end for a reason that has to be proved are partial functions into options, so that not returning would be \<^term>\<open>None\<close>, and every property says that the result
  is \<^term>\<open>Some\<close>. There is no fuel. The bounds in the hypotheses come from the source: 32-bit visit counts (the number of iterations times six times
  the length of a game stays below \<open>2 ^ 31\<close>), boards of at most 180 free cells for the iterations that \<^verbatim>\<open>main.cpp\<close> asks for, arrays of moves
  with the capacity of the template argument.

  Theories and sources (all sources under src/mcts):

  \<^item> \<open>Mcts_Prelude\<close>: collections of rewrite rules, integer conversions, checked array access, loops over ranges.
  \<^item> \<open>Player\<close> (player.hpp), \<open>Globals\<close> (globals.cpp, globals.hpp), \<open>Moves\<close> (moves.hpp), \<open>Multi_Array\<close> (multi_array.hpp), \<open>Splitmix\<close> (splitmix.hpp): the
    enumeration of players, the global generator and the locale \<open>uniform_dist\<close> that states what the C++ standard promises of a
    uniform distribution, the array of moves, the arrays of one to four dimensions with plain and mirrored access (one locale
    \<open>flat_index\<close> for the four index maps), and the generator with jumping ahead, stepping back, splitting and its period.
  \<^item> \<open>Connect_Four\<close> (connect_four.hpp): state and operations. \<open>Connect_Four_Winner\<close> proves the search for a line of four equal to its definition,
    \<open>Connect_Four_Game\<close> the invariant and gravity, \<open>Connect_Four_Outcome\<close> the outcome and hash recomputed from the board, \<open>Connect_Four_Play\<close>
    the reachable positions, the moves and the play-outs, \<open>Connect_Four_Print\<close> the printing of a position and its reading.
  \<^item> \<open>Oska\<close> (oska.hpp): state, static tables, moves and printing, for every size of the board that the template allows. \<open>Oska_Board\<close> relates the two perspectives of the
    board, \<open>Oska_Inv\<close> and \<open>Oska_Step\<close> show that moves keep the invariant (two mirrored boards, two lists of stones,
    two home counters, the hash), \<open>Oska_Play\<close> that each operation does what the rules say, \<open>Oska_Init\<close> that the loops of \<^verbatim>\<open>initialize\<close>
    set up the tables and the stones, \<open>Oska_Reach\<close> concrete games, \<open>Oska_Front\<close> random moves and the moves that a human enters.
  \<^item> \<open>TicTacToe\<close>, \<open>TicTacToe_Rules\<close> (old/tictactoe.hpp, old/tictactoe.cpp): the old game on the board of three by three.
  \<^item> \<open>Rooted_Digraph\<close>, \<open>Rooted_Digraph_Locking\<close> (old/stable_rooted_digraph-1.2.hpp): arenas of arcs and nodes with threaded lists, paths, slices; and the
    variants of the operations for many threads, over locks that are a parameter. \<open>Rooted_Digraph_Inv\<close> gives the representation invariant and the
    view as an abstract graph, \<open>Graph_Copy\<close> the copying of the reachable part of a graph in general, \<open>Rooted_Digraph_Slice\<close> the
    refinement and the slices, \<open>Rooted_Digraph_Iter\<close> the iterators.
  \<^item> \<open>Rooted_Digraph_Threads\<close> (the same file): many threads that add arcs and nodes to one tree. A thread is a point of the code of \<^verbatim>\<open>addArc\<close> or
    \<^verbatim>\<open>addNode\<close> with its local variables, every access to the tree and every operation on a lock is one step (at most fourteen for an
    operation), and the steps interleave at will. \<open>Rooted_Digraph_Threads_Lists\<close> treats lists whose last link is about to be written,
    \<open>Rooted_Digraph_Threads_Inv\<close> the invariant (who holds which lock, what every thread is in the middle of), \<open>Rooted_Digraph_Threads_Step\<close> and
    \<open>Rooted_Digraph_Threads_New\<close> that the steps on existing and with new elements keep it, \<open>Rooted_Digraph_Threads_Spec\<close> that it holds in every reachable state in
    which the arenas hold fewer than \<open>2 ^ 31\<close> elements, \<open>Rooted_Digraph_Concurrent\<close> what follows.
  \<^item> \<open>Rooted_Digraph_11\<close> (old/stable_rooted_digraph-1.1.hpp): the version before, with what it does in another way: additions without data, arcs and
    nodes that always have locks, printing, iterators over all arcs and nodes, random nodes, slices. \<open>Rooted_Digraph_11_Spec\<close> shows that it
    agrees with version 1.2 and builds and slices the abstract graph, and reads back what it prints.
  \<^item> \<open>Search_Tree\<close> (flat_search_tree.hpp): the interface of the tree and of the path that \<^verbatim>\<open>Mcts\<close> uses. That library is not part of the repository; the
    locales \<open>search_tree\<close> and \<open>search_path\<close> state what the search relies on, and the properties of the search hold for every tree and path that meet them. That they can be met is shown by an instance that stores
    the graph as version 1.2 does; it is not the tree that the program uses, serves closed examples only, and has two operations (a node without arcs, and its first arc) that model no code.
  \<^item> \<open>Archive\<close>: archives of the library cereal as lists of typed items, which \<open>Moves\<close>, \<open>Mcts\<close> and \<open>Mcts_Archive\<close> write and read.
  \<^item> \<open>Mcts\<close>, \<open>Mcts_Archive\<close> (mcts.hpp): data of arcs and nodes, selection, expansion, play-outs, backing up, choice of the move, pruning,
    saving and loading (nodes also with their arrays in the pool). The record \<open>mcts_env\<close> holds the tree, the path, the game, the operations on floating-point numbers of the selection formula
    and the distribution. \<open>Mcts_Inv\<close> is the invariant (every node stands for a position, its arcs and untried
    moves are the legal moves there, the table maps keys to nodes), \<open>Mcts_Search\<close> and \<open>Mcts_Compute\<close> show that every step of \<^verbatim>\<open>compute\<close> keeps it, in the locales
    \<open>game\<close> and \<open>mcts_setup\<close>; \<open>compute_states\<close> are the states whose keys a call of \<^verbatim>\<open>compute\<close> looks up, the given one and at most one for each iteration; \<open>Mcts_Prune\<close> is pruning, \<open>Mcts_Transpositions\<close> the
    count of transpositions.
  \<^item> \<open>Match\<close> (main.cpp): rounds, matches and the tally, in the locale \<open>match_setup\<close>; \<open>match_states\<close> are the states whose keys a match looks up. \<open>Connect_Four_Mcts\<close> and \<open>Oska_Mcts\<close> interpret the contracts on the
    two games, \<open>Connect_Four_Search\<close> and \<open>Oska_Search\<close> draw the conclusions.
  \<^item> \<open>Pool_Allocator\<close> (pool_allocator.hpp, pool_allocator.inl): the pool over an explicit memory of mapped regions, slots and a log of destructor calls;
    \<^verbatim>\<open>VirtualAlloc\<close> is a parameter that returns null or a page-aligned region disjoint from the others. \<open>Pool_Allocator_Inv\<close> is the invariant of the chained
    blocks and free slots, \<open>Pool_Allocator_Nodes\<close> the refinement to a map of living elements, \<open>Pool_Allocator_Destroy\<close> the destructor, \<open>Pool_Allocator_Spec\<close>
    the properties.
  \<^item> \<open>Node_Memory\<close> (mcts.hpp): the operations of \<^verbatim>\<open>NodeData\<close> once more, with the untried moves as arrays in that pool and programs that make, copy, move, assign
    and destroy nodes. \<open>Node_Memory_Spec\<close> shows that every array has at most one owner, that \<open>Mcts\<close>, which has the arrays as values, describes the same programs, and
    which arrays the copy assignment leaks.
  \<^item> \<open>Owning_Ptr\<close>, \<open>Owning_Ptr_Inv\<close> (owningptr.hpp): the two smart pointers over an explicit heap, and programs that use them.

  What the properties show. The match of \<^verbatim>\<open>main.cpp\<close> ends with a correct winner on Oska and on Connect Four, and no step fails, under one
  assumption that the transposition table rests on: the positions whose keys this very match looks up, at most one for each iteration and two for each move, have different Zobrist keys. Likewise a search
  assumes it of the positions that it looks up, and pruning of those that the search stands for; keys of other positions do not matter. A computed move is
  legal and most visited; pruning copies what can be reached. In both games the incrementally kept fields equal what the board says, the moves on offer are those
  of the rules and play-outs end. The graph refines an abstract graph and its slices are isomorphic copies; without contention the locking operations are the
  plain ones, and with many threads in any interleaving no step fails, the locks do not deadlock, and every addition is made exactly once. Version 1.1 builds and slices the same
  graphs, and what it prints can be read back, as can a printed Connect Four board and a saved node of the search. Slices of version 1.2 return exactly when the root of the source is node 0. The count of transpositions is the number of nodes with several arcs into them. The pool keeps living elements apart and intact and its destructor returns all memory, with the failing cases characterised; owners
  never delete twice. The generator has full period. Several properties state what the code does where it does not do what it means to; they are
  named as such: slices after the root was moved, moves backward of the human in Oska, transposed moves and overflowing play-outs of tic-tac-toe, blocks of the pool
  that serve one slot each, pools that are destroyed twice after a move, busy arcs that the queueing iterator drops.

  Not modelled. Of oska.hpp the hexagons of the graphical front end and the index of their centres, which only draw; the archives
  of the games, whose \<^verbatim>\<open>serialize\<close> archives the object itself; how the library cereal encodes the items of an archive, and how the libraries of the tree and of the table write theirs; \<^verbatim>\<open>Mcts::merge\<close>, which is
  written for another interface of the tree, and \<^verbatim>\<open>getVisits\<close> and \<^verbatim>\<open>getUCTFromArcs\<close>, which read members that are
  commented out; the move assignment of the pool, which reads a member that does not exist; the interleaving of the locking iterators
  with other threads (their locks are a parameter, each is one thread's run); what version 1.1 of the directed graph has in common with
  version 1.2 word by word (locking iterators, paths, links, single accesses), which is modelled once; the printing of version 1.2, which
  compares arcs with nodes and cannot be instantiated; the
  floating-point rounding of \<^verbatim>\<open>logf\<close> and \<^verbatim>\<open>sqrtf\<close>, which are parameters that no property depends on; timers, Windows resources, paths of the
  application and the Python script.
\<close>

end
